(* ===== verification/Prelude.thy ===== *)
theory Prelude
  imports Main "HOL-Library.Word"
begin

unbundle bit_operations_syntax

text \<open>
  Shared vocabulary of the development: the machine integer types of the C sources, the
  result type of the byte readers, big-endian numbers, the wrap-around of \<^verbatim>\<open>size_t\<close>
  arithmetic, and the list and word lemmas the component theories use.

  All C integers keep their width: \<^verbatim>\<open>uint8_t\<close> is \<^typ>\<open>8 word\<close> and so on.  The type
  \<^verbatim>\<open>size_t\<close> is 64 bits wide (the LP64 ABI of arm64 iOS); lengths and indices are
  \<^typ>\<open>nat\<close>, and every \<^verbatim>\<open>size_t\<close> addition whose wrap-around the source tests is
  written with \<open>size_add\<close>.
\<close>

type_synonym u8 = "8 word"
type_synonym u16 = "16 word"
type_synonym u32 = "32 word"
type_synonym u64 = "64 word"
type_synonym bytes = "u8 list"

named_theorems byte_simps \<open>rewriting of the byte-level operations\<close>
named_theorems reader_simps \<open>unfolding of the byte readers\<close>

section \<open>Size arithmetic\<close>

definition size_add :: "nat \<Rightarrow> nat \<Rightarrow> nat" where
  "size_add a b = (a + b) mod 2 ^ 64"

definition size_mul :: "nat \<Rightarrow> nat \<Rightarrow> nat" where
  "size_mul a b = (a * b) mod 2 ^ 64"

lemma size_add_small: "a + b < 2 ^ 64 \<Longrightarrow> size_add a b = a + b"
  by (simp add: size_add_def)

lemma size_mul_small: "a * b < 2 ^ 64 \<Longrightarrow> size_mul a b = a * b"
  by (simp add: size_mul_def)

lemma size_add_overflow_iff:
  assumes "a < 2 ^ 64" and "b < 2 ^ 64"
  shows "size_add a b < a \<longleftrightarrow> 2 ^ 64 \<le> a + b"
proof (cases "a + b < 2 ^ 64")
  case True
  then show ?thesis by (simp add: size_add_def)
next
  case False
  with assms have "(a + b) mod 2 ^ 64 = a + b - 2 ^ 64"
    by (simp add: mod_if)
  with False assms show ?thesis by (simp add: size_add_def)
qed

section \<open>Readers\<close>

text \<open>
  A C function that consumes input from a cursor returns 1 and an out-parameter, or 0; in
  both cases the cursor may have moved.  A reader therefore yields an optional value and
  the cursor it leaves.
\<close>

type_synonym 'a reader = "bytes \<Rightarrow> 'a option \<times> bytes"

text \<open>
  The contract between an encoder and a reader that undoes it, whatever follows: the
  interface through which the components' parsers and writers meet.
\<close>

locale codec =
  fixes enc :: "'a \<Rightarrow> bytes" and dec :: "'a reader" and valid :: "'a \<Rightarrow> bool"
  assumes dec_enc: "valid x \<Longrightarrow> dec (enc x @ rest) = (Some x, rest)"
begin

lemma enc_inj: "valid x \<Longrightarrow> valid y \<Longrightarrow> enc x = enc y \<Longrightarrow> x = y"
proof -
  assume x: "valid x" and y: "valid y" and eq: "enc x = enc y"
  have "fst (dec (enc x @ [])) = Some x" using dec_enc [OF x, of "[]"] by simp
  moreover have "fst (dec (enc y @ [])) = Some y" using dec_enc [OF y, of "[]"] by simp
  ultimately show ?thesis unfolding eq by simp
qed

text \<open>No encoding is a proper prefix of another one.\<close>

lemma enc_prefix_free:
  assumes "valid x" and "valid y" and "enc x @ xs = enc y @ ys"
  shows "x = y \<and> xs = ys"
proof -
  have "(Some x, xs) = (Some y, ys)"
    using dec_enc [OF assms(1), of xs] dec_enc [OF assms(2), of ys] unfolding assms(3) by simp
  then show ?thesis by simp
qed

end

text \<open>A reader that never gains input: it leaves a suffix of what it was given.\<close>

definition consumes :: "'a reader \<Rightarrow> bool" where
  "consumes r \<longleftrightarrow> (\<forall>s. \<exists>n \<le> length s. snd (r s) = drop n s)"

lemma consumesI: "(\<And>s. \<exists>n \<le> length s. snd (r s) = drop n s) \<Longrightarrow> consumes r"
  by (simp add: consumes_def)

lemma consumes_length: "consumes r \<Longrightarrow> length (snd (r s)) \<le> length s"
  unfolding consumes_def by (metis diff_le_self length_drop)

lemma consumes_drop: "consumes r \<Longrightarrow> snd (r s) = drop (length s - length (snd (r s))) s"
proof -
  assume "consumes r"
  then obtain n where "n \<le> length s" "snd (r s) = drop n s"
    unfolding consumes_def by blast
  then show ?thesis by simp
qed

text \<open>
  Sequencing of readers: a C function calls the first and returns 0 at once if it failed.
\<close>

definition rret :: "'a \<Rightarrow> 'a reader" where
  "rret v = (\<lambda>s. (Some v, s))"

definition rfail :: "'a reader" where
  "rfail = (\<lambda>s. (None, s))"

definition rbind :: "'a reader \<Rightarrow> ('a \<Rightarrow> 'b reader) \<Rightarrow> 'b reader" where
  "rbind r f = (\<lambda>s. case r s of (None, s') \<Rightarrow> (None, s') | (Some v, s') \<Rightarrow> f v s')"

lemmas reader_defs = rret_def rfail_def rbind_def
declare rret_def [reader_simps] rfail_def [reader_simps] rbind_def [reader_simps]

lemma rbind_eq_Some:
  "rbind r f s = (Some b, s') \<longleftrightarrow> (\<exists>a t. r s = (Some a, t) \<and> f a t = (Some b, s'))"
  by (auto simp: rbind_def split: prod.splits option.splits)

lemma consumes_rret [intro, simp]: "consumes (rret v)"
  by (auto simp: consumes_def rret_def intro: exI [of _ 0])

lemma consumes_rfail [intro, simp]: "consumes rfail"
  by (auto simp: consumes_def rfail_def intro: exI [of _ 0])

lemma consumes_rbind [intro]:
  assumes r: "consumes r" and f: "\<And>v. consumes (f v)"
  shows "consumes (rbind r f)"
proof (rule consumesI)
  fix s
  from r obtain n where n: "n \<le> length s" "snd (r s) = drop n s"
    unfolding consumes_def by blast
  show "\<exists>n \<le> length s. snd (rbind r f s) = drop n s"
  proof (cases "fst (r s)")
    case None
    with n show ?thesis by (auto simp: rbind_def split: prod.splits)
  next
    case (Some v)
    from f obtain m where "m \<le> length (drop n s)" "snd (f v (drop n s)) = drop m (drop n s)"
      unfolding consumes_def by blast
    with n Some have "snd (rbind r f s) = drop (m + n) s" "m + n \<le> length s"
      by (auto simp: rbind_def split: prod.splits)
    then show ?thesis by blast
  qed
qed

lemma consumes_if [intro]: "consumes r \<Longrightarrow> consumes r' \<Longrightarrow> consumes (if b then r else r')"
  by simp

lemma consumes_option [intro]:
  "consumes r \<Longrightarrow> (\<And>v. consumes (f v)) \<Longrightarrow> consumes (case x of None \<Rightarrow> r | Some v \<Rightarrow> f v)"
  by (simp split: option.split)

section \<open>Big-endian numbers\<close>

fun be_nat :: "bytes \<Rightarrow> nat" where
  "be_nat [] = 0"
| "be_nat (b # bs) = unat b * 256 ^ length bs + be_nat bs"

fun be_bytes :: "nat \<Rightarrow> nat \<Rightarrow> bytes" where
  "be_bytes 0 v = []"
| "be_bytes (Suc n) v = be_bytes n (v div 256) @ [of_nat v]"

lemma length_be_bytes [simp]: "length (be_bytes n v) = n"
  by (induction n arbitrary: v) auto

lemma be_nat_append [byte_simps]: "be_nat (xs @ ys) = be_nat xs * 256 ^ length ys + be_nat ys"
  by (induction xs) (auto simp: algebra_simps power_add)

lemma unat_u8_lt [simp]: "unat (b :: u8) < 256"
  using unsigned_less [of b, where 'a = nat] by simp

lemma unat_of_nat_u8 [byte_simps]: "unat (of_nat v :: u8) = v mod 256"
  by (simp add: unat_of_nat)

lemma be_nat_lt: "be_nat bs < 256 ^ length bs"
proof (induction bs)
  case Nil
  then show ?case by simp
next
  case (Cons b bs)
  have "unat b * 256 ^ length bs + be_nat bs < (unat b + 1) * 256 ^ length bs"
    using Cons by (simp add: algebra_simps)
  also have "\<dots> \<le> 256 * 256 ^ length bs"
    using unat_u8_lt [of b] by (intro mult_right_mono) linarith+
  finally show ?case by simp
qed

lemma be_nat_be_bytes: "be_nat (be_bytes n v) = v mod 256 ^ n"
proof (induction n arbitrary: v)
  case 0
  then show ?case by simp
next
  case (Suc n)
  have "v mod 256 ^ Suc n = 256 * (v div 256 mod 256 ^ n) + v mod 256"
    by (simp add: mod_mult2_eq)
  with Suc show ?case by (simp add: be_nat_append unat_of_nat_u8)
qed

lemma be_bytes_be_nat: "be_bytes (length bs) (be_nat bs) = bs"
proof (induction bs rule: rev_induct)
  case Nil
  then show ?case by simp
next
  case (snoc b bs)
  have "(be_nat bs * 256 + unat b) div 256 = be_nat bs"
    using unat_u8_lt [of b] by simp
  moreover have "of_nat (be_nat bs * 256 + unat b) = b"
    by (rule word_unat_eq_iff [THEN iffD2], unfold unat_of_nat_u8) simp
  ultimately show ?case using snoc by (simp add: be_nat_append)
qed

lemma be_nat_inj: "length xs = length ys \<Longrightarrow> be_nat xs = be_nat ys \<Longrightarrow> xs = ys"
  by (metis be_bytes_be_nat)

section \<open>Words\<close>

lemma ucast_up_down [simp]:
  "LENGTH('a) \<le> LENGTH('b) \<Longrightarrow> (ucast (ucast x :: 'b::len word) :: 'a::len word) = x"
  by (rule bit_word_eqI) (auto simp: bit_simps)

lemma unat_ucast_up: "LENGTH('a) \<le> LENGTH('b) \<Longrightarrow> unat (ucast (x :: 'a::len word) :: 'b::len word) = unat x"
  by (simp add: unsigned_ucast_eq take_bit_nat_eq_self order.strict_trans2 [OF unsigned_less])

lemma of_nat_unat_id: "of_nat (unat (x :: 'a::len word)) = x"
  by simp

lemma unat_push_bit_small:
  fixes r :: "'a::len word"
  assumes "unat r * 2 ^ k < 2 ^ LENGTH('a)"
  shows "unat (push_bit k r) = unat r * 2 ^ k"
proof -
  have "unat (push_bit k r) = take_bit LENGTH('a) (push_bit k (unat r))"
    by (rule unsigned_push_bit_eq)
  then show ?thesis
    using assms by (simp add: push_bit_eq_mult take_bit_nat_eq_self)
qed

lemma nat_push_or: "x < 2 ^ k \<Longrightarrow> push_bit k r OR x = r * 2 ^ k + (x :: nat)"
proof -
  assume x: "x < 2 ^ k"
  then have "take_bit k x = x" by (simp add: take_bit_nat_eq_self)
  moreover have "push_bit k r AND take_bit k x = 0"
    by (rule bit_eqI) (auto simp: bit_simps)
  ultimately have "push_bit k r AND x = 0" by simp
  then have "push_bit k r + x = push_bit k r OR x"
    by (rule disjunctive_add_eq_or)
  then show ?thesis by (simp add: push_bit_eq_mult)
qed

lemma push_or_disjoint:
  fixes r x :: "'a::len word"
  assumes "unat x < 2 ^ k" and "unat r * 2 ^ k < 2 ^ LENGTH('a)"
  shows "unat (push_bit k r OR x) = unat r * 2 ^ k + unat x"
proof -
  have "unat (push_bit k r OR x) = unat (push_bit k r) OR unat x"
    by (rule unsigned_or_eq)
  also have "unat (push_bit k r) = push_bit k (unat r)"
    by (simp only: unat_push_bit_small [OF assms(2)] push_bit_eq_mult [of k "unat r"])
  finally show ?thesis
    by (simp only: nat_push_or [OF assms(1)])
qed

lemma all_less_unfold:
  "(\<forall>n<numeral k. P (n::nat)) \<longleftrightarrow> (\<forall>n<pred_numeral k. P n) \<and> P (pred_numeral k)"
  by (simp add: numeral_eq_Suc All_less_Suc conj_commute)

lemma u8_eq_bits: "x = (y::u8) \<longleftrightarrow> (\<forall>n<8. bit x n = bit y n)"
  by (auto intro!: bit_word_eqI)

lemma not_bit_beyond [simp]: "LENGTH('a) \<le> n \<Longrightarrow> \<not> bit (x :: 'a::len word) n"
  using bit_imp_le_length not_less by blast

lemma of_nat_unat_ucast: "(of_nat (unat (x :: 'a::len word)) :: 'b::len word) = ucast x"
  by (simp add: word_unat_eq_iff unsigned_ucast_eq unat_of_nat take_bit_eq_mod)

lemma unat_div_drop_bit: "unat x div 2 ^ k = unat (drop_bit k (x :: 'a::len word))"
  by (simp add: unsigned_drop_bit_eq take_bit_nat_eq_self flip: drop_bit_eq_div)

lemma of_nat_unat_div:
  "(of_nat (unat x div 2 ^ k) :: 'b::len word) = ucast (drop_bit k (x :: 'a::len word))"
  by (simp only: unat_div_drop_bit of_nat_unat_ucast)

lemmas of_nat_unat_div_u8 =
  of_nat_unat_div [where k = 8 and 'b = 8, simplified] of_nat_unat_div [where k = 16 and 'b = 8, simplified]
  of_nat_unat_div [where k = 24 and 'b = 8, simplified] of_nat_unat_div [where k = 32 and 'b = 8, simplified]
  of_nat_unat_div [where k = 40 and 'b = 8, simplified] of_nat_unat_div [where k = 48 and 'b = 8, simplified]
  of_nat_unat_div [where k = 56 and 'b = 8, simplified]

lemma be_bytes_numeral: "be_bytes (numeral k) v = be_bytes (pred_numeral k) (v div 256) @ [of_nat v]"
  by (simp only: numeral_eq_Suc [of k] be_bytes.simps)

lemma be_bytes_word2: "be_bytes 2 (unat (x :: u16)) = [ucast (drop_bit 8 x), ucast x]"
  by (simp add: be_bytes_numeral of_nat_unat_ucast of_nat_unat_div_u8)

lemma be_bytes_word4:
  "be_bytes 4 (unat (x :: u32)) =
     [ucast (drop_bit 24 x), ucast (drop_bit 16 x), ucast (drop_bit 8 x), ucast x]"
  by (simp add: be_bytes_numeral of_nat_unat_ucast of_nat_unat_div_u8 flip: div_mult2_eq)

lemma be_bytes_word8:
  "be_bytes 8 (unat (x :: u64)) =
     [ucast (drop_bit 56 x), ucast (drop_bit 48 x), ucast (drop_bit 40 x), ucast (drop_bit 32 x),
      ucast (drop_bit 24 x), ucast (drop_bit 16 x), ucast (drop_bit 8 x), ucast x]"
  by (simp add: be_bytes_numeral of_nat_unat_ucast of_nat_unat_div_u8 flip: div_mult2_eq)

lemma be_bytes_inj: "be_bytes n v = be_bytes n w \<Longrightarrow> v < 256 ^ n \<Longrightarrow> w < 256 ^ n \<Longrightarrow> v = w"
  by (metis be_nat_be_bytes mod_less)

lemma be_bytes_word_inj:
  "2 ^ LENGTH('a) = (256::nat) ^ n \<Longrightarrow> be_bytes n (unat (x :: 'a::len word)) = be_bytes n (unat y) \<Longrightarrow> x = y"
  by (metis be_bytes_inj unsigned_less word_unat_eq_iff)

lemma unat_and_mask: "unat (x AND mask k) = unat (x :: 'a::len word) mod 2 ^ k"
  by (simp add: unsigned_take_bit_eq flip: take_bit_eq_mask take_bit_eq_mod)

lemma unat_and_7f: "unat ((b :: 'a::len word) AND 0x7f) = unat b mod 128"
  using unat_and_mask [of b 7] by (simp add: mask_numeral)
lemma unat_and_1f: "unat ((b :: 'a::len word) AND 0x1f) = unat b mod 32"
  using unat_and_mask [of b 5] by (simp add: mask_numeral)

lemma mod_128_high: "128 \<le> (x::nat) \<Longrightarrow> x < 256 \<Longrightarrow> x mod 128 = x - 128"
  by (simp add: le_mod_geq)

lemma u8_high_bit: "b AND 0x80 = 0 \<longleftrightarrow> unat (b :: u8) < 128"
proof -
  have "b AND 0x80 = 0 \<longleftrightarrow> \<not> bit b 7"
    using and_exp_eq_0_iff_not_bit [of b 7] by simp
  also have "bit b 7 \<longleftrightarrow> bit (unat b) 7"
    by (simp add: bit_unsigned_iff)
  also have "\<dots> \<longleftrightarrow> odd (unat b div 2 ^ 7)"
    by (rule bit_iff_odd)
  also have "odd (unat b div 2 ^ 7) \<longleftrightarrow> 128 \<le> unat b"
  proof -
    have "unat b div 128 < 2" using unat_u8_lt [of b] by (simp add: div_less_iff_less_mult)
    then consider "unat b div 128 = 0" | "unat b div 128 = 1" by linarith
    then show ?thesis by cases auto
  qed
  finally show ?thesis by auto
qed

end
