(* ===== verification/Mem.thy ===== *)
theory Mem
  imports Prelude
begin

unbundle bit_operations_syntax

text \<open>
  The memory and string helpers of \<^verbatim>\<open>crypto/mem.c\<close>.

  The C library's allocator is a parameter, \<open>alloc_env\<close>: whether a request for \<open>n\<close> bytes
  is met, and the indeterminate contents of fresh memory.  A heap block is the list of its
  bytes (\<^verbatim>\<open>OPENSSL_malloc\<close> keeps the size of a block in a hidden prefix; here it is the
  length of the list), a null pointer is \<open>None\<close>.  A C string argument is the list of the
  bytes that can be read from its start; reading past them is \<open>None\<close>.
\<close>

record alloc_env =
  can_alloc :: "nat \<Rightarrow> bool"
  junk :: "nat \<Rightarrow> u8"

text \<open>An address, where the code only stores and compares it.\<close>

type_synonym ptr = nat

abbreviation (input) NULL :: ptr where "NULL \<equiv> 0"

section \<open>Allocation\<close>

definition OPENSSL_MALLOC_PREFIX :: nat where
  "OPENSSL_MALLOC_PREFIX = 8"

definition OPENSSL_malloc :: "alloc_env \<Rightarrow> nat \<Rightarrow> bytes option" where
  "OPENSSL_malloc E sz =
     (if size_add sz OPENSSL_MALLOC_PREFIX < sz then None
      else if \<not> can_alloc E (size_add sz OPENSSL_MALLOC_PREFIX) then None
      else Some (map (junk E) [0..<sz]))"

definition OPENSSL_realloc :: "alloc_env \<Rightarrow> bytes option \<Rightarrow> nat \<Rightarrow> bytes option" where
  "OPENSSL_realloc E orig new_size =
     (case orig of
        None \<Rightarrow> OPENSSL_malloc E new_size
      | Some old \<Rightarrow>
          (let old_size = length old in
           case OPENSSL_malloc E new_size of
             None \<Rightarrow> None
           | Some ret \<Rightarrow>
               (let to_copy = (if old_size < new_size then old_size else new_size)
                in Some (take to_copy old @ drop to_copy ret))))"

definition OPENSSL_memdup :: "alloc_env \<Rightarrow> bytes \<Rightarrow> bytes option" where
  "OPENSSL_memdup E data =
     (if length data = 0 then None
      else case OPENSSL_malloc E (length data) of
             None \<Rightarrow> None
           | Some ret \<Rightarrow> Some (data @ drop (length data) ret))"

text \<open>An environment in which no allocation fails.\<close>

definition no_failures :: "alloc_env \<Rightarrow> bool" where
  "no_failures E \<longleftrightarrow> (\<forall>n. can_alloc E n)"

lemma OPENSSL_malloc_works: "no_failures E \<Longrightarrow> n + 8 < 2 ^ 64 \<Longrightarrow> OPENSSL_malloc E n = Some (map (junk E) [0..<n])"
  by (simp add: OPENSSL_malloc_def no_failures_def OPENSSL_MALLOC_PREFIX_def size_add_def)

lemma OPENSSL_malloc_length: "OPENSSL_malloc E n = Some b \<Longrightarrow> length b = n"
  by (auto simp: OPENSSL_malloc_def split: if_splits)

lemma OPENSSL_realloc_length: "OPENSSL_realloc E p n = Some b \<Longrightarrow> length b = n"
  by (auto simp: OPENSSL_realloc_def Let_def dest: OPENSSL_malloc_length split: option.splits if_splits)

lemma OPENSSL_realloc_prefix:
  "OPENSSL_realloc E (Some old) n = Some b \<Longrightarrow> length old \<le> n \<Longrightarrow> take (length old) b = old"
  by (auto simp: OPENSSL_realloc_def Let_def split: option.splits if_splits)

lemma OPENSSL_memdup_Some: "OPENSSL_memdup E data = Some b \<Longrightarrow> b = data"
  by (auto simp: OPENSSL_memdup_def dest: OPENSSL_malloc_length split: option.splits if_splits)

section \<open>Comparison and hashing\<close>

fun CRYPTO_memcmp_loop :: "bytes \<Rightarrow> bytes \<Rightarrow> nat \<Rightarrow> u8 \<Rightarrow> u8" where
  "CRYPTO_memcmp_loop a b 0 x = x"
| "CRYPTO_memcmp_loop a b (Suc n) x =
     CRYPTO_memcmp_loop (tl a) (tl b) n (x OR (hd a XOR hd b))"

definition CRYPTO_memcmp :: "bytes \<Rightarrow> bytes \<Rightarrow> nat \<Rightarrow> u8" where
  "CRYPTO_memcmp a b len = CRYPTO_memcmp_loop a b len 0"

fun OPENSSL_hash32_loop :: "bytes \<Rightarrow> u32 \<Rightarrow> u32" where
  "OPENSSL_hash32_loop [] h = h"
| "OPENSSL_hash32_loop (b # bs) h = OPENSSL_hash32_loop bs ((h XOR ucast b) * 16777619)"

definition OPENSSL_hash32 :: "bytes \<Rightarrow> u32" where
  "OPENSSL_hash32 bs = OPENSSL_hash32_loop bs 2166136261"

lemma word_or_eq_0_iff: "(x OR y = 0) \<longleftrightarrow> (x = 0 \<and> y = (0 :: 'a::len word))"
  by (auto simp: bit_eq_iff bit_simps)

lemma word_xor_eq_0_iff: "(x XOR y = 0) \<longleftrightarrow> (x = (y :: 'a::len word))"
  by (auto simp: bit_eq_iff bit_simps)

lemma CRYPTO_memcmp_loop_0:
  assumes "n \<le> length a" and "n \<le> length b"
  shows "CRYPTO_memcmp_loop a b n x = 0 \<longleftrightarrow> x = 0 \<and> take n a = take n b"
  using assms
proof (induction n arbitrary: a b x)
  case 0
  then show ?case by simp
next
  case (Suc n)
  then obtain p a' q b' where "a = p # a'" "b = q # b'"
    by (cases a; cases b) auto
  with Suc show ?case by (auto simp: word_or_eq_0_iff word_xor_eq_0_iff)
qed

lemma CRYPTO_memcmp_0:
  "n \<le> length a \<Longrightarrow> n \<le> length b \<Longrightarrow> CRYPTO_memcmp a b n = 0 \<longleftrightarrow> take n a = take n b"
  by (simp add: CRYPTO_memcmp_def CRYPTO_memcmp_loop_0)

section \<open>Strings\<close>

text \<open>
  \<^verbatim>\<open>OPENSSL_strnlen\<close> scans at most \<open>len\<close> bytes and stops at a null byte; it never reads
  beyond either.
\<close>

fun OPENSSL_strnlen :: "bytes \<Rightarrow> nat \<Rightarrow> nat" where
  "OPENSSL_strnlen s 0 = 0"
| "OPENSSL_strnlen [] (Suc len) = 0"
| "OPENSSL_strnlen (c # s) (Suc len) = (if c = 0 then 0 else Suc (OPENSSL_strnlen s len))"

definition OPENSSL_strndup :: "alloc_env \<Rightarrow> bytes \<Rightarrow> nat \<Rightarrow> bytes option" where
  "OPENSSL_strndup E str max_size =
     (let sz = OPENSSL_strnlen str max_size;
          alloc_size = size_add sz 1
      in if alloc_size < sz then None
         else case OPENSSL_malloc E alloc_size of
                None \<Rightarrow> None
              | Some ret \<Rightarrow> Some (take sz str @ [0]))"

text \<open>\<^verbatim>\<open>strlen\<close>: the offset of the first null byte, if one can be read.\<close>

fun c_strlen :: "bytes \<Rightarrow> nat option" where
  "c_strlen [] = None"
| "c_strlen (c # s) = (if c = 0 then Some 0 else map_option Suc (c_strlen s))"

definition OPENSSL_strdup :: "alloc_env \<Rightarrow> bytes option \<Rightarrow> bytes option" where
  "OPENSSL_strdup E s =
     (case s of
        None \<Rightarrow> None
      | Some str \<Rightarrow>
          (case c_strlen str of
             None \<Rightarrow> None
           | Some n \<Rightarrow>
               (let len = size_add n 1 in
                case OPENSSL_malloc E len of
                  None \<Rightarrow> None
                | Some ret \<Rightarrow> Some (take len str))))"

definition OPENSSL_strhash :: "bytes \<Rightarrow> u32 option" where
  "OPENSSL_strhash s = map_option (\<lambda>n. OPENSSL_hash32 (take n s)) (c_strlen s)"

definition OPENSSL_tolower :: "int \<Rightarrow> int" where
  "OPENSSL_tolower c = (if c \<ge> 65 \<and> c \<le> 90 then c + (97 - 65) else c)"

text \<open>Plain \<^verbatim>\<open>char\<close> is signed on the target, so a character is compared by \<^const>\<open>sint\<close>.\<close>

fun OPENSSL_strcasecmp :: "bytes \<Rightarrow> bytes \<Rightarrow> int option" where
  "OPENSSL_strcasecmp (a # as) (b # bs) =
     (let aa = OPENSSL_tolower (sint a); bb = OPENSSL_tolower (sint b) in
      if aa < bb then Some (-1)
      else if aa > bb then Some 1
      else if aa = 0 then Some 0
      else OPENSSL_strcasecmp as bs)"
| "OPENSSL_strcasecmp _ _ = None"

fun OPENSSL_strncasecmp :: "bytes \<Rightarrow> bytes \<Rightarrow> nat \<Rightarrow> int option" where
  "OPENSSL_strncasecmp _ _ 0 = Some 0"
| "OPENSSL_strncasecmp (a # as) (b # bs) (Suc n) =
     (let aa = OPENSSL_tolower (sint a); bb = OPENSSL_tolower (sint b) in
      if aa < bb then Some (-1)
      else if aa > bb then Some 1
      else if aa = 0 then Some 0
      else OPENSSL_strncasecmp as bs n)"
| "OPENSSL_strncasecmp _ _ (Suc n) = None"

text \<open>
  The bounded copies write into \<open>dst\<close>, the bytes of the destination buffer, and return
  it with the length they report; \<open>None\<close> when a read or write leaves its buffer.
\<close>

fun OPENSSL_strlcpy :: "bytes \<Rightarrow> bytes \<Rightarrow> nat \<Rightarrow> (bytes \<times> nat) option" where
  "OPENSSL_strlcpy dst [] dst_size = None"
| "OPENSSL_strlcpy dst (c # src) dst_size =
     (if dst_size > 1 \<and> c \<noteq> 0 then
        (case dst of
           [] \<Rightarrow> None
         | _ # dst' \<Rightarrow>
             map_option (\<lambda>(d, l). (c # d, l + 1)) (OPENSSL_strlcpy dst' src (dst_size - 1)))
      else if dst_size > 0 then
        (case dst of
           [] \<Rightarrow> None
         | _ # dst' \<Rightarrow> map_option (\<lambda>l. (0 # dst', l)) (c_strlen (c # src)))
      else map_option (\<lambda>l. (dst, l)) (c_strlen (c # src)))"

fun OPENSSL_strlcat :: "bytes \<Rightarrow> bytes \<Rightarrow> nat \<Rightarrow> (bytes \<times> nat) option" where
  "OPENSSL_strlcat [] src dst_size =
     (if dst_size > 0 then None else OPENSSL_strlcpy [] src dst_size)"
| "OPENSSL_strlcat (d # dst) src dst_size =
     (if dst_size > 0 \<and> d \<noteq> 0
      then map_option (\<lambda>(r, l). (d # r, l + 1)) (OPENSSL_strlcat dst src (dst_size - 1))
      else OPENSSL_strlcpy (d # dst) src dst_size)"

subsection \<open>What the bounded string functions guarantee\<close>

text \<open>The C string at the start of a buffer: the bytes before the first null byte.\<close>

definition c_str :: "bytes \<Rightarrow> bytes" where
  "c_str s = takeWhile (\<lambda>c. c \<noteq> 0) s"

lemma c_strlen_c_str: "c_strlen s = (if 0 \<in> set s then Some (length (c_str s)) else None)"
  by (induction s) (auto simp: c_str_def)

lemma c_str_zero_free: "0 \<notin> set (c_str s)"
  by (auto simp: c_str_def dest: set_takeWhileD)

lemma OPENSSL_strnlen_eq: "OPENSSL_strnlen s n = length (c_str (take n s))"
  by (induction s n rule: OPENSSL_strnlen.induct) (auto simp: c_str_def)

lemma take_strnlen: "take (OPENSSL_strnlen s n) s = c_str (take n s)"
  by (induction s n rule: OPENSSL_strnlen.induct) (auto simp: c_str_def)

lemma strlcpy_result:
  assumes "0 \<in> set src" and "0 < n" and "n \<le> length dst"
  shows "\<exists>dst'. OPENSSL_strlcpy dst src n = Some (dst', length (c_str src))
           \<and> length dst' = length dst \<and> 0 \<in> set (take n dst')
           \<and> c_str dst' = take (n - 1) (c_str src) \<and> drop n dst' = drop n dst"
  using assms
proof (induction dst src n rule: OPENSSL_strlcpy.induct)
  case (1 dst n)
  then show ?case by simp
next
  case (2 dst c src n)
  then obtain d dst1 where dst: "dst = d # dst1" by (cases dst) auto
  show ?case
  proof (cases "n > 1 \<and> c \<noteq> 0")
    case True
    with 2 dst obtain dst' where IH: "OPENSSL_strlcpy dst1 src (n - 1) = Some (dst', length (c_str src))"
      "length dst' = length dst1" "0 \<in> set (take (n - 1) dst')"
      "c_str dst' = take (n - 1 - 1) (c_str src)" "drop (n - 1) dst' = drop (n - 1) dst1"
      by fastforce
    from True obtain m where n: "n = Suc (Suc m)"
      by (metis Suc_lessD less_imp_Suc_add One_nat_def add_Suc)
    from True IH dst n show ?thesis by (auto simp: c_str_def)
  next
    case False
    then consider "c = 0" | "n = 1" using 2 by linarith
    then show ?thesis
    proof cases
      case 1
      with dst 2 show ?thesis by (cases n) (auto simp: c_str_def)
    next
      case 2
      with dst "2.prems" False show ?thesis
        by (auto simp: c_str_def c_strlen_c_str)
    qed
  qed
qed

end
