(* ===== verification/CBS.thy ===== *)
theory CBS
  imports Mem
begin

unbundle bit_operations_syntax

text \<open>
  \<^verbatim>\<open>crypto/bytestring/cbs.c\<close>: reading bytes, integers, length-prefixed strings and
  DER/BER elements from a byte string (\<^verbatim>\<open>CBS\<close>).

  A \<^verbatim>\<open>CBS\<close> is a pointer and a length into memory nobody writes while it is read, so it is
  the list of the bytes it spans.  Every function that takes a \<^verbatim>\<open>CBS *\<close> is a reader: it
  returns its out-parameters, if it succeeds, and the remaining \<^verbatim>\<open>CBS\<close>; a failing call may
  have moved the cursor, as in the source.  Out-parameters are not read after a failure and
  have no value then.
\<close>

type_synonym cbs = bytes

section \<open>Bytes and integers\<close>

definition CBS_init :: "bytes \<Rightarrow> nat \<Rightarrow> cbs" where
  "CBS_init data len = take len data"

definition cbs_get :: "nat \<Rightarrow> bytes reader" where
  "cbs_get n = (\<lambda>cbs. if length cbs < n then (None, cbs) else (Some (take n cbs), drop n cbs))"

definition CBS_skip :: "nat \<Rightarrow> unit reader" where
  "CBS_skip len = rbind (cbs_get len) (\<lambda>_. rret ())"

definition CBS_data :: "cbs \<Rightarrow> bytes" where
  "CBS_data cbs = cbs"

definition CBS_len :: "cbs \<Rightarrow> nat" where
  "CBS_len cbs = length cbs"

text \<open>\<^verbatim>\<open>CBS_stow\<close>: the success flag, and the copy with its length.\<close>

definition CBS_stow :: "alloc_env \<Rightarrow> cbs \<Rightarrow> bool \<times> bytes option \<times> nat" where
  "CBS_stow E cbs =
     (if CBS_len cbs = 0 then (True, None, 0)
      else case OPENSSL_memdup E cbs of
             None \<Rightarrow> (False, None, 0)
           | Some p \<Rightarrow> (True, Some p, CBS_len cbs))"

definition CBS_strdup :: "alloc_env \<Rightarrow> cbs \<Rightarrow> bytes option" where
  "CBS_strdup E cbs = OPENSSL_strndup E cbs (CBS_len cbs)"

text \<open>\<^verbatim>\<open>OPENSSL_memchr\<close>: the offset of the first occurrence.\<close>

fun memchr :: "bytes \<Rightarrow> u8 \<Rightarrow> nat option" where
  "memchr [] c = None"
| "memchr (b # bs) c = (if b = c then Some 0 else map_option Suc (memchr bs c))"

definition CBS_contains_zero_byte :: "cbs \<Rightarrow> bool" where
  "CBS_contains_zero_byte cbs = (memchr cbs 0 \<noteq> None)"

definition CBS_mem_equal :: "cbs \<Rightarrow> bytes \<Rightarrow> nat \<Rightarrow> bool" where
  "CBS_mem_equal cbs data len =
     (if len \<noteq> CBS_len cbs then False else CRYPTO_memcmp cbs data len = 0)"

fun be_word :: "u64 \<Rightarrow> bytes \<Rightarrow> u64" where
  "be_word r [] = r"
| "be_word r (b # bs) = be_word (push_bit 8 r OR ucast b) bs"

definition cbs_get_u :: "nat \<Rightarrow> u64 reader" where
  "cbs_get_u len = rbind (cbs_get len) (\<lambda>data. rret (be_word 0 data))"

definition CBS_get_u8 :: "u8 reader" where
  "CBS_get_u8 = rbind (cbs_get 1) (\<lambda>v. rret (hd v))"

definition CBS_get_u16 :: "u16 reader" where
  "CBS_get_u16 = rbind (cbs_get_u 2) (\<lambda>v. rret (ucast v))"

definition CRYPTO_bswap2 :: "u16 \<Rightarrow> u16" where
  "CRYPTO_bswap2 x = (drop_bit 8 x) OR (push_bit 8 x)"

definition CRYPTO_bswap4 :: "u32 \<Rightarrow> u32" where
  "CRYPTO_bswap4 x =
     (let x = (drop_bit 16 x) OR (push_bit 16 x)
      in (drop_bit 8 (x AND 0xff00ff00)) OR (push_bit 8 (x AND 0x00ff00ff)))"

definition CRYPTO_bswap8 :: "u64 \<Rightarrow> u64" where
  "CRYPTO_bswap8 x =
     (ucast (CRYPTO_bswap4 (ucast (drop_bit 32 x)))) OR
     (push_bit 32 (ucast (CRYPTO_bswap4 (ucast x))))"

definition CBS_get_u16le :: "u16 reader" where
  "CBS_get_u16le = rbind CBS_get_u16 (\<lambda>v. rret (CRYPTO_bswap2 v))"

definition CBS_get_u24 :: "u32 reader" where
  "CBS_get_u24 = rbind (cbs_get_u 3) (\<lambda>v. rret (ucast v))"

definition CBS_get_u32 :: "u32 reader" where
  "CBS_get_u32 = rbind (cbs_get_u 4) (\<lambda>v. rret (ucast v))"

definition CBS_get_u32le :: "u32 reader" where
  "CBS_get_u32le = rbind CBS_get_u32 (\<lambda>v. rret (CRYPTO_bswap4 v))"

definition CBS_get_u64 :: "u64 reader" where
  "CBS_get_u64 = cbs_get_u 8"

definition CBS_get_u64le :: "u64 reader" where
  "CBS_get_u64le = rbind (cbs_get_u 8) (\<lambda>v. rret (CRYPTO_bswap8 v))"

definition CBS_get_last_u8 :: "u8 reader" where
  "CBS_get_last_u8 = (\<lambda>cbs. if length cbs = 0 then (None, cbs) else (Some (last cbs), butlast cbs))"

definition CBS_get_bytes :: "nat \<Rightarrow> cbs reader" where
  "CBS_get_bytes len = rbind (cbs_get len) (\<lambda>v. rret (CBS_init v len))"

text \<open>\<^verbatim>\<open>CBS_copy_bytes\<close> writes \<open>len\<close> bytes to the buffer \<open>out\<close>, whose other bytes stay.\<close>

definition CBS_copy_bytes :: "bytes \<Rightarrow> nat \<Rightarrow> bytes reader" where
  "CBS_copy_bytes out len = rbind (cbs_get len) (\<lambda>v. rret (v @ drop len out))"

definition cbs_get_length_prefixed :: "nat \<Rightarrow> cbs reader" where
  "cbs_get_length_prefixed len_len = rbind (cbs_get_u len_len) (\<lambda>len. CBS_get_bytes (unat len))"

definition CBS_get_u8_length_prefixed :: "cbs reader" where
  "CBS_get_u8_length_prefixed = cbs_get_length_prefixed 1"

definition CBS_get_u16_length_prefixed :: "cbs reader" where
  "CBS_get_u16_length_prefixed = cbs_get_length_prefixed 2"

definition CBS_get_u24_length_prefixed :: "cbs reader" where
  "CBS_get_u24_length_prefixed = cbs_get_length_prefixed 3"

definition CBS_get_until_first :: "u8 \<Rightarrow> cbs reader" where
  "CBS_get_until_first c = (\<lambda>cbs.
     case memchr (CBS_data cbs) c of
       None \<Rightarrow> (None, cbs)
     | Some split \<Rightarrow> CBS_get_bytes split cbs)"

section \<open>ASN.1 identifiers and elements\<close>

definition CBS_ASN1_TAG_SHIFT :: nat where "CBS_ASN1_TAG_SHIFT = 24"
definition CBS_ASN1_CONSTRUCTED :: u32 where "CBS_ASN1_CONSTRUCTED = 0x20000000"
definition CBS_ASN1_TAG_NUMBER_MASK :: u32 where "CBS_ASN1_TAG_NUMBER_MASK = 0x1fffffff"
definition CBS_ASN1_BOOLEAN :: u32 where "CBS_ASN1_BOOLEAN = 1"
definition CBS_ASN1_INTEGER :: u32 where "CBS_ASN1_INTEGER = 2"
definition CBS_ASN1_OCTETSTRING :: u32 where "CBS_ASN1_OCTETSTRING = 4"

fun parse_base128_loop :: "u64 \<Rightarrow> u64 reader" where
  "parse_base128_loop v [] = (None, [])"
| "parse_base128_loop v (b # cbs) =
     (if drop_bit (64 - 7) v \<noteq> 0 then (None, cbs)
      else if v = 0 \<and> b = 0x80 then (None, cbs)
      else
        let v' = push_bit 7 v OR ucast (b AND 0x7f)
        in if b AND 0x80 \<noteq> 0 then parse_base128_loop v' cbs else (Some v', cbs))"

definition parse_base128_integer :: "u64 reader" where
  "parse_base128_integer = parse_base128_loop 0"

definition parse_asn1_tag :: "u32 reader" where
  "parse_asn1_tag = rbind CBS_get_u8 (\<lambda>tag_byte.
     let tag = push_bit CBS_ASN1_TAG_SHIFT (ucast tag_byte AND 0xe0);
         tag_number = ucast (tag_byte AND 0x1f)
     in if tag_number = 0x1f
        then rbind parse_base128_integer (\<lambda>v.
               if v > ucast CBS_ASN1_TAG_NUMBER_MASK \<or> v < 0x1f then rfail
               else rret (tag OR ucast v))
        else rret (tag OR tag_number))"

text \<open>The out-parameters of \<^verbatim>\<open>cbs_get_any_asn1_element\<close>.\<close>

record asn1_element =
  el_out :: cbs
  el_tag :: u32
  el_header_len :: nat
  el_ber_found :: bool

definition get_element_bytes :: "nat \<Rightarrow> u32 \<Rightarrow> nat \<Rightarrow> bool \<Rightarrow> asn1_element reader" where
  "get_element_bytes len tag header_len ber_found =
     rbind (CBS_get_bytes len) (\<lambda>out.
       rret \<lparr>el_out = out, el_tag = tag, el_header_len = header_len, el_ber_found = ber_found\<rparr>)"

definition cbs_get_any_asn1_element :: "bool \<Rightarrow> asn1_element reader" where
  "cbs_get_any_asn1_element ber_ok = (\<lambda>cbs.
     case parse_asn1_tag cbs of
       (None, _) \<Rightarrow> (None, cbs)
     | (Some tag, header) \<Rightarrow>
       (case CBS_get_u8 header of
          (None, _) \<Rightarrow> (None, cbs)
        | (Some length_byte, header) \<Rightarrow>
          (let header_len = CBS_len cbs - CBS_len header in
           if length_byte AND 0x80 = 0 then
             get_element_bytes (unat length_byte + header_len) tag header_len False cbs
           else
             let num_bytes = unat (length_byte AND 0x7f) in
             if ber_ok \<and> tag AND CBS_ASN1_CONSTRUCTED \<noteq> 0 \<and> num_bytes = 0 then
               get_element_bytes header_len tag header_len True cbs
             else if num_bytes = 0 \<or> num_bytes > 4 then (None, cbs)
             else
               case cbs_get_u num_bytes header of
                 (None, _) \<Rightarrow> (None, cbs)
               | (Some len64, _) \<Rightarrow>
                 if len64 < 128 \<and> \<not> ber_ok then (None, cbs)
                 else if drop_bit ((num_bytes - 1) * 8) len64 = 0 \<and> \<not> ber_ok then (None, cbs)
                 else
                   let ber_found = (len64 < 128 \<or> drop_bit ((num_bytes - 1) * 8) len64 = 0);
                       len = unat len64
                   in if size_add (size_add len header_len) num_bytes < len then (None, cbs)
                      else get_element_bytes (size_add len (size_add header_len num_bytes))
                             tag (header_len + num_bytes) ber_found cbs)))"

definition CBS_get_any_asn1_element :: "asn1_element reader" where
  "CBS_get_any_asn1_element = cbs_get_any_asn1_element False"

definition CBS_get_any_ber_asn1_element :: "asn1_element reader" where
  "CBS_get_any_ber_asn1_element = cbs_get_any_asn1_element True"

definition CBS_get_any_asn1 :: "(cbs \<times> u32) reader" where
  "CBS_get_any_asn1 = rbind CBS_get_any_asn1_element (\<lambda>el.
     case CBS_skip (el_header_len el) (el_out el) of
       (None, _) \<Rightarrow> rfail
     | (Some _, out) \<Rightarrow> rret (out, el_tag el))"

definition cbs_get_asn1 :: "u32 \<Rightarrow> bool \<Rightarrow> cbs reader" where
  "cbs_get_asn1 tag_value skip_header = rbind CBS_get_any_asn1_element (\<lambda>el.
     if el_tag el \<noteq> tag_value then rfail
     else if skip_header then
       (case CBS_skip (el_header_len el) (el_out el) of
          (None, _) \<Rightarrow> rfail
        | (Some _, out) \<Rightarrow> rret out)
     else rret (el_out el))"

definition CBS_get_asn1 :: "u32 \<Rightarrow> cbs reader" where
  "CBS_get_asn1 tag_value = cbs_get_asn1 tag_value True"

definition CBS_get_asn1_element :: "u32 \<Rightarrow> cbs reader" where
  "CBS_get_asn1_element tag_value = cbs_get_asn1 tag_value False"

definition CBS_peek_asn1_tag :: "cbs \<Rightarrow> u32 \<Rightarrow> bool" where
  "CBS_peek_asn1_tag cbs tag_value =
     (if CBS_len cbs < 1 then False
      else case parse_asn1_tag cbs of
             (None, _) \<Rightarrow> False
           | (Some actual_tag, _) \<Rightarrow> tag_value = actual_tag)"

section \<open>ASN.1 values\<close>

definition CBS_is_valid_asn1_integer :: "cbs \<Rightarrow> bool option" where
  \<comment> \<open>\<open>Some is_negative\<close> when the function returns 1\<close>
  "CBS_is_valid_asn1_integer cbs =
     (case CBS_get_u8 cbs of
        (None, _) \<Rightarrow> None
      | (Some first_byte, copy) \<Rightarrow>
        (let is_negative = (first_byte AND 0x80 \<noteq> 0) in
         case CBS_get_u8 copy of
           (None, _) \<Rightarrow> Some is_negative
         | (Some second_byte, _) \<Rightarrow>
           if (first_byte = 0x00 \<and> second_byte AND 0x80 = 0) \<or>
              (first_byte = 0xff \<and> second_byte AND 0x80 \<noteq> 0)
           then None else Some is_negative))"

definition CBS_is_unsigned_asn1_integer :: "cbs \<Rightarrow> bool" where
  "CBS_is_unsigned_asn1_integer cbs = (CBS_is_valid_asn1_integer cbs = Some False)"

fun asn1_uint64_loop :: "u64 \<Rightarrow> bytes \<Rightarrow> u64 option" where
  "asn1_uint64_loop out [] = Some out"
| "asn1_uint64_loop out (b # data) =
     (if drop_bit 56 out \<noteq> 0 then None
      else asn1_uint64_loop (push_bit 8 out OR ucast b) data)"

definition CBS_get_asn1_uint64 :: "u64 reader" where
  "CBS_get_asn1_uint64 = rbind (CBS_get_asn1 CBS_ASN1_INTEGER) (\<lambda>bytes.
     if \<not> CBS_is_unsigned_asn1_integer bytes then rfail
     else case asn1_uint64_loop 0 bytes of None \<Rightarrow> rfail | Some out \<Rightarrow> rret out)"

text \<open>
  The value of the eight bytes of a little-endian \<^verbatim>\<open>int64_t\<close>, lowest address first, as the
  64-bit pattern; \<^const>\<open>sint\<close> reads it.
\<close>

definition le_word :: "bytes \<Rightarrow> u64" where
  "le_word bs = be_word 0 (rev bs)"

fun copy_reversed :: "nat \<Rightarrow> bytes \<Rightarrow> nat \<Rightarrow> bytes \<Rightarrow> bytes" where
  \<comment> \<open>the loop \<^verbatim>\<open>for (i = 0; i < len; i++) u.bytes[i] = data[len - i - 1]\<close>, from the end\<close>
  "copy_reversed len data 0 u = u"
| "copy_reversed len data (Suc i) u = (copy_reversed len data i u)[i := data ! (len - i - 1)]"

definition CBS_get_asn1_int64 :: "u64 reader" where
  "CBS_get_asn1_int64 = rbind (CBS_get_asn1 CBS_ASN1_INTEGER) (\<lambda>data.
     case CBS_is_valid_asn1_integer data of
       None \<Rightarrow> rfail
     | Some is_negative \<Rightarrow>
       (let len = CBS_len data in
        if len > 8 then rfail
        else rret (le_word (copy_reversed len data len
                              (replicate 8 (if is_negative then 0xff else 0))))))"

definition CBS_get_asn1_bool :: "bool reader" where
  "CBS_get_asn1_bool = rbind (CBS_get_asn1 CBS_ASN1_BOOLEAN) (\<lambda>bytes.
     if CBS_len bytes \<noteq> 1 then rfail
     else let val = hd bytes in
          if val \<noteq> 0 \<and> val \<noteq> 0xff then rfail else rret (val \<noteq> 0))"

definition CBS_get_optional_asn1 :: "u32 \<Rightarrow> cbs option reader" where
  "CBS_get_optional_asn1 tag = (\<lambda>cbs.
     if CBS_peek_asn1_tag cbs tag
     then rbind (CBS_get_asn1 tag) (\<lambda>out. rret (Some out)) cbs
     else (Some None, cbs))"

text \<open>The contents and the presence flag; an absent string is the empty \<^verbatim>\<open>CBS\<close>.\<close>

definition CBS_get_optional_asn1_octet_string :: "u32 \<Rightarrow> (cbs \<times> bool) reader" where
  "CBS_get_optional_asn1_octet_string tag = rbind (CBS_get_optional_asn1 tag) (\<lambda>child.
     case child of
       Some child \<Rightarrow>
         (case CBS_get_asn1 CBS_ASN1_OCTETSTRING child of
            (None, _) \<Rightarrow> rfail
          | (Some out, child) \<Rightarrow> if CBS_len child \<noteq> 0 then rfail else rret (out, True))
     | None \<Rightarrow> rret ([], False))"

definition CBS_get_optional_asn1_uint64 :: "u32 \<Rightarrow> u64 \<Rightarrow> u64 reader" where
  "CBS_get_optional_asn1_uint64 tag default_value = rbind (CBS_get_optional_asn1 tag) (\<lambda>child.
     case child of
       Some child \<Rightarrow>
         (case CBS_get_asn1_uint64 child of
            (None, _) \<Rightarrow> rfail
          | (Some out, child) \<Rightarrow> if CBS_len child \<noteq> 0 then rfail else rret out)
     | None \<Rightarrow> rret default_value)"

definition CBS_get_optional_asn1_bool :: "u32 \<Rightarrow> bool \<Rightarrow> bool reader" where
  "CBS_get_optional_asn1_bool tag default_value = rbind (CBS_get_optional_asn1 tag) (\<lambda>child.
     case child of
       Some child \<Rightarrow>
         (case CBS_get_asn1 CBS_ASN1_BOOLEAN child of
            (None, _) \<Rightarrow> rfail
          | (Some child2, child) \<Rightarrow>
            if CBS_len child2 \<noteq> 1 \<or> CBS_len child \<noteq> 0 then rfail
            else let boolean = hd child2 in
                 if boolean = 0 then rret False
                 else if boolean = 0xff then rret True
                 else rfail)
     | None \<Rightarrow> rret default_value)"

definition CBS_is_valid_asn1_bitstring :: "cbs \<Rightarrow> bool" where
  "CBS_is_valid_asn1_bitstring cbs =
     (case CBS_get_u8 cbs of
        (None, _) \<Rightarrow> False
      | (Some num_unused_bits, inp) \<Rightarrow>
        if num_unused_bits > 7 then False
        else if num_unused_bits = 0 then True
        else case CBS_get_last_u8 inp of
               (None, _) \<Rightarrow> False
             | (Some lst, _) \<Rightarrow> lst AND (push_bit (unat num_unused_bits) 1 - 1) = 0)"

definition CBS_asn1_bitstring_has_bit :: "cbs \<Rightarrow> u32 \<Rightarrow> bool" where
  "CBS_asn1_bitstring_has_bit cbs b =
     (if \<not> CBS_is_valid_asn1_bitstring cbs then False
      else
        let byte_num = unat (drop_bit 3 b) + 1;
            bit_num = 7 - unat (b AND 7)
        in byte_num < CBS_len cbs \<and> (CBS_data cbs ! byte_num) AND push_bit bit_num 1 \<noteq> 0)"

section \<open>Lemmas: bytes and integers\<close>

lemma cbs_get_append [simp]: "length p = n \<Longrightarrow> cbs_get n (p @ r) = (Some p, r)"
  by (simp add: cbs_get_def)

lemma cbs_get_Some: "cbs_get n s = (Some p, t) \<longleftrightarrow> length p = n \<and> s = p @ t"
  by (auto simp: cbs_get_def)

lemma CBS_skip_append [simp]: "length p = n \<Longrightarrow> CBS_skip n (p @ r) = (Some (), r)"
  by (simp add: CBS_skip_def reader_simps)

lemma CBS_get_u8_Cons [simp]: "CBS_get_u8 (b # s) = (Some b, s)"
  by (simp add: CBS_get_u8_def cbs_get_def reader_simps)

lemma CBS_get_u8_Nil [simp]: "CBS_get_u8 [] = (None, [])"
  by (simp add: CBS_get_u8_def cbs_get_def reader_simps)

lemma CBS_get_u8_Some: "CBS_get_u8 s = (Some b, t) \<longleftrightarrow> s = b # t"
  by (cases s) auto

lemma CBS_get_bytes_append [simp]: "length p = n \<Longrightarrow> CBS_get_bytes n (p @ r) = (Some p, r)"
  by (simp add: CBS_get_bytes_def CBS_init_def reader_simps)

lemma CBS_get_bytes_Some: "CBS_get_bytes n s = (Some p, t) \<longleftrightarrow> length p = n \<and> s = p @ t"
  by (auto simp: CBS_get_bytes_def CBS_init_def rbind_eq_Some cbs_get_Some rret_def)

lemma CBS_get_bytes_None: "CBS_get_bytes n s = (None, t) \<longleftrightarrow> length s < n \<and> t = s"
  by (auto simp: CBS_get_bytes_def cbs_get_def reader_simps split: prod.splits)

lemma unat_be_word:
  assumes "unat r * 256 ^ length bs + be_nat bs < 2 ^ 64"
  shows "unat (be_word r bs) = unat r * 256 ^ length bs + be_nat bs"
  using assms
proof (induction bs arbitrary: r)
  case Nil
  then show ?case by simp
next
  case (Cons b bs)
  let ?r = "push_bit 8 r OR ucast b :: u64"
  have "unat r * 2 ^ 8 \<le> unat r * 256 ^ length (b # bs)"
    by (intro mult_left_mono) simp_all
  also have "\<dots> < 2 ^ 64" using Cons.prems by simp
  finally have r: "unat r * 2 ^ 8 < 2 ^ LENGTH(64)" by simp
  have r': "unat ?r = unat r * 2 ^ 8 + unat b"
    using push_or_disjoint [OF _ r, of "ucast b"] by (simp add: unat_ucast_up)
  have "unat ?r * 256 ^ length bs + be_nat bs = unat r * 256 ^ length (b # bs) + be_nat (b # bs)"
    unfolding r' by (simp add: algebra_simps)
  with Cons show ?case by simp
qed

lemma unat_be_word_0: "length bs \<le> 8 \<Longrightarrow> unat (be_word 0 bs) = be_nat bs"
proof -
  assume "length bs \<le> 8"
  then have "(256::nat) ^ length bs \<le> 256 ^ 8" by (intro power_increasing) simp_all
  with be_nat_lt [of bs] have "be_nat bs < 2 ^ 64" by simp
  then show ?thesis using unat_be_word [of 0 bs] by simp
qed

lemma be_word_0: "length bs \<le> 8 \<Longrightarrow> be_word 0 bs = of_nat (be_nat bs)"
  by (metis unat_be_word_0 of_nat_unat_id)

lemma cbs_get_u_Some:
  "n \<le> 8 \<Longrightarrow> cbs_get_u n s = (Some v, t) \<longleftrightarrow> (\<exists>p. length p = n \<and> s = p @ t \<and> v = of_nat (be_nat p))"
  by (auto simp: cbs_get_u_def rbind_eq_Some cbs_get_Some rret_def be_word_0)

lemma cbs_get_u_None: "cbs_get_u n s = (None, t) \<longleftrightarrow> length s < n \<and> t = s"
  by (auto simp: cbs_get_u_def cbs_get_def reader_simps split: prod.splits)

lemma cbs_get_u_be_bytes:
  "n \<le> 8 \<Longrightarrow> v < 256 ^ n \<Longrightarrow> cbs_get_u n (be_bytes n v @ r) = (Some (of_nat v), r)"
  by (subst cbs_get_u_Some) (auto intro!: exI [of _ "be_bytes n v"] simp: be_nat_be_bytes)

subsection \<open>The fixed-width readers undo the big-endian encodings\<close>

interpretation u8: codec "\<lambda>v. [v]" CBS_get_u8 "\<lambda>_. True"
  by unfold_locales simp

interpretation u16: codec "\<lambda>v. be_bytes 2 (unat v)" CBS_get_u16 "\<lambda>_. True"
proof unfold_locales
  fix x :: u16 and rest
  have "unat x < 256 ^ 2" using unsigned_less [of x, where 'a = nat] by simp
  then show "CBS_get_u16 (be_bytes 2 (unat x) @ rest) = (Some x, rest)"
    by (simp add: CBS_get_u16_def cbs_get_u_be_bytes reader_simps)
qed

interpretation u24: codec "\<lambda>v. be_bytes 3 (unat v)" CBS_get_u24 "\<lambda>v. unat v < 2 ^ 24"
  by unfold_locales (simp add: CBS_get_u24_def cbs_get_u_be_bytes reader_simps)

interpretation u32: codec "\<lambda>v. be_bytes 4 (unat v)" CBS_get_u32 "\<lambda>_. True"
proof unfold_locales
  fix x :: u32 and rest
  have "unat x < 256 ^ 4" using unsigned_less [of x, where 'a = nat] by simp
  then show "CBS_get_u32 (be_bytes 4 (unat x) @ rest) = (Some x, rest)"
    by (simp add: CBS_get_u32_def cbs_get_u_be_bytes reader_simps)
qed

interpretation u64: codec "\<lambda>v. be_bytes 8 (unat v)" CBS_get_u64 "\<lambda>_. True"
proof unfold_locales
  fix x :: u64 and rest
  have "unat x < 256 ^ 8" using unsigned_less [of x, where 'a = nat] by simp
  then show "CBS_get_u64 (be_bytes 8 (unat x) @ rest) = (Some x, rest)"
    by (simp add: CBS_get_u64_def cbs_get_u_be_bytes)
qed

lemma cbs_get_length_prefixed_enc:
  "n \<le> 8 \<Longrightarrow> length bs < 256 ^ n \<Longrightarrow>
   cbs_get_length_prefixed n (be_bytes n (length bs) @ bs @ rest) = (Some bs, rest)"
proof -
  assume n: "n \<le> 8" and len: "length bs < 256 ^ n"
  have "(256::nat) ^ n \<le> 256 ^ 8" using n by (intro power_increasing) simp_all
  with len have "unat (of_nat (length bs) :: u64) = length bs"
    by (simp add: unat_of_nat)
  then show ?thesis
    by (simp add: cbs_get_length_prefixed_def cbs_get_u_be_bytes [OF n len] reader_simps)
qed

interpretation u8_prefixed: codec "\<lambda>bs. be_bytes 1 (length bs) @ bs" CBS_get_u8_length_prefixed "\<lambda>bs. length bs < 256"
  by unfold_locales (use cbs_get_length_prefixed_enc [of 1] in \<open>simp add: CBS_get_u8_length_prefixed_def del: be_bytes.simps\<close>)

interpretation u16_prefixed: codec "\<lambda>bs. be_bytes 2 (length bs) @ bs" CBS_get_u16_length_prefixed "\<lambda>bs. length bs < 65536"
  by unfold_locales (use cbs_get_length_prefixed_enc [of 2] in \<open>simp add: CBS_get_u16_length_prefixed_def\<close>)

interpretation u24_prefixed: codec "\<lambda>bs. be_bytes 3 (length bs) @ bs" CBS_get_u24_length_prefixed "\<lambda>bs. length bs < 16777216"
  by unfold_locales (use cbs_get_length_prefixed_enc [of 3] in \<open>simp add: CBS_get_u24_length_prefixed_def\<close>)

subsection \<open>Byte order\<close>

lemma bswap2_bytes: "be_bytes 2 (unat (CRYPTO_bswap2 x)) = rev (be_bytes 2 (unat x))"
  by (simp add: be_bytes_word2 CRYPTO_bswap2_def u8_eq_bits all_less_unfold bit_simps)

lemma bswap4_bytes: "be_bytes 4 (unat (CRYPTO_bswap4 x)) = rev (be_bytes 4 (unat x))"
  by (simp add: be_bytes_word4 CRYPTO_bswap4_def Let_def u8_eq_bits all_less_unfold bit_simps)

lemma bswap8_bytes: "be_bytes 8 (unat (CRYPTO_bswap8 x)) = rev (be_bytes 8 (unat x))"
  by (simp add: be_bytes_word8 CRYPTO_bswap8_def CRYPTO_bswap4_def Let_def u8_eq_bits
      all_less_unfold bit_simps)

lemma bswap2_bswap2 [simp]: "CRYPTO_bswap2 (CRYPTO_bswap2 x) = x"
  by (rule be_bytes_word_inj [of 2]) (simp_all add: bswap2_bytes)

lemma bswap4_bswap4 [simp]: "CRYPTO_bswap4 (CRYPTO_bswap4 x) = x"
  by (rule be_bytes_word_inj [of 4]) (simp_all add: bswap4_bytes)

lemma bswap8_bswap8 [simp]: "CRYPTO_bswap8 (CRYPTO_bswap8 x) = x"
  by (rule be_bytes_word_inj [of 8]) (simp_all add: bswap8_bytes)

interpretation u16le: codec "\<lambda>v. rev (be_bytes 2 (unat v))" CBS_get_u16le "\<lambda>_. True"
  by unfold_locales (simp add: CBS_get_u16le_def u16.dec_enc reader_simps flip: bswap2_bytes)

interpretation u32le: codec "\<lambda>v. rev (be_bytes 4 (unat v))" CBS_get_u32le "\<lambda>_. True"
  by unfold_locales (simp add: CBS_get_u32le_def u32.dec_enc reader_simps flip: bswap4_bytes)

interpretation u64le: codec "\<lambda>v. rev (be_bytes 8 (unat v))" CBS_get_u64le "\<lambda>_. True"
  by unfold_locales (use u64.dec_enc in \<open>simp add: CBS_get_u64_def CBS_get_u64le_def reader_simps flip: bswap8_bytes\<close>)

end
