(* ===== verification/DER.thy ===== *)
theory DER
  imports CBS
begin

unbundle bit_operations_syntax

text \<open>
  The Distinguished Encoding Rules as functions to bytes (\<open>b128\<close>, \<open>der_tag\<close>, \<open>der_len\<close>,
  \<open>der_element\<close>), and the proof that the ASN.1 readers of \<^verbatim>\<open>cbs.c\<close> accept exactly these
  encodings: each parser succeeds on a string if and only if the string starts with the
  encoding of the value it returns.
\<close>

section \<open>Base-128 integers\<close>

fun b128_more :: "nat \<Rightarrow> bytes" where
  "b128_more n = (if n = 0 then [] else b128_more (n div 128) @ [of_nat (128 + n mod 128)])"

declare b128_more.simps [simp del]

definition b128 :: "nat \<Rightarrow> bytes" where
  "b128 n = b128_more (n div 128) @ [of_nat (n mod 128)]"

lemma b128_more_0 [simp]: "b128_more 0 = []"
  by (simp add: b128_more.simps)

lemma b128_step_value:
  assumes "unat v < 2 ^ 57"
  shows "unat (push_bit 7 v OR ucast (b AND 0x7f) :: u64) = unat v * 128 + unat (b :: u8) mod 128"
    using push_or_disjoint [of "ucast (b AND 0x7f)" 7 v] assms by (simp add: unat_ucast_up unat_and_7f)

lemma u64_drop_57: "drop_bit 57 (v :: u64) = 0 \<longleftrightarrow> unat v < 144115188075855872"
  by (simp add: word_unat_eq_iff unat_div_drop_bit [symmetric] div_eq_0_iff)

lemma parse_base128_loop_more:
  "n < 2 ^ 64 \<Longrightarrow> parse_base128_loop 0 (b128_more n @ rest) = parse_base128_loop (of_nat n) rest"
proof (induction n arbitrary: rest rule: b128_more.induct)
  case (1 n)
  show ?case
  proof (cases "n = 0")
    case False
    define b :: u8 where "b = of_nat (128 + n mod 128)"
    have b: "unat b = 128 + n mod 128" unfolding b_def unat_of_nat_u8 by simp
    have v: "unat (of_nat (n div 128) :: u64) = n div 128"
      using "1.prems" by (simp add: unat_of_nat)
    have hd: "n div 128 < 2 ^ 57" using "1.prems" by simp
    have "push_bit 7 (of_nat (n div 128)) OR ucast (b AND 0x7f) = (of_nat n :: u64)"
      using b128_step_value [of "of_nat (n div 128)" b] hd "1.prems"
      by (simp add: word_unat_eq_iff v b unat_of_nat)
    moreover have "b AND 0x80 \<noteq> 0" by (simp add: u8_high_bit b)
    moreover have "\<not> (of_nat (n div 128) = (0 :: u64) \<and> b = 0x80)"
      using False v b by (auto simp: word_unat_eq_iff)
    moreover have "drop_bit 57 (of_nat (n div 128) :: u64) = 0"
      using hd by (simp add: u64_drop_57 v)
    moreover have "b128_more n = b128_more (n div 128) @ [b]"
      using False by (simp add: b128_more.simps [of n] b_def)
    ultimately show ?thesis
      using "1.IH" [OF False, of "b # rest"] "1.prems" by auto
  qed simp
qed

lemma parse_base128_b128:
  "n < 2 ^ 64 \<Longrightarrow> parse_base128_integer (b128 n @ rest) = (Some (of_nat n), rest)"
proof -
  assume n: "n < 2 ^ 64"
    let ?b = "of_nat (n mod 128) :: u8"
    have b: "unat ?b = n mod 128" by (simp add: unat_of_nat_u8)
    have v: "unat (of_nat (n div 128) :: u64) = n div 128"
      using n by (simp add: unat_of_nat)
    have hd: "n div 128 < 2 ^ 57" using n by simp
    have "push_bit 7 (of_nat (n div 128)) OR ucast (?b AND 0x7f) = (of_nat n :: u64)"
      using b128_step_value [of "of_nat (n div 128)" ?b] hd n
      by (simp add: word_unat_eq_iff v b unat_of_nat)
    moreover have "?b AND 0x80 = 0" by (simp add: u8_high_bit b)
    moreover have "?b \<noteq> 0x80" using b by (auto simp: word_unat_eq_iff)
    moreover have "drop_bit 57 (of_nat (n div 128) :: u64) = 0"
      using hd by (simp add: u64_drop_57 v)
    ultimately show ?thesis
      using parse_base128_loop_more [of "n div 128" "?b # rest"] n by (simp add: b128_def parse_base128_integer_def Let_def)
qed

lemma parse_base128_loop_Some:
  "parse_base128_loop v s = (Some w, t) \<Longrightarrow> \<exists>cs. s = cs @ t \<and> b128_more (unat v) @ cs = b128 (unat w)"
proof (induction v s rule: parse_base128_loop.induct)
  case (1 v)
  then show ?case by simp
next
  case (2 v b s)
  let ?v' = "push_bit 7 v OR ucast (b AND 0x7f)"
  have v: "unat v < 2 ^ 57" and nz: "\<not> (v = 0 \<and> b = 0x80)"
    using "2.prems" by (auto simp flip: u64_drop_57 split: if_splits)
  note val = b128_step_value [OF v, of b]
  have dm: "unat ?v' div 128 = unat v" "unat ?v' mod 128 = unat b mod 128"
    unfolding val by simp_all
  show ?case
  proof (cases "b AND 0x80 = 0")
    case True
    then have lt: "unat b < 128" by (simp add: u8_high_bit)
    with True "2.prems" v nz have w: "w = ?v'" "s = t"
      by (auto simp: u64_drop_57 [symmetric] Let_def split: if_splits)
    have "b128 (unat w) = b128_more (unat v) @ [b]"
      using lt by (simp add: w b128_def dm)
    then show ?thesis using w by simp
  next
    case False
    then have ge: "128 \<le> unat b" by (simp add: u8_high_bit)
    from False "2.prems" v nz have "parse_base128_loop ?v' s = (Some w, t)"
      by (auto simp: u64_drop_57 [symmetric] Let_def split: if_splits)
    with "2.IH" False v nz obtain cs where cs: "s = cs @ t" "b128_more (unat ?v') @ cs = b128 (unat w)"
      by (auto simp: u64_drop_57 [symmetric])
    have "unat ?v' \<noteq> 0"
    proof
      assume "unat ?v' = 0"
      with val have "unat v = 0" "unat b mod 128 = 0" by simp_all
      with ge have "unat b = 128" by (simp add: mod_128_high)
      with \<open>unat v = 0\<close> nz show False by (auto simp: word_unat_eq_iff)
    qed
    moreover have "128 + unat b mod 128 = unat b"
      using ge by (simp add: mod_128_high)
    ultimately have "b128_more (unat ?v') = b128_more (unat v) @ [b]"
      using b128_more.simps [of "unat ?v'"] by (simp add: dm)
    with cs show ?thesis by auto
  qed
qed

lemma parse_base128_integer_iff:
  "parse_base128_integer s = (Some w, t) \<longleftrightarrow> s = b128 (unat w) @ t"
proof
  assume "parse_base128_integer s = (Some w, t)"
  then show "s = b128 (unat w) @ t"
    using parse_base128_loop_Some [of 0 s w t] by (auto simp: parse_base128_integer_def)
next
  assume "s = b128 (unat w) @ t"
  moreover have "unat w < 2 ^ 64" using unsigned_less [of w, where 'a = nat] by simp
  ultimately show "parse_base128_integer s = (Some w, t)"
    using parse_base128_b128 [of "unat w" t] by simp
qed

section \<open>Identifiers\<close>

definition der_tag :: "u32 \<Rightarrow> bytes" where
  "der_tag tag =
     (let tag_bits = ucast (drop_bit 24 tag) AND 0xe0; tag_number = tag AND 0x1fffffff
      in if 0x1f \<le> unat tag_number then (tag_bits OR 0x1f) # b128 (unat tag_number)
         else [tag_bits OR ucast tag_number])"

lemma e0_mask: "(0xe0 :: 'a::len word) = push_bit 5 (mask 3)"
  by (simp add: mask_numeral push_bit_eq_mult)

definition tag_word :: "u8 \<Rightarrow> u32 \<Rightarrow> u32" where
  "tag_word b n = push_bit CBS_ASN1_TAG_SHIFT (ucast b AND 0xe0) OR n"

lemmas tag_word_bits = tag_word_def CBS_ASN1_TAG_SHIFT_def e0_mask

lemma mask29: "(0x1fffffff :: u32) = mask 29"
  by (simp add: mask_numeral)

lemma unat_le_and_mask29: "unat (n :: u32) < 0x20000000 \<Longrightarrow> n AND 0x1fffffff = n"
  using unat_and_mask [of n 29] by (simp add: mask_numeral word_unat_eq_iff)

lemma unat_and_mask29: "unat (tag AND 0x1fffffff :: u32) < 0x20000000"
  using unat_and_mask [of tag 29] by (simp add: mask_numeral)

lemma mask29_bit: "n AND 0x1fffffff = n \<Longrightarrow> 29 \<le> i \<Longrightarrow> \<not> bit (n :: u32) i"
  unfolding mask29 by (metis bit_and_iff bit_mask_iff not_le)

lemma tag_bits_byte:
  "n AND 0x1fffffff = n \<Longrightarrow> (ucast (drop_bit 24 (tag_word b n)) :: u8) AND 0xe0 = b AND 0xe0"
  unfolding tag_word_bits by (rule bit_word_eqI) (auto simp: bit_simps mask29_bit)

lemma tag_number_word: "n AND 0x1fffffff = n \<Longrightarrow> tag_word b n AND 0x1fffffff = n"
  unfolding tag_word_bits mask29 bit_eq_iff by (auto simp: bit_simps)

lemma tag_recombine:
  "tag_word ((ucast (drop_bit 24 tag) :: u8) AND 0xe0) (tag AND 0x1fffffff) = tag"
  unfolding tag_word_bits mask29 bit_eq_iff by (auto simp: bit_simps)

lemma tag_word_and_e0: "tag_word (b AND 0xe0) n = tag_word b n"
  unfolding tag_word_bits bit_eq_iff by (auto simp: bit_simps)

lemma low_tag_bits:
  fixes b c :: u8
  shows "(b AND 0xe0) OR (b AND 0x1f) = b"
    and "((b AND 0xe0) OR (c AND 0x1f)) AND 0x1f = c AND 0x1f"
    and "((b AND 0xe0) OR (c AND 0x1f)) AND 0xe0 = b AND 0xe0"
proof -
  have m: "(0x1f :: u8) = mask 5" by (simp add: mask_numeral)
  show "(b AND 0xe0) OR (b AND 0x1f) = b"
    and "((b AND 0xe0) OR (c AND 0x1f)) AND 0x1f = c AND 0x1f"
    and "((b AND 0xe0) OR (c AND 0x1f)) AND 0xe0 = b AND 0xe0"
    unfolding e0_mask m bit_eq_iff by (auto simp: bit_simps)
qed

lemma parse_asn1_tag_Cons:
  "parse_asn1_tag (b # s) =
     (if unat b mod 32 = 31 then
        (case parse_base128_integer s of
           (None, t) \<Rightarrow> (None, t)
         | (Some v, t) \<Rightarrow> if unat v > 0x1fffffff \<or> unat v < 0x1f then (None, t) else (Some (tag_word b (ucast v)), t))
      else (Some (tag_word b (ucast (b AND 0x1f))), s))"
proof -
  have "(ucast (b AND 0x1f) = (0x1f :: u32)) \<longleftrightarrow> unat b mod 32 = 31"
    by (simp add: word_unat_eq_iff unat_ucast_up unat_and_1f)
  then show ?thesis
    unfolding parse_asn1_tag_def Let_def tag_word_def [symmetric]
    by (simp add: reader_simps CBS_ASN1_TAG_NUMBER_MASK_def word_less_nat_alt split: prod.split option.split)
qed

lemma parse_asn1_tag_Nil [simp]: "parse_asn1_tag [] = (None, [])"
  by (simp add: parse_asn1_tag_def reader_simps)

lemma der_tag_low:
  assumes "unat b mod 32 \<noteq> 31"
  shows "der_tag (tag_word b (ucast (b AND 0x1f))) = [b]"
proof -
  let ?n = "ucast (b AND 0x1f) :: u32"
  have un: "unat ?n = unat b mod 32" by (simp add: unat_ucast_up unat_and_1f)
  have n: "?n AND 0x1fffffff = ?n" by (rule unat_le_and_mask29) (simp add: un)
  have "unat b mod 32 < 32" by simp
  with assms have "\<not> 31 \<le> unat b mod 32" by linarith
  then show ?thesis
    unfolding der_tag_def Let_def tag_bits_byte [OF n] tag_number_word [OF n] un
    by (simp add: low_tag_bits)
qed

lemma der_tag_high:
  assumes "unat b mod 32 = 31" and "0x1f \<le> unat v" and "unat v \<le> 0x1fffffff"
  shows "der_tag (tag_word b (ucast (v :: u64))) = b # b128 (unat v)"
proof -
  let ?n = "ucast v :: u32"
  have un: "unat ?n = unat v" using assms(3) by (simp add: unsigned_ucast_eq take_bit_nat_eq_self)
  have n: "?n AND 0x1fffffff = ?n" using assms(3) by (intro unat_le_and_mask29) (simp add: un)
  have "b AND 0x1f = 0x1f" using assms(1) by (simp add: word_unat_eq_iff unat_and_1f)
  then have "(b AND 0xe0) OR 0x1f = b" using low_tag_bits(1) [of b] by simp
  then show ?thesis
    using assms(2) unfolding der_tag_def Let_def tag_bits_byte [OF n] tag_number_word [OF n] un by simp
qed

lemma parse_asn1_tag_Some: "parse_asn1_tag s = (Some tag, t) \<Longrightarrow> s = der_tag tag @ t"
proof (cases s)
  case (Cons b s1)
  assume "parse_asn1_tag s = (Some tag, t)"
  with Cons show ?thesis
    by (auto simp: parse_asn1_tag_Cons parse_base128_integer_iff der_tag_low der_tag_high
        split: if_splits prod.splits option.splits)
qed simp

lemma parse_asn1_tag_der_tag: "parse_asn1_tag (der_tag tag @ t) = (Some tag, t)"
proof -
  define bits where "bits = ucast (drop_bit 24 tag) AND (0xe0 :: u8)"
  define n where "n = tag AND 0x1fffffff"
  have tag: "tag_word bits n = tag"
    unfolding bits_def n_def by (rule tag_recombine)
  have n29: "unat n < 0x20000000" unfolding n_def by (rule unat_and_mask29)
  have bits: "bits AND 0xe0 = bits" unfolding bits_def by (simp add: and.assoc)
  show ?thesis
  proof (cases "0x1f \<le> unat n")
    case True
    let ?b = "bits OR 0x1f"
    have b: "?b AND 0x1f = 0x1f" "?b AND 0xe0 = bits"
      using low_tag_bits(2,3) [of bits "0x1f"] bits by simp_all
    have "unat ?b mod 32 = 31" using b(1) unat_and_1f [of ?b] by simp
    moreover have "tag_word ?b n = tag"
      using tag_word_and_e0 [of ?b n] b(2) tag by simp
    moreover have "parse_base128_integer (b128 (unat n) @ t) = (Some (of_nat (unat n)), t)"
      using n29 by (intro parse_base128_b128) simp
    moreover have "der_tag tag = ?b # b128 (unat n)"
      using True by (simp add: der_tag_def bits_def [symmetric] n_def [symmetric] Let_def)
    ultimately show ?thesis
      using True n29 by (simp add: parse_asn1_tag_Cons unat_ucast_up of_nat_unat_ucast)
  next
    case False
    let ?c = "ucast n :: u8" let ?b = "bits OR ?c"
    have uc: "unat ?c = unat n" using False by (simp add: unsigned_ucast_eq take_bit_nat_eq_self)
    with False have c: "?c AND 0x1f = ?c" by (simp add: word_unat_eq_iff unat_and_1f)
    have b: "?b AND 0x1f = ?c" "?b AND 0xe0 = bits"
      using low_tag_bits(2,3) [of bits ?c] bits c by simp_all
    have "unat ?b mod 32 \<noteq> 31"
      using b(1) False uc unat_and_1f [of ?b] by simp
    moreover have "tag_word ?b n = tag"
      using tag_word_and_e0 [of ?b n] b(2) tag by simp
    moreover have "(ucast ?c :: u32) = n"
      using uc by (simp add: word_unat_eq_iff unat_ucast_up)
    moreover have "der_tag tag = [?b]"
      using False by (simp add: der_tag_def bits_def [symmetric] n_def [symmetric] Let_def)
    ultimately show ?thesis
      using b(1) by (simp add: parse_asn1_tag_Cons)
  qed
qed

lemma parse_asn1_tag_iff: "parse_asn1_tag s = (Some tag, t) \<longleftrightarrow> s = der_tag tag @ t"
  using parse_asn1_tag_Some parse_asn1_tag_der_tag by blast

section \<open>Elements\<close>

definition der_len :: "nat \<Rightarrow> bytes" where
  "der_len n =
     (if n < 128 then [of_nat n]
      else if n < 256 then 0x81 # be_bytes 1 n
      else if n < 65536 then 0x82 # be_bytes 2 n
      else if n < 16777216 then 0x83 # be_bytes 3 n
      else 0x84 # be_bytes 4 n)"

definition der_element :: "u32 \<Rightarrow> bytes \<Rightarrow> bytes" where
  "der_element tag c = der_tag tag @ der_len (length c) @ c"

lemma length_b128_more: "n < 128 ^ k \<Longrightarrow> length (b128_more n) \<le> k"
proof (induction k arbitrary: n)
  case 0
  then show ?case by simp
next
  case (Suc k)
  then have "n div 128 < 128 ^ k" by (simp add: div_less_iff_less_mult mult.commute)
  with Suc show ?case by (simp add: b128_more.simps [of n])
qed

lemma length_der_tag: "length (der_tag tag) \<le> 6"
proof -
  have "unat (tag AND 0x1fffffff) div 128 < 128 ^ 4"
    using unat_and_mask29 [of tag] by (simp add: div_less_iff_less_mult)
  from length_b128_more [OF this] show ?thesis
    by (simp add: der_tag_def b128_def Let_def)
qed

lemma der_tag_nonempty [simp]: "der_tag tag \<noteq> []"
  by (simp add: der_tag_def Let_def)

lemma der_len_long:
  assumes "1 \<le> k" and "k \<le> 4" and "256 ^ (k - 1) \<le> n" and "n < 256 ^ k" and "128 \<le> n"
  shows "der_len n = of_nat (128 + k) # be_bytes k n"
proof -
  from assms consider "k = 1" | "k = 2" | "k = 3" | "k = 4" by linarith
  then show ?thesis
    by cases (use assms in \<open>simp_all add: der_len_def\<close>)
qed

lemma der_len_long_ex:
  assumes "128 \<le> n" and "(n::nat) < 2 ^ 32"
  obtains k where "1 \<le> k" "k \<le> 4" "256 ^ (k - 1) \<le> n" "n < 256 ^ k"
proof -
  consider "n < 256" | "256 \<le> n" "n < 65536" | "65536 \<le> n" "n < 16777216" | "16777216 \<le> n"
    by linarith
  then show ?thesis
    by cases (use assms that [of 1] that [of 2] that [of 3] that [of 4] in simp_all)
qed

lemma length_der_len: "1 \<le> length (der_len n) \<and> length (der_len n) \<le> 5"
  by (simp add: der_len_def)

lemma get_element_bytes_Some:
  "get_element_bytes len tag hl bf s = (Some el, t) \<longleftrightarrow>
     (\<exists>p. length p = len \<and> s = p @ t \<and>
        el = \<lparr>el_out = p, el_tag = tag, el_header_len = hl, el_ber_found = bf\<rparr>)"
  by (auto simp: get_element_bytes_def rbind_eq_Some CBS_get_bytes_Some rret_def)

text \<open>The two forms of the length after the identifier, one equation each.\<close>

lemma element_short:
  assumes "unat lb < 128"
  shows "cbs_get_any_asn1_element ber_ok (der_tag tag @ lb # h) =
     get_element_bytes (length (der_tag tag) + 1 + unat lb) tag (length (der_tag tag) + 1) False (der_tag tag @ lb # h)"
  using assms
  by (simp add: cbs_get_any_asn1_element_def parse_asn1_tag_der_tag u8_high_bit CBS_len_def add.commute Let_def)

lemma element_long_none:
  assumes "128 \<le> unat lb" and "\<not> ber_ok" and "unat lb mod 128 = 0 \<or> unat lb mod 128 > 4"
  shows "cbs_get_any_asn1_element ber_ok (der_tag tag @ lb # h) = (None, der_tag tag @ lb # h)"
  using assms
  by (simp add: cbs_get_any_asn1_element_def parse_asn1_tag_der_tag u8_high_bit CBS_len_def unat_and_7f Let_def)

lemma element_long:
  assumes "128 \<le> unat lb" and k: "unat lb mod 128 = k" "1 \<le> k" "k \<le> 4" and q: "length q = k"
  shows "cbs_get_any_asn1_element False (der_tag tag @ lb # q @ h) =
     (if be_nat q < 128 \<or> be_nat q < 256 ^ (k - 1) then (None, der_tag tag @ lb # q @ h)
      else get_element_bytes (length (der_tag tag) + 1 + k + be_nat q) tag (length (der_tag tag) + 1 + k) False
             (der_tag tag @ lb # q @ h))"
proof -
  have "(256::nat) ^ k \<le> 256 ^ 4" using k by (intro power_increasing) simp_all
  with be_nat_lt [of q] q have n: "be_nat q < 2 ^ 32" by simp
  then have un: "unat (of_nat (be_nat q) :: u64) = be_nat q" by (simp add: unat_of_nat)
  have gu: "cbs_get_u k (q @ h) = (Some (of_nat (be_nat q)), h)"
    using k q by (subst cbs_get_u_Some) auto
  have lt: "(of_nat (be_nat q) :: u64) < 128 \<longleftrightarrow> be_nat q < 128"
    by (simp add: word_less_nat_alt un)
  have dz: "drop_bit ((k - 1) * 8) (of_nat (be_nat q) :: u64) = 0 \<longleftrightarrow> be_nat q < 256 ^ (k - 1)"
    by (simp add: word_unat_eq_iff unat_div_drop_bit [symmetric] un div_eq_0_iff power_mult mult.commute [of _ 8])
  have sz: "size_add (size_add (be_nat q) (Suc (length (der_tag tag)))) k = be_nat q + Suc (length (der_tag tag)) + k"
    "size_add (be_nat q) (size_add (Suc (length (der_tag tag))) k) = be_nat q + Suc (length (der_tag tag)) + k"
    using n k length_der_tag [of tag] by (simp_all add: size_add_small)
  show ?thesis
    using assms(1) k
    by (simp add: cbs_get_any_asn1_element_def parse_asn1_tag_der_tag u8_high_bit CBS_len_def unat_and_7f Let_def
        gu lt dz [simplified] un sz add.commute add.left_commute)
qed


definition der_parsed :: "u32 \<Rightarrow> bytes \<Rightarrow> asn1_element" where
  "der_parsed tag c = \<lparr>el_out = der_element tag c, el_tag = tag,
     el_header_len = length (der_tag tag) + length (der_len (length c)), el_ber_found = False\<rparr>"

lemma get_element_bytes_header:
  "get_element_bytes (length hdr + n) tag hl bf (hdr @ h) =
    (if n \<le> length h then (Some \<lparr>el_out = hdr @ take n h, el_tag = tag, el_header_len = hl, el_ber_found = bf\<rparr>, drop n h)
     else (None, hdr @ h))"
  by (auto simp: get_element_bytes_def CBS_get_bytes_def CBS_init_def cbs_get_def reader_simps)

lemma element_der:
  assumes "length c < 2 ^ 32"
  shows "CBS_get_any_asn1_element (der_element tag c @ t) = (Some (der_parsed tag c), t)"
proof (cases "length c < 128")
  case True
  then have lb: "unat (of_nat (length c) :: u8) = length c" by (simp add: unat_of_nat_u8)
  with True show ?thesis
    using element_short [of "of_nat (length c)" False tag "c @ t"]
      get_element_bytes_header [of "der_tag tag @ [of_nat (length c)]" "length c" tag _ _ "c @ t"]
    by (simp add: CBS_get_any_asn1_element_def der_element_def der_len_def der_parsed_def)
next
  case False
  with assms obtain k where k: "1 \<le> k" "k \<le> 4" "256 ^ (k - 1) \<le> length c" "length c < 256 ^ k"
    using der_len_long_ex [of "length c"] by auto
  define lb :: u8 where "lb = of_nat (128 + k)"
  define q where "q = be_bytes k (length c)"
  have lb: "unat lb = 128 + k" using k(2) unfolding lb_def unat_of_nat_u8 by simp
  then have lbk: "128 \<le> unat lb" "unat lb mod 128 = k" using k(2) by simp_all
  have q: "length q = k" "be_nat q = length c" using k(4) by (simp_all add: q_def be_nat_be_bytes)
  have dl: "der_len (length c) = lb # q"
    using der_len_long [OF k] False by (simp add: lb_def q_def)
  show ?thesis
    using element_long [OF lbk k(1,2) q(1), of tag "c @ t"] q False k
      get_element_bytes_header [of "der_tag tag @ lb # q" "length c" tag _ _ "c @ t"]
    by (simp add: CBS_get_any_asn1_element_def der_element_def der_parsed_def dl)
qed

lemma element_Some:
  assumes "CBS_get_any_asn1_element s = (Some el, t)"
  obtains tag c where "length c < 2 ^ 32" "s = der_element tag c @ t" "el = der_parsed tag c"
proof -
  from assms obtain tag h where s: "s = der_tag tag @ h"
    by (auto simp: CBS_get_any_asn1_element_def cbs_get_any_asn1_element_def parse_asn1_tag_iff split: prod.splits option.splits)
  with assms obtain lb h2 where h: "h = lb # h2"
    by (cases h) (auto simp: CBS_get_any_asn1_element_def cbs_get_any_asn1_element_def
        parse_asn1_tag_der_tag [of tag "[]", simplified])
  note assms' = assms [unfolded CBS_get_any_asn1_element_def s h]
  show ?thesis
  proof (cases "unat lb < 128")
    case True
    then have "unat lb \<le> length h2" and t: "t = drop (unat lb) h2"
      using assms' get_element_bytes_header [of "der_tag tag @ [lb]" "unat lb" tag _ _ h2]
      by (auto simp: element_short split: if_splits)
    with True have "der_len (length (take (unat lb) h2)) = [lb]" by (simp add: der_len_def min_def)
    then have "s = der_element tag (take (unat lb) h2) @ t" by (simp add: s h t der_element_def)
    moreover have "length (take (unat lb) h2) < 2 ^ 32" using True by simp
    ultimately show ?thesis using that element_der assms by fastforce
  next
    case False
    define k where "k = unat lb mod 128"
    have k: "1 \<le> k" "k \<le> 4"
      using element_long_none [of lb False tag h2] False assms' by (force simp: k_def)+
    have "length (take k h2) = k"
    proof (rule ccontr)
      assume "length (take k h2) \<noteq> k"
      then have "cbs_get_u k h2 = (None, h2)" by (simp add: cbs_get_u_None)
      with assms' False k show False
        by (simp add: cbs_get_any_asn1_element_def parse_asn1_tag_der_tag u8_high_bit unat_and_7f Let_def k_def [symmetric])
    qed
    then obtain q h3 where q: "h2 = q @ h3" "length q = k"
      by (metis append_take_drop_id)
    have lb: "lb = of_nat (128 + k)"
      using False unat_u8_lt [of lb] by (simp add: word_unat_eq_iff unat_of_nat_u8 k_def mod_128_high)
    note el = assms' [unfolded q(1) element_long [OF _ k_def [symmetric] k q(2), of tag h3]]
    from el False have n: "128 \<le> be_nat q" "256 ^ (k - 1) \<le> be_nat q"
      by (auto simp: element_long [OF _ k_def [symmetric] k q(2)] split: if_splits)
    have nk: "be_nat q < 256 ^ k" using be_nat_lt [of q] q(2) by simp
    have dl: "der_len (be_nat q) = lb # q"
      using der_len_long [OF k n(2) nk n(1)] be_bytes_be_nat [of q] q(2) lb by simp
    have le: "be_nat q \<le> length h3" and t: "t = drop (be_nat q) h3"
      using el False n get_element_bytes_header [of "der_tag tag @ lb # q" "be_nat q" tag _ _ h3]
      by (auto simp: element_long [OF _ k_def [symmetric] k q(2)] q(2) split: if_splits)
    from le dl have "s = der_element tag (take (be_nat q) h3) @ t"
      by (simp add: s h q t der_element_def min_def)
    moreover have "length (take (be_nat q) h3) < 2 ^ 32"
    proof -
      have "(256::nat) ^ k \<le> 256 ^ 4" using k by (intro power_increasing) simp_all
      with nk show ?thesis by simp
    qed
    ultimately show ?thesis using that element_der assms by fastforce
  qed
qed

lemma CBS_get_any_asn1_element_iff:
  "CBS_get_any_asn1_element s = (Some el, t) \<longleftrightarrow>
     (\<exists>tag c. length c < 2 ^ 32 \<and> s = der_element tag c @ t \<and> el = der_parsed tag c)"
  using element_Some element_der by metis

lemma CBS_get_any_asn1_element_None:
  "CBS_get_any_asn1_element s = (None, t) \<Longrightarrow> t = s"
  by (auto simp: CBS_get_any_asn1_element_def cbs_get_any_asn1_element_def get_element_bytes_def
      CBS_get_bytes_def cbs_get_def reader_simps Let_def split: prod.splits option.splits if_splits)

section \<open>Typed elements\<close>

lemma CBS_skip_header:
  "CBS_skip (length (der_tag tag) + length (der_len (length c))) (der_element tag c) = (Some (), c)"
  using CBS_skip_append [of "der_tag tag @ der_len (length c)" _ c] by (simp add: der_element_def)

lemma der_parsed_sel [simp]:
  "el_out (der_parsed tag c) = der_element tag c" "el_tag (der_parsed tag c) = tag"
  "el_header_len (der_parsed tag c) = length (der_tag tag) + length (der_len (length c))"
  by (simp_all add: der_parsed_def)

lemma rbind_element:
  "rbind CBS_get_any_asn1_element f s = (Some x, u) \<longleftrightarrow>
     (\<exists>tag c t. length c < 2 ^ 32 \<and> s = der_element tag c @ t \<and> f (der_parsed tag c) t = (Some x, u))"
  unfolding rbind_eq_Some CBS_get_any_asn1_element_iff by blast

lemma CBS_get_any_asn1_iff:
  "CBS_get_any_asn1 s = (Some (c, tag), t) \<longleftrightarrow> length c < 2 ^ 32 \<and> s = der_element tag c @ t"
  unfolding CBS_get_any_asn1_def rbind_element by (auto simp: CBS_skip_header rret_def)

lemma CBS_get_asn1_iff:
  "CBS_get_asn1 tag s = (Some c, t) \<longleftrightarrow> length c < 2 ^ 32 \<and> s = der_element tag c @ t"
  unfolding CBS_get_asn1_def cbs_get_asn1_def rbind_element
  by (auto simp: CBS_skip_header rret_def rfail_def split: if_splits)

lemma CBS_get_asn1_element_iff:
  "CBS_get_asn1_element tag s = (Some e, t) \<longleftrightarrow>
     (\<exists>c. length c < 2 ^ 32 \<and> e = der_element tag c \<and> s = e @ t)"
  unfolding CBS_get_asn1_element_def cbs_get_asn1_def rbind_element
  by (auto simp: rret_def rfail_def split: if_splits)

interpretation der: codec "\<lambda>(c, tag). der_element tag c" CBS_get_any_asn1 "\<lambda>(c, tag). length c < 2 ^ 32"
  by unfold_locales (auto simp: CBS_get_any_asn1_iff)

lemma CBS_peek_asn1_tag_iff: "CBS_peek_asn1_tag s tag \<longleftrightarrow> (\<exists>t. s = der_tag tag @ t)"
proof
  assume "CBS_peek_asn1_tag s tag"
  then show "\<exists>t. s = der_tag tag @ t"
    by (auto simp: CBS_peek_asn1_tag_def parse_asn1_tag_iff split: if_splits prod.splits option.splits)
next
  assume "\<exists>t. s = der_tag tag @ t"
  then show "CBS_peek_asn1_tag s tag"
    by (auto simp: CBS_peek_asn1_tag_def CBS_len_def parse_asn1_tag_der_tag Suc_le_eq)
qed

section \<open>Integers\<close>

text \<open>Dropping the leading bytes that only repeat the sign.\<close>

fun strip_sign :: "bytes \<Rightarrow> bytes" where
  "strip_sign (a # b # bs) =
     (if (a = 0 \<and> unat b < 128) \<or> (a = 0xff \<and> 128 \<le> unat b)
      then strip_sign (b # bs) else a # b # bs)"
| "strip_sign bs = bs"

definition uint_content :: "u64 \<Rightarrow> bytes" where
  "uint_content v = strip_sign (0 # be_bytes 8 (unat v))"

definition int_content :: "u64 \<Rightarrow> bytes" where
  "int_content v = strip_sign (be_bytes 8 (unat v))"

lemma length_strip_sign: "length (strip_sign bs) \<le> length bs"
  by (induction bs rule: strip_sign.induct) auto

lemma valid_integer_iff:
  "CBS_is_valid_asn1_integer bs = Some neg \<longleftrightarrow>
     bs \<noteq> [] \<and> strip_sign bs = bs \<and> neg = (128 \<le> unat (hd bs))"
proof (cases bs rule: strip_sign.cases)
  case (1 a b bs')
  have "strip_sign (b # bs') \<noteq> a # b # bs'"
  proof
    assume "strip_sign (b # bs') = a # b # bs'"
    then show False using length_strip_sign [of "b # bs'"] by simp
  qed
  then show ?thesis
    using 1 by (auto simp: CBS_is_valid_asn1_integer_def u8_high_bit Let_def not_less)
qed (auto simp: CBS_is_valid_asn1_integer_def u8_high_bit Let_def not_less)

lemma strip_sign_nonempty: "bs \<noteq> [] \<Longrightarrow> strip_sign bs \<noteq> []"
  by (induction bs rule: strip_sign.induct) auto

lemma strip_sign_idem: "strip_sign (strip_sign bs) = strip_sign bs"
  by (induction bs rule: strip_sign.induct) auto

lemma hd_strip_sign: "bs \<noteq> [] \<Longrightarrow> unat (hd (strip_sign bs)) < 128 \<longleftrightarrow> unat (hd bs) < 128"
  by (induction bs rule: strip_sign.induct) auto

lemma strip_sign_replicate:
  assumes "bs \<noteq> []"
  shows "strip_sign (replicate k (if 128 \<le> unat (hd bs) then 0xff else 0) @ bs) = strip_sign bs"
proof (induction k)
  case (Suc k)
  then show ?case
    using assms by (cases bs; cases k) auto
qed simp

lemma strip_sign_ext:
  assumes "bs \<noteq> []"
  obtains k where "bs = replicate k (if 128 \<le> unat (hd bs) then 0xff else 0) @ strip_sign bs"
  using assms
proof (induction bs arbitrary: thesis rule: strip_sign.induct)
  case (1 a b bs)
  show ?case
  proof (cases "(a = 0 \<and> unat b < 128) \<or> (a = 0xff \<and> 128 \<le> unat b)")
    case True
    with 1 obtain k where "b # bs = replicate k (if 128 \<le> unat b then 0xff else 0) @ strip_sign (b # bs)"
      by auto
    with True show ?thesis by (intro "1.prems"(1) [of "Suc k"]) auto
  next
    case False
    then show ?thesis by (intro "1.prems"(1) [of 0]) auto
  qed
qed (metis append_Nil replicate_0 strip_sign.simps)+

lemma be_nat_replicate_0: "be_nat (replicate k 0 @ bs) = be_nat bs"
  by (induction k) auto

lemma be_bytes_unique: "length bs = n \<Longrightarrow> be_nat bs = v \<Longrightarrow> be_bytes n v = bs"
  using be_bytes_be_nat by blast

lemma asn1_uint64_loop_Some:
  "asn1_uint64_loop out bs = Some v \<longleftrightarrow>
     unat out * 256 ^ length bs + be_nat bs < 2 ^ 64 \<and> unat v = unat out * 256 ^ length bs + be_nat bs"
proof (induction bs arbitrary: out)
  case Nil
  then show ?case using unsigned_less [of out, where 'a = nat] by (auto simp: word_unat_eq_iff)
next
  case (Cons b bs)
  have d: "drop_bit 56 out = 0 \<longleftrightarrow> unat out < 2 ^ 56"
    by (simp add: word_unat_eq_iff unat_div_drop_bit [symmetric] div_eq_0_iff)
  show ?case
  proof (cases "unat out < 2 ^ 56")
    case True
    then have "unat (push_bit 8 out OR ucast b) = unat out * 2 ^ 8 + unat b"
      using push_or_disjoint [of "ucast b" 8 out] by (simp add: unat_ucast_up)
    with True d Cons show ?thesis by (simp add: algebra_simps)
  next
    case False
    then have "2 ^ 56 * 256 * 1 \<le> unat out * 256 * 256 ^ length bs"
      by (intro mult_mono) simp_all
    with False d show ?thesis by simp
  qed
qed

lemma minimal_uint_length:
  assumes "strip_sign bs = bs" and "bs \<noteq> []" and "unat (hd bs) < 128" and "be_nat bs < 2 ^ 64"
  shows "length bs \<le> 9"
proof (rule ccontr)
  assume "\<not> length bs \<le> 9"
  then obtain a b cs where bs: "bs = a # b # cs" "8 \<le> length cs"
    by (cases bs rule: strip_sign.cases) auto
  have p: "(256::nat) ^ 8 \<le> 256 ^ length cs" using bs(2) by (intro power_increasing) simp_all
  show False
  proof (cases "a = 0")
    case True
    have "128 \<le> unat b"
    proof (rule ccontr)
      assume "\<not> 128 \<le> unat b"
      with True assms(1) bs(1) have "strip_sign (b # cs) = a # b # cs" by simp
      then show False using length_strip_sign [of "b # cs"] by simp
    qed
    then have "128 * 256 ^ 8 \<le> unat b * 256 ^ length cs" using p by (intro mult_mono) simp_all
    with assms(4) bs show False by simp
  next
    case False
    then have "1 \<le> unat a" by (simp add: Suc_le_eq word_unat_eq_iff)
    then have "1 * (256 * 256 ^ 8) \<le> unat a * (256 * 256 ^ length cs)" using p by (intro mult_mono) simp_all
    with assms(4) bs show False by simp
  qed
qed

lemma uint_content_unique:
  assumes "strip_sign bs = bs" and "bs \<noteq> []" and "unat (hd bs) < 128" and "be_nat bs = unat v"
  shows "uint_content v = bs"
proof -
  have v: "be_nat bs < 2 ^ 64" using assms(4) unsigned_less [of v, where 'a = nat] by simp
  have len: "length bs \<le> 9" using minimal_uint_length assms v by blast
  have "be_bytes 9 (unat v) = replicate (9 - length bs) 0 @ bs"
    using len assms(4) by (intro be_bytes_unique) (auto simp: be_nat_replicate_0)
  moreover have "be_bytes 9 (unat v) = 0 # be_bytes 8 (unat v)"
    using unsigned_less [of v, where 'a = nat] by (intro be_bytes_unique) (auto simp: be_nat_be_bytes)
  ultimately show ?thesis
    using strip_sign_replicate [OF assms(2), of "9 - length bs"] assms(1,3)
    by (simp add: uint_content_def)
qed

lemma uint_content_props:
  shows "strip_sign (uint_content v) = uint_content v" and "uint_content v \<noteq> []"
    and "unat (hd (uint_content v)) < 128" and "be_nat (uint_content v) = unat v"
proof -
  show "strip_sign (uint_content v) = uint_content v" "uint_content v \<noteq> []"
    by (simp_all add: uint_content_def strip_sign_idem strip_sign_nonempty)
  show "unat (hd (uint_content v)) < 128"
    using hd_strip_sign [of "0 # be_bytes 8 (unat v)"] by (simp add: uint_content_def)
  obtain k where "0 # be_bytes 8 (unat v) = replicate k 0 @ uint_content v"
    using strip_sign_ext [of "0 # be_bytes 8 (unat v)"] by (auto simp: uint_content_def)
  then have "be_nat (0 # be_bytes 8 (unat v)) = be_nat (uint_content v)"
    by (simp only: be_nat_replicate_0)
  then show "be_nat (uint_content v) = unat v"
    using unsigned_less [of v, where 'a = nat] by (simp add: be_nat_be_bytes)
qed

lemma CBS_get_asn1_uint64_iff:
  "CBS_get_asn1_uint64 s = (Some v, t) \<longleftrightarrow> s = der_element CBS_ASN1_INTEGER (uint_content v) @ t"
proof
  assume "CBS_get_asn1_uint64 s = (Some v, t)"
  then obtain bs where s: "s = der_element CBS_ASN1_INTEGER bs @ t"
    and bs: "CBS_is_valid_asn1_integer bs = Some False" "asn1_uint64_loop 0 bs = Some v"
    by (auto simp: CBS_get_asn1_uint64_def rbind_eq_Some CBS_get_asn1_iff CBS_is_unsigned_asn1_integer_def
        rret_def rfail_def split: if_splits option.splits)
  from bs have "uint_content v = bs"
    by (intro uint_content_unique) (auto simp: valid_integer_iff asn1_uint64_loop_Some)
  with s show "s = der_element CBS_ASN1_INTEGER (uint_content v) @ t" by simp
next
  assume s: "s = der_element CBS_ASN1_INTEGER (uint_content v) @ t"
  have "length (uint_content v) \<le> 9"
    using length_strip_sign [of "0 # be_bytes 8 (unat v)"] by (simp add: uint_content_def)
  then have "CBS_get_asn1 CBS_ASN1_INTEGER s = (Some (uint_content v), t)"
    by (simp add: CBS_get_asn1_iff s)
  moreover have "CBS_is_valid_asn1_integer (uint_content v) = Some False"
    using uint_content_props [of v] by (simp add: valid_integer_iff)
  moreover have "asn1_uint64_loop 0 (uint_content v) = Some v"
    using uint_content_props(4) [of v] unsigned_less [of v, where 'a = nat] by (simp add: asn1_uint64_loop_Some)
  ultimately show "CBS_get_asn1_uint64 s = (Some v, t)"
    by (simp add: CBS_get_asn1_uint64_def CBS_is_unsigned_asn1_integer_def reader_simps)
qed

lemma copy_reversed_eq:
  "i \<le> len \<Longrightarrow> len \<le> length u \<Longrightarrow> length data = len \<Longrightarrow>
   copy_reversed len data i u = take i (rev data) @ drop i u"
proof (induction i)
  case (Suc i)
  then have "(take i (rev data) @ drop i u)[i := data ! (len - i - 1)] =
      take i (rev data) @ (drop i u)[0 := rev data ! i]"
    by (simp add: list_update_append rev_nth)
  also have "\<dots> = take (Suc i) (rev data) @ drop (Suc i) u"
    using Suc.prems by (simp add: take_Suc_conv_app_nth upd_conv_take_nth_drop)
  finally show ?case using Suc by simp
qed simp

lemma int_word_of_content:
  assumes "length data \<le> 8"
  shows "be_bytes 8 (unat (le_word (copy_reversed (length data) data (length data) (replicate 8 e)))) =
     replicate (8 - length data) e @ data"
proof -
  have "rev (copy_reversed (length data) data (length data) (replicate 8 e)) = replicate (8 - length data) e @ data"
    using assms by (simp add: copy_reversed_eq)
  then show ?thesis
    using assms by (intro be_bytes_unique) (simp_all add: le_word_def unat_be_word_0)
qed

lemma CBS_get_asn1_int64_iff:
  "CBS_get_asn1_int64 s = (Some v, t) \<longleftrightarrow> s = der_element CBS_ASN1_INTEGER (int_content v) @ t"
proof
  assume "CBS_get_asn1_int64 s = (Some v, t)"
  then obtain bs u where bs: "CBS_get_asn1 CBS_ASN1_INTEGER s = (Some bs, u)"
    and f: "(case CBS_is_valid_asn1_integer bs of None \<Rightarrow> rfail
       | Some neg \<Rightarrow> if length bs > 8 then rfail
           else rret (le_word (copy_reversed (length bs) bs (length bs) (replicate 8 (if neg then 0xff else 0))))) u
       = (Some v, t)"
    unfolding CBS_get_asn1_int64_def rbind_eq_Some CBS_len_def Let_def by blast
  from f obtain neg where bs8: "CBS_is_valid_asn1_integer bs = Some neg" "length bs \<le> 8" and "u = t"
    and v: "v = le_word (copy_reversed (length bs) bs (length bs) (replicate 8 (if neg then 0xff else 0)))"
    by (cases "CBS_is_valid_asn1_integer bs"; cases "length bs > 8") (simp_all add: rret_def rfail_def not_less)
  with bs have s: "s = der_element CBS_ASN1_INTEGER bs @ t" by (simp add: CBS_get_asn1_iff)
  have "be_bytes 8 (unat v) = replicate (8 - length bs) (if neg then 0xff else 0) @ bs"
    unfolding v by (rule int_word_of_content [OF bs8(2)])
  moreover have "bs \<noteq> []" "strip_sign bs = bs" "neg \<longleftrightarrow> 128 \<le> unat (hd bs)"
    using bs8(1) unfolding valid_integer_iff by blast+
  ultimately have "int_content v = bs"
    using strip_sign_replicate [of bs "8 - length bs"] by (simp only: int_content_def simp_thms)
  with s show "s = der_element CBS_ASN1_INTEGER (int_content v) @ t" by simp
next
  assume s: "s = der_element CBS_ASN1_INTEGER (int_content v) @ t"
  let ?c = "int_content v" let ?neg = "128 \<le> unat (hd ?c)"
  have len: "length ?c \<le> 8"
    using length_strip_sign [of "be_bytes 8 (unat v)"] by (simp add: int_content_def)
  have ne: "be_bytes 8 (unat v) \<noteq> []" by (metis length_be_bytes list.size(3) zero_neq_numeral)
  have hd: "128 \<le> unat (hd (be_bytes 8 (unat v))) \<longleftrightarrow> ?neg"
    using hd_strip_sign [OF ne] by (simp add: int_content_def flip: not_less)
  obtain k where k: "be_bytes 8 (unat v) = replicate k (if ?neg then 0xff else 0) @ ?c"
    using strip_sign_ext [OF ne] unfolding hd by (auto simp: int_content_def)
  from arg_cong [OF k, of length] have k8: "k = 8 - length ?c" by simp
  have "le_word (copy_reversed (length ?c) ?c (length ?c) (replicate 8 (if ?neg then 0xff else 0))) = v"
    by (rule be_bytes_word_inj [of 8]) (simp_all only: int_word_of_content [OF len] k k8, simp)
  moreover have "CBS_is_valid_asn1_integer ?c = Some ?neg"
    using ne by (simp add: valid_integer_iff int_content_def strip_sign_idem strip_sign_nonempty)
  moreover have "CBS_get_asn1 CBS_ASN1_INTEGER s = (Some ?c, t)"
    using len by (simp add: CBS_get_asn1_iff s)
  ultimately show "CBS_get_asn1_int64 s = (Some v, t)"
    using len by (simp add: CBS_get_asn1_int64_def CBS_len_def reader_simps Let_def)
qed

lemma CBS_get_asn1_bool_iff:
  "CBS_get_asn1_bool s = (Some v, t) \<longleftrightarrow>
     s = der_element CBS_ASN1_BOOLEAN [if v then 0xff else 0] @ t"
proof
  assume "CBS_get_asn1_bool s = (Some v, t)"
  then show "s = der_element CBS_ASN1_BOOLEAN [if v then 0xff else 0] @ t"
    by (auto simp: CBS_get_asn1_bool_def rbind_eq_Some CBS_get_asn1_iff CBS_len_def Let_def
        rret_def rfail_def length_Suc_conv split: if_splits)
next
  assume s: "s = der_element CBS_ASN1_BOOLEAN [if v then 0xff else 0] @ t"
  then have "CBS_get_asn1 CBS_ASN1_BOOLEAN s = (Some [if v then 0xff else 0], t)"
    by (simp add: CBS_get_asn1_iff)
  then show "CBS_get_asn1_bool s = (Some v, t)"
    by (simp add: CBS_get_asn1_bool_def CBS_len_def reader_simps)
qed

interpretation der_uint64: codec "\<lambda>v. der_element CBS_ASN1_INTEGER (uint_content v)" CBS_get_asn1_uint64 "\<lambda>_. True"
  by unfold_locales (simp add: CBS_get_asn1_uint64_iff)

interpretation der_int64: codec "\<lambda>v. der_element CBS_ASN1_INTEGER (int_content v)" CBS_get_asn1_int64 "\<lambda>_. True"
  by unfold_locales (simp add: CBS_get_asn1_int64_iff)

interpretation der_bool: codec "\<lambda>v. der_element CBS_ASN1_BOOLEAN [if v then 0xff else 0]" CBS_get_asn1_bool "\<lambda>_. True"
  by unfold_locales (simp add: CBS_get_asn1_bool_iff)

section \<open>Optional elements and cursor movement\<close>

lemma CBS_get_optional_asn1_uint64_present:
  assumes "length (der_element CBS_ASN1_INTEGER (uint_content v)) < 2 ^ 32"
  shows "CBS_get_optional_asn1_uint64 tag d (der_element tag (der_element CBS_ASN1_INTEGER (uint_content v)) @ t)
     = (Some v, t)"
proof -
  let ?e = "der_element CBS_ASN1_INTEGER (uint_content v)"
  have "CBS_peek_asn1_tag (der_element tag ?e @ t) tag"
    by (auto simp: CBS_peek_asn1_tag_iff der_element_def [of tag])
  moreover have "CBS_get_asn1 tag (der_element tag ?e @ t) = (Some ?e, t)"
    using assms by (simp add: CBS_get_asn1_iff)
  ultimately show ?thesis
    using der_uint64.dec_enc [of v "[]"]
    by (simp add: CBS_get_optional_asn1_uint64_def CBS_get_optional_asn1_def CBS_len_def reader_simps)
qed

lemma CBS_get_optional_asn1_absent:
  "\<not> CBS_peek_asn1_tag s tag \<Longrightarrow> CBS_get_optional_asn1_uint64 tag d s = (Some d, s)"
  by (simp add: CBS_get_optional_asn1_uint64_def CBS_get_optional_asn1_def reader_simps)

lemma consumes_cbs_get [intro, simp]: "consumes (cbs_get n)"
  by (rule consumesI) (auto simp: cbs_get_def not_less intro: exI [of _ 0])

lemma consumes_CBS_get_bytes [intro, simp]: "consumes (CBS_get_bytes n)"
  by (auto simp: CBS_get_bytes_def)

lemma consumes_CBS_get_u8 [intro, simp]: "consumes CBS_get_u8"
  by (auto simp: CBS_get_u8_def)

lemma consumes_element [intro, simp]: "consumes (cbs_get_any_asn1_element ber_ok)"
proof (rule consumesI)
  fix s
  have "consumes (get_element_bytes l tag h b)" for l tag h b
    by (auto simp: get_element_bytes_def)
  then have e: "\<exists>n \<le> length s. snd (get_element_bytes l tag h b s) = drop n s" for l tag h b
    by (simp add: consumes_def)
  have z: "\<exists>n \<le> length s. s = drop n s" by (intro exI [of _ 0]) simp
  show "\<exists>n \<le> length s. snd (cbs_get_any_asn1_element ber_ok s) = drop n s"
    unfolding cbs_get_any_asn1_element_def Let_def
    by (simp add: e z split: prod.split option.split)
qed

lemma consumes_CBS_get_asn1 [intro, simp]: "consumes (CBS_get_asn1 tag)"
  unfolding CBS_get_asn1_def cbs_get_asn1_def CBS_get_any_asn1_element_def
  by (rule consumes_rbind) (auto split: prod.split option.split)

end
