(* ===== verification/CBB.thy ===== *)
theory CBB
  imports DER
begin

unbundle bit_operations_syntax

text \<open>
  \<^verbatim>\<open>crypto/bytestring/cbb.c\<close>: building byte strings with nested length prefixes.

  All the \<^verbatim>\<open>CBB\<close>s of one tree share a \<^verbatim>\<open>cbb_buffer_st\<close>, and each has at most one child, so
  the tree is the shared buffer with the chain of open children, the root's child first.  A
  \<^verbatim>\<open>CBB *\<close> argument is the depth \<open>d\<close> of that \<^verbatim>\<open>CBB\<close> in the chain, 0 for the root; beyond
  the end of the chain it is a \<^verbatim>\<open>CBB\<close> that was flushed or discarded by its parent, whose
  \<^verbatim>\<open>base\<close> is null.  The root itself is a zeroed \<^verbatim>\<open>CBB\<close> with offset 0 and no pending length.
  A null \<^verbatim>\<open>buf\<close> is the empty list.  Functions return the success flag and the new state.
\<close>

record cbb_buffer_st =
  buf :: bytes
  blen :: nat
  cap :: nat
  can_resize :: bool
  berror :: bool

record cbb_child =
  offset :: nat
  pending_len_len :: nat
  pending_is_asn1 :: bool

record cbb_st =
  base :: "cbb_buffer_st option"
  chain :: "cbb_child list"

type_synonym cbb_op = "cbb_st \<Rightarrow> bool \<times> cbb_st"

text \<open>The evaluation order of \<^verbatim>\<open>f && g\<close>.\<close>

definition andalso :: "cbb_op \<Rightarrow> cbb_op \<Rightarrow> cbb_op" where
  "andalso f g = (\<lambda>st. case f st of (False, st) \<Rightarrow> (False, st) | (True, st) \<Rightarrow> g st)"

section \<open>The buffer\<close>

definition CBB_zero :: cbb_st where
  "CBB_zero = \<lparr>base = None, chain = []\<rparr>"

definition sizeof_cbb_buffer_st :: nat where
  "sizeof_cbb_buffer_st = 32"

definition cbb_init :: "alloc_env \<Rightarrow> bytes \<Rightarrow> nat \<Rightarrow> cbb_op" where
  "cbb_init E bf cp = (\<lambda>cbb.
     case OPENSSL_malloc E sizeof_cbb_buffer_st of
       None \<Rightarrow> (False, cbb)
     | Some _ \<Rightarrow> (True, cbb\<lparr>base := Some \<lparr>buf = bf, blen = 0, cap = cp, can_resize = True,
                                        berror = False\<rparr>\<rparr>))"

definition CBB_init :: "alloc_env \<Rightarrow> nat \<Rightarrow> bool \<times> cbb_st" where
  "CBB_init E initial_capacity =
     (case OPENSSL_malloc E initial_capacity of
        None \<Rightarrow> if initial_capacity > 0 then (False, CBB_zero) else cbb_init E [] 0 CBB_zero
      | Some bf \<Rightarrow> cbb_init E bf initial_capacity CBB_zero)"

definition CBB_init_fixed :: "alloc_env \<Rightarrow> bytes \<Rightarrow> nat \<Rightarrow> bool \<times> cbb_st" where
  "CBB_init_fixed E bf len =
     (case cbb_init E bf len CBB_zero of
        (False, cbb) \<Rightarrow> (False, cbb)
      | (True, cbb) \<Rightarrow> (True, cbb\<lparr>base := map_option (\<lambda>b. b\<lparr>can_resize := False\<rparr>) (base cbb)\<rparr>))"

definition CBB_cleanup :: "nat \<Rightarrow> cbb_st \<Rightarrow> cbb_st" where
  "CBB_cleanup d cbb = (if d \<noteq> 0 then cbb else cbb\<lparr>base := None\<rparr>)"

definition cbb_buffer_reserve :: "alloc_env \<Rightarrow> nat \<Rightarrow> cbb_buffer_st \<Rightarrow> bool \<times> cbb_buffer_st" where
  "cbb_buffer_reserve E len b =
     (let newlen = size_add (blen b) len in
      if newlen < blen b then (False, b\<lparr>berror := True\<rparr>)
      else if newlen > cap b then
        if \<not> can_resize b then (False, b\<lparr>berror := True\<rparr>)
        else
          let newcap = size_mul (cap b) 2;
              newcap = (if newcap < cap b \<or> newcap < newlen then newlen else newcap)
          in case OPENSSL_realloc E (Some (buf b)) newcap of
               None \<Rightarrow> (False, b\<lparr>berror := True\<rparr>)
             | Some newbuf \<Rightarrow> (True, b\<lparr>buf := newbuf, cap := newcap\<rparr>)
      else (True, b))"

definition cbb_buffer_add :: "alloc_env \<Rightarrow> nat \<Rightarrow> cbb_buffer_st \<Rightarrow> bool \<times> cbb_buffer_st" where
  "cbb_buffer_add E len b =
     (case cbb_buffer_reserve E len b of
        (False, b) \<Rightarrow> (False, b)
      | (True, b) \<Rightarrow> (True, b\<lparr>blen := size_add (blen b) len\<rparr>))"

text \<open>Writing at a position of the buffer (\<^verbatim>\<open>memcpy\<close>, \<^verbatim>\<open>memset\<close>, \<^verbatim>\<open>memmove\<close>).\<close>

definition write_at :: "nat \<Rightarrow> bytes \<Rightarrow> bytes \<Rightarrow> bytes" where
  "write_at pos xs bf = take pos bf @ xs @ drop (pos + length xs) bf"

text \<open>
  The loop \<^verbatim>\<open>for (i = n - 1; i < n; i--) { buf[pos + i] = v; v >>= 8; }\<close>: the buffer and
  what is left of \<open>v\<close>.
\<close>

fun store_be :: "nat \<Rightarrow> nat \<Rightarrow> u64 \<Rightarrow> bytes \<Rightarrow> bytes \<times> u64" where
  "store_be pos 0 v bf = (bf, v)"
| "store_be pos (Suc i) v bf = store_be pos i (drop_bit 8 v) (bf[pos + i := ucast v])"

definition cbb_buffer_add_u :: "alloc_env \<Rightarrow> u64 \<Rightarrow> nat \<Rightarrow> cbb_buffer_st \<Rightarrow> bool \<times> cbb_buffer_st" where
  "cbb_buffer_add_u E v len_len b =
     (if len_len = 0 then (True, b)
      else
        let pos = blen b in
        case cbb_buffer_add E len_len b of
          (False, b) \<Rightarrow> (False, b)
        | (True, b) \<Rightarrow>
            (case store_be pos len_len v (buf b) of
               (bf, v) \<Rightarrow>
                 if v \<noteq> 0 then (False, b\<lparr>buf := bf, berror := True\<rparr>)
                 else (True, b\<lparr>buf := bf\<rparr>)))"

section \<open>Flushing pending lengths\<close>

text \<open>
  The length octets \<^verbatim>\<open>CBB_flush\<close> chooses for an ASN.1 element: the number of octets, the
  first one, and the length still to be stored; \<open>None\<close> when the contents are too large.
\<close>

definition asn1_length_form :: "nat \<Rightarrow> (nat \<times> u8 \<times> nat) option" where
  "asn1_length_form len =
     (if len > 0xfffffffe then None
      else if len > 0xffffff then Some (5, 0x80 OR 4, len)
      else if len > 0xffff then Some (4, 0x80 OR 3, len)
      else if len > 0xff then Some (3, 0x80 OR 2, len)
      else if len > 0x7f then Some (2, 0x80 OR 1, len)
      else Some (1, of_nat len, 0))"

definition store_pending ::
    "cbb_buffer_st \<Rightarrow> cbb_child \<Rightarrow> nat \<Rightarrow> bool \<times> cbb_buffer_st \<times> cbb_child" where
  "store_pending b c len =
     (case store_be (offset c) (pending_len_len c) (of_nat len) (buf b) of
        (bf, rest) \<Rightarrow>
          if rest \<noteq> 0 then (False, b\<lparr>buf := bf, berror := True\<rparr>, c)
          else (True, b\<lparr>buf := bf\<rparr>, c))"

definition flush_child ::
    "alloc_env \<Rightarrow> cbb_buffer_st \<Rightarrow> cbb_child \<Rightarrow> nat \<Rightarrow> bool \<times> cbb_buffer_st \<times> cbb_child" where
  "flush_child E b c child_start =
     (let len = blen b - child_start in
      if pending_is_asn1 c then
        case asn1_length_form len of
          None \<Rightarrow> (False, b\<lparr>berror := True\<rparr>, c)
        | Some (len_len, initial_length_byte, len') \<Rightarrow>
            (let extra_bytes = len_len - 1;
                 moved = (if len_len \<noteq> 1 then
                            case cbb_buffer_add E extra_bytes b of
                              (False, b) \<Rightarrow> (False, b)
                            | (True, b) \<Rightarrow>
                                (True, b\<lparr>buf := write_at (child_start + extra_bytes)
                                               (take len (drop child_start (buf b))) (buf b)\<rparr>)
                          else (True, b))
             in case moved of
                  (False, b) \<Rightarrow> (False, b\<lparr>berror := True\<rparr>, c)
                | (True, b) \<Rightarrow>
                    store_pending (b\<lparr>buf := (buf b)[offset c := initial_length_byte]\<rparr>)
                      (c\<lparr>offset := offset c + 1, pending_len_len := len_len - 1\<rparr>) len')
      else store_pending b c len)"

text \<open>
  \<^verbatim>\<open>CBB_flush\<close> of a \<^verbatim>\<open>CBB\<close> from its child on: the recursion is along the chain of children.
\<close>

fun flush_chain ::
    "alloc_env \<Rightarrow> cbb_buffer_st \<Rightarrow> cbb_child list \<Rightarrow> bool \<times> cbb_buffer_st \<times> cbb_child list" where
  "flush_chain E b [] = (if berror b then (False, b, []) else (True, b, []))"
| "flush_chain E b (c # cs) =
     (if berror b then (False, b, c # cs)
      else if pending_len_len c = 0 then (True, b, c # cs)
      else
        let child_start = size_add (offset c) (pending_len_len c) in
        case flush_chain E b cs of
          (False, b, cs) \<Rightarrow> (False, b\<lparr>berror := True\<rparr>, c # cs)
        | (True, b, cs) \<Rightarrow>
            if child_start < offset c \<or> blen b < child_start
            then (False, b\<lparr>berror := True\<rparr>, c # cs)
            else
              case flush_child E b c child_start of
                (False, b, c) \<Rightarrow> (False, b, c # cs)
              | (True, b, c) \<Rightarrow> (True, b, []))"

definition CBB_flush :: "alloc_env \<Rightarrow> nat \<Rightarrow> cbb_op" where
  "CBB_flush E d = (\<lambda>cbb.
     case base cbb of
       None \<Rightarrow> (False, cbb)
     | Some b \<Rightarrow>
         if d > length (chain cbb) then (False, cbb)
         else
           case flush_chain E b (drop d (chain cbb)) of
             (ok, b, cs) \<Rightarrow> (ok, cbb\<lparr>base := Some b, chain := take d (chain cbb) @ cs\<rparr>))"

text \<open>Running a buffer operation on the shared base.\<close>

definition on_base :: "(cbb_buffer_st \<Rightarrow> bool \<times> cbb_buffer_st) \<Rightarrow> cbb_op" where
  "on_base f = (\<lambda>cbb.
     case base cbb of
       None \<Rightarrow> (False, cbb)
     | Some b \<Rightarrow> (case f b of (ok, b) \<Rightarrow> (ok, cbb\<lparr>base := Some b\<rparr>)))"

text \<open>
  \<^verbatim>\<open>CBB_finish\<close>: the buffer and length handed to the caller, if it succeeds.  The two flags
  say whether \<^verbatim>\<open>out_data\<close> and \<^verbatim>\<open>out_len\<close> are non-null.
\<close>

definition CBB_finish ::
    "alloc_env \<Rightarrow> nat \<Rightarrow> bool \<Rightarrow> bool \<Rightarrow> cbb_st \<Rightarrow> (bytes \<times> nat) option \<times> cbb_st" where
  "CBB_finish E d has_data has_len cbb =
     (if d \<noteq> 0 then (None, cbb)
      else case CBB_flush E d cbb of
             (False, cbb) \<Rightarrow> (None, cbb)
           | (True, cbb) \<Rightarrow>
               (case base cbb of
                  None \<Rightarrow> (None, cbb)
                | Some b \<Rightarrow>
                    if can_resize b \<and> (\<not> has_data \<or> \<not> has_len) then (None, cbb)
                    else (Some (buf b, blen b), CBB_cleanup d cbb)))"

text \<open>
  The position and length of the \<^verbatim>\<open>CBB\<close> at depth \<open>d\<close>; the source asserts that it has no
  child.
\<close>

definition cbb_start :: "nat \<Rightarrow> cbb_st \<Rightarrow> nat" where
  "cbb_start d cbb =
     (if d = 0 then 0 else let c = chain cbb ! (d - 1) in offset c + pending_len_len c)"

definition CBB_data :: "nat \<Rightarrow> cbb_st \<Rightarrow> bytes" where
  "CBB_data d cbb = (case base cbb of None \<Rightarrow> [] | Some b \<Rightarrow> drop (cbb_start d cbb) (buf b))"

definition CBB_len :: "nat \<Rightarrow> cbb_st \<Rightarrow> nat" where
  "CBB_len d cbb = (case base cbb of None \<Rightarrow> 0 | Some b \<Rightarrow> blen b - cbb_start d cbb)"

section \<open>Adding values\<close>

definition open_child :: "nat \<Rightarrow> cbb_child \<Rightarrow> cbb_op" where
  "open_child d c = (\<lambda>cbb. (True, cbb\<lparr>chain := take d (chain cbb) @ [c]\<rparr>))"

definition base_len :: "cbb_st \<Rightarrow> nat" where
  "base_len cbb = (case base cbb of None \<Rightarrow> 0 | Some b \<Rightarrow> blen b)"

definition cbb_add_length_prefixed :: "alloc_env \<Rightarrow> nat \<Rightarrow> nat \<Rightarrow> cbb_op" where
  "cbb_add_length_prefixed E d len_len =
     andalso (CBB_flush E d) (\<lambda>cbb.
       let off = base_len cbb in
       andalso
         (on_base (\<lambda>b. case cbb_buffer_add E len_len b of
                         (False, b) \<Rightarrow> (False, b)
                       | (True, b) \<Rightarrow> (True, b\<lparr>buf := write_at off (replicate len_len 0) (buf b)\<rparr>)))
         (open_child d \<lparr>offset = off, pending_len_len = len_len, pending_is_asn1 = False\<rparr>) cbb)"

definition CBB_add_u8_length_prefixed :: "alloc_env \<Rightarrow> nat \<Rightarrow> cbb_op" where
  "CBB_add_u8_length_prefixed E d = cbb_add_length_prefixed E d 1"

definition CBB_add_u16_length_prefixed :: "alloc_env \<Rightarrow> nat \<Rightarrow> cbb_op" where
  "CBB_add_u16_length_prefixed E d = cbb_add_length_prefixed E d 2"

definition CBB_add_u24_length_prefixed :: "alloc_env \<Rightarrow> nat \<Rightarrow> cbb_op" where
  "CBB_add_u24_length_prefixed E d = cbb_add_length_prefixed E d 3"

definition CBB_add_u8 :: "alloc_env \<Rightarrow> nat \<Rightarrow> u8 \<Rightarrow> cbb_op" where
  "CBB_add_u8 E d v = andalso (CBB_flush E d) (on_base (cbb_buffer_add_u E (ucast v) 1))"

definition CBB_add_u16 :: "alloc_env \<Rightarrow> nat \<Rightarrow> u16 \<Rightarrow> cbb_op" where
  "CBB_add_u16 E d v = andalso (CBB_flush E d) (on_base (cbb_buffer_add_u E (ucast v) 2))"

definition CBB_add_u16le :: "alloc_env \<Rightarrow> nat \<Rightarrow> u16 \<Rightarrow> cbb_op" where
  "CBB_add_u16le E d v = CBB_add_u16 E d (CRYPTO_bswap2 v)"

definition CBB_add_u24 :: "alloc_env \<Rightarrow> nat \<Rightarrow> u32 \<Rightarrow> cbb_op" where
  "CBB_add_u24 E d v = andalso (CBB_flush E d) (on_base (cbb_buffer_add_u E (ucast v) 3))"

definition CBB_add_u32 :: "alloc_env \<Rightarrow> nat \<Rightarrow> u32 \<Rightarrow> cbb_op" where
  "CBB_add_u32 E d v = andalso (CBB_flush E d) (on_base (cbb_buffer_add_u E (ucast v) 4))"

definition CBB_add_u32le :: "alloc_env \<Rightarrow> nat \<Rightarrow> u32 \<Rightarrow> cbb_op" where
  "CBB_add_u32le E d v = CBB_add_u32 E d (CRYPTO_bswap4 v)"

definition CBB_add_u64 :: "alloc_env \<Rightarrow> nat \<Rightarrow> u64 \<Rightarrow> cbb_op" where
  "CBB_add_u64 E d v = andalso (CBB_flush E d) (on_base (cbb_buffer_add_u E v 8))"

definition CBB_add_u64le :: "alloc_env \<Rightarrow> nat \<Rightarrow> u64 \<Rightarrow> cbb_op" where
  "CBB_add_u64le E d v = CBB_add_u64 E d (CRYPTO_bswap8 v)"

definition CBB_add_space :: "alloc_env \<Rightarrow> nat \<Rightarrow> nat \<Rightarrow> cbb_op" where
  "CBB_add_space E d len = andalso (CBB_flush E d) (on_base (cbb_buffer_add E len))"

definition CBB_reserve :: "alloc_env \<Rightarrow> nat \<Rightarrow> nat \<Rightarrow> cbb_op" where
  "CBB_reserve E d len = andalso (CBB_flush E d) (on_base (cbb_buffer_reserve E len))"

definition CBB_did_write :: "nat \<Rightarrow> nat \<Rightarrow> cbb_op" where
  "CBB_did_write d len = (\<lambda>cbb.
     case base cbb of
       None \<Rightarrow> (False, cbb)
     | Some b \<Rightarrow>
         (let newlen = size_add (blen b) len in
          if d < length (chain cbb) \<or> newlen < blen b \<or> newlen > cap b then (False, cbb)
          else (True, cbb\<lparr>base := Some (b\<lparr>blen := newlen\<rparr>)\<rparr>)))"

definition CBB_add_bytes :: "alloc_env \<Rightarrow> nat \<Rightarrow> bytes \<Rightarrow> cbb_op" where
  "CBB_add_bytes E d data =
     andalso (CBB_flush E d)
       (on_base (\<lambda>b. case cbb_buffer_add E (length data) b of
                       (False, b') \<Rightarrow> (False, b')
                     | (True, b') \<Rightarrow> (True, b'\<lparr>buf := write_at (blen b) data (buf b')\<rparr>)))"

definition CBB_add_zeros :: "alloc_env \<Rightarrow> nat \<Rightarrow> nat \<Rightarrow> cbb_op" where
  "CBB_add_zeros E d len =
     andalso (CBB_add_space E d len)
       (on_base (\<lambda>b. (True, b\<lparr>buf := write_at (blen b - len) (replicate len 0) (buf b)\<rparr>)))"

definition CBB_discard_child :: "nat \<Rightarrow> cbb_st \<Rightarrow> cbb_st" where
  "CBB_discard_child d cbb =
     (if d \<ge> length (chain cbb) then cbb
      else cbb\<lparr>base := map_option (\<lambda>b. b\<lparr>blen := offset (chain cbb ! d)\<rparr>) (base cbb),
               chain := take d (chain cbb)\<rparr>)"

section \<open>ASN.1\<close>

function b128_len :: "u64 \<Rightarrow> nat" where
  "b128_len copy = (if copy > 0 then Suc (b128_len (drop_bit 7 copy)) else 0)"
  by pat_completeness auto
termination
proof (relation "measure unat")
  fix copy :: u64
  assume "copy > 0"
  then have "unat copy > 0" by (simp add: word_less_nat_alt)
  then show "(drop_bit 7 copy, copy) \<in> measure unat"
    using unat_div_drop_bit [of copy 7] by simp
qed simp

declare b128_len.simps [simp del]

fun add_base128_loop :: "alloc_env \<Rightarrow> nat \<Rightarrow> u64 \<Rightarrow> nat \<Rightarrow> cbb_op" where
  "add_base128_loop E d v 0 = (\<lambda>cbb. (True, cbb))"
| "add_base128_loop E d v (Suc i) =
     (let byte = ucast (drop_bit (7 * i) v) AND 0x7f;
          byte = (if i \<noteq> 0 then byte OR 0x80 else byte)
      in andalso (CBB_add_u8 E d byte) (add_base128_loop E d v i))"

definition add_base128_integer :: "alloc_env \<Rightarrow> nat \<Rightarrow> u64 \<Rightarrow> cbb_op" where
  "add_base128_integer E d v =
     (let len_len = b128_len v;
          len_len = (if len_len = 0 then 1 else len_len)
      in add_base128_loop E d v len_len)"

definition CBB_add_asn1 :: "alloc_env \<Rightarrow> nat \<Rightarrow> u32 \<Rightarrow> cbb_op" where
  "CBB_add_asn1 E d tag =
     andalso (CBB_flush E d)
       (let tag_bits = ucast (drop_bit CBS_ASN1_TAG_SHIFT tag) AND 0xe0;
            tag_number = tag AND CBS_ASN1_TAG_NUMBER_MASK
        in andalso
             (if tag_number \<ge> 0x1f
              then andalso (CBB_add_u8 E d (tag_bits OR 0x1f))
                           (add_base128_integer E d (ucast tag_number))
              else CBB_add_u8 E d (tag_bits OR ucast tag_number))
             (\<lambda>cbb.
               let off = base_len cbb in
               andalso (CBB_add_u8 E d 0)
                 (open_child d \<lparr>offset = off, pending_len_len = 1, pending_is_asn1 = True\<rparr>) cbb))"

fun add_uint64_loop :: "alloc_env \<Rightarrow> nat \<Rightarrow> u64 \<Rightarrow> nat \<Rightarrow> bool \<Rightarrow> cbb_st \<Rightarrow> bool \<times> bool \<times> cbb_st" where
  \<comment> \<open>\<open>n\<close> rounds are left; the result is the success flag, \<^verbatim>\<open>started\<close> and the state\<close>
  "add_uint64_loop E d val 0 started cbb = (True, started, cbb)"
| "add_uint64_loop E d val (Suc n) started cbb =
     (let byte = ucast (drop_bit (8 * n) val) AND 0xff in
      if \<not> started \<and> byte = 0 then add_uint64_loop E d val n started cbb
      else
        case (if \<not> started \<and> byte AND 0x80 \<noteq> 0 then CBB_add_u8 E d 0 cbb else (True, cbb)) of
          (False, cbb) \<Rightarrow> (False, started, cbb)
        | (True, cbb) \<Rightarrow>
            (case CBB_add_u8 E d byte cbb of
               (False, cbb) \<Rightarrow> (False, True, cbb)
             | (True, cbb) \<Rightarrow> add_uint64_loop E d val n True cbb))"

definition CBB_add_asn1_uint64 :: "alloc_env \<Rightarrow> nat \<Rightarrow> u64 \<Rightarrow> cbb_op" where
  "CBB_add_asn1_uint64 E d val =
     andalso (CBB_add_asn1 E d CBS_ASN1_INTEGER) (\<lambda>cbb.
       case add_uint64_loop E (d + 1) val 8 False cbb of
         (False, _, cbb) \<Rightarrow> (False, cbb)
       | (True, started, cbb) \<Rightarrow>
           andalso (if \<not> started then CBB_add_u8 E (d + 1) 0 else (\<lambda>cbb. (True, cbb)))
             (CBB_flush E d) cbb)"

text \<open>
  The eight bytes of an \<^verbatim>\<open>int64_t\<close> at increasing addresses (little-endian), the first
  index of the sign-extension loop and the copying loop.
\<close>

definition int64_bytes :: "u64 \<Rightarrow> bytes" where
  "int64_bytes v = rev (be_bytes 8 (unat v))"

fun sign_start :: "bytes \<Rightarrow> nat \<Rightarrow> nat" where
  "sign_start u 0 = 0"
| "sign_start u (Suc s) =
     (if u ! Suc s = 0xff \<and> u ! s AND 0x80 \<noteq> 0 then sign_start u s else Suc s)"

fun add_bytes_down :: "alloc_env \<Rightarrow> nat \<Rightarrow> bytes \<Rightarrow> nat \<Rightarrow> cbb_op" where
  \<comment> \<open>\<^verbatim>\<open>for (i = n - 1; i >= 0; i--) CBB_add_u8(child, u[i])\<close>\<close>
  "add_bytes_down E d u 0 = (\<lambda>cbb. (True, cbb))"
| "add_bytes_down E d u (Suc i) = andalso (CBB_add_u8 E d (u ! i)) (add_bytes_down E d u i)"

definition CBB_add_asn1_int64 :: "alloc_env \<Rightarrow> nat \<Rightarrow> u64 \<Rightarrow> cbb_op" where
  "CBB_add_asn1_int64 E d val =
     (if sint val \<ge> 0 then CBB_add_asn1_uint64 E d val
      else
        let u = int64_bytes val; start = sign_start u 7
        in andalso (CBB_add_asn1 E d CBS_ASN1_INTEGER)
             (andalso (add_bytes_down E (d + 1) u (start + 1)) (CBB_flush E d)))"

definition CBB_add_asn1_octet_string :: "alloc_env \<Rightarrow> nat \<Rightarrow> bytes \<Rightarrow> cbb_op" where
  "CBB_add_asn1_octet_string E d data =
     andalso (CBB_add_asn1 E d CBS_ASN1_OCTETSTRING)
       (andalso (CBB_add_bytes E (d + 1) data) (CBB_flush E d))"

definition CBB_add_asn1_bool :: "alloc_env \<Rightarrow> nat \<Rightarrow> bool \<Rightarrow> cbb_op" where
  "CBB_add_asn1_bool E d val =
     andalso (CBB_add_asn1 E d CBS_ASN1_BOOLEAN)
       (andalso (CBB_add_u8 E (d + 1) (if val then 0xff else 0)) (CBB_flush E d))"

end
