(* ===== verification/CBB_Writers.thy ===== *)
theory CBB_Writers
  imports CBB
begin

unbundle bit_operations_syntax

text \<open>
  The contract of the \<^verbatim>\<open>CBB\<close> operations: what the buffer of a tree holds once the pending length
  prefixes are written (\<open>flushed\<close>), the interface \<open>cbb_writer\<close> that every appending operation
  implements, and the rules by which writers compose, in sequence and inside length-prefixed and
  ASN.1 children.
\<close>

section \<open>The buffer\<close>

definition buf_ok :: "cbb_buffer_st \<Rightarrow> bool" where
  "buf_ok b \<longleftrightarrow> length (buf b) = cap b \<and> blen b \<le> cap b \<and> cap b < 2 ^ 64"

definition bdata :: "cbb_buffer_st \<Rightarrow> bytes" where
  "bdata b = take (blen b) (buf b)"

lemma length_bdata [simp]: "buf_ok b \<Longrightarrow> length (bdata b) = blen b"
  by (simp add: buf_ok_def bdata_def)

lemma length_write_at: "pos + length xs \<le> length bf \<Longrightarrow> length (write_at pos xs bf) = length bf"
  by (simp add: write_at_def)

lemma take_write_at: "pos \<le> length bf \<Longrightarrow> take (pos + length xs) (write_at pos xs bf) = take pos bf @ xs"
  by (simp add: write_at_def)

lemma take_write_at_before:
  "k \<le> pos \<Longrightarrow> pos \<le> length bf \<Longrightarrow> take k (write_at pos xs bf) = take k bf"
  by (simp add: write_at_def)

lemma cbb_buffer_reserve_cases:
  assumes ok: "buf_ok b" and "n < 2 ^ 64" and res: "cbb_buffer_reserve E n b = (r, b')"
  shows "buf_ok b' \<and> blen b' = blen b \<and> bdata b' = bdata b \<and> can_resize b' = can_resize b
    \<and> (if r then blen b + n \<le> cap b' \<and> berror b' = berror b else berror b')"
proof -
  let ?nl = "size_add (blen b) n"
  have b: "blen b < 2 ^ 64" "blen b \<le> cap b" "cap b < 2 ^ 64" "length (buf b) = cap b"
    using ok by (auto simp: buf_ok_def)
  show ?thesis
  proof (cases "?nl < blen b")
    case True
    with res ok show ?thesis by (auto simp: cbb_buffer_reserve_def buf_ok_def bdata_def)
  next
    case False
    with size_add_overflow_iff [OF b(1) assms(2)] have sum: "blen b + n < 2 ^ 64" by simp
    then have nl: "?nl = blen b + n" by (rule size_add_small)
    show ?thesis
    proof (cases "?nl > cap b \<and> can_resize b")
      case True
      define nc where "nc = (if size_mul (cap b) 2 < cap b \<or> size_mul (cap b) 2 < ?nl then ?nl else size_mul (cap b) 2)"
      have nc: "cap b \<le> nc" "nc < 2 ^ 64" "?nl \<le> nc"
        using True sum nl by (auto simp: nc_def size_mul_def)
      from True False res have *: "(case OPENSSL_realloc E (Some (buf b)) nc of
               None \<Rightarrow> (False, b\<lparr>berror := True\<rparr>)
             | Some newbuf \<Rightarrow> (True, b\<lparr>buf := newbuf, cap := nc\<rparr>)) = (r, b')"
        by (simp only: cbb_buffer_reserve_def Let_def flip: nc_def) simp
      show ?thesis
      proof (cases "OPENSSL_realloc E (Some (buf b)) nc")
        case None
        then show ?thesis using * ok by (auto simp: buf_ok_def bdata_def)
      next
        case (Some nb)
        with b nc have nb: "length nb = nc" "take (cap b) nb = buf b"
          using OPENSSL_realloc_length [OF Some] OPENSSL_realloc_prefix [OF Some] by auto
        then have "take (blen b) nb = take (blen b) (buf b)"
          using b(2) by (metis min.absorb1 take_take)
        with Some * nb nc nl b show ?thesis by (auto simp: buf_ok_def bdata_def)
      qed
    next
      case False2: False
      with False res ok nl show ?thesis
        by (auto simp: cbb_buffer_reserve_def buf_ok_def bdata_def Let_def split: if_splits)
    qed
  qed
qed

lemma cbb_buffer_add_True:
  assumes "buf_ok b" and "n < 2 ^ 64" and "cbb_buffer_add E n b = (True, b')"
  shows "buf_ok b'" and "blen b' = blen b + n" and "take (blen b) (buf b') = bdata b"
    and "berror b' = berror b" and "can_resize b' = can_resize b"
proof -
  obtain b1 where r: "cbb_buffer_reserve E n b = (True, b1)" and b': "b' = b1\<lparr>blen := size_add (blen b1) n\<rparr>"
    using assms(3) by (auto simp: cbb_buffer_add_def split: prod.splits bool.splits)
  note c = cbb_buffer_reserve_cases [OF assms(1,2) r]
  then have "size_add (blen b) n = blen b + n"
    by (intro size_add_small) (auto simp: buf_ok_def)
  with c b' show "buf_ok b'" "blen b' = blen b + n" "take (blen b) (buf b') = bdata b"
      "berror b' = berror b" "can_resize b' = can_resize b"
    by (auto simp: buf_ok_def bdata_def)
qed

lemma cbb_buffer_add_False:
  assumes "buf_ok b" and "n < 2 ^ 64" and "cbb_buffer_add E n b = (False, b')"
  shows "buf_ok b' \<and> berror b' \<and> bdata b' = bdata b"
  using cbb_buffer_reserve_cases [OF assms(1,2)] assms(3)
  by (auto simp: cbb_buffer_add_def split: prod.splits bool.splits)

lemma store_be_eq:
  "pos + n \<le> length bf \<Longrightarrow>
   store_be pos n v bf = (write_at pos (be_bytes n (unat v)) bf, drop_bit (8 * n) v)"
proof (induction n arbitrary: v bf)
  case 0
  then show ?case by (simp add: write_at_def)
next
  case (Suc n)
  have v: "unat v div 256 = unat (drop_bit 8 v)" "of_nat (unat v) = (ucast v :: u8)"
    using unat_div_drop_bit [of v 8] by (simp_all add: of_nat_unat_ucast)
  have "write_at pos (be_bytes n w) (bf[pos + n := x]) = write_at pos (be_bytes n w @ [x]) bf" for w x
    using Suc.prems by (simp add: write_at_def drop_update_swap Cons_nth_drop_Suc [symmetric] take_update_swap list_update_beyond)
  with Suc v show ?case by (simp add: add.commute)
qed


section \<open>Flushing\<close>

text \<open>What a pending child turns into when its contents are \<open>body\<close>, and when it can.\<close>

definition prefix_enc :: "cbb_child \<Rightarrow> bytes \<Rightarrow> bytes" where
  "prefix_enc c body =
     (if pending_is_asn1 c then der_len (length body) else be_bytes (pending_len_len c) (length body)) @ body"

definition fits :: "cbb_child \<Rightarrow> bytes \<Rightarrow> bool" where
  "fits c body =
     (if pending_is_asn1 c then length body \<le> 0xfffffffe else length body < 256 ^ pending_len_len c)"

definition child_ok :: "cbb_child \<Rightarrow> bool" where
  "child_ok c \<longleftrightarrow> 1 \<le> pending_len_len c \<and> pending_len_len c \<le> 3 \<and> (pending_is_asn1 c \<longrightarrow> pending_len_len c = 1)"

fun chain_ok :: "nat \<Rightarrow> cbb_child list \<Rightarrow> nat \<Rightarrow> bool" where
  "chain_ok start [] n = (start \<le> n)"
| "chain_ok start (c # cs) n =
     (start \<le> offset c \<and> child_ok c \<and> chain_ok (offset c + pending_len_len c) cs n)"

fun render :: "nat \<Rightarrow> cbb_child list \<Rightarrow> bytes \<Rightarrow> bytes" where
  "render start [] data = drop start data"
| "render start (c # cs) data =
     drop start (take (offset c) data) @ prefix_enc c (render (offset c + pending_len_len c) cs data)"

lemma chain_ok_le: "chain_ok start cs n \<Longrightarrow> start \<le> n"
  by (induction start cs n rule: chain_ok.induct) auto

lemma drop_bit_0_iff: "drop_bit (8 * k) (v :: u64) = 0 \<longleftrightarrow> unat v < 256 ^ k"
proof -
  have "drop_bit (8 * k) v = 0 \<longleftrightarrow> unat v div 2 ^ (8 * k) = 0"
    by (simp add: word_unat_eq_iff unat_div_drop_bit)
  then show ?thesis by (simp add: div_eq_0_iff power_mult)
qed

lemma store_pending_True:
  assumes ok: "buf_ok b" and len: "len < 2 ^ 64" and fit: "offset c + pending_len_len c \<le> blen b"
    and res: "store_pending b c len = (r, b', c')"
  shows "c' = c \<and> (r \<longleftrightarrow> len < 256 ^ pending_len_len c) \<and> buf_ok b' \<and> blen b' = blen b \<and> can_resize b' = can_resize b
    \<and> berror b' = (if r then berror b else True)
    \<and> bdata b' = take (offset c) (bdata b) @ be_bytes (pending_len_len c) len @ drop (offset c + pending_len_len c) (bdata b)"
proof -
  let ?k = "pending_len_len c" let ?o = "offset c"
  have un: "unat (of_nat len :: u64) = len" using len by (simp add: unat_of_nat)
  have bd: "?o + ?k \<le> length (buf b)" "blen b \<le> length (buf b)" using ok fit by (auto simp: buf_ok_def)
  have st: "store_be ?o ?k (of_nat len) (buf b) = (write_at ?o (be_bytes ?k len) (buf b), drop_bit (8 * ?k) (of_nat len))"
    using store_be_eq [OF bd(1)] by (simp add: un)
  have d: "drop_bit (8 * ?k) (of_nat len :: u64) = 0 \<longleftrightarrow> len < 256 ^ ?k"
    by (simp add: drop_bit_0_iff un)
  have tk: "take (blen b) (write_at ?o (be_bytes ?k len) (buf b)) =
      take ?o (bdata b) @ be_bytes ?k len @ drop (?o + ?k) (bdata b)"
  proof (cases "blen b \<le> ?o")
    case True
    with fit have "blen b = ?o" "?k = 0" by simp_all
    with bd show ?thesis by (simp add: write_at_def bdata_def)
  qed (use bd fit in \<open>auto simp: write_at_def bdata_def min_def drop_take\<close>)
  have ln: "length (write_at ?o (be_bytes ?k len) (buf b)) = length (buf b)"
    using bd by (intro length_write_at) simp
  show ?thesis
    using res ok d tk ln unfolding store_pending_def st by (auto simp: buf_ok_def bdata_def split: if_splits)
qed

lemma asn1_length_form_Some:
  assumes "asn1_length_form len = Some (len_len, ib, len')"
  shows "der_len len = ib # be_bytes (len_len - 1) len'" and "1 \<le> len_len" and "len_len \<le> 5"
    and "len' < 256 ^ (len_len - 1)" and "len_len \<noteq> 1 \<Longrightarrow> len' = len" and "len \<le> 0xfffffffe"
  using assms by (auto simp: asn1_length_form_def der_len_def split: if_splits)

lemma asn1_length_form_None: "asn1_length_form len = None \<longleftrightarrow> \<not> len \<le> 0xfffffffe"
  by (auto simp: asn1_length_form_def)


lemma flush_child_asn1:
  assumes ok: "buf_ok b" and a: "pending_is_asn1 c" "pending_len_len c = 1"
    and le: "offset c + 1 \<le> blen b"
    and res: "flush_child E b c (offset c + 1) = (r, b', c')"
  defines "body \<equiv> drop (offset c + 1) (bdata b)"
  shows "buf_ok b' \<and> can_resize b' = can_resize b
    \<and> (if r then berror b' = berror b \<and> length body \<le> 0xfffffffe
              \<and> bdata b' = take (offset c) (bdata b) @ der_len (length body) @ body
       else berror b')"
proof (cases "asn1_length_form (blen b - (offset c + 1))")
  case None
  with res a ok show ?thesis by (auto simp: flush_child_def buf_ok_def bdata_def)
next
  case (Some f)
  obtain ll ib len' where f: "f = (ll, ib, len')" by (cases f)
  let ?s = "offset c + 1" let ?len = "blen b - ?s" let ?x = "ll - 1"
  note lf = asn1_length_form_Some [OF Some [unfolded f]]
  have body: "length body = ?len" using ok by (simp add: body_def)
  define moved where "moved = (if ll \<noteq> 1 then case cbb_buffer_add E ?x b of (False, b) \<Rightarrow> (False, b)
      | (True, b) \<Rightarrow> (True, b\<lparr>buf := write_at (?s + ?x) (take ?len (drop ?s (buf b))) (buf b)\<rparr>) else (True, b))"
  have res': "(case moved of (False, b) \<Rightarrow> (False, b\<lparr>berror := True\<rparr>, c)
     | (True, b) \<Rightarrow> store_pending (b\<lparr>buf := (buf b)[offset c := ib]\<rparr>)
            (c\<lparr>offset := ?s, pending_len_len := ?x\<rparr>) len') = (r, b', c')"
    using res unfolding flush_child_def Let_def moved_def Some f by (simp only: a(1) if_True option.case prod.case)
  show ?thesis
  proof (cases moved)
    case (Pair ok' b1)
    have x64: "?x < 2 ^ 64" using lf(3) by simp
    show ?thesis
    proof (cases ok')
      case False
      then have "buf_ok b1" "can_resize b1 = can_resize b"
        using Pair cbb_buffer_add_False [OF ok x64] cbb_buffer_reserve_cases [OF ok x64]
        by (auto simp: moved_def cbb_buffer_add_def split: if_splits prod.splits bool.splits)
      with False Pair res' show ?thesis by (auto simp: buf_ok_def)
    next
      case True
      have b1: "buf_ok b1 \<and> blen b1 = blen b + ?x \<and> berror b1 = berror b \<and> can_resize b1 = can_resize b
          \<and> take ?s (bdata b1) = take ?s (bdata b) \<and> drop (?s + ?x) (bdata b1) = body"
      proof (cases "ll = 1")
        case True2: True
        with True Pair ok show ?thesis by (simp add: moved_def body_def)
      next
        case False
        then obtain b2 where b2: "cbb_buffer_add E ?x b = (True, b2)"
          and b1: "b1 = b2\<lparr>buf := write_at (?s + ?x) (take ?len (drop ?s (buf b2))) (buf b2)\<rparr>"
          using Pair True by (auto simp: moved_def split: prod.splits bool.splits if_splits)
        note ad = cbb_buffer_add_True [OF ok x64 b2]
        have l2: "length (buf b2) = cap b2" "blen b + ?x \<le> length (buf b2)"
          using ad(1,2) by (auto simp: buf_ok_def)
        have mv: "take ?len (drop ?s (buf b2)) = body"
          using ad(3) le by (simp add: body_def flip: drop_take)
        have b1': "b1 = b2\<lparr>buf := write_at (?s + ?x) body (buf b2)\<rparr>"
          unfolding b1 mv ..
        have "length (write_at (?s + ?x) body (buf b2)) = length (buf b2)"
          using l2 le body by (intro length_write_at) simp
        moreover have "take (blen b + ?x) (write_at (?s + ?x) body (buf b2)) = take (?s + ?x) (buf b2) @ body"
          using l2 le body take_write_at [of "?s + ?x" "buf b2" body] by (simp add: add.commute)
        moreover have "take ?s (buf b2) = take ?s (bdata b)"
          using arg_cong [OF ad(3), of "take ?s"] le by (simp add: min_def)
        ultimately show ?thesis
          using ad l2 le take_write_at_before [of ?s "?s + ?x" "buf b2" body]
          by (simp add: b1' buf_ok_def bdata_def [of "_\<lparr>buf := _\<rparr>"] min_def)
      qed
      let ?b2 = "b1\<lparr>buf := (buf b1)[offset c := ib]\<rparr>"
      let ?c2 = "c\<lparr>offset := ?s, pending_len_len := ?x\<rparr>"
      have sp: "store_pending ?b2 ?c2 len' = (r, b', c')" using res' Pair True by simp
      have b2: "buf_ok ?b2" "blen ?b2 = blen b + ?x" using b1 by (auto simp: buf_ok_def)
      have "len' < 2 ^ 64" using lf(4) lf(3) power_increasing [of "ll - 1" 4 "256::nat"] by fastforce
      from store_pending_True [OF b2(1) this _ sp] b2(2) le lf(4) b1
      have fin: "r" "buf_ok b'" "can_resize b' = can_resize b" "berror b' = berror b"
        "bdata b' = take ?s (bdata ?b2) @ be_bytes ?x len' @ drop (?s + ?x) (bdata ?b2)" by auto
      have bd: "bdata ?b2 = (bdata b1)[offset c := ib]"
        using b1 le by (simp add: bdata_def take_update_swap)
      have "take ?s (bdata ?b2) = take (offset c) (bdata b) @ [ib]"
        using b1 le arg_cong [of "take ?s (bdata b1)" "take ?s (bdata b)" "take (offset c)"] ok
        by (simp add: bd take_update_swap take_Suc_conv_app_nth list_update_append)
      moreover have "drop (?s + ?x) (bdata ?b2) = body"
        using b1 by (simp add: bd drop_update_cancel)
      ultimately show ?thesis
        using fin lf(1,6) body by simp
    qed
  qed
qed


lemma flush_child_cases:
  assumes ok: "buf_ok b" and c: "child_ok c" and le: "offset c + pending_len_len c \<le> blen b"
    and res: "flush_child E b c (offset c + pending_len_len c) = (r, b', c')"
  defines "body \<equiv> drop (offset c + pending_len_len c) (bdata b)"
  shows "buf_ok b' \<and> can_resize b' = can_resize b
    \<and> (if r then berror b' = berror b \<and> fits c body
              \<and> bdata b' = take (offset c) (bdata b) @ prefix_enc c body
       else berror b')"
proof (cases "pending_is_asn1 c")
  case True
  with c have 1: "pending_len_len c = 1" by (simp add: child_ok_def)
  show ?thesis
    using flush_child_asn1 [OF ok True 1 le [unfolded 1] res [unfolded 1]]
    unfolding body_def fits_def prefix_enc_def 1 by (cases r) (simp_all add: True)
next
  case False
  have len: "blen b - (offset c + pending_len_len c) < 2 ^ 64" using ok by (auto simp: buf_ok_def)
  have sp: "store_pending b c (blen b - (offset c + pending_len_len c)) = (r, b', c')"
    using res False by (simp add: flush_child_def)
  show ?thesis
    using store_pending_True [OF ok len le sp] False ok
    by (auto simp: body_def fits_def prefix_enc_def)
qed

lemma flush_chain_cases:
  assumes "buf_ok b" and "\<not> berror b" and "chain_ok start cs (blen b)"
    and "flush_chain E b cs = (r, b', cs')"
  shows "buf_ok b' \<and> can_resize b' = can_resize b
    \<and> (if r then cs' = [] \<and> \<not> berror b' \<and> bdata b' = take start (bdata b) @ render start cs (bdata b)
       else berror b')"
  using assms
proof (induction cs arbitrary: start r b' cs')
  case Nil
  then show ?case by auto
next
  case (Cons c cs)
  let ?s = "offset c + pending_len_len c"
  have ch: "start \<le> offset c" "child_ok c" "chain_ok ?s cs (blen b)" using Cons.prems(3) by auto
  then have sle: "?s \<le> blen b" and p: "pending_len_len c \<noteq> 0"
    by (auto dest: chain_ok_le simp: child_ok_def)
  with Cons.prems(1) have sz: "size_add (offset c) (pending_len_len c) = ?s"
    by (intro size_add_small) (auto simp: buf_ok_def)
  obtain r1 b1 cs1 where f1: "flush_chain E b cs = (r1, b1, cs1)" by (cases "flush_chain E b cs")
  note ih = Cons.IH [OF Cons.prems(1,2) ch(3) f1]
  note res = Cons.prems(4) [unfolded flush_chain.simps f1 Let_def sz]
  show ?case
  proof (cases r1)
    case False
    with res ih p Cons.prems(2) show ?thesis by (auto simp: buf_ok_def)
  next
    case True
    with ih have b1: "buf_ok b1" "\<not> berror b1" "can_resize b1 = can_resize b"
      and d1: "bdata b1 = take ?s (bdata b) @ render ?s cs (bdata b)" by auto
    have lb: "length (take ?s (bdata b)) = ?s" using Cons.prems(1) sle by simp
    have le1: "?s \<le> blen b1" using arg_cong [OF d1, of length] b1(1) lb by simp
    obtain r2 b2 c2 where f2: "flush_child E b1 c ?s = (r2, b2, c2)" by (cases "flush_child E b1 c ?s")
    have body: "drop ?s (bdata b1) = render ?s cs (bdata b)" "take (offset c) (bdata b1) = take (offset c) (bdata b)"
      using d1 lb by (auto simp: min_def)
    have tk: "take start (bdata b) @ drop start (take (offset c) (bdata b)) = take (offset c) (bdata b)"
      using ch(1) by (metis append_take_drop_id min.absorb1 take_take)
    show ?thesis
      using flush_child_cases [OF b1(1) ch(2) le1 f2] res True f2 b1 p Cons.prems(2) le1 body tk
      by (auto split: if_splits)
  qed
qed


fun chain_fits :: "nat \<Rightarrow> cbb_child list \<Rightarrow> bytes \<Rightarrow> bool" where
  "chain_fits start [] data = True"
| "chain_fits start (c # cs) data =
     (let s = offset c + pending_len_len c
      in fits c (render s cs data) \<and> chain_fits s cs data)"

lemma reserve_room: "buf_ok b \<Longrightarrow> blen b + n \<le> cap b \<Longrightarrow> cbb_buffer_reserve E n b = (True, b)"
  by (auto simp: cbb_buffer_reserve_def buf_ok_def size_add_small)

lemma add_room: "buf_ok b \<Longrightarrow> blen b + n \<le> cap b \<Longrightarrow> cbb_buffer_add E n b = (True, b\<lparr>blen := blen b + n\<rparr>)"
  by (auto simp: cbb_buffer_add_def reserve_room size_add_small buf_ok_def)

lemma flush_child_room:
  assumes ok: "buf_ok b" and c: "child_ok c" and le: "offset c + pending_len_len c \<le> blen b"
    and res: "flush_child E b c (offset c + pending_len_len c) = (r, b', c')"
  defines "body \<equiv> drop (offset c + pending_len_len c) (bdata b)"
  assumes fit: "fits c body" and room: "offset c + length (prefix_enc c body) \<le> cap b"
  shows "r \<and> cap b' = cap b"
proof (cases "pending_is_asn1 c")
  case True
  with c have 1: "pending_len_len c = 1" by (simp add: child_ok_def)
  have len: "length body = blen b - (offset c + 1)" using ok by (simp add: body_def 1)
  with fit True obtain ll ib l' where f: "asn1_length_form (blen b - (offset c + 1)) = Some (ll, ib, l')"
    using asn1_length_form_None [of "length body"] by (cases "asn1_length_form (length body)") (auto simp: fits_def)
  note lf = asn1_length_form_Some [OF f]
  have "length (prefix_enc c body) = ll + length body"
    using lf(1,2) len True by (simp add: prefix_enc_def)
  with room len le 1 have rm: "blen b + (ll - 1) \<le> cap b" using lf(2) by simp
  have l64: "l' < 2 ^ 64"
    using lf(4) lf(3) power_increasing [of "ll - 1" 4 "256::nat"] by fastforce
  define b1 where "b1 = (if ll \<noteq> 1 then b\<lparr>blen := blen b + (ll - 1),
      buf := write_at (offset c + 1 + (ll - 1)) (take (length body) (drop (offset c + 1) (buf b))) (buf b)\<rparr> else b)"
  have ok1: "buf_ok (b1\<lparr>buf := (buf b1)[offset c := ib]\<rparr>)" "cap b1 = cap b" "blen b1 = blen b + (ll - 1)"
    using ok rm le lf(2) by (auto simp: b1_def buf_ok_def 1 len length_write_at)
  have sp: "store_pending (b1\<lparr>buf := (buf b1)[offset c := ib]\<rparr>)
      (c\<lparr>offset := offset c + 1, pending_len_len := ll - 1\<rparr>) l' = (r, b', c')"
    using res True f add_room [OF ok rm] len unfolding 1
    by (auto simp: flush_child_def b1_def Let_def)
  have "r" using store_pending_True [OF ok1(1) l64 _ sp] lf(4) le 1 ok1(3) by simp
  moreover have "cap b' = cap b"
    using sp ok1(2) by (auto simp: store_pending_def split: prod.splits if_splits)
  ultimately show ?thesis by simp
next
  case False
  have len: "blen b - (offset c + pending_len_len c) < 2 ^ 64" using ok by (auto simp: buf_ok_def)
  have sp: "store_pending b c (blen b - (offset c + pending_len_len c)) = (r, b', c')"
    using res False by (simp add: flush_child_def)
  then have "cap b' = cap b" by (auto simp: store_pending_def split: prod.splits if_splits)
  then show ?thesis
    using store_pending_True [OF ok len le sp] False ok fit by (auto simp: body_def fits_def)
qed


lemma prefix_enc_longer: "child_ok c \<Longrightarrow> pending_len_len c + length body \<le> length (prefix_enc c body)"
  using length_der_len [of "length body"] by (auto simp: prefix_enc_def child_ok_def)

lemma flush_chain_room:
  assumes "buf_ok b" and "\<not> berror b" and "chain_ok start cs (blen b)"
    and "chain_fits start cs (bdata b)"
    and "start + length (render start cs (bdata b)) \<le> cap b"
    and "flush_chain E b cs = (r, b', cs')"
  shows "r \<and> cap b' = cap b"
  using assms
proof (induction cs arbitrary: start r b' cs')
  case Nil
  then show ?case by auto
next
  case (Cons c cs)
  let ?s = "offset c + pending_len_len c"
  have ch: "start \<le> offset c" "child_ok c" "chain_ok ?s cs (blen b)" using Cons.prems(3) by auto
  then have sle: "?s \<le> blen b" and p: "pending_len_len c \<noteq> 0"
    by (auto dest: chain_ok_le simp: child_ok_def)
  with Cons.prems(1) have sz: "size_add (offset c) (pending_len_len c) = ?s"
    by (intro size_add_small) (auto simp: buf_ok_def)
  obtain r1 b1 cs1 where f1: "flush_chain E b cs = (r1, b1, cs1)" by (cases "flush_chain E b cs")
  have len: "start + (offset c - start) + length (prefix_enc c (render ?s cs (bdata b))) \<le> cap b"
    using Cons.prems(1,5) sle by (simp add: min_def split: if_splits)
  with ch(1) prefix_enc_longer [OF ch(2), of "render ?s cs (bdata b)"]
  have ln: "?s + length (render ?s cs (bdata b)) \<le> cap b"
    "offset c + length (prefix_enc c (render ?s cs (bdata b))) \<le> cap b" by auto
  have ih: "r1 \<and> cap b1 = cap b"
    using Cons.IH [OF Cons.prems(1,2) ch(3) _ ln(1) f1] Cons.prems(4) by (simp add: Let_def)
  have fc: "buf_ok b1" "\<not> berror b1" "bdata b1 = take ?s (bdata b) @ render ?s cs (bdata b)"
    using flush_chain_cases [OF Cons.prems(1,2) ch(3) f1] ih by auto
  have lb: "length (take ?s (bdata b)) = ?s" using Cons.prems(1) sle by simp
  have le1: "?s \<le> blen b1" using arg_cong [OF fc(3), of length] fc(1) lb by simp
  have body: "drop ?s (bdata b1) = render ?s cs (bdata b)" using fc(3) lb by simp
  obtain r2 b2 c2 where f2: "flush_child E b1 c ?s = (r2, b2, c2)" by (cases "flush_child E b1 c ?s")
  have "r2 \<and> cap b2 = cap b1"
    using flush_child_room [OF fc(1) ch(2) le1 f2] body ln(2) ih Cons.prems(4) by (simp add: Let_def)
  with Cons.prems(6) [unfolded flush_chain.simps f1 Let_def sz] ih f2 p Cons.prems(2) le1
  show ?case by (auto split: if_splits)
qed

section \<open>The state of a tree\<close>

definition cbb_inv :: "cbb_st \<Rightarrow> bool" where
  "cbb_inv st = (case base st of
       None \<Rightarrow> False
     | Some b \<Rightarrow> buf_ok b \<and> (berror b \<or> chain_ok 0 (chain st) (blen b)))"

definition cbb_error :: "cbb_st \<Rightarrow> bool" where
  "cbb_error st = (case base st of None \<Rightarrow> True | Some b \<Rightarrow> berror b)"

definition cdata :: "cbb_st \<Rightarrow> bytes" where
  "cdata st = (case base st of None \<Rightarrow> [] | Some b \<Rightarrow> bdata b)"

definition ccap :: "cbb_st \<Rightarrow> nat" where
  "ccap st = (case base st of None \<Rightarrow> 0 | Some b \<Rightarrow> cap b)"

text \<open>The bytes the tree has once everything below depth \<open>d\<close> is flushed, and whether it can be.\<close>

definition flushed :: "nat \<Rightarrow> cbb_st \<Rightarrow> bytes" where
  "flushed d st = take (cbb_start d st) (cdata st) @ render (cbb_start d st) (drop d (chain st)) (cdata st)"

definition flushable :: "nat \<Rightarrow> cbb_st \<Rightarrow> bool" where
  "flushable d st = chain_fits (cbb_start d st) (drop d (chain st)) (cdata st)"

lemma length_cdata: "cbb_inv st \<Longrightarrow> length (cdata st) \<le> ccap st"
  by (auto simp: cbb_inv_def cdata_def ccap_def buf_ok_def bdata_def split: option.splits)

lemma chain_ok_mono: "chain_ok a cs n \<Longrightarrow> n \<le> m \<Longrightarrow> chain_ok a cs m"
  by (induction a cs n rule: chain_ok.induct) auto

lemma chain_ok_split:
  "chain_ok a (xs @ ys) n \<Longrightarrow>
     (let s = (if xs = [] then a else offset (last xs) + pending_len_len (last xs))
      in chain_ok a xs s \<and> chain_ok s ys n)"
  by (induction xs arbitrary: a) (auto simp: Let_def)

lemma chain_ok_at:
  assumes "chain_ok 0 (chain st) n" and "d \<le> length (chain st)"
  shows "chain_ok 0 (take d (chain st)) (cbb_start d st)" and "chain_ok (cbb_start d st) (drop d (chain st)) n"
proof -
  have "(if take d (chain st) = [] then 0
         else offset (last (take d (chain st))) + pending_len_len (last (take d (chain st)))) = cbb_start d st"
    using assms(2) by (auto simp: cbb_start_def Let_def last_conv_nth min_def)
  with chain_ok_split [of 0 "take d (chain st)" "drop d (chain st)" n] assms(1)
  show "chain_ok 0 (take d (chain st)) (cbb_start d st)" "chain_ok (cbb_start d st) (drop d (chain st)) n"
    by (simp_all add: Let_def)
qed

lemma cbb_start_take: "d \<le> k \<Longrightarrow> chain st' = take k (chain st) @ cs \<Longrightarrow> k \<le> length (chain st) \<Longrightarrow> cbb_start d st' = cbb_start d st"
  by (auto simp: cbb_start_def Let_def nth_append)

lemma flushed_leaf: "d = length (chain st) \<Longrightarrow> flushed d st = cdata st"
  by (simp add: flushed_def)

lemma flushable_leaf: "d = length (chain st) \<Longrightarrow> flushable d st"
  by (simp add: flushable_def)


section \<open>Writers\<close>

definition written :: "nat \<Rightarrow> cbb_st \<Rightarrow> bytes \<Rightarrow> cbb_st \<Rightarrow> bool" where
  "written d st out st' \<longleftrightarrow>
     cbb_inv st' \<and> \<not> cbb_error st' \<and> chain st' = take d (chain st) \<and> cdata st' = flushed d st @ out"

text \<open>
  The contract of an operation that appends \<open>out\<close> to the deepest open \<^verbatim>\<open>CBB\<close>: it succeeds and
  appends, or leaves the tree in the error state; and it cannot fail when the buffer has room.
\<close>

locale cbb_leaf_writer =
  fixes op :: "nat \<Rightarrow> cbb_op" and out :: bytes
  assumes leaf_step: "cbb_inv st \<Longrightarrow> \<not> cbb_error st \<Longrightarrow> d = length (chain st) \<Longrightarrow> op d st = (r, st') \<Longrightarrow>
      cbb_inv st' \<and> (if r then written d st out st' else cbb_error st')"
    and leaf_room: "cbb_inv st \<Longrightarrow> \<not> cbb_error st \<Longrightarrow> d = length (chain st) \<Longrightarrow>
      length (cdata st @ out) \<le> ccap st \<Longrightarrow> op d st = (r, st') \<Longrightarrow> r \<and> ccap st' = ccap st"
begin

lemma leaf_appends: "cbb_inv st \<Longrightarrow> \<not> cbb_error st \<Longrightarrow> d = length (chain st) \<Longrightarrow> op d st = (True, st') \<Longrightarrow>
    cdata st' = cdata st @ out \<and> chain st' = chain st"
  using leaf_step [of st d True st'] by (auto simp: written_def flushed_leaf)

end

text \<open>
  The contract of an operation on any \<^verbatim>\<open>CBB\<close> of the tree, at depth \<open>d\<close>: it first flushes what is
  open below \<open>d\<close>, and fails on a tree in the error state.
\<close>

locale cbb_writer =
  fixes op :: "nat \<Rightarrow> cbb_op" and out :: bytes
  assumes step: "cbb_inv st \<Longrightarrow> d \<le> length (chain st) \<Longrightarrow> op d st = (r, st') \<Longrightarrow>
      cbb_inv st' \<and> (if r then \<not> cbb_error st \<and> written d st out st' else cbb_error st')"
    and room: "cbb_inv st \<Longrightarrow> d \<le> length (chain st) \<Longrightarrow> \<not> cbb_error st \<Longrightarrow> flushable d st \<Longrightarrow>
      length (flushed d st @ out) \<le> ccap st \<Longrightarrow> op d st = (r, st') \<Longrightarrow> r \<and> ccap st' = ccap st"
begin

lemma sticky: "cbb_inv st \<Longrightarrow> cbb_error st \<Longrightarrow> d \<le> length (chain st) \<Longrightarrow> \<not> fst (op d st) \<and> cbb_error (snd (op d st))"
  using step [of st d "fst (op d st)" "snd (op d st)"] by (auto split: if_splits)

lemma capacity: "cbb_inv st \<Longrightarrow> d \<le> length (chain st) \<Longrightarrow> op d st = (True, st') \<Longrightarrow>
    length (flushed d st @ out) \<le> ccap st'"
  using step [of st d True st'] length_cdata [of st'] by (simp add: written_def)

end

lemma writer_leaf:
  assumes "cbb_writer op out"
  shows "cbb_leaf_writer op out"
proof
  fix st :: cbb_st and d r st'
  assume st: "cbb_inv st" "\<not> cbb_error st" "d = length (chain st)" and res: "op d st = (r, st')"
  show "cbb_inv st' \<and> (if r then written d st out st' else cbb_error st')"
    using cbb_writer.step [OF assms st(1) _ res] st by (auto split: if_splits)
  assume "length (cdata st @ out) \<le> ccap st"
  then show "r \<and> ccap st' = ccap st"
    using cbb_writer.room [OF assms st(1) _ st(2) flushable_leaf [OF st(3)] _ res] st by (simp add: flushed_leaf)
qed

sublocale cbb_writer \<subseteq> cbb_leaf_writer
  by (rule writer_leaf) (rule cbb_writer_axioms)

lemma flush_writer: "cbb_writer (CBB_flush E) []"
proof
  fix st :: cbb_st and d r st'
  assume inv: "cbb_inv st" and d: "d \<le> length (chain st)" and res: "CBB_flush E d st = (r, st')"
  obtain b where b: "base st = Some b" "buf_ok b" and c: "berror b \<or> chain_ok 0 (chain st) (blen b)"
    using inv by (auto simp: cbb_inv_def split: option.splits)
  obtain r1 b1 cs1 where f: "flush_chain E b (drop d (chain st)) = (r1, b1, cs1)"
    by (cases "flush_chain E b (drop d (chain st))")
  have st': "r = r1" "st' = st\<lparr>base := Some b1, chain := take d (chain st) @ cs1\<rparr>"
    using res b(1) f d by (auto simp: CBB_flush_def)
  show "cbb_inv st' \<and> (if r then \<not> cbb_error st \<and> written d st [] st' else cbb_error st')"
  proof (cases "berror b")
    case True
    then have "r1 = False" "b1 = b" using f by (cases "drop d (chain st)"; auto)+
    with True b st' show ?thesis by (simp add: cbb_inv_def cbb_error_def)
  next
    case False
    with c have ch: "chain_ok 0 (chain st) (blen b)" by simp
    note at = chain_ok_at [OF ch d]
    note fc = flush_chain_cases [OF b(2) False at(2) f]
    show ?thesis
    proof (cases r1)
      case True
      have "cbb_start d st \<le> blen b1"
        using fc True b(2) chain_ok_le [OF at(2)]
        by (metis length_append length_bdata length_take le_add1 min.absorb2)
      then have "chain_ok 0 (take d (chain st)) (blen b1)" by (rule chain_ok_mono [OF at(1)])
      with fc True b(1) st' False show ?thesis
        by (simp add: written_def cbb_inv_def cbb_error_def cdata_def flushed_def)
    qed (use fc st' in \<open>simp add: cbb_inv_def cbb_error_def\<close>)
  qed
  assume "\<not> cbb_error st" "flushable d st" "length (flushed d st @ []) \<le> ccap st"
  with b c have ch: "chain_ok 0 (chain st) (blen b)" and nb: "\<not> berror b" by (auto simp: cbb_error_def)
  note at = chain_ok_at [OF ch d]
  show "r \<and> ccap st' = ccap st"
    using flush_chain_room [OF b(2) nb at(2) _ _ f] \<open>flushable d st\<close> \<open>length (flushed d st @ []) \<le> ccap st\<close>
      chain_ok_le [OF at(2)] b st'
    by (simp add: flushable_def flushed_def cdata_def ccap_def min_def split: if_splits)
qed

lemma writer_andalso:
  assumes "cbb_writer f xs" and "cbb_writer g ys"
  shows "cbb_writer (\<lambda>d. andalso (f d) (g d)) (xs @ ys)"
proof -
  note F = cbb_writer.step [OF assms(1)] cbb_writer.room [OF assms(1)]
  note G = cbb_writer.step [OF assms(2)] cbb_writer.room [OF assms(2)]
  show ?thesis
  proof
    fix st :: cbb_st and d r st'
    assume inv: "cbb_inv st" and d: "d \<le> length (chain st)" and res: "andalso (f d) (g d) st = (r, st')"
    obtain r1 s1 where 1: "f d st = (r1, s1)" by (cases "f d st")
    note f1 = F(1) [OF inv d 1]
    have leaf: "r1 \<Longrightarrow> d = length (chain s1)" using f1 d by (simp add: written_def)
    show "cbb_inv st' \<and> (if r then \<not> cbb_error st \<and> written d st (xs @ ys) st' else cbb_error st')"
      using res 1 f1 G(1) [of s1 d r st'] leaf
      by (auto simp: andalso_def written_def flushed_leaf split: bool.splits if_splits)
    assume "\<not> cbb_error st" "flushable d st" and rm: "length (flushed d st @ xs @ ys) \<le> ccap st"
    with F(2) [OF inv d _ _ _ 1] have r1: "r1" "ccap s1 = ccap st" by auto
    with f1 leaf G(2) [of s1 d r st'] rm res 1
    show "r \<and> ccap st' = ccap st"
      by (simp add: andalso_def written_def flushed_leaf flushable_leaf)
  qed
qed

text \<open>A flush followed by an operation on the shared buffer.\<close>

lemma flush_then:
  assumes "\<And>b r b'. buf_ok b \<Longrightarrow> \<not> berror b \<Longrightarrow> f b = (r, b') \<Longrightarrow>
      buf_ok b' \<and> (if r then \<not> berror b' \<and> bdata b' = bdata b @ out else berror b')"
    and "\<And>b r b'. buf_ok b \<Longrightarrow> \<not> berror b \<Longrightarrow> blen b + length out \<le> cap b \<Longrightarrow> f b = (r, b') \<Longrightarrow> r \<and> cap b' = cap b"
  shows "cbb_writer (\<lambda>d. andalso (CBB_flush E d) (on_base f)) out"
proof
  note F = cbb_writer.step [OF flush_writer] cbb_writer.room [OF flush_writer]
  fix st :: cbb_st and d r st'
  assume inv: "cbb_inv st" and d: "d \<le> length (chain st)"
    and res: "andalso (CBB_flush E d) (on_base f) st = (r, st')"
  obtain r1 s1 where 1: "CBB_flush E d st = (r1, s1)" by (cases "CBB_flush E d st")
  note f1 = F(1) [OF inv d 1]
  obtain b where b: "base s1 = Some b" "buf_ok b" using f1 by (auto simp: cbb_inv_def split: option.splits)
  obtain r2 b2 where 2: "f b = (r2, b2)" by (cases "f b")
  have st': "r1 \<Longrightarrow> r = r2 \<and> st' = s1\<lparr>base := Some b2\<rparr>" "\<not> r1 \<Longrightarrow> \<not> r \<and> st' = s1"
    using res 1 b 2 by (auto simp: andalso_def on_base_def)
  have p: "r1 \<Longrightarrow> \<not> berror b \<and> bdata b = flushed d st \<and> chain s1 = take d (chain st) \<and> chain_ok 0 (take d (chain st)) (blen b)"
    using f1 b by (auto simp: written_def cbb_error_def cdata_def cbb_inv_def)
  have ext: "bdata b2 = bdata b @ out \<Longrightarrow> buf_ok b2 \<Longrightarrow> blen b \<le> blen b2"
    using b(2) length_bdata [of b2] by simp
  show "cbb_inv st' \<and> (if r then \<not> cbb_error st \<and> written d st out st' else cbb_error st')"
  proof (cases r1)
    case True
    with p have q: "\<not> berror b" "bdata b = flushed d st" "chain s1 = take d (chain st)"
      "chain_ok 0 (take d (chain st)) (blen b)" by auto
    note a = assms(1) [OF b(2) q(1) 2]
    have st: "r = r2" "st' = s1\<lparr>base := Some b2\<rparr>" "\<not> cbb_error st" using st'(1) True f1 by auto
    show ?thesis
    proof (cases r2)
      case True
      with a have "chain_ok 0 (take d (chain st)) (blen b2)"
        using ext q(4) by (auto intro: chain_ok_mono)
      with True a st q show ?thesis
        by (simp add: written_def cbb_inv_def cbb_error_def cdata_def)
    qed (use a st in \<open>simp add: cbb_inv_def cbb_error_def\<close>)
  qed (use f1 st' in auto)
  assume "\<not> cbb_error st" "flushable d st" and rm: "length (flushed d st @ out) \<le> ccap st"
  with F(2) [OF inv d _ _ _ 1] have r1: "r1" "ccap s1 = ccap st" by auto
  have "length (bdata b) + length out \<le> cap b" using p rm b r1 by (simp add: ccap_def)
  then have "blen b + length out \<le> cap b" by (simp add: b(2))
  with assms(2) [OF b(2) _ _ 2] p r1 st' b show "r \<and> ccap st' = ccap st" by (simp add: ccap_def)
qed


text \<open>Reserving space at the end and filling it.\<close>

lemma add_then_write:
  assumes "buf_ok b" and "length xs < 2 ^ 64" and "cbb_buffer_add E (length xs) b = (True, b1)"
  defines "b' \<equiv> b1\<lparr>buf := write_at (blen b) xs (buf b1)\<rparr>"
  shows "buf_ok b' \<and> berror b' = berror b \<and> bdata b' = bdata b @ xs"
  using cbb_buffer_add_True [OF assms(1-3)] take_write_at [of "blen b" "buf b1" xs]
  by (simp add: b'_def buf_ok_def length_write_at bdata_def [of "_\<lparr>buf := _\<rparr>"])

lemma cbb_buffer_add_u_cases:
  assumes ok: "buf_ok b" and k: "k < 2 ^ 64" and res: "cbb_buffer_add_u E v k b = (r, b')"
    and v: "unat v < 256 ^ k"
  shows "buf_ok b' \<and> (if r then berror b' = berror b \<and> bdata b' = bdata b @ be_bytes k (unat v) else berror b')"
    and "blen b + k \<le> cap b \<Longrightarrow> r \<and> cap b' = cap b"
proof -
  obtain r1 b1 where a: "cbb_buffer_add E k b = (r1, b1)" by (cases "cbb_buffer_add E k b")
  have st: "r1 \<Longrightarrow> store_be (blen b) k v (buf b1) = (write_at (blen b) (be_bytes k (unat v)) (buf b1), 0)"
    using cbb_buffer_add_True [OF ok k, of E b1] a v store_be_eq [of "blen b" k "buf b1" v]
    by (simp add: drop_bit_0_iff buf_ok_def)
  show 1: "buf_ok b' \<and> (if r then berror b' = berror b \<and> bdata b' = bdata b @ be_bytes k (unat v) else berror b')"
    using res a st v cbb_buffer_add_False [OF ok k, of E b1]
      add_then_write [OF ok, of "be_bytes k (unat v)" E b1] k ok
    by (cases r1) (auto simp: cbb_buffer_add_u_def split: if_splits)
  show "blen b + k \<le> cap b \<Longrightarrow> r \<and> cap b' = cap b"
    using res add_room [OF ok] a st by (auto simp: cbb_buffer_add_u_def split: if_splits)
qed

lemma add_u_writer:
  assumes "k < 2 ^ 64" and "unat v < 256 ^ k"
  shows "cbb_writer (\<lambda>d. andalso (CBB_flush E d) (on_base (cbb_buffer_add_u E v k))) (be_bytes k (unat v))"
proof (rule flush_then)
  fix b r b' assume b: "buf_ok b" "\<not> berror b" "cbb_buffer_add_u E v k b = (r, b')"
  show "buf_ok b' \<and> (if r then \<not> berror b' \<and> bdata b' = bdata b @ be_bytes k (unat v) else berror b')"
    using cbb_buffer_add_u_cases(1) [OF b(1) assms(1) b(3) assms(2)] b(2) by (auto split: if_splits)
  assume "blen b + length (be_bytes k (unat v)) \<le> cap b"
  then show "r \<and> cap b' = cap b"
    using cbb_buffer_add_u_cases(2) [OF b(1) assms(1) b(3) assms(2)] by simp
qed

interpretation flush: cbb_writer "CBB_flush E" "[]" for E
  by (rule flush_writer)

interpretation add_u8: cbb_writer "\<lambda>d. CBB_add_u8 E d v" "[v]" for E v
  using add_u_writer [of 1 "ucast v" E] unsigned_less [of v, where 'a = nat]
  by (simp add: CBB_add_u8_def unat_ucast_up)

interpretation add_u16: cbb_writer "\<lambda>d. CBB_add_u16 E d v" "be_bytes 2 (unat v)" for E v
  using add_u_writer [of 2 "ucast v" E] unsigned_less [of v, where 'a = nat]
  by (simp add: CBB_add_u16_def unat_ucast_up)

interpretation add_u16le: cbb_writer "\<lambda>d. CBB_add_u16le E d v" "rev (be_bytes 2 (unat v))" for E v
  using add_u16.cbb_writer_axioms [of E "CRYPTO_bswap2 v"]
  by (simp add: CBB_add_u16le_def bswap2_bytes)

interpretation add_u32: cbb_writer "\<lambda>d. CBB_add_u32 E d v" "be_bytes 4 (unat v)" for E v
  using add_u_writer [of 4 "ucast v" E] unsigned_less [of v, where 'a = nat]
  by (simp add: CBB_add_u32_def unat_ucast_up)

interpretation add_u32le: cbb_writer "\<lambda>d. CBB_add_u32le E d v" "rev (be_bytes 4 (unat v))" for E v
  using add_u32.cbb_writer_axioms [of E "CRYPTO_bswap4 v"]
  by (simp add: CBB_add_u32le_def bswap4_bytes)

interpretation add_u64: cbb_writer "\<lambda>d. CBB_add_u64 E d v" "be_bytes 8 (unat v)" for E v
  using add_u_writer [of 8 v E] unsigned_less [of v, where 'a = nat]
  by (simp add: CBB_add_u64_def)

interpretation add_u64le: cbb_writer "\<lambda>d. CBB_add_u64le E d v" "rev (be_bytes 8 (unat v))" for E v
  using add_u64.cbb_writer_axioms [of E "CRYPTO_bswap8 v"]
  by (simp add: CBB_add_u64le_def bswap8_bytes)

lemma add_u24_writer:
  "unat v < 2 ^ 24 \<Longrightarrow> cbb_writer (\<lambda>d. CBB_add_u24 E d v) (be_bytes 3 (unat v))"
  using add_u_writer [of 3 "ucast v" E] by (simp add: CBB_add_u24_def unat_ucast_up)

lemma add_bytes_writer:
  assumes "length data < 2 ^ 64"
  shows "cbb_writer (\<lambda>d. CBB_add_bytes E d data) data"
  unfolding CBB_add_bytes_def
proof (rule flush_then)
  fix b r b'
  assume b: "buf_ok b" "\<not> berror b" and res: "(case cbb_buffer_add E (length data) b of
       (False, b') \<Rightarrow> (False, b') | (True, b') \<Rightarrow> (True, b'\<lparr>buf := write_at (blen b) data (buf b')\<rparr>)) = (r, b')"
  obtain r1 b1 where a: "cbb_buffer_add E (length data) b = (r1, b1)" by (cases "cbb_buffer_add E (length data) b")
  show "buf_ok b' \<and> (if r then \<not> berror b' \<and> bdata b' = bdata b @ data else berror b')"
    using res a b add_then_write [OF b(1) assms, of E b1] cbb_buffer_add_False [OF b(1) assms, of E b1]
    by (cases r1) auto
  assume "blen b + length data \<le> cap b"
  with res add_room [OF b(1)] show "r \<and> cap b' = cap b" by auto
qed


text \<open>
  A writer whose last \<open>k\<close> bytes become a child's length prefix, the child's contents, and the flush
  that closes it.
\<close>

lemma chain_ok_snoc:
  "chain_ok a (cs @ [c]) n \<longleftrightarrow> chain_ok a cs (offset c) \<and> child_ok c \<and> offset c + pending_len_len c \<le> n"
  by (induction cs arbitrary: a) auto

lemma flushed_child:
  assumes "chain s = take d (chain st) @ [c]" and "d \<le> length (chain st)"
    and "cdata s = pre @ ys @ body" and "offset c = length pre" and "pending_len_len c = length ys"
    and "cbb_start d st \<le> length pre"
  shows "flushed d s = pre @ prefix_enc c body" and "flushable d s = fits c body"
  using assms cbb_start_take [of d d s st "[c]"]
  by (simp_all add: flushed_def flushable_def)

lemma flushed_longer:
  assumes "cbb_inv st" and "\<not> cbb_error st" and "d \<le> length (chain st)"
  shows "chain_ok 0 (take d (chain st)) (cbb_start d st)" and "cbb_start d st \<le> length (flushed d st)"
proof -
  obtain b where b: "base st = Some b" "buf_ok b" "chain_ok 0 (chain st) (blen b)"
    using assms(1,2) by (auto simp: cbb_inv_def cbb_error_def split: option.splits)
  show "chain_ok 0 (take d (chain st)) (cbb_start d st)" by (rule chain_ok_at [OF b(3) assms(3)])
  have "cbb_start d st \<le> blen b" using chain_ok_at(2) [OF b(3) assms(3)] by (rule chain_ok_le)
  then show "cbb_start d st \<le> length (flushed d st)" using b by (simp add: flushed_def cdata_def)
qed

lemma open_child_ok:
  assumes inv: "cbb_inv st" "\<not> cbb_error st" and d: "d \<le> length (chain st)"
    and w: "written d st (xs @ ys) s1"
    and c: "child_ok c" "pending_len_len c = length ys" "offset c = base_len s1 - length ys"
  shows "let s2 = s1\<lparr>chain := take d (chain s1) @ [c]\<rparr> in
      cbb_inv s2 \<and> \<not> cbb_error s2 \<and> chain s2 = take d (chain st) @ [c] \<and> cdata s2 = flushed d st @ xs @ ys
      \<and> ccap s2 = ccap s1 \<and> offset c = length (flushed d st @ xs)"
proof -
  obtain b where b: "base s1 = Some b" "buf_ok b" "\<not> berror b" "chain s1 = take d (chain st)"
    "bdata b = flushed d st @ xs @ ys"
    using w by (auto simp: written_def cbb_inv_def cbb_error_def cdata_def split: option.splits)
  then have bl: "base_len s1 = length (flushed d st @ xs @ ys)" "blen b = base_len s1"
    using length_bdata [of b] by (simp_all add: base_len_def)
  have "chain_ok 0 (take d (chain st)) (offset c)"
    using flushed_longer [OF inv d] bl c by (auto intro: chain_ok_mono)
  with b bl c show ?thesis
    by (simp add: Let_def cbb_inv_def cbb_error_def cdata_def ccap_def chain_ok_snoc)
qed

lemma child_writer:
  assumes pre: "cbb_writer pre (xs @ ys)" and con: "cbb_leaf_writer con body"
    and c: "child_ok \<lparr>offset = off, pending_len_len = length ys, pending_is_asn1 = a\<rparr>"
    and fit: "fits \<lparr>offset = off, pending_len_len = length ys, pending_is_asn1 = a\<rparr> body"
  shows "cbb_writer
     (\<lambda>d. andalso (andalso (pre d) (\<lambda>st. open_child d
              \<lparr>offset = base_len st - length ys, pending_len_len = length ys, pending_is_asn1 = a\<rparr> st))
        (andalso (con (d + 1)) (CBB_flush E d)))
     (xs @ prefix_enc \<lparr>offset = off, pending_len_len = length ys, pending_is_asn1 = a\<rparr> body)"
proof -
  note P = cbb_writer.step [OF pre] cbb_writer.room [OF pre]
  note C = cbb_leaf_writer.leaf_step [OF con] cbb_leaf_writer.leaf_room [OF con]
  note F = cbb_writer.step [OF flush_writer] cbb_writer.room [OF flush_writer]
  let ?c = "\<lambda>off. \<lparr>offset = off, pending_len_len = length ys, pending_is_asn1 = a\<rparr>"
  have pe: "prefix_enc (?c o1) = prefix_enc (?c off)" "fits (?c o1) = fits (?c off)" "child_ok (?c o1)" for o1
    using c by (auto simp: prefix_enc_def fits_def child_ok_def fun_eq_iff)
  show ?thesis
  proof
    fix st :: cbb_st and d r st'
    assume inv: "cbb_inv st" and d: "d \<le> length (chain st)"
      and res: "andalso (andalso (pre d) (\<lambda>st. open_child d (?c (base_len st - length ys)) st))
        (andalso (con (d + 1)) (CBB_flush E d)) st = (r, st')"
    obtain r1 s1 where 1: "pre d st = (r1, s1)" by (cases "pre d st")
    note p1 = P(1) [OF inv d 1]
    let ?o = "base_len s1 - length ys"
    define s2 where "s2 = s1\<lparr>chain := take d (chain s1) @ [?c ?o]\<rparr>"
    obtain r3 s3 where 3: "con (d + 1) s2 = (r3, s3)" by (cases "con (d + 1) s2")
    obtain r4 s4 where 4: "CBB_flush E d s3 = (r4, s4)" by (cases "CBB_flush E d s3")
    have fin: "\<not> r1 \<Longrightarrow> \<not> r \<and> st' = s1" "r1 \<Longrightarrow> \<not> r3 \<Longrightarrow> \<not> r \<and> st' = s3" "r1 \<Longrightarrow> r3 \<Longrightarrow> r = r4 \<and> st' = s4"
      using res 1 3 4 by (auto simp: andalso_def open_child_def s2_def)
    have s2: "cbb_inv s2" "\<not> cbb_error s2" "chain s2 = take d (chain st) @ [?c ?o]"
        "cdata s2 = flushed d st @ xs @ ys" "ccap s2 = ccap s1" "?o = length (flushed d st @ xs)"
        "d + 1 = length (chain s2)" "\<not> cbb_error st" if r1
      using open_child_ok [of st d xs ys s1 "?c ?o"] that p1 inv d pe(3) by (auto simp: s2_def Let_def)
    have s3: "cbb_inv s3" "d \<le> length (chain s3)" "flushed d s3 = flushed d st @ xs @ prefix_enc (?c off) body"
        "flushable d s3" "\<not> cbb_error s3" "take d (chain s3) = take d (chain st)" if r1 and r3
    proof -
      note s2 = s2 [OF that(1)]
      have w: "written (d + 1) s2 body s3" using C(1) [OF s2(1,2,7) 3] that by simp
      with s2 have ch: "chain s3 = take d (chain st) @ [?c ?o]"
        and dat: "cdata s3 = (flushed d st @ xs) @ ys @ body"
        by (auto simp: written_def flushed_leaf)
      note fl = flushed_child [OF ch d dat, simplified cbb_child.simps, OF s2(6) refl]
      have le: "cbb_start d st \<le> length (flushed d st @ xs)" using flushed_longer [OF inv s2(8) d] by simp
      show "cbb_inv s3" "\<not> cbb_error s3" using w by (simp_all add: written_def)
      show "d \<le> length (chain s3)" "take d (chain s3) = take d (chain st)" using ch d by simp_all
      show "flushed d s3 = flushed d st @ xs @ prefix_enc (?c off) body"
        using fl(1) [OF le] by (simp add: pe(1) [of "length (flushed d st) + length xs"])
      show "flushable d s3" using fl(2) [OF le] fit by (simp add: pe(2) [of "length (flushed d st) + length xs"])
    qed
    show "cbb_inv st' \<and> (if r then \<not> cbb_error st \<and> written d st (xs @ prefix_enc (?c off) body) st' else cbb_error st')"
    proof (cases "r1 \<and> r3")
      case True
      then show ?thesis using F(1) [OF s3(1,2) 4] s3 s2(8) fin by (auto simp: written_def split: if_splits)
    next
      case False
      then show ?thesis using fin p1 s2 C(1) [OF _ _ _ 3] by (cases r1) auto
    qed
    assume "\<not> cbb_error st" "flushable d st" and rm: "length (flushed d st @ xs @ prefix_enc (?c off) body) \<le> ccap st"
    have len: "length ys + length body \<le> length (prefix_enc (?c off) body)"
      using prefix_enc_longer [OF c] by simp
    have r1: "r1 \<and> ccap s1 = ccap st"
      using P(2) [OF inv d _ _ _ 1] \<open>\<not> cbb_error st\<close> \<open>flushable d st\<close> rm len by simp
    have "length (cdata s2 @ body) \<le> ccap s2"
      using r1 s2(4,5) rm len by simp
    with r1 C(2) [OF s2(1,2,7) _ 3] s2(5) have r3: "r3 \<and> ccap s3 = ccap st" by simp
    with r1 F(2) [OF s3(1,2) s3(5,4) _ 4] s3(3) rm fin show "r \<and> ccap st' = ccap st" by simp
  qed
qed


lemma andalso_assoc: "andalso (andalso f g) h = andalso f (andalso g h)"
  by (rule ext) (auto simp: andalso_def split: prod.splits bool.splits)

lemma andalso_skip: "andalso f (\<lambda>st. (True, st)) = f" "andalso (\<lambda>st. (True, st)) f = f"
  by (auto simp: andalso_def fun_eq_iff split: prod.splits bool.splits)

lemma leaf_andalso:
  assumes "cbb_leaf_writer f xs" and "cbb_leaf_writer g ys"
  shows "cbb_leaf_writer (\<lambda>d. andalso (f d) (g d)) (xs @ ys)"
proof -
  note F = cbb_leaf_writer.leaf_step [OF assms(1)] cbb_leaf_writer.leaf_room [OF assms(1)]
  note G = cbb_leaf_writer.leaf_step [OF assms(2)] cbb_leaf_writer.leaf_room [OF assms(2)]
  show ?thesis
  proof
    fix st :: cbb_st and d r st'
    assume st: "cbb_inv st" "\<not> cbb_error st" "d = length (chain st)"
      and res: "andalso (f d) (g d) st = (r, st')"
    obtain r1 s1 where 1: "f d st = (r1, s1)" by (cases "f d st")
    note f1 = F(1) [OF st 1]
    have s1: "cbb_inv s1" "\<not> cbb_error s1" "d = length (chain s1)" "cdata s1 = cdata st @ xs"
        "take d (chain s1) = take d (chain st)" if r1
      using f1 st(3) that by (simp_all add: written_def flushed_leaf)
    show "cbb_inv st' \<and> (if r then written d st (xs @ ys) st' else cbb_error st')"
    proof (cases r1)
      case True
      with res 1 have 2: "g d s1 = (r, st')" by (simp add: andalso_def)
      have fl: "flushed d s1 @ ys = flushed d st @ xs @ ys"
        using s1(3,4) [OF True] st(3) by (simp add: flushed_leaf)
      show ?thesis using G(1) [OF s1(1-3) [OF True] 2] s1(5) [OF True] fl
        by (cases r) (simp_all add: written_def)
    qed (use res 1 f1 in \<open>simp add: andalso_def\<close>)
    assume rm: "length (cdata st @ xs @ ys) \<le> ccap st"
    with F(2) [OF st _ 1] have r1: "r1" "ccap s1 = ccap st" by auto
    then have "g d s1 = (r, st')" using res 1 by (simp add: andalso_def)
    from G(2) [OF s1(1-3) [OF r1(1)] _ this] rm s1(4) [OF r1(1)] r1(2)
    show "r \<and> ccap st' = ccap st" by simp
  qed
qed

interpretation skip: cbb_leaf_writer "\<lambda>d st. (True, st)" "[]"
  by unfold_locales (auto simp: written_def flushed_leaf)

lemma andalso_cong: "f st = f' st \<Longrightarrow> andalso f g st = andalso f' g st"
  by (simp add: andalso_def)

lemma writer_cong:
  assumes "cbb_writer f out" and "\<And>d st. cbb_inv st \<Longrightarrow> d \<le> length (chain st) \<Longrightarrow> g d st = f d st"
  shows "cbb_writer g out"
  using assms unfolding cbb_writer_def by metis

lemma written_base_len: "written d st out st' \<Longrightarrow> base_len st' = length (flushed d st) + length out"
  by (auto simp: written_def cbb_inv_def cdata_def base_len_def cbb_error_def split: option.splits)
     (metis length_append length_bdata)

lemma open_after:
  assumes A: "cbb_writer A xs" and f: "cbb_writer f ys" and inv: "cbb_inv st" and d: "d \<le> length (chain st)"
  shows "andalso (A d) (\<lambda>cbb. andalso (f d) (open_child d \<lparr>offset = base_len cbb, pending_len_len = k, pending_is_asn1 = a\<rparr>) cbb) st
    = andalso (andalso (A d) (f d)) (\<lambda>st. open_child d \<lparr>offset = base_len st - length ys, pending_len_len = k, pending_is_asn1 = a\<rparr> st) st"
proof -
  obtain r1 s1 where 1: "A d st = (r1, s1)" by (cases "A d st")
  obtain r2 s2 where 2: "f d s1 = (r2, s2)" by (cases "f d s1")
  note w1 = cbb_writer.step [OF A inv d 1]
  have "base_len s1 = base_len s2 - length ys" if r1 r2
  proof -
    have w: "written d st xs s1" using w1 that by simp
    then have ch: "d = length (chain s1)" "cbb_inv s1" using d by (auto simp: written_def)
    have "written d s1 ys s2" using cbb_writer.step [OF f ch(2) _ 2] ch(1) that by simp
    from written_base_len [OF this] ch(1) have "base_len s2 = length (cdata s1) + length ys"
      by (simp add: flushed_leaf)
    moreover have "length (cdata s1) = base_len s1"
      using w written_base_len [OF w] by (simp add: written_def)
    ultimately show ?thesis by simp
  qed
  with 1 2 show ?thesis by (auto simp: andalso_def split: prod.splits bool.splits)
qed

lemma b128_len_eq: "b128_len v = length (b128_more (unat v))"
proof (induction v rule: b128_len.induct)
  case (1 v)
  have u: "unat (drop_bit 7 v) = unat v div 128" using unat_div_drop_bit [of v 7] by simp
  show ?case
  proof (cases "v > 0")
    case True
    then have "unat v \<noteq> 0" by (simp add: word_less_nat_alt)
    then have "b128_more (unat v) = b128_more (unat v div 128) @ [of_nat (128 + unat v mod 128)]"
      by (subst b128_more.simps) simp
    with True 1 u show ?thesis by (subst b128_len.simps) simp
  next
    case False
    then have "v = 0" by (simp add: word_greater_zero_iff)
    then show ?thesis by (simp add: b128_len.simps)
  qed
qed


lemma rev_upt_Suc: "rev [0..<Suc k] = map Suc (rev [0..<k]) @ [0]"
  by (simp only: upt_conv_Cons [of 0 "Suc k", OF zero_less_Suc] rev.simps rev_map map_Suc_upt [symmetric])

lemma b128_more_digits:
  "b128_more n = map (\<lambda>j. of_nat (128 + n div 128 ^ j mod 128)) (rev [0..<length (b128_more n)])"
proof (induction n rule: b128_more.induct)
  case (1 n)
  show ?case
  proof (cases "n = 0")
    case False
    then have n: "b128_more n = b128_more (n div 128) @ [of_nat (128 + n mod 128)]"
      by (subst b128_more.simps) simp
    have "map (\<lambda>j. of_nat (128 + n div 128 ^ Suc j mod 128) :: u8) (rev [0..<length (b128_more (n div 128))]) = b128_more (n div 128)"
      using 1 [OF False] by (simp only: power_Suc div_mult2_eq)
    then show ?thesis unfolding n by (simp only: length_append_singleton rev_upt_Suc map_append map_map) (simp add: comp_def)
  qed simp
qed

lemma base128_byte:
  "unat (ucast (drop_bit (7 * i) v) AND 0x7f :: u8) = unat (v :: u64) div 128 ^ i mod 128"
proof -
  have "unat (ucast (drop_bit (7 * i) v) AND 0x7f :: u8) = unat (drop_bit (7 * i) v) mod 256 mod 128"
    by (simp add: unat_and_7f unsigned_ucast_eq take_bit_eq_mod)
  also have "\<dots> = unat v div 128 ^ i mod 128"
    using unat_div_drop_bit [of v "7 * i"] by (simp add: power_mult mod_mod_cancel)
  finally show ?thesis .
qed

definition base128_digit :: "nat \<Rightarrow> nat \<Rightarrow> u8" where
  "base128_digit n j = of_nat ((if j \<noteq> 0 then 128 else 0) + n div 128 ^ j mod 128)"

lemma base128_digit:
  "(let byte = ucast (drop_bit (7 * i) v) AND 0x7f in if i \<noteq> 0 then byte OR 0x80 else byte)
    = base128_digit (unat (v :: u64)) i"
proof -
  let ?b = "ucast (drop_bit (7 * i) v) AND 0x7f :: u8"
  have "?b OR 0x80 = ?b + 0x80"
    by (rule disjunctive_add_eq_or [symmetric]) (simp add: and.assoc)
  moreover have "?b = of_nat (unat v div 128 ^ i mod 128)"
    by (simp flip: base128_byte)
  ultimately show ?thesis by (simp add: base128_digit_def Let_def)
qed

lemma add_base128_loop_writer:
  "cbb_writer (\<lambda>d. add_base128_loop E d v (Suc i)) (map (base128_digit (unat v)) (rev [0..<Suc i]))"
proof (induction i)
  case 0
  have b: "ucast v AND 0x7f = base128_digit (unat v) 0" using base128_digit [of 0 v] by simp
  show ?case using add_u8.cbb_writer_axioms [of E "base128_digit (unat v) 0"]
    by (simp add: andalso_skip b)
next
  case (Suc i)
  have "add_base128_loop E d v (Suc (Suc i)) =
      andalso (CBB_add_u8 E d (base128_digit (unat v) (Suc i))) (add_base128_loop E d v (Suc i))" for d
    by (subst add_base128_loop.simps) (simp only: Let_def base128_digit [symmetric])
  then show ?case using writer_andalso [OF add_u8.cbb_writer_axioms Suc.IH] by simp
qed

lemma b128_digits:
  "b128 (unat v) = map (base128_digit (unat v)) (rev [0..<if b128_len v = 0 then 1 else b128_len v])"
proof -
  let ?k = "length (b128_more (unat v div 128))"
  have k: "(if b128_len v = 0 then 1 else b128_len v) = Suc ?k"
  proof (cases "unat v = 0")
    case False
    then have "b128_more (unat v) = b128_more (unat v div 128) @ [of_nat (128 + unat v mod 128)]"
      by (subst b128_more.simps) simp
    then show ?thesis by (simp add: b128_len_eq)
  qed (simp add: b128_len_eq)
  have "map (\<lambda>j. base128_digit (unat v) (Suc j)) (rev [0..<?k]) = b128_more (unat v div 128)"
    by (subst (2) b128_more_digits) (simp add: base128_digit_def div_mult2_eq)
  then show ?thesis unfolding k
    by (simp only: rev_upt_Suc map_append map_map comp_def) (simp add: b128_def base128_digit_def)
qed

lemma add_base128_writer: "cbb_writer (\<lambda>d. add_base128_integer E d v) (b128 (unat v))"
  using add_base128_loop_writer [of E v "(if b128_len v = 0 then 1 else b128_len v) - 1"]
  unfolding b128_digits by (simp add: add_base128_integer_def Let_def cong: if_cong)

lemma flush_then_leaf:
  assumes "cbb_leaf_writer f out"
  shows "cbb_writer (\<lambda>d. andalso (CBB_flush E d) (f d)) out"
proof
  note G = cbb_leaf_writer.leaf_step [OF assms] cbb_leaf_writer.leaf_room [OF assms]
  fix st :: cbb_st and d r st'
  assume inv: "cbb_inv st" and d: "d \<le> length (chain st)" and res: "andalso (CBB_flush E d) (f d) st = (r, st')"
  obtain r1 s1 where 1: "CBB_flush E d st = (r1, s1)" by (cases "CBB_flush E d st")
  note f1 = flush.step [OF inv d 1]
  have s1: "cbb_inv s1" "\<not> cbb_error s1" "d = length (chain s1)" "flushed d s1 = flushed d st"
      "take d (chain s1) = take d (chain st)" "cdata s1 = flushed d st" "f d s1 = (r, st')" if r1
    using f1 d that res 1 flushed_leaf [of d s1] by (auto simp: written_def andalso_def)
  show "cbb_inv st' \<and> (if r then \<not> cbb_error st \<and> written d st out st' else cbb_error st')"
  proof (cases r1)
    case True
    show ?thesis using G(1) [OF s1(1-3,7) [OF True]] s1(4,5) [OF True] f1 True
      by (cases r) (simp_all add: written_def)
  qed (use res 1 f1 in \<open>simp add: andalso_def\<close>)
  assume "\<not> cbb_error st" "flushable d st" "length (flushed d st @ out) \<le> ccap st"
  with flush.room [OF inv d _ _ _ 1] have r1: "r1" "ccap s1 = ccap st" by auto
  then show "r \<and> ccap st' = ccap st"
    using G(2) [OF s1(1-3) [OF r1(1)] _ s1(7) [OF r1(1)]] s1(6) [OF r1(1)] \<open>length (flushed d st @ out) \<le> ccap st\<close> by simp
qed

section \<open>Starting and finishing\<close>

lemma CBB_init_True:
  assumes "CBB_init E n = (True, st)" and "n < 2 ^ 64"
  shows "cbb_inv st" and "\<not> cbb_error st" and "chain st = []" and "cdata st = []" and "ccap st = n"
  using assms OPENSSL_malloc_length [of E n]
  by (auto simp: CBB_init_def cbb_init_def CBB_zero_def cbb_inv_def cbb_error_def cdata_def ccap_def buf_ok_def bdata_def
      dest: OPENSSL_malloc_length split: option.splits if_splits)

lemma CBB_init_fixed_True:
  assumes "CBB_init_fixed E bf n = (True, st)" and "n < 2 ^ 64" and "length bf = n"
  shows "cbb_inv st" and "\<not> cbb_error st" and "chain st = []" and "cdata st = []" and "ccap st = n"
  using assms
  by (auto simp: CBB_init_fixed_def cbb_init_def CBB_zero_def cbb_inv_def cbb_error_def cdata_def ccap_def buf_ok_def bdata_def
      split: option.splits)

lemma CBB_finish_Some:
  assumes "cbb_inv st" and "CBB_finish E 0 has_data has_len st = (Some (bf, len), st')"
  shows "take len bf = flushed 0 st" and "len = length (flushed 0 st)"
proof -
  obtain s1 b where f: "CBB_flush E 0 st = (True, s1)" and b: "base s1 = Some b" "bf = buf b" "len = blen b"
    using assms(2) by (auto simp: CBB_finish_def split: prod.splits bool.splits option.splits if_splits)
  note w = flush.step [OF assms(1) _ f]
  then have bd: "buf_ok b" "bdata b = flushed 0 st" using b by (auto simp: written_def cbb_inv_def cdata_def)
  then show "take len bf = flushed 0 st" "len = length (flushed 0 st)"
    using b length_bdata [OF bd(1)] by (simp_all add: bdata_def)
qed

lemma CBB_finish_leaf:
  assumes "cbb_inv st" and "\<not> cbb_error st" and "chain st = []"
  shows "\<exists>bf len st'. CBB_finish E 0 True True st = (Some (bf, len), st')"
  using assms by (auto simp: CBB_finish_def CBB_flush_def cbb_inv_def cbb_error_def split: option.splits)

text \<open>A whole session: start a buffer, run a writer on the root, finish.\<close>

lemma session_leaf:
  assumes op: "cbb_leaf_writer op out" and i: "CBB_init E n = (True, st)" and n: "length out \<le> n" "n < 2 ^ 64"
  shows "\<exists>st1 bf st2. op 0 st = (True, st1) \<and> CBB_finish E 0 True True st1 = (Some (bf, length out), st2)
    \<and> take (length out) bf = out"
proof -
  note ok = CBB_init_True [OF i n(2)]
  obtain r st1 where w: "op 0 st = (r, st1)" by (cases "op 0 st")
  have r: "r" using cbb_leaf_writer.leaf_room [OF op ok(1,2) _ _ w] ok n by simp
  then have wr: "written 0 st out st1" using cbb_leaf_writer.leaf_step [OF op ok(1,2) _ w] ok by simp
  then have fl: "flushed 0 st1 = out" using ok by (simp add: written_def flushed_leaf)
  obtain bf len st2 where f: "CBB_finish E 0 True True st1 = (Some (bf, len), st2)"
    using CBB_finish_leaf [of st1 E] wr by (auto simp: written_def)
  with CBB_finish_Some [OF _ f] wr fl w r show ?thesis by (auto simp: written_def)
qed

lemma session:
  assumes op: "cbb_writer op out" and i: "CBB_init E n = (True, st)" and n: "length out \<le> n" "n < 2 ^ 64"
  shows "\<exists>st1 bf st2. op 0 st = (True, st1) \<and> CBB_finish E 0 True True st1 = (Some (bf, length out), st2)
    \<and> take (length out) bf = out"
  using session_leaf [OF writer_leaf [OF op] i n] .

section \<open>Growing\<close>

text \<open>
  When no allocation fails, a resizable buffer takes whatever is appended: its capacity stays below twice the bound \<open>L\<close>
  on the length, so no size wraps around.
\<close>

definition growable :: "nat \<Rightarrow> cbb_st \<Rightarrow> bool" where
  "growable L st \<longleftrightarrow> ccap st \<le> 2 * L \<and> (case base st of None \<Rightarrow> False | Some b \<Rightarrow> can_resize b)"

definition grows :: "(nat \<Rightarrow> cbb_op) \<Rightarrow> bytes \<Rightarrow> bool" where
  "grows op out \<longleftrightarrow> cbb_leaf_writer op out \<and>
     (\<forall>L st r st'. L \<le> 2 ^ 61 \<and> cbb_inv st \<and> \<not> cbb_error st \<and> growable L st \<and> length (cdata st @ out) \<le> L \<and>
        op (length (chain st)) st = (r, st') \<longrightarrow> r \<and> growable L st')"

lemma growsD:
  assumes "grows op out" and "L \<le> 2 ^ 61" and "cbb_inv st" and "\<not> cbb_error st" and "growable L st" and "length (cdata st @ out) \<le> L"
    and "op (length (chain st)) st = (r, st')"
  shows "r" and "growable L st'" and "written (length (chain st)) st out st'"
proof -
  show r: "r" "growable L st'" using assms unfolding grows_def by blast+
  show "written (length (chain st)) st out st'"
    using cbb_leaf_writer.leaf_step [of op out st "length (chain st)" r st'] assms r(1) by (simp add: grows_def)
qed

lemma grows_andalso:
  assumes "grows f xs" and "grows g ys"
  shows "grows (\<lambda>d. andalso (f d) (g d)) (xs @ ys)"
  unfolding grows_def
proof (intro conjI allI impI)
  show "cbb_leaf_writer (\<lambda>d. andalso (f d) (g d)) (xs @ ys)" using assms by (auto simp: grows_def intro: leaf_andalso)
  fix L st r st'
  assume a: "L \<le> 2 ^ 61 \<and> cbb_inv st \<and> \<not> cbb_error st \<and> growable L st \<and> length (cdata st @ xs @ ys) \<le> L \<and>
    andalso (f (length (chain st))) (g (length (chain st))) st = (r, st')"
  obtain r1 s1 where 1: "f (length (chain st)) st = (r1, s1)" by fastforce
  have "length (cdata st @ xs) \<le> L" using a by simp
  note F = growsD [OF assms(1) _ _ _ _ this 1]
  have s1: "r1" "growable L s1" "cbb_inv s1" "\<not> cbb_error s1" "chain s1 = chain st" "cdata s1 = cdata st @ xs"
    using F a by (auto simp: written_def flushed_leaf)
  have "g (length (chain s1)) s1 = (r, st')" using a 1 s1(1,5) by (simp add: andalso_def)
  with growsD(1,2) [OF assms(2) _ s1(3,4,2) _ this] a s1(6) show "r" "growable L st'" by simp_all
qed

lemma grows_skip: "grows (\<lambda>d st. (True, st)) []"
  by (auto simp: grows_def skip.cbb_leaf_writer_axioms)

lemma reserve_grows:
  assumes "no_failures E" and "buf_ok b" and "can_resize b" and "cap b \<le> 2 * L" and "blen b + n \<le> L" and "L \<le> 2 ^ 61"
  shows "\<exists>b'. cbb_buffer_reserve E n b = (True, b') \<and> can_resize b' \<and> cap b' \<le> 2 * L"
proof -
  have nl: "size_add (blen b) n = blen b + n" using assms(5,6) by (intro size_add_small) simp
  show ?thesis
  proof (cases "blen b + n > cap b")
    case True
    define nc where "nc = (if size_mul (cap b) 2 < cap b \<or> size_mul (cap b) 2 < blen b + n then blen b + n else size_mul (cap b) 2)"
    have m: "size_mul (cap b) 2 = cap b * 2" using True assms(5,6) by (simp add: size_mul_def)
    have nc: "nc \<le> 2 * L" using True assms(5) by (auto simp: nc_def m)
    then have "size_add nc OPENSSL_MALLOC_PREFIX = nc + OPENSSL_MALLOC_PREFIX" using assms(6) by (intro size_add_small) (simp add: OPENSSL_MALLOC_PREFIX_def)
    then have "\<exists>m. OPENSSL_realloc E (Some (buf b)) nc = Some m" using assms(1) by (simp add: OPENSSL_realloc_def OPENSSL_malloc_def no_failures_def Let_def)
    then show ?thesis using True nl nc assms(3) by (auto simp: cbb_buffer_reserve_def Let_def nc_def)
  next
    case False
    then show ?thesis using nl assms(3,4) by (auto simp: cbb_buffer_reserve_def)
  qed
qed

lemma add_grows:
  assumes "no_failures E" and "cbb_leaf_writer (\<lambda>d. andalso (CBB_flush E d) (on_base f)) out"
    and "\<And>b b'. cbb_buffer_reserve E (length out) b = (True, b') \<Longrightarrow> can_resize b' \<Longrightarrow> \<exists>b2. f b = (True, b2) \<and> can_resize b2 \<and> cap b2 = cap b'"
  shows "grows (\<lambda>d. andalso (CBB_flush E d) (on_base f)) out"
  unfolding grows_def
proof (intro conjI allI impI)
  fix L st r st'
  assume a: "L \<le> 2 ^ 61 \<and> cbb_inv st \<and> \<not> cbb_error st \<and> growable L st \<and> length (cdata st @ out) \<le> L \<and>
    andalso (CBB_flush E (length (chain st))) (on_base f) st = (r, st')"
  obtain b where b: "base st = Some b" "buf_ok b" "\<not> berror b" "can_resize b" "cap b \<le> 2 * L" "blen b + length out \<le> L"
    using a by (auto simp: cbb_inv_def cbb_error_def growable_def ccap_def cdata_def split: option.splits)
  obtain b1 where b1: "cbb_buffer_reserve E (length out) b = (True, b1)" "can_resize b1" "cap b1 \<le> 2 * L"
    using reserve_grows [OF assms(1) b(2,4,5,6)] a by blast
  obtain b2 where b2: "f b = (True, b2)" "can_resize b2" "cap b2 = cap b1" using assms(3) [OF b1(1,2)] by blast
  have "CBB_flush E (length (chain st)) st = (True, st)" using b by (simp add: CBB_flush_def)
  then have "r" "st' = st\<lparr>base := Some b2\<rparr>" using a b(1) b2(1) by (simp_all add: andalso_def on_base_def)
  then show "r" "growable L st'" using b2 b1(3) by (simp_all add: growable_def ccap_def)
qed (rule assms(2))

lemma add_bytes_grows: "no_failures E \<Longrightarrow> length data < 2 ^ 64 \<Longrightarrow> grows (\<lambda>d. CBB_add_bytes E d data) data"
  using writer_leaf [OF add_bytes_writer, of data E] unfolding CBB_add_bytes_def
  by (intro add_grows) (auto simp: cbb_buffer_add_def)

lemma add_u8_grows: "no_failures E \<Longrightarrow> grows (\<lambda>d. CBB_add_u8 E d v) [v]"
  using add_u8.cbb_leaf_writer_axioms [of E v] unfolding CBB_add_u8_def
proof (intro add_grows)
  fix b b'
  assume r: "cbb_buffer_reserve E (length [v]) b = (True, b')" "can_resize b'"
  have "drop_bit 8 (ucast v :: u64) = 0" using drop_bit_0_iff [of 1 "ucast v"] unsigned_less [of v, where 'a = nat] by (simp add: unat_ucast_up)
  then show "\<exists>b2. cbb_buffer_add_u E (ucast v) 1 b = (True, b2) \<and> can_resize b2 \<and> cap b2 = cap b'"
    using r by (simp add: cbb_buffer_add_u_def cbb_buffer_add_def Let_def)
qed

end
