(* ===== verification/CBB_ASN1.thy ===== *)
theory CBB_ASN1
  imports CBB_Writers
begin

unbundle bit_operations_syntax

text \<open>
  The ASN.1 writers of \<^verbatim>\<open>cbb.c\<close>: each produces exactly the DER encoding of its value, which the
  readers of \<^verbatim>\<open>cbs.c\<close> accept.
\<close>

section \<open>Elements and length prefixes\<close>

lemma add_asn1_pre_writer:
  "cbb_writer (\<lambda>d. andalso (CBB_flush E d)
      (let tag_bits = ucast (drop_bit CBS_ASN1_TAG_SHIFT tag) AND 0xe0;
           tag_number = tag AND CBS_ASN1_TAG_NUMBER_MASK
       in if tag_number \<ge> 0x1f
          then andalso (CBB_add_u8 E d (tag_bits OR 0x1f)) (add_base128_integer E d (ucast tag_number))
          else CBB_add_u8 E d (tag_bits OR ucast tag_number))) (der_tag tag)"
proof (cases "0x1f \<le> unat (tag AND CBS_ASN1_TAG_NUMBER_MASK)")
  case True
  then have "tag AND CBS_ASN1_TAG_NUMBER_MASK \<ge> 0x1f" by (simp add: word_le_nat_alt)
  with True show ?thesis
    using writer_andalso [OF flush_writer writer_andalso [OF add_u8.cbb_writer_axioms
        add_base128_writer [of E "ucast (tag AND CBS_ASN1_TAG_NUMBER_MASK)"]]]
    by (simp add: der_tag_def Let_def CBS_ASN1_TAG_SHIFT_def CBS_ASN1_TAG_NUMBER_MASK_def unat_ucast_up)
next
  case False
  then have "\<not> tag AND CBS_ASN1_TAG_NUMBER_MASK \<ge> 0x1f" by (simp add: word_le_nat_alt)
  with False show ?thesis
    using writer_andalso [OF flush_writer add_u8.cbb_writer_axioms]
    by (simp add: der_tag_def Let_def CBS_ASN1_TAG_SHIFT_def CBS_ASN1_TAG_NUMBER_MASK_def)
qed

lemma der_element_prefix_enc:
  "der_element tag body = der_tag tag @ prefix_enc \<lparr>offset = off, pending_len_len = 1, pending_is_asn1 = True\<rparr> body"
  by (simp add: der_element_def prefix_enc_def)

lemma asn1_writer:
  assumes con: "cbb_leaf_writer con body" and len: "length body \<le> 0xfffffffe"
  shows "cbb_writer (\<lambda>d. andalso (CBB_add_asn1 E d tag) (andalso (con (d + 1)) (CBB_flush E d))) (der_element tag body)"
proof (rule writer_cong)
  define A where "A = (\<lambda>d. andalso (CBB_flush E d)
      (let tag_bits = ucast (drop_bit CBS_ASN1_TAG_SHIFT tag) AND 0xe0;
           tag_number = tag AND CBS_ASN1_TAG_NUMBER_MASK
       in if tag_number \<ge> 0x1f
          then andalso (CBB_add_u8 E d (tag_bits OR 0x1f)) (add_base128_integer E d (ucast tag_number))
          else CBB_add_u8 E d (tag_bits OR ucast tag_number)))"
  have wA: "cbb_writer A (der_tag tag)" unfolding A_def by (rule add_asn1_pre_writer)
  note pre = writer_andalso [OF wA add_u8.cbb_writer_axioms [of E 0]]
  show "cbb_writer (\<lambda>d. andalso (andalso (andalso (A d) (CBB_add_u8 E d 0)) (\<lambda>st. open_child d
              \<lparr>offset = base_len st - length [0::u8], pending_len_len = length [0::u8], pending_is_asn1 = True\<rparr> st))
        (andalso (con (d + 1)) (CBB_flush E d))) (der_element tag body)"
    unfolding der_element_prefix_enc [where off = 0]
    using child_writer [OF pre con, where off = 0 and a = True] len by (simp add: child_ok_def fits_def)
  fix d :: nat and st :: cbb_st
  assume st: "cbb_inv st" "d \<le> length (chain st)"
  have "CBB_add_asn1 E d tag = andalso (A d) (\<lambda>cbb. andalso (CBB_add_u8 E d 0)
      (open_child d \<lparr>offset = base_len cbb, pending_len_len = 1, pending_is_asn1 = True\<rparr>) cbb)"
    unfolding CBB_add_asn1_def A_def Let_def andalso_assoc ..
  then have "CBB_add_asn1 E d tag st = andalso (andalso (A d) (CBB_add_u8 E d 0)) (\<lambda>st. open_child d
      \<lparr>offset = base_len st - length [0::u8], pending_len_len = 1, pending_is_asn1 = True\<rparr> st) st"
    using open_after [OF wA add_u8.cbb_writer_axioms [of E 0] st] by simp
  then show "andalso (CBB_add_asn1 E d tag) (andalso (con (d + 1)) (CBB_flush E d)) st =
      andalso (andalso (andalso (A d) (CBB_add_u8 E d 0)) (\<lambda>st. open_child d
              \<lparr>offset = base_len st - length [0::u8], pending_len_len = length [0::u8], pending_is_asn1 = True\<rparr> st))
        (andalso (con (d + 1)) (CBB_flush E d)) st"
    by (intro andalso_cong) simp
qed

lemma length_prefixed_writer:
  assumes con: "cbb_leaf_writer con body" and len: "length body < 256 ^ k" and k: "1 \<le> k" "k \<le> 3"
  shows "cbb_writer (\<lambda>d. andalso (cbb_add_length_prefixed E d k) (andalso (con (d + 1)) (CBB_flush E d)))
     (be_bytes k (length body) @ body)"
proof (rule writer_cong)
  define z where "z = replicate k (0 :: u8)"
  have z: "length z = k" by (simp add: z_def)
  have wz: "cbb_writer (\<lambda>d. CBB_add_bytes E d z) ([] @ z)" using k by (simp add: add_bytes_writer z_def)
  show "cbb_writer (\<lambda>d. andalso (andalso (CBB_add_bytes E d z) (\<lambda>st. open_child d
              \<lparr>offset = base_len st - length z, pending_len_len = length z, pending_is_asn1 = False\<rparr> st))
        (andalso (con (d + 1)) (CBB_flush E d))) (be_bytes k (length body) @ body)"
    using child_writer [OF wz con, where off = 0 and a = False] len k
    by (simp add: child_ok_def fits_def prefix_enc_def z)
  fix d :: nat and st :: cbb_st
  assume st: "cbb_inv st" "d \<le> length (chain st)"
  obtain r1 s1 where 1: "CBB_flush E d st = (r1, s1)" by (cases "CBB_flush E d st")
  note w1 = flush.step [OF st 1]
  let ?B = "\<lambda>b. case cbb_buffer_add E (length z) b of (False, b') \<Rightarrow> (False, b')
      | (True, b') \<Rightarrow> (True, b'\<lparr>buf := write_at (blen b) z (buf b')\<rparr>)"
  obtain r2 s2 where 2: "on_base ?B s1 = (r2, s2)" by (cases "on_base ?B s1")
  have add: "r1 \<Longrightarrow> CBB_add_bytes E d z st = (r2, s2)"
    using 1 2 by (simp add: CBB_add_bytes_def andalso_def)
  have off: "base_len s1 = base_len s2 - k" if r1 r2
    using written_base_len [of d st "[]" s1] written_base_len [of d st "[] @ z" s2] w1 that
      cbb_writer.step [OF wz st add] by (simp add: z)
  have same: "on_base (\<lambda>b. case cbb_buffer_add E k b of (False, b) \<Rightarrow> (False, b)
      | (True, b) \<Rightarrow> (True, b\<lparr>buf := write_at (base_len s1) z (buf b)\<rparr>)) s1 = (r2, s2)"
  proof (cases "base s1")
    case (Some b)
    then have bl: "base_len s1 = blen b" by (simp add: base_len_def)
    show ?thesis using 2 unfolding bl on_base_def Some option.case z .
  qed (use 2 in \<open>simp add: on_base_def\<close>)
  have "cbb_add_length_prefixed E d k st = andalso (CBB_add_bytes E d z) (\<lambda>st. open_child d
      \<lparr>offset = base_len st - length z, pending_len_len = length z, pending_is_asn1 = False\<rparr> st) st"
  proof (cases r1)
    case True
    with 1 add same [unfolded z_def] off show ?thesis
      by (simp add: cbb_add_length_prefixed_def andalso_def Let_def z split: bool.splits)
  next
    case False
    with 1 show ?thesis by (simp add: cbb_add_length_prefixed_def CBB_add_bytes_def andalso_def)
  qed
  then show "andalso (cbb_add_length_prefixed E d k) (andalso (con (d + 1)) (CBB_flush E d)) st =
      andalso (andalso (CBB_add_bytes E d z) (\<lambda>st. open_child d
              \<lparr>offset = base_len st - length z, pending_len_len = length z, pending_is_asn1 = False\<rparr> st))
        (andalso (con (d + 1)) (CBB_flush E d)) st"
    by (intro andalso_cong)
qed


lemma u8_and_ff [simp]: "x AND 0xff = (x :: u8)"
  by (simp add: u8_eq_bits all_less_unfold bit_simps)

text \<open>The bytes the loop of \<^verbatim>\<open>CBB_add_asn1_uint64\<close> adds in its last \<open>n\<close> rounds.\<close>

fun uint64_out :: "u64 \<Rightarrow> nat \<Rightarrow> bool \<Rightarrow> bytes" where
  "uint64_out val 0 started = []"
| "uint64_out val (Suc n) started =
     (let byte = ucast (drop_bit (8 * n) val) in
      if \<not> started \<and> byte = 0 then uint64_out val n started
      else (if \<not> started \<and> byte AND 0x80 \<noteq> 0 then [0] else []) @ byte # uint64_out val n True)"

lemma uint64_loop_step:
  "(case add_uint64_loop E d val (Suc n) started st of (r, _, st) \<Rightarrow> (r, st)) =
   (let byte = ucast (drop_bit (8 * n) val) in
      if \<not> started \<and> byte = 0 then (case add_uint64_loop E d val n started st of (r, _, st) \<Rightarrow> (r, st))
      else andalso (if \<not> started \<and> byte AND 0x80 \<noteq> 0 then CBB_add_u8 E d 0 else (\<lambda>st. (True, st)))
             (andalso (CBB_add_u8 E d byte)
                (\<lambda>st. case add_uint64_loop E d val n True st of (r, _, st) \<Rightarrow> (r, st))) st)"
  by (auto simp: Let_def andalso_def split: prod.splits bool.splits)

lemma add_uint64_loop_writer:
  "cbb_leaf_writer (\<lambda>d st. case add_uint64_loop E d val n started st of (r, _, st) \<Rightarrow> (r, st)) (uint64_out val n started)"
proof (induction n arbitrary: started)
  case 0
  show ?case by (simp add: skip.cbb_leaf_writer_axioms)
next
  case (Suc n)
  let ?byte = "ucast (drop_bit (8 * n) val) :: u8"
  note w8 = add_u8.cbb_leaf_writer_axioms
  show ?case
  proof (cases "\<not> started \<and> ?byte = 0")
    case True
    then show ?thesis using Suc [of started] unfolding uint64_loop_step by (simp add: Let_def)
  next
    case False
    have "cbb_leaf_writer (\<lambda>d. if \<not> started \<and> ?byte AND 0x80 \<noteq> 0 then CBB_add_u8 E d 0 else (\<lambda>st. (True, st)))
       (if \<not> started \<and> ?byte AND 0x80 \<noteq> 0 then [0] else [])"
      using w8 skip.cbb_leaf_writer_axioms by (cases started; cases "?byte AND 0x80 = 0") simp_all
    from leaf_andalso [OF this leaf_andalso [OF w8 [of E ?byte] Suc [of True]]] False
    show ?thesis unfolding uint64_loop_step by (auto simp: Let_def)
  qed
qed

lemma uint64_loop_started:
  "add_uint64_loop E d val n started st = (True, s', st') \<Longrightarrow> s' = (started \<or> uint64_out val n started \<noteq> [])"
  by (induction n arbitrary: started st) (auto simp: Let_def split: prod.splits bool.splits if_splits)

lemma uint64_out_content:
  "(if uint64_out val n False = [] then [0] else uint64_out val n False)
    = strip_sign (0 # map (\<lambda>j. ucast (drop_bit (8 * j) val)) (rev [0..<n]))"
proof (induction n)
  case (Suc n)
  have t: "uint64_out val n True = map (\<lambda>j. ucast (drop_bit (8 * j) val)) (rev [0..<n])" for n
    by (induction n) (simp_all add: Let_def)
  have nz: "b = 0xff \<longrightarrow> \<not> unat b < 128" for b :: u8 by simp
  let ?byte = "ucast (drop_bit (8 * n) val) :: u8"
  have s: "unat ?byte < 128 \<Longrightarrow> ?byte \<noteq> 0 \<Longrightarrow> strip_sign (?byte # bs) = ?byte # bs" for bs
    using nz [of ?byte] by (cases bs) auto
  show ?case using Suc s by (auto simp: Let_def t u8_high_bit)
qed simp

lemma uint64_out_8:
  "(if uint64_out val 8 False = [] then [0] else uint64_out val 8 False) = uint_content val"
  unfolding uint64_out_content uint_content_def be_bytes_word8
  by (simp add: upt_conv_Cons)


lemma asn1_uint64_writer: "cbb_writer (\<lambda>d. CBB_add_asn1_uint64 E d v) (der_element CBS_ASN1_INTEGER (uint_content v))"
proof -
  define con where "con = (\<lambda>d st. case add_uint64_loop E d v 8 False st of
      (False, _, st) \<Rightarrow> (False, st)
    | (True, started, st) \<Rightarrow> (if \<not> started then CBB_add_u8 E d 0 else (\<lambda>st. (True, st))) st)"
  have con': "con d st = andalso (\<lambda>st. case add_uint64_loop E d v 8 False st of (r, _, st) \<Rightarrow> (r, st))
      (if uint64_out v 8 False = [] then CBB_add_u8 E d 0 else (\<lambda>st. (True, st))) st" for d st
    using uint64_loop_started [of E d v 8 False st]
    by (auto simp: con_def andalso_def split: prod.splits bool.splits)
  have "cbb_leaf_writer (\<lambda>d. if uint64_out v 8 False = [] then CBB_add_u8 E d 0 else (\<lambda>st. (True, st)))
      (if uint64_out v 8 False = [] then [0] else [])"
    using add_u8.cbb_leaf_writer_axioms skip.cbb_leaf_writer_axioms by simp
  from leaf_andalso [OF add_uint64_loop_writer [of E v 8 False] this]
  have "cbb_leaf_writer con (uint_content v)"
    using uint64_out_8 [of v] unfolding con' [abs_def] by (cases "uint64_out v 8 False = []") simp_all
  moreover have "length (uint_content v) \<le> 0xfffffffe"
    using length_strip_sign [of "0 # be_bytes 8 (unat v)"] by (simp add: uint_content_def)
  moreover have "CBB_add_asn1_uint64 E d v =
      andalso (CBB_add_asn1 E d CBS_ASN1_INTEGER) (andalso (con (d + 1)) (CBB_flush E d))" for d
    by (auto simp: CBB_add_asn1_uint64_def andalso_def con_def fun_eq_iff split: prod.splits bool.splits)
  ultimately show ?thesis using asn1_writer by simp
qed

lemma add_bytes_down_writer:
  "n \<le> length u \<Longrightarrow> cbb_leaf_writer (\<lambda>d. add_bytes_down E d u n) (rev (take n u))"
proof (induction n)
  case 0
  show ?case by (simp add: skip.cbb_leaf_writer_axioms)
next
  case (Suc n)
  then show ?case using leaf_andalso [OF add_u8.cbb_leaf_writer_axioms]
    by (simp add: take_Suc_conv_app_nth)
qed

lemma sign_start_strip:
  "s < length u \<Longrightarrow> 128 \<le> unat (u ! s) \<Longrightarrow>
     sign_start u s \<le> s \<and> rev (take (Suc (sign_start u s)) u) = strip_sign (rev (take (Suc s) u))"
proof (induction s)
  case (Suc s)
  have r: "rev (take (Suc (Suc s)) u) = u ! Suc s # u ! s # rev (take s u)"
    "rev (take (Suc s) u) = u ! s # rev (take s u)"
    using Suc.prems by (simp_all add: take_Suc_conv_app_nth)
  show ?case
  proof (cases "u ! Suc s = 0xff \<and> 128 \<le> unat (u ! s)")
    case True
    with Suc r show ?thesis by (simp add: u8_high_bit)
  next
    case False
    then have "sign_start u (Suc s) = Suc s" by (auto simp: u8_high_bit not_less)
    moreover have "strip_sign (u ! Suc s # u ! s # rev (take s u)) = u ! Suc s # u ! s # rev (take s u)"
      using False Suc.prems by auto
    ultimately show ?thesis using r by simp
  qed
qed (cases u; simp)

lemma hd_be_bytes8: "unat (hd (be_bytes 8 (unat (v :: u64)))) = unat v div 2 ^ 56"
proof -
  have "unat v div 2 ^ 56 < 256" using unsigned_less [of v, where 'a = nat] by (simp add: less_mult_imp_div_less)
  then show ?thesis
    using unat_div_drop_bit [of v 56] by (simp add: be_bytes_word8 unsigned_ucast_eq take_bit_eq_mod)
qed

lemma sint_neg_iff: "sint (v :: u64) < 0 \<longleftrightarrow> 2 ^ 63 \<le> unat v"
proof -
  have "sint v < 0 \<longleftrightarrow> bit v 63" using bit_last_iff [of v] by simp
  also have "\<dots> \<longleftrightarrow> odd (unat v div 2 ^ 63)"
    using bit_unsigned_iff [of v 63, where 'a = nat] by (simp add: bit_iff_odd)
  also have "\<dots> \<longleftrightarrow> 2 ^ 63 \<le> unat v"
  proof -
    have "unat v div 2 ^ 63 < 2" using unsigned_less [of v, where 'a = nat] by (simp add: less_mult_imp_div_less)
    then have "odd (unat v div 2 ^ 63) \<longleftrightarrow> unat v div 2 ^ 63 \<noteq> 0" by (auto simp: less_Suc_eq numeral_2_eq_2)
    then show ?thesis by (simp add: div_eq_0_iff not_less)
  qed
  finally show ?thesis .
qed

lemma int_content_nonneg: "0 \<le> sint v \<Longrightarrow> int_content v = uint_content v"
proof -
  assume "0 \<le> sint v"
  then have "unat v < 2 ^ 63" using sint_neg_iff [of v] by (simp add: not_less [symmetric])
  then have "unat (hd (be_bytes 8 (unat v))) < 128" unfolding hd_be_bytes8 by (simp add: less_mult_imp_div_less)
  then show ?thesis using be_bytes_word8 [of v] by (simp add: int_content_def uint_content_def)
qed

lemma asn1_int64_writer: "cbb_writer (\<lambda>d. CBB_add_asn1_int64 E d v) (der_element CBS_ASN1_INTEGER (int_content v))"
proof (cases "0 \<le> sint v")
  case True
  then show ?thesis using asn1_uint64_writer [of E v] by (simp add: CBB_add_asn1_int64_def int_content_nonneg)
next
  case False
  define u where "u = int64_bytes v"
  have u: "length u = 8" "rev (take (Suc 7) u) = be_bytes 8 (unat v)" by (simp_all add: u_def int64_bytes_def)
  have "128 \<le> unat (hd (be_bytes 8 (unat v)))"
    using False sint_neg_iff [of v] unfolding hd_be_bytes8 by (simp add: not_le Suc_le_eq less_eq_div_iff_mult_less_eq)
  moreover have "u ! 7 = hd (be_bytes 8 (unat v))"
    by (simp add: u_def int64_bytes_def rev_nth be_bytes_word8)
  ultimately have s: "sign_start u 7 \<le> 7" "rev (take (sign_start u 7 + 1) u) = int_content v"
    using sign_start_strip [of 7 u] u by (simp_all add: int_content_def)
  have "length (int_content v) \<le> 0xfffffffe"
    using length_strip_sign [of "be_bytes 8 (unat v)"] by (simp add: int_content_def)
  with asn1_writer [OF add_bytes_down_writer [of "sign_start u 7 + 1" u E]] s u False
  show ?thesis by (simp add: CBB_add_asn1_int64_def Let_def flip: u_def)
qed

lemma asn1_octet_string_writer:
  "length data \<le> 0xfffffffe \<Longrightarrow>
   cbb_writer (\<lambda>d. CBB_add_asn1_octet_string E d data) (der_element CBS_ASN1_OCTETSTRING data)"
  using asn1_writer [OF writer_leaf [OF add_bytes_writer]]
  by (simp add: CBB_add_asn1_octet_string_def)

lemma asn1_bool_writer:
  "cbb_writer (\<lambda>d. CBB_add_asn1_bool E d b) (der_element CBS_ASN1_BOOLEAN [if b then 0xff else 0])"
  using asn1_writer [OF add_u8.cbb_leaf_writer_axioms [of E "if b then 0xff else 0"], of E CBS_ASN1_BOOLEAN]
  by (simp add: CBB_add_asn1_bool_def)

interpretation add_asn1_uint64: cbb_writer "\<lambda>d. CBB_add_asn1_uint64 E d v"
  "der_element CBS_ASN1_INTEGER (uint_content v)" for E v
  by (rule asn1_uint64_writer)

interpretation add_asn1_int64: cbb_writer "\<lambda>d. CBB_add_asn1_int64 E d v"
  "der_element CBS_ASN1_INTEGER (int_content v)" for E v
  by (rule asn1_int64_writer)

interpretation add_asn1_bool: cbb_writer "\<lambda>d. CBB_add_asn1_bool E d b"
  "der_element CBS_ASN1_BOOLEAN [if b then 0xff else 0]" for E b
  by (rule asn1_bool_writer)

lemma length_der_integer: "length bs \<le> 9 \<Longrightarrow> length (der_element CBS_ASN1_INTEGER bs) \<le> 11"
  by (simp add: der_element_def der_tag_def der_len_def CBS_ASN1_INTEGER_def)

lemma length_der_uint: "length (der_element CBS_ASN1_INTEGER (uint_content v)) \<le> 11"
  using length_strip_sign [of "0 # be_bytes 8 (unat v)"] by (intro length_der_integer) (simp add: uint_content_def)

lemma length_der_int: "length (der_element CBS_ASN1_INTEGER (int_content v)) \<le> 11"
  using length_strip_sign [of "be_bytes 8 (unat v)"] by (intro length_der_integer) (simp add: int_content_def)

end
