(* ===== verification/OID.thy ===== *)
theory OID
  imports CBB_ASN1
begin

unbundle bit_operations_syntax

text \<open>
  Object identifiers between dotted-decimal text and DER: \<^verbatim>\<open>parse_dotted_decimal\<close> and
  \<^verbatim>\<open>CBB_add_asn1_oid_from_text\<close> of \<^verbatim>\<open>cbb.c\<close>, \<^verbatim>\<open>add_decimal\<close> and \<^verbatim>\<open>CBS_asn1_oid_to_text\<close> of
  \<^verbatim>\<open>cbs.c\<close>, against the list of components.
\<close>

section \<open>Object identifiers as text\<close>

definition ch_dot :: u8 where "ch_dot = 0x2e"

text \<open>
  \<^verbatim>\<open>parse_dotted_decimal\<close>, with the loop's \<^verbatim>\<open>*out\<close> and \<^verbatim>\<open>seen_digit\<close> as arguments.
\<close>

fun parse_dotted_loop :: "u64 \<Rightarrow> bool \<Rightarrow> u64 reader" where
  "parse_dotted_loop out seen_digit [] = (if seen_digit then Some out else None, [])"
| "parse_dotted_loop out seen_digit (u # cbs) =
     (if u = ch_dot \<and> length cbs > 0 then (if seen_digit then Some out else None, cbs)
      else if u < 0x30 \<or> u > 0x39 \<or> (seen_digit \<and> out = 0) \<or> out > (- 1) div 10 \<or>
              out * 10 > (- 1) - ucast (u - 0x30)
      then (None, cbs)
      else parse_dotted_loop (out * 10 + ucast (u - 0x30)) True cbs)"

definition parse_dotted_decimal :: "u64 reader" where
  "parse_dotted_decimal = parse_dotted_loop 0 False"

lemma parse_dotted_loop_shorter: "cbs \<noteq> [] \<Longrightarrow> length (snd (parse_dotted_loop out seen cbs)) < length cbs"
proof (induction out seen cbs rule: parse_dotted_loop.induct)
  case (2 out seen u cbs)
  then show ?case by (cases cbs) auto
qed simp

lemma parse_dotted_shorter: "parse_dotted_decimal cbs = (Some v, t) \<Longrightarrow> length t < length cbs"
  using parse_dotted_loop_shorter [of cbs 0 False] by (cases "cbs = []") (auto simp: parse_dotted_decimal_def)

function add_oid_rest :: "alloc_env \<Rightarrow> nat \<Rightarrow> bytes \<Rightarrow> cbb_op" where
  "add_oid_rest E d cbs =
     (if length cbs > 0 then
        case parse_dotted_decimal cbs of
          (None, _) \<Rightarrow> (\<lambda>st. (False, st))
        | (Some a, cbs') \<Rightarrow> andalso (add_base128_integer E d a) (add_oid_rest E d cbs')
      else (\<lambda>st. (True, st)))"
  by pat_completeness auto
termination
  by (relation "measure (\<lambda>(E, d, cbs). length cbs)")
    (auto dest!: sym [of "(_, _)"] parse_dotted_shorter)

declare add_oid_rest.simps [simp del]

definition CBB_add_asn1_oid_from_text :: "alloc_env \<Rightarrow> nat \<Rightarrow> bytes \<Rightarrow> cbb_op" where
  "CBB_add_asn1_oid_from_text E d text =
     andalso (CBB_flush E d)
       (case parse_dotted_decimal text of
          (None, _) \<Rightarrow> (\<lambda>st. (False, st))
        | (Some a, cbs) \<Rightarrow>
            (case parse_dotted_decimal cbs of
               (None, _) \<Rightarrow> (\<lambda>st. (False, st))
             | (Some b, cbs) \<Rightarrow>
                 if a > 2 \<or> (a < 2 \<and> b > 39) \<or> b > (- 1) - 80 then (\<lambda>st. (False, st))
                 else andalso (add_base128_integer E d (40 * a + b)) (add_oid_rest E d cbs)))"

text \<open>\<^verbatim>\<open>snprintf\<close> with \<^verbatim>\<open>%u\<close>: the decimal digits, without leading zeros.\<close>

fun decimal :: "nat \<Rightarrow> bytes" where
  "decimal n = (if n < 10 then [of_nat (0x30 + n)] else decimal (n div 10) @ [of_nat (0x30 + n mod 10)])"

declare decimal.simps [simp del]

definition add_decimal :: "alloc_env \<Rightarrow> nat \<Rightarrow> u64 \<Rightarrow> cbb_op" where
  "add_decimal E d v = CBB_add_bytes E d (decimal (unat v))"

lemma parse_base128_loop_shorter: "parse_base128_loop v cbs = (Some w, t) \<Longrightarrow> length t < length cbs"
  by (induction v cbs rule: parse_base128_loop.induct) (auto simp: Let_def split: if_splits)

function oid_text_rest :: "alloc_env \<Rightarrow> nat \<Rightarrow> bytes \<Rightarrow> cbb_op" where
  "oid_text_rest E d copy =
     (if length copy \<noteq> 0 then
        case parse_base128_integer copy of
          (None, _) \<Rightarrow> (\<lambda>st. (False, st))
        | (Some v, copy') \<Rightarrow>
            andalso (CBB_add_u8 E d ch_dot) (andalso (add_decimal E d v) (oid_text_rest E d copy'))
      else (\<lambda>st. (True, st)))"
  by pat_completeness auto
termination
  by (relation "measure (\<lambda>(E, d, copy). length copy)")
    (auto simp: parse_base128_integer_def dest!: sym [of "(_, _)"] parse_base128_loop_shorter)

declare oid_text_rest.simps [simp del]

definition CBS_asn1_oid_to_text :: "alloc_env \<Rightarrow> bytes \<Rightarrow> bytes option" where
  "CBS_asn1_oid_to_text E cbs =
     (case CBB_init E 32 of
        (False, _) \<Rightarrow> None
      | (True, cbb) \<Rightarrow>
          (case parse_base128_integer cbs of
             (None, _) \<Rightarrow> None
           | (Some v, copy) \<Rightarrow>
               (case andalso
                       (if v \<ge> 80
                        then andalso (CBB_add_bytes E 0 [0x32, ch_dot]) (add_decimal E 0 (v - 80))
                        else andalso (add_decimal E 0 (v div 40))
                               (andalso (CBB_add_u8 E 0 ch_dot) (add_decimal E 0 (v mod 40))))
                       (andalso (oid_text_rest E 0 copy) (CBB_add_u8 E 0 0)) cbb of
                  (False, _) \<Rightarrow> None
                | (True, cbb) \<Rightarrow> map_option fst (fst (CBB_finish E 0 True True cbb)))))"

section \<open>Lemmas: decimal numbers\<close>

lemma digit_char:
  assumes "n < 10"
  shows "(of_nat (0x30 + n) :: u8) - 0x30 = of_nat n" and "unat (of_nat (0x30 + n) :: u8) = 0x30 + n"
    and "\<not> (of_nat (0x30 + n) :: u8) < 0x30" and "\<not> (of_nat (0x30 + n) :: u8) > 0x39"
    and "(of_nat (0x30 + n) :: u8) \<noteq> ch_dot"
proof -
  show u: "unat (of_nat (0x30 + n) :: u8) = 0x30 + n" unfolding unat_of_nat_u8 using assms by simp
  show "(of_nat (0x30 + n) :: u8) - 0x30 = of_nat n" by simp
  show "\<not> (of_nat (0x30 + n) :: u8) < 0x30" "\<not> (of_nat (0x30 + n) :: u8) > 0x39"
    unfolding word_less_nat_alt u using assms by simp_all
  show "(of_nat (0x30 + n) :: u8) \<noteq> ch_dot" unfolding word_unat_eq_iff u by (simp add: ch_dot_def)
qed

lemma decimal_step_ok:
  fixes out :: u64
  assumes "x < 10"
  shows "out > (- 1) div 10 \<or> out * 10 > (- 1) - of_nat x \<longleftrightarrow> unat out * 10 + x \<ge> 2 ^ 64"
    and "unat out * 10 + x < 2 ^ 64 \<Longrightarrow> unat (out * 10 + of_nat x) = unat out * 10 + x"
proof -
  have x: "unat (of_nat x :: u64) = x" using assms by (simp add: unat_of_nat)
  have m: "unat ((- 1) - of_nat x :: u64) = 18446744073709551615 - x"
    using assms by (subst unat_sub) (simp_all add: x word_le_nat_alt unsigned_minus_1_eq_mask mask_eq_exp_minus_1)
  show "out > (- 1) div 10 \<or> out * 10 > (- 1) - of_nat x \<longleftrightarrow> unat out * 10 + x \<ge> 2 ^ 64"
  proof (cases "unat out > 1844674407370955161")
    case False
    then have "unat (out * 10) = unat out * 10" by (subst unat_mult_lem [THEN iffD1]) simp_all
    with False m assms show ?thesis by (simp add: word_less_nat_alt, arith)
  qed (simp add: word_less_nat_alt)
  assume a: "unat out * 10 + x < 2 ^ 64"
  then show "unat (out * 10 + of_nat x) = unat out * 10 + x"
    using assms by (simp add: unat_word_ariths x)
qed

lemma parse_dotted_digit:
  assumes "x < 10" and "\<not> (seen \<and> out = 0)"
  shows "parse_dotted_loop out seen (of_nat (0x30 + x) # cbs) =
    (if unat out * 10 + x < 2 ^ 64 then parse_dotted_loop (of_nat (unat out * 10 + x)) True cbs else (None, cbs))"
proof -
  have c: "ucast (of_nat (0x30 + x) - 0x30 :: u8) = (of_nat x :: u64)"
    using assms(1) by (simp add: digit_char word_unat_eq_iff unat_ucast_up unat_of_nat)
  have "unat out * 10 + x < 2 ^ 64 \<Longrightarrow> out * 10 + of_nat x = of_nat (unat out * 10 + x)"
    by simp
  then show ?thesis
    using decimal_step_ok [OF assms(1), of out] digit_char(3-5) [OF assms(1)] assms(2) unfolding parse_dotted_loop.simps c
    by (auto simp del: of_nat_add)
qed

lemma decimal_nonempty [simp]: "decimal n \<noteq> []"
  by (subst decimal.simps) simp

lemma parse_dotted_decimal_loop:
  "n < 2 ^ 64 \<Longrightarrow> parse_dotted_loop 0 False (decimal n @ rest) = parse_dotted_loop (of_nat n) True rest"
proof (induction n arbitrary: rest rule: decimal.induct)
  case (1 n)
  show ?case
  proof (cases "n < 10")
    case True
    then show ?thesis using parse_dotted_digit [of n False 0 rest] by (subst decimal.simps) (simp del: parse_dotted_loop.simps of_nat_add)
  next
    case False
    have u: "unat (of_nat (n div 10) :: u64) = n div 10" using "1.prems" by (simp add: unat_of_nat)
    have nz: "\<not> (True \<and> (of_nat (n div 10) :: u64) = 0)" using False unfolding word_unat_eq_iff u by simp
    have "decimal n @ rest = decimal (n div 10) @ of_nat (0x30 + n mod 10) # rest"
      using False by (subst decimal.simps) simp
    then show ?thesis
      using 1(1) [OF False, of "of_nat (0x30 + n mod 10) # rest"] "1.prems" parse_dotted_digit [of "n mod 10" True _ rest, OF _ nz] u
      by (simp del: parse_dotted_loop.simps of_nat_add)
  qed
qed

lemma decimal_snoc: "n \<noteq> 0 \<Longrightarrow> x < 10 \<Longrightarrow> decimal (n * 10 + x) = decimal n @ [of_nat (0x30 + x)]"
  by (subst decimal.simps) simp

lemma parse_dotted_loop_Some:
  "parse_dotted_loop out seen cbs = (Some v, t) \<Longrightarrow> (\<not> seen \<longrightarrow> out = 0) \<Longrightarrow>
   (if seen then decimal (unat out) else []) @ cbs = decimal (unat v) @ (if t = [] then [] else ch_dot # t)"
proof (induction out seen cbs rule: parse_dotted_loop.induct)
  case (2 out seen u cbs)
  show ?case
  proof (cases "u = ch_dot \<and> length cbs > 0")
    case True
    with 2 show ?thesis by (auto split: if_splits)
  next
    case False
    define x where "x = unat u - 0x30"
    have dig: "\<not> u < 0x30" "\<not> u > 0x39" "\<not> (seen \<and> out = 0)"
      using 2(2) False by (auto split: if_splits)
    then have x: "x < 10" "u = of_nat (0x30 + x)"
      unfolding word_less_nat_alt x_def by (simp_all add: word_unat_eq_iff unat_of_nat_u8 not_less)
    have c: "ucast (u - 0x30) = (of_nat x :: u64)"
      using x(1) unfolding x(2) digit_char(1) [OF x(1)]
      by (simp add: word_unat_eq_iff unat_ucast_up unat_of_nat)
    have lt: "unat out * 10 + x < 2 ^ 64"
      using 2(2) False x parse_dotted_digit [OF x(1) dig(3), of cbs] by (auto simp del: parse_dotted_loop.simps split: if_splits)
    have un: "unat (out * 10 + of_nat x) = unat out * 10 + x"
      using decimal_step_ok(2) [OF x(1) lt] .
    have rec: "parse_dotted_loop (out * 10 + of_nat x) True cbs = (Some v, t)"
      using 2(2) False dig c by (auto split: if_splits)
    have ih: "decimal (unat out * 10 + x) @ cbs = decimal (unat v) @ (if t = [] then [] else ch_dot # t)"
      using 2(1) rec False dig 2(2) c un by (auto split: if_splits)
    show ?thesis
    proof (cases seen)
      case True
      with dig have "unat out \<noteq> 0" by (simp add: word_unat_eq_iff)
      then show ?thesis using ih True x decimal_snoc [of "unat out" x] by simp
    next
      case False
      then show ?thesis using ih 2(3) x by (simp add: decimal.simps [of x])
    qed
  qed
qed (auto split: if_splits)

lemma parse_dotted_decimal_iff:
  "parse_dotted_decimal s = (Some v, t) \<longleftrightarrow> s = decimal (unat v) @ (if t = [] then [] else ch_dot # t)"
proof
  assume "parse_dotted_decimal s = (Some v, t)"
  then show "s = decimal (unat v) @ (if t = [] then [] else ch_dot # t)"
    using parse_dotted_loop_Some [of 0 False s v t] by (simp add: parse_dotted_decimal_def)
next
  assume s: "s = decimal (unat v) @ (if t = [] then [] else ch_dot # t)"
  have "unat v < 2 ^ 64" using unsigned_less [of v, where 'a = nat] by simp
  then show "parse_dotted_decimal s = (Some v, t)"
    unfolding s parse_dotted_decimal_def by (simp add: parse_dotted_decimal_loop ch_dot_def)
qed


section \<open>Lemmas: object identifiers\<close>

fun oid_text :: "nat list \<Rightarrow> bytes" where
  "oid_text [] = []"
| "oid_text [c] = decimal c"
| "oid_text (c # cs) = decimal c @ ch_dot # oid_text cs"

definition oid_der :: "nat list \<Rightarrow> bytes" where
  "oid_der cs = (case cs of a # b # cs \<Rightarrow> b128 (40 * a + b) @ concat (map b128 cs) | _ \<Rightarrow> [])"

definition oid_valid :: "nat list \<Rightarrow> bool" where
  "oid_valid cs = (case cs of
     a # b # cs \<Rightarrow> a \<le> 2 \<and> (a < 2 \<longrightarrow> b \<le> 39) \<and> 40 * a + b < 2 ^ 64 \<and> (\<forall>c\<in>set cs. c < 2 ^ 64)
   | _ \<Rightarrow> False)"

definition oid_tail :: "nat list \<Rightarrow> bytes" where
  "oid_tail cs = concat (map (\<lambda>c. ch_dot # decimal c) cs)"

lemma oid_text_tail: "oid_text (c # cs) = decimal c @ oid_tail cs"
  by (induction cs arbitrary: c) (auto simp: oid_tail_def)

lemma oid_text_nonempty: "cs \<noteq> [] \<Longrightarrow> oid_text cs \<noteq> []"
  by (cases cs) (auto simp: oid_text_tail)

lemma parse_dotted_oid:
  "c < 2 ^ 64 \<Longrightarrow> parse_dotted_decimal (oid_text (c # cs)) = (Some (of_nat c), oid_text cs)"
  unfolding parse_dotted_decimal_iff by (cases cs) (auto simp: unat_of_nat oid_text_nonempty)

lemma parse_dotted_oid_Some:
  "parse_dotted_decimal s = (Some v, t) \<Longrightarrow> t = oid_text cs \<Longrightarrow> s = oid_text (unat v # cs)"
  unfolding parse_dotted_decimal_iff by (cases cs) (auto simp: oid_text_nonempty)

lemma add_oid_rest_writer:
  "\<forall>c\<in>set cs. c < 2 ^ 64 \<Longrightarrow> cbb_leaf_writer (\<lambda>d. add_oid_rest E d (oid_text cs)) (concat (map b128 cs))"
proof (induction cs)
  case Nil
  show ?case by (simp add: add_oid_rest.simps skip.cbb_leaf_writer_axioms)
next
  case (Cons c cs)
  then have c: "c < 2 ^ 64" and un: "unat (of_nat c :: u64) = c" by (simp_all add: unat_of_nat)
  have "add_oid_rest E d (oid_text (c # cs)) = andalso (add_base128_integer E d (of_nat c)) (add_oid_rest E d (oid_text cs))" for d
    using oid_text_nonempty [of "c # cs"] by (subst add_oid_rest.simps) (simp add: parse_dotted_oid [OF c])
  then show ?case
    using leaf_andalso [OF writer_leaf [OF add_base128_writer [of E "of_nat c"]] Cons.IH] Cons.prems by (simp add: un)
qed

lemma add_oid_rest_True:
  "add_oid_rest E d s st = (True, st') \<Longrightarrow> \<exists>cs. s = oid_text cs \<and> (\<forall>c\<in>set cs. c < 2 ^ 64)"
proof (induction E d s arbitrary: st rule: add_oid_rest.induct)
  case (1 E d s)
  show ?case
  proof (cases "s = []")
    case True
    then show ?thesis by (intro exI [of _ "[]"]) simp
  next
    case False
    with "1.prems" obtain v t where p: "parse_dotted_decimal s = (Some v, t)"
      by (subst (asm) add_oid_rest.simps) (auto split: prod.splits option.splits)
    with "1.prems" False obtain st1 where "add_oid_rest E d t st1 = (True, st')"
      by (subst (asm) add_oid_rest.simps) (auto simp: andalso_def split: prod.splits bool.splits)
    with 1(1) [OF _ p [symmetric] refl] False obtain cs where "t = oid_text cs" "\<forall>c\<in>set cs. c < 2 ^ 64" by auto
    then show ?thesis
      using parse_dotted_oid_Some [OF p] unsigned_less [of v, where 'a = nat] by (intro exI [of _ "unat v # cs"]) auto
  qed
qed

lemma oid_guard:
  "(a > (2 :: u64) \<or> (a < 2 \<and> b > 39) \<or> b > (- 1) - (80 :: u64)) = (\<not> (unat a \<le> 2 \<and> (unat a < 2 \<longrightarrow> unat b \<le> 39) \<and> unat b + 80 < 2 ^ 64))"
proof -
  have "unat ((- 1) - (80 :: u64)) = 18446744073709551535" by simp
  then show ?thesis by (auto simp: word_less_nat_alt)
qed

lemma oid_first: "unat a \<le> 2 \<Longrightarrow> unat b + 80 < 2 ^ 64 \<Longrightarrow> unat (40 * a + b :: u64) = 40 * unat a + unat b"
  by (simp add: unat_word_ariths)


lemma oid_from_text_writer:
  assumes "oid_valid cs"
  shows "cbb_writer (\<lambda>d. CBB_add_asn1_oid_from_text E d (oid_text cs)) (oid_der cs)"
proof -
  obtain a b r where cs: "cs = a # b # r" and v: "a \<le> 2" "a < 2 \<longrightarrow> b \<le> 39" "40 * a + b < 2 ^ 64" "\<forall>c\<in>set r. c < 2 ^ 64"
    using assms by (auto simp: oid_valid_def split: list.splits)
  have u: "unat (of_nat a :: u64) = a" "unat (of_nat b :: u64) = b" using v by (simp_all add: unat_of_nat)
  have b80: "b + 80 < 2 ^ 64" using v(1-3) by (cases "a = 2") auto
  have g: "\<not> (of_nat a > (2::u64) \<or> (of_nat a < (2::u64) \<and> of_nat b > (39::u64)) \<or> of_nat b > (- 1) - (80 :: u64))"
    unfolding oid_guard u using v b80 by simp
  have sm: "unat (40 * of_nat a + of_nat b :: u64) = 40 * a + b"
    using oid_first [of "of_nat a" "of_nat b"] v b80 u by simp
  have ab: "a < 2 ^ 64" "b < 2 ^ 64" using v by simp_all
  have eq: "CBB_add_asn1_oid_from_text E d (oid_text cs) =
      andalso (CBB_flush E d) (andalso (add_base128_integer E d (40 * of_nat a + of_nat b)) (add_oid_rest E d (oid_text r)))" for d
    unfolding CBB_add_asn1_oid_from_text_def cs parse_dotted_oid [OF ab(1)] prod.case option.case parse_dotted_oid [OF ab(2)]
    by (simp only: g if_False)
  have w: "cbb_leaf_writer (\<lambda>d. andalso (add_base128_integer E d (40 * of_nat a + of_nat b)) (add_oid_rest E d (oid_text r))) (oid_der cs)"
    using leaf_andalso [OF writer_leaf [OF add_base128_writer [of E "40 * of_nat a + of_nat b"]] add_oid_rest_writer [OF v(4)]]
    by (simp add: sm oid_der_def cs)
  show ?thesis unfolding eq using flush_then_leaf [OF w] .
qed

lemma oid_from_text_True:
  assumes "CBB_add_asn1_oid_from_text E d s st = (True, st')"
  shows "\<exists>cs. s = oid_text cs \<and> oid_valid cs"
proof -
  obtain a t where a: "parse_dotted_decimal s = (Some a, t)"
    using assms by (auto simp: CBB_add_asn1_oid_from_text_def andalso_def split: prod.splits bool.splits option.splits)
  obtain b t2 where b: "parse_dotted_decimal t = (Some b, t2)"
    using assms a by (auto simp: CBB_add_asn1_oid_from_text_def andalso_def split: prod.splits bool.splits option.splits)
  have v: "unat a \<le> 2 \<and> (unat a < 2 \<longrightarrow> unat b \<le> 39) \<and> unat b + 80 < 2 ^ 64"
    and "\<exists>st1. add_oid_rest E d t2 st1 = (True, st')"
    using assms a b unfolding CBB_add_asn1_oid_from_text_def oid_guard
    by (auto simp: andalso_def split: prod.splits bool.splits if_splits)
  then obtain cs where cs: "t2 = oid_text cs" "\<forall>c\<in>set cs. c < 2 ^ 64" using add_oid_rest_True by blast
  have "s = oid_text (unat a # unat b # cs)"
    using parse_dotted_oid_Some [OF a parse_dotted_oid_Some [OF b cs(1)]] .
  moreover have "oid_valid (unat a # unat b # cs)" using v cs(2) by (auto simp: oid_valid_def)
  ultimately show ?thesis by blast
qed


text \<open>The text of an encoded identifier.\<close>

lemma length_decimal: "n < 10 ^ Suc k \<Longrightarrow> length (decimal n) \<le> Suc k"
proof (induction k arbitrary: n)
  case 0
  then show ?case by (subst decimal.simps) simp
next
  case (Suc k)
  have "n div 10 < 10 ^ Suc k" using Suc.prems by (intro less_mult_imp_div_less) simp
  then show ?case using Suc.IH [of "n div 10"] by (subst decimal.simps) simp
qed

lemma add_decimal_writer: "cbb_leaf_writer (\<lambda>d. add_decimal E d v) (decimal (unat v))"
proof -
  have "length (decimal (unat v)) \<le> Suc 19"
    using unsigned_less [of v, where 'a = nat] by (intro length_decimal) simp
  then show ?thesis unfolding add_decimal_def by (intro writer_leaf add_bytes_writer) simp
qed

lemma oid_text_rest_writer:
  "\<forall>c\<in>set cs. c < 2 ^ 64 \<Longrightarrow> cbb_leaf_writer (\<lambda>d. oid_text_rest E d (concat (map b128 cs))) (oid_tail cs)"
proof (induction cs)
  case Nil
  show ?case by (simp add: oid_text_rest.simps skip.cbb_leaf_writer_axioms oid_tail_def)
next
  case (Cons c cs)
  then have c: "c < 2 ^ 64" and un: "unat (of_nat c :: u64) = c" by (simp_all add: unat_of_nat)
  have p: "parse_base128_integer (b128 c @ concat (map b128 cs)) = (Some (of_nat c), concat (map b128 cs))"
    using parse_base128_integer_iff un by metis
  have "oid_text_rest E d (concat (map b128 (c # cs))) =
      andalso (CBB_add_u8 E d ch_dot) (andalso (add_decimal E d (of_nat c)) (oid_text_rest E d (concat (map b128 cs))))" for d
    by (subst oid_text_rest.simps) (simp add: p, simp add: b128_def)
  moreover have "cbb_leaf_writer (\<lambda>d. add_decimal E d (of_nat c)) (decimal c)"
    using add_decimal_writer [of E "of_nat c"] by (simp add: un)
  ultimately show ?case
    using leaf_andalso [OF add_u8.cbb_leaf_writer_axioms leaf_andalso [OF _ Cons.IH]] Cons.prems
    by (simp add: oid_tail_def)
qed


lemma oid_to_text_body:
  assumes "oid_valid cs"
  defines "v \<equiv> of_nat (40 * hd cs + cs ! 1) :: u64"
  shows "cbb_leaf_writer (\<lambda>d. if v \<ge> 80
            then andalso (CBB_add_bytes E d [0x32, ch_dot]) (add_decimal E d (v - 80))
            else andalso (add_decimal E d (v div 40)) (andalso (CBB_add_u8 E d ch_dot) (add_decimal E d (v mod 40))))
       (oid_text (take 2 cs))"
proof -
  obtain a b r where cs: "cs = a # b # r" and ab: "a \<le> 2" "a < 2 \<longrightarrow> b \<le> 39" "40 * a + b < 2 ^ 64"
    using assms by (auto simp: oid_valid_def split: list.splits)
  have v: "unat v = 40 * a + b" using ab unfolding v_def unat_of_nat by (simp add: cs)
  have t2: "oid_text (take 2 cs) = decimal a @ ch_dot # decimal b" by (simp add: cs)
  note d = add_decimal_writer
  show ?thesis
  proof (cases "a = 2")
    case True
    have "v \<ge> 80" "unat (v - 80) = b" using v True by (simp_all add: word_le_nat_alt unat_sub)
    then show ?thesis
      using leaf_andalso [OF writer_leaf [OF add_bytes_writer [of "[0x32, ch_dot]" E]] d [of E "v - 80"]]
      unfolding t2 by (simp add: True decimal.simps [of 2])
  next
    case False
    then have "\<not> v \<ge> 80" "unat (v div 40) = a" "unat (v mod 40) = b"
      using v ab by (simp_all add: word_le_nat_alt unat_div unat_mod)
    then show ?thesis
      using leaf_andalso [OF d [of E "v div 40"] leaf_andalso [OF add_u8.cbb_leaf_writer_axioms [of E ch_dot] d [of E "v mod 40"]]]
      unfolding t2 by simp
  qed
qed

lemma oid_text_rest_True:
  "oid_text_rest E d s st = (True, st') \<Longrightarrow> \<exists>cs. s = concat (map b128 cs) \<and> (\<forall>c\<in>set cs. c < 2 ^ 64)"
proof (induction E d s arbitrary: st rule: oid_text_rest.induct)
  case (1 E d s)
  show ?case
  proof (cases "s = []")
    case True
    then show ?thesis by (intro exI [of _ "[]"]) simp
  next
    case False
    with "1.prems" obtain v t where p: "parse_base128_integer s = (Some v, t)"
      by (subst (asm) oid_text_rest.simps) (auto split: prod.splits option.splits)
    with "1.prems" False obtain st1 where "oid_text_rest E d t st1 = (True, st')"
      by (subst (asm) oid_text_rest.simps) (auto simp: andalso_def split: prod.splits bool.splits)
    with 1(1) [OF _ p [symmetric] refl] False obtain cs where "t = concat (map b128 cs)" "\<forall>c\<in>set cs. c < 2 ^ 64" by auto
    then show ?thesis
      using p unsigned_less [of v, where 'a = nat] by (intro exI [of _ "unat v # cs"]) (auto simp: parse_base128_integer_iff)
  qed
qed


lemma decimal_zero_free: "0 \<notin> set (decimal n)"
proof (induction n rule: decimal.induct)
  case (1 n)
  have z: "x < 10 \<Longrightarrow> (of_nat (0x30 + x) :: u8) \<noteq> 0" for x
    unfolding word_unat_eq_iff by (simp only: digit_char(2)) simp
  show ?case
  proof (cases "n < 10")
    case True
    with z [of n] show ?thesis by (subst decimal.simps) (auto simp del: of_nat_add)
  next
    case False
    with 1 z [of "n mod 10"] show ?thesis by (subst decimal.simps) (auto simp del: of_nat_add)
  qed
qed

lemma oid_text_zero_free: "0 \<notin> set (oid_text cs)"
  by (induction cs rule: oid_text.induct) (auto simp: decimal_zero_free ch_dot_def)

lemma c_str_prefix: "0 \<notin> set xs \<Longrightarrow> take (length xs + 1) bf = xs @ [0] \<Longrightarrow> c_str bf = xs"
proof -
  assume "0 \<notin> set xs" "take (length xs + 1) bf = xs @ [0]"
  then have "bf = xs @ 0 # drop (length xs + 1) bf" by (metis append.assoc append_Cons append_Nil append_take_drop_id)
  moreover have "takeWhile (\<lambda>c. c \<noteq> 0) (xs @ 0 # ys) = xs" for ys
    using \<open>0 \<notin> set xs\<close> by (subst takeWhile_append2) auto
  ultimately show ?thesis unfolding c_str_def by metis
qed

definition oid_text_op :: "alloc_env \<Rightarrow> nat \<Rightarrow> u64 \<Rightarrow> bytes \<Rightarrow> cbb_op" where
  "oid_text_op E d v copy =
     andalso (if v \<ge> 80
              then andalso (CBB_add_bytes E d [0x32, ch_dot]) (add_decimal E d (v - 80))
              else andalso (add_decimal E d (v div 40)) (andalso (CBB_add_u8 E d ch_dot) (add_decimal E d (v mod 40))))
       (andalso (oid_text_rest E d copy) (CBB_add_u8 E d 0))"

lemma oid_text_op_writer:
  assumes "oid_valid cs"
  shows "cbb_leaf_writer (\<lambda>d. oid_text_op E d (of_nat (40 * hd cs + cs ! 1)) (concat (map b128 (drop 2 cs)))) (oid_text cs @ [0])"
proof -
  obtain a b r where cs: "cs = a # b # r" and r: "\<forall>c\<in>set r. c < 2 ^ 64"
    using assms by (auto simp: oid_valid_def split: list.splits)
  have t: "oid_text (take 2 cs) @ oid_tail r @ [0] = oid_text cs @ [0]" and d: "drop 2 cs = r"
    by (simp_all add: cs oid_text_tail) (simp add: oid_tail_def)
  show ?thesis unfolding oid_text_op_def d t [symmetric]
    by (intro leaf_andalso oid_to_text_body [OF assms] oid_text_rest_writer [OF r] add_u8.cbb_leaf_writer_axioms)
qed

lemma oid_to_text_unfold:
  "CBS_asn1_oid_to_text E s = Some txt \<longleftrightarrow>
     (\<exists>st v copy st' len st''. CBB_init E 32 = (True, st) \<and> parse_base128_integer s = (Some v, copy)
        \<and> oid_text_op E 0 v copy st = (True, st') \<and> CBB_finish E 0 True True st' = (Some (txt, len), st''))"
proof -
  have "fst p = Some y \<longleftrightarrow> (\<exists>z. p = (Some y, z))" for p :: "(bytes \<times> nat) option \<times> cbb_st" and y
    by (cases p) auto
  then show ?thesis
    unfolding CBS_asn1_oid_to_text_def oid_text_op_def [symmetric]
    by (auto split: prod.splits bool.splits option.splits)
qed

lemma oid_to_text_Some:
  assumes "CBS_asn1_oid_to_text E s = Some txt"
  shows "\<exists>cs. oid_valid cs \<and> s = oid_der cs \<and> c_str txt = oid_text cs"
proof -
  obtain st v copy st' len st'' where i: "CBB_init E 32 = (True, st)" and p: "parse_base128_integer s = (Some v, copy)"
    and w: "oid_text_op E 0 v copy st = (True, st')" and f: "CBB_finish E 0 True True st' = (Some (txt, len), st'')"
    using assms unfolding oid_to_text_unfold by blast
  obtain st1 st2 where "oid_text_rest E 0 copy st1 = (True, st2)"
    using w by (auto simp: oid_text_op_def andalso_def split: prod.splits bool.splits)
  then obtain r where r: "copy = concat (map b128 r)" "\<forall>c\<in>set r. c < 2 ^ 64" using oid_text_rest_True by blast
  define a where "a = (if unat v \<ge> 80 then 2 else unat v div 40)"
  define cs where "cs = a # (unat v - 40 * a) # r"
  have v: "40 * a + (unat v - 40 * a) = unat v" by (auto simp: a_def)
  have cs: "oid_valid cs" "s = oid_der cs" "v = of_nat (40 * hd cs + cs ! 1)" "copy = concat (map b128 (drop 2 cs))"
    using r p unsigned_less [of v, where 'a = nat] v
    by (auto simp: cs_def oid_valid_def oid_der_def parse_base128_integer_iff a_def)
  note ok = CBB_init_True [OF i]
  note wr = cbb_leaf_writer.leaf_step [OF oid_text_op_writer [OF cs(1)]]
  have w: "written 0 st (oid_text cs @ [0]) st'" using wr [of st 0 E True st'] ok w cs(3,4) by simp
  then have "flushed 0 st' = oid_text cs @ [0]" using ok by (simp add: written_def flushed_leaf)
  then have "take (length (oid_text cs) + 1) txt = oid_text cs @ [0]"
    using CBB_finish_Some [OF _ f] w by (simp add: written_def)
  then show ?thesis using cs c_str_prefix oid_text_zero_free by blast
qed

text \<open>When no allocation fails the text is produced, however often its buffer has to grow.\<close>

lemma add_decimal_grows: "no_failures E \<Longrightarrow> grows (\<lambda>d. add_decimal E d v) (decimal (unat v))"
proof -
  have "length (decimal (unat v)) \<le> Suc 19" using unsigned_less [of v, where 'a = nat] by (intro length_decimal) simp
  then show "no_failures E \<Longrightarrow> ?thesis" unfolding add_decimal_def by (intro add_bytes_grows) simp_all
qed

lemma oid_text_rest_grows:
  assumes "no_failures E"
  shows "\<forall>c\<in>set cs. c < 2 ^ 64 \<Longrightarrow> grows (\<lambda>d. oid_text_rest E d (concat (map b128 cs))) (oid_tail cs)"
proof (induction cs)
  case Nil
  show ?case by (simp add: oid_text_rest.simps grows_skip oid_tail_def)
next
  case (Cons c cs)
  then have un: "unat (of_nat c :: u64) = c" by (simp add: unat_of_nat)
  have "grows (\<lambda>d. andalso (CBB_add_u8 E d ch_dot) (andalso (add_decimal E d (of_nat c)) (oid_text_rest E d (concat (map b128 cs)))))
      ([ch_dot] @ decimal c @ oid_tail cs)"
    using grows_andalso [OF add_u8_grows [OF assms, of ch_dot] grows_andalso [OF add_decimal_grows [OF assms, of "of_nat c"] Cons.IH]] Cons.prems un by simp
  moreover have "parse_base128_integer (b128 c @ concat (map b128 cs)) = (Some (of_nat c), concat (map b128 cs))"
    using parse_base128_integer_iff un by metis
  then have "oid_text_rest E d (concat (map b128 (c # cs))) =
      andalso (CBB_add_u8 E d ch_dot) (andalso (add_decimal E d (of_nat c)) (oid_text_rest E d (concat (map b128 cs))))" for d
    by (subst oid_text_rest.simps) (simp, simp add: b128_def)
  ultimately show ?case by (simp add: oid_tail_def)
qed

lemma oid_text_op_grows:
  assumes "no_failures E" and "oid_valid cs"
  shows "grows (\<lambda>d. oid_text_op E d (of_nat (40 * hd cs + cs ! 1)) (concat (map b128 (drop 2 cs)))) (oid_text cs @ [0])"
proof -
  obtain a b r where cs: "cs = a # b # r" and r: "\<forall>c\<in>set r. c < 2 ^ 64" and ab: "a \<le> 2" "a < 2 \<longrightarrow> b \<le> 39" "40 * a + b < 2 ^ 64"
    using assms(2) by (auto simp: oid_valid_def split: list.splits)
  define v where "v = (of_nat (40 * hd cs + cs ! 1) :: u64)"
  have v: "unat v = 40 * a + b" using ab unfolding v_def unat_of_nat by (simp add: cs)
  note d = add_decimal_grows [OF assms(1)]
  have "grows (\<lambda>d. if v \<ge> 80 then andalso (CBB_add_bytes E d [0x32, ch_dot]) (add_decimal E d (v - 80))
      else andalso (add_decimal E d (v div 40)) (andalso (CBB_add_u8 E d ch_dot) (add_decimal E d (v mod 40)))) (decimal a @ ch_dot # decimal b)"
  proof (cases "a = 2")
    case True
    have "v \<ge> 80" "unat (v - 80) = b" using v True by (simp_all add: word_le_nat_alt unat_sub)
    then show ?thesis using grows_andalso [OF add_bytes_grows [OF assms(1), of "[0x32, ch_dot]"] d [of "v - 80"]] by (simp add: True decimal.simps [of 2])
  next
    case False
    then have "\<not> v \<ge> 80" "unat (v div 40) = a" "unat (v mod 40) = b" using v ab by (simp_all add: word_le_nat_alt unat_div unat_mod)
    then show ?thesis
      using grows_andalso [OF d [of "v div 40"] grows_andalso [OF add_u8_grows [OF assms(1), of ch_dot] d [of "v mod 40"]]] by simp
  qed
  from grows_andalso [OF this grows_andalso [OF oid_text_rest_grows [OF assms(1) r] add_u8_grows [OF assms(1), of 0]]]
  have "grows (\<lambda>d. oid_text_op E d v (concat (map b128 r))) ((decimal a @ ch_dot # decimal b) @ oid_tail r @ [0])" unfolding oid_text_op_def .
  moreover have "(decimal a @ ch_dot # decimal b) @ oid_tail r @ [0] = oid_text cs @ [0]" by (simp add: cs oid_text_tail) (simp add: oid_tail_def)
  moreover have "drop 2 cs = r" by (simp add: cs)
  ultimately show ?thesis unfolding v_def [symmetric] by metis
qed

lemma oid_to_text_grows:
  assumes "no_failures E" and cs: "oid_valid cs" and len: "length (oid_text cs) < 2 ^ 61"
  shows "\<exists>txt. CBS_asn1_oid_to_text E (oid_der cs) = Some txt"
proof -
  obtain a b r where c: "cs = a # b # r" "40 * a + b < 2 ^ 64"
    using cs by (auto simp: oid_valid_def split: list.splits)
  let ?v = "of_nat (40 * hd cs + cs ! 1) :: u64"
  have "unat ?v = 40 * a + b" using c unfolding unat_of_nat by simp
  then have p: "parse_base128_integer (oid_der cs) = (Some ?v, concat (map b128 (drop 2 cs)))"
    unfolding parse_base128_integer_iff by (simp only:) (simp add: c oid_der_def)
  obtain st where i: "CBB_init E 32 = (True, st)" "growable 16 st"
    using assms(1) by (simp add: CBB_init_def cbb_init_def OPENSSL_malloc_def no_failures_def sizeof_cbb_buffer_st_def size_add_def OPENSSL_MALLOC_PREFIX_def
        growable_def ccap_def CBB_zero_def)
  note ok = CBB_init_True [OF i(1)]
  let ?L = "max 16 (length (oid_text cs) + 1)"
  have L: "growable ?L st" "?L \<le> 2 ^ 61" using i(2) len by (auto simp: growable_def)
  obtain r st1 where w: "oid_text_op E 0 ?v (concat (map b128 (drop 2 cs))) st = (r, st1)" by fastforce
  have "r" "written 0 st (oid_text cs @ [0]) st1"
    using growsD(1,3) [OF oid_text_op_grows [OF assms(1) cs] L(2) _ _ L(1), of r st1] ok w by simp_all
  then obtain bf n st2 where "CBB_finish E 0 True True st1 = (Some (bf, n), st2)"
    using CBB_finish_leaf [of st1 E] ok by (auto simp: written_def)
  with w \<open>r\<close> p i show ?thesis unfolding oid_to_text_unfold by (simp only:) blast
qed

text \<open>Different components have different encodings.\<close>

lemma b128_cancel:
  assumes "a < 2 ^ 64" "b < 2 ^ 64" "b128 a @ s = b128 b @ t"
  shows "a = b \<and> s = t"
proof -
  have u: "unat (of_nat a :: u64) = a" "unat (of_nat b :: u64) = b" using assms(1,2) by (simp_all add: unat_of_nat)
  have "parse_base128_integer (b128 a @ s) = (Some (of_nat a), s)" "parse_base128_integer (b128 b @ t) = (Some (of_nat b), t)"
    by (simp_all add: parse_base128_integer_iff u)
  then show ?thesis using assms(3) u by (metis option.inject prod.inject)
qed

lemma concat_b128_inj:
  "\<forall>c \<in> set cs. c < 2 ^ 64 \<Longrightarrow> \<forall>c \<in> set ds. c < 2 ^ 64 \<Longrightarrow> concat (map b128 cs) = concat (map b128 ds) \<Longrightarrow> cs = ds"
proof (induction cs arbitrary: ds)
  case Nil
  then show ?case by (cases ds) (auto simp: b128_def)
next
  case (Cons c cs)
  then obtain d ds' where ds: "ds = d # ds'" by (cases ds) (auto simp: b128_def)
  have "b128 c @ concat (map b128 cs) = b128 d @ concat (map b128 ds')" using Cons.prems(3) ds by simp
  then have "c = d \<and> concat (map b128 cs) = concat (map b128 ds')" using Cons.prems(1,2) ds by (intro b128_cancel) simp_all
  then show ?case using Cons.IH [of ds'] Cons.prems(1,2) ds by simp
qed

lemma oid_der_inj:
  assumes "oid_valid cs" "oid_valid cs'" "oid_der cs = oid_der cs'"
  shows "cs = cs'"
proof -
  obtain a b r a' b' r' where c: "cs = a # b # r" "cs' = a' # b' # r'"
    using assms(1,2) by (auto simp: oid_valid_def split: list.splits)
  have v: "40 * a + b < 2 ^ 64" "40 * a' + b' < 2 ^ 64" "\<forall>c \<in> set r. c < 2 ^ 64" "\<forall>c \<in> set r'. c < 2 ^ 64"
    "a \<le> 2" "a' \<le> 2" "a < 2 \<longrightarrow> b \<le> 39" "a' < 2 \<longrightarrow> b' \<le> 39"
    using assms(1,2) by (auto simp: oid_valid_def c)
  have e: "40 * a + b = 40 * a' + b'" "concat (map b128 r) = concat (map b128 r')"
    using b128_cancel [OF v(1,2)] assms(3) by (auto simp: oid_der_def c)
  have "a = a'" using e(1) v(5-8) by linarith
  moreover have "r = r'" using concat_b128_inj [OF v(3,4) e(2)] .
  ultimately show ?thesis using e(1) c by simp
qed

end
