(* ===== verification/Sorting.thy ===== *)
theory Sorting
  imports Main "HOL-Library.Multiset"
begin

text \<open>
  The C library's \<^verbatim>\<open>qsort\<close> and the contract of the comparison functions it is given
  (\<open>comparator\<close>): sorting gives an ordered permutation, and when the comparison is zero only on
  equal elements there is only one.
\<close>

fun qsort_insert :: "('a \<Rightarrow> 'a \<Rightarrow> int) \<Rightarrow> 'a \<Rightarrow> 'a list \<Rightarrow> 'a list" where
  "qsort_insert cmp x [] = [x]"
| "qsort_insert cmp x (y # ys) = (if cmp x y \<le> 0 then x # y # ys else y # qsort_insert cmp x ys)"

definition qsort :: "('a \<Rightarrow> 'a \<Rightarrow> int) \<Rightarrow> 'a list \<Rightarrow> 'a list" where
  "qsort cmp xs = foldr (qsort_insert cmp) xs []"

abbreviation ordered :: "('a \<Rightarrow> 'a \<Rightarrow> int) \<Rightarrow> 'a list \<Rightarrow> bool" where
  "ordered cmp \<equiv> sorted_wrt (\<lambda>x y. cmp x y \<le> 0)"

lemma mset_qsort_insert [simp]: "mset (qsort_insert cmp x ys) = add_mset x (mset ys)"
  by (induction ys) auto

lemma set_qsort_insert [simp]: "set (qsort_insert cmp x ys) = insert x (set ys)"
  by (induction ys) auto

lemma mset_qsort [simp]: "mset (qsort cmp xs) = mset xs"
  by (induction xs) (simp_all add: qsort_def)

lemma set_qsort [simp]: "set (qsort cmp xs) = set xs"
  using mset_qsort [of cmp xs] by (metis set_mset_mset)

lemma length_qsort [simp]: "length (qsort cmp xs) = length xs"
  using mset_qsort [of cmp xs] by (metis size_mset)

lemma qsort_short: "length xs < 2 \<Longrightarrow> qsort cmp xs = xs"
  by (cases xs) (auto simp: qsort_def)

locale comparator =
  fixes cmp :: "'a \<Rightarrow> 'a \<Rightarrow> int"
  assumes flip: "cmp x y < 0 \<longleftrightarrow> 0 < cmp y x"
    and trans: "cmp x y \<le> 0 \<Longrightarrow> cmp y z \<le> 0 \<Longrightarrow> cmp x z \<le> 0"
begin

lemma refl: "cmp x x = 0"
  using flip [of x x] by linarith

lemma zero_sym: "cmp x y = 0 \<longleftrightarrow> cmp y x = 0"
  using flip [of x y] flip [of y x] by linarith

lemma total: "\<not> cmp x y \<le> 0 \<Longrightarrow> cmp y x \<le> 0"
  using flip [of y x] by linarith

lemma sorted_insert: "ordered cmp ys \<Longrightarrow> ordered cmp (qsort_insert cmp x ys)"
  by (induction ys) (auto intro: trans total)

lemma sorted_qsort: "ordered cmp (qsort cmp xs)"
  by (induction xs) (simp_all add: qsort_def sorted_insert)

lemma sorted_unique:
  assumes zero: "\<And>x y. cmp x y = 0 \<Longrightarrow> x = y"
  shows "ordered cmp xs \<Longrightarrow> ordered cmp ys \<Longrightarrow> mset xs = mset ys \<Longrightarrow> xs = ys"
proof (induction xs arbitrary: ys)
  case (Cons x xs)
  then obtain y ys' where ys: "ys = y # ys'" by (cases ys) auto
  have "cmp x y \<le> 0"
  proof (cases "x = y")
    case False
    then have "y \<in> set xs" using Cons.prems(3) ys by (metis mset_eq_setD list.set_intros(1) set_ConsD)
    then show ?thesis using Cons.prems(1) by simp
  qed (simp add: refl)
  moreover have "cmp y x \<le> 0"
  proof (cases "x = y")
    case False
    then have "x \<in> set ys'" using Cons.prems(3) ys by (metis mset_eq_setD list.set_intros(1) set_ConsD)
    then show ?thesis using Cons.prems(2) ys by simp
  qed (simp add: refl)
  ultimately have "x = y" using flip [of x y] flip [of y x] by (intro zero) linarith
  with Cons ys show ?case by simp
qed simp

end

end
