(* ===== verification/SetOf.thy ===== *)
theory SetOf
  imports OID Sorting
begin

unbundle bit_operations_syntax

text \<open>
  \<^verbatim>\<open>CBB_flush_asn1_set_of\<close> of \<^verbatim>\<open>cbb.c\<close>, which puts the elements of a SET OF in DER order, and
  \<^verbatim>\<open>CBB_finish_i2d\<close> of \<^verbatim>\<open>asn1_compat.c\<close>.
\<close>

section \<open>SET OF\<close>

text \<open>
  \<^verbatim>\<open>OPENSSL_memcmp\<close> of equally long strings (the C library's \<^verbatim>\<open>memcmp\<close>, by its sign).
\<close>

fun memcmp :: "bytes \<Rightarrow> bytes \<Rightarrow> int" where
  "memcmp (a # as) (b # bs) = (if a = b then memcmp as bs else if a < b then - 1 else 1)"
| "memcmp _ _ = 0"

definition compare_set_of_element :: "bytes \<Rightarrow> bytes \<Rightarrow> int" where
  "compare_set_of_element a b =
     (let a_len = length a; b_len = length b;
          min_len = (if a_len < b_len then a_len else b_len);
          ret = memcmp (take min_len a) (take min_len b)
      in if ret \<noteq> 0 then ret
         else if a_len = b_len then 0
         else if a_len < b_len then - 1 else 1)"

lemma element_shorter: "CBS_get_any_asn1_element cbs = (Some el, t) \<Longrightarrow> length t < length cbs"
  using CBS_get_any_asn1_element_iff [of cbs el t] by (auto simp: der_element_def)

text \<open>
  The elements of a string, \<open>None\<close> when it is not a sequence of elements: the counting loop and
  the loop that fills \<^verbatim>\<open>children\<close> run over the same bytes.
\<close>

function get_elements :: "bytes \<Rightarrow> bytes list option" where
  "get_elements cbs =
     (if length cbs \<noteq> 0 then
        case CBS_get_any_asn1_element cbs of
          (None, _) \<Rightarrow> None
        | (Some el, cbs') \<Rightarrow> map_option ((#) (el_out el)) (get_elements cbs')
      else Some [])"
  by pat_completeness auto
termination
  by (relation "measure length") (auto dest!: sym [of "(_, _)"] element_shorter)

declare get_elements.simps [simp del]

definition sizeof_CBS :: nat where
  "sizeof_CBS = 16"

fun add_all_bytes :: "alloc_env \<Rightarrow> nat \<Rightarrow> bytes list \<Rightarrow> cbb_op" where
  "add_all_bytes E d [] = (\<lambda>st. (True, st))"
| "add_all_bytes E d (c # cs) = andalso (CBB_add_bytes E d c) (add_all_bytes E d cs)"

definition CBB_flush_asn1_set_of :: "alloc_env \<Rightarrow> nat \<Rightarrow> cbb_op" where
  "CBB_flush_asn1_set_of E d =
     andalso (CBB_flush E d) (\<lambda>cbb.
       let contents = take (CBB_len d cbb) (CBB_data d cbb) in
       case get_elements contents of
         None \<Rightarrow> (False, cbb)
       | Some children \<Rightarrow>
           (let num_children = length children in
            if num_children < 2 then (True, cbb)
            else if num_children > (2 ^ 64 - 1) div sizeof_CBS then (False, cbb)
            else
              case (OPENSSL_memdup E contents, OPENSSL_malloc E (num_children * sizeof_CBS)) of
                (Some _, Some _) \<Rightarrow>
                  (let children = qsort compare_set_of_element children;
                       rewind = on_base (\<lambda>b. (True, b\<lparr>blen := cbb_start d cbb\<rparr>))
                   in andalso rewind (add_all_bytes E d children) cbb)
              | _ \<Rightarrow> (False, cbb)))"

section \<open>Legacy i2d output\<close>

text \<open>
  \<^verbatim>\<open>outp\<close>: absent, pointing to a null pointer, or pointing into a buffer at a position.
  The result is the returned \<^verbatim>\<open>int\<close> and the new \<^verbatim>\<open>*outp\<close>.
\<close>

datatype i2d_out = No_out | Null_out | Out_at bytes nat

definition INT_MAX :: nat where
  "INT_MAX = 0x7fffffff"

definition CBB_finish_i2d :: "alloc_env \<Rightarrow> i2d_out \<Rightarrow> cbb_st \<Rightarrow> int \<times> i2d_out" where
  "CBB_finish_i2d E outp cbb =
     (case fst (CBB_finish E 0 True True cbb) of
        None \<Rightarrow> (- 1, outp)
      | Some (der, len) \<Rightarrow>
          if len > INT_MAX then (- 1, outp)
          else (int len,
                (case outp of
                   No_out \<Rightarrow> No_out
                 | Null_out \<Rightarrow> Out_at der 0
                 | Out_at mem pos \<Rightarrow> Out_at (write_at pos (take len der) mem) (pos + len))))"

lemma memcmp_take:
  "compare_set_of_element [] [] = 0" "compare_set_of_element [] (b # bs) = - 1" "compare_set_of_element (a # as) [] = 1"
  "compare_set_of_element (a # as) (b # bs) = (if a = b then compare_set_of_element as bs else if a < b then - 1 else 1)"
  by (simp_all add: compare_set_of_element_def Let_def)

lemma compare_le_iff: "compare_set_of_element a b \<le> 0 \<longleftrightarrow> lexordp_eq a b"
proof (induction a arbitrary: b)
  case Nil
  then show ?case by (cases b) (simp_all add: memcmp_take)
next
  case (Cons x a)
  then show ?case by (cases b) (auto simp: memcmp_take)
qed

lemma compare_eq_iff: "compare_set_of_element a b = 0 \<longleftrightarrow> a = b"
proof (induction a arbitrary: b)
  case Nil
  then show ?case by (cases b) (simp_all add: memcmp_take)
next
  case (Cons x a)
  then show ?case by (cases b) (auto simp: memcmp_take)
qed

interpretation set_of_order: comparator compare_set_of_element
proof
  fix x y z :: bytes
  show "compare_set_of_element x y < 0 \<longleftrightarrow> 0 < compare_set_of_element y x"
  proof (induction x arbitrary: y)
    case Nil
    then show ?case by (cases y) (simp_all add: memcmp_take)
  next
    case (Cons a x)
    then show ?case by (cases y) (auto simp: memcmp_take)
  qed
  show "compare_set_of_element x y \<le> 0 \<Longrightarrow> compare_set_of_element y z \<le> 0 \<Longrightarrow> compare_set_of_element x z \<le> 0"
    unfolding compare_le_iff by (rule lexordp_eq_trans)
qed

definition is_der :: "bytes \<Rightarrow> bool" where
  "is_der e \<longleftrightarrow> (\<exists>tag c. length c < 2 ^ 32 \<and> e = der_element tag c)"

lemma get_elements_Some: "get_elements s = Some es \<Longrightarrow> s = concat es \<and> (\<forall>e\<in>set es. is_der e)"
proof (induction s arbitrary: es rule: get_elements.induct)
  case (1 s)
  show ?case
  proof (cases "s = []")
    case True
    then show ?thesis using "1.prems" by (simp add: get_elements.simps)
  next
    case False
    with "1.prems" obtain el t es' where g: "CBS_get_any_asn1_element s = (Some el, t)"
      "get_elements t = Some es'" "es = el_out el # es'"
      by (subst (asm) get_elements.simps) (auto split: prod.splits option.splits)
    obtain tag c where e: "length c < 2 ^ 32" "s = der_element tag c @ t" "el = der_parsed tag c"
      using g(1) unfolding CBS_get_any_asn1_element_iff by blast
    then have "is_der (el_out el)" unfolding is_der_def by auto
    with g(3) e show ?thesis using 1(1) [OF _ g(1) [symmetric] refl g(2)] False by simp
  qed
qed

lemma get_elements_concat: "\<forall>e\<in>set es. is_der e \<Longrightarrow> get_elements (concat es) = Some es"
proof (induction es)
  case Nil
  show ?case by (simp add: get_elements.simps)
next
  case (Cons e es)
  then obtain tag c where e: "length c < 2 ^ 32" "e = der_element tag c" by (auto simp: is_der_def)
  then have "CBS_get_any_asn1_element (e @ concat es) = (Some (der_parsed tag c), concat es)"
    by (auto simp: CBS_get_any_asn1_element_iff)
  moreover have "e \<noteq> []" using e by (simp add: der_element_def)
  ultimately show ?case using Cons e(2) by (subst get_elements.simps) simp
qed

lemma add_all_bytes_writer:
  "(\<And>e. e \<in> set es \<Longrightarrow> length e < 2 ^ 64) \<Longrightarrow> cbb_leaf_writer (\<lambda>d. add_all_bytes E d es) (concat es)"
proof (induction es)
  case Nil
  show ?case by (simp add: skip.cbb_leaf_writer_axioms)
next
  case (Cons e es)
  then show ?case using leaf_andalso [OF writer_leaf [OF add_bytes_writer [of e E]]] by simp
qed

lemma length_der_element: "length (der_element tag c) \<le> 11 + length c"
  using length_der_tag [of tag] length_der_len [of "length c"] by (simp add: der_element_def)

lemma rewind_ok:
  assumes "cbb_inv st" and "\<not> cbb_error st" and "d = length (chain st)"
    and "on_base (\<lambda>b. (True, b\<lparr>blen := cbb_start d st\<rparr>)) st = (r, st')"
  shows "r" "cbb_inv st'" "\<not> cbb_error st'" "chain st' = chain st" "cdata st' = take (cbb_start d st) (cdata st)"
proof -
  obtain b where b: "base st = Some b" "buf_ok b" "\<not> berror b" "chain_ok 0 (chain st) (blen b)"
    using assms(1,2) by (auto simp: cbb_inv_def cbb_error_def split: option.splits)
  note at = chain_ok_at [OF b(4), of d]
  with assms(3) have le: "cbb_start d st \<le> blen b" by simp
  show "r" "cbb_inv st'" "\<not> cbb_error st'" "chain st' = chain st" "cdata st' = take (cbb_start d st) (cdata st)"
    using assms(3,4) b at(1) le by (auto simp: on_base_def cbb_inv_def cbb_error_def cdata_def buf_ok_def bdata_def min_def)
qed

lemma set_of_contents:
  assumes "cbb_inv st" and "\<not> cbb_error st"
  shows "take (CBB_len d st) (CBB_data d st) = drop (cbb_start d st) (cdata st)"
  using assms by (auto simp: CBB_len_def CBB_data_def cdata_def cbb_inv_def cbb_error_def bdata_def drop_take split: option.splits)

lemma CBB_flush_asn1_set_of_True:
  assumes inv: "cbb_inv st" and d: "d \<le> length (chain st)" and res: "CBB_flush_asn1_set_of E d st = (True, st')"
  shows "\<exists>es. drop (cbb_start d st) (flushed d st) = concat es \<and> (\<forall>e\<in>set es. is_der e)
     \<and> cbb_inv st' \<and> \<not> cbb_error st' \<and> chain st' = take d (chain st)
     \<and> cdata st' = take (cbb_start d st) (flushed d st) @ concat (qsort compare_set_of_element es)"
proof -
  obtain s1 where f: "CBB_flush E d st = (True, s1)"
    using res by (auto simp: CBB_flush_asn1_set_of_def andalso_def split: prod.splits bool.splits)
  have s1: "cbb_inv s1" "\<not> cbb_error s1" "d = length (chain s1)" "chain s1 = take d (chain st)" "cdata s1 = flushed d st"
    using flush.step [OF inv d f] d by (auto simp: written_def)
  have start: "cbb_start d s1 = cbb_start d st" using cbb_start_take [of d d s1 st "[]"] s1(4) d by simp
  note con = set_of_contents [OF s1(1,2), of d, unfolded start s1(5)]
  obtain es where es: "get_elements (drop (cbb_start d st) (flushed d st)) = Some es"
    using res f con by (auto simp: CBB_flush_asn1_set_of_def andalso_def Let_def split: option.splits)
  note ge = get_elements_Some [OF es]
  show ?thesis
  proof (cases "length es < 2")
    case True
    then have "st' = s1" using res f con es by (simp add: CBB_flush_asn1_set_of_def andalso_def)
    with s1 ge qsort_short [OF True] show ?thesis
      by (intro exI [of _ es]) (metis append_take_drop_id)
  next
    case False
    let ?q = "qsort compare_set_of_element es"
    obtain s2 where rw: "on_base (\<lambda>b. (True, b\<lparr>blen := cbb_start d s1\<rparr>)) s1 = (True, s2)"
      and ad: "add_all_bytes E d ?q s2 = (True, st')"
      using res f con es False
      by (auto simp: CBB_flush_asn1_set_of_def andalso_def Let_def split: option.splits if_splits prod.splits bool.splits)
    note r = rewind_ok [OF s1(1-3) rw]
    have len: "e \<in> set ?q \<Longrightarrow> length e < 2 ^ 64" for e
    proof -
      assume "e \<in> set ?q"
      then obtain tag c where "length c < 2 ^ 32" "e = der_element tag c" using ge unfolding is_der_def by auto
      then show ?thesis using length_der_element [of tag c] by simp
    qed
    have dl: "d = length (chain s2)" using r(4) s1(3) by simp
    have "written d s2 (concat ?q) st'"
      using cbb_leaf_writer.leaf_step [OF add_all_bytes_writer [OF len] r(2,3) dl ad] by simp
    then show ?thesis
      using r(4,5) s1(4,5) ge start flushed_leaf [OF dl] by (intro exI [of _ es]) (auto simp: written_def min_def)
  qed
qed

end
