(* ===== verification/CBB_Calls.thy ===== *)
theory CBB_Calls
  imports SetOf
begin

unbundle bit_operations_syntax

text \<open>
  All calls on a tree of \<^verbatim>\<open>CBB\<close>s together: \<open>cbb_exec\<close> runs one, \<open>cbb_run\<close> a sequence.  The invariant \<open>cbb_wf\<close> holds
  after any sequence, failed calls included (\<open>cbb_run_wf\<close>), also for calls on a \<^verbatim>\<open>CBB\<close> that is no longer open; and once
  the error flag is set it stays set, and nothing can be finished (\<open>cbb_call_error\<close>, \<open>finish_error\<close>).
\<close>

section \<open>Calls\<close>

text \<open>Every function of \<^verbatim>\<open>cbb.c\<close> that changes a tree of \<^verbatim>\<open>CBB\<close>s; the first argument is the depth of its \<^verbatim>\<open>CBB\<close>.\<close>

datatype cbb_call =
    Flush nat | Discard_child nat | Did_write nat nat
  | Add_u8_prefixed nat | Add_u16_prefixed nat | Add_u24_prefixed nat | Add_asn1 nat u32
  | Add_bytes nat bytes | Add_zeros nat nat | Add_space nat nat | Reserve nat nat
  | Add_u8 nat u8 | Add_u16 nat u16 | Add_u16le nat u16 | Add_u24 nat u32 | Add_u32 nat u32 | Add_u32le nat u32 | Add_u64 nat u64 | Add_u64le nat u64
  | Add_asn1_uint64 nat u64 | Add_asn1_int64 nat u64 | Add_asn1_octet_string nat bytes | Add_asn1_bool nat bool
  | Add_asn1_oid_from_text nat bytes | Flush_asn1_set_of nat

fun cbb_exec :: "alloc_env \<Rightarrow> cbb_call \<Rightarrow> cbb_op" where
  "cbb_exec E (Flush d) = CBB_flush E d"
| "cbb_exec E (Discard_child d) = (\<lambda>st. (True, CBB_discard_child d st))"
| "cbb_exec E (Did_write d n) = CBB_did_write d n"
| "cbb_exec E (Add_u8_prefixed d) = CBB_add_u8_length_prefixed E d"
| "cbb_exec E (Add_u16_prefixed d) = CBB_add_u16_length_prefixed E d"
| "cbb_exec E (Add_u24_prefixed d) = CBB_add_u24_length_prefixed E d"
| "cbb_exec E (Add_asn1 d tag) = CBB_add_asn1 E d tag"
| "cbb_exec E (Add_bytes d xs) = CBB_add_bytes E d xs"
| "cbb_exec E (Add_zeros d n) = CBB_add_zeros E d n"
| "cbb_exec E (Add_space d n) = CBB_add_space E d n"
| "cbb_exec E (Reserve d n) = CBB_reserve E d n"
| "cbb_exec E (Add_u8 d v) = CBB_add_u8 E d v"
| "cbb_exec E (Add_u16 d v2) = CBB_add_u16 E d v2"
| "cbb_exec E (Add_u16le d v2) = CBB_add_u16le E d v2"
| "cbb_exec E (Add_u24 d v4) = CBB_add_u24 E d v4"
| "cbb_exec E (Add_u32 d v4) = CBB_add_u32 E d v4"
| "cbb_exec E (Add_u32le d v4) = CBB_add_u32le E d v4"
| "cbb_exec E (Add_u64 d v8) = CBB_add_u64 E d v8"
| "cbb_exec E (Add_u64le d v8) = CBB_add_u64le E d v8"
| "cbb_exec E (Add_asn1_uint64 d v8) = CBB_add_asn1_uint64 E d v8"
| "cbb_exec E (Add_asn1_int64 d v8) = CBB_add_asn1_int64 E d v8"
| "cbb_exec E (Add_asn1_octet_string d xs) = CBB_add_asn1_octet_string E d xs"
| "cbb_exec E (Add_asn1_bool d b) = CBB_add_asn1_bool E d b"
| "cbb_exec E (Add_asn1_oid_from_text d xs) = CBB_add_asn1_oid_from_text E d xs"
| "cbb_exec E (Flush_asn1_set_of d) = CBB_flush_asn1_set_of E d"

text \<open>Lengths are \<^verbatim>\<open>size_t\<close>.\<close>

fun call_ok :: "cbb_call \<Rightarrow> bool" where
  "call_ok (Did_write d n) = (n < 2 ^ 64)"
| "call_ok (Add_bytes d xs) = (length xs < 2 ^ 64)"
| "call_ok (Add_zeros d n) = (n < 2 ^ 64)"
| "call_ok (Add_space d n) = (n < 2 ^ 64)"
| "call_ok (Reserve d n) = (n < 2 ^ 64)"
| "call_ok (Add_asn1_octet_string d xs) = (length xs < 2 ^ 64)"
| "call_ok _ = True"

section \<open>The invariant, also after an error\<close>

text \<open>The open children lie one inside the other and inside the data, even when a flush stopped in the middle.\<close>

fun nested :: "nat \<Rightarrow> cbb_child list \<Rightarrow> nat \<Rightarrow> bool" where
  "nested start [] n = (start \<le> n)"
| "nested start (c # cs) n = (start \<le> offset c \<and> nested (offset c + pending_len_len c) cs n)"

definition cbb_wf :: "cbb_st \<Rightarrow> bool" where
  "cbb_wf st \<longleftrightarrow> cbb_inv st \<and> nested 0 (chain st) (base_len st)"

definition keeps :: "cbb_op \<Rightarrow> bool" where
  "keeps f \<longleftrightarrow> (\<forall>st. cbb_wf st \<longrightarrow> cbb_wf (snd (f st)))"

lemma keepsD: "keeps f \<Longrightarrow> cbb_wf st \<Longrightarrow> cbb_wf (snd (f st))"
  by (simp add: keeps_def)

lemma keeps_True: "keeps (\<lambda>st. (r, st))"
  by (simp add: keeps_def)

lemma keeps_andalso: "keeps f \<Longrightarrow> keeps g \<Longrightarrow> keeps (andalso f g)"
  unfolding keeps_def
proof (intro allI impI)
  fix st
  assume a: "\<forall>st. cbb_wf st \<longrightarrow> cbb_wf (snd (f st))" "\<forall>st. cbb_wf st \<longrightarrow> cbb_wf (snd (g st))" "cbb_wf st"
  obtain r s where f: "f st = (r, s)" by fastforce
  then have "cbb_wf s" using a(1,3) by (metis snd_conv)
  then show "cbb_wf (snd (andalso f g st))" using a(2) f by (cases r) (simp_all add: andalso_def)
qed

lemma nested_of_chain: "chain_ok a cs n \<Longrightarrow> nested a cs n"
  by (induction a cs n rule: chain_ok.induct) auto

lemma nested_le: "nested a cs n \<Longrightarrow> a \<le> n"
  by (induction a cs n rule: nested.induct) auto

lemma nested_mono: "nested a cs n \<Longrightarrow> n \<le> m \<Longrightarrow> nested a cs m"
  by (induction a cs n rule: nested.induct) auto

lemma nested_append: "nested a (xs @ ys) n \<longleftrightarrow> nested a xs (if xs = [] then a else offset (last xs) + pending_len_len (last xs)) \<and>
    nested (if xs = [] then a else offset (last xs) + pending_len_len (last xs)) ys n"
  by (induction xs arbitrary: a) auto

lemma nested_at:
  assumes "nested 0 (chain st) n" and "d \<le> length (chain st)"
  shows "nested 0 (take d (chain st)) (cbb_start d st)" and "nested (cbb_start d st) (drop d (chain st)) n"
proof -
  have "(if take d (chain st) = [] then 0
         else offset (last (take d (chain st))) + pending_len_len (last (take d (chain st)))) = cbb_start d st"
    using assms(2) by (auto simp: cbb_start_def Let_def last_conv_nth min_def)
  with nested_append [of 0 "take d (chain st)" "drop d (chain st)" n] assms(1)
  show "nested 0 (take d (chain st)) (cbb_start d st)" "nested (cbb_start d st) (drop d (chain st)) n" by simp_all
qed

lemma cbb_wfE:
  assumes "cbb_wf st"
  obtains b where "base st = Some b" and "buf_ok b" and "berror b \<or> chain_ok 0 (chain st) (blen b)" and "nested 0 (chain st) (blen b)"
  using assms by (auto simp: cbb_wf_def cbb_inv_def base_len_def split: option.splits)

lemma cbb_wfI:
  "base st = Some b \<Longrightarrow> buf_ok b \<Longrightarrow> berror b \<or> chain_ok 0 (chain st) (blen b) \<Longrightarrow> nested 0 (chain st) (blen b) \<Longrightarrow> cbb_wf st"
  by (simp add: cbb_wf_def cbb_inv_def base_len_def)

text \<open>Without an error the two parts of the invariant agree.\<close>

lemma cbb_wf_clean: "cbb_inv st \<Longrightarrow> \<not> cbb_error st \<Longrightarrow> cbb_wf st"
  by (auto simp: cbb_wf_def cbb_inv_def cbb_error_def base_len_def intro: nested_of_chain split: option.splits)

section \<open>The buffer\<close>

definition extends :: "(cbb_buffer_st \<Rightarrow> bool \<times> cbb_buffer_st) \<Rightarrow> bool" where
  "extends f \<longleftrightarrow> (\<forall>b. buf_ok b \<longrightarrow> buf_ok (snd (f b)) \<and> blen b \<le> blen (snd (f b)) \<and> (berror b \<longrightarrow> berror (snd (f b))))"

lemma keeps_on_base: "extends f \<Longrightarrow> keeps (on_base f)"
  unfolding keeps_def
proof (intro allI impI)
  fix st assume f: "extends f" and "cbb_wf st"
  then obtain b where b: "base st = Some b" "buf_ok b" "berror b \<or> chain_ok 0 (chain st) (blen b)" "nested 0 (chain st) (blen b)" by (blast elim: cbb_wfE)
  obtain r b' where b': "f b = (r, b')" by fastforce
  then have e: "buf_ok b'" "blen b \<le> blen b'" "berror b \<longrightarrow> berror b'" using f b(2) unfolding extends_def by fastforce+
  have "snd (on_base f st) = st\<lparr>base := Some b'\<rparr>" using b(1) b' by (simp add: on_base_def)
  then show "cbb_wf (snd (on_base f st))" using e b(3,4) by (auto intro!: cbb_wfI [where b = b'] intro: chain_ok_mono nested_mono)
qed

lemma extendsI:
  assumes "\<And>b r b'. buf_ok b \<Longrightarrow> f b = (r, b') \<Longrightarrow> buf_ok b' \<and> blen b \<le> blen b' \<and> (berror b \<longrightarrow> berror b')"
  shows "extends f"
  unfolding extends_def using assms by (metis surjective_pairing)

lemma extends_reserve: "n < 2 ^ 64 \<Longrightarrow> extends (cbb_buffer_reserve E n)"
  by (rule extendsI, drule (2) cbb_buffer_reserve_cases) (auto split: if_splits)

lemma buffer_add_extends:
  assumes "buf_ok b" and "n < 2 ^ 64" and "cbb_buffer_add E n b = (r, b')"
  shows "buf_ok b'" and "blen b' = (if r then blen b + n else blen b)" and "berror b \<Longrightarrow> berror b'"
proof -
  obtain r1 b1 where r: "cbb_buffer_reserve E n b = (r1, b1)" by fastforce
  note c = cbb_buffer_reserve_cases [OF assms(1,2) r]
  show "buf_ok b'" "blen b' = (if r then blen b + n else blen b)" "berror b \<Longrightarrow> berror b'"
    using assms c r cbb_buffer_add_True [OF assms(1,2), of E b'] by (auto simp: cbb_buffer_add_def split: bool.splits if_splits)
qed

lemma extends_add: "n < 2 ^ 64 \<Longrightarrow> extends (cbb_buffer_add E n)"
  by (rule extendsI) (use buffer_add_extends in fastforce)

text \<open>Filling what was added.\<close>

lemma extends_add_write:
  assumes "n < 2 ^ 64" and "\<And>b bf. blen b + n \<le> length bf \<Longrightarrow> length (w b bf) = length bf"
  shows "extends (\<lambda>b. case cbb_buffer_add E n b of (False, b') \<Rightarrow> (False, b') | (True, b') \<Rightarrow> (True, b'\<lparr>buf := w b (buf b')\<rparr>))"
proof (rule extendsI)
  fix b r b'
  assume b: "buf_ok b" and res: "(case cbb_buffer_add E n b of (False, b') \<Rightarrow> (False, b') | (True, b') \<Rightarrow> (True, b'\<lparr>buf := w b (buf b')\<rparr>)) = (r, b')"
  obtain r1 b1 where a: "cbb_buffer_add E n b = (r1, b1)" by fastforce
  note x = buffer_add_extends [OF b assms(1) a]
  show "buf_ok b' \<and> blen b \<le> blen b' \<and> (berror b \<longrightarrow> berror b')"
  proof (cases r1)
    case True
    then have "length (w b (buf b1)) = length (buf b1)" using x(1,2) by (intro assms(2)) (simp add: buf_ok_def)
    then show ?thesis using x a res True by (auto simp: buf_ok_def)
  qed (use x a res in auto)
qed

lemma store_be_length: "length (fst (store_be pos n v bf)) = length bf"
  by (induction pos n v bf rule: store_be.induct) simp_all

lemma extends_add_u:
  assumes n: "n < 2 ^ 64"
  shows "extends (cbb_buffer_add_u E v n)"
proof (rule extendsI)
  fix b r b'
  assume b: "buf_ok b" and res: "cbb_buffer_add_u E v n b = (r, b')"
  obtain r1 b1 where a: "cbb_buffer_add E n b = (r1, b1)" by fastforce
  note x = buffer_add_extends [OF b n a]
  show "buf_ok b' \<and> blen b \<le> blen b' \<and> (berror b \<longrightarrow> berror b')"
    using x a b res store_be_length [of "blen b" n v "buf b1"]
    by (cases r1) (auto simp: cbb_buffer_add_u_def buf_ok_def Let_def split: prod.splits if_splits)
qed

section \<open>Flushing\<close>

lemma store_pending_frame: "store_pending b c len = (r, b', c') \<Longrightarrow> c' = c \<and> blen b' = blen b"
  by (auto simp: store_pending_def split: prod.splits if_splits)

lemma flush_child_nested:
  assumes ok: "buf_ok b" and c: "child_ok c" and le: "offset c + pending_len_len c \<le> blen b"
    and res: "flush_child E b c (offset c + pending_len_len c) = (r, b', c')"
  shows "offset c \<le> offset c' \<and> offset c' + pending_len_len c' \<le> blen b'"
proof (cases "pending_is_asn1 c")
  case False
  then show ?thesis using res le store_pending_frame [of b c _ r b' c'] by (auto simp: flush_child_def)
next
  case True
  then have 1: "pending_len_len c = 1" using c by (simp add: child_ok_def)
  show ?thesis
  proof (cases "asn1_length_form (blen b - (offset c + 1))")
    case None
    then show ?thesis using res True le 1 by (auto simp: flush_child_def)
  next
    case (Some f)
    obtain ll ib len' where f: "f = (ll, ib, len')" by (cases f)
    have ll: "1 \<le> ll" "ll - 1 < 2 ^ 64" using asn1_length_form_Some(2,3) [OF Some [unfolded f]] by auto
    obtain r1 b1 where a: "cbb_buffer_add E (ll - 1) b = (r1, b1)" by fastforce
    note x = buffer_add_extends [OF ok ll(2) a]
    show ?thesis
    proof (cases "ll = 1 \<or> r1")
      case True2: True
      then obtain b2 where "store_pending b2 (c\<lparr>offset := offset c + 1, pending_len_len := ll - 1\<rparr>) len' = (r, b', c')" "blen b2 = blen b + (ll - 1)"
        using res True Some f a x(2) 1 by (auto simp: flush_child_def Let_def split: if_splits bool.splits)
      from store_pending_frame [OF this(1)] this(2) show ?thesis using le 1 by simp
    next
      case False
      then show ?thesis using res True Some f a x(2) 1 le by (auto simp: flush_child_def Let_def)
    qed
  qed
qed

lemma flush_chain_nested:
  assumes "buf_ok b" and "\<not> berror b" and "chain_ok start cs (blen b)" and "flush_chain E b cs = (False, b', cs')"
  shows "nested start cs' (blen b')"
  using assms
proof (induction cs arbitrary: start b' cs')
  case (Cons c cs)
  let ?s = "offset c + pending_len_len c"
  have ch: "start \<le> offset c" "child_ok c" "chain_ok ?s cs (blen b)" using Cons.prems(3) by auto
  then have sle: "?s \<le> blen b" and p: "pending_len_len c \<noteq> 0" by (auto dest: chain_ok_le simp: child_ok_def)
  have sz: "size_add (offset c) (pending_len_len c) = ?s" using sle Cons.prems(1) by (intro size_add_small) (auto simp: buf_ok_def)
  obtain r1 b1 cs1 where f1: "flush_chain E b cs = (r1, b1, cs1)" by (cases "flush_chain E b cs")
  note res = Cons.prems(4) [unfolded flush_chain.simps f1 Let_def sz]
  show ?case
  proof (cases r1)
    case False
    then show ?thesis using res p Cons.prems(2) Cons.IH [OF Cons.prems(1,2) ch(3)] f1 ch(1) by auto
  next
    case True
    note fc = flush_chain_cases [OF Cons.prems(1,2) ch(3) f1]
    have b1: "buf_ok b1" "bdata b1 = take ?s (bdata b) @ render ?s cs (bdata b)" "cs1 = []" using fc True by auto
    have le1: "?s \<le> blen b1" using arg_cong [OF b1(2), of length] b1(1) Cons.prems(1) sle by simp
    obtain r2 b2 c2 where f2: "flush_child E b1 c ?s = (r2, b2, c2)" by (cases "flush_child E b1 c ?s")
    have "b' = b2" "cs' = [c2]" using res True p Cons.prems(2) le1 f2 b1(3) by (auto split: if_splits bool.splits)
    then show ?thesis using flush_child_nested [OF b1(1) ch(2) le1 f2] ch(1) by auto
  qed
qed simp

lemma keeps_flush: "keeps (CBB_flush E d)"
  unfolding keeps_def
proof (intro allI impI)
  fix st
  assume w: "cbb_wf st"
  obtain b where b: "base st = Some b" "buf_ok b" "berror b \<or> chain_ok 0 (chain st) (blen b)" "nested 0 (chain st) (blen b)" using w by (blast elim: cbb_wfE)
  obtain r st' where f: "CBB_flush E d st = (r, st')" by fastforce
  have inv: "cbb_inv st" using w by (simp add: cbb_wf_def)
  show "cbb_wf (snd (CBB_flush E d st))"
  proof (cases "d \<le> length (chain st)")
    case False
    then show ?thesis using w b(1) by (simp add: CBB_flush_def)
  next
    case d: True
    note s = flush.step [OF inv d f]
    show ?thesis
    proof (cases r)
      case True
      then show ?thesis using s f cbb_wf_clean by (auto simp: written_def)
    next
      case False
      obtain b1 cs1 where c: "flush_chain E b (drop d (chain st)) = (False, b1, cs1)" "st' = st\<lparr>base := Some b1, chain := take d (chain st) @ cs1\<rparr>"
        using f b(1) d False by (auto simp: CBB_flush_def split: prod.splits)
      show ?thesis
      proof (cases "berror b")
        case True
        then have "b1 = b" "cs1 = drop d (chain st)" using c(1) by (cases "drop d (chain st)"; auto)+
        moreover have "st\<lparr>base := Some b\<rparr> = st" using b(1) by (cases st) simp
        ultimately show ?thesis using w c(2) f by simp
      next
        case nb: False
        then have ch: "chain_ok 0 (chain st) (blen b)" using b(3) by blast
        have "nested (cbb_start d st) cs1 (blen b1)" by (rule flush_chain_nested [OF b(2) nb chain_ok_at(2) [OF ch d] c(1)])
        moreover have "nested 0 (take d (chain st)) (cbb_start d st)" using nested_at(1) [OF b(4) d] .
        moreover have "(if take d (chain st) = [] then 0 else offset (last (take d (chain st))) + pending_len_len (last (take d (chain st)))) = cbb_start d st"
          using d by (auto simp: cbb_start_def Let_def last_conv_nth min_def)
        ultimately have "nested 0 (take d (chain st) @ cs1) (blen b1)" unfolding nested_append by simp
        then show ?thesis using s c(2) f False by (simp add: cbb_wf_def base_len_def)
      qed
    qed
  qed
qed

lemma flush_leaf:
  assumes "cbb_wf st" and "CBB_flush E d st = (True, s)"
  shows "cbb_wf s" and "\<not> cbb_error s" and "d = length (chain s)"
proof -
  have "d \<le> length (chain st)" using assms by (auto simp: CBB_flush_def elim!: cbb_wfE split: if_splits)
  then have "cbb_inv s" "\<not> cbb_error s" "d = length (chain s)"
    using flush.step [of st d E True s] assms by (auto simp: written_def cbb_wf_def)
  then show "cbb_wf s" "\<not> cbb_error s" "d = length (chain s)" using cbb_wf_clean by blast+
qed

section \<open>Every call\<close>

lemma keeps_after_flush:
  assumes "\<And>s. cbb_wf s \<Longrightarrow> \<not> cbb_error s \<Longrightarrow> d = length (chain s) \<Longrightarrow> cbb_wf (snd (g s))"
  shows "keeps (andalso (CBB_flush E d) g)"
  unfolding keeps_def
proof (intro allI impI)
  fix st
  assume w: "cbb_wf st"
  obtain r s where f: "CBB_flush E d st = (r, s)" by fastforce
  show "cbb_wf (snd (andalso (CBB_flush E d) g st))"
  proof (cases r)
    case True
    then show ?thesis using flush_leaf [OF w, of E d s] f assms by (simp add: andalso_def)
  next
    case False
    then show ?thesis using keepsD [OF keeps_flush w, of E d] f by (simp add: andalso_def)
  qed
qed

text \<open>Opening a child over bytes just written at the end.\<close>

lemma open_child_wf:
  assumes "cbb_wf s" and "\<not> cbb_error s" and "cbb_wf s'" and "\<not> cbb_error s'" and "chain s' = chain s" and "d = length (chain s)"
    and "base_len s + k \<le> base_len s'" and "1 \<le> k" and "k \<le> 3" and "a \<longrightarrow> k = 1"
  shows "cbb_wf (snd (open_child d \<lparr>offset = base_len s, pending_len_len = k, pending_is_asn1 = a\<rparr> s'))"
proof -
  obtain b where b: "base s = Some b" "chain_ok 0 (chain s) (blen b)" using assms(1,2) by (auto simp: cbb_error_def elim!: cbb_wfE)
  obtain b' where b': "base s' = Some b'" "buf_ok b'" "\<not> berror b'" using assms(3,4) by (auto simp: cbb_error_def elim!: cbb_wfE)
  have "chain_ok 0 (chain s @ [\<lparr>offset = blen b, pending_len_len = k, pending_is_asn1 = a\<rparr>]) (blen b')"
    unfolding chain_ok_snoc using b b' assms(7-10) by (simp add: child_ok_def base_len_def)
  then show ?thesis using b b' assms(5,6) by (auto simp: open_child_def base_len_def intro!: cbb_wfI nested_of_chain)
qed

lemma keeps_length_prefixed:
  assumes "1 \<le> k" and "k \<le> 3"
  shows "keeps (cbb_add_length_prefixed E d k)"
  unfolding cbb_add_length_prefixed_def
proof (rule keeps_after_flush)
  fix s assume s: "cbb_wf s" "\<not> cbb_error s" "d = length (chain s)"
  define f where "f = (\<lambda>b. case cbb_buffer_add E k b of (False, b) \<Rightarrow> (False, b)
      | (True, b) \<Rightarrow> (True, b\<lparr>buf := write_at (base_len s) (replicate k 0) (buf b)\<rparr>))"
  obtain b where b: "base s = Some b" "buf_ok b" "\<not> berror b" using s(1,2) by (auto simp: cbb_error_def elim!: cbb_wfE)
  obtain r b1 where a: "cbb_buffer_add E k b = (r, b1)" by fastforce
  have k: "k < 2 ^ 64" using assms(2) by simp
  note x = buffer_add_extends [OF b(2) k a]
  let ?o = "open_child d \<lparr>offset = base_len s, pending_len_len = k, pending_is_asn1 = False\<rparr>"
  have "cbb_wf (snd (andalso (on_base f) ?o s))"
  proof (cases r)
    case True
    let ?s = "s\<lparr>base := Some (b1\<lparr>buf := write_at (blen b) (replicate k 0) (buf b1)\<rparr>)\<rparr>"
    have o: "on_base f s = (True, ?s)" using True a b(1) by (simp add: f_def on_base_def base_len_def)
    have "length (write_at (blen b) (replicate k 0) (buf b1)) = length (buf b1)"
      using x(1,2) True by (intro length_write_at) (simp add: buf_ok_def)
    moreover have "\<not> berror b1" using cbb_buffer_add_True(4) [OF b(2) k, of E b1] a True b(3) by simp
    moreover have "chain_ok 0 (chain s) (blen b1)" using s(1) b x(2) by (auto elim!: cbb_wfE intro: chain_ok_mono)
    ultimately have w: "cbb_wf ?s" "\<not> cbb_error ?s" using x(1)
      by (auto simp: cbb_error_def buf_ok_def intro!: cbb_wfI intro: nested_of_chain)
    then show ?thesis using open_child_wf [OF s(1,2) w _ s(3), of k False] b(1) x(2) True assms by (simp add: andalso_def o base_len_def)
  next
    case False
    have "cbb_wf (s\<lparr>base := Some b1\<rparr>)" using keepsD [OF keeps_on_base [OF extends_add [OF k]] s(1), of E] a b(1) by (simp add: on_base_def)
    then show ?thesis using False a b(1) by (simp add: andalso_def f_def on_base_def)
  qed
  then show "cbb_wf (snd (let off = base_len s in andalso (on_base (\<lambda>b. case cbb_buffer_add E k b of (False, b) \<Rightarrow> (False, b)
      | (True, b) \<Rightarrow> (True, b\<lparr>buf := write_at off (replicate k 0) (buf b)\<rparr>)))
      (open_child d \<lparr>offset = off, pending_len_len = k, pending_is_asn1 = False\<rparr>) s))" by (simp add: f_def Let_def)
qed

lemma keeps_add_u: "n < 2 ^ 64 \<Longrightarrow> keeps (andalso (CBB_flush E d) (on_base (cbb_buffer_add_u E v n)))"
  by (intro keeps_andalso keeps_flush keeps_on_base extends_add_u)

lemma keeps_numbers:
  "keeps (CBB_add_u8 E d v)" "keeps (CBB_add_u16 E d v2)" "keeps (CBB_add_u16le E d v2)" "keeps (CBB_add_u24 E d v4)"
  "keeps (CBB_add_u32 E d v4)" "keeps (CBB_add_u32le E d v4)" "keeps (CBB_add_u64 E d v8)" "keeps (CBB_add_u64le E d v8)"
  by (simp_all add: CBB_add_u8_def CBB_add_u16_def CBB_add_u16le_def CBB_add_u24_def CBB_add_u32_def CBB_add_u32le_def CBB_add_u64_def CBB_add_u64le_def keeps_add_u)

lemma keeps_space:
  assumes "n < 2 ^ 64"
  shows "keeps (CBB_add_space E d n)" and "keeps (CBB_reserve E d n)"
  unfolding CBB_add_space_def CBB_reserve_def by (intro keeps_andalso keeps_flush keeps_on_base extends_add extends_reserve assms)+

lemma keeps_bytes: "length xs < 2 ^ 64 \<Longrightarrow> keeps (CBB_add_bytes E d xs)"
  unfolding CBB_add_bytes_def
  by (intro keeps_andalso keeps_flush keeps_on_base extends_add_write [where w = "\<lambda>b. write_at (blen b) xs"] length_write_at)

lemma keeps_zeros:
  assumes n: "n < 2 ^ 64"
  shows "keeps (CBB_add_zeros E d n)"
  unfolding CBB_add_zeros_def CBB_add_space_def andalso_assoc
proof (rule keeps_after_flush)
  fix s assume s: "cbb_wf s" "\<not> cbb_error s" "d = length (chain s)"
  let ?g = "\<lambda>b. case cbb_buffer_add E n b of (False, b') \<Rightarrow> (False, b') | (True, b') \<Rightarrow> (True, b'\<lparr>buf := write_at (blen b) (replicate n 0) (buf b')\<rparr>)"
  have "extends ?g" by (intro extends_add_write [where w = "\<lambda>b. write_at (blen b) (replicate n 0)"] n length_write_at) simp
  then have k: "cbb_wf (snd (on_base ?g s))" using keepsD [OF keeps_on_base s(1)] by blast
  obtain b where b: "base s = Some b" "buf_ok b" using s(1) by (rule cbb_wfE)
  obtain r b1 where a: "cbb_buffer_add E n b = (r, b1)" by fastforce
  have "r \<Longrightarrow> blen b1 - n = blen b" using buffer_add_extends(2) [OF b(2) n a] by simp
  then have "andalso (on_base (cbb_buffer_add E n)) (on_base (\<lambda>b. (True, b\<lparr>buf := write_at (blen b - n) (replicate n 0) (buf b)\<rparr>))) s = on_base ?g s"
    using a b(1) by (cases r) (simp_all add: andalso_def on_base_def)
  then show "cbb_wf (snd (andalso (on_base (cbb_buffer_add E n)) (on_base (\<lambda>b. (True, b\<lparr>buf := write_at (blen b - n) (replicate n 0) (buf b)\<rparr>))) s))"
    using k by simp
qed

lemma keeps_did_write: "keeps (CBB_did_write d n)"
  unfolding keeps_def
proof (intro allI impI)
  fix st assume "cbb_wf st"
  then show "cbb_wf (snd (CBB_did_write d n st))"
    by (rule cbb_wfE) (auto simp: CBB_did_write_def Let_def buf_ok_def intro!: cbb_wfI intro: chain_ok_mono nested_mono)
qed

lemma keeps_discard: "keeps (\<lambda>st. (True, CBB_discard_child d st))"
  unfolding keeps_def
proof (intro allI impI)
  fix st assume w: "cbb_wf st"
  then obtain b where b: "base st = Some b" "buf_ok b" "berror b \<or> chain_ok 0 (chain st) (blen b)" "nested 0 (chain st) (blen b)" by (rule cbb_wfE)
  show "cbb_wf (snd (True, CBB_discard_child d st))"
  proof (cases "d < length (chain st)")
    case True
    have "drop d (chain st) = chain st ! d # drop (Suc d) (chain st)" using True by (simp add: Cons_nth_drop_Suc)
    then have o: "cbb_start d st \<le> offset (chain st ! d)" "offset (chain st ! d) \<le> blen b"
      using nested_at(2) [OF b(4), of d] True nested_le by (fastforce dest: nested_le)+
    have "nested 0 (take d (chain st)) (offset (chain st ! d))" using nested_at(1) [OF b(4), of d] True o(1) nested_mono by auto
    moreover have "berror b \<or> chain_ok 0 (take d (chain st)) (offset (chain st ! d))" using b(3) chain_ok_at(1) [of st "blen b" d] True o(1) chain_ok_mono by auto
    ultimately show ?thesis using b(1,2) o(2) True by (auto simp: CBB_discard_child_def buf_ok_def intro!: cbb_wfI)
  qed (use w in \<open>simp add: CBB_discard_child_def\<close>)
qed

lemma keeps_base128: "keeps (add_base128_integer E d v)"
proof -
  have "keeps (add_base128_loop E d v n)" for n by (induction n) (simp_all add: keeps_True keeps_andalso keeps_numbers Let_def)
  then show ?thesis by (simp add: add_base128_integer_def Let_def)
qed

text \<open>A successful writer on the innermost \<^verbatim>\<open>CBB\<close> leaves it innermost.\<close>

lemma leaf_success:
  assumes "cbb_leaf_writer op out" and "cbb_wf s" and "\<not> cbb_error s" and "d = length (chain s)" and "op d s = (True, s')"
  shows "cbb_wf s' \<and> \<not> cbb_error s' \<and> chain s' = chain s \<and> base_len s' = base_len s + length out"
proof -
  have "cbb_inv s" using assms(2) by (simp add: cbb_wf_def)
  then have w: "written d s out s'" using cbb_leaf_writer.leaf_step [OF assms(1) _ assms(3-5)] by simp
  then show ?thesis using written_base_len [OF w] flushed_leaf [OF assms(4)] assms(2,4) cbb_wf_clean [of s']
    by (auto simp: written_def cdata_def base_len_def elim!: cbb_wfE)
qed

lemma keeps_asn1: "keeps (CBB_add_asn1 E d tag)"
proof -
  define tagop where "tagop = (\<lambda>d. if tag AND CBS_ASN1_TAG_NUMBER_MASK \<ge> 0x1f
      then andalso (CBB_add_u8 E d ((ucast (drop_bit CBS_ASN1_TAG_SHIFT tag) AND 0xe0) OR 0x1f)) (add_base128_integer E d (ucast (tag AND CBS_ASN1_TAG_NUMBER_MASK)))
      else CBB_add_u8 E d ((ucast (drop_bit CBS_ASN1_TAG_SHIFT tag) AND 0xe0) OR ucast (tag AND CBS_ASN1_TAG_NUMBER_MASK)))"
  have "\<exists>out. cbb_leaf_writer tagop out"
  proof (cases "tag AND CBS_ASN1_TAG_NUMBER_MASK \<ge> 0x1f")
    case True
    then show ?thesis unfolding tagop_def using leaf_andalso [OF add_u8.cbb_leaf_writer_axioms writer_leaf [OF add_base128_writer]] by (simp only: if_True) blast
  next
    case False
    then show ?thesis unfolding tagop_def using add_u8.cbb_leaf_writer_axioms by (simp only: if_False) blast
  qed
  then obtain out where t: "cbb_leaf_writer tagop out" by blast
  have kt: "keeps (tagop d)" unfolding tagop_def by (auto intro: keeps_andalso keeps_numbers keeps_base128)
  have "cbb_wf (snd (andalso (tagop d) (\<lambda>cbb. let off = base_len cbb in andalso (CBB_add_u8 E d 0)
       (open_child d \<lparr>offset = off, pending_len_len = 1, pending_is_asn1 = True\<rparr>) cbb) s))"
    if s: "cbb_wf s" "\<not> cbb_error s" "d = length (chain s)" for s
  proof -
    obtain r s1 where 1: "tagop d s = (r, s1)" by fastforce
    show ?thesis
    proof (cases r)
      case False
      then show ?thesis using keepsD [OF kt s(1)] 1 by (simp add: andalso_def)
    next
      case True
      have s1: "cbb_wf s1" "\<not> cbb_error s1" "d = length (chain s1)" using leaf_success [OF t s] 1 True s(3) by auto
      obtain r2 s2 where 2: "CBB_add_u8 E d 0 s1 = (r2, s2)" by fastforce
      show ?thesis
      proof (cases r2)
        case False
        then show ?thesis using keepsD [OF keeps_numbers(1) s1(1), of E d 0] 1 2 True by (simp add: andalso_def Let_def)
      next
        case r2: True
        have s2: "cbb_wf s2" "\<not> cbb_error s2" "chain s2 = chain s1" "base_len s2 = base_len s1 + 1"
          using leaf_success [OF add_u8.cbb_leaf_writer_axioms s1, of E 0] 2 r2 by auto
        then show ?thesis using open_child_wf [OF s1(1,2) s2(1-3) s1(3), of 1 True] 1 2 True r2 by (simp add: andalso_def Let_def)
      qed
    qed
  qed
  then show ?thesis unfolding CBB_add_asn1_def Let_def tagop_def by (intro keeps_after_flush) simp
qed

lemma keeps_asn1_integers: "keeps (CBB_add_asn1_uint64 E d v)" "keeps (CBB_add_asn1_int64 E d v)"
proof -
  have loop: "cbb_wf st \<Longrightarrow> cbb_wf (snd (snd (add_uint64_loop E k v n started st)))" for k n started st
  proof (induction n arbitrary: started st)
    case (Suc n)
    let ?b = "ucast (drop_bit (8 * n) v) AND 0xff :: u8"
    have z: "cbb_wf (snd (if \<not> started \<and> ?b AND 0x80 \<noteq> 0 then CBB_add_u8 E k 0 st else (True, st)))" using Suc.prems keepsD [OF keeps_numbers(1)] by auto
    have b: "cbb_wf s \<Longrightarrow> cbb_wf (snd (CBB_add_u8 E k ?b s))" for s using keepsD [OF keeps_numbers(1)] by blast
    show ?case
    proof (cases "\<not> started \<and> ?b = 0")
      case True
      then show ?thesis using Suc by (simp add: Let_def)
    next
      case False
      obtain r1 s1 where 1: "(if \<not> started \<and> ?b AND 0x80 \<noteq> 0 then CBB_add_u8 E k 0 st else (True, st)) = (r1, s1)" by (metis surjective_pairing)
      obtain r2 s2 where 2: "CBB_add_u8 E k ?b s1 = (r2, s2)" by fastforce
      have "cbb_wf s1" "cbb_wf s2" using z b [of s1] 1 2 by auto
      then show ?thesis unfolding add_uint64_loop.simps Let_def 1 if_not_P [OF False] using 2 Suc.IH [of s2 True] by (simp split: bool.splits)
    qed
  qed simp
  have "keeps (\<lambda>cbb. case add_uint64_loop E (d + 1) v 8 False cbb of (False, _, cbb) \<Rightarrow> (False, cbb)
      | (True, started, cbb) \<Rightarrow> andalso (if \<not> started then CBB_add_u8 E (d + 1) 0 else (\<lambda>cbb. (True, cbb))) (CBB_flush E d) cbb)"
    unfolding keeps_def
  proof (intro allI impI)
    fix st assume "cbb_wf st"
    moreover obtain r started s where l: "add_uint64_loop E (d + 1) v 8 False st = (r, started, s)" by (metis prod_cases3)
    ultimately have "cbb_wf s" using loop [of st "d + 1" 8 False] by simp
    moreover have "keeps (andalso (if \<not> started then CBB_add_u8 E (d + 1) 0 else (\<lambda>cbb. (True, cbb))) (CBB_flush E d))"
      by (auto intro: keeps_andalso keeps_numbers keeps_flush keeps_True)
    ultimately show "cbb_wf (snd (case add_uint64_loop E (d + 1) v 8 False st of (False, _, cbb) \<Rightarrow> (False, cbb)
      | (True, started, cbb) \<Rightarrow> andalso (if \<not> started then CBB_add_u8 E (d + 1) 0 else (\<lambda>cbb. (True, cbb))) (CBB_flush E d) cbb))"
      using l keepsD by (cases r) simp_all
  qed
  then show u: "keeps (CBB_add_asn1_uint64 E d v)" unfolding CBB_add_asn1_uint64_def by (intro keeps_andalso keeps_asn1)
  have "keeps (add_bytes_down E k u n)" for k u n by (induction n) (simp_all add: keeps_True keeps_andalso keeps_numbers)
  then show "keeps (CBB_add_asn1_int64 E d v)" unfolding CBB_add_asn1_int64_def Let_def
    using u by (auto intro!: keeps_andalso keeps_asn1 keeps_flush keeps_numbers)
qed

lemma keeps_oid: "keeps (CBB_add_asn1_oid_from_text E d xs)"
proof -
  have rest: "keeps (add_oid_rest E d s)" for s
  proof (induction E d s rule: add_oid_rest.induct)
    case (1 E d s)
    then show ?case by (subst add_oid_rest.simps) (auto intro!: keeps_andalso keeps_base128 keeps_True split: option.splits prod.splits)
  qed
  show ?thesis unfolding CBB_add_asn1_oid_from_text_def
    by (auto intro!: keeps_andalso keeps_flush keeps_base128 keeps_True rest split: option.splits prod.splits)
qed

lemma keeps_set_of: "keeps (CBB_flush_asn1_set_of E d)"
  unfolding CBB_flush_asn1_set_of_def
proof (rule keeps_after_flush)
  fix s assume s: "cbb_wf s" "\<not> cbb_error s" "d = length (chain s)"
  have inv: "cbb_inv s" using s(1) by (simp add: cbb_wf_def)
  let ?rw = "on_base (\<lambda>b. (True, b\<lparr>blen := cbb_start d s\<rparr>))"
  have rw: "cbb_wf (snd (?rw s))" using rewind_ok(2,3) [OF inv s(2,3)] cbb_wf_clean by (metis surjective_pairing)
  have add: "keeps (add_all_bytes E d es)" if "\<forall>e \<in> set es. length e < 2 ^ 64" for es
    using that by (induction es) (simp_all add: keeps_True keeps_andalso keeps_bytes)
  have "cbb_wf (snd (andalso ?rw (add_all_bytes E d es) s))" if "\<forall>e \<in> set es. length e < 2 ^ 64" for es
    using rw keepsD [OF add [OF that]] by (auto simp: andalso_def split: prod.splits bool.splits)
  moreover have "\<forall>e \<in> set (qsort compare_set_of_element es). length e < 2 ^ 64" if "get_elements t = Some es" for t es
  proof
    note elems = get_elements_Some [OF that]
    fix e assume "e \<in> set (qsort compare_set_of_element es)"
    then obtain tag c where "length c < 2 ^ 32" "e = der_element tag c" using elems unfolding is_der_def by auto
    then show "length e < 2 ^ 64" using length_der_element [of tag c] by simp
  qed
  ultimately show "cbb_wf (snd (let contents = take (CBB_len d s) (CBB_data d s) in
       case get_elements contents of
         None \<Rightarrow> (False, s)
       | Some children \<Rightarrow>
           (let num_children = length children in
            if num_children < 2 then (True, s)
            else if num_children > (2 ^ 64 - 1) div sizeof_CBS then (False, s)
            else
              case (OPENSSL_memdup E contents, OPENSSL_malloc E (num_children * sizeof_CBS)) of
                (Some _, Some _) \<Rightarrow>
                  (let children = qsort compare_set_of_element children;
                       rewind = on_base (\<lambda>b. (True, b\<lparr>blen := cbb_start d s\<rparr>))
                   in andalso rewind (add_all_bytes E d children) s)
              | _ \<Rightarrow> (False, s))))"
    using s(1) by (auto simp: Let_def split: option.splits)
qed

lemmas keeps_calls = keeps_flush keeps_discard keeps_did_write keeps_asn1 keeps_bytes keeps_zeros keeps_space keeps_numbers keeps_asn1_integers
  keeps_oid keeps_set_of

theorem cbb_call_keeps: "cbb_wf st \<Longrightarrow> call_ok c \<Longrightarrow> cbb_wf (snd (cbb_exec E c st))"
proof -
  have "call_ok c \<Longrightarrow> keeps (cbb_exec E c)"
    by (cases c) (auto simp: CBB_add_u8_length_prefixed_def CBB_add_u16_length_prefixed_def CBB_add_u24_length_prefixed_def
        CBB_add_asn1_octet_string_def CBB_add_asn1_bool_def intro!: keeps_calls keeps_length_prefixed keeps_andalso)
  then show "cbb_wf st \<Longrightarrow> call_ok c \<Longrightarrow> cbb_wf (snd (cbb_exec E c st))" using keepsD by blast
qed

section \<open>Errors are sticky\<close>

text \<open>
  Every call starts with a flush, which fails on a tree in the error state, except \<^verbatim>\<open>CBB_did_write\<close> and
  \<^verbatim>\<open>CBB_discard_child\<close>; these keep the error flag, so that the final flush fails.
\<close>

fun flushes :: "cbb_call \<Rightarrow> bool" where
  "flushes (Discard_child d) = False"
| "flushes (Did_write d n) = False"
| "flushes _ = True"

lemma flush_error: "cbb_error st \<Longrightarrow> \<exists>s. CBB_flush E d st = (False, s) \<and> cbb_error s"
proof (cases "base st")
  case (Some b)
  assume "cbb_error st"
  then have e: "berror b" using Some by (simp add: cbb_error_def)
  then have "flush_chain E b cs = (False, b, cs)" for cs by (cases cs) simp_all
  then show ?thesis using Some e by (simp add: CBB_flush_def cbb_error_def)
qed (simp add: CBB_flush_def)

definition fails :: "cbb_op \<Rightarrow> bool" where
  "fails f \<longleftrightarrow> (\<forall>st. cbb_error st \<longrightarrow> \<not> fst (f st) \<and> cbb_error (snd (f st)))"

lemma fails_flush: "fails (CBB_flush E d)"
  unfolding fails_def using flush_error [of _ E d] by (metis fst_conv snd_conv)

lemma fails_andalso: "fails f \<Longrightarrow> fails (andalso f g)"
  unfolding fails_def andalso_def by (auto split: prod.splits bool.splits)

lemma cbb_call_fails: "flushes c \<Longrightarrow> fails (cbb_exec E c)"
proof -
  have asn1: "fails (CBB_add_asn1 E d tag)" for d tag by (simp add: CBB_add_asn1_def fails_andalso fails_flush)
  have prefixed: "fails (cbb_add_length_prefixed E d k)" for d k by (simp add: cbb_add_length_prefixed_def fails_andalso fails_flush)
  have u: "fails (CBB_add_asn1_uint64 E d v)" for d v by (simp add: CBB_add_asn1_uint64_def fails_andalso asn1)
  show "flushes c \<Longrightarrow> fails (cbb_exec E c)"
    by (cases c) (simp_all add: CBB_add_u8_length_prefixed_def CBB_add_u16_length_prefixed_def CBB_add_u24_length_prefixed_def CBB_add_bytes_def
        CBB_add_zeros_def CBB_add_space_def CBB_reserve_def CBB_add_u8_def CBB_add_u16_def CBB_add_u16le_def CBB_add_u24_def CBB_add_u32_def CBB_add_u32le_def
        CBB_add_u64_def CBB_add_u64le_def CBB_add_asn1_int64_def CBB_add_asn1_octet_string_def CBB_add_asn1_bool_def CBB_add_asn1_oid_from_text_def
        CBB_flush_asn1_set_of_def Let_def fails_andalso fails_flush asn1 prefixed u)
qed

lemma cbb_call_error: "cbb_error st \<Longrightarrow> cbb_error (snd (cbb_exec E c st))"
proof (cases "flushes c")
  case True
  then show "cbb_error st \<Longrightarrow> ?thesis" using cbb_call_fails [of c E] by (simp add: fails_def)
next
  case False
  assume "cbb_error st"
  then show ?thesis using False
    by (cases c) (auto simp: cbb_error_def CBB_did_write_def CBB_discard_child_def Let_def split: option.splits)
qed

text \<open>Any sequence of calls.\<close>

definition cbb_run :: "alloc_env \<Rightarrow> cbb_call list \<Rightarrow> cbb_st \<Rightarrow> cbb_st" where
  "cbb_run E cs st = foldl (\<lambda>st c. snd (cbb_exec E c st)) st cs"

lemma cbb_run_error: "cbb_error st \<Longrightarrow> cbb_error (cbb_run E cs st)"
  by (induction cs arbitrary: st) (simp_all add: cbb_run_def cbb_call_error)

lemma cbb_run_wf: "cbb_wf st \<Longrightarrow> list_all call_ok cs \<Longrightarrow> cbb_wf (cbb_run E cs st)"
  by (induction cs arbitrary: st) (simp_all add: cbb_run_def cbb_call_keeps)

lemma finish_error: "cbb_error st \<Longrightarrow> fst (CBB_finish E d has_data has_len st) = None"
  using flush_error [of st E d] by (auto simp: CBB_finish_def)

end
