(* ===== verification/Unicode.thy ===== *)
theory Unicode
  imports CBB_ASN1
begin

unbundle bit_operations_syntax

text \<open>
  \<^verbatim>\<open>crypto/bytestring/unicode.c\<close>: reading and writing code points in UTF-8, Latin-1, UCS-2 and
  UTF-32.  The UTF-8 reader accepts exactly the well-formed encoding of a valid code point.
\<close>

section \<open>Operations\<close>

definition is_valid_code_point :: "u32 \<Rightarrow> bool" where
  "is_valid_code_point v =
     (if v > 0x10ffff \<or> v AND 0xfffe = 0xfffe \<or> (v \<ge> 0xfdd0 \<and> v \<le> 0xfdef) \<or> (v \<ge> 0xd800 \<and> v \<le> 0xdfff)
      then False else True)"

definition BOTTOM_BITS :: "nat \<Rightarrow> u8" where
  "BOTTOM_BITS n = ucast (push_bit n (1 :: u32) - 1)"

definition TOP_BITS :: "nat \<Rightarrow> u8" where
  "TOP_BITS n = NOT (BOTTOM_BITS (8 - n))"

text \<open>The loop over the continuation bytes; \<open>len\<close> of them are left.\<close>

fun utf8_loop :: "nat \<Rightarrow> u32 \<Rightarrow> u32 reader" where
  "utf8_loop 0 v = rret v"
| "utf8_loop (Suc len) v =
     rbind CBS_get_u8 (\<lambda>c.
       if c AND TOP_BITS 2 \<noteq> TOP_BITS 1 then rfail
       else utf8_loop len (push_bit 6 v OR ucast (c AND BOTTOM_BITS 6)))"

definition cbs_get_utf8 :: "u32 reader" where
  "cbs_get_utf8 =
     rbind CBS_get_u8 (\<lambda>c.
       if c \<le> 0x7f then rret (ucast c)
       else
         case (if c AND TOP_BITS 3 = TOP_BITS 2 then Some (ucast (c AND BOTTOM_BITS 5), 1, 0x80)
               else if c AND TOP_BITS 4 = TOP_BITS 3 then Some (ucast (c AND BOTTOM_BITS 4), 2, 0x800)
               else if c AND TOP_BITS 5 = TOP_BITS 4 then Some (ucast (c AND BOTTOM_BITS 3), 3, 0x10000)
               else None) of
           None \<Rightarrow> rfail
         | Some (v, len, lower_bound) \<Rightarrow>
             rbind (utf8_loop len v) (\<lambda>v.
               if \<not> is_valid_code_point v \<or> v < lower_bound then rfail else rret v))"

definition cbs_get_latin1 :: "u32 reader" where
  "cbs_get_latin1 = rbind CBS_get_u8 (\<lambda>c. rret (ucast c))"

definition cbs_get_ucs2_be :: "u32 reader" where
  "cbs_get_ucs2_be =
     rbind CBS_get_u16 (\<lambda>c. if \<not> is_valid_code_point (ucast c) then rfail else rret (ucast c))"

definition cbs_get_utf32_be :: "u32 reader" where
  "cbs_get_utf32_be = rbind CBS_get_u32 (\<lambda>c. if is_valid_code_point c then rret c else rfail)"

definition cbb_get_utf8_len :: "u32 \<Rightarrow> nat" where
  "cbb_get_utf8_len u = (if u \<le> 0x7f then 1 else if u \<le> 0x7ff then 2 else if u \<le> 0xffff then 3 else 4)"

definition cbb_fail :: cbb_op where
  "cbb_fail = (\<lambda>st. (False, st))"

definition cbb_add_utf8 :: "alloc_env \<Rightarrow> nat \<Rightarrow> u32 \<Rightarrow> cbb_op" where
  "cbb_add_utf8 E d u =
     (let add = (\<lambda>x :: u32. CBB_add_u8 E d (ucast x)) in
      if \<not> is_valid_code_point u then cbb_fail
      else if u \<le> 0x7f then add u
      else if u \<le> 0x7ff then
        andalso (add (ucast (TOP_BITS 2) OR drop_bit 6 u))
          (add (ucast (TOP_BITS 1) OR (u AND ucast (BOTTOM_BITS 6))))
      else if u \<le> 0xffff then
        andalso (add (ucast (TOP_BITS 3) OR drop_bit 12 u))
          (andalso (add (ucast (TOP_BITS 1) OR (drop_bit 6 u AND ucast (BOTTOM_BITS 6))))
            (add (ucast (TOP_BITS 1) OR (u AND ucast (BOTTOM_BITS 6)))))
      else if u \<le> 0x10ffff then
        andalso (add (ucast (TOP_BITS 4) OR drop_bit 18 u))
          (andalso (add (ucast (TOP_BITS 1) OR (drop_bit 12 u AND ucast (BOTTOM_BITS 6))))
            (andalso (add (ucast (TOP_BITS 1) OR (drop_bit 6 u AND ucast (BOTTOM_BITS 6))))
              (add (ucast (TOP_BITS 1) OR (u AND ucast (BOTTOM_BITS 6))))))
      else cbb_fail)"

definition cbb_add_latin1 :: "alloc_env \<Rightarrow> nat \<Rightarrow> u32 \<Rightarrow> cbb_op" where
  "cbb_add_latin1 E d u = (if u \<le> 0xff then CBB_add_u8 E d (ucast u) else cbb_fail)"

definition cbb_add_ucs2_be :: "alloc_env \<Rightarrow> nat \<Rightarrow> u32 \<Rightarrow> cbb_op" where
  "cbb_add_ucs2_be E d u =
     (if u \<le> 0xffff \<and> is_valid_code_point u then CBB_add_u16 E d (ucast u) else cbb_fail)"

definition cbb_add_utf32_be :: "alloc_env \<Rightarrow> nat \<Rightarrow> u32 \<Rightarrow> cbb_op" where
  "cbb_add_utf32_be E d u = (if is_valid_code_point u then CBB_add_u32 E d u else cbb_fail)"

section \<open>Lemmas\<close>

lemma utf8_masks:
  "BOTTOM_BITS 3 = 7" "BOTTOM_BITS 4 = 15" "BOTTOM_BITS 5 = 31" "BOTTOM_BITS 6 = 63"
  "TOP_BITS (Suc 0) = 0x80" "TOP_BITS 1 = 0x80" "TOP_BITS 2 = 0xc0" "TOP_BITS 3 = 0xe0" "TOP_BITS 4 = 0xf0" "TOP_BITS 5 = 0xf8"
  by (simp_all add: BOTTOM_BITS_def TOP_BITS_def)

text \<open>The UTF-8 encoding form (Unicode 3.9, table 3-6).\<close>

definition utf8 :: "nat \<Rightarrow> bytes" where
  "utf8 n =
     (if n < 0x80 then [of_nat n]
      else if n < 0x800 then [of_nat (0xc0 + n div 64), of_nat (0x80 + n mod 64)]
      else if n < 0x10000 then
        [of_nat (0xe0 + n div 4096), of_nat (0x80 + n div 64 mod 64), of_nat (0x80 + n mod 64)]
      else [of_nat (0xf0 + n div 262144), of_nat (0x80 + n div 4096 mod 64), of_nat (0x80 + n div 64 mod 64),
            of_nat (0x80 + n mod 64)])"

lemma top_bits_iff:
  "c AND 0xc0 = 0x80 \<longleftrightarrow> unat (c :: u8) div 64 = 2"
  "c AND 0xe0 = 0xc0 \<longleftrightarrow> unat c div 32 = 6"
  "c AND 0xf0 = 0xe0 \<longleftrightarrow> unat c div 16 = 14"
  "c AND 0xf8 = 0xf0 \<longleftrightarrow> unat c div 8 = 30"
proof -
  have *: "(c AND m = r) = (unat c div 2 ^ k = x)"
    if m: "\<And>c :: u8. c AND m = push_bit k (drop_bit k c)" and r: "r = push_bit k (of_nat x)" and k: "x * 2 ^ k < 256" for m r :: u8 and k x
  proof -
    have u: "unat (push_bit k (of_nat y) :: u8) = y * 2 ^ k" if "y * 2 ^ k < 256" for y
      using that unfolding push_bit_of_nat unat_of_nat_u8 by (simp add: push_bit_eq_mult)
    have d: "drop_bit k c = of_nat (unat c div 2 ^ k)" by (simp add: unat_div_drop_bit)
    have "unat c div 2 ^ k * 2 ^ k < 256"
      using unsigned_less [of c, where 'a = nat] by (simp add: order.strict_trans1 [OF div_times_less_eq_dividend])
    from u [OF this] u [OF k] have "c AND m = r \<longleftrightarrow> unat c div 2 ^ k * 2 ^ k = x * 2 ^ k"
      unfolding m r d word_unat_eq_iff by simp
    then show ?thesis by simp
  qed
  show "c AND 0xc0 = 0x80 \<longleftrightarrow> unat (c :: u8) div 64 = 2"
    using * [of "0xc0" 6 "0x80" 2] by (simp add: u8_eq_bits all_less_unfold bit_simps)
  show "c AND 0xe0 = 0xc0 \<longleftrightarrow> unat c div 32 = 6"
    using * [of "0xe0" 5 "0xc0" 6] by (simp add: u8_eq_bits all_less_unfold bit_simps)
  show "c AND 0xf0 = 0xe0 \<longleftrightarrow> unat c div 16 = 14"
    using * [of "0xf0" 4 "0xe0" 14] by (simp add: u8_eq_bits all_less_unfold bit_simps)
  show "c AND 0xf8 = 0xf0 \<longleftrightarrow> unat c div 8 = 30"
    using * [of "0xf8" 3 "0xf0" 30] by (simp add: u8_eq_bits all_less_unfold bit_simps)
qed


fun cont :: "nat \<Rightarrow> nat \<Rightarrow> bytes" where
  "cont 0 n = []"
| "cont (Suc k) n = of_nat (0x80 + n div 64 ^ k mod 64) # cont k n"

lemma u8_eq_of_nat: "n < 256 \<Longrightarrow> c = (of_nat n :: u8) \<longleftrightarrow> unat c = n"
  by (auto simp: word_unat_eq_iff unat_of_nat_u8)

lemma unat_and_masks: "unat ((c :: u8) AND 63) = unat c mod 64" "unat (c AND 31) = unat c mod 32"
  "unat (c AND 15) = unat c mod 16" "unat (c AND 7) = unat c mod 8" "unat ((u :: u32) AND 63) = unat u mod 64"
  using unat_and_mask [of c 6] unat_and_mask [of c 5] unat_and_mask [of c 4] unat_and_mask [of c 3] unat_and_mask [of u 6]
  by (simp_all add: mask_numeral)

lemma utf8_digit:
  fixes c x v :: nat
  shows "c div 64 = 2 \<and> x = v * 64 + c mod 64 \<longleftrightarrow> c = 0x80 + x mod 64 \<and> x div 64 = v"
proof
  assume a: "c div 64 = 2 \<and> x = v * 64 + c mod 64"
  then have "c = 64 * 2 + c mod 64" using mult_div_mod_eq [of 64 c] by simp
  with a show "c = 0x80 + x mod 64 \<and> x div 64 = v" by simp
next
  assume a: "c = 0x80 + x mod 64 \<and> x div 64 = v"
  moreover have "(128 + m) div 64 = 2 \<and> (128 + m) mod 64 = m" if "m < 64" for m :: nat
    using that div_mult_self3 [of 64 2 m] mod_mult_self3 [of 2 64 m] by simp
  ultimately have "c div 64 = 2 \<and> c mod 64 = x mod 64" by simp
  with a show "c div 64 = 2 \<and> x = v * 64 + c mod 64" using mult_div_mod_eq [of 64 x] by simp
qed

lemma utf8_lead_exclusive:
  fixes c :: nat
  shows "c div 32 = 6 \<Longrightarrow> c div 16 \<noteq> 14" "c div 32 = 6 \<Longrightarrow> c div 8 \<noteq> 30" "c div 16 = 14 \<Longrightarrow> c div 8 \<noteq> 30"
  by linarith+

lemma utf8_loop_iff:
  "(unat v + 1) * 64 ^ len \<le> 2 ^ 32 \<Longrightarrow>
   utf8_loop len v s = (Some w, t) \<longleftrightarrow> s = cont len (unat w) @ t \<and> unat w div 64 ^ len = unat v"
proof (induction len arbitrary: v s)
  case 0
  then show ?case by (auto simp: rret_def word_unat_eq_iff)
next
  case (Suc len)
  show ?case
  proof (cases s)
    case Nil
    then show ?thesis by (simp add: reader_simps CBS_get_u8_def cbs_get_def)
  next
    case (Cons c r)
    let ?v = "push_bit 6 v OR ucast (c AND 63)"
    have "(unat v + 1) * 64 * 1 \<le> (unat v + 1) * 64 * 64 ^ len" by (intro mult_le_mono) simp_all
    with Suc.prems have "(unat v + 1) * 64 \<le> 2 ^ 32" by (simp only: power_Suc mult.assoc mult_1_right)
    then have "unat v * 64 < 2 ^ 32" by simp
    then have v: "unat ?v = unat v * 64 + unat c mod 64"
      using push_or_disjoint [of "ucast (c AND 63)" 6 v] by (simp add: unat_ucast_up unat_and_masks)
    have "(unat ?v + 1) * 64 ^ len \<le> (unat v + 1) * 64 ^ Suc len"
    proof -
      have "unat ?v + 1 \<le> (unat v + 1) * 64" using v mod_less_divisor [of 64 "unat c"] by simp
      then have "(unat ?v + 1) * 64 ^ len \<le> (unat v + 1) * 64 * 64 ^ len" by (rule mult_le_mono1)
      then show ?thesis by (simp only: power_Suc mult.assoc)
    qed
    with Suc.prems have "(unat ?v + 1) * 64 ^ len \<le> 2 ^ 32" by (rule order_trans [rotated])
    note ih = Suc.IH [OF this, of r]
    have "utf8_loop (Suc len) v s = (if unat c div 64 = 2 then utf8_loop len ?v r else (None, r))"
      by (simp add: Cons reader_simps CBS_get_u8_def cbs_get_def utf8_masks top_bits_iff)
    then have "utf8_loop (Suc len) v s = (Some w, t) \<longleftrightarrow>
        unat c div 64 = 2 \<and> r = cont len (unat w) @ t \<and> unat w div 64 ^ len = unat v * 64 + unat c mod 64"
      using ih v by simp
    also have "\<dots> \<longleftrightarrow> r = cont len (unat w) @ t \<and> unat c = 0x80 + unat w div 64 ^ len mod 64 \<and> unat w div 64 ^ len div 64 = unat v"
      using utf8_digit [of "unat c" "unat w div 64 ^ len" "unat v"] by blast
    also have "\<dots> \<longleftrightarrow> s = cont (Suc len) (unat w) @ t \<and> unat w div 64 ^ Suc len = unat v"
      using u8_eq_of_nat [of "0x80 + unat w div 64 ^ len mod 64" c]
      by (auto simp: Cons div_mult2_eq [symmetric] mult.commute simp del: of_nat_add)
    finally show ?thesis .
  qed
qed


text \<open>
  The characters of a text, as the Unicode standard defines them: the scalar values (code points that are not surrogates)
  without the 66 noncharacters.
\<close>

definition scalar_value :: "nat \<Rightarrow> bool" where
  "scalar_value n \<longleftrightarrow> n < 0xd800 \<or> (0xe000 \<le> n \<and> n \<le> 0x10ffff)"

definition noncharacter :: "nat \<Rightarrow> bool" where
  "noncharacter n \<longleftrightarrow> (0xfdd0 \<le> n \<and> n \<le> 0xfdef) \<or> n mod 0x10000 = 0xfffe \<or> n mod 0x10000 = 0xffff"

definition text_char :: "u32 \<Rightarrow> bool" where
  "text_char c \<longleftrightarrow> scalar_value (unat c) \<and> \<not> noncharacter (unat c)"

lemma unat_numeral_u32: "unat (0xfffe :: u32) = 0xfffe"
  by simp

lemma and_fffe: "v AND 0xfffe = 0xfffe \<longleftrightarrow> unat v mod 0x10000 = 0xfffe \<or> unat v mod 0x10000 = 0xffff" for v :: u32
proof -
  have "v AND 0xfffe = push_bit 1 (take_bit 15 (drop_bit 1 v))"
  proof (rule bit_word_eqI)
    fix i assume "i < LENGTH(32)"
    have e: "(0xfffe :: u32) = push_bit 1 (mask 15)" by (simp add: mask_eq_exp_minus_1)
    have "bit (0xfffe :: u32) i \<longleftrightarrow> 1 \<le> i \<and> i < 16" using \<open>i < LENGTH(32)\<close> unfolding e bit_push_bit_iff bit_mask_iff by auto
    then show "bit (v AND 0xfffe) i \<longleftrightarrow> bit (push_bit 1 (take_bit 15 (drop_bit 1 v))) i"
      using \<open>i < LENGTH(32)\<close> unfolding bit_and_iff bit_push_bit_iff bit_take_bit_iff bit_drop_bit_eq by auto
  qed
  moreover have "unat (push_bit 1 (take_bit 15 (drop_bit 1 v))) = 2 * (unat v div 2 mod 2 ^ 15)"
  proof -
    have x: "unat (take_bit 15 (drop_bit 1 v)) = unat v div 2 mod 2 ^ 15"
      using unat_div_drop_bit [of v 1] by (simp add: take_bit_eq_mod unat_mod)
    then have "unat (take_bit 15 (drop_bit 1 v)) < 2 ^ 15" by simp
    then show ?thesis using x by (simp add: push_bit_eq_mult unat_word_ariths)
  qed
  moreover have "unat v mod 0x10000 = 2 * (unat v div 2 mod 2 ^ 15) + unat v mod 2" using mod_mult2_eq [of "unat v" 2 "2 ^ 15"] by simp
  moreover have "2 * q = 0xfffe \<longleftrightarrow> 2 * q + r = 0xfffe \<or> 2 * q + r = 0xffff" if "r < 2" for q r :: nat using that by auto
  moreover have "unat v mod 2 < 2" by simp
  ultimately show ?thesis unfolding word_unat_eq_iff unat_numeral_u32 by metis
qed

lemma is_valid_code_point_iff: "is_valid_code_point v \<longleftrightarrow> text_char v"
  by (auto simp: is_valid_code_point_def text_char_def scalar_value_def noncharacter_def and_fffe word_le_nat_alt word_less_nat_alt)

lemma code_point_range: "is_valid_code_point v \<Longrightarrow> unat v \<le> 0x10ffff"
  by (auto simp: is_valid_code_point_def word_less_nat_alt split: if_splits)

lemma ascii_valid: "unat v < 0x80 \<Longrightarrow> is_valid_code_point v"
proof -
  assume v: "unat v < 0x80"
  have "v AND 0xfffe \<noteq> 0xfffe"
  proof
    assume "v AND 0xfffe = 0xfffe"
    then have "unat (v AND 0xfffe) = 0xfffe" by simp
    moreover have "unat (v AND 0xfffe) \<le> unat v" by (simp flip: word_le_nat_alt add: word_and_le2)
    ultimately show False using v by simp
  qed
  then show ?thesis using v by (simp add: is_valid_code_point_def word_less_nat_alt word_le_nat_alt)
qed

text \<open>What follows a lead byte of a multi-byte sequence with payload \<open>v\<close>.\<close>

lemma utf8_tail_iff:
  assumes "unat v < 64"
  and "len \<le> 3"
  shows "rbind (utf8_loop len v) (\<lambda>v. if \<not> is_valid_code_point v \<or> v < lb then rfail else rret v) s = (Some w, t) \<longleftrightarrow>
     s = cont len (unat w) @ t \<and> unat w div 64 ^ len = unat v \<and> is_valid_code_point w \<and> unat lb \<le> unat w"
proof -
  have "(unat v + 1) * 64 ^ len \<le> 64 * 64 ^ 3"
    using assms by (intro mult_le_mono power_increasing) simp_all
  then have "(unat v + 1) * 64 ^ len \<le> 2 ^ 32" by simp
  from utf8_loop_iff [OF this] show ?thesis
    unfolding rbind_eq_Some by (auto simp: rret_def rfail_def word_less_nat_alt split: if_splits)
qed

lemma cbs_get_utf8_lead:
  "cbs_get_utf8 (c # s) = (Some w, t) \<longleftrightarrow>
     (if unat c < 0x80 then s = t \<and> unat w = unat c
      else is_valid_code_point w \<and>
        (unat c div 32 = 6 \<and> s = cont 1 (unat w) @ t \<and> unat w div 64 = unat c mod 32 \<and> 0x80 \<le> unat w
       \<or> unat c div 16 = 14 \<and> s = cont 2 (unat w) @ t \<and> unat w div 4096 = unat c mod 16 \<and> 0x800 \<le> unat w
       \<or> unat c div 8 = 30 \<and> s = cont 3 (unat w) @ t \<and> unat w div 262144 = unat c mod 8 \<and> 0x10000 \<le> unat w))"
proof -
  have small: "unat (ucast (c AND 31) :: u32) < 64" "unat (ucast (c AND 15) :: u32) < 64" "unat (ucast (c AND 7) :: u32) < 64"
    by (simp_all add: unat_ucast_up unat_and_masks order.strict_trans [OF mod_less_divisor])
  note ex = utf8_lead_exclusive [of "unat c"]
  have le: "c \<le> 0x7f \<longleftrightarrow> unat c < 0x80" by (auto simp: word_le_nat_alt)
  have u8: "CBS_get_u8 (c # s) = (Some c, s)" by (simp add: CBS_get_u8_def cbs_get_def reader_simps)
  note um = unat_ucast_up unat_and_masks
  show ?thesis
  proof (cases "unat c < 0x80")
    case True
    then show ?thesis
      by (auto simp: cbs_get_utf8_def rbind_def u8 le word_unat_eq_iff unat_ucast_up rret_def)
  next
    case False
    note unf = cbs_get_utf8_def rbind_def [of CBS_get_u8] u8 le utf8_masks top_bits_iff
    consider "unat c div 32 = 6" | "unat c div 16 = 14" "unat c div 32 \<noteq> 6" | "unat c div 8 = 30" "unat c div 16 \<noteq> 14" "unat c div 32 \<noteq> 6"
      | "unat c div 8 \<noteq> 30" "unat c div 16 \<noteq> 14" "unat c div 32 \<noteq> 6" by blast
    then show ?thesis
    proof cases
      case 1
      then show ?thesis using False ex utf8_tail_iff [OF small(1), of 1 "0x80" s w t] by (auto simp: unf um)
    next
      case 2
      then show ?thesis using False ex utf8_tail_iff [OF small(2), of 2 "0x800" s w t] by (auto simp: unf um)
    next
      case 3
      then show ?thesis using False ex utf8_tail_iff [OF small(3), of 3 "0x10000" s w t] by (auto simp: unf um)
    next
      case 4
      then show ?thesis using False by (simp add: unf rfail_def)
    qed
  qed
qed


lemma lead_eq:
  fixes c n b k :: nat
  assumes "b mod k = 0" and "0 < k" and "n < k"
  shows "c div k = b div k \<and> n = c mod k \<longleftrightarrow> c = b + n"
  using assms by (metis add.commute add.left_neutral div_mult_mod_eq mod_add_left_eq mod_less mod_mod_trivial div_plus_div_distrib_dvd_left mod_eq_0_iff_dvd div_less add_0_right)

lemma cbs_get_utf8_iff:
  "cbs_get_utf8 s = (Some w, t) \<longleftrightarrow> is_valid_code_point w \<and> s = utf8 (unat w) @ t"
proof (cases s)
  case Nil
  then show ?thesis by (auto simp: cbs_get_utf8_def rbind_def CBS_get_u8_def cbs_get_def utf8_def)
next
  case (Cons c r)
  have c256: "unat c < 256" using unsigned_less [of c, where 'a = nat] by simp
  let ?n = "unat w"
  have 2: "unat c div 32 = 6 \<and> ?n div 64 = unat c mod 32 \<longleftrightarrow> unat c = 0xc0 + ?n div 64" if "?n < 0x800"
    using lead_eq [of "0xc0" 32 "?n div 64" "unat c"] that by (simp add: less_mult_imp_div_less)
  have 3: "unat c div 16 = 14 \<and> ?n div 4096 = unat c mod 16 \<longleftrightarrow> unat c = 0xe0 + ?n div 4096" if "?n < 0x10000"
    using lead_eq [of "0xe0" 16 "?n div 4096" "unat c"] that by (simp add: less_mult_imp_div_less)
  have 4: "unat c div 8 = 30 \<and> ?n div 262144 = unat c mod 8 \<longleftrightarrow> unat c = 0xf0 + ?n div 262144" if "?n < 0x110000"
    using lead_eq [of "0xf0" 8 "?n div 262144" "unat c"] that by (simp add: less_mult_imp_div_less)
  have up: "?n div 64 = unat c mod 32 \<Longrightarrow> ?n < 0x800" "?n div 4096 = unat c mod 16 \<Longrightarrow> ?n < 0x10000"
    using div_less_iff_less_mult [of 64 ?n 32] div_less_iff_less_mult [of 4096 ?n 16] by simp_all
  have ct: "utf8 ?n = (if ?n < 0x80 then [of_nat ?n] else if ?n < 0x800 then of_nat (0xc0 + ?n div 64) # cont 1 ?n
      else if ?n < 0x10000 then of_nat (0xe0 + ?n div 4096) # cont 2 ?n else of_nat (0xf0 + ?n div 262144) # cont 3 ?n)"
    by (simp add: utf8_def numeral_2_eq_2 numeral_3_eq_3)
  have b: "?n < 0x800 \<Longrightarrow> 0xc0 + ?n div 64 < 256" "?n < 0x10000 \<Longrightarrow> 0xe0 + ?n div 4096 < 256" "?n < 0x110000 \<Longrightarrow> 0xf0 + ?n div 262144 < 256"
    using less_mult_imp_div_less [of ?n 32 64] less_mult_imp_div_less [of ?n 16 4096] less_mult_imp_div_less [of ?n 8 262144] by simp_all
  note lead = cbs_get_utf8_lead [of c r w t, folded Cons]
  have hi: "is_valid_code_point w \<Longrightarrow> ?n < 0x110000" using code_point_range [of w] by simp
  consider "?n < 0x80" | "0x80 \<le> ?n" "?n < 0x800" | "0x800 \<le> ?n" "?n < 0x10000" | "0x10000 \<le> ?n" by linarith
  then show ?thesis
  proof cases
    case 1
    then show ?thesis unfolding lead ct using ascii_valid [OF 1] u8_eq_of_nat [of ?n c] by (auto simp: Cons)
  next
    case A: 2
    then show ?thesis unfolding lead ct using 2 [OF A(2)] u8_eq_of_nat [OF b(1) [OF A(2)], of c]
      by (auto simp: Cons simp del: of_nat_add)
  next
    case A: 3
    then show ?thesis unfolding lead ct using 3 [OF A(2)] u8_eq_of_nat [OF b(2) [OF A(2)], of c] up
      by (auto simp: Cons simp del: of_nat_add)
  next
    case A: 4
    then show ?thesis unfolding lead ct using 4 [OF hi] u8_eq_of_nat [OF b(3) [OF hi], of c] up
      by (auto simp: Cons simp del: of_nat_add)
  qed
qed

interpretation utf8: codec "\<lambda>w. utf8 (unat w)" cbs_get_utf8 is_valid_code_point
  by unfold_locales (simp add: cbs_get_utf8_iff)

lemma add_utf8_byte:
  assumes "n < 2 ^ k" and "m * 2 ^ k + n < 256" and "unat (x :: u32) = n"
  shows "(ucast (push_bit k (of_nat m) OR x :: u32) :: u8) = of_nat (m * 2 ^ k + n)"
proof -
  have "m * 1 \<le> m * 2 ^ k" by (intro mult_le_mono) simp_all
  then have "m < 256" using assms(2) by linarith
  then have "unat (of_nat m :: u32) = m" by (simp add: unat_of_nat)
  then have "unat (push_bit k (of_nat m) OR x) = m * 2 ^ k + n"
    using push_or_disjoint [of x k "of_nat m"] assms by simp
  then show ?thesis by (metis of_nat_unat_ucast)
qed


lemma utf8_continuation: "(ucast ((0x80 :: u32) OR (x AND 0x3f)) :: u8) = of_nat (0x80 + unat x mod 64)"
  using add_utf8_byte [of "unat x mod 64" 6 2 "x AND 0x3f"] by (simp add: unat_and_masks order.strict_trans [OF mod_less_divisor])

lemma utf8_lead_bytes:
  "unat u < 0x800 \<Longrightarrow> (ucast ((0xc0 :: u32) OR drop_bit 6 u) :: u8) = of_nat (0xc0 + unat u div 64)"
  "unat u < 0x10000 \<Longrightarrow> (ucast ((0xe0 :: u32) OR drop_bit 12 u) :: u8) = of_nat (0xe0 + unat u div 4096)"
  "unat u < 0x110000 \<Longrightarrow> (ucast ((0xf0 :: u32) OR drop_bit 18 u) :: u8) = of_nat (0xf0 + unat u div 262144)"
proof -
  have d: "unat (drop_bit 6 u) = unat u div 64" "unat (drop_bit 12 u) = unat u div 4096" "unat (drop_bit 18 u) = unat u div 262144"
    using unat_div_drop_bit [of u 6] unat_div_drop_bit [of u 12] unat_div_drop_bit [of u 18] by simp_all
  show "unat u < 0x800 \<Longrightarrow> (ucast ((0xc0 :: u32) OR drop_bit 6 u) :: u8) = of_nat (0xc0 + unat u div 64)"
    using less_mult_imp_div_less [of "unat u" 32 64] add_utf8_byte [of "unat u div 64" 5 6 "drop_bit 6 u"] d by simp
  show "unat u < 0x10000 \<Longrightarrow> (ucast ((0xe0 :: u32) OR drop_bit 12 u) :: u8) = of_nat (0xe0 + unat u div 4096)"
    using less_mult_imp_div_less [of "unat u" 16 4096] add_utf8_byte [of "unat u div 4096" 4 14 "drop_bit 12 u"] d by simp
  show "unat u < 0x110000 \<Longrightarrow> (ucast ((0xf0 :: u32) OR drop_bit 18 u) :: u8) = of_nat (0xf0 + unat u div 262144)"
    using less_mult_imp_div_less [of "unat u" 8 262144] add_utf8_byte [of "unat u div 262144" 3 30 "drop_bit 18 u"] d by simp
qed

lemma utf8_mid: "unat (drop_bit 6 u) = unat u div 64" "unat (drop_bit 12 u) = unat u div 4096" for u :: u32
  using unat_div_drop_bit [of u 6] unat_div_drop_bit [of u 12] by simp_all

lemma utf8_mask_words:
  "(ucast (TOP_BITS 1) :: u32) = 0x80" "(ucast (TOP_BITS 2) :: u32) = 0xc0" "(ucast (TOP_BITS 3) :: u32) = 0xe0"
  "(ucast (TOP_BITS 4) :: u32) = 0xf0" "(ucast (BOTTOM_BITS 6) :: u32) = 0x3f"
  by (simp_all add: utf8_masks)

lemmas utf8_bytes = utf8_mask_words utf8_continuation utf8_lead_bytes utf8_mid

lemma cbb_add_utf8_writer:
  assumes "is_valid_code_point u"
  shows "cbb_writer (\<lambda>d. cbb_add_utf8 E d u) (utf8 (unat u))"
proof -
  have hi: "unat u < 0x110000" using code_point_range [OF assms] by simp
  have one: "ucast u = (of_nat (unat u) :: u8)" by (simp add: of_nat_unat_ucast)
  note w = add_u8.cbb_writer_axioms [of E] and s = writer_andalso
  have le: "u \<le> 0x7f \<longleftrightarrow> unat u < 0x80" "u \<le> 0x7ff \<longleftrightarrow> unat u < 0x800" "u \<le> 0xffff \<longleftrightarrow> unat u < 0x10000" "u \<le> 0x10ffff \<longleftrightarrow> unat u < 0x110000"
    by (auto simp: word_le_nat_alt)
  note unf = cbb_add_utf8_def Let_def assms le utf8_bytes if_True if_False not_True_eq_False one
  consider "unat u < 0x80" | "\<not> unat u < 0x80" "unat u < 0x800" | "\<not> unat u < 0x80" "\<not> unat u < 0x800" "unat u < 0x10000"
    | "\<not> unat u < 0x80" "\<not> unat u < 0x800" "\<not> unat u < 0x10000" by linarith
  then show ?thesis
  proof cases
    case 1
    then show ?thesis using w by (simp only: unf utf8_def)
  next
    case 2
    then show ?thesis
      using s [OF w [of "of_nat (0xc0 + unat u div 64)"] w [of "of_nat (0x80 + unat u mod 64)"]]
      by (simp only: unf utf8_def append_Cons append_Nil)
  next
    case 3
    then show ?thesis
      using s [OF w [of "of_nat (0xe0 + unat u div 4096)"] s [OF w [of "of_nat (0x80 + unat u div 64 mod 64)"] w [of "of_nat (0x80 + unat u mod 64)"]]]
      by (simp only: unf utf8_def append_Cons append_Nil)
  next
    case 4
    then show ?thesis using hi
      s [OF w [of "of_nat (0xf0 + unat u div 262144)"] s [OF w [of "of_nat (0x80 + unat u div 4096 mod 64)"]
        s [OF w [of "of_nat (0x80 + unat u div 64 mod 64)"] w [of "of_nat (0x80 + unat u mod 64)"]]]]
      by (simp only: unf utf8_def append_Cons append_Nil)
  qed
qed

lemma length_utf8: "is_valid_code_point u \<Longrightarrow> length (utf8 (unat u)) = cbb_get_utf8_len u"
  by (auto simp: utf8_def cbb_get_utf8_len_def word_le_nat_alt)

interpretation latin1: codec "\<lambda>u. [ucast u]" cbs_get_latin1 "\<lambda>u. u \<le> 0xff"
proof
  fix u rest assume "u \<le> (0xff :: u32)"
  then have "unat u mod 256 = unat u" by (simp add: word_le_nat_alt)
  then have "unat (ucast u :: u8) = unat u" by (simp only: of_nat_unat_ucast [symmetric] unat_of_nat_u8)
  then show "cbs_get_latin1 ([ucast u] @ rest) = (Some u, rest)"
    by (simp add: cbs_get_latin1_def reader_simps CBS_get_u8_def cbs_get_def word_unat_eq_iff unat_ucast_up)
qed

interpretation utf32_be: codec "\<lambda>u. be_bytes 4 (unat u)" cbs_get_utf32_be is_valid_code_point
  by unfold_locales (simp add: cbs_get_utf32_be_def rbind_def u32.dec_enc rret_def)

interpretation ucs2_be: codec "\<lambda>u. be_bytes 2 (unat u)" cbs_get_ucs2_be "\<lambda>u. u \<le> 0xffff \<and> is_valid_code_point u"
proof
  fix u rest assume u: "u \<le> (0xffff :: u32) \<and> is_valid_code_point u"
  define c :: u16 where "c = ucast u"
  have n: "unat c = unat u" using u by (simp add: c_def unsigned_ucast_eq word_le_nat_alt take_bit_nat_eq_self)
  have cu: "ucast c = u" by (simp add: word_unat_eq_iff unat_ucast_up n)
  show "cbs_get_ucs2_be (be_bytes 2 (unat u) @ rest) = (Some u, rest)"
    using u16.dec_enc [of c rest] u by (simp add: cbs_get_ucs2_be_def rbind_def n cu rret_def)
qed

end
