(* ===== verification/BER.thy ===== *)
theory BER
  imports CBB_ASN1
begin

unbundle bit_operations_syntax

text \<open>
  \<^verbatim>\<open>crypto/bytestring/ber.c\<close>: finding BER constructs, converting BER to DER, and reading implicitly
  tagged strings.  The conversion always ends (its fuel is never used up); the search for BER loses
  what it found in a nested element when another element follows.
\<close>

section \<open>Elements\<close>

definition kMaxDepth :: nat where
  "kMaxDepth = 2048"

text \<open>
  The cases of the switch: OCTET STRING, UTF8String, NumericString, PrintableString, T61String,
  VideotexString, IA5String, GraphicString, VisibleString, GeneralString, UniversalString and
  BMPString, by their tag numbers in \<^verbatim>\<open>bytestring.h\<close>.
\<close>

definition is_string_type :: "u32 \<Rightarrow> bool" where
  "is_string_type tag =
     (tag AND NOT CBS_ASN1_CONSTRUCTED \<in>
        {CBS_ASN1_OCTETSTRING, 0xc, 0x12, 0x13, 0x14, 0x15, 0x16, 0x19, 0x1a, 0x1b, 0x1c, 0x1e})"

lemma ber_element_cases:
  assumes "CBS_get_any_ber_asn1_element s = (Some el, t)"
  obtains n tag hl bf where "get_element_bytes n tag hl bf s = (Some el, t)" "1 \<le> hl" "hl \<le> n"
proof -
  obtain tag h where p: "parse_asn1_tag s = (Some tag, h)"
    using assms by (auto simp: CBS_get_any_ber_asn1_element_def cbs_get_any_asn1_element_def split: prod.splits option.splits)
  then have s: "s = der_tag tag @ h" by (simp add: parse_asn1_tag_iff)
  obtain lb h2 where h: "h = lb # h2"
    using assms p by (cases h) (auto simp: CBS_get_any_ber_asn1_element_def cbs_get_any_asn1_element_def CBS_get_u8_def cbs_get_def reader_simps)
  define hl where "hl = length (der_tag tag) + 1"
  have hl: "CBS_len s - CBS_len h2 = hl" "1 \<le> hl" "hl \<le> 7"
    using length_der_tag [of tag] by (simp_all add: s h CBS_len_def hl_def)
  have u8: "CBS_get_u8 h = (Some lb, h2)" by (simp add: h CBS_get_u8_def cbs_get_def reader_simps)
  note eq = assms [unfolded CBS_get_any_ber_asn1_element_def cbs_get_any_asn1_element_def p prod.case option.case u8 Let_def hl(1)]
  define k where "k = unat (lb AND 0x7f)"
  consider "lb AND 0x80 = 0" | "lb AND 0x80 \<noteq> 0" "tag AND CBS_ASN1_CONSTRUCTED \<noteq> 0 \<and> k = 0"
    | "lb AND 0x80 \<noteq> 0" "\<not> (tag AND CBS_ASN1_CONSTRUCTED \<noteq> 0 \<and> k = 0)" by blast
  then show thesis
  proof cases
    case 1
    then show thesis using that [of "unat lb + hl" tag hl False] eq hl by simp
  next
    case 2
    then show thesis using that [of hl tag hl True] eq hl by (simp add: k_def)
  next
    case 3
    then have k: "1 \<le> k" "k \<le> 4" using eq unfolding k_def by (auto simp: Suc_le_eq split: if_splits)
    obtain len64 r where u: "cbs_get_u k h2 = (Some len64, r)"
      using 3 eq k unfolding k_def by (auto split: if_splits prod.splits option.splits)
    have "(256::nat) ^ k \<le> 256 ^ 4" using k by (intro power_increasing) simp_all
    moreover obtain p where "length p = k" "len64 = of_nat (be_nat p)" using u k cbs_get_u_Some [of k h2 len64 r] by auto
    ultimately have len: "unat len64 < 2 ^ 32" using be_nat_lt [of p] by (simp add: unat_of_nat)
    have n: "size_add (unat len64) (size_add hl k) = unat len64 + hl + k"
      using len hl k by (simp add: size_add_small)
    show thesis
      using 3 eq k u that [of "unat len64 + hl + k" tag "hl + k"] hl n unfolding k_def
      by (auto split: if_splits)
  qed
qed

lemma ber_element_shorter:
  assumes "CBS_get_any_ber_asn1_element s = (Some el, t)"
  shows "s = el_out el @ t" and "length t < length s" and "el_header_len el \<le> length (el_out el)" and "1 \<le> el_header_len el"
  using assms by (auto elim!: ber_element_cases simp: get_element_bytes_Some)

lemma ber_contents_shorter:
  assumes "CBS_get_any_ber_asn1_element s = (Some el, t)" and "CBS_skip (el_header_len el) (el_out el) = (Some u, c)"
  shows "length c < length s"
  using ber_element_shorter [OF assms(1)] assms(2) arg_cong [OF ber_element_shorter(1) [OF assms(1)], of length]
  by (auto simp: CBS_skip_def cbs_get_def rbind_eq_Some rret_def split: if_splits)

section \<open>Operations\<close>

text \<open>
  \<^verbatim>\<open>cbs_find_ber\<close>: \<open>None\<close> on error, otherwise \<^verbatim>\<open>*ber_found\<close>.  The loop is given the value of
  \<^verbatim>\<open>*ber_found\<close> from the previous iteration, which it returns when the input ends.
\<close>

function cbs_find_ber_loop :: "nat \<Rightarrow> bool \<Rightarrow> bytes \<Rightarrow> bool option" where
  "cbs_find_ber_loop depth ber_found inp =
     (if length inp > 0 then
        case CBS_get_any_ber_asn1_element inp of
          (None, _) \<Rightarrow> None
        | (Some el, inp') \<Rightarrow>
            if el_ber_found el then Some True
            else if el_tag el AND CBS_ASN1_CONSTRUCTED \<noteq> 0 then
              if is_string_type (el_tag el) then Some True
              else
                case CBS_skip (el_header_len el) (el_out el) of
                  (None, _) \<Rightarrow> None
                | (Some _, contents) \<Rightarrow>
                    (case (if depth + 1 > kMaxDepth then None
                           else cbs_find_ber_loop (depth + 1) False contents) of
                       None \<Rightarrow> None
                     | Some found \<Rightarrow> cbs_find_ber_loop depth found inp')
            else cbs_find_ber_loop depth (el_ber_found el) inp'
      else Some ber_found)"
  by pat_completeness auto
termination
  by (relation "measure (\<lambda>(d, f, inp). length inp)")
    (auto dest!: sym [of "(_, _)"] intro: ber_element_shorter(2) ber_contents_shorter)


declare cbs_find_ber_loop.simps [simp del]

definition cbs_find_ber :: "bytes \<Rightarrow> nat \<Rightarrow> bool option" where
  "cbs_find_ber orig_in depth = (if depth > kMaxDepth then None else cbs_find_ber_loop depth False orig_in)"

definition is_eoc :: "nat \<Rightarrow> bytes \<Rightarrow> bool" where
  "is_eoc header_len contents \<longleftrightarrow> header_len = 2 \<and> CBS_len contents = 2 \<and> contents = [0, 0]"

text \<open>
  \<^verbatim>\<open>cbs_convert_ber\<close> from the top of its loop: the result is the success flag, the rest of the
  input and the tree.  Every iteration consumes input, and the argument \<open>fuel\<close> bounds the
  iterations and calls; it is one more than the length of the input at the outermost call.
  \<^verbatim>\<open>out\<close> is the \<^verbatim>\<open>CBB\<close> at depth \<open>d\<close>, and \<^verbatim>\<open>out_contents\<close> that at depth \<open>dc\<close>.
\<close>

primrec cbs_convert_loop ::
    "nat \<Rightarrow> alloc_env \<Rightarrow> u32 \<Rightarrow> bool \<Rightarrow> nat \<Rightarrow> nat \<Rightarrow> bytes \<Rightarrow> cbb_st \<Rightarrow> (bool \<times> bytes \<times> cbb_st) option" where
  "cbs_convert_loop 0 E string_tag looking_for_eoc depth d inp st = None"
| "cbs_convert_loop (Suc fuel) E string_tag looking_for_eoc depth d inp st =
     (if depth > kMaxDepth then Some (False, inp, st)
      else if length inp > 0 then
        case CBS_get_any_ber_asn1_element inp of
          (None, inp) \<Rightarrow> Some (False, inp, st)
        | (Some el, inp) \<Rightarrow>
            (let contents = el_out el; tag = el_tag el; header_len = el_header_len el in
             if is_eoc header_len contents then Some (looking_for_eoc, inp, st)
             else
               let (ok, child_string_tag, dc, st) =
                 (if string_tag \<noteq> 0 then
                    if tag AND NOT CBS_ASN1_CONSTRUCTED \<noteq> string_tag then (False, string_tag, d, st)
                    else (True, string_tag, d, st)
                  else
                    let constructed_string = (tag AND CBS_ASN1_CONSTRUCTED \<noteq> 0 \<and> is_string_type tag);
                        out_tag = (if constructed_string then tag AND NOT CBS_ASN1_CONSTRUCTED else tag);
                        child_string_tag = (if constructed_string then out_tag else string_tag)
                    in case CBB_add_asn1 E d out_tag st of (ok, st) \<Rightarrow> (ok, child_string_tag, d + 1, st))
               in if \<not> ok then Some (False, inp, st)
                  else if CBS_len contents = header_len \<and> header_len > 0 \<and> contents ! (header_len - 1) = 0x80 then
                    (case cbs_convert_loop fuel E child_string_tag True (depth + 1) dc inp st of
                       None \<Rightarrow> None
                     | Some (False, inp, st) \<Rightarrow> Some (False, inp, st)
                     | Some (True, inp, st) \<Rightarrow>
                         (case CBB_flush E d st of
                            (False, st) \<Rightarrow> Some (False, inp, st)
                          | (True, st) \<Rightarrow> cbs_convert_loop fuel E string_tag looking_for_eoc depth d inp st))
                  else
                    case CBS_skip header_len contents of
                      (None, _) \<Rightarrow> Some (False, inp, st)
                    | (Some _, contents) \<Rightarrow>
                        (case (if tag AND CBS_ASN1_CONSTRUCTED \<noteq> 0
                               then map_option (\<lambda>(ok, _, st). (ok, st))
                                      (cbs_convert_loop fuel E child_string_tag False (depth + 1) dc contents st)
                               else Some (CBB_add_bytes E dc contents st)) of
                           None \<Rightarrow> None
                         | Some (False, st) \<Rightarrow> Some (False, inp, st)
                         | Some (True, st) \<Rightarrow>
                             (case CBB_flush E d st of
                                (False, st) \<Rightarrow> Some (False, inp, st)
                              | (True, st) \<Rightarrow> cbs_convert_loop fuel E string_tag looking_for_eoc depth d inp st)))
      else Some (\<not> looking_for_eoc, inp, st))"

declare cbs_convert_loop.simps [simp del]

definition cbs_convert_ber ::
    "alloc_env \<Rightarrow> u32 \<Rightarrow> bool \<Rightarrow> nat \<Rightarrow> nat \<Rightarrow> bytes \<Rightarrow> cbb_st \<Rightarrow> bool \<times> bytes \<times> cbb_st" where
  "cbs_convert_ber E string_tag looking_for_eoc depth d inp st =
     (case cbs_convert_loop (length inp + 1) E string_tag looking_for_eoc depth d inp st of
        None \<Rightarrow> (False, inp, st)
      | Some r \<Rightarrow> r)"

text \<open>
  \<^verbatim>\<open>CBS_asn1_ber_to_der\<close>: the element and whether it is a converted copy (\<^verbatim>\<open>*out_storage\<close> is
  non-null), with the rest of the input.
\<close>

definition CBS_asn1_ber_to_der :: "alloc_env \<Rightarrow> (bytes \<times> bool) reader" where
  "CBS_asn1_ber_to_der E = (\<lambda>inp.
     case cbs_find_ber inp 0 of
       None \<Rightarrow> (None, inp)
     | Some conversion_needed \<Rightarrow>
         if \<not> conversion_needed then
           (case CBS_get_any_asn1_element inp of
              (None, inp) \<Rightarrow> (None, inp)
            | (Some el, inp) \<Rightarrow> (Some (el_out el, False), inp))
         else
           (case CBB_init E (CBS_len inp) of
              (False, _) \<Rightarrow> (None, inp)
            | (True, cbb) \<Rightarrow>
                (case cbs_convert_ber E 0 False 0 0 inp cbb of
                   (False, inp, _) \<Rightarrow> (None, inp)
                 | (True, inp, cbb) \<Rightarrow>
                     (case fst (CBB_finish E 0 True True cbb) of
                        None \<Rightarrow> (None, inp)
                      | Some (data, len) \<Rightarrow> (Some (CBS_init data len, True), inp)))))"

text \<open>The loop that concatenates the chunks of a constructed string.\<close>

lemma get_asn1_shorter: "CBS_get_asn1 tag s = (Some c, t) \<Longrightarrow> length t < length s"
  by (auto simp: CBS_get_asn1_iff der_element_def)

function add_chunks :: "alloc_env \<Rightarrow> nat \<Rightarrow> u32 \<Rightarrow> bytes \<Rightarrow> cbb_op" where
  "add_chunks E d inner_tag child =
     (if length child > 0 then
        case CBS_get_asn1 inner_tag child of
          (None, _) \<Rightarrow> (\<lambda>st. (False, st))
        | (Some chunk, child') \<Rightarrow> andalso (CBB_add_bytes E d chunk) (add_chunks E d inner_tag child')
      else (\<lambda>st. (True, st)))"
  by pat_completeness auto
termination
  by (relation "measure (\<lambda>(E, d, tag, child). length child)")
    (auto dest!: sym [of "(_, _)"] get_asn1_shorter)

declare add_chunks.simps [simp del]

definition CBS_get_asn1_implicit_string :: "alloc_env \<Rightarrow> u32 \<Rightarrow> u32 \<Rightarrow> (bytes \<times> bool) reader" where
  "CBS_get_asn1_implicit_string E outer_tag inner_tag = (\<lambda>inp.
     if CBS_peek_asn1_tag inp outer_tag then
       rbind (CBS_get_asn1 outer_tag) (\<lambda>out. rret (out, False)) inp
     else
       case CBB_init E (CBS_len inp) of
         (False, _) \<Rightarrow> (None, inp)
       | (True, result) \<Rightarrow>
           (case CBS_get_asn1 (outer_tag OR CBS_ASN1_CONSTRUCTED) inp of
              (None, inp) \<Rightarrow> (None, inp)
            | (Some child, inp) \<Rightarrow>
                (case add_chunks E 0 inner_tag child result of
                   (False, _) \<Rightarrow> (None, inp)
                 | (True, result) \<Rightarrow>
                     (case fst (CBB_finish E 0 True True result) of
                        None \<Rightarrow> (None, inp)
                      | Some (data, len) \<Rightarrow> (Some (CBS_init data len, True), inp)))))"

section \<open>Lemmas\<close>

text \<open>The fuel is enough, and the input left is never longer than the input given.\<close>

definition converted :: "nat \<Rightarrow> (bool \<times> bytes \<times> cbb_st) option \<Rightarrow> bool" where
  "converted n r \<longleftrightarrow> (\<exists>ok rest st. r = Some (ok, rest, st) \<and> length rest \<le> n)"

lemma converted_if: "(P \<Longrightarrow> converted n a) \<Longrightarrow> (\<not> P \<Longrightarrow> converted n b) \<Longrightarrow> converted n (if P then a else b)"
  by simp

lemma converted_Some: "length rest \<le> n \<Longrightarrow> converted n (Some (ok, rest, st))"
  by (simp add: converted_def)

lemma converted_flush:
  "length inp \<le> n \<Longrightarrow> (\<And>st. converted n (f st)) \<Longrightarrow>
   converted n (case r of (False, st) \<Rightarrow> Some (False, inp, st) | (True, st) \<Rightarrow> f st)"
  by (simp add: converted_def split: prod.splits bool.splits)

lemma converted_nested:
  "converted m r \<Longrightarrow> m \<le> n \<Longrightarrow> (\<And>inp st. length inp \<le> m \<Longrightarrow> converted n (f inp st)) \<Longrightarrow>
   converted n (case r of None \<Rightarrow> None | Some (False, inp, st) \<Rightarrow> Some (False, inp, st) | Some (True, inp, st) \<Rightarrow> f inp st)"
  by (auto simp: converted_def split: bool.splits)

lemma converted_contents:
  "(P \<Longrightarrow> converted m r) \<Longrightarrow> length inp \<le> n \<Longrightarrow> (\<And>st. converted n (f st)) \<Longrightarrow>
   converted n (case (if P then map_option (\<lambda>(ok, _, st). (ok, st)) r else Some p) of
       None \<Rightarrow> None | Some (False, st) \<Rightarrow> Some (False, inp, st) | Some (True, st) \<Rightarrow> f st)"
  by (cases P; cases p) (auto simp: converted_def split: bool.splits)

lemma converted_let:
  "(\<And>ok c dc st. converted n (f ok c dc st)) \<Longrightarrow> converted n (case p of (ok, c, dc, st) \<Rightarrow> f ok c dc st)"
  by (cases p) simp

lemma converted_skip:
  "length inp \<le> n \<Longrightarrow> (\<And>u c. r = (Some u, c) \<Longrightarrow> converted n (f c)) \<Longrightarrow>
   converted n (case r of (None, _) \<Rightarrow> Some (False, inp, st) | (Some _, c) \<Rightarrow> f c)"
  by (auto simp: converted_def split: prod.splits option.splits)

lemmas converted_intros =
  converted_if converted_Some converted_let converted_skip converted_flush converted_nested converted_contents

lemma cbs_convert_loop_total:
  "length inp < fuel \<Longrightarrow> converted (length inp) (cbs_convert_loop fuel E string_tag eoc depth d inp st)"
proof (induction fuel arbitrary: string_tag eoc depth d inp st)
  case (Suc fuel)
  note IH = Suc.IH
  show ?case
  proof (cases "CBS_get_any_ber_asn1_element inp")
    case (Pair o1 t)
    show ?thesis
    proof (cases o1)
      case None
      then have "t = inp"
        using Pair by (auto simp: CBS_get_any_ber_asn1_element_def cbs_get_any_asn1_element_def get_element_bytes_def
            CBS_get_bytes_def cbs_get_def reader_simps Let_def split: prod.splits option.splits if_splits)
      with None Pair show ?thesis by (auto simp: cbs_convert_loop.simps converted_def)
    next
      case (Some el)
      note sh = ber_element_shorter [OF Pair [unfolded Some]] and ct = ber_contents_shorter [OF Pair [unfolded Some]]
      have le: "length t < fuel" "length t \<le> length inp" using sh Suc.prems by auto
      have again: "length i \<le> length t \<Longrightarrow> converted (length inp) (cbs_convert_loop fuel E stag e dp dd i s)" for i stag e dp dd s
        using IH [of i stag e dp dd s] le unfolding converted_def by force
      have nested: "converted (length t) (cbs_convert_loop fuel E stag e dp dd t s)" for stag e dp dd s
        using IH le by blast
      have contents: "CBS_skip (el_header_len el) (el_out el) = (Some u, c) \<Longrightarrow> converted (length c) (cbs_convert_loop fuel E stag e dp dd c s)" for u c stag e dp dd s
        using IH [of c stag e dp dd s] ct Suc.prems by force
      show ?thesis
        unfolding cbs_convert_loop.simps Pair Some prod.case option.case Let_def
        by (intro converted_intros; ((erule contents | rule nested | (rule again, (assumption | rule le_refl))); fail)?) (use le in simp_all)
    qed
  qed
qed simp

lemma cbs_convert_ber_total:
  "cbs_convert_loop (length inp + 1) E string_tag eoc depth d inp st = Some (cbs_convert_ber E string_tag eoc depth d inp st)"
  using cbs_convert_loop_total [of inp "length inp + 1" E string_tag eoc depth d st]
  by (auto simp: cbs_convert_ber_def converted_def)


text \<open>What the strict reader accepts the lenient one reads alike.\<close>

lemma ber_element_of_der:
  "CBS_get_any_asn1_element s = (Some el, t) \<Longrightarrow> CBS_get_any_ber_asn1_element s = (Some el, t)"
  unfolding CBS_get_any_asn1_element_def CBS_get_any_ber_asn1_element_def cbs_get_any_asn1_element_def Let_def
  by (auto split: prod.splits option.splits if_splits)

lemma ber_element_der: "length c < 2 ^ 32 \<Longrightarrow> CBS_get_any_ber_asn1_element (der_element tag c @ t) = (Some (der_parsed tag c), t)"
  by (intro ber_element_of_der element_der)

lemma find_ber_primitive:
  assumes "length c < 2 ^ 32" and "tag AND CBS_ASN1_CONSTRUCTED = 0"
  shows "cbs_find_ber_loop depth found (der_element tag c @ t) = cbs_find_ber_loop depth False t"
  using ber_element_der [OF assms(1), of tag t] assms(2)
  by (subst cbs_find_ber_loop.simps) (simp add: der_parsed_def, simp add: der_element_def)

lemma find_ber_string:
  assumes "length c < 2 ^ 32" and "tag AND CBS_ASN1_CONSTRUCTED \<noteq> 0" and "is_string_type tag" and "depth \<le> kMaxDepth"
  shows "cbs_find_ber (der_element tag c @ t) depth = Some True"
  using ber_element_der [OF assms(1), of tag t] assms(2-)
  by (simp add: cbs_find_ber_def) (subst cbs_find_ber_loop.simps, simp add: der_parsed_def der_element_def)

lemma find_ber_constructed:
  assumes "length c < 2 ^ 32" and "tag AND CBS_ASN1_CONSTRUCTED \<noteq> 0" and "\<not> is_string_type tag" and "depth + 1 \<le> kMaxDepth"
  shows "cbs_find_ber_loop depth found (der_element tag c @ t) =
    (case cbs_find_ber_loop (depth + 1) False c of None \<Rightarrow> None | Some f \<Rightarrow> cbs_find_ber_loop depth f t)"
proof -
  have "CBS_skip (length (der_tag tag) + length (der_len (length c))) (der_element tag c) = (Some (), c)"
    by (rule CBS_skip_header)
  then show ?thesis
    using ber_element_der [OF assms(1), of tag t] assms(2-)
    by (subst cbs_find_ber_loop.simps) (simp, simp add: der_parsed_def, simp add: der_element_def)
qed

lemma find_ber_Nil: "cbs_find_ber_loop depth found [] = Some found"
  by (simp add: cbs_find_ber_loop.simps)

text \<open>
  The flag of a nested element is overwritten by the next sibling, because the loop does not look
  at it after the recursive call.
\<close>

lemma find_ber_sibling:
  assumes "length c < 2 ^ 32" and "length p < 2 ^ 32" and "tag AND CBS_ASN1_CONSTRUCTED \<noteq> 0" and "\<not> is_string_type tag"
    and "ptag AND CBS_ASN1_CONSTRUCTED = 0" and "cbs_find_ber c (depth + 1) = Some True"
  shows "cbs_find_ber (der_element tag c @ der_element ptag p) depth = Some False"
proof -
  have d: "depth + 1 \<le> kMaxDepth" "cbs_find_ber_loop (depth + 1) False c = Some True"
    using assms(6) by (auto simp: cbs_find_ber_def split: if_splits)
  show ?thesis
    using find_ber_constructed [OF assms(1,3,4) d(1), of False "der_element ptag p"] d
      find_ber_primitive [OF assms(2,5), of depth True "[]"]
    by (simp add: cbs_find_ber_def find_ber_Nil)
qed

lemma add_chunks_writer:
  "(\<And>c. c \<in> set cs \<Longrightarrow> length c < 2 ^ 32) \<Longrightarrow>
   cbb_leaf_writer (\<lambda>d. add_chunks E d tag (concat (map (der_element tag) cs))) (concat cs)"
proof (induction cs)
  case Nil
  show ?case by (simp add: add_chunks.simps skip.cbb_leaf_writer_axioms)
next
  case (Cons c cs)
  have "CBS_get_asn1 tag (der_element tag c @ concat (map (der_element tag) cs)) = (Some c, concat (map (der_element tag) cs))"
    using Cons.prems by (simp add: CBS_get_asn1_iff)
  then have "add_chunks E d tag (concat (map (der_element tag) (c # cs))) =
      andalso (CBB_add_bytes E d c) (add_chunks E d tag (concat (map (der_element tag) cs)))" for d
    by (subst add_chunks.simps) (simp, simp add: der_element_def)
  moreover have "length c < 2 ^ 64" using Cons.prems [of c] by simp
  ultimately show ?case
    using leaf_andalso [OF writer_leaf [OF add_bytes_writer [of c E]] Cons.IH] Cons.prems by simp
qed

lemma add_chunks_True:
  "add_chunks E d tag s st = (True, st') \<Longrightarrow> \<exists>cs. s = concat (map (der_element tag) cs) \<and> (\<forall>c\<in>set cs. length c < 2 ^ 32)"
proof (induction E d tag s arbitrary: st rule: add_chunks.induct)
  case (1 E d tag s)
  show ?case
  proof (cases "s = []")
    case True
    then show ?thesis by (intro exI [of _ "[]"]) simp
  next
    case False
    with "1.prems" obtain c t where p: "CBS_get_asn1 tag s = (Some c, t)"
      by (subst (asm) add_chunks.simps) (auto split: prod.splits option.splits)
    with "1.prems" False obtain st1 where "add_chunks E d tag t st1 = (True, st')"
      by (subst (asm) add_chunks.simps) (auto simp: andalso_def split: prod.splits bool.splits)
    with 1(1) [OF _ p [symmetric] refl] False obtain cs where "t = concat (map (der_element tag) cs)" "\<forall>c\<in>set cs. length c < 2 ^ 32" by auto
    then show ?thesis using p by (intro exI [of _ "c # cs"]) (auto simp: CBS_get_asn1_iff)
  qed
qed


lemma concat_elements_longer: "length (concat cs) \<le> length (concat (map (der_element tag) cs))"
  by (induction cs) (auto simp: der_element_def)

lemma implicit_constructed:
  assumes i: "CBB_init E (length s) = (True, st)" and n: "length s < 2 ^ 64"
    and p: "\<not> CBS_peek_asn1_tag s ot"
  shows "CBS_get_asn1_implicit_string E ot it s = (Some (out, conv), t) \<longleftrightarrow>
    conv \<and> (\<exists>cs. length (concat (map (der_element it) cs)) < 2 ^ 32
      \<and> s = der_element (ot OR CBS_ASN1_CONSTRUCTED) (concat (map (der_element it) cs)) @ t \<and> out = concat cs
      \<and> (\<forall>c\<in>set cs. length c < 2 ^ 32))" (is "?L \<longleftrightarrow> ?R")
proof
  note ok = CBB_init_True [OF i n]
  assume ?L
  then obtain child st1 data len st2 where c: "CBS_get_asn1 (ot OR CBS_ASN1_CONSTRUCTED) s = (Some child, t)"
    and a: "add_chunks E 0 it child st = (True, st1)" and f: "CBB_finish E 0 True True st1 = (Some (data, len), st2)"
    and o: "out = take len data" "conv"
    using p i by (auto simp: CBS_get_asn1_implicit_string_def CBS_len_def CBS_init_def split: prod.splits bool.splits option.splits)
      (metis prod.collapse)
  obtain cs where cs: "child = concat (map (der_element it) cs)" "\<forall>c\<in>set cs. length c < 2 ^ 32"
    using add_chunks_True [OF a] by blast
  have w: "written 0 st (concat cs) st1"
    using cbb_leaf_writer.leaf_step [OF add_chunks_writer [of cs E it] ok(1,2) _ a [unfolded cs(1)]] cs(2) ok(3) by simp
  then have "take len data = concat cs"
    using CBB_finish_Some [OF _ f] ok by (simp add: written_def flushed_leaf)
  with c cs o show ?R by (auto simp: CBS_get_asn1_iff)
next
  note ok = CBB_init_True [OF i n]
  assume ?R
  then obtain cs where cs: "length (concat (map (der_element it) cs)) < 2 ^ 32"
      "s = der_element (ot OR CBS_ASN1_CONSTRUCTED) (concat (map (der_element it) cs)) @ t" "out = concat cs"
      "\<forall>c\<in>set cs. length c < 2 ^ 32" and conv by blast
  then have c: "CBS_get_asn1 (ot OR CBS_ASN1_CONSTRUCTED) s = (Some (concat (map (der_element it) cs)), t)"
    by (simp add: CBS_get_asn1_iff)
  obtain r st1 where a: "add_chunks E 0 it (concat (map (der_element it) cs)) st = (r, st1)"
    by (cases "add_chunks E 0 it (concat (map (der_element it) cs)) st")
  note wr = add_chunks_writer [of cs E it]
  have "length (concat cs) \<le> ccap st"
    using concat_elements_longer [of cs it] ok(5) cs(2) by (simp add: der_element_def)
  then have r: "r" using cbb_leaf_writer.leaf_room [OF wr ok(1,2) _ _ a] cs(4) ok by simp
  then have w: "written 0 st (concat cs) st1"
    using cbb_leaf_writer.leaf_step [OF wr ok(1,2) _ a] cs(4) ok(3) by simp
  then obtain data len st2 where f: "CBB_finish E 0 True True st1 = (Some (data, len), st2)"
    using CBB_finish_leaf [of st1 E] ok(3) by (auto simp: written_def)
  have "take len data = concat cs"
    using CBB_finish_Some [OF _ f] w ok by (simp add: written_def flushed_leaf)
  then show ?L
    using p i c a r f cs(3) \<open>conv\<close> by (simp add: CBS_get_asn1_implicit_string_def CBS_len_def CBS_init_def)
qed

lemma implicit_primitive:
  "CBS_peek_asn1_tag s ot \<Longrightarrow> CBS_get_asn1_implicit_string E ot it s = (Some (out, conv), t) \<longleftrightarrow>
     \<not> conv \<and> length out < 2 ^ 32 \<and> s = der_element ot out @ t"
  by (auto simp: CBS_get_asn1_implicit_string_def rbind_eq_Some CBS_get_asn1_iff rret_def)

end
