(* ===== verification/ConstTime.thy ===== *)
theory ConstTime
  imports Mem
begin

unbundle bit_operations_syntax

text \<open>
  The branch-free comparisons and selections of \<^verbatim>\<open>crypto/internal.h\<close> on a 64-bit
  \<^verbatim>\<open>crypto_word_t\<close>, and that each computes the comparison it stands for.
  \<^verbatim>\<open>value_barrier_w\<close> returns its argument.
\<close>

section \<open>Operations\<close>

definition constant_time_msb_w :: "u64 \<Rightarrow> u64" where
  "constant_time_msb_w a = 0 - drop_bit 63 a"

definition constant_time_lt_w :: "u64 \<Rightarrow> u64 \<Rightarrow> u64" where
  "constant_time_lt_w a b = constant_time_msb_w (a XOR ((a XOR b) OR ((a - b) XOR a)))"

definition constant_time_lt_8 :: "u64 \<Rightarrow> u64 \<Rightarrow> u8" where
  "constant_time_lt_8 a b = ucast (constant_time_lt_w a b)"

definition constant_time_ge_w :: "u64 \<Rightarrow> u64 \<Rightarrow> u64" where
  "constant_time_ge_w a b = NOT (constant_time_lt_w a b)"

definition constant_time_ge_8 :: "u64 \<Rightarrow> u64 \<Rightarrow> u8" where
  "constant_time_ge_8 a b = ucast (constant_time_ge_w a b)"

definition constant_time_is_zero_w :: "u64 \<Rightarrow> u64" where
  "constant_time_is_zero_w a = constant_time_msb_w (NOT a AND (a - 1))"

definition constant_time_is_zero_8 :: "u64 \<Rightarrow> u8" where
  "constant_time_is_zero_8 a = ucast (constant_time_is_zero_w a)"

definition constant_time_eq_w :: "u64 \<Rightarrow> u64 \<Rightarrow> u64" where
  "constant_time_eq_w a b = constant_time_is_zero_w (a XOR b)"

definition constant_time_eq_8 :: "u64 \<Rightarrow> u64 \<Rightarrow> u8" where
  "constant_time_eq_8 a b = ucast (constant_time_eq_w a b)"

text \<open>An \<^verbatim>\<open>int\<close> argument is converted to \<^verbatim>\<open>crypto_word_t\<close> by sign extension.\<close>

definition constant_time_eq_int :: "32 word \<Rightarrow> 32 word \<Rightarrow> u64" where
  "constant_time_eq_int a b = constant_time_eq_w (scast a) (scast b)"

definition constant_time_eq_int_8 :: "32 word \<Rightarrow> 32 word \<Rightarrow> u8" where
  "constant_time_eq_int_8 a b = constant_time_eq_8 (scast a) (scast b)"

definition constant_time_select_w :: "u64 \<Rightarrow> u64 \<Rightarrow> u64 \<Rightarrow> u64" where
  "constant_time_select_w msk a b = (msk AND a) OR (NOT msk AND b)"

definition constant_time_select_8 :: "u8 \<Rightarrow> u8 \<Rightarrow> u8 \<Rightarrow> u8" where
  "constant_time_select_8 msk a b = ucast (constant_time_select_w (ucast msk) (ucast a) (ucast b))"

definition constant_time_select_int :: "u64 \<Rightarrow> 32 word \<Rightarrow> 32 word \<Rightarrow> 32 word" where
  "constant_time_select_int msk a b = ucast (constant_time_select_w msk (scast a) (scast b))"

section \<open>Lemmas\<close>

lemma drop_bit_63: "drop_bit 63 (a :: u64) = (if bit a 63 then 1 else 0)"
proof (rule bit_word_eqI)
  fix n assume "n < LENGTH(64)"
  show "bit (drop_bit 63 a) n = bit (if bit a 63 then 1 else 0 :: u64) n"
    by (cases n) (auto simp: bit_simps dest: bit_imp_le_length)
qed

lemma constant_time_msb_w_eq: "constant_time_msb_w a = (if bit a 63 then - 1 else 0)"
  by (simp add: constant_time_msb_w_def drop_bit_63)

lemma bit_63_iff: "bit (a :: u64) 63 \<longleftrightarrow> 2 ^ 63 \<le> unat a"
proof -
  have "bit a 63 \<longleftrightarrow> odd (unat a div 2 ^ 63)"
    using bit_unsigned_iff [of a 63, where 'a = nat] by (simp add: bit_iff_odd)
  also have "\<dots> \<longleftrightarrow> 2 ^ 63 \<le> unat a"
  proof -
    have "unat a div 2 ^ 63 < 2" using unsigned_less [of a, where 'a = nat] by (simp add: less_mult_imp_div_less)
    then have "odd (unat a div 2 ^ 63) \<longleftrightarrow> unat a div 2 ^ 63 \<noteq> 0" by (auto simp: less_Suc_eq numeral_2_eq_2)
    then show ?thesis by (simp add: div_eq_0_iff not_less)
  qed
  finally show ?thesis .
qed

lemma unat_u64_lt: "unat (a :: u64) < 18446744073709551616"
  using unsigned_less [of a, where 'a = nat] by simp

lemma unat_sub_cases: "unat (a - b :: u64) = (if b \<le> a then unat a - unat b else unat a + 18446744073709551616 - unat b)"
  by (simp add: unat_sub_if' word_size word_le_nat_alt)

lemma lt_bit: "bit (a XOR ((a XOR b) OR ((a - b) XOR a)) :: u64) 63 \<longleftrightarrow> a < b"
proof (cases "bit a 63 = bit b 63")
  case True
  have "bit (a - b) 63 \<longleftrightarrow> a < b"
    using True unat_u64_lt [of a] unat_u64_lt [of b] unat_sub_cases [of a b]
    by (auto simp: bit_63_iff word_less_nat_alt word_le_nat_alt not_le)
  with True show ?thesis by (auto simp: bit_xor_iff bit_or_iff)
next
  case False
  then have "bit (a XOR ((a XOR b) OR ((a - b) XOR a))) 63 \<longleftrightarrow> bit b 63" by (auto simp: bit_xor_iff bit_or_iff)
  with False show ?thesis by (auto simp: bit_63_iff word_less_nat_alt)
qed

lemma constant_time_lt_w_eq: "constant_time_lt_w a b = (if a < b then - 1 else 0)"
  by (simp add: constant_time_lt_w_def constant_time_msb_w_eq lt_bit)

lemma constant_time_ge_w_eq: "constant_time_ge_w a b = (if a \<ge> b then - 1 else 0)"
  by (auto simp: constant_time_ge_w_def constant_time_lt_w_eq not_less)

lemma constant_time_is_zero_w_eq: "constant_time_is_zero_w a = (if a = 0 then - 1 else 0)"
proof -
  have "bit (NOT a AND (a - 1)) 63 \<longleftrightarrow> a = 0"
  proof (cases "a = 0")
    case False
    then have "unat (a - 1) = unat a - 1" by (simp add: unat_minus_one)
    moreover have "bit (NOT a AND (a - 1)) 63 \<longleftrightarrow> \<not> bit a 63 \<and> bit (a - 1) 63" by (simp add: bit_and_iff bit_not_iff)
    ultimately show ?thesis using False by (auto simp: bit_63_iff)
  qed simp
  then show ?thesis by (simp add: constant_time_is_zero_w_def constant_time_msb_w_eq)
qed

lemma constant_time_eq_w_eq: "constant_time_eq_w a b = (if a = b then - 1 else 0)"
  by (auto simp: constant_time_eq_w_def constant_time_is_zero_w_eq word_xor_eq_0_iff)

lemma constant_time_select_w_eq: "constant_time_select_w (if c then - 1 else 0) a b = (if c then a else b)"
  by (simp add: constant_time_select_w_def)

lemma constant_time_select_8_eq: "constant_time_select_8 (if c then - 1 else 0) a b = (if c then a else b)"
proof -
  have "(ucast ((ucast (- 1 :: u8) AND ucast a :: u64) OR (NOT (ucast (- 1 :: u8)) AND ucast b)) :: u8) = a"
    by (simp add: u8_eq_bits all_less_unfold bit_simps)
  then show ?thesis by (simp add: constant_time_select_8_def constant_time_select_w_def ucast_up_down)
qed

lemmas constant_time_eqs = constant_time_lt_w_eq constant_time_ge_w_eq constant_time_is_zero_w_eq
  constant_time_eq_w_eq constant_time_select_8_eq

end
