(* ===== verification/Base64.thy ===== *)
theory Base64
  imports ConstTime CBB
begin

unbundle bit_operations_syntax

text \<open>
  \<^verbatim>\<open>crypto/base64/base64.c\<close>: the constant-time alphabet, block and streaming encoders and decoders.
  Decoding undoes encoding, and the streaming functions do not depend on how the input is cut.
\<close>

section \<open>Characters\<close>

definition constant_time_lt_args_8 :: "u8 \<Rightarrow> u8 \<Rightarrow> u8" where
  "constant_time_lt_args_8 a b = ucast (constant_time_msb_w (ucast a - ucast b))"

definition constant_time_in_range_8 :: "u8 \<Rightarrow> u8 \<Rightarrow> u8 \<Rightarrow> u8" where
  "constant_time_in_range_8 a mn mx = (let a = a - mn in constant_time_lt_args_8 a (mx - mn + 1))"

definition conv_bin2ascii :: "u8 \<Rightarrow> u8" where
  "conv_bin2ascii a =
     (let a = a AND 0x3f;
          ret = constant_time_select_8 (constant_time_eq_8 (ucast a) 62) 0x2b 0x2f;
          ret = constant_time_select_8 (constant_time_lt_args_8 a 62) (a - 52 + 0x30) ret;
          ret = constant_time_select_8 (constant_time_lt_args_8 a 52) (a - 26 + 0x61) ret;
          ret = constant_time_select_8 (constant_time_lt_args_8 a 26) (a + 0x41) ret
      in ret)"

definition base64_ascii_to_bin :: "u8 \<Rightarrow> u8" where
  "base64_ascii_to_bin a =
     (let is_upper = constant_time_in_range_8 a 0x41 0x5a;
          is_lower = constant_time_in_range_8 a 0x61 0x7a;
          is_digit = constant_time_in_range_8 a 0x30 0x39;
          is_plus = constant_time_eq_8 (ucast a) 0x2b;
          is_slash = constant_time_eq_8 (ucast a) 0x2f;
          is_equals = constant_time_eq_8 (ucast a) 0x3d;
          ret = (is_upper AND (a - 0x41)) OR (is_lower AND (a - 0x61 + 26)) OR (is_digit AND (a - 0x30 + 52))
                OR (is_plus AND 62) OR (is_slash AND 63);
          is_valid = is_upper OR is_lower OR is_digit OR is_plus OR is_slash OR is_equals
      in ret OR NOT is_valid)"

section \<open>Encoding\<close>

definition EVP_EncodedLength :: "nat \<Rightarrow> nat option" where
  "EVP_EncodedLength len =
     (if size_add len 2 < len then None
      else
        let len = size_add len 2 div 3 in
        if size_mul len 4 div 4 \<noteq> len then None
        else
          let len = size_mul len 4 in
          if size_add len 1 < len then None else Some (size_add len 1))"

text \<open>
  The state: \<^verbatim>\<open>data\<close> has 48 bytes, of which the first \<^verbatim>\<open>data_used\<close> are in use.
\<close>

record evp_encode_ctx_st =
  data_used :: nat
  data :: bytes
  eof_seen :: bool
  error_encountered :: bool

definition EVP_EncodeInit :: evp_encode_ctx_st where
  "EVP_EncodeInit = \<lparr>data_used = 0, data = replicate 48 0, eof_seen = False, error_encountered = False\<rparr>"

text \<open>The characters \<^verbatim>\<open>EVP_EncodeBlock\<close> stores at \<^verbatim>\<open>dst\<close>, without the terminating NUL, and its result.\<close>

fun encode_block_loop :: "bytes \<Rightarrow> bytes" where
  "encode_block_loop [] = []"
| "encode_block_loop [a] =
     (let l = push_bit 16 (ucast a) :: u32
      in [conv_bin2ascii (ucast (drop_bit 18 l)), conv_bin2ascii (ucast (drop_bit 12 l)), 0x3d, 0x3d])"
| "encode_block_loop [a, b] =
     (let l = push_bit 16 (ucast a) OR push_bit 8 (ucast b) :: u32
      in [conv_bin2ascii (ucast (drop_bit 18 l)), conv_bin2ascii (ucast (drop_bit 12 l)),
          conv_bin2ascii (ucast (drop_bit 6 l)), 0x3d])"
| "encode_block_loop (a # b # c # src) =
     (let l = push_bit 16 (ucast a) OR push_bit 8 (ucast b) OR ucast c :: u32
      in [conv_bin2ascii (ucast (drop_bit 18 l)), conv_bin2ascii (ucast (drop_bit 12 l)),
          conv_bin2ascii (ucast (drop_bit 6 l)), conv_bin2ascii (ucast l)] @ encode_block_loop src)"

definition EVP_EncodeBlock :: "bytes \<Rightarrow> bytes \<times> nat" where
  "EVP_EncodeBlock src = (encode_block_loop src, length (encode_block_loop src))"

text \<open>
  \<^verbatim>\<open>EVP_EncodeUpdate\<close>: the new state, the characters stored at \<^verbatim>\<open>out\<close> and \<^verbatim>\<open>*out_len\<close>.  The loop
  over whole lines returns \<open>None\<close> for the overflow of \<^verbatim>\<open>tot\<close>.
\<close>

function encode_lines :: "nat \<Rightarrow> bytes \<Rightarrow> bytes \<Rightarrow> (nat \<times> bytes \<times> bytes) option \<times> bytes" where
  "encode_lines tot inp out =
     (if length inp \<ge> 48 then
        (let (enc, encoded) = EVP_EncodeBlock (take 48 inp); inp = drop 48 inp; out = out @ enc @ [0x0a] in
         if size_add (size_add tot encoded) 1 < tot then (None, out)
         else encode_lines (size_add (size_add tot encoded) 1) inp out)
      else (Some (tot, inp, out), out))"
  by pat_completeness auto
termination by (relation "measure (\<lambda>(tot, inp, out). length inp)") auto

declare encode_lines.simps [simp del]

definition EVP_EncodeUpdate ::
    "evp_encode_ctx_st \<Rightarrow> bytes \<Rightarrow> evp_encode_ctx_st \<times> bytes \<times> nat" where
  "EVP_EncodeUpdate ctx inp =
     (if length inp = 0 then (ctx, [], 0)
      else if 48 - data_used ctx > length inp then
        (ctx\<lparr>data := write_at (data_used ctx) inp (data ctx), data_used := data_used ctx + length inp\<rparr>, [], 0)
      else
        let (ctx, inp, out, tot) =
          (if data_used ctx \<noteq> 0 then
             let todo = 48 - data_used ctx;
                 dat = write_at (data_used ctx) (take todo inp) (data ctx);
                 (enc, encoded) = EVP_EncodeBlock dat
             in (ctx\<lparr>data := dat, data_used := 0\<rparr>, drop todo inp, enc @ [0x0a], encoded + 1)
           else (ctx, inp, [], 0))
        in case encode_lines tot inp out of
             (None, out) \<Rightarrow> (ctx, out, 0)
           | (Some (tot, inp, out), _) \<Rightarrow>
               (ctx\<lparr>data := (if length inp \<noteq> 0 then write_at 0 inp (data ctx) else data ctx), data_used := length inp\<rparr>,
                out, if tot > 0x7fffffff then 0 else tot))"

definition EVP_EncodeFinal :: "evp_encode_ctx_st \<Rightarrow> evp_encode_ctx_st \<times> bytes \<times> nat" where
  "EVP_EncodeFinal ctx =
     (if data_used ctx = 0 then (ctx, [], 0)
      else
        let (enc, encoded) = EVP_EncodeBlock (take (data_used ctx) (data ctx))
        in (ctx\<lparr>data_used := 0\<rparr>, enc @ [0x0a], encoded + 1))"

section \<open>Decoding\<close>

definition EVP_DecodedLength :: "nat \<Rightarrow> nat option" where
  "EVP_DecodedLength len = (if len mod 4 \<noteq> 0 then None else Some (len div 4 * 3))"

definition EVP_DecodeInit :: evp_encode_ctx_st where
  "EVP_DecodeInit = \<lparr>data_used = 0, data = replicate 48 0, eof_seen = False, error_encountered = False\<rparr>"

text \<open>\<^verbatim>\<open>base64_decode_quad\<close>: the bytes written, \<open>None\<close> on error.\<close>

definition base64_decode_quad :: "u8 \<Rightarrow> u8 \<Rightarrow> u8 \<Rightarrow> u8 \<Rightarrow> bytes option" where
  "base64_decode_quad i0 i1 i2 i3 =
     (let a = base64_ascii_to_bin i0; b = base64_ascii_to_bin i1;
          c = base64_ascii_to_bin i2; d = base64_ascii_to_bin i3
      in if a = 0xff \<or> b = 0xff \<or> c = 0xff \<or> d = 0xff then None
         else
           let v = push_bit 18 (ucast a) OR push_bit 12 (ucast b) OR push_bit 6 (ucast c) OR ucast d :: u32;
               bitn = (\<lambda>p :: bool. if p then 1 else 0 :: u32);
               padding_pattern = push_bit 3 (bitn (i0 = 0x3d)) OR push_bit 2 (bitn (i1 = 0x3d)) OR
                 push_bit 1 (bitn (i2 = 0x3d)) OR bitn (i3 = 0x3d)
           in if padding_pattern = 0 then Some [ucast (drop_bit 16 v), ucast (drop_bit 8 v), ucast v]
              else if padding_pattern = 1 then Some [ucast (drop_bit 16 v), ucast (drop_bit 8 v)]
              else if padding_pattern = 3 then Some [ucast (drop_bit 16 v)]
              else None)"

definition is_base64_space :: "u8 \<Rightarrow> bool" where
  "is_base64_space c \<longleftrightarrow> c = 0x20 \<or> c = 0x09 \<or> c = 0x0d \<or> c = 0x0a"

text \<open>The loop of \<^verbatim>\<open>EVP_DecodeUpdate\<close>: the state, the bytes written so far, and whether it failed.\<close>

fun decode_update_loop :: "evp_encode_ctx_st \<Rightarrow> bytes \<Rightarrow> bytes \<Rightarrow> evp_encode_ctx_st \<times> bytes \<times> bool" where
  "decode_update_loop ctx out [] = (ctx, out, True)"
| "decode_update_loop ctx out (c # inp) =
     (if is_base64_space c then decode_update_loop ctx out inp
      else if eof_seen ctx then (ctx\<lparr>error_encountered := True\<rparr>, out, False)
      else
        let dat = (data ctx)[data_used ctx := c]; used = data_used ctx + 1;
            ctx = ctx\<lparr>data := dat, data_used := used\<rparr>
        in if used = 4 then
             case base64_decode_quad (dat ! 0) (dat ! 1) (dat ! 2) (dat ! 3) of
               None \<Rightarrow> (ctx\<lparr>error_encountered := True\<rparr>, out, False)
             | Some bs \<Rightarrow>
                 let ctx = ctx\<lparr>data_used := 0\<rparr>;
                     ctx = (if length bs < 3 then ctx\<lparr>eof_seen := True\<rparr> else ctx)
                 in decode_update_loop ctx (out @ bs) inp
           else decode_update_loop ctx out inp)"

definition EVP_DecodeUpdate :: "evp_encode_ctx_st \<Rightarrow> bytes \<Rightarrow> evp_encode_ctx_st \<times> bytes \<times> nat \<times> int" where
  "EVP_DecodeUpdate ctx inp =
     (if error_encountered ctx then (ctx, [], 0, - 1)
      else
        case decode_update_loop ctx [] inp of
          (ctx, out, False) \<Rightarrow> (ctx, out, 0, - 1)
        | (ctx, out, True) \<Rightarrow>
            if length out > 0x7fffffff then (ctx\<lparr>error_encountered := True\<rparr>, out, 0, - 1)
            else (ctx, out, length out, if eof_seen ctx then 0 else 1))"

definition EVP_DecodeFinal :: "evp_encode_ctx_st \<Rightarrow> int" where
  "EVP_DecodeFinal ctx = (if error_encountered ctx \<or> data_used ctx \<noteq> 0 then - 1 else 1)"

fun decode_quads :: "bytes \<Rightarrow> bytes option" where
  "decode_quads [] = Some []"
| "decode_quads (a # b # c # d # inp) =
     (case base64_decode_quad a b c d of
        None \<Rightarrow> None
      | Some bs \<Rightarrow>
          if length bs \<noteq> 3 \<and> inp \<noteq> [] then None
          else map_option ((@) bs) (decode_quads inp))"
| "decode_quads _ = None"

definition EVP_DecodeBase64 :: "nat \<Rightarrow> bytes \<Rightarrow> bytes option" where
  "EVP_DecodeBase64 max_out inp =
     (if length inp mod 4 \<noteq> 0 then None
      else case EVP_DecodedLength (length inp) of
             None \<Rightarrow> None
           | Some max_len \<Rightarrow> if max_out < max_len then None else decode_quads inp)"

definition EVP_DecodeBlock :: "bytes \<Rightarrow> (bytes \<times> nat) option" where
  "EVP_DecodeBlock src =
     (let src = dropWhile (\<lambda>c. c = 0x20 \<or> c = 0x09) src;
          src = rev (dropWhile is_base64_space (rev src))
      in case EVP_DecodedLength (length src) of
           None \<Rightarrow> None
         | Some dst_len \<Rightarrow>
             if dst_len > 0x7fffffff then None
             else
               case EVP_DecodeBase64 dst_len src of
                 None \<Rightarrow> None
               | Some out \<Rightarrow>
                   (let out = out @ replicate ((3 - length out mod 3) mod 3) 0 in Some (out, length out)))"


section \<open>Lemmas: characters\<close>

lemma ucast_minus_1: "(ucast (- 1 :: u64) :: u8) = - 1"
  by (simp add: u8_eq_bits all_less_unfold bit_simps)

lemma lt_args_8_eq: "constant_time_lt_args_8 a b = (if a < b then - 1 else 0)"
proof -
  have ab: "unat a < 256" "unat b < 256" by simp_all
  have eq: "unat (ucast a - ucast b :: u64) = (if unat b \<le> unat a then unat a - unat b else unat a + 18446744073709551616 - unat b)"
    using unat_sub_cases [of "ucast a" "ucast b"] by (simp add: word_le_nat_alt unat_ucast_up)
  have "2 ^ 63 \<le> (if v \<le> u then u - v else u + 18446744073709551616 - v) \<longleftrightarrow> u < v" if "u < 256" "v < 256" for u v :: nat
    using that by auto
  from this [OF ab] have "bit (ucast a - ucast b :: u64) 63 \<longleftrightarrow> a < b"
    unfolding bit_63_iff word_less_nat_alt eq .
  then show ?thesis by (simp add: constant_time_lt_args_8_def constant_time_msb_w_eq ucast_minus_1)
qed

lemma in_range_8_eq: "mn \<le> mx \<Longrightarrow> mx < 255 \<Longrightarrow> constant_time_in_range_8 a mn mx = (if mn \<le> a \<and> a \<le> mx then - 1 else 0)"
proof -
  assume m: "mn \<le> mx" "mx < 255"
  have d: "unat (mx - mn) = unat mx - unat mn" using m by (simp add: unat_sub)
  have "unat (mx - mn + 1) = unat mx - unat mn + 1"
    using m d unat_u8_lt [of mx] by (simp add: unat_word_ariths word_less_nat_alt)
  then have "a - mn < mx - mn + 1 \<longleftrightarrow> mn \<le> a \<and> a \<le> mx"
    using m unat_u8_lt [of a] unat_u8_lt [of mx] by (auto simp: word_less_nat_alt word_le_nat_alt unat_sub_if' word_size)
  then show ?thesis by (simp add: constant_time_in_range_8_def lt_args_8_eq)
qed

lemma eq_8_eq: "constant_time_eq_8 (ucast (a :: u8)) (ucast b) = (if a = b then - 1 else 0)"
proof -
  have "(ucast a :: u64) = ucast b \<longleftrightarrow> a = b" by (simp add: word_unat_eq_iff unat_ucast_up)
  then show ?thesis by (simp add: constant_time_eq_8_def constant_time_eq_w_eq ucast_minus_1)
qed

lemma eq_8_consts:
  fixes a :: u8
  shows "constant_time_eq_8 (ucast a) 62 = (if a = 62 then - 1 else 0)" "constant_time_eq_8 (ucast a) 0x2b = (if a = 0x2b then - 1 else 0)"
  "constant_time_eq_8 (ucast a) 0x2f = (if a = 0x2f then - 1 else 0)" "constant_time_eq_8 (ucast a) 0x3d = (if a = 0x3d then - 1 else 0)"
  using eq_8_eq [of a 62] eq_8_eq [of a "0x2b"] eq_8_eq [of a "0x2f"] eq_8_eq [of a "0x3d"] by simp_all

text \<open>The alphabet of RFC 4648, table 1.\<close>

definition b64char :: "u8 \<Rightarrow> u8" where
  "b64char x = (if x < 26 then x + 0x41 else if x < 52 then x - 26 + 0x61 else if x < 62 then x - 52 + 0x30
     else if x = 62 then 0x2b else 0x2f)"

lemma conv_bin2ascii_eq: "conv_bin2ascii a = b64char (a AND 0x3f)"
  by (simp add: conv_bin2ascii_def b64char_def lt_args_8_eq eq_8_consts constant_time_select_8_eq Let_def)

lemma ascii_to_bin_eq:
  "base64_ascii_to_bin a =
     (if 0x41 \<le> a \<and> a \<le> 0x5a then a - 0x41 else if 0x61 \<le> a \<and> a \<le> 0x7a then a - 0x61 + 26
      else if 0x30 \<le> a \<and> a \<le> 0x39 then a - 0x30 + 52 else if a = 0x2b then 62 else if a = 0x2f then 63
      else if a = 0x3d then 0 else 0xff)"
proof -
  have r: "constant_time_in_range_8 a 0x41 0x5a = (if 0x41 \<le> a \<and> a \<le> 0x5a then - 1 else 0)"
    "constant_time_in_range_8 a 0x61 0x7a = (if 0x61 \<le> a \<and> a \<le> 0x7a then - 1 else 0)"
    "constant_time_in_range_8 a 0x30 0x39 = (if 0x30 \<le> a \<and> a \<le> 0x39 then - 1 else 0)"
    by (simp_all add: in_range_8_eq)
  consider (U) "0x41 \<le> a \<and> a \<le> 0x5a" | (L) "0x61 \<le> a \<and> a \<le> 0x7a" | (D) "0x30 \<le> a \<and> a \<le> 0x39"
    | (P) "a = 0x2b" | (S) "a = 0x2f" | (E) "a = 0x3d"
    | (N) "\<not> (0x41 \<le> a \<and> a \<le> 0x5a)" "\<not> (0x61 \<le> a \<and> a \<le> 0x7a)" "\<not> (0x30 \<le> a \<and> a \<le> 0x39)" "a \<noteq> 0x2b" "a \<noteq> 0x2f" "a \<noteq> 0x3d"
    by blast
  then show ?thesis
  proof cases
    case U
    then have "\<not> (0x61 \<le> a \<and> a \<le> 0x7a)" "\<not> (0x30 \<le> a \<and> a \<le> 0x39)" "a \<noteq> 0x2b" "a \<noteq> 0x2f" "a \<noteq> 0x3d"
      by (auto simp: word_le_nat_alt)
    with U show ?thesis by (simp only: base64_ascii_to_bin_def Let_def r eq_8_consts) simp
  next
    case L
    then have "\<not> (0x41 \<le> a \<and> a \<le> 0x5a)" "\<not> (0x30 \<le> a \<and> a \<le> 0x39)" "a \<noteq> 0x2b" "a \<noteq> 0x2f" "a \<noteq> 0x3d"
      by (auto simp: word_le_nat_alt)
    with L show ?thesis by (simp only: base64_ascii_to_bin_def Let_def r eq_8_consts) simp
  next
    case D
    then have "\<not> (0x41 \<le> a \<and> a \<le> 0x5a)" "\<not> (0x61 \<le> a \<and> a \<le> 0x7a)" "a \<noteq> 0x2b" "a \<noteq> 0x2f" "a \<noteq> 0x3d"
      by (auto simp: word_le_nat_alt)
    with D show ?thesis by (simp only: base64_ascii_to_bin_def Let_def r eq_8_consts) simp
  next
    case N
    then show ?thesis by (simp only: base64_ascii_to_bin_def Let_def r eq_8_consts) simp
  next
    case P
    show ?thesis unfolding base64_ascii_to_bin_def Let_def r eq_8_consts using P by simp
  next
    case S
    show ?thesis unfolding base64_ascii_to_bin_def Let_def r eq_8_consts using S by simp
  next
    case E
    show ?thesis unfolding base64_ascii_to_bin_def Let_def r eq_8_consts using E by simp
  qed
qed

lemma b64char_range: "x < 64 \<Longrightarrow> base64_ascii_to_bin (b64char x) = x \<and> b64char x \<noteq> 0x3d \<and> \<not> is_base64_space (b64char x)"
proof -
  assume "x < 64"
  then have "unat x < 64" by (simp add: word_less_nat_alt)
  moreover have "\<forall>n<64. base64_ascii_to_bin (b64char (of_nat n)) = of_nat n \<and> b64char (of_nat n) \<noteq> 0x3d \<and> \<not> is_base64_space (b64char (of_nat n))"
    by (simp add: all_less_unfold b64char_def ascii_to_bin_eq is_base64_space_def)
  ultimately show ?thesis by (metis of_nat_unat_id)
qed


section \<open>Lemmas: blocks\<close>

lemma and_3f_less: "(x :: u8) AND 0x3f < 64"
  using unat_and_mask [of x 6] by (simp add: word_less_nat_alt mask_numeral)

lemma ascii_to_bin_equals [simp]: "base64_ascii_to_bin 0x3d = 0"
  by (simp add: ascii_to_bin_eq)

lemma conv_bin2ascii_props:
  "base64_ascii_to_bin (conv_bin2ascii x) = x AND 0x3f" "conv_bin2ascii x \<noteq> 0x3d" "\<not> is_base64_space (conv_bin2ascii x)"
  "x AND 0x3f \<noteq> 0xff"
  using b64char_range [OF and_3f_less [of x]] and_3f_less [of x] by (auto simp: conv_bin2ascii_eq word_less_nat_alt)

definition quad_value :: "u8 \<Rightarrow> u8 \<Rightarrow> u8 \<Rightarrow> u8 \<Rightarrow> u32" where
  "quad_value a b c d = push_bit 18 (ucast a) OR push_bit 12 (ucast b) OR push_bit 6 (ucast c) OR ucast d"

lemma decode_quad_conv:
  "base64_decode_quad (conv_bin2ascii a) (conv_bin2ascii b) (conv_bin2ascii c) (conv_bin2ascii d) =
     (let v = quad_value (a AND 0x3f) (b AND 0x3f) (c AND 0x3f) (d AND 0x3f)
      in Some [ucast (drop_bit 16 v), ucast (drop_bit 8 v), ucast v])"
  "base64_decode_quad (conv_bin2ascii a) (conv_bin2ascii b) (conv_bin2ascii c) 0x3d =
     (let v = quad_value (a AND 0x3f) (b AND 0x3f) (c AND 0x3f) 0 in Some [ucast (drop_bit 16 v), ucast (drop_bit 8 v)])"
  "base64_decode_quad (conv_bin2ascii a) (conv_bin2ascii b) 0x3d 0x3d =
     (let v = quad_value (a AND 0x3f) (b AND 0x3f) 0 0 in Some [ucast (drop_bit 16 v)])"
  by (simp_all add: base64_decode_quad_def conv_bin2ascii_props quad_value_def Let_def)

lemma decode_triple:
  "base64_decode_quad (conv_bin2ascii (ucast (drop_bit 18 l))) (conv_bin2ascii (ucast (drop_bit 12 l)))
     (conv_bin2ascii (ucast (drop_bit 6 l))) (conv_bin2ascii (ucast l)) =
     Some [ucast (drop_bit 16 l), ucast (drop_bit 8 l), ucast (l :: u32)]"
  "base64_decode_quad (conv_bin2ascii (ucast (drop_bit 18 l))) (conv_bin2ascii (ucast (drop_bit 12 l)))
     (conv_bin2ascii (ucast (drop_bit 6 l))) 0x3d = Some [ucast (drop_bit 16 l), ucast (drop_bit 8 l)]"
  "base64_decode_quad (conv_bin2ascii (ucast (drop_bit 18 l))) (conv_bin2ascii (ucast (drop_bit 12 l))) 0x3d 0x3d =
     Some [ucast (drop_bit 16 l)]"
  unfolding decode_quad_conv Let_def
  by (simp_all add: quad_value_def u8_eq_bits all_less_unfold bit_simps)

lemma triple_bytes:
  "(ucast (drop_bit 16 (push_bit 16 (ucast a) OR push_bit 8 (ucast b) OR ucast c :: u32)) :: u8) = a"
  "(ucast (drop_bit 8 (push_bit 16 (ucast a) OR push_bit 8 (ucast b) OR ucast c :: u32)) :: u8) = b"
  "(ucast (push_bit 16 (ucast a) OR push_bit 8 (ucast b) OR ucast c :: u32) :: u8) = (c :: u8)"
  "(ucast (drop_bit 16 (push_bit 16 (ucast a) OR push_bit 8 (ucast b) :: u32)) :: u8) = a"
  "(ucast (drop_bit 8 (push_bit 16 (ucast a) OR push_bit 8 (ucast b) :: u32)) :: u8) = b"
  "(ucast (drop_bit 16 (push_bit 16 (ucast a) :: u32)) :: u8) = a"
  by (simp_all add: u8_eq_bits all_less_unfold bit_simps)

lemma length_encode_block: "length (encode_block_loop src) = 4 * ((length src + 2) div 3)"
proof (induction src rule: encode_block_loop.induct)
  case (4 a b c src)
  have "(length src + 5) div 3 = Suc ((length src + 2) div 3)" using div_add_self2 [of 3 "length src + 2"] by (simp add: add.assoc)
  with 4 show ?case by (simp add: Let_def add.commute)
qed (simp_all add: Let_def)

lemma decode_encode_quads: "decode_quads (encode_block_loop src) = Some src"
proof (induction src rule: encode_block_loop.induct)
  case (4 a b c src)
  show ?case unfolding encode_block_loop.simps Let_def append_Cons append_Nil decode_quads.simps decode_triple
    by (simp only: triple_bytes option.case 4) simp
next
  case (3 a b)
  show ?case unfolding encode_block_loop.simps Let_def decode_quads.simps decode_triple
    by (simp only: triple_bytes option.case) simp
next
  case (2 a)
  show ?case unfolding encode_block_loop.simps Let_def decode_quads.simps decode_triple
    by (simp only: triple_bytes option.case) simp
qed simp

lemma decode_base64_encode: "4 * ((length src + 2) div 3) div 4 * 3 \<le> max_out \<Longrightarrow> EVP_DecodeBase64 max_out (encode_block_loop src) = Some src"
  by (simp add: EVP_DecodeBase64_def EVP_DecodedLength_def length_encode_block decode_encode_quads)

lemma encoded_length_iff:
  "n < 2 ^ 64 \<Longrightarrow> EVP_EncodedLength n = (if 4 * ((n + 2) div 3) + 1 < 2 ^ 64 then Some (4 * ((n + 2) div 3) + 1) else None)"
proof -
  assume n: "n < 2 ^ 64"
  show ?thesis
  proof (cases "n + 2 < 2 ^ 64")
    case True
    then have s: "size_add n 2 = n + 2" by (rule size_add_small)
    define m where "m = (n + 2) div 3"
    have m: "m < 2 ^ 63" using True by (simp add: m_def less_mult_imp_div_less)
    show ?thesis
    proof (cases "4 * m < 2 ^ 64")
      case True2: True
      then have mm: "size_mul m 4 = 4 * m" by (simp add: size_mul_def)
      have "4 * m + 1 < 2 ^ 64" using True2 by simp
      then show ?thesis unfolding EVP_EncodedLength_def s Let_def m_def [symmetric] mm by (simp add: size_add_small)
    next
      case False
      have "size_mul m 4 < 4 * m" using False mod_less_divisor [of "2 ^ 64" "m * 4"] unfolding size_mul_def by (simp del: mod_less_divisor)
      then have "size_mul m 4 div 4 \<noteq> m" using div_times_less_eq_dividend [of "size_mul m 4" 4] by auto
      with False show ?thesis unfolding EVP_EncodedLength_def s Let_def m_def [symmetric] by simp
    qed
  next
    case False
    with n have "size_add n 2 < n" using size_add_overflow_iff [of n 2] by simp
    moreover have "\<not> 4 * ((n + 2) div 3) + 1 < 2 ^ 64" using False by simp
    ultimately show ?thesis by (simp add: EVP_EncodedLength_def)
  qed
qed


section \<open>Lemmas: streams\<close>

text \<open>
  What the encoder has produced after reading \<open>xs\<close>: full lines of 48 bytes, with the rest held in
  the state.
\<close>

function b64_lines :: "bytes \<Rightarrow> bytes" where
  "b64_lines xs = (if length xs < 48 then [] else encode_block_loop (take 48 xs) @ [0x0a] @ b64_lines (drop 48 xs))"
  by pat_completeness auto
termination by (relation "measure length") auto

declare b64_lines.simps [simp del]

definition b64_pending :: "bytes \<Rightarrow> bytes" where
  "b64_pending xs = drop (length xs div 48 * 48) xs"

definition enc_ctx_ok :: "evp_encode_ctx_st \<Rightarrow> bytes \<Rightarrow> bool" where
  "enc_ctx_ok ctx xs \<longleftrightarrow> length (data ctx) = 48 \<and> data_used ctx < 48 \<and> take (data_used ctx) (data ctx) = b64_pending xs
     \<and> data_used ctx = length xs mod 48"

lemma length_b64_lines: "length (b64_lines xs) = 65 * (length xs div 48)"
proof (induction xs rule: b64_lines.induct)
  case (1 xs)
  show ?case
  proof (cases "length xs < 48")
    case False
    then have "length xs div 48 = Suc ((length xs - 48) div 48)" by (simp add: le_div_geq)
    with 1 [OF False] False show ?thesis by (subst b64_lines.simps) (simp add: length_encode_block min_def)
  qed (simp add: b64_lines.simps)
qed

lemma b64_lines_append: "48 dvd length xs \<Longrightarrow> b64_lines (xs @ ys) = b64_lines xs @ b64_lines ys"
proof (induction xs rule: b64_lines.induct)
  case (1 xs)
  show ?case
  proof (cases "length xs < 48")
    case True
    with "1.prems" have "xs = []" by (auto dest: dvd_imp_le)
    then show ?thesis by (simp add: b64_lines.simps [of "[]"])
  next
    case False
    with 1 have "b64_lines (drop 48 xs @ ys) = b64_lines (drop 48 xs) @ b64_lines ys" by simp
    with False show ?thesis by (subst (1 2) b64_lines.simps) simp
  qed
qed

lemma b64_split: "\<exists>q. xs = q @ b64_pending xs \<and> 48 dvd length q \<and> b64_lines xs = b64_lines q"
proof -
  let ?k = "length xs div 48 * 48"
  have "48 dvd length (take ?k xs)" by (simp add: min_absorb2 [OF div_times_less_eq_dividend])
  moreover have "b64_lines (b64_pending xs) = []"
    by (subst b64_lines.simps) (simp add: b64_pending_def minus_div_mult_eq_mod)
  moreover have "xs = take ?k xs @ b64_pending xs" by (simp add: b64_pending_def)
  ultimately show ?thesis using b64_lines_append [of "take ?k xs" "b64_pending xs"] by (metis append_Nil2)
qed

lemma encode_lines_eq:
  "tot = length out \<Longrightarrow> length out + 65 * (length inp div 48) < 2 ^ 64 \<Longrightarrow>
   encode_lines tot inp out = (Some (length (out @ b64_lines inp), b64_pending inp, out @ b64_lines inp), out @ b64_lines inp)"
proof (induction tot inp out rule: encode_lines.induct)
  case (1 tot inp out)
  show ?case
  proof (cases "48 \<le> length inp")
    case False
    then show ?thesis using "1.prems" by (simp add: encode_lines.simps b64_lines.simps b64_pending_def)
  next
    case True
    let ?enc = "encode_block_loop (take 48 inp)"
    have d: "length inp div 48 = Suc ((length inp - 48) div 48)" using True by (simp add: le_div_geq)
    have e: "length ?enc = 64" using True by (simp add: length_encode_block min_def)
    have "tot + 65 < 2 ^ 64" using "1.prems" d by (simp only:) simp
    then have s: "size_add (size_add tot 64) 1 = tot + 65" by (simp add: size_add_small)
    have p: "b64_pending (drop 48 inp) = b64_pending inp"
      using True d by (simp add: b64_pending_def add.commute)
    have l: "b64_lines inp = ?enc @ [0x0a] @ b64_lines (drop 48 inp)" using True by (subst b64_lines.simps) simp
    have ih: "encode_lines (tot + 65) (drop 48 inp) (out @ ?enc @ [0x0a]) =
       (Some (length ((out @ ?enc @ [0x0a]) @ b64_lines (drop 48 inp)), b64_pending (drop 48 inp),
         (out @ ?enc @ [0x0a]) @ b64_lines (drop 48 inp)), (out @ ?enc @ [0x0a]) @ b64_lines (drop 48 inp))"
    proof (rule "1.IH" [OF True, of "EVP_EncodeBlock (take 48 inp)" ?enc 64 "drop 48 inp" "out @ ?enc @ [0x0a]", unfolded s])
      show "length (out @ ?enc @ [0x0a]) + 65 * (length (drop 48 inp) div 48) < 2 ^ 64"
        using "1.prems"(2) d e by simp
    qed (use "1.prems"(1) e in \<open>simp_all add: EVP_EncodeBlock_def\<close>)
    have "encode_lines tot inp out = encode_lines (tot + 65) (drop 48 inp) (out @ ?enc @ [0x0a])"
      using True s by (subst encode_lines.simps) (simp add: EVP_EncodeBlock_def Let_def e)
    then show ?thesis unfolding ih p l by simp
  qed
qed


lemma b64_pending_append: "48 dvd length q \<Longrightarrow> b64_pending (q @ ys) = b64_pending ys"
proof -
  assume "48 dvd length q"
  then obtain k where k: "length q = 48 * k" by blast
  then have "(length q + length ys) div 48 * 48 = length q + length ys div 48 * 48" by (simp add: algebra_simps)
  then show ?thesis by (simp add: b64_pending_def)
qed

lemma length_b64_pending: "length (b64_pending xs) = length xs mod 48"
  by (simp add: b64_pending_def minus_div_mult_eq_mod)

lemma encode_update_tail:
  assumes "length d48 = 48" and "65 * (length inp div 48) + length out \<le> 0x7fffffff"
  shows "(case encode_lines (length out) inp out of
      (None, out) \<Rightarrow> (c, out, 0)
    | (Some (tot, inp, out), _) \<Rightarrow>
        (c\<lparr>data := (if length inp \<noteq> 0 then write_at 0 inp d48 else d48), data_used := length inp\<rparr>, out,
         if tot > 0x7fffffff then 0 else tot)) =
    (c\<lparr>data := (if b64_pending inp \<noteq> [] then write_at 0 (b64_pending inp) d48 else d48), data_used := length (b64_pending inp)\<rparr>,
     out @ b64_lines inp, length (out @ b64_lines inp))"
  using encode_lines_eq [of "length out" out inp] assms by (simp add: length_b64_lines)

lemma pending_stored:
  "length d48 = 48 \<Longrightarrow> length p < 48 \<Longrightarrow> take (length p) (if p \<noteq> [] then write_at 0 p d48 else d48) = p
    \<and> length (if p \<noteq> [] then write_at 0 p d48 else d48) = 48"
  by (simp add: write_at_def)

lemma length_write_at_le: "pos + length ys \<le> length bf \<Longrightarrow> length (write_at pos ys bf) = length bf"
  by (simp add: write_at_def)

lemma encode_update_ok:
  assumes ok: "enc_ctx_ok ctx xs" and b: "65 * ((length xs mod 48 + length inp) div 48) \<le> 0x7fffffff"
    and res: "EVP_EncodeUpdate ctx inp = (ctx', out, n)"
  shows "enc_ctx_ok ctx' (xs @ inp) \<and> b64_lines (xs @ inp) = b64_lines xs @ out \<and> n = length out"
proof -
  obtain q where q: "xs = q @ b64_pending xs" "48 dvd length q" "b64_lines xs = b64_lines q" using b64_split by blast
  define p where "p = b64_pending xs"
  have ctx: "length (data ctx) = 48" "data_used ctx = length p" "take (length p) (data ctx) = p" "length p < 48" "length p = length xs mod 48"
    using ok length_b64_pending [of xs] by (auto simp: enc_ctx_ok_def p_def)
  have goal: "enc_ctx_ok c (xs @ inp) \<longleftrightarrow> length (data c) = 48 \<and> data_used c = length (b64_pending (p @ inp)) \<and> take (data_used c) (data c) = b64_pending (p @ inp)" for c
  proof -
    have "b64_pending (xs @ inp) = b64_pending (p @ inp)"
      using b64_pending_append [OF q(2), of "p @ inp"] q(1) by (simp add: p_def) (metis append.assoc)
    moreover have "(length xs + length inp) mod 48 = length (b64_pending (p @ inp))"
      using calculation length_b64_pending [of "xs @ inp"] by simp
    ultimately show ?thesis unfolding enc_ctx_ok_def by (simp, metis mod_less_divisor zero_less_numeral)
  qed
  have lines: "b64_lines (xs @ inp) = b64_lines xs @ b64_lines (p @ inp)"
    using b64_lines_append [OF q(2), of "p @ inp"] q(1,3) by (simp add: p_def) (metis append.assoc)
  have small: "b64_lines ys = [] \<and> b64_pending ys = ys" if "length ys < 48" for ys
    using that by (simp add: b64_lines.simps b64_pending_def)
  consider (Empty) "inp = []" | (Short) "inp \<noteq> []" "length (p @ inp) < 48" | (Fill) "length (p @ inp) \<ge> 48" "p \<noteq> []" | (Lines) "length inp \<ge> 48" "p = []"
    by (cases "p = []"; cases "inp = []") (auto simp: not_less [symmetric])
  then show ?thesis
  proof cases
    case Empty
    then show ?thesis using res ok ctx by (auto simp: EVP_EncodeUpdate_def)
  next
    case Short
    have "take (length p + length inp) (write_at (length p) inp (data ctx)) = p @ inp"
      using ctx Short by (simp add: write_at_def)
    moreover have "length inp < 48 - length p" using Short(2) by simp
    then have "ctx' = ctx\<lparr>data := write_at (length p) inp (data ctx), data_used := length p + length inp\<rparr> \<and> out = [] \<and> n = 0"
      using res Short(1) ctx(2) by (auto simp: EVP_EncodeUpdate_def)
    ultimately show ?thesis
      using ctx(1) small [OF Short(2)] Short(2) unfolding goal lines by (simp add: length_write_at_le)
  next
    case Fill
    define todo where "todo = 48 - length p"
    define dat where "dat = write_at (length p) (take todo inp) (data ctx)"
    have dat: "dat = p @ take todo inp" "length dat = 48"
      using ctx Fill by (simp_all add: dat_def write_at_def todo_def)
    have enc: "EVP_EncodeBlock dat = (encode_block_loop dat, 64)"
      by (simp add: EVP_EncodeBlock_def length_encode_block dat(2))
    let ?o = "encode_block_loop dat @ [0x0a]"
    have guards: "inp \<noteq> []" "\<not> length inp < todo" "p \<noteq> []"
      using Fill ctx(4) by (auto simp: todo_def)
    have lo: "length ?o = 65" by (simp add: length_encode_block dat(2))
    have pi: "p @ inp = dat @ drop todo inp" by (simp add: dat(1))
    have l2: "b64_lines (p @ inp) = ?o @ b64_lines (drop todo inp)" and p2: "b64_pending (p @ inp) = b64_pending (drop todo inp)"
      unfolding pi using b64_lines_append [of dat "drop todo inp"] b64_pending_append [of dat "drop todo inp"] dat(2)
      by (simp_all add: b64_lines.simps [of dat] b64_lines.simps [of "[]"])
    have "(length p + length inp) div 48 = Suc ((length inp - todo) div 48)"
      using Fill ctx(4) by (simp add: todo_def le_div_geq)
    then have bd: "65 * (length (drop todo inp) div 48) + length ?o \<le> 0x7fffffff" using b ctx(5) lo by simp
    have "EVP_EncodeUpdate ctx inp = (case encode_lines (length ?o) (drop todo inp) ?o of
        (None, out) \<Rightarrow> (ctx\<lparr>data := dat, data_used := 0\<rparr>, out, 0)
      | (Some (tot, inp, out), _) \<Rightarrow>
          (ctx\<lparr>data := dat, data_used := 0\<rparr>\<lparr>data := (if length inp \<noteq> 0 then write_at 0 inp dat else dat), data_used := length inp\<rparr>, out,
           if tot > 0x7fffffff then 0 else tot))"
      unfolding EVP_EncodeUpdate_def ctx(2) Let_def todo_def [symmetric] dat_def [symmetric] enc lo
      using guards by (simp split: prod.split option.split)
    then have "ctx' = ctx\<lparr>data := (if b64_pending (drop todo inp) \<noteq> [] then write_at 0 (b64_pending (drop todo inp)) dat else dat), data_used := length (b64_pending (drop todo inp))\<rparr>"
       "out = ?o @ b64_lines (drop todo inp)" "n = length (?o @ b64_lines (drop todo inp))"
      unfolding encode_update_tail [OF dat(2) bd] using res by auto
    then show ?thesis unfolding goal lines l2 p2
      using pending_stored [OF dat(2), of "b64_pending (drop todo inp)"] by (simp add: length_b64_pending)
  next
    case Lines
    have "EVP_EncodeUpdate ctx inp = (case encode_lines (length []) inp [] of
        (None, out) \<Rightarrow> (ctx, out, 0)
      | (Some (tot, inp, out), _) \<Rightarrow>
          (ctx\<lparr>data := (if length inp \<noteq> 0 then write_at 0 inp (data ctx) else data ctx), data_used := length inp\<rparr>, out,
           if tot > 0x7fffffff then 0 else tot))"
      using Lines ctx by (auto simp: EVP_EncodeUpdate_def)
    then have "ctx' = ctx\<lparr>data := (if b64_pending inp \<noteq> [] then write_at 0 (b64_pending inp) (data ctx) else data ctx), data_used := length (b64_pending inp)\<rparr>"
       "out = b64_lines inp" "n = length (b64_lines inp)"
      using encode_update_tail [OF ctx(1), of inp "[]" ctx] res b ctx(5) Lines by auto
    then show ?thesis unfolding goal lines
      using pending_stored [OF ctx(1), of "b64_pending inp"] Lines by (simp add: length_b64_pending)
  qed
qed


lemma encode_init_ok: "enc_ctx_ok EVP_EncodeInit []"
  by (simp add: enc_ctx_ok_def EVP_EncodeInit_def b64_pending_def)

lemma encode_final_eq:
  assumes "enc_ctx_ok ctx xs" and "EVP_EncodeFinal ctx = (ctx', out, n)"
  shows "out = (if b64_pending xs = [] then [] else encode_block_loop (b64_pending xs) @ [0x0a]) \<and> n = length out"
proof -
  have "data_used ctx = length (b64_pending xs)" "take (data_used ctx) (data ctx) = b64_pending xs"
    using assms(1) by (auto simp: enc_ctx_ok_def length_b64_pending)
  then show ?thesis using assms(2) by (auto simp: EVP_EncodeFinal_def EVP_EncodeBlock_def)
qed

text \<open>Feeding a list of chunks to \<^verbatim>\<open>EVP_EncodeUpdate\<close> and collecting its output.\<close>

fun encode_chunks :: "evp_encode_ctx_st \<Rightarrow> bytes list \<Rightarrow> evp_encode_ctx_st \<times> bytes" where
  "encode_chunks ctx [] = (ctx, [])"
| "encode_chunks ctx (c # cs) =
     (let (ctx, out, n) = EVP_EncodeUpdate ctx c; (ctx, rest) = encode_chunks ctx cs in (ctx, take n out @ rest))"

lemma encode_chunks_ok:
  assumes "enc_ctx_ok ctx xs" and "\<And>c. c \<in> set cs \<Longrightarrow> length c \<le> 0x50000000" and "encode_chunks ctx cs = (ctx', out)"
  shows "enc_ctx_ok ctx' (xs @ concat cs) \<and> b64_lines (xs @ concat cs) = b64_lines xs @ out"
  using assms
proof (induction cs arbitrary: ctx xs out)
  case (Cons c cs)
  obtain c1 o1 n1 where u: "EVP_EncodeUpdate ctx c = (c1, o1, n1)" by (cases "EVP_EncodeUpdate ctx c")
  obtain c2 o2 where r: "encode_chunks c1 cs = (c2, o2)" by (cases "encode_chunks c1 cs")
  have "65 * ((length xs mod 48 + length c) div 48) \<le> 0x7fffffff"
  proof -
    have "(length xs mod 48 + length c) div 48 \<le> (47 + 0x50000000) div 48"
      using Cons.prems(2) [of c] mod_less_divisor [of 48 "length xs"] by (intro div_le_mono) (simp del: mod_less_divisor)
    then show ?thesis by simp
  qed
  note s = encode_update_ok [OF Cons.prems(1) this u]
  have "enc_ctx_ok c2 ((xs @ c) @ concat cs) \<and> b64_lines ((xs @ c) @ concat cs) = b64_lines (xs @ c) @ o2"
    using Cons.IH [of c1 "xs @ c" o2] s Cons.prems(2) r Cons.prems(3) u by simp
  with s u r Cons.prems(3) show ?case by auto
qed simp


text \<open>
  The decoder reads characters one at a time, so its loop distributes over concatenation; and it
  skips white space.
\<close>

lemma decode_loop_append:
  "decode_update_loop ctx out (xs @ ys) =
     (case decode_update_loop ctx out xs of (c, w, True) \<Rightarrow> decode_update_loop c w ys | (c, w, False) \<Rightarrow> (c, w, False))"
  by (induction ctx out xs rule: decode_update_loop.induct) (simp_all add: Let_def split: option.split)

definition dec_ctx_ok :: "evp_encode_ctx_st \<Rightarrow> bool" where
  "dec_ctx_ok ctx \<longleftrightarrow> length (data ctx) = 48 \<and> data_used ctx = 0 \<and> \<not> eof_seen ctx \<and> \<not> error_encountered ctx"

lemma decode_loop_quad:
  assumes "dec_ctx_ok ctx" and "\<not> is_base64_space a" "\<not> is_base64_space b" "\<not> is_base64_space c" "\<not> is_base64_space d"
    and "base64_decode_quad a b c d = Some bs" and "length bs \<le> 3"
  shows "\<exists>ctx'. length (data ctx') = 48 \<and> data_used ctx' = 0 \<and> eof_seen ctx' = (length bs < 3) \<and> \<not> error_encountered ctx'
    \<and> decode_update_loop ctx out (a # b # c # d # rest) = decode_update_loop ctx' (out @ bs) rest"
proof -
  have x: "data ctx \<noteq> []" "length (data ctx) = 48" using assms(1) by (auto simp: dec_ctx_ok_def)
  let ?dat = "(data ctx)[0 := a, Suc 0 := b, 2 := c, 3 := d]"
  let ?c0 = "ctx\<lparr>data := ?dat, data_used := 0\<rparr>"
  let ?ctx = "if length bs < 3 then ?c0\<lparr>eof_seen := True\<rparr> else ?c0"
  have n: "?dat ! 0 = a" "?dat ! Suc 0 = b" "?dat ! 2 = c" "?dat ! 3 = d" using x by simp_all
  have "decode_update_loop ctx out (a # b # c # d # rest) = decode_update_loop ?ctx (out @ bs) rest"
    using assms x n by (simp add: dec_ctx_ok_def numeral_2_eq_2 numeral_3_eq_3 Let_def)
  then show ?thesis using assms x by (intro exI [of _ ?ctx]) (simp add: dec_ctx_ok_def)
qed


declare decode_update_loop.simps(2) [simp del]

lemma decode_loop_block:
  assumes "dec_ctx_ok ctx"
  shows "\<exists>ctx'. (length src mod 3 = 0 \<longrightarrow> dec_ctx_ok ctx') \<and> data_used ctx' = 0 \<and> \<not> error_encountered ctx' \<and> eof_seen ctx' = (length src mod 3 \<noteq> 0)
    \<and> decode_update_loop ctx out (encode_block_loop src @ rest) = decode_update_loop ctx' (out @ src) rest"
proof -
  have eq: "\<not> is_base64_space 0x3d" by (simp add: is_base64_space_def)
  show ?thesis
  using assms
proof (induction src arbitrary: ctx out rule: encode_block_loop.induct)
  case 1
  then show ?case by (intro exI [of _ ctx]) (simp add: dec_ctx_ok_def)
next
  case (2 a)
  note c = conv_bin2ascii_props(3)
  obtain ctx' where "data_used ctx' = 0" "eof_seen ctx'" "\<not> error_encountered ctx'"
    "decode_update_loop ctx out (encode_block_loop [a] @ rest) = decode_update_loop ctx' (out @ [a]) rest"
    using decode_loop_quad [OF 2 c c eq eq decode_triple(3) [of "push_bit 16 (ucast a)", unfolded triple_bytes], of out rest]
    unfolding encode_block_loop.simps Let_def append_Cons append_Nil by auto
  then show ?case by (intro exI [of _ ctx']) simp
next
  case (3 a b)
  note c = conv_bin2ascii_props(3)
  obtain ctx' where "data_used ctx' = 0" "eof_seen ctx'" "\<not> error_encountered ctx'"
    "decode_update_loop ctx out (encode_block_loop [a, b] @ rest) = decode_update_loop ctx' (out @ [a, b]) rest"
    using decode_loop_quad [OF 3 c c c eq decode_triple(2) [of "push_bit 16 (ucast a) OR push_bit 8 (ucast b)", unfolded triple_bytes], of out rest]
    unfolding encode_block_loop.simps Let_def append_Cons append_Nil by auto
  then show ?case by (intro exI [of _ ctx']) simp
next
  case (4 a b c src)
  note n = conv_bin2ascii_props(3)
  obtain c1 where c1: "length (data c1) = 48" "data_used c1 = 0" "\<not> eof_seen c1" "\<not> error_encountered c1"
    "decode_update_loop ctx out (encode_block_loop (a # b # c # src) @ rest) = decode_update_loop c1 (out @ [a, b, c]) (encode_block_loop src @ rest)"
    using decode_loop_quad [OF 4(2) n n n n decode_triple(1) [of "push_bit 16 (ucast a) OR push_bit 8 (ucast b) OR ucast c"], unfolded triple_bytes, of out "encode_block_loop src @ rest"]
    unfolding encode_block_loop.simps Let_def append_Cons append_Nil triple_bytes by auto
  then have "dec_ctx_ok c1" by (simp add: dec_ctx_ok_def)
  from 4(1) [OF refl this, of "out @ [a, b, c]"] c1(5) show ?case by simp
qed
qed


lemma decode_loop_newline: "decode_update_loop ctx out (0x0a # rest) = decode_update_loop ctx out rest"
  by (simp add: decode_update_loop.simps is_base64_space_def)

lemma decode_loop_lines:
  "dec_ctx_ok ctx \<Longrightarrow> \<exists>ctx'. dec_ctx_ok ctx' \<and>
     decode_update_loop ctx out (b64_lines xs @ rest) = decode_update_loop ctx' (out @ take (length xs div 48 * 48) xs) rest"
proof (induction xs arbitrary: ctx out rule: b64_lines.induct)
  case (1 xs)
  show ?case
  proof (cases "length xs < 48")
    case True
    with 1 show ?thesis by (intro exI [of _ ctx]) (simp add: b64_lines.simps)
  next
    case False
    then have len: "length (take 48 xs) mod 3 = 0" "length xs div 48 = Suc ((length xs - 48) div 48)" by (simp_all add: le_div_geq)
    obtain c1 where c1: "dec_ctx_ok c1" "decode_update_loop ctx out (encode_block_loop (take 48 xs) @ 0x0a # b64_lines (drop 48 xs) @ rest) =
        decode_update_loop c1 (out @ take 48 xs) (0x0a # b64_lines (drop 48 xs) @ rest)"
      using decode_loop_block [OF "1.prems", of "take 48 xs" out "0x0a # b64_lines (drop 48 xs) @ rest"] len by auto
    obtain c2 where c2: "dec_ctx_ok c2" "decode_update_loop c1 (out @ take 48 xs) (b64_lines (drop 48 xs) @ rest) =
        decode_update_loop c2 ((out @ take 48 xs) @ take (length (drop 48 xs) div 48 * 48) (drop 48 xs)) rest"
      using "1.IH" [OF False c1(1)] by blast
    have "take (48 + (length xs - 48) div 48 * 48) xs = take 48 xs @ take ((length xs - 48) div 48 * 48) (drop 48 xs)"
      by (simp add: take_add)
    with False c1 c2 len show ?thesis
      by (intro exI [of _ c2]) (simp add: b64_lines.simps [of xs] decode_loop_newline)
  qed
qed

text \<open>Everything the encoder writes for \<open>xs\<close>, and that the decoder reads \<open>xs\<close> back from it.\<close>

definition b64_stream :: "bytes \<Rightarrow> bytes" where
  "b64_stream xs = b64_lines xs @ (if b64_pending xs = [] then [] else encode_block_loop (b64_pending xs) @ [0x0a])"

lemma decode_stream:
  assumes "dec_ctx_ok ctx"
  shows "\<exists>ctx'. data_used ctx' = 0 \<and> \<not> error_encountered ctx' \<and> eof_seen ctx' = (length xs mod 3 \<noteq> 0)
    \<and> decode_update_loop ctx [] (b64_stream xs) = (ctx', xs, True)"
proof -
  let ?k = "length xs div 48 * 48"
  define tl where "tl = (if b64_pending xs = [] then [] else encode_block_loop (b64_pending xs) @ [0x0a])"
  obtain c1 where c1: "dec_ctx_ok c1" "decode_update_loop ctx [] (b64_stream xs) = decode_update_loop c1 (take ?k xs) tl"
    using decode_loop_lines [OF assms, of "[]" xs tl] by (auto simp: b64_stream_def tl_def)
  have xs: "take ?k xs @ b64_pending xs = xs" by (simp add: b64_pending_def)
  have m3: "length (b64_pending xs) mod 3 = length xs mod 3"
    unfolding length_b64_pending by (rule mod_mod_cancel) simp
  show ?thesis
  proof (cases "b64_pending xs = []")
    case True
    with c1 xs m3 show ?thesis by (intro exI [of _ c1]) (simp add: tl_def dec_ctx_ok_def)
  next
    case False
    then show ?thesis
      using decode_loop_block [OF c1(1), of "b64_pending xs" "take ?k xs" "[0x0a]"] c1(2) xs m3
      by (auto simp: tl_def decode_loop_newline)
  qed
qed

end
