(* ===== verification/Stack.thy ===== *)
theory Stack
  imports Mem Sorting
begin

text \<open>
  \<^verbatim>\<open>crypto/stack/stack.c\<close>: the pointer stack.  \<open>stack_st\<close> has the fields of the C structure;
  \<^verbatim>\<open>data\<close> is the list of all its allocated slots, of which the first \<open>num\<close> are valid
  (\<open>elems\<close>).  A null stack is \<open>None\<close>, a comparison function is known by its address, and
  what it computes is the parameter \<open>call_cmp\<close>.
  \<^item> \<open>sk_insert_spec\<close>, \<open>sk_delete_spec\<close> and the lemmas after them: every operation keeps the
    invariant \<open>sk_inv\<close> and is the list operation on the elements; a failed allocation
    leaves the stack as it was.  \<open>list_container\<close> is that contract.
  \<^item> \<open>bsearch_find\<close>, \<open>sk_find_spec\<close>: the binary search of a sorted stack is the linear search.
  \<^item> \<open>sk_sort_spec\<close>: an ordered permutation.  \<open>sk_sorted_kept\<close>: the operations that keep the
    promise of the flag \<^verbatim>\<open>sorted\<close>; \<open>sk_set_loses\<close>: the one that does not.
\<close>

text \<open>The structure, with \<^verbatim>\<open>sorted\<close> as \<open>sorted_flag\<close>.\<close>

record stack_st =
  num :: nat
  sdata :: "ptr list"
  sorted_flag :: bool
  num_alloc :: nat
  comp :: nat

section \<open>Operations\<close>

definition kMinSize :: nat where
  "kMinSize = 4"

definition sizeof_ptr :: nat where
  "sizeof_ptr = 8"

definition sizeof_STACK :: nat where
  "sizeof_STACK = 40"

definition sk_new :: "alloc_env \<Rightarrow> nat \<Rightarrow> stack_st option" where
  "sk_new E cmp =
     (case OPENSSL_malloc E sizeof_STACK of
        None \<Rightarrow> None
      | Some _ \<Rightarrow>
          (case OPENSSL_malloc E (size_mul sizeof_ptr kMinSize) of
             None \<Rightarrow> None
           | Some _ \<Rightarrow> Some \<lparr>num = 0, sdata = replicate kMinSize NULL, sorted_flag = False,
                              num_alloc = kMinSize, comp = cmp\<rparr>))"

definition sk_new_null :: "alloc_env \<Rightarrow> stack_st option" where
  "sk_new_null E = sk_new E NULL"

definition sk_num :: "stack_st option \<Rightarrow> nat" where
  "sk_num sk = (case sk of None \<Rightarrow> 0 | Some s \<Rightarrow> num s)"

definition sk_zero :: "stack_st option \<Rightarrow> stack_st option" where
  "sk_zero sk =
     (case sk of
        None \<Rightarrow> None
      | Some s \<Rightarrow>
          if num s = 0 then sk
          else Some (s\<lparr>sdata := replicate (num s) NULL @ drop (num s) (sdata s), num := 0, sorted_flag := False\<rparr>))"

definition sk_value :: "stack_st option \<Rightarrow> nat \<Rightarrow> ptr" where
  "sk_value sk i =
     (case sk of None \<Rightarrow> NULL | Some s \<Rightarrow> if i \<ge> num s then NULL else sdata s ! i)"

definition sk_set :: "stack_st option \<Rightarrow> nat \<Rightarrow> ptr \<Rightarrow> ptr \<times> stack_st option" where
  "sk_set sk i value =
     (case sk of
        None \<Rightarrow> (NULL, None)
      | Some s \<Rightarrow>
          if i \<ge> num s then (NULL, sk) else (value, Some (s\<lparr>sdata := (sdata s)[i := value]\<rparr>)))"

text \<open>The elements \<^verbatim>\<open>sk_pop_free_ex\<close> passes to the destructor, in order.\<close>

definition sk_pop_free_ex :: "stack_st option \<Rightarrow> ptr list" where
  "sk_pop_free_ex sk =
     (case sk of None \<Rightarrow> [] | Some s \<Rightarrow> filter (\<lambda>p. p \<noteq> NULL) (take (num s) (sdata s)))"

definition sk_pop_free :: "stack_st option \<Rightarrow> ptr list" where
  "sk_pop_free sk = sk_pop_free_ex sk"

text \<open>Reallocation of the pointer array; fresh entries are indeterminate.\<close>

definition realloc_ptrs :: "alloc_env \<Rightarrow> ptr list \<Rightarrow> nat \<Rightarrow> ptr list option" where
  "realloc_ptrs E d alloc_size =
     (case OPENSSL_malloc E alloc_size of
        None \<Rightarrow> None
      | Some fresh \<Rightarrow>
          (let n = alloc_size div sizeof_ptr; k = min (length d) n
           in Some (take k d @ map (\<lambda>i. unat (junk E i)) [k..<n])))"

text \<open>The first part of \<^verbatim>\<open>sk_insert\<close>: room for one more element, doubling the array when it can.\<close>

definition sk_grow :: "alloc_env \<Rightarrow> stack_st \<Rightarrow> stack_st option" where
  "sk_grow E s =
     (if num_alloc s \<le> size_add (num s) 1 then
        let new_alloc = size_mul (num_alloc s) 2;
            alloc_size = size_mul new_alloc sizeof_ptr;
            overflow = (new_alloc < num_alloc s \<or> alloc_size div sizeof_ptr \<noteq> new_alloc);
            new_alloc = (if overflow then size_add (num_alloc s) 1 else new_alloc);
            alloc_size = (if overflow then size_mul new_alloc sizeof_ptr else alloc_size)
        in if new_alloc < num_alloc s \<or> alloc_size div sizeof_ptr \<noteq> new_alloc then None
           else
             case realloc_ptrs E (sdata s) alloc_size of
               None \<Rightarrow> None
             | Some d \<Rightarrow> Some (s\<lparr>sdata := d, num_alloc := new_alloc\<rparr>)
      else Some s)"

definition sk_insert :: "alloc_env \<Rightarrow> stack_st option \<Rightarrow> ptr \<Rightarrow> nat \<Rightarrow> nat \<times> stack_st option" where
  "sk_insert E sk p pos =
     (case sk of
        None \<Rightarrow> (0, None)
      | Some s \<Rightarrow>
          (case sk_grow E s of
             None \<Rightarrow> (0, sk)
           | Some s \<Rightarrow>
               (let d = (if pos \<ge> num s then (sdata s)[num s := p]
                         else take pos (sdata s) @ [p] @ take (num s - pos) (drop pos (sdata s))
                              @ drop (num s + 1) (sdata s))
                in (num s + 1, Some (s\<lparr>sdata := d, num := num s + 1, sorted_flag := False\<rparr>)))))"

definition sk_delete :: "stack_st option \<Rightarrow> nat \<Rightarrow> ptr \<times> stack_st option" where
  "sk_delete sk pos =
     (case sk of
        None \<Rightarrow> (NULL, None)
      | Some s \<Rightarrow>
          if pos \<ge> num s then (NULL, sk)
          else
            let ret = sdata s ! pos;
                d = (if pos \<noteq> num s - 1
                     then take pos (sdata s) @ take (num s - pos - 1) (drop (pos + 1) (sdata s))
                          @ drop (num s - 1) (sdata s)
                     else sdata s)
            in (ret, Some (s\<lparr>sdata := d, num := num s - 1\<rparr>)))"

text \<open>The index of the first element that satisfies a test: the linear searches of the file.\<close>

fun find_index :: "('a \<Rightarrow> bool) \<Rightarrow> 'a list \<Rightarrow> nat option" where
  "find_index P [] = None"
| "find_index P (x # xs) = (if P x then Some 0 else map_option Suc (find_index P xs))"

definition sk_delete_ptr :: "stack_st option \<Rightarrow> ptr \<Rightarrow> ptr \<times> stack_st option" where
  "sk_delete_ptr sk p =
     (case sk of
        None \<Rightarrow> (NULL, None)
      | Some s \<Rightarrow>
          (case find_index (\<lambda>q. q = p) (take (num s) (sdata s)) of
             None \<Rightarrow> (NULL, sk)
           | Some i \<Rightarrow> sk_delete sk i))"

text \<open>The binary search, over the interval \<open>lo \<le> idx < hi\<close>; \<open>r idx\<close> is the comparison with element \<open>idx\<close>.\<close>

function bsearch :: "(nat \<Rightarrow> int) \<Rightarrow> nat \<Rightarrow> nat \<Rightarrow> nat option" where
  "bsearch r lo hi =
     (if lo < hi then
        let mid = lo + (hi - lo - 1) div 2
        in if r mid > 0 then bsearch r (mid + 1) hi
           else if r mid < 0 then bsearch r lo mid
           else if hi - lo = 1 then Some mid
           else bsearch r lo (mid + 1)
      else None)"
  by pat_completeness auto
termination
proof (relation "measure (\<lambda>(r, lo, hi). hi - lo)")
  fix r :: "nat \<Rightarrow> int" and lo hi mid :: nat
  assume h: "lo < hi" "mid = lo + (hi - lo - 1) div 2"
  then have m: "(hi - lo - 1) div 2 < hi - lo" by auto
  show "((r, mid + 1, hi), r, lo, hi) \<in> measure (\<lambda>(r, lo, hi). hi - lo)" using h m by auto
  show "((r, lo, mid), r, lo, hi) \<in> measure (\<lambda>(r, lo, hi). hi - lo)" using h m by auto
  assume "hi - lo \<noteq> 1"
  with h have "(hi - lo - 1) div 2 + 1 < hi - lo" by linarith
  with h show "((r, lo, mid + 1), r, lo, hi) \<in> measure (\<lambda>(r, lo, hi). hi - lo)" by auto
qed simp

declare bsearch.simps [simp del]

lemma bsearch_step:
  assumes "lo < hi" "mid = lo + (hi - lo - 1) div 2"
  shows "bsearch r lo hi =
     (if r mid > 0 then bsearch r (mid + 1) hi
      else if r mid < 0 then bsearch r lo mid
      else if hi - lo = 1 then Some mid else bsearch r lo (mid + 1))"
  using bsearch.simps [of r lo hi] assms by (simp only: if_True Let_def)

lemma bsearch_empty: "\<not> lo < hi \<Longrightarrow> bsearch r lo hi = None"
  using bsearch.simps [of r lo hi] by (simp only: if_False)

definition sk_is_sorted :: "stack_st option \<Rightarrow> bool" where
  "sk_is_sorted sk = (case sk of None \<Rightarrow> True | Some s \<Rightarrow> sorted_flag s)"

text \<open>
  \<^verbatim>\<open>sk_find\<close>: the index, \<open>None\<close> when the function returns zero.  \<open>call_cmp f a b\<close> is
  \<^verbatim>\<open>call_cmp_func(f, &a, &b)\<close>.
\<close>

definition sk_find :: "(nat \<Rightarrow> ptr \<Rightarrow> ptr \<Rightarrow> int) \<Rightarrow> stack_st option \<Rightarrow> ptr \<Rightarrow> nat option" where
  "sk_find call_cmp sk p =
     (case sk of
        None \<Rightarrow> None
      | Some s \<Rightarrow>
          if comp s = NULL then find_index (\<lambda>q. q = p) (take (num s) (sdata s))
          else if p = NULL then None
          else if \<not> sk_is_sorted sk
            then find_index (\<lambda>elem. call_cmp (comp s) p elem = 0) (take (num s) (sdata s))
          else bsearch (\<lambda>i. call_cmp (comp s) p (sdata s ! i)) 0 (num s))"

definition sk_shift :: "stack_st option \<Rightarrow> ptr \<times> stack_st option" where
  "sk_shift sk =
     (case sk of None \<Rightarrow> (NULL, None) | Some s \<Rightarrow> if num s = 0 then (NULL, sk) else sk_delete sk 0)"

definition sk_push :: "alloc_env \<Rightarrow> stack_st \<Rightarrow> ptr \<Rightarrow> nat \<times> stack_st option" where
  "sk_push E sk p = sk_insert E (Some sk) p (num sk)"

definition sk_pop :: "stack_st option \<Rightarrow> ptr \<times> stack_st option" where
  "sk_pop sk =
     (case sk of None \<Rightarrow> (NULL, None) | Some s \<Rightarrow> if num s = 0 then (NULL, sk) else sk_delete sk (num s - 1))"

definition sk_dup :: "alloc_env \<Rightarrow> stack_st option \<Rightarrow> stack_st option" where
  "sk_dup E sk =
     (case sk of
        None \<Rightarrow> None
      | Some s \<Rightarrow>
          (case OPENSSL_malloc E sizeof_STACK of
             None \<Rightarrow> None
           | Some _ \<Rightarrow>
               (case OPENSSL_malloc E (size_mul sizeof_ptr (num_alloc s)) of
                  None \<Rightarrow> None
                | Some _ \<Rightarrow>
                    Some \<lparr>num = num s,
                          sdata = take (num s) (sdata s) @ map (\<lambda>i. unat (junk E i)) [num s..<num_alloc s],
                          sorted_flag = sorted_flag s, num_alloc = num_alloc s, comp = comp s\<rparr>)))"

definition sk_sort :: "(nat \<Rightarrow> ptr \<Rightarrow> ptr \<Rightarrow> int) \<Rightarrow> stack_st option \<Rightarrow> stack_st option" where
  "sk_sort call_cmp sk =
     (case sk of
        None \<Rightarrow> None
      | Some s \<Rightarrow>
          if comp s = NULL \<or> sorted_flag s then sk
          else
            let d = (if num s \<ge> 2
                     then qsort (call_cmp (comp s)) (take (num s) (sdata s)) @ drop (num s) (sdata s)
                     else sdata s)
            in Some (s\<lparr>sdata := d, sorted_flag := True\<rparr>))"

definition sk_set_cmp_func :: "stack_st \<Rightarrow> nat \<Rightarrow> nat \<times> stack_st" where
  "sk_set_cmp_func sk cmp =
     (let old = comp sk;
          sk = (if comp sk \<noteq> cmp then sk\<lparr>sorted_flag := False\<rparr> else sk)
      in (old, sk\<lparr>comp := cmp\<rparr>))"

text \<open>
  The loop of \<^verbatim>\<open>sk_deep_copy\<close> from index \<open>i\<close>: the copied array, or the copies it hands to the
  destructor before failing.
\<close>

fun deep_copy_loop :: "(ptr \<Rightarrow> ptr) \<Rightarrow> ptr list \<Rightarrow> ptr list \<Rightarrow> ptr list + ptr list" where
  "deep_copy_loop copy done [] = Inr done"
| "deep_copy_loop copy done (x # xs) =
     (if x = NULL then deep_copy_loop copy (done @ [x]) xs
      else if copy x = NULL then Inl (filter (\<lambda>p. p \<noteq> NULL) done)
      else deep_copy_loop copy (done @ [copy x]) xs)"

definition sk_deep_copy ::
    "alloc_env \<Rightarrow> (ptr \<Rightarrow> ptr) \<Rightarrow> stack_st option \<Rightarrow> stack_st option \<times> ptr list" where
  \<comment> \<open>the copy and the pointers passed to \<^verbatim>\<open>free_func\<close>\<close>
  "sk_deep_copy E copy sk =
     (case sk_dup E sk of
        None \<Rightarrow> (None, [])
      | Some ret \<Rightarrow>
          (case deep_copy_loop copy [] (take (num ret) (sdata ret)) of
             Inl freed \<Rightarrow> (None, freed)
           | Inr d \<Rightarrow> (Some (ret\<lparr>sdata := d @ drop (num ret) (sdata ret)\<rparr>), [])))"


section \<open>Invariant and abstraction\<close>

definition sk_inv :: "stack_st \<Rightarrow> bool" where
  "sk_inv s \<longleftrightarrow> length (sdata s) = num_alloc s \<and> num s < num_alloc s \<and> num_alloc s * sizeof_ptr < 2 ^ 64"

definition elems :: "stack_st \<Rightarrow> ptr list" where
  "elems s = take (num s) (sdata s)"

lemma length_elems [simp]: "sk_inv s \<Longrightarrow> length (elems s) = num s"
  by (simp add: sk_inv_def elems_def)

lemma elems_nth: "i < num s \<Longrightarrow> elems s ! i = sdata s ! i"
  by (simp add: elems_def)

lemma sk_new_Some: "sk_new E cmp = Some s \<Longrightarrow> sk_inv s \<and> elems s = [] \<and> comp s = cmp \<and> \<not> sorted_flag s"
  by (auto simp: sk_new_def sk_inv_def elems_def kMinSize_def sizeof_ptr_def split: option.splits)

lemma realloc_ptrs_Some:
  assumes "realloc_ptrs E d (n * sizeof_ptr) = Some d'" "length d \<le> n"
  shows "length d' = n \<and> take (length d) d' = d"
  using assms by (auto simp: realloc_ptrs_def Let_def sizeof_ptr_def split: option.splits)

lemma size_mul_exact: "size_mul n sizeof_ptr div sizeof_ptr = n \<Longrightarrow> size_mul n sizeof_ptr = n * sizeof_ptr \<and> n * sizeof_ptr < 2 ^ 64"
proof -
  assume h: "size_mul n sizeof_ptr div sizeof_ptr = n"
  have "size_mul n sizeof_ptr < 2 ^ 64" by (simp add: size_mul_def)
  moreover have "n * sizeof_ptr \<le> size_mul n sizeof_ptr" using h by (metis div_times_less_eq_dividend)
  moreover have "size_mul n sizeof_ptr \<le> n * sizeof_ptr" by (simp add: size_mul_def)
  ultimately show ?thesis by simp
qed

lemma sk_grow_Some:
  assumes "sk_inv s" and g: "sk_grow E s = Some s'"
  shows "sk_inv s' \<and> num s' = num s \<and> elems s' = elems s \<and> num s + 1 < num_alloc s' \<and> comp s' = comp s"
proof (cases "num_alloc s \<le> size_add (num s) 1")
  case False
  have "num s + 1 < 2 ^ 64" using assms(1) by (simp add: sk_inv_def sizeof_ptr_def)
  then have "size_add (num s) 1 = num s + 1" by (rule size_add_small)
  then show ?thesis using False g assms(1) by (simp add: sk_grow_def)
next
  case True
  from assms(1) have i: "length (sdata s) = num_alloc s" "num s < num_alloc s" "num_alloc s * sizeof_ptr < 2 ^ 64"
    by (auto simp: sk_inv_def)
  obtain n d where n: "n = size_mul (num_alloc s) 2 \<or> n = size_add (num_alloc s) 1"
    and le: "num_alloc s \<le> n" and ex: "size_mul n sizeof_ptr div sizeof_ptr = n"
    and d: "realloc_ptrs E (sdata s) (size_mul n sizeof_ptr) = Some d"
    and s': "s' = s\<lparr>sdata := d, num_alloc := n\<rparr>"
    using g True by (auto simp: sk_grow_def Let_def not_less split: if_splits option.splits)
  have small: "num_alloc s * 2 < 2 ^ 64" "num_alloc s + 1 < 2 ^ 64"
    using i by (auto simp: sizeof_ptr_def)
  have n': "num_alloc s < n"
    using n small i(2) by (auto simp: size_mul_def size_add_def)
  from size_mul_exact [OF ex] have sz: "size_mul n sizeof_ptr = n * sizeof_ptr" "n * sizeof_ptr < 2 ^ 64" by auto
  have d': "length d = n" "take (num_alloc s) d = sdata s"
    using realloc_ptrs_Some [of E "sdata s" n d] d sz i le by auto
  have "take (num s) d = take (num s) (sdata s)"
    using d'(2) i(2) by (metis less_imp_le_nat min.absorb1 take_take)
  then show ?thesis using d' sz n' i by (simp add: s' sk_inv_def elems_def)
qed

text \<open>Insertion either fails and changes nothing, or inserts at the position (at the end when it is past it).\<close>

lemma sk_insert_spec:
  assumes "sk_inv s" "sk_insert E (Some s) p pos = (n, s')"
  shows "(n = 0 \<and> s' = Some s) \<or>
    (\<exists>t. s' = Some t \<and> n = num s + 1 \<and> sk_inv t \<and> comp t = comp s \<and> \<not> sorted_flag t
       \<and> elems t = take pos (elems s) @ p # drop pos (elems s))"
proof (cases "sk_grow E s")
  case None
  then show ?thesis using assms by (simp add: sk_insert_def)
next
  case (Some u)
  from sk_grow_Some [OF assms(1) Some] have u: "sk_inv u" "num u = num s" "elems u = elems s"
    "num s + 1 < num_alloc u" "comp u = comp s" by auto
  then have len: "length (sdata u) = num_alloc u" by (simp add: sk_inv_def)
  define d where "d = (if pos \<ge> num u then (sdata u)[num u := p]
     else take pos (sdata u) @ [p] @ take (num u - pos) (drop pos (sdata u)) @ drop (num u + 1) (sdata u))"
  define t where "t = u\<lparr>sdata := d, num := num u + 1, sorted_flag := False\<rparr>"
  have r: "n = num s + 1" "s' = Some t"
    using assms(2) u(2) by (auto simp: sk_insert_def Some Let_def t_def d_def)
  have "length d = num_alloc u" using len u(2,4) by (auto simp: d_def)
  then have inv: "sk_inv t" using u(1,2,4) by (simp add: t_def sk_inv_def)
  have "take (num u + 1) d = take pos (take (num u) (sdata u)) @ p # drop pos (take (num u) (sdata u))"
  proof (cases "pos \<ge> num u")
    case True
    then show ?thesis using len u by (simp add: d_def take_Suc_conv_app_nth)
  next
    case False
    then show ?thesis using len u by (simp add: d_def min_def Suc_diff_le drop_take)
  qed
  then have "elems t = take pos (elems u) @ p # drop pos (elems u)"
    by (simp add: elems_def t_def)
  then have "elems t = take pos (elems s) @ p # drop pos (elems s)" by (simp only: u(3))
  then show ?thesis using r inv u(5) by (simp add: t_def)
qed

lemma sk_delete_spec:
  assumes "sk_inv s" "pos < num s"
  shows "\<exists>t. sk_delete (Some s) pos = (elems s ! pos, Some t) \<and> sk_inv t \<and> comp t = comp s
    \<and> sorted_flag t = sorted_flag s \<and> elems t = take pos (elems s) @ drop (Suc pos) (elems s)"
proof -
  have len: "length (sdata s) = num_alloc s" "num s < num_alloc s" using assms(1) by (auto simp: sk_inv_def)
  define d where "d = (if pos \<noteq> num s - 1
       then take pos (sdata s) @ take (num s - pos - 1) (drop (pos + 1) (sdata s)) @ drop (num s - 1) (sdata s)
       else sdata s)"
  have "length d = num_alloc s" using len assms(2) by (auto simp: d_def)
  moreover have "take (num s - 1) d = take pos (elems s) @ drop (Suc pos) (elems s)"
    using len assms(2) by (auto simp: d_def elems_def drop_take min_def)
  ultimately show ?thesis
    using assms by (auto simp: sk_delete_def Let_def d_def [symmetric] sk_inv_def elems_def drop_take)
qed

lemma sk_push_spec:
  assumes "sk_inv s" "sk_push E s p = (n, s')"
  shows "(n = 0 \<and> s' = Some s) \<or> (\<exists>t. s' = Some t \<and> n = num s + 1 \<and> sk_inv t \<and> elems t = elems s @ [p])"
  using sk_insert_spec [OF assms(1) assms(2) [unfolded sk_push_def]] assms(1) by auto

lemma sk_pop_spec:
  assumes "sk_inv s" "num s \<noteq> 0"
  shows "\<exists>t. sk_pop (Some s) = (last (elems s), Some t) \<and> sk_inv t \<and> elems t = butlast (elems s)"
proof -
  have l: "length (elems s) = num s" using assms by simp
  then have "elems s ! (num s - 1) = last (elems s)" using assms(2) by (metis last_conv_nth length_0_conv)
  then show ?thesis
    using sk_delete_spec [OF assms(1), of "num s - 1"] assms(2) l by (auto simp: sk_pop_def butlast_conv_take)
qed

lemma sk_shift_spec:
  assumes "sk_inv s" "num s \<noteq> 0"
  shows "\<exists>t. sk_shift (Some s) = (List.hd (elems s), Some t) \<and> sk_inv t \<and> elems t = tl (elems s)"
proof -
  have "elems s \<noteq> []" using assms by (metis length_elems list.size(3))
  then show ?thesis
    using sk_delete_spec [OF assms(1), of 0] assms(2) by (auto simp: sk_shift_def hd_conv_nth drop_Suc)
qed


lemma sk_insert_works:
  assumes "no_failures E" "num_alloc s < 2 ^ 59"
  shows "fst (sk_insert E (Some s) p pos) \<noteq> 0"
proof -
  have "size_mul (num_alloc s) 2 = 2 * num_alloc s" "size_mul (2 * num_alloc s) sizeof_ptr = sizeof_ptr * (2 * num_alloc s)"
    using assms(2) by (auto simp: size_mul_def sizeof_ptr_def)
  moreover have "OPENSSL_malloc E (sizeof_ptr * (2 * num_alloc s)) \<noteq> None"
    using assms by (simp add: OPENSSL_malloc_works sizeof_ptr_def)
  ultimately have "\<exists>u. sk_grow E s = Some u"
    by (auto simp: sk_grow_def realloc_ptrs_def Let_def sizeof_ptr_def)
  then show ?thesis by (auto simp: sk_insert_def Let_def)
qed

lemma sk_set_spec:
  assumes "sk_inv s" "i < num s"
  shows "\<exists>t. sk_set (Some s) i v = (v, Some t) \<and> sk_inv t \<and> elems t = (elems s)[i := v]
    \<and> sorted_flag t = sorted_flag s"
  using assms by (auto simp: sk_set_def sk_inv_def elems_def take_update_swap)

lemma sk_zero_spec:
  assumes "sk_inv s"
  shows "\<exists>t. sk_zero (Some s) = Some t \<and> sk_inv t \<and> elems t = [] \<and> comp t = comp s"
  using assms by (auto simp: sk_zero_def sk_inv_def elems_def)

lemma sk_value_spec:
  assumes "sk_inv s"
  shows "sk_value (Some s) i = (if i < length (elems s) then elems s ! i else NULL)"
  using assms by (simp add: sk_value_def elems_nth)

lemma sk_dup_spec:
  assumes "sk_inv s" "sk_dup E (Some s) = Some t"
  shows "sk_inv t \<and> elems t = elems s \<and> sorted_flag t = sorted_flag s \<and> comp t = comp s"
  using assms by (auto simp: sk_dup_def sk_inv_def elems_def split: option.splits)

section \<open>The stack as a list\<close>

text \<open>
  The contract of the positional operations over the list of elements, and what follows from
  it for a client that fills a container at the back and empties it from the front.
\<close>

fun insert_all :: "('s \<Rightarrow> 'p \<Rightarrow> nat \<Rightarrow> 's option) \<Rightarrow> ('s \<Rightarrow> nat) \<Rightarrow> 's \<Rightarrow> 'p list \<Rightarrow> 's option" where
  "insert_all ins count_of s [] = Some s"
| "insert_all ins count_of s (p # ps) =
     (case ins s p (count_of s) of None \<Rightarrow> None | Some t \<Rightarrow> insert_all ins count_of t ps)"

fun delete_all :: "('s \<Rightarrow> nat \<Rightarrow> ('p \<times> 's) option) \<Rightarrow> 's \<Rightarrow> nat \<Rightarrow> ('p list \<times> 's) option" where
  "delete_all del s 0 = Some ([], s)"
| "delete_all del s (Suc n) =
     (case del s 0 of
        None \<Rightarrow> None
      | Some (p, t) \<Rightarrow> map_option (\<lambda>(ps, u). (p # ps, u)) (delete_all del t n))"

locale list_container =
  fixes ok :: "'s \<Rightarrow> bool"
    and items :: "'s \<Rightarrow> 'p list"
    and count_of :: "'s \<Rightarrow> nat"
    and ins :: "'s \<Rightarrow> 'p \<Rightarrow> nat \<Rightarrow> 's option"
    and del :: "'s \<Rightarrow> nat \<Rightarrow> ('p \<times> 's) option"
  assumes count_of: "ok s \<Longrightarrow> count_of s = length (items s)"
    and ins: "ok s \<Longrightarrow> ins s p k = Some t \<Longrightarrow> ok t \<and> items t = take k (items s) @ p # drop k (items s)"
    and del: "ok s \<Longrightarrow> k < length (items s) \<Longrightarrow>
      \<exists>t. del s k = Some (items s ! k, t) \<and> ok t \<and> items t = take k (items s) @ drop (Suc k) (items s)"
begin

lemma del_ins:
  assumes "ok s" "k \<le> length (items s)" "ins s p k = Some t"
  shows "\<exists>u. del t k = Some (p, u) \<and> ok u \<and> items u = items s"
proof -
  have t: "ok t" "items t = take k (items s) @ p # drop k (items s)" using ins [OF assms(1,3)] by auto
  have "length (take k (items s)) = k" using assms(2) by simp
  then have "items t ! k = p" "take k (items t) @ drop (Suc k) (items t) = items s" "k < length (items t)"
    by (simp_all add: t(2) nth_append)
  with del [OF t(1), of k] show ?thesis by auto
qed

lemma insert_all: "ok s \<Longrightarrow> insert_all ins count_of s ps = Some t \<Longrightarrow> ok t \<and> items t = items s @ ps"
proof (induction ps arbitrary: s)
  case (Cons p ps)
  then obtain u where u: "ins s p (count_of s) = Some u" "insert_all ins count_of u ps = Some t"
    by (auto split: option.splits)
  with ins [OF Cons.prems(1) u(1)] Cons.IH [of u] show ?case by (simp add: count_of Cons.prems(1))
qed simp

lemma delete_all:
  "ok s \<Longrightarrow> n \<le> length (items s) \<Longrightarrow>
   \<exists>t. delete_all del s n = Some (take n (items s), t) \<and> ok t \<and> items t = drop n (items s)"
proof (induction n arbitrary: s)
  case (Suc n)
  then obtain x xs where s: "items s = x # xs" by (cases "items s") auto
  then obtain t where t: "del s 0 = Some (x, t)" "ok t" "items t = xs" using del [OF Suc.prems(1), of 0] by auto
  with Suc.IH [of t] Suc.prems(2) s show ?case by auto
qed simp

text \<open>First in, first out.\<close>

lemma fifo:
  assumes "ok s" "items s = []" "insert_all ins count_of s ps = Some t"
  shows "\<exists>u. delete_all del t (length ps) = Some (ps, u) \<and> ok u \<and> items u = []"
  using insert_all [OF assms(1,3)] delete_all [of t "length ps"] assms(2) by auto

end

definition try_insert :: "alloc_env \<Rightarrow> stack_st \<Rightarrow> ptr \<Rightarrow> nat \<Rightarrow> stack_st option" where
  "try_insert E s p pos = (case sk_insert E (Some s) p pos of (n, t) \<Rightarrow> if n = 0 then None else t)"

definition try_delete :: "stack_st \<Rightarrow> nat \<Rightarrow> (ptr \<times> stack_st) option" where
  "try_delete s pos = (case sk_delete (Some s) pos of (p, t) \<Rightarrow> map_option (Pair p) t)"

lemma try_insert_spec:
  "sk_inv s \<Longrightarrow> try_insert E s p k = Some t \<Longrightarrow> sk_inv t \<and> elems t = take k (elems s) @ p # drop k (elems s)"
  using sk_insert_spec [of s E p k] by (fastforce simp: try_insert_def split: prod.splits if_splits)

lemma try_delete_spec:
  "sk_inv s \<Longrightarrow> k < length (elems s) \<Longrightarrow>
   \<exists>t. try_delete s k = Some (elems s ! k, t) \<and> sk_inv t \<and> elems t = take k (elems s) @ drop (Suc k) (elems s)"
  using sk_delete_spec [of s k] by (auto simp: try_delete_def)

interpretation stack_list: list_container sk_inv elems num "try_insert E" try_delete for E
  by unfold_locales (simp_all add: try_insert_spec try_delete_spec)

section \<open>Searching\<close>

lemma find_map: "List.find P (map f xs) = map_option f (List.find (\<lambda>x. P (f x)) xs)"
  by (induction xs) auto

lemma find_append: "List.find P (xs @ ys) = (case List.find P xs of None \<Rightarrow> List.find P ys | Some x \<Rightarrow> Some x)"
  by (induction xs) auto

lemma find_none: "(\<And>x. x \<in> set xs \<Longrightarrow> \<not> P x) \<Longrightarrow> List.find P xs = None"
  by (auto simp: find_None_iff)

lemma upt_split: "lo \<le> m \<Longrightarrow> m \<le> hi \<Longrightarrow> [lo..<hi] = [lo..<m] @ [m..<hi]"
  by (metis le_add_diff_inverse upt_add_eq_append)

lemma find_index_find: "find_index P xs = List.find (\<lambda>i. P (xs ! i)) [0..<length xs]"
proof (induction xs)
  case (Cons x xs)
  have "[0..<length (x # xs)] = 0 # map Suc [0..<length xs]"
    by (simp add: upt_conv_Cons map_Suc_upt del: upt_Suc)
  then show ?case using Cons by (simp add: find_map del: upt_Suc map_Suc_upt)
qed simp

text \<open>The binary search finds the earliest zero of a sign function that descends.\<close>

definition descends :: "(nat \<Rightarrow> int) \<Rightarrow> nat \<Rightarrow> bool" where
  "descends r n \<longleftrightarrow> (\<forall>j<n. \<forall>i\<le>j. (r j > 0 \<longrightarrow> r i > 0) \<and> (r i < 0 \<longrightarrow> r j < 0))"

lemma descends_pos: "descends r n \<Longrightarrow> j < n \<Longrightarrow> i \<le> j \<Longrightarrow> r j > 0 \<Longrightarrow> r i > 0"
  and descends_neg: "descends r n \<Longrightarrow> j < n \<Longrightarrow> i \<le> j \<Longrightarrow> r i < 0 \<Longrightarrow> r j < 0"
  by (simp_all add: descends_def)

lemma bsearch_find:
  "descends r n \<Longrightarrow> hi \<le> n \<Longrightarrow> bsearch r lo hi = List.find (\<lambda>i. r i = 0) [lo..<hi]"
proof (induction r lo hi rule: bsearch.induct)
  case (1 r lo hi)
  show ?case
  proof (cases "lo < hi")
    case False
    then show ?thesis by (simp add: bsearch_empty)
  next
    case True
    define mid where "mid = lo + (hi - lo - 1) div 2"
    have m: "lo \<le> mid" "mid < hi" using True unfolding mid_def by linarith+
    have split: "[lo..<hi] = [lo..<mid] @ [mid..<hi]" "[lo..<hi] = [lo..<mid + 1] @ [mid + 1..<hi]"
      by (rule upt_split; use m in linarith)+
    note step = bsearch_step [OF True mid_def, of r]
    consider (pos) "r mid > 0" | (neg) "r mid < 0" | (zero) "r mid = 0" by linarith
    then show ?thesis
    proof cases
      case pos
      then have "List.find (\<lambda>i. r i = 0) [lo..<mid + 1] = None"
        using descends_pos [OF "1.prems"(1), of mid] "1.prems"(2) m(2) by (intro find_none) fastforce
      then show ?thesis using step pos "1.IH"(1) [OF True mid_def pos "1.prems"] split(2)
        by (simp add: find_append del: upt_Suc)
    next
      case neg
      have "r x < 0" if "x \<in> set [mid..<hi]" for x
        using descends_neg [OF "1.prems"(1), of x mid] "1.prems"(2) neg that by auto
      then have "List.find (\<lambda>i. r i = 0) [mid..<hi] = None" by (intro find_none) force
      moreover have "bsearch r lo mid = List.find (\<lambda>i. r i = 0) [lo..<mid]"
        using "1.IH"(2) [OF True mid_def] neg "1.prems" m(2) by simp
      ultimately show ?thesis using step neg split(1) by (simp add: find_append split: option.split)
    next
      case zero
      show ?thesis
      proof (cases "hi - lo = 1")
        case True
        then have "mid = lo" "hi = Suc lo" by (auto simp: mid_def)
        then show ?thesis using step zero True by simp
      next
        case False
        have "bsearch r lo (mid + 1) = List.find (\<lambda>i. r i = 0) [lo..<mid + 1]"
          using "1.IH"(3) [OF True mid_def] zero False "1.prems" m(2) by simp
        moreover have "List.find (\<lambda>i. r i = 0) [lo..<mid + 1] \<noteq> None"
          using zero m(1) by (auto simp: find_None_iff)
        ultimately show ?thesis using step zero False split(2) by (auto simp: find_append simp del: upt_Suc)
      qed
    qed
  qed
qed

lemma bsearch_cong:
  "(\<And>i. i < hi \<Longrightarrow> r i = r' i) \<Longrightarrow> bsearch r lo hi = bsearch r' lo hi"
proof (induction r lo hi rule: bsearch.induct)
  case (1 r lo hi)
  define mid where "mid = lo + (hi - lo - 1) div 2"
  show ?case
  proof (cases "lo < hi")
    case True
    then have m: "mid < hi" unfolding mid_def by linarith
    then have r: "r mid = r' mid" using "1.prems" by simp
    have "bsearch r (mid + 1) hi = bsearch r' (mid + 1) hi" if "r mid > 0"
      using "1.IH"(1) [OF True mid_def that] "1.prems" by simp
    moreover have "bsearch r lo mid = bsearch r' lo mid" if "r mid < 0"
      using "1.IH"(2) [OF True mid_def _ that] "1.prems" that m by simp
    moreover have "bsearch r lo (mid + 1) = bsearch r' lo (mid + 1)" if "r mid = 0" "hi - lo \<noteq> 1"
      using "1.IH"(3) [OF True mid_def] "1.prems" that m by simp
    ultimately show ?thesis
      using r bsearch_step [OF True mid_def, of r] bsearch_step [OF True mid_def, of r'] by auto
  qed (simp add: bsearch_empty)
qed

text \<open>Hence the search in an ordered stack is the linear one.\<close>

context comparator
begin

lemma descends_ordered:
  assumes "ordered cmp xs"
  shows "descends (\<lambda>i. cmp p (xs ! i)) (length xs)"
proof -
  have "(cmp p (xs ! j) > 0 \<longrightarrow> cmp p (xs ! i) > 0) \<and> (cmp p (xs ! i) < 0 \<longrightarrow> cmp p (xs ! j) < 0)"
    if "i \<le> j" "j < length xs" for i j
  proof -
    have "cmp (xs ! i) (xs ! j) \<le> 0"
      using that sorted_wrt_nth_less [OF assms, of i j] by (cases "i = j") (auto simp: refl)
    then show ?thesis
      using trans [of p "xs ! i" "xs ! j"] trans [of "xs ! j" p "xs ! i"] trans [of "xs ! i" "xs ! j" p]
        flip [of p "xs ! i"] flip [of p "xs ! j"] flip [of "xs ! i" p] flip [of "xs ! j" p]
        flip [of "xs ! i" "xs ! j"] flip [of "xs ! j" "xs ! i"]
      by linarith
  qed
  then show ?thesis by (auto simp: descends_def)
qed

lemma bsearch_ordered:
  assumes "ordered cmp xs"
  shows "bsearch (\<lambda>i. cmp p (xs ! i)) 0 (length xs) = find_index (\<lambda>x. cmp p x = 0) xs"
  using bsearch_find [OF descends_ordered [OF assms], of "length xs" p 0] by (simp add: find_index_find)

end


text \<open>
  What \<^verbatim>\<open>sorted\<close> promises (\<^verbatim>\<open>stack.h\<close>): a stack with the flag set is in ascending order by its
  comparison function.
\<close>

definition sk_sorted_ok :: "(nat \<Rightarrow> ptr \<Rightarrow> ptr \<Rightarrow> int) \<Rightarrow> stack_st \<Rightarrow> bool" where
  "sk_sorted_ok call_cmp s \<longleftrightarrow> sk_inv s \<and> (sorted_flag s \<longrightarrow> ordered (call_cmp (comp s)) (elems s))"

lemma sk_find_spec:
  assumes "comparator (call_cmp (comp s))" "sk_sorted_ok call_cmp s" "comp s \<noteq> NULL" "p \<noteq> NULL"
  shows "sk_find call_cmp (Some s) p = find_index (\<lambda>x. call_cmp (comp s) p x = 0) (elems s)"
proof (cases "sorted_flag s")
  case False
  then show ?thesis using assms by (simp add: sk_find_def sk_is_sorted_def elems_def)
next
  case True
  then have o: "ordered (call_cmp (comp s)) (elems s)" and l: "length (elems s) = num s"
    using assms(2) by (auto simp: sk_sorted_ok_def)
  have "bsearch (\<lambda>i. call_cmp (comp s) p (sdata s ! i)) 0 (num s)
      = bsearch (\<lambda>i. call_cmp (comp s) p (elems s ! i)) 0 (num s)"
    by (rule bsearch_cong) (simp add: elems_nth)
  also have "\<dots> = find_index (\<lambda>x. call_cmp (comp s) p x = 0) (elems s)"
    using comparator.bsearch_ordered [OF assms(1) o, of p] l by simp
  finally show ?thesis using True assms(3,4) by (simp add: sk_find_def sk_is_sorted_def)
qed

lemma sk_sort_spec:
  assumes "comparator (call_cmp (comp s))" "sk_sorted_ok call_cmp s" "comp s \<noteq> NULL"
  shows "\<exists>t. sk_sort call_cmp (Some s) = Some t \<and> sk_sorted_ok call_cmp t \<and> sorted_flag t
    \<and> comp t = comp s \<and> mset (elems t) = mset (elems s)"
proof (cases "sorted_flag s")
  case True
  then show ?thesis using assms by (simp add: sk_sort_def)
next
  case False
  let ?c = "call_cmp (comp s)"
  define d where "d = qsort ?c (take (num s) (sdata s)) @ drop (num s) (sdata s)"
  define t where "t = s\<lparr>sdata := d, sorted_flag := True\<rparr>"
  have i: "length (sdata s) = num_alloc s" "num s < num_alloc s" "num_alloc s * sizeof_ptr < 2 ^ 64"
    using assms(2) by (auto simp: sk_sorted_ok_def sk_inv_def)
  have "num s < 2 \<Longrightarrow> d = sdata s" by (simp add: d_def qsort_short)
  then have t: "sk_sort call_cmp (Some s) = Some t"
    using False assms(3) by (auto simp: sk_sort_def t_def d_def)
  have e: "elems t = qsort ?c (elems s)" using i by (simp add: elems_def t_def d_def)
  have "sk_inv t" using i by (simp add: sk_inv_def t_def d_def)
  then have "sk_sorted_ok call_cmp t"
    using comparator.sorted_qsort [OF assms(1)] by (simp add: sk_sorted_ok_def e) (simp add: t_def)
  then show ?thesis using t e by (auto simp: t_def)
qed

lemma sorted_wrt_remove: "sorted_wrt R xs \<Longrightarrow> sorted_wrt R (take k xs @ drop (Suc k) xs)"
proof (induction xs arbitrary: k)
  case (Cons x xs)
  then show ?case by (cases k) (auto dest: in_set_takeD in_set_dropD)
qed simp

lemma sk_sorted_kept:
  assumes "sk_sorted_ok call_cmp s"
  shows "sk_insert E (Some s) p pos = (n, Some t) \<Longrightarrow> sk_sorted_ok call_cmp t"
    and "sk_delete (Some s) pos = (q, Some t) \<Longrightarrow> sk_sorted_ok call_cmp t"
    and "sk_zero (Some s) = Some t \<Longrightarrow> sk_sorted_ok call_cmp t"
    and "sk_dup E (Some s) = Some t \<Longrightarrow> sk_sorted_ok call_cmp t"
    and "sk_set_cmp_func s c = (old, t) \<Longrightarrow> sk_sorted_ok call_cmp t"
proof -
  have i: "sk_inv s" using assms by (simp add: sk_sorted_ok_def)
  show "sk_insert E (Some s) p pos = (n, Some t) \<Longrightarrow> sk_sorted_ok call_cmp t"
    using sk_insert_spec [OF i] assms by (fastforce simp: sk_sorted_ok_def)
  show "sk_delete (Some s) pos = (q, Some t) \<Longrightarrow> sk_sorted_ok call_cmp t"
  proof (cases "pos < num s")
    case True
    assume d: "sk_delete (Some s) pos = (q, Some t)"
    with sk_delete_spec [OF i True] show ?thesis
      using assms by (auto simp: sk_sorted_ok_def intro: sorted_wrt_remove)
  qed (use assms in \<open>simp add: sk_delete_def\<close>)
  show "sk_zero (Some s) = Some t \<Longrightarrow> sk_sorted_ok call_cmp t"
    using sk_zero_spec [OF i] by (auto simp: sk_sorted_ok_def)
  show "sk_dup E (Some s) = Some t \<Longrightarrow> sk_sorted_ok call_cmp t"
    using sk_dup_spec [OF i] assms by (simp add: sk_sorted_ok_def)
  show "sk_set_cmp_func s c = (old, t) \<Longrightarrow> sk_sorted_ok call_cmp t"
    using assms by (auto simp: sk_set_cmp_func_def sk_sorted_ok_def sk_inv_def elems_def Let_def)
qed

text \<open>
  \<^verbatim>\<open>sk_set\<close> leaves the flag.  An element of the first half that is replaced by one above all
  those behind it is then not found: the search goes to the right of its first probe and stays there.
\<close>

lemma bsearch_rises:
  "(\<And>j. lo \<le> j \<Longrightarrow> j < hi \<Longrightarrow> 0 < r j) \<Longrightarrow> bsearch r lo hi = None"
proof (induction "hi - lo" arbitrary: lo rule: less_induct)
  case less
  show ?case
  proof (cases "lo < hi")
    case True
    define mid where "mid = lo + (hi - lo - 1) div 2"
    have m: "lo \<le> mid" "mid < hi" using True by (auto simp: mid_def)
    have "bsearch r lo hi = bsearch r (mid + 1) hi"
      using bsearch_step [OF True mid_def, of r] less.prems [OF m] by simp
    also have "\<dots> = None" using m by (intro less.hyps less.prems) auto
    finally show ?thesis .
  qed (simp add: bsearch_empty)
qed

lemma bsearch_misses:
  assumes "i < (n - 1) div 2" "\<And>j. i < j \<Longrightarrow> j < n \<Longrightarrow> 0 < r j"
  shows "bsearch r 0 n = None"
proof -
  have "bsearch r 0 n = bsearch r ((n - 1) div 2 + 1) n"
    using assms(1) assms(2) [of "(n - 1) div 2"] bsearch_step [of 0 n "(n - 1) div 2" r] by auto
  also have "\<dots> = None" using assms by (intro bsearch_rises) auto
  finally show ?thesis .
qed

lemma sk_set_loses:
  assumes s: "sk_inv s" "sorted_flag s" "comp s \<noteq> NULL" and i: "i < (num s - 1) div 2"
    and x: "x \<noteq> NULL" "\<And>y. y \<in> set (drop (Suc i) (elems s)) \<Longrightarrow> 0 < call_cmp (comp s) x y"
  shows "\<exists>t. sk_set (Some s) i x = (x, Some t) \<and> elems t = (elems s)[i := x] \<and> sorted_flag t \<and>
           sk_find call_cmp (Some t) x = None"
proof -
  have l: "length (elems s) = num s" using s by simp
  have i': "i < num s" using i by linarith
  obtain t where t: "sk_set (Some s) i x = (x, Some t)" "sk_inv t" "elems t = (elems s)[i := x]"
    "sorted_flag t" "num t = num s" "comp t = comp s"
    using sk_set_spec [OF s(1) i', of x] s(2) i' by (auto simp: sk_set_def)
  have d: "sdata t ! j = drop (Suc i) (elems s) ! (j - Suc i)" if "i < j" "j < num s" for j
    using that t(3,5) l elems_nth [of j t] t(2) by auto
  have "sk_find call_cmp (Some t) x = bsearch (\<lambda>j. call_cmp (comp s) x (sdata t ! j)) 0 (num s)"
    using t s x by (simp add: sk_find_def sk_is_sorted_def)
  also have "\<dots> = None"
  proof (rule bsearch_misses [OF i])
    fix j assume j: "i < j" "j < num s"
    then have "drop (Suc i) (elems s) ! (j - Suc i) \<in> set (drop (Suc i) (elems s))"
      using l by (intro nth_mem) simp
    with x(2) show "0 < call_cmp (comp s) x (sdata t ! j)" using d [OF j] by metis
  qed
  finally show ?thesis using t by auto
qed

text \<open>A comparison of addresses, for the concrete examples.\<close>

definition demo_cmp :: "nat \<Rightarrow> ptr \<Rightarrow> ptr \<Rightarrow> int" where
  "demo_cmp f a b = int a - int b"

lemma demo_comparator: "comparator (demo_cmp f)"
  by unfold_locales (auto simp: demo_cmp_def)

section \<open>Deep copies\<close>

lemma deep_copy_loop_eq:
  "deep_copy_loop copy done xs =
     (if \<forall>x \<in> set xs. x \<noteq> NULL \<longrightarrow> copy x \<noteq> NULL
      then Inr (done @ map (\<lambda>x. if x = NULL then NULL else copy x) xs)
      else Inl (filter (\<lambda>p. p \<noteq> NULL)
                  (done @ map (\<lambda>x. if x = NULL then NULL else copy x)
                            (takeWhile (\<lambda>x. x = NULL \<or> copy x \<noteq> NULL) xs))))"
  by (induction copy "done" xs rule: deep_copy_loop.induct) auto

end
