(* ===== verification/LHash.thy ===== *)
theory LHash
  imports Stack
begin

text \<open>
  \<^verbatim>\<open>crypto/lhash/lhash.c\<close>: the hash table of pointers.  A chain of \<^verbatim>\<open>LHASH_ITEM\<close>s is the list
  of its items; the hash and comparison callbacks are the parameters \<open>call_hash\<close> and \<open>call_cmp\<close>
  (\<open>H\<close> and \<open>C\<close> in the lemmas), of which \<open>key_ok\<close> states what the header asks.
  \<^item> \<open>lh_inv\<close>: every item is in the bucket of its hash, no two items are equal, the count is
    right.  Every operation keeps it, resizing (\<open>lh_maybe_resize_ok\<close>) included.
  \<^item> \<open>lh_insert_spec\<close>, \<open>lh_delete_spec\<close>, \<open>lh_retrieve_hit\<close>, \<open>lh_retrieve_miss\<close>: the operations
    on the set of elements \<open>lh_data\<close>.  The locale \<open>keyed_table\<close> is this contract; its laws between
    operations hold of the table through the interpretation \<open>lh\<close>.
\<close>

section \<open>Data\<close>

record lhash_item_st =
  idata :: ptr
  ihash :: u32

record lhash_st =
  num_items :: nat
  buckets :: "lhash_item_st list list"
  num_buckets :: nat
  callback_depth :: u32
  lcomp :: nat
  lhash :: nat

definition kMinNumBuckets :: nat where
  "kMinNumBuckets = 16"

definition kMaxAverageChainLength :: nat where
  "kMaxAverageChainLength = 2"

definition kMinAverageChainLength :: nat where
  "kMinAverageChainLength = 1"

definition sizeof_LHASH :: nat where
  "sizeof_LHASH = 48"

definition sizeof_LHASH_ITEM :: nat where
  "sizeof_LHASH_ITEM = 24"

section \<open>Operations\<close>

definition OPENSSL_lh_new :: "alloc_env \<Rightarrow> nat \<Rightarrow> nat \<Rightarrow> lhash_st option" where
  "OPENSSL_lh_new E hash cmp =
     (case OPENSSL_malloc E sizeof_LHASH of
        None \<Rightarrow> None
      | Some _ \<Rightarrow>
          (case OPENSSL_malloc E (size_mul sizeof_ptr kMinNumBuckets) of
             None \<Rightarrow> None
           | Some _ \<Rightarrow> Some \<lparr>num_items = 0, buckets = replicate kMinNumBuckets [], num_buckets = kMinNumBuckets,
                              callback_depth = 0, lcomp = cmp, lhash = hash\<rparr>))"

text \<open>The items freed, in order, with the table.\<close>

definition OPENSSL_lh_free :: "lhash_st option \<Rightarrow> lhash_item_st list" where
  "OPENSSL_lh_free lh = (case lh of None \<Rightarrow> [] | Some l \<Rightarrow> concat (take (num_buckets l) (buckets l)))"

definition OPENSSL_lh_num_items :: "lhash_st \<Rightarrow> nat" where
  "OPENSSL_lh_num_items lh = num_items lh"

text \<open>
  A pointer to the pointer at an item is the index of its bucket and the position in the chain;
  the position past the end holds the null pointer.
\<close>

fun chain_pos :: "(lhash_item_st \<Rightarrow> bool) \<Rightarrow> lhash_item_st list \<Rightarrow> nat" where
  "chain_pos P [] = 0"
| "chain_pos P (cur # rest) = (if P cur then 0 else Suc (chain_pos P rest))"

definition get_next_ptr_and_hash ::
    "(nat \<Rightarrow> ptr \<Rightarrow> u32) \<Rightarrow> (nat \<Rightarrow> ptr \<Rightarrow> ptr \<Rightarrow> int) \<Rightarrow> lhash_st \<Rightarrow> ptr \<Rightarrow> u32 \<times> nat \<times> nat" where
  "get_next_ptr_and_hash call_hash call_cmp lh data =
     (let hash = call_hash (lhash lh) data;
          b = unat hash mod num_buckets lh
      in (hash, b, chain_pos (\<lambda>cur. call_cmp (lcomp lh) (idata cur) data = 0) (buckets lh ! b)))"

definition get_next_ptr_by_key :: "('k \<Rightarrow> ptr \<Rightarrow> int) \<Rightarrow> lhash_st \<Rightarrow> 'k \<Rightarrow> u32 \<Rightarrow> nat \<times> nat" where
  "get_next_ptr_by_key cmp_key lh key key_hash =
     (let b = unat key_hash mod num_buckets lh
      in (b, chain_pos (\<lambda>cur. cmp_key key (idata cur) = 0) (buckets lh ! b)))"

text \<open>What the pointer found points to.\<close>

definition deref :: "lhash_st \<Rightarrow> nat \<Rightarrow> nat \<Rightarrow> lhash_item_st option" where
  "deref lh b k = (if k < length (buckets lh ! b) then Some (buckets lh ! b ! k) else None)"

definition OPENSSL_lh_retrieve ::
    "(nat \<Rightarrow> ptr \<Rightarrow> u32) \<Rightarrow> (nat \<Rightarrow> ptr \<Rightarrow> ptr \<Rightarrow> int) \<Rightarrow> lhash_st \<Rightarrow> ptr \<Rightarrow> ptr" where
  "OPENSSL_lh_retrieve call_hash call_cmp lh data =
     (case get_next_ptr_and_hash call_hash call_cmp lh data of
        (_, b, k) \<Rightarrow> (case deref lh b k of None \<Rightarrow> NULL | Some item \<Rightarrow> idata item))"

definition OPENSSL_lh_retrieve_key :: "('k \<Rightarrow> ptr \<Rightarrow> int) \<Rightarrow> lhash_st \<Rightarrow> 'k \<Rightarrow> u32 \<Rightarrow> ptr" where
  "OPENSSL_lh_retrieve_key cmp_key lh key key_hash =
     (case get_next_ptr_by_key cmp_key lh key key_hash of
        (b, k) \<Rightarrow> (case deref lh b k of None \<Rightarrow> NULL | Some item \<Rightarrow> idata item))"

text \<open>The loop of \<^verbatim>\<open>lh_rebucket\<close>: an item moves to the front of its new chain.\<close>

definition move_item :: "nat \<Rightarrow> lhash_item_st \<Rightarrow> lhash_item_st list list \<Rightarrow> lhash_item_st list list" where
  "move_item n cur new_buckets =
     (let new_bucket = unat (ihash cur) mod n
      in new_buckets[new_bucket := cur # new_buckets ! new_bucket])"

definition lh_rebucket :: "alloc_env \<Rightarrow> lhash_st \<Rightarrow> nat \<Rightarrow> lhash_st" where
  "lh_rebucket E lh new_num_buckets =
     (let alloc_size = size_mul sizeof_ptr new_num_buckets
      in if alloc_size div sizeof_ptr \<noteq> new_num_buckets then lh
         else
           case OPENSSL_malloc E alloc_size of
             None \<Rightarrow> lh
           | Some _ \<Rightarrow>
               (let new_buckets = fold (move_item new_num_buckets) (concat (take (num_buckets lh) (buckets lh)))
                                    (replicate new_num_buckets [])
                in lh\<lparr>num_buckets := new_num_buckets, buckets := new_buckets\<rparr>))"

definition lh_maybe_resize :: "alloc_env \<Rightarrow> lhash_st \<Rightarrow> lhash_st" where
  "lh_maybe_resize E lh =
     (if callback_depth lh > 0 then lh
      else
        let avg_chain_length = num_items lh div num_buckets lh
        in if avg_chain_length > kMaxAverageChainLength then
             let new_num_buckets = size_mul (num_buckets lh) 2
             in if new_num_buckets > num_buckets lh then lh_rebucket E lh new_num_buckets else lh
           else if avg_chain_length < kMinAverageChainLength \<and> num_buckets lh > kMinNumBuckets then
             let new_num_buckets = num_buckets lh div 2;
                 new_num_buckets = (if new_num_buckets < kMinNumBuckets then kMinNumBuckets else new_num_buckets)
             in lh_rebucket E lh new_num_buckets
           else lh)"

text \<open>The result is the success flag, \<^verbatim>\<open>*old_data\<close> and the table.\<close>

definition OPENSSL_lh_insert ::
    "alloc_env \<Rightarrow> (nat \<Rightarrow> ptr \<Rightarrow> u32) \<Rightarrow> (nat \<Rightarrow> ptr \<Rightarrow> ptr \<Rightarrow> int) \<Rightarrow> lhash_st \<Rightarrow> ptr \<Rightarrow> bool \<times> ptr \<times> lhash_st" where
  "OPENSSL_lh_insert E call_hash call_cmp lh data =
     (case get_next_ptr_and_hash call_hash call_cmp lh data of
        (hash, b, k) \<Rightarrow>
          (let chain = buckets lh ! b in
           case deref lh b k of
             Some item \<Rightarrow> (True, idata item, lh\<lparr>buckets := (buckets lh)[b := chain[k := item\<lparr>idata := data\<rparr>]]\<rparr>)
           | None \<Rightarrow>
               (case OPENSSL_malloc E sizeof_LHASH_ITEM of
                  None \<Rightarrow> (False, NULL, lh)
                | Some _ \<Rightarrow>
                    (True, NULL,
                     lh_maybe_resize E
                       (lh\<lparr>buckets := (buckets lh)[b := chain @ [\<lparr>idata = data, ihash = hash\<rparr>]],
                           num_items := size_add (num_items lh) 1\<rparr>)))))"

definition OPENSSL_lh_delete ::
    "alloc_env \<Rightarrow> (nat \<Rightarrow> ptr \<Rightarrow> u32) \<Rightarrow> (nat \<Rightarrow> ptr \<Rightarrow> ptr \<Rightarrow> int) \<Rightarrow> lhash_st \<Rightarrow> ptr \<Rightarrow> ptr \<times> lhash_st" where
  "OPENSSL_lh_delete E call_hash call_cmp lh data =
     (case get_next_ptr_and_hash call_hash call_cmp lh data of
        (_, b, k) \<Rightarrow>
          (let chain = buckets lh ! b in
           case deref lh b k of
             None \<Rightarrow> (NULL, lh)
           | Some item \<Rightarrow>
               (idata item,
                lh_maybe_resize E
                  (lh\<lparr>buckets := (buckets lh)[b := take k chain @ drop (Suc k) chain],
                      num_items := size_add (num_items lh) (2 ^ 64 - 1)\<rparr>))))"

text \<open>
  The iteration, for a callback that does not change the table: it acts on a state of its own,
  which \<^verbatim>\<open>arg\<close> points to.
\<close>

definition OPENSSL_lh_doall_arg ::
    "alloc_env \<Rightarrow> lhash_st option \<Rightarrow> (ptr \<Rightarrow> 'a \<Rightarrow> 'a) \<Rightarrow> 'a \<Rightarrow> 'a \<times> lhash_st option" where
  "OPENSSL_lh_doall_arg E lh func arg =
     (case lh of
        None \<Rightarrow> (arg, None)
      | Some l \<Rightarrow>
          (let l = (if callback_depth l < 0xFFFFFFFF then l\<lparr>callback_depth := callback_depth l + 1\<rparr> else l);
               arg = fold (\<lambda>cur. func (idata cur)) (concat (take (num_buckets l) (buckets l))) arg;
               l = (if callback_depth l < 0xFFFFFFFF then l\<lparr>callback_depth := callback_depth l - 1\<rparr> else l)
           in (arg, Some (lh_maybe_resize E l))))"

section \<open>Invariant\<close>

text \<open>What the code relies on of the callbacks: an equivalence, and equal elements have equal hashes.\<close>

definition key_ok :: "(ptr \<Rightarrow> u32) \<Rightarrow> (ptr \<Rightarrow> ptr \<Rightarrow> int) \<Rightarrow> bool" where
  "key_ok h c \<longleftrightarrow>
     (\<forall>x. c x x = 0) \<and> (\<forall>x y. c x y = 0 \<longrightarrow> c y x = 0) \<and> (\<forall>x y z. c x y = 0 \<longrightarrow> c y z = 0 \<longrightarrow> c x z = 0)
     \<and> (\<forall>x y. c x y = 0 \<longrightarrow> h x = h y)"

definition all_items :: "lhash_st \<Rightarrow> lhash_item_st multiset" where
  "all_items lh = mset (concat (buckets lh))"

definition lh_data :: "lhash_st \<Rightarrow> ptr set" where
  "lh_data lh = idata ` set_mset (all_items lh)"

text \<open>\<^verbatim>\<open>buckets\<close> holds every item in the chain of its hash.\<close>

definition placed :: "nat \<Rightarrow> lhash_item_st list list \<Rightarrow> bool" where
  "placed n bs \<longleftrightarrow> length bs = n \<and> (\<forall>i < n. \<forall>item \<in> set (bs ! i). unat (ihash item) mod n = i)"

definition lh_inv :: "(nat \<Rightarrow> ptr \<Rightarrow> u32) \<Rightarrow> (nat \<Rightarrow> ptr \<Rightarrow> ptr \<Rightarrow> int) \<Rightarrow> lhash_st \<Rightarrow> bool" where
  "lh_inv call_hash call_cmp lh \<longleftrightarrow>
     key_ok (call_hash (lhash lh)) (call_cmp (lcomp lh))
     \<and> kMinNumBuckets \<le> num_buckets lh
     \<and> placed (num_buckets lh) (buckets lh)
     \<and> num_items lh = size (all_items lh) mod 2 ^ 64
     \<and> (\<forall>item \<in># all_items lh. ihash item = call_hash (lhash lh) (idata item))
     \<and> (\<forall>d. size {#item \<in># all_items lh. call_cmp (lcomp lh) (idata item) d = 0#} \<le> 1)"

lemma key_okD:
  assumes "key_ok h c"
  shows key_refl: "c x x = 0" and key_sym: "c x y = 0 \<Longrightarrow> c y x = 0"
    and key_trans: "c x y = 0 \<Longrightarrow> c y z = 0 \<Longrightarrow> c x z = 0" and key_hash: "c x y = 0 \<Longrightarrow> h x = h y"
  using assms unfolding key_ok_def by blast+

lemma lh_invD:
  assumes "lh_inv H C lh"
  shows lh_keys: "key_ok (H (lhash lh)) (C (lcomp lh))" and lh_min: "kMinNumBuckets \<le> num_buckets lh"
    and lh_placed: "placed (num_buckets lh) (buckets lh)" and lh_count: "num_items lh = size (all_items lh) mod 2 ^ 64"
    and lh_cached: "item \<in># all_items lh \<Longrightarrow> ihash item = H (lhash lh) (idata item)"
    and lh_once: "size {#item \<in># all_items lh. C (lcomp lh) (idata item) d = 0#} \<le> 1"
  using assms unfolding lh_inv_def by blast+

lemma lh_item_hash:
  assumes "lh_inv H C lh" "item \<in># all_items lh" "C (lcomp lh) (idata item) d = 0"
  shows "ihash item = H (lhash lh) d"
  using lh_cached [OF assms(1,2)] key_hash [OF lh_keys [OF assms(1)] assms(3)] by simp

lemma mset_concat_update:
  "i < length bs \<Longrightarrow> mset (concat (bs[i := c])) + mset (bs ! i) = mset (concat bs) + mset c"
proof (induction bs arbitrary: i)
  case (Cons b bs)
  then show ?case by (cases i) (auto simp: ac_simps)
qed simp

lemma placed_update:
  "placed n bs \<Longrightarrow> i < n \<Longrightarrow> (\<And>item. item \<in> set c \<Longrightarrow> unat (ihash item) mod n = i) \<Longrightarrow> placed n (bs[i := c])"
  by (auto simp: placed_def nth_list_update)

lemma move_item_ok:
  assumes "placed n bs" "0 < n"
  shows "placed n (move_item n item bs) \<and> mset (concat (move_item n item bs)) = add_mset item (mset (concat bs))"
proof -
  define b where "b = unat (ihash item) mod n"
  have b: "b < n" "length bs = n" using assms by (auto simp: b_def placed_def)
  have "mset (concat (bs[b := item # bs ! b])) + mset (bs ! b) = mset (concat bs) + mset (item # bs ! b)"
    using b by (intro mset_concat_update) simp
  then have "mset (concat (bs[b := item # bs ! b])) = add_mset item (mset (concat bs))" by simp
  moreover have "placed n (bs[b := item # bs ! b])"
    using assms(1) b by (intro placed_update) (auto simp: b_def placed_def)
  ultimately show ?thesis by (simp add: move_item_def b_def Let_def)
qed

lemma fold_move_item:
  "0 < n \<Longrightarrow> placed n bs \<Longrightarrow>
   placed n (fold (move_item n) xs bs) \<and> mset (concat (fold (move_item n) xs bs)) = mset xs + mset (concat bs)"
proof (induction xs arbitrary: bs)
  case (Cons x xs)
  show ?case using Cons.IH [of "move_item n x bs"] Cons.prems move_item_ok [of n bs x] by simp
qed simp

text \<open>Resizing moves the items and changes nothing else.\<close>

definition same_contents :: "lhash_st \<Rightarrow> lhash_st \<Rightarrow> bool" where
  "same_contents lh lh' \<longleftrightarrow> all_items lh' = all_items lh \<and> num_items lh' = num_items lh
     \<and> lcomp lh' = lcomp lh \<and> lhash lh' = lhash lh"

lemma same_contents_refl [simp]: "same_contents lh lh"
  by (simp add: same_contents_def)

lemma lh_rebucket_ok:
  assumes "placed (num_buckets lh) (buckets lh)" "0 < n"
  shows "same_contents lh (lh_rebucket E lh n) \<and> placed (num_buckets (lh_rebucket E lh n)) (buckets (lh_rebucket E lh n))
    \<and> num_buckets (lh_rebucket E lh n) \<in> {num_buckets lh, n}"
proof -
  have "placed n (replicate n [])" by (simp add: placed_def)
  with fold_move_item [OF assms(2), of "replicate n []" "concat (take (num_buckets lh) (buckets lh))"] assms(1)
  show ?thesis
    by (auto simp: lh_rebucket_def Let_def same_contents_def all_items_def placed_def split: option.split)
qed

lemma lh_maybe_resize_ok:
  assumes "placed (num_buckets lh) (buckets lh)" "kMinNumBuckets \<le> num_buckets lh"
  shows "same_contents lh (lh_maybe_resize E lh)
    \<and> placed (num_buckets (lh_maybe_resize E lh)) (buckets (lh_maybe_resize E lh))
    \<and> kMinNumBuckets \<le> num_buckets (lh_maybe_resize E lh)"
proof -
  have r: "same_contents lh (lh_rebucket E lh n) \<and> placed (num_buckets (lh_rebucket E lh n)) (buckets (lh_rebucket E lh n))
    \<and> kMinNumBuckets \<le> num_buckets (lh_rebucket E lh n)" if "kMinNumBuckets \<le> n" for n
    using lh_rebucket_ok [OF assms(1), of n E] that assms(2) by (auto simp: kMinNumBuckets_def)
  show ?thesis
    using assms by (auto simp: lh_maybe_resize_def Let_def intro!: r)
qed

lemma lh_inv_resize:
  assumes "lh_inv H C lh"
  shows "lh_inv H C (lh_maybe_resize E lh) \<and> all_items (lh_maybe_resize E lh) = all_items lh"
  using assms lh_maybe_resize_ok [of lh E] by (simp add: lh_inv_def same_contents_def)


section \<open>Lookup, insertion and deletion\<close>

lemma chain_pos_le: "chain_pos P xs \<le> length xs"
  by (induction xs) auto

lemma chain_pos_hit: "chain_pos P xs < length xs \<Longrightarrow> P (xs ! chain_pos P xs)"
  by (induction xs) auto

lemma chain_pos_miss: "\<not> chain_pos P xs < length xs \<Longrightarrow> x \<in> set xs \<Longrightarrow> \<not> P x"
  by (induction xs) (auto split: if_splits)

lemma lh_bucket:
  assumes "lh_inv H C lh" "get_next_ptr_and_hash H C lh d = (h, b, k)"
  shows "h = H (lhash lh) d" "b = unat h mod num_buckets lh" "b < num_buckets lh" "length (buckets lh) = num_buckets lh"
  using assms by (auto simp: lh_inv_def get_next_ptr_and_hash_def Let_def kMinNumBuckets_def placed_def)

lemma set_all_items: "item \<in># all_items lh \<longleftrightarrow> (\<exists>i < length (buckets lh). item \<in> set (buckets lh ! i))"
  by (auto simp: all_items_def) (metis in_set_conv_nth)

lemma lh_hit:
  assumes inv: "lh_inv H C lh" and p: "get_next_ptr_and_hash H C lh d = (h, b, k)" and d: "deref lh b k = Some item"
  shows "item \<in># all_items lh" "C (lcomp lh) (idata item) d = 0" "ihash item = h"
    "k < length (buckets lh ! b)" "buckets lh ! b ! k = item"
proof -
  note b = lh_bucket [OF inv p]
  from d show k: "k < length (buckets lh ! b)" and i: "buckets lh ! b ! k = item"
    by (auto simp: deref_def split: if_splits)
  then have "item \<in> set (buckets lh ! b)" by auto
  then show m: "item \<in># all_items lh" using b by (auto simp: set_all_items)
  show c: "C (lcomp lh) (idata item) d = 0"
    using p k i chain_pos_hit [of "\<lambda>cur. C (lcomp lh) (idata cur) d = 0" "buckets lh ! b"]
    by (auto simp: get_next_ptr_and_hash_def Let_def)
  show "ihash item = h" using lh_item_hash [OF inv m c] b(1) by simp
qed

lemma lh_miss:
  assumes inv: "lh_inv H C lh" and p: "get_next_ptr_and_hash H C lh d = (h, b, k)" and d: "deref lh b k = None"
    and m: "item \<in># all_items lh"
  shows "C (lcomp lh) (idata item) d \<noteq> 0"
proof
  assume c: "C (lcomp lh) (idata item) d = 0"
  note b = lh_bucket [OF inv p]
  have "ihash item = h" using lh_item_hash [OF inv m c] b(1) by simp
  moreover obtain i where i: "i < length (buckets lh)" "item \<in> set (buckets lh ! i)" using m by (auto simp: set_all_items)
  ultimately have "item \<in> set (buckets lh ! b)"
    using lh_placed [OF inv] b unfolding placed_def by metis
  then show False
    using p d c chain_pos_miss [of "\<lambda>cur. C (lcomp lh) (idata cur) d = 0" "buckets lh ! b" item]
    by (auto simp: get_next_ptr_and_hash_def deref_def Let_def split: if_splits)
qed

text \<open>An element equal to the key, when there is one, is the only one.\<close>

lemma size_le_1_eq: "size M \<le> Suc 0 \<Longrightarrow> x \<in># M \<Longrightarrow> M = {#x#}"
  by (metis One_nat_def Suc_le_mono add_mset_add_single le_zero_eq multi_member_split size_add_mset size_eq_0_iff_empty)

lemma lh_unique:
  assumes "lh_inv H C lh" "item \<in># all_items lh" "C (lcomp lh) (idata item) d = 0"
  shows "{#i \<in># all_items lh. C (lcomp lh) (idata i) d = 0#} = {#item#}"
  using lh_once [OF assms(1), of d] assms(2,3) by (intro size_le_1_eq) simp_all

lemma lh_unique_item:
  assumes "lh_inv H C lh" "item \<in># all_items lh" "C (lcomp lh) (idata item) d = 0"
    "item' \<in># all_items lh" "C (lcomp lh) (idata item') d = 0"
  shows "item' = item"
  using lh_unique [OF assms(1,2,3)] lh_unique [OF assms(1,4,5)] by simp

lemma lh_retrieve_hit:
  assumes inv: "lh_inv H C lh" and x: "x \<in> lh_data lh" "C (lcomp lh) x d = 0"
  shows "OPENSSL_lh_retrieve H C lh d = x"
proof -
  obtain h b k where p: "get_next_ptr_and_hash H C lh d = (h, b, k)" by (metis prod_cases3)
  from x obtain item where i: "item \<in># all_items lh" "idata item = x" by (auto simp: lh_data_def)
  show ?thesis
  proof (cases "deref lh b k")
    case None
    then show ?thesis using lh_miss [OF inv p None i(1)] i x by simp
  next
    case (Some item')
    then show ?thesis using lh_hit [OF inv p Some] lh_unique_item [OF inv i(1) _ lh_hit(1,2) [OF inv p Some]] i x p
      by (simp add: OPENSSL_lh_retrieve_def)
  qed
qed

lemma lh_retrieve_miss:
  assumes inv: "lh_inv H C lh" and x: "\<And>x. x \<in> lh_data lh \<Longrightarrow> C (lcomp lh) x d \<noteq> 0"
  shows "OPENSSL_lh_retrieve H C lh d = NULL"
proof -
  obtain h b k where p: "get_next_ptr_and_hash H C lh d = (h, b, k)" by (metis prod_cases3)
  show ?thesis
  proof (cases "deref lh b k")
    case (Some item)
    then show ?thesis using lh_hit [OF inv p Some] x [of "idata item"] by (auto simp: lh_data_def)
  qed (simp add: OPENSSL_lh_retrieve_def p)
qed

text \<open>Replacing a chain.\<close>

lemma all_items_chain:
  "b < length (buckets lh) \<Longrightarrow>
   all_items (lh\<lparr>buckets := (buckets lh)[b := c]\<rparr>) + mset (buckets lh ! b) = all_items lh + mset c"
  using mset_concat_update [of b "buckets lh" c] by (simp add: all_items_def)

lemma all_items_fields [simp]: "all_items (lh\<lparr>num_items := n\<rparr>) = all_items lh"
  by (simp add: all_items_def)

definition others :: "(ptr \<Rightarrow> ptr \<Rightarrow> int) \<Rightarrow> ptr \<Rightarrow> lhash_item_st multiset \<Rightarrow> lhash_item_st multiset" where
  "others c d M = {#i \<in># M. c (idata i) d \<noteq> 0#}"

lemma others_hit:
  assumes "lh_inv H C lh" "item \<in># all_items lh" "C (lcomp lh) (idata item) d = 0"
  shows "all_items lh = add_mset item (others (C (lcomp lh)) d (all_items lh))"
  using multiset_partition [of "all_items lh" "\<lambda>i. C (lcomp lh) (idata i) d = 0"] lh_unique [OF assms]
  by (simp add: others_def)

lemma others_miss:
  "(\<And>item. item \<in># M \<Longrightarrow> c (idata item) d \<noteq> 0) \<Longrightarrow> others c d M = M"
  by (simp add: others_def filter_mset_eq_conv)

lemma once_others:
  "\<forall>e. size {#i \<in># M. c (idata i) e = 0#} \<le> 1 \<Longrightarrow> size {#i \<in># others c d M. c (idata i) e = 0#} \<le> 1"
  by (metis (no_types, lifting) le_trans multiset_filter_mono multiset_filter_subset others_def size_mset_mono)

lemma once_add:
  assumes "key_ok h c" "\<forall>e. size {#i \<in># M. c (idata i) e = 0#} \<le> 1" "idata new = d"
  shows "size {#i \<in># add_mset new (others c d M). c (idata i) e = 0#} \<le> 1"
proof (cases "c d e = 0")
  case True
  have "{#i \<in># others c d M. c (idata i) e = 0#} = {#}"
    using key_trans [OF assms(1) _ key_sym [OF assms(1) True]]
    by (intro ccontr [of "_ = {#}"]) (auto simp: others_def elim!: multiset_nonemptyE)
  then show ?thesis using True assms(3) by simp
next
  case False
  then show ?thesis using once_others [OF assms(2)] assms(3) by simp
qed

text \<open>A table whose items are those of another but for the ones equal to \<open>d\<close>, with or without a new one.\<close>

definition new_item :: "(nat \<Rightarrow> ptr \<Rightarrow> u32) \<Rightarrow> lhash_st \<Rightarrow> ptr \<Rightarrow> lhash_item_st" where
  "new_item H lh d = \<lparr>idata = d, ihash = H (lhash lh) d\<rparr>"

lemma lh_inv_update:
  assumes inv: "lh_inv H C lh" and f: "lcomp lh' = lcomp lh" "lhash lh' = lhash lh" "num_buckets lh' = num_buckets lh"
    and pl: "placed (num_buckets lh) (buckets lh')" and n: "num_items lh' = size (all_items lh') mod 2 ^ 64"
    and M: "all_items lh' = add_mset (new_item H lh d) (others (C (lcomp lh)) d (all_items lh))
            \<or> all_items lh' = others (C (lcomp lh)) d (all_items lh)"
  shows "lh_inv H C lh'"
proof -
  have o: "\<forall>e. size {#i \<in># all_items lh. C (lcomp lh) (idata i) e = 0#} \<le> 1" using lh_once [OF inv] by blast
  have "\<forall>e. size {#i \<in># all_items lh'. C (lcomp lh) (idata i) e = 0#} \<le> 1"
    using M once_add [OF lh_keys [OF inv] o, of "new_item H lh d" d] once_others [OF o, where d = d]
    by (auto simp: new_item_def)
  moreover have "\<forall>item \<in># all_items lh'. ihash item = H (lhash lh) (idata item)"
    using M lh_cached [OF inv] by (auto simp: new_item_def others_def)
  ultimately show ?thesis
    using lh_keys [OF inv] lh_min [OF inv] pl n by (simp add: lh_inv_def f)
qed

lemma lh_data_others:
  "all_items lh' = others c d (all_items lh) \<Longrightarrow> lh_data lh' = {x \<in> lh_data lh. c x d \<noteq> 0}"
  by (auto simp: lh_data_def others_def)

lemma lh_data_new:
  "all_items lh' = add_mset (new_item H lh d) (others c d (all_items lh)) \<Longrightarrow>
   lh_data lh' = insert d {x \<in> lh_data lh. c x d \<noteq> 0}"
  by (auto simp: lh_data_def others_def new_item_def)


lemma chain_placed:
  assumes "lh_inv H C lh" "get_next_ptr_and_hash H C lh d = (h, b, k)"
    "\<And>i. i \<in> set c \<Longrightarrow> i \<in> set (buckets lh ! b) \<or> ihash i = h"
  shows "placed (num_buckets lh) ((buckets lh)[b := c])"
proof (rule placed_update [OF lh_placed [OF assms(1)] lh_bucket(3) [OF assms(1,2)]])
  fix i
  assume "i \<in> set c"
  then show "unat (ihash i) mod num_buckets lh = b"
    using assms(3) [of i] lh_placed [OF assms(1)] lh_bucket(2,3) [OF assms(1,2)] unfolding placed_def by metis
qed

lemma lh_insert_hit:
  assumes inv: "lh_inv H C lh" and p: "get_next_ptr_and_hash H C lh d = (h, b, k)" and it: "deref lh b k = Some item"
    and u: "u = lh\<lparr>buckets := (buckets lh)[b := (buckets lh ! b)[k := item\<lparr>idata := d\<rparr>]]\<rparr>"
  shows "lh_inv H C u \<and> lh_data u = insert d {x \<in> lh_data lh. C (lcomp lh) x d \<noteq> 0}"
proof -
  note b = lh_bucket [OF inv p] and hit = lh_hit [OF inv p it]
  have new: "item\<lparr>idata := d\<rparr> = new_item H lh d" using hit(3) b(1) by (simp add: new_item_def)
  have "all_items u + mset (buckets lh ! b) = all_items lh + mset ((buckets lh ! b)[k := item\<lparr>idata := d\<rparr>])"
    unfolding u using b by (intro all_items_chain) simp
  moreover have "mset (buckets lh ! b) = add_mset item (mset (buckets lh ! b) - {#item#})"
    using hit(4,5) by (metis insert_DiffM nth_mem_mset)
  ultimately have M: "all_items u = add_mset (new_item H lh d) (others (C (lcomp lh)) d (all_items lh))"
    using others_hit [OF inv hit(1,2)] hit(4,5) new
    by (metis (no_types, lifting) add_mset_add_single mset_update union_mset_add_mset_left union_mset_add_mset_right
        add_right_cancel)
  have "placed (num_buckets lh) ((buckets lh)[b := (buckets lh ! b)[k := item\<lparr>idata := d\<rparr>]])"
    using hit(3) by (intro chain_placed [OF inv p]) (auto dest!: set_update_subset_insert [THEN subsetD])
  then have pl: "placed (num_buckets lh) (buckets u)" by (simp add: u)
  have "size (all_items u) = size (all_items lh)" using M others_hit [OF inv hit(1,2)] by (metis size_add_mset)
  then have "lh_inv H C u"
    by (intro lh_inv_update [OF inv _ _ _ pl _ disjI1 [OF M]]) (simp_all add: u lh_count [OF inv])
  then show ?thesis using lh_data_new [OF M] by simp
qed

lemma lh_insert_miss:
  assumes inv: "lh_inv H C lh" and p: "get_next_ptr_and_hash H C lh d = (h, b, k)" and it: "deref lh b k = None"
    and u: "u = lh\<lparr>buckets := (buckets lh)[b := buckets lh ! b @ [new_item H lh d]], num_items := size_add (num_items lh) 1\<rparr>"
  shows "lh_inv H C u \<and> lh_data u = insert d {x \<in> lh_data lh. C (lcomp lh) x d \<noteq> 0}"
proof -
  note b = lh_bucket [OF inv p]
  have o: "others (C (lcomp lh)) d (all_items lh) = all_items lh"
    by (rule others_miss) (rule lh_miss [OF inv p it])
  have "all_items u + mset (buckets lh ! b) = all_items lh + mset (buckets lh ! b @ [new_item H lh d])"
    unfolding u all_items_fields using b by (intro all_items_chain) simp
  then have M: "all_items u = add_mset (new_item H lh d) (others (C (lcomp lh)) d (all_items lh))"
    by (simp add: o)
  have "placed (num_buckets lh) ((buckets lh)[b := buckets lh ! b @ [new_item H lh d]])"
    by (rule chain_placed [OF inv p]) (auto simp: new_item_def b(1))
  then have pl: "placed (num_buckets lh) (buckets u)" by (simp add: u)
  have "lh_inv H C u"
    by (intro lh_inv_update [OF inv _ _ _ pl _ disjI1 [OF M]])
      (simp_all add: M o, simp_all add: u lh_count [OF inv] size_add_def mod_Suc_eq)
  then show ?thesis using lh_data_new [OF M] by simp
qed

text \<open>
  Insertion: when it succeeds the elements are the new one and those not equal to it, and the
  element replaced is returned; when an allocation fails nothing changes.
\<close>

lemma lh_insert_spec:
  assumes inv: "lh_inv H C lh" and r: "OPENSSL_lh_insert E H C lh d = (ok, old, lh')"
  shows "lh_inv H C lh' \<and> lcomp lh' = lcomp lh \<and> old = OPENSSL_lh_retrieve H C lh d
    \<and> (if ok then lh_data lh' = insert d {x \<in> lh_data lh. C (lcomp lh) x d \<noteq> 0} else lh' = lh)"
proof -
  obtain h b k where p: "get_next_ptr_and_hash H C lh d = (h, b, k)" by (metis prod_cases3)
  show ?thesis
  proof (cases "deref lh b k")
    case (Some item)
    with r p lh_insert_hit [OF inv p Some] show ?thesis
      by (auto simp: OPENSSL_lh_insert_def OPENSSL_lh_retrieve_def Let_def)
  next
    case None
    define u where "u = lh\<lparr>buckets := (buckets lh)[b := buckets lh ! b @ [new_item H lh d]],
        num_items := size_add (num_items lh) 1\<rparr>"
    have new: "\<lparr>idata = d, ihash = h\<rparr> = new_item H lh d" using lh_bucket(1) [OF inv p] by (simp add: new_item_def)
    note miss = lh_insert_miss [OF inv p None u_def]
    from miss have "lh_inv H C (lh_maybe_resize E u) \<and> lh_data (lh_maybe_resize E u) = lh_data u
        \<and> lcomp (lh_maybe_resize E u) = lcomp lh"
      using lh_inv_resize [of H C u E] lh_maybe_resize_ok [of u E] lh_placed [of H C u] lh_min [of H C u]
      by (simp add: lh_data_def same_contents_def) (simp add: u_def)
    moreover have "old = NULL" "lh' = (if ok then lh_maybe_resize E u else lh)"
      using r p None by (auto simp: OPENSSL_lh_insert_def Let_def new u_def split: option.splits)
    moreover have "OPENSSL_lh_retrieve H C lh d = NULL" using p None by (simp add: OPENSSL_lh_retrieve_def)
    ultimately show ?thesis using miss inv by simp
  qed
qed

lemma mod_pred: "0 < m \<Longrightarrow> (m mod 2 ^ 64 + (2 ^ 64 - 1)) mod 2 ^ 64 = (m - 1) mod (2 ^ 64 :: nat)"
proof -
  assume m: "0 < m"
  then have "m + (2 ^ 64 - 1) = (m - 1) + (2 ^ 64 :: nat)" by simp
  then show ?thesis by (metis mod_add_left_eq mod_add_self2)
qed

lemma mset_remove_nth: "k < length xs \<Longrightarrow> mset xs = add_mset (xs ! k) (mset (take k xs @ drop (Suc k) xs))"
  by (metis id_take_nth_drop mset.simps(2) mset_append union_mset_add_mset_right)

text \<open>Deletion removes the element equal to the key and returns it.\<close>

lemma lh_delete_spec:
  assumes inv: "lh_inv H C lh" and r: "OPENSSL_lh_delete E H C lh d = (old, lh')"
  shows "lh_inv H C lh' \<and> lcomp lh' = lcomp lh \<and> old = OPENSSL_lh_retrieve H C lh d
    \<and> lh_data lh' = {x \<in> lh_data lh. C (lcomp lh) x d \<noteq> 0}"
proof -
  obtain h b k where p: "get_next_ptr_and_hash H C lh d = (h, b, k)" by (metis prod_cases3)
  note b = lh_bucket [OF inv p]
  show ?thesis
  proof (cases "deref lh b k")
    case None
    then show ?thesis using r p inv lh_miss [OF inv p None]
      by (auto simp: OPENSSL_lh_delete_def OPENSSL_lh_retrieve_def Let_def lh_data_def)
  next
    case (Some item)
    note hit = lh_hit [OF inv p Some]
    define c where "c = take k (buckets lh ! b) @ drop (Suc k) (buckets lh ! b)"
    define u where "u = lh\<lparr>buckets := (buckets lh)[b := c], num_items := size_add (num_items lh) (2 ^ 64 - 1)\<rparr>"
    have "all_items u + mset (buckets lh ! b) = all_items lh + mset c"
      unfolding u_def all_items_fields using b by (intro all_items_chain) simp
    then have M: "all_items u = others (C (lcomp lh)) d (all_items lh)"
      using mset_remove_nth [OF hit(4)] others_hit [OF inv hit(1,2)] hit(5)
      by (metis add_mset_add_single add_right_cancel c_def union_mset_add_mset_left union_mset_add_mset_right)
    have "placed (num_buckets lh) ((buckets lh)[b := c])"
      by (rule chain_placed [OF inv p]) (auto simp: c_def dest: in_set_takeD in_set_dropD)
    then have pl: "placed (num_buckets lh) (buckets u)" by (simp add: u_def)
    have "size (all_items lh) = Suc (size (all_items u))" using M others_hit [OF inv hit(1,2)] by (metis size_add_mset)
    then have "num_items u = size (all_items u) mod 2 ^ 64"
      using mod_pred [of "size (all_items lh)"] lh_count [OF inv] by (simp add: u_def size_add_def)
    then have u: "lh_inv H C u"
      by (intro lh_inv_update [OF inv _ _ _ pl _ disjI2 [OF M]]) (simp_all add: u_def)
    then have "lh_inv H C (lh_maybe_resize E u) \<and> lh_data (lh_maybe_resize E u) = lh_data u
        \<and> lcomp (lh_maybe_resize E u) = lcomp lh"
      using lh_inv_resize [of H C u E] lh_maybe_resize_ok [of u E] lh_placed [of H C u] lh_min [of H C u]
      by (simp add: lh_data_def same_contents_def) (simp add: u_def)
    moreover have "old = idata item" "lh' = lh_maybe_resize E u"
      using r p Some by (auto simp: OPENSSL_lh_delete_def Let_def u_def c_def)
    moreover have "OPENSSL_lh_retrieve H C lh d = idata item" using p Some by (simp add: OPENSSL_lh_retrieve_def)
    ultimately show ?thesis using lh_data_others [OF M] by simp
  qed
qed


lemma lh_new_spec:
  assumes "OPENSSL_lh_new E hash cmp = Some lh" "key_ok (H hash) (C cmp)"
  shows "lh_inv H C lh \<and> lh_data lh = {} \<and> lcomp lh = cmp \<and> lhash lh = hash"
  using assms
  by (auto simp: OPENSSL_lh_new_def lh_inv_def all_items_def lh_data_def placed_def split: option.splits)

text \<open>A lookup by key, when the key's comparison agrees with that of some element.\<close>

lemma lh_retrieve_key_eq:
  assumes "\<And>x. cmp_key key x = 0 \<longleftrightarrow> C (lcomp lh) x d = 0" "key_hash = H (lhash lh) d"
  shows "OPENSSL_lh_retrieve_key cmp_key lh key key_hash = OPENSSL_lh_retrieve H C lh d"
  by (simp add: OPENSSL_lh_retrieve_key_def OPENSSL_lh_retrieve_def get_next_ptr_by_key_def get_next_ptr_and_hash_def
      Let_def assms)

text \<open>The iteration visits every element once and leaves the contents.\<close>

lemma lh_doall_spec:
  assumes inv: "lh_inv H C lh" and r: "OPENSSL_lh_doall_arg E (Some lh) func arg = (arg', Some lh')"
  shows "\<exists>items. mset items = all_items lh \<and> arg' = fold (\<lambda>cur. func (idata cur)) items arg
    \<and> lh_inv H C lh' \<and> lh_data lh' = lh_data lh"
proof -
  define u where "u = (let l = (if callback_depth lh < 0xFFFFFFFF then lh\<lparr>callback_depth := callback_depth lh + 1\<rparr> else lh)
      in if callback_depth l < 0xFFFFFFFF then l\<lparr>callback_depth := callback_depth l - 1\<rparr> else l)"
  have f: "buckets u = buckets lh" "num_buckets u = num_buckets lh" "num_items u = num_items lh"
    "lcomp u = lcomp lh" "lhash u = lhash lh"
    by (simp_all add: u_def Let_def)
  have u: "lh_inv H C u" using inv by (simp add: lh_inv_def all_items_def f)
  have l: "length (buckets lh) = num_buckets lh" using lh_placed [OF inv] by (simp add: placed_def)
  have "arg' = fold (\<lambda>cur. func (idata cur)) (concat (buckets lh)) arg" "lh' = lh_maybe_resize E u"
    using r l by (auto simp: OPENSSL_lh_doall_arg_def Let_def u_def)
  then show ?thesis using lh_inv_resize [OF u, of E] f by (auto simp: all_items_def lh_data_def)
qed

section \<open>The table as a keyed set\<close>

text \<open>
  The contract of a table of elements up to an equivalence of keys, and the laws between
  operations a client uses.
\<close>

locale keyed_table =
  fixes ok :: "'s \<Rightarrow> bool"
    and eqv :: "'s \<Rightarrow> 'd \<Rightarrow> 'd \<Rightarrow> bool"
    and elements :: "'s \<Rightarrow> 'd set"
    and get :: "'s \<Rightarrow> 'd \<Rightarrow> 'd"
    and null :: 'd
    and ins :: "'s \<Rightarrow> 'd \<Rightarrow> 's option"
    and del :: "'s \<Rightarrow> 'd \<Rightarrow> 's"
  assumes eqv: "ok s \<Longrightarrow> equivp (eqv s)"
    and hit: "ok s \<Longrightarrow> x \<in> elements s \<Longrightarrow> eqv s x d \<Longrightarrow> get s d = x"
    and miss: "ok s \<Longrightarrow> (\<And>x. x \<in> elements s \<Longrightarrow> \<not> eqv s x d) \<Longrightarrow> get s d = null"
    and ins: "ok s \<Longrightarrow> ins s d = Some t \<Longrightarrow>
      ok t \<and> eqv t = eqv s \<and> elements t = insert d {x \<in> elements s. \<not> eqv s x d}"
    and del: "ok s \<Longrightarrow> ok (del s d) \<and> eqv (del s d) = eqv s \<and> elements (del s d) = {x \<in> elements s. \<not> eqv s x d}"
begin

lemma get_agree:
  assumes "ok s" "ok t" "eqv t = eqv s" "\<And>x. eqv s x e \<Longrightarrow> x \<in> elements t \<longleftrightarrow> x \<in> elements s"
  shows "get t e = get s e"
proof (cases "\<exists>x \<in> elements s. eqv s x e")
  case True
  then obtain x where "x \<in> elements s" "eqv s x e" by blast
  then show ?thesis using hit [OF assms(1), of x e] hit [OF assms(2), of x e] assms(3,4) by simp
next
  case False
  then have "get s e = null" "get t e = null" using miss [OF assms(1), of e] miss [OF assms(2), of e] assms(3,4) by auto
  then show ?thesis by simp
qed

lemma not_eqv:
  assumes "ok s" "\<not> eqv s d e" "eqv s x e"
  shows "\<not> eqv s x d"
  using assms eqv [OF assms(1)] by (meson equivp_symp equivp_transp)

lemma get_ins:
  assumes "ok s" "ins s d = Some t"
  shows "get t e = (if eqv s d e then d else get s e)"
proof (cases "eqv s d e")
  case True
  then show ?thesis using ins [OF assms] hit [of t d e] by simp
next
  case False
  then have "get t e = get s e"
    using ins [OF assms] not_eqv [OF assms(1) False] by (intro get_agree [OF assms(1)]) auto
  then show ?thesis using False by simp
qed

lemma get_del:
  assumes "ok s"
  shows "get (del s d) e = (if eqv s d e then null else get s e)"
proof (cases "eqv s d e")
  case True
  have "\<not> eqv s x e" if "\<not> eqv s x d" for x
    using that True eqv [OF assms] by (meson equivp_symp equivp_transp)
  then show ?thesis using del [OF assms, of d] miss [of "del s d" e] True by auto
next
  case False
  then have "get (del s d) e = get s e"
    using del [OF assms, of d] not_eqv [OF assms False] by (intro get_agree [OF assms]) auto
  then show ?thesis using False by simp
qed

end

definition lh_ins ::
    "alloc_env \<Rightarrow> (nat \<Rightarrow> ptr \<Rightarrow> u32) \<Rightarrow> (nat \<Rightarrow> ptr \<Rightarrow> ptr \<Rightarrow> int) \<Rightarrow> lhash_st \<Rightarrow> ptr \<Rightarrow> lhash_st option" where
  "lh_ins E H C lh d = (case OPENSSL_lh_insert E H C lh d of (ok, _, lh') \<Rightarrow> if ok then Some lh' else None)"

interpretation lh: keyed_table "lh_inv H C" "\<lambda>lh x y. C (lcomp lh) x y = 0" lh_data "OPENSSL_lh_retrieve H C" NULL
  "lh_ins E H C" "\<lambda>lh d. snd (OPENSSL_lh_delete E H C lh d)" for H C E
proof (unfold_locales, goal_cases)
  case (1 lh)
  from key_okD [OF lh_keys [OF 1]] show ?case by (intro equivpI reflpI sympI transpI) blast+
next
  case (2 lh x d)
  then show ?case by (rule lh_retrieve_hit)
next
  case (3 lh d)
  then show ?case by (rule lh_retrieve_miss)
next
  case (4 lh d t)
  then obtain old where "OPENSSL_lh_insert E H C lh d = (True, old, t)"
    by (auto simp: lh_ins_def split: prod.splits if_splits)
  from lh_insert_spec [OF 4(1) this] show ?case by simp
next
  case (5 lh d)
  then show ?case using lh_delete_spec [OF 5, of E d] by (cases "OPENSSL_lh_delete E H C lh d") simp
qed

end
