(* ===== verification/Buf.thy ===== *)
theory Buf
  imports CBB_Writers
begin

text \<open>
  \<^verbatim>\<open>crypto/buf/buf.c\<close>: the growable byte buffer.  \<open>buf_mem_st\<close> has the fields \<^verbatim>\<open>length\<close>, \<^verbatim>\<open>data\<close>
  and \<^verbatim>\<open>max\<close>; the wrappers of the string functions are the operations of \<^verbatim>\<open>mem.c\<close>.
  Every operation keeps \<open>buf_inv\<close>; \<open>buf_grow_ok\<close> and \<open>buf_append_ok\<close> give the contents after
  success, and failure (overflow of the sizes or of the heap) leaves the buffer.
\<close>

record buf_mem_st =
  mlength :: nat
  mdata :: "bytes option"
  mmax :: nat

definition sizeof_BUF_MEM :: nat where
  "sizeof_BUF_MEM = 24"

definition BUF_MEM_new :: "alloc_env \<Rightarrow> buf_mem_st option" where
  "BUF_MEM_new E =
     (case OPENSSL_malloc E sizeof_BUF_MEM of
        None \<Rightarrow> None
      | Some _ \<Rightarrow> Some \<lparr>mlength = 0, mdata = None, mmax = 0\<rparr>)"

definition BUF_MEM_reserve :: "alloc_env \<Rightarrow> buf_mem_st \<Rightarrow> nat \<Rightarrow> bool \<times> buf_mem_st" where
  "BUF_MEM_reserve E bf wanted =
     (if mmax bf \<ge> wanted then (True, bf)
      else
        let n = size_add wanted 3
        in if n < wanted then (False, bf)
           else
             let n = n div 3; alloc_size = size_mul n 4
             in if alloc_size div 4 \<noteq> n then (False, bf)
                else
                  case OPENSSL_realloc E (mdata bf) alloc_size of
                    None \<Rightarrow> (False, bf)
                  | Some new_buf \<Rightarrow> (True, bf\<lparr>mdata := Some new_buf, mmax := alloc_size\<rparr>))"

text \<open>The block, empty while the pointer is null.\<close>

definition mblock :: "buf_mem_st \<Rightarrow> bytes" where
  "mblock bf = (case mdata bf of None \<Rightarrow> [] | Some d \<Rightarrow> d)"

definition BUF_MEM_grow :: "alloc_env \<Rightarrow> buf_mem_st \<Rightarrow> nat \<Rightarrow> nat \<times> buf_mem_st" where
  "BUF_MEM_grow E bf len =
     (case BUF_MEM_reserve E bf len of
        (False, bf) \<Rightarrow> (0, bf)
      | (True, bf) \<Rightarrow>
          (let bf = (if mlength bf < len
                     then bf\<lparr>mdata := map_option (write_at (mlength bf) (replicate (len - mlength bf) 0)) (mdata bf)\<rparr>
                     else bf)
           in (len, bf\<lparr>mlength := len\<rparr>)))"

definition BUF_MEM_grow_clean :: "alloc_env \<Rightarrow> buf_mem_st \<Rightarrow> nat \<Rightarrow> nat \<times> buf_mem_st" where
  "BUF_MEM_grow_clean E bf len = BUF_MEM_grow E bf len"

definition BUF_MEM_append :: "alloc_env \<Rightarrow> buf_mem_st \<Rightarrow> bytes \<Rightarrow> bool \<times> buf_mem_st" where
  "BUF_MEM_append E bf inp =
     (let len = length inp in
      if len = 0 then (True, bf)
      else
        let new_len = size_add (mlength bf) len
        in if new_len < len then (False, bf)
           else
             case BUF_MEM_reserve E bf new_len of
               (False, bf) \<Rightarrow> (False, bf)
             | (True, bf) \<Rightarrow>
                 (True, bf\<lparr>mdata := map_option (write_at (mlength bf) inp) (mdata bf), mlength := new_len\<rparr>))"

definition BUF_strdup :: "alloc_env \<Rightarrow> bytes option \<Rightarrow> bytes option" where
  "BUF_strdup E str = OPENSSL_strdup E str"

definition BUF_strnlen :: "bytes \<Rightarrow> nat \<Rightarrow> nat" where
  "BUF_strnlen str max_len = OPENSSL_strnlen str max_len"

definition BUF_strndup :: "alloc_env \<Rightarrow> bytes \<Rightarrow> nat \<Rightarrow> bytes option" where
  "BUF_strndup E str n = OPENSSL_strndup E str n"

definition BUF_strlcpy :: "bytes \<Rightarrow> bytes \<Rightarrow> nat \<Rightarrow> (bytes \<times> nat) option" where
  "BUF_strlcpy dst src dst_size = OPENSSL_strlcpy dst src dst_size"

definition BUF_strlcat :: "bytes \<Rightarrow> bytes \<Rightarrow> nat \<Rightarrow> (bytes \<times> nat) option" where
  "BUF_strlcat dst src dst_size = OPENSSL_strlcat dst src dst_size"

definition BUF_memdup :: "alloc_env \<Rightarrow> bytes \<Rightarrow> bytes option" where
  "BUF_memdup E data = OPENSSL_memdup E data"

section \<open>Invariant and contents\<close>

definition buf_inv :: "buf_mem_st \<Rightarrow> bool" where
  "buf_inv bf \<longleftrightarrow> length (mblock bf) = mmax bf \<and> mlength bf \<le> mmax bf \<and> mmax bf < 2 ^ 64"

definition contents :: "buf_mem_st \<Rightarrow> bytes" where
  "contents bf = take (mlength bf) (mblock bf)"

lemma buf_new_ok: "BUF_MEM_new E = Some bf \<Longrightarrow> buf_inv bf \<and> contents bf = []"
  by (auto simp: BUF_MEM_new_def buf_inv_def contents_def mblock_def split: option.splits)

text \<open>The requested capacity is rounded up by a third; the sizes do not overflow when the call succeeds.\<close>

lemma reserve_size:
  fixes wanted :: nat
  assumes "wanted < 2 ^ 64" "\<not> size_add wanted 3 < wanted" "size_mul (size_add wanted 3 div 3) 4 div 4 = size_add wanted 3 div 3"
  shows "wanted < size_mul (size_add wanted 3 div 3) 4" "size_mul (size_add wanted 3 div 3) 4 < 2 ^ 64"
proof -
  have s: "size_add wanted 3 = wanted + 3"
  proof (rule ccontr)
    assume "size_add wanted 3 \<noteq> wanted + 3"
    then have big: "2 ^ 64 \<le> wanted + 3" using size_add_small by (metis not_less)
    then have "size_add wanted 3 = wanted + 3 - 2 ^ 64"
      using assms(1) by (simp add: size_add_def mod_if)
    then have "size_add wanted 3 + 2 ^ 64 = wanted + 3" using big by simp
    then show False using assms(2) by simp
  qed
  show "size_mul (size_add wanted 3 div 3) 4 < 2 ^ 64" by (simp add: size_mul_def)
  have "4 * ((wanted + 3) div 3) \<le> size_mul (size_add wanted 3 div 3) 4"
    using assms(3) by (metis s mult.commute div_times_less_eq_dividend)
  then show "wanted < size_mul (size_add wanted 3 div 3) 4" by linarith
qed

lemma buf_reserve_ok:
  assumes "buf_inv bf" "wanted < 2 ^ 64" "BUF_MEM_reserve E bf wanted = (ok, bf')"
  shows "buf_inv bf' \<and> mlength bf' = mlength bf \<and> contents bf' = contents bf \<and> mmax bf \<le> mmax bf'
    \<and> (if ok then wanted \<le> mmax bf' \<and> (0 < wanted \<longrightarrow> mdata bf' \<noteq> None) else bf' = bf)"
proof (cases "wanted \<le> mmax bf \<or> \<not> ok")
  case True
  then have "bf' = bf" "ok \<Longrightarrow> wanted \<le> mmax bf"
    using assms(3) by (auto simp: BUF_MEM_reserve_def Let_def split: if_splits option.splits)
  then show ?thesis using assms(1) by (auto simp: buf_inv_def mblock_def split: option.splits)
next
  case False
  define sz where "sz = size_mul (size_add wanted 3 div 3) 4"
  from False assms(3) obtain d where c: "\<not> wanted \<le> mmax bf" "\<not> size_add wanted 3 < wanted" "sz div 4 = size_add wanted 3 div 3"
    "OPENSSL_realloc E (mdata bf) sz = Some d" "ok" "bf' = bf\<lparr>mdata := Some d, mmax := sz\<rparr>"
    by (auto simp: BUF_MEM_reserve_def Let_def sz_def split: if_splits option.splits)
  have sz: "wanted < sz" "sz < 2 ^ 64" using reserve_size [OF assms(2) c(2)] c(3) unfolding sz_def by auto
  have "length d = sz" using c(4) by (rule OPENSSL_realloc_length)
  moreover have "take (mlength bf) d = take (mlength bf) (mblock bf)"
  proof (cases "mdata bf")
    case None
    then show ?thesis using assms(1) by (simp add: buf_inv_def mblock_def)
  next
    case (Some old)
    then have "take (length old) d = old" using OPENSSL_realloc_prefix [of E old sz d] c sz assms(1)
      by (simp add: buf_inv_def mblock_def)
    then show ?thesis using Some assms(1) by (metis buf_inv_def mblock_def min.absorb1 option.case(2) take_take)
  qed
  ultimately show ?thesis using assms(1) c sz by (simp add: buf_inv_def contents_def mblock_def)
qed


text \<open>Growing pads with zeros, or cuts.\<close>

lemma buf_grow_ok:
  assumes "buf_inv bf" "len < 2 ^ 64" "BUF_MEM_grow E bf len = (n, bf')" "n \<noteq> 0"
  shows "n = len \<and> buf_inv bf' \<and> contents bf' = take len (contents bf) @ replicate (len - length (contents bf)) 0"
proof -
  obtain u where u: "BUF_MEM_reserve E bf len = (True, u)"
    using assms(3,4) by (cases "BUF_MEM_reserve E bf len") (auto simp: BUF_MEM_grow_def split: bool.splits)
  from buf_reserve_ok [OF assms(1,2) u] have r: "buf_inv u" "mlength u = mlength bf" "contents u = contents bf"
    "len \<le> mmax u" by auto
  have l: "length (contents bf) = mlength bf" using assms(1) by (simp add: buf_inv_def contents_def)
  show ?thesis
  proof (cases "mlength u < len")
    case True
    then obtain d where d: "mdata u = Some d" using r(1,4) by (cases "mdata u") (auto simp: buf_inv_def mblock_def)
    have n: "n = len" "bf' = u\<lparr>mdata := Some (write_at (mlength u) (replicate (len - mlength u) 0) d), mlength := len\<rparr>"
      using assms(3) u True d by (auto simp: BUF_MEM_grow_def)
    have "length d = mmax u" using d r(1) by (simp add: buf_inv_def mblock_def)
    then show ?thesis
      using n True r d l take_write_at [of "mlength u" d "replicate (len - mlength u) 0"]
        length_write_at [of "mlength u" "replicate (len - mlength u) 0" d]
      by (simp add: buf_inv_def contents_def mblock_def)
  next
    case False
    then have "n = len" "bf' = u\<lparr>mlength := len\<rparr>" using assms(3) u by (auto simp: BUF_MEM_grow_def)
    moreover from this have "contents bf' = take len (contents u)"
      using False by (simp add: contents_def mblock_def min_def)
    ultimately show ?thesis using False r l by (auto simp: buf_inv_def mblock_def)
  qed
qed

text \<open>Appending, and its only other outcome: nothing changes.\<close>

lemma buf_append_ok:
  assumes "buf_inv bf" "length inp < 2 ^ 64" "BUF_MEM_append E bf inp = (ok, bf')"
  shows "buf_inv bf' \<and> (if ok then contents bf' = contents bf @ inp else bf' = bf)"
proof (cases "inp = []")
  case True
  then show ?thesis using assms by (simp add: BUF_MEM_append_def)
next
  case False
  define len where "len = size_add (mlength bf) (length inp)"
  have len: "len < 2 ^ 64" by (simp add: len_def size_add_def)
  show ?thesis
  proof (cases "len < length inp")
    case True
    then show ?thesis using assms False by (auto simp: BUF_MEM_append_def Let_def len_def)
  next
    case nw: False
    have "mlength bf < 2 ^ 64" using assms(1) by (simp add: buf_inv_def)
    then have e: "len = mlength bf + length inp"
      using nw assms(2) unfolding len_def size_add_def by (simp add: mod_if split: if_splits)
    obtain k u where u: "BUF_MEM_reserve E bf len = (k, u)" by fastforce
    note r = buf_reserve_ok [OF assms(1) len u]
    show ?thesis
    proof (cases k)
      case False
      then show ?thesis using assms nw u r \<open>inp \<noteq> []\<close> by (simp add: BUF_MEM_append_def Let_def len_def)
    next
      case True
      with r e \<open>inp \<noteq> []\<close> obtain d where d: "mdata u = Some d" by auto
      have n: "ok" "bf' = u\<lparr>mdata := Some (write_at (mlength u) inp d), mlength := len\<rparr>"
        using assms(3) u True d nw \<open>inp \<noteq> []\<close> by (auto simp: BUF_MEM_append_def Let_def len_def)
      have "length d = mmax u" using d r by (simp add: buf_inv_def mblock_def)
      then show ?thesis
        using n True r d e take_write_at [of "mlength u" d inp] length_write_at [of "mlength u" inp d]
        by (auto simp: buf_inv_def contents_def mblock_def)
    qed
  qed
qed

end
