(* ===== verification/Nanopb.thy ===== *)
theory Nanopb
  imports CBB
begin

text \<open>
  The wire format layer of nanopb (\<^verbatim>\<open>pb_encode.c\<close>, \<^verbatim>\<open>pb_decode.c\<close>), built as the project
  builds it: \<^verbatim>\<open>PB_FIELD_32BIT\<close>, \<^verbatim>\<open>PB_ENABLE_MALLOC\<close>, 64-bit integers, error messages.

  An output stream has the callback \<^verbatim>\<open>buf_write\<close> (\<open>ocallback\<close>) or none, which makes it a sizing
  stream; \<^verbatim>\<open>state\<close> is the position \<open>opos\<close> in the buffer \<open>obuf\<close>.  An input stream reads a buffer;
  \<^verbatim>\<open>state\<close> is the list of the bytes from the pointer on.  The error macros keep the first
  message.
\<close>

section \<open>Streams\<close>

record pb_ostream_t =
  ocallback :: bool
  obuf :: bytes
  opos :: nat
  max_size :: nat
  bytes_written :: nat
  oerrmsg :: "string option"

record pb_istream_t =
  istate :: bytes
  bytes_left :: nat
  ierrmsg :: "string option"

definition oerror :: "string \<Rightarrow> pb_ostream_t \<Rightarrow> bool \<times> pb_ostream_t" where
  "oerror msg s = (False, s\<lparr>oerrmsg := (case oerrmsg s of None \<Rightarrow> Some msg | Some e \<Rightarrow> Some e)\<rparr>)"

definition ierror :: "string \<Rightarrow> pb_istream_t \<Rightarrow> 'a option \<times> pb_istream_t" where
  "ierror msg s = (None, s\<lparr>ierrmsg := (case ierrmsg s of None \<Rightarrow> Some msg | Some e \<Rightarrow> Some e)\<rparr>)"

definition buf_write :: "pb_ostream_t \<Rightarrow> bytes \<Rightarrow> bool \<times> pb_ostream_t" where
  "buf_write stream bs = (True, stream\<lparr>opos := opos stream + length bs, obuf := write_at (opos stream) bs (obuf stream)\<rparr>)"

definition pb_ostream_from_buffer :: "bytes \<Rightarrow> nat \<Rightarrow> pb_ostream_t" where
  "pb_ostream_from_buffer bf bufsize =
     \<lparr>ocallback = True, obuf = bf, opos = 0, max_size = bufsize, bytes_written = 0, oerrmsg = None\<rparr>"

definition PB_OSTREAM_SIZING :: pb_ostream_t where
  "PB_OSTREAM_SIZING = \<lparr>ocallback = False, obuf = [], opos = 0, max_size = 0, bytes_written = 0, oerrmsg = None\<rparr>"

definition pb_write :: "pb_ostream_t \<Rightarrow> bytes \<Rightarrow> bool \<times> pb_ostream_t" where
  "pb_write stream bs =
     (let count = length bs in
      if count > 0 \<and> ocallback stream then
        if size_add (bytes_written stream) count < bytes_written stream
           \<or> size_add (bytes_written stream) count > max_size stream
        then oerror ''stream full'' stream
        else
          case buf_write stream bs of
            (False, stream) \<Rightarrow> oerror ''io error'' stream
          | (True, stream) \<Rightarrow> (True, stream\<lparr>bytes_written := size_add (bytes_written stream) count\<rparr>)
      else (True, stream\<lparr>bytes_written := size_add (bytes_written stream) count\<rparr>))"

definition buf_read :: "pb_istream_t \<Rightarrow> nat \<Rightarrow> bytes option \<times> pb_istream_t" where
  "buf_read stream count = (Some (take count (istate stream)), stream\<lparr>istate := drop count (istate stream)\<rparr>)"

definition pb_read :: "pb_istream_t \<Rightarrow> nat \<Rightarrow> bytes option \<times> pb_istream_t" where
  "pb_read stream count =
     (if count = 0 then (Some [], stream)
      else if bytes_left stream < count then ierror ''end-of-stream'' stream
      else
        case buf_read stream count of
          (None, stream) \<Rightarrow> ierror ''io error'' stream
        | (Some bs, stream) \<Rightarrow> (Some bs, stream\<lparr>bytes_left := bytes_left stream - count\<rparr>))"

definition pb_readbyte :: "pb_istream_t \<Rightarrow> u8 option \<times> pb_istream_t" where
  "pb_readbyte stream =
     (if bytes_left stream = 0 then ierror ''end-of-stream'' stream
      else
        case buf_read stream 1 of
          (None, stream) \<Rightarrow> ierror ''io error'' stream
        | (Some bs, stream) \<Rightarrow> (Some (bs ! 0), stream\<lparr>bytes_left := bytes_left stream - 1\<rparr>))"

definition pb_istream_from_buffer :: "bytes \<Rightarrow> nat \<Rightarrow> pb_istream_t" where
  "pb_istream_from_buffer bf bufsize = \<lparr>istate = bf, bytes_left = bufsize, ierrmsg = None\<rparr>"

lemma readbyte_left: "pb_readbyte s = (Some b, t) \<Longrightarrow> bytes_left t < bytes_left s"
  by (auto simp: pb_readbyte_def ierror_def buf_read_def split: if_splits)

section \<open>Decoding numbers\<close>

text \<open>
  The loop of \<^verbatim>\<open>pb_decode_varint32_eof\<close>, with \<^verbatim>\<open>uint_fast8_t\<close> the 8-bit type it is on the
  platforms of the library.  It gives \<^verbatim>\<open>result\<close>, \<^verbatim>\<open>bitpos\<close> and the last \<^verbatim>\<open>byte\<close>.
\<close>

function varint32_loop :: "u32 \<Rightarrow> u8 \<Rightarrow> pb_istream_t \<Rightarrow> (u32 \<times> u8 \<times> u8) option \<times> pb_istream_t" where
  "varint32_loop result bitpos stream =
     (case pb_readbyte stream of
        (None, stream) \<Rightarrow> (None, stream)
      | (Some byte, stream) \<Rightarrow>
          if bitpos \<ge> 32 \<and> byte AND 0x7F \<noteq> 0
             \<and> (drop_bit 31 result = 0 \<or> byte \<noteq> (if bitpos < 63 then 0xFF else 0x01))
          then ierror ''varint overflow'' stream
          else
            let result = (if bitpos \<ge> 32 then result
                          else result OR push_bit (unat bitpos) (ucast (byte AND 0x7F)));
                bitpos = bitpos + 7
            in if byte AND 0x80 \<noteq> 0 then varint32_loop result bitpos stream
               else (Some (result, bitpos, byte), stream))"
  by pat_completeness auto
termination
  by (relation "measure (\<lambda>(r, b, s). bytes_left s)") (auto dest!: sym [of "(_, _)"] readbyte_left)

declare varint32_loop.simps [simp del]

text \<open>The result, the end-of-file flag and the stream.\<close>

definition pb_decode_varint32_eof :: "pb_istream_t \<Rightarrow> u32 option \<times> bool \<times> pb_istream_t" where
  "pb_decode_varint32_eof stream =
     (case pb_readbyte stream of
        (None, stream) \<Rightarrow> (None, bytes_left stream = 0, stream)
      | (Some byte, stream) \<Rightarrow>
          if byte AND 0x80 = 0 then (Some (ucast byte), False, stream)
          else
            case varint32_loop (ucast (byte AND 0x7F)) 7 stream of
              (None, stream) \<Rightarrow> (None, False, stream)
            | (Some (result, bitpos, byte), stream) \<Rightarrow>
                if bitpos = 35 \<and> byte AND 0x70 \<noteq> 0
                then (case ierror ''varint overflow'' stream of (r, stream) \<Rightarrow> (r, False, stream))
                else (Some result, False, stream))"

definition pb_decode_varint32 :: "pb_istream_t \<Rightarrow> u32 option \<times> pb_istream_t" where
  "pb_decode_varint32 stream = (case pb_decode_varint32_eof stream of (r, _, stream) \<Rightarrow> (r, stream))"

function varint_loop :: "u64 \<Rightarrow> u8 \<Rightarrow> pb_istream_t \<Rightarrow> u64 option \<times> pb_istream_t" where
  "varint_loop result bitpos stream =
     (if bitpos \<ge> 64 then ierror ''varint overflow'' stream
      else
        case pb_readbyte stream of
          (None, stream) \<Rightarrow> (None, stream)
        | (Some byte, stream) \<Rightarrow>
            (let result = result OR push_bit (unat bitpos) (ucast (byte AND 0x7F));
                 bitpos = bitpos + 7
             in if byte AND 0x80 \<noteq> 0 then varint_loop result bitpos stream else (Some result, stream)))"
  by pat_completeness auto
termination
  by (relation "measure (\<lambda>(r, b, s). bytes_left s)") (auto dest!: sym [of "(_, _)"] readbyte_left)

declare varint_loop.simps [simp del]

definition pb_decode_varint :: "pb_istream_t \<Rightarrow> u64 option \<times> pb_istream_t" where
  "pb_decode_varint stream = varint_loop 0 0 stream"

definition pb_decode_svarint :: "pb_istream_t \<Rightarrow> u64 option \<times> pb_istream_t" where
  "pb_decode_svarint stream =
     (case pb_decode_varint stream of
        (None, stream) \<Rightarrow> (None, stream)
      | (Some value, stream) \<Rightarrow>
          (Some (if value AND 1 \<noteq> 0 then NOT (drop_bit 1 value) else drop_bit 1 value), stream))"


definition load_le :: "bytes \<Rightarrow> 'a::len word" where
  "load_le bs = foldr (\<lambda>b w. ucast b OR push_bit 8 w) bs 0"

definition pb_decode_fixed32 :: "pb_istream_t \<Rightarrow> u32 option \<times> pb_istream_t" where
  "pb_decode_fixed32 stream =
     (case pb_read stream 4 of
        (None, stream) \<Rightarrow> (None, stream)
      | (Some b, stream) \<Rightarrow>
          (Some (ucast (b ! 0) OR push_bit 8 (ucast (b ! 1)) OR push_bit 16 (ucast (b ! 2)) OR push_bit 24 (ucast (b ! 3))),
           stream))"

definition pb_decode_fixed64 :: "pb_istream_t \<Rightarrow> u64 option \<times> pb_istream_t" where
  "pb_decode_fixed64 stream =
     (case pb_read stream 8 of
        (None, stream) \<Rightarrow> (None, stream)
      | (Some b, stream) \<Rightarrow>
          (Some (ucast (b ! 0) OR push_bit 8 (ucast (b ! 1)) OR push_bit 16 (ucast (b ! 2)) OR push_bit 24 (ucast (b ! 3))
                 OR push_bit 32 (ucast (b ! 4)) OR push_bit 40 (ucast (b ! 5)) OR push_bit 48 (ucast (b ! 6))
                 OR push_bit 56 (ucast (b ! 7))),
           stream))"

section \<open>Skipping, tags and substreams\<close>

datatype pb_wire_type_t = PB_WT_VARINT | PB_WT_64BIT | PB_WT_STRING | PB_WT_32BIT | PB_WT_other nat

definition wire_type_of :: "nat \<Rightarrow> pb_wire_type_t" where
  "wire_type_of n =
     (if n = 0 then PB_WT_VARINT else if n = 1 then PB_WT_64BIT else if n = 2 then PB_WT_STRING
      else if n = 5 then PB_WT_32BIT else PB_WT_other n)"

fun wire_type_num :: "pb_wire_type_t \<Rightarrow> nat" where
  "wire_type_num PB_WT_VARINT = 0"
| "wire_type_num PB_WT_64BIT = 1"
| "wire_type_num PB_WT_STRING = 2"
| "wire_type_num PB_WT_32BIT = 5"
| "wire_type_num (PB_WT_other n) = n"

lemma pb_read_left: "pb_read s n = (Some b, t) \<Longrightarrow> 0 < n \<Longrightarrow> bytes_left t < bytes_left s"
  by (auto simp: pb_read_def ierror_def buf_read_def split: if_splits)

function pb_skip_varint :: "pb_istream_t \<Rightarrow> unit option \<times> pb_istream_t" where
  "pb_skip_varint stream =
     (case pb_read stream 1 of
        (None, stream) \<Rightarrow> (None, stream)
      | (Some b, stream) \<Rightarrow> if b ! 0 AND 0x80 \<noteq> 0 then pb_skip_varint stream else (Some (), stream))"
  by pat_completeness auto
termination
  by (relation "measure bytes_left") (auto dest!: sym [of "(_, _)"] pb_read_left)

declare pb_skip_varint.simps [simp del]

definition pb_skip :: "pb_istream_t \<Rightarrow> nat \<Rightarrow> unit option \<times> pb_istream_t" where
  "pb_skip stream n = (case pb_read stream n of (r, stream) \<Rightarrow> (map_option (\<lambda>_. ()) r, stream))"

definition pb_skip_string :: "pb_istream_t \<Rightarrow> unit option \<times> pb_istream_t" where
  "pb_skip_string stream =
     (case pb_decode_varint32 stream of
        (None, stream) \<Rightarrow> (None, stream)
      | (Some len, stream) \<Rightarrow> pb_skip stream (unat len))"

text \<open>The tag and wire type, the end-of-file flag and the stream.\<close>

definition pb_decode_tag :: "pb_istream_t \<Rightarrow> (pb_wire_type_t \<times> u32) option \<times> bool \<times> pb_istream_t" where
  "pb_decode_tag stream =
     (case pb_decode_varint32_eof stream of
        (None, eof, stream) \<Rightarrow> (None, eof, stream)
      | (Some temp, eof, stream) \<Rightarrow>
          if temp = 0 then (None, True, stream)
          else (Some (wire_type_of (unat (temp AND 7)), drop_bit 3 temp), eof, stream))"

fun pb_skip_field :: "pb_istream_t \<Rightarrow> pb_wire_type_t \<Rightarrow> unit option \<times> pb_istream_t" where
  "pb_skip_field stream PB_WT_VARINT = pb_skip_varint stream"
| "pb_skip_field stream PB_WT_64BIT = pb_skip stream 8"
| "pb_skip_field stream PB_WT_STRING = pb_skip_string stream"
| "pb_skip_field stream PB_WT_32BIT = pb_skip stream 4"
| "pb_skip_field stream (PB_WT_other n) = ierror ''invalid wire_type'' stream"

text \<open>The loop of \<^verbatim>\<open>read_raw_value\<close> over a varint, with \<^verbatim>\<open>*size\<close> the number of bytes so far.\<close>

function read_raw_varint :: "nat \<Rightarrow> bytes \<Rightarrow> pb_istream_t \<Rightarrow> bytes option \<times> pb_istream_t" where
  "read_raw_varint limit bs stream =
     (if length bs + 1 > limit then (None, stream)
      else
        case pb_read stream 1 of
          (None, stream) \<Rightarrow> (None, stream)
        | (Some b, stream) \<Rightarrow>
            if b ! 0 AND 0x80 \<noteq> 0 then read_raw_varint limit (bs @ [b ! 0]) stream
            else (Some (bs @ [b ! 0]), stream))"
  by pat_completeness auto
termination
  by (relation "measure (\<lambda>(m, bs, s). bytes_left s)") (auto dest!: sym [of "(_, _)"] pb_read_left)

declare read_raw_varint.simps [simp del]

fun read_raw_value :: "pb_istream_t \<Rightarrow> pb_wire_type_t \<Rightarrow> nat \<Rightarrow> bytes option \<times> pb_istream_t" where
  "read_raw_value stream PB_WT_VARINT limit = read_raw_varint limit [] stream"
| "read_raw_value stream PB_WT_64BIT limit = pb_read stream 8"
| "read_raw_value stream PB_WT_32BIT limit = pb_read stream 4"
| "read_raw_value stream wt limit = ierror ''invalid wire_type'' stream"

text \<open>The substream and the stream.\<close>

definition pb_make_string_substream :: "pb_istream_t \<Rightarrow> pb_istream_t option \<times> pb_istream_t" where
  "pb_make_string_substream stream =
     (case pb_decode_varint32 stream of
        (None, stream) \<Rightarrow> (None, stream)
      | (Some sz, stream) \<Rightarrow>
          if bytes_left stream < unat sz then ierror ''parent stream too short'' stream
          else (Some (stream\<lparr>bytes_left := unat sz\<rparr>), stream\<lparr>bytes_left := bytes_left stream - unat sz\<rparr>))"

definition pb_close_string_substream :: "pb_istream_t \<Rightarrow> pb_istream_t \<Rightarrow> bool \<times> pb_istream_t" where
  "pb_close_string_substream stream substream =
     (case (if bytes_left substream \<noteq> 0 then pb_read substream (bytes_left substream) else (Some [], substream)) of
        (None, substream) \<Rightarrow> (False, stream)
      | (Some _, substream) \<Rightarrow> (True, stream\<lparr>istate := istate substream, ierrmsg := ierrmsg substream\<rparr>))"

section \<open>Encoding numbers\<close>

type_synonym pb_encoder = "pb_ostream_t \<Rightarrow> bool \<times> pb_ostream_t"

function varint_bytes :: "u64 \<Rightarrow> bytes" where
  "varint_bytes value =
     (if value = 0 then [] else ucast ((value AND 0x7F) OR 0x80) # varint_bytes (drop_bit 7 value))"
  by pat_completeness auto
termination
proof (relation "measure unat")
  fix v :: u64
  assume "v \<noteq> 0"
  then have "0 < unat v" by (simp add: unat_gt_0)
  then show "(drop_bit 7 v, v) \<in> measure unat" using unat_div_drop_bit [of v 7] by simp
qed simp

declare varint_bytes.simps [simp del]

definition pb_encode_varint :: "u64 \<Rightarrow> pb_encoder" where
  "pb_encode_varint value stream =
     (if value \<le> 0x7F then pb_write stream [ucast value]
      else
        let buffer = varint_bytes value; i = length buffer
        in pb_write stream (buffer[i - 1 := buffer ! (i - 1) AND 0x7F]))"

definition pb_encode_svarint :: "u64 \<Rightarrow> pb_encoder" where
  "pb_encode_svarint value stream =
     (let zigzagged = (if sint value < 0 then NOT (push_bit 1 value) else push_bit 1 value)
      in pb_encode_varint zigzagged stream)"

definition pb_encode_fixed32 :: "u32 \<Rightarrow> pb_encoder" where
  "pb_encode_fixed32 val stream =
     pb_write stream [ucast (val AND 0xFF), ucast (drop_bit 8 val AND 0xFF), ucast (drop_bit 16 val AND 0xFF),
                      ucast (drop_bit 24 val AND 0xFF)]"

definition pb_encode_fixed64 :: "u64 \<Rightarrow> pb_encoder" where
  "pb_encode_fixed64 val stream =
     pb_write stream [ucast (val AND 0xFF), ucast (drop_bit 8 val AND 0xFF), ucast (drop_bit 16 val AND 0xFF),
                      ucast (drop_bit 24 val AND 0xFF), ucast (drop_bit 32 val AND 0xFF), ucast (drop_bit 40 val AND 0xFF),
                      ucast (drop_bit 48 val AND 0xFF), ucast (drop_bit 56 val AND 0xFF)]"

definition pb_encode_tag :: "pb_wire_type_t \<Rightarrow> u32 \<Rightarrow> pb_encoder" where
  "pb_encode_tag wiretype field_number stream =
     (let tag = push_bit 3 (ucast field_number) OR of_nat (wire_type_num wiretype)
      in pb_encode_varint tag stream)"

definition pb_encode_string :: "bytes \<Rightarrow> pb_encoder" where
  "pb_encode_string buffer stream =
     (case pb_encode_varint (of_nat (length buffer)) stream of
        (False, stream) \<Rightarrow> (False, stream)
      | (True, stream) \<Rightarrow> pb_write stream buffer)"


section \<open>Fields\<close>

text \<open>
  The parts of a field descriptor the codecs read.  A field in memory is the list of its
  \<open>data_size\<close> bytes, least significant first (the byte order of the platform).
\<close>

record pb_field_t =
  ftag :: u32
  ftype :: u8
  data_size :: nat

definition PB_LTYPE :: "u8 \<Rightarrow> u8" where
  "PB_LTYPE t = t AND 0x0F"

definition PB_ATYPE :: "u8 \<Rightarrow> u8" where
  "PB_ATYPE t = t AND 0xC0"

definition PB_ATYPE_STATIC :: u8 where
  "PB_ATYPE_STATIC = 0x00"

definition PB_ATYPE_POINTER :: u8 where
  "PB_ATYPE_POINTER = 0x80"

definition store_le :: "nat \<Rightarrow> u64 \<Rightarrow> bytes \<Rightarrow> bytes" where
  "store_le n v dest = map (\<lambda>i. ucast (drop_bit (8 * i) v)) [0..<n] @ drop n dest"

definition pb_encode_tag_for_field :: "pb_field_t \<Rightarrow> pb_encoder" where
  "pb_encode_tag_for_field field stream =
     (let l = PB_LTYPE (ftype field) in
      if l \<in> {0, 1, 2, 3} then pb_encode_tag PB_WT_VARINT (ftag field) stream
      else if l = 4 then pb_encode_tag PB_WT_32BIT (ftag field) stream
      else if l = 5 then pb_encode_tag PB_WT_64BIT (ftag field) stream
      else if l \<in> {6, 7, 8, 10} then pb_encode_tag PB_WT_STRING (ftag field) stream
      else oerror ''invalid field type'' stream)"

definition safe_read_bool :: "bytes \<Rightarrow> bool" where
  "safe_read_bool p = (p ! 0 \<noteq> 0)"

definition pb_enc_bool :: "pb_field_t \<Rightarrow> bytes \<Rightarrow> pb_encoder" where
  "pb_enc_bool field src stream = pb_encode_varint (if safe_read_bool src then 1 else 0) stream"

text \<open>The value of a sg integer of the field's size, sign-extended.\<close>

definition load_signed :: "nat \<Rightarrow> bytes \<Rightarrow> u64 option" where
  "load_signed n src =
     (if n = 1 then Some (scast (load_le (take 1 src) :: u8))
      else if n = 2 then Some (scast (load_le (take 2 src) :: u16))
      else if n = 4 then Some (scast (load_le (take 4 src) :: u32))
      else if n = 8 then Some (load_le (take 8 src))
      else None)"

definition load_unsigned :: "nat \<Rightarrow> bytes \<Rightarrow> u64 option" where
  "load_unsigned n src =
     (if n = 1 then Some (ucast (load_le (take 1 src) :: u8))
      else if n = 2 then Some (ucast (load_le (take 2 src) :: u16))
      else if n = 4 then Some (ucast (load_le (take 4 src) :: u32))
      else if n = 8 then Some (load_le (take 8 src))
      else None)"

definition pb_enc_varint :: "pb_field_t \<Rightarrow> bytes \<Rightarrow> pb_encoder" where
  "pb_enc_varint field src stream =
     (case load_signed (data_size field) src of
        None \<Rightarrow> oerror ''invalid data_size'' stream
      | Some value \<Rightarrow> pb_encode_varint value stream)"

definition pb_enc_uvarint :: "pb_field_t \<Rightarrow> bytes \<Rightarrow> pb_encoder" where
  "pb_enc_uvarint field src stream =
     (case load_unsigned (data_size field) src of
        None \<Rightarrow> oerror ''invalid data_size'' stream
      | Some value \<Rightarrow> pb_encode_varint value stream)"

definition pb_enc_svarint :: "pb_field_t \<Rightarrow> bytes \<Rightarrow> pb_encoder" where
  "pb_enc_svarint field src stream =
     (case load_signed (data_size field) src of
        None \<Rightarrow> oerror ''invalid data_size'' stream
      | Some value \<Rightarrow> pb_encode_svarint value stream)"

definition pb_enc_fixed64 :: "pb_field_t \<Rightarrow> bytes \<Rightarrow> pb_encoder" where
  "pb_enc_fixed64 field src stream = pb_encode_fixed64 (load_le (take 8 src)) stream"

definition pb_enc_fixed32 :: "pb_field_t \<Rightarrow> bytes \<Rightarrow> pb_encoder" where
  "pb_enc_fixed32 field src stream = pb_encode_fixed32 (load_le (take 4 src)) stream"

text \<open>A \<^verbatim>\<open>pb_bytes_array_t\<close> is its \<^verbatim>\<open>size\<close> and the bytes after it; a null pointer is \<open>None\<close>.\<close>

definition PB_BYTES_ARRAY_T_ALLOCSIZE :: "nat \<Rightarrow> nat" where
  "PB_BYTES_ARRAY_T_ALLOCSIZE n = size_add n 4"

definition pb_enc_bytes :: "pb_field_t \<Rightarrow> (u32 \<times> bytes) option \<Rightarrow> pb_encoder" where
  "pb_enc_bytes field src stream =
     (case src of
        None \<Rightarrow> pb_encode_string [] stream
      | Some (sz, bs) \<Rightarrow>
          (let allocsize = PB_BYTES_ARRAY_T_ALLOCSIZE (unat sz) in
           if allocsize < unat sz \<or> (PB_ATYPE (ftype field) = PB_ATYPE_STATIC \<and> allocsize > data_size field)
           then oerror ''bytes size exceeded'' stream
           else pb_encode_string (take (unat sz) bs) stream))"

definition pb_enc_string :: "pb_field_t \<Rightarrow> bytes option \<Rightarrow> pb_encoder" where
  "pb_enc_string field src stream =
     (let limit = (if PB_ATYPE (ftype field) = PB_ATYPE_POINTER then 2 ^ 64 - 1 else data_size field) in
      case src of
        None \<Rightarrow> pb_encode_string [] stream
      | Some p \<Rightarrow> pb_encode_string (take (OPENSSL_strnlen p limit) p) stream)"

definition pb_enc_fixed_length_bytes :: "pb_field_t \<Rightarrow> bytes \<Rightarrow> pb_encoder" where
  "pb_enc_fixed_length_bytes field src stream = pb_encode_string (take (data_size field) src) stream"

text \<open>A decoder yields success, the destination's bytes and the stream.\<close>

definition pb_dec_bool :: "pb_istream_t \<Rightarrow> bytes \<Rightarrow> bool \<times> bytes \<times> pb_istream_t" where
  "pb_dec_bool stream dest =
     (case pb_decode_varint32 stream of
        (None, stream) \<Rightarrow> (False, dest, stream)
      | (Some value, stream) \<Rightarrow> (True, store_le 1 (if value \<noteq> 0 then 1 else 0) dest, stream))"

definition pb_decode_bool :: "pb_istream_t \<Rightarrow> bytes \<Rightarrow> bool \<times> bytes \<times> pb_istream_t" where
  "pb_decode_bool stream dest = pb_dec_bool stream dest"

text \<open>The cast to the field's size: the value stored, and whether it is the one decoded.\<close>

definition clamp :: "bool \<Rightarrow> nat \<Rightarrow> u64 \<Rightarrow> u64 option" where
  "clamp sg n v =
     (if n = 8 then Some v
      else if n = 4 then Some (if sg then scast (ucast v :: u32) else ucast (ucast v :: u32))
      else if n = 2 then Some (if sg then scast (ucast v :: u16) else ucast (ucast v :: u16))
      else if n = 1 then Some (if sg then scast (ucast v :: u8) else ucast (ucast v :: u8))
      else None)"

definition store_checked :: "bool \<Rightarrow> nat \<Rightarrow> u64 \<Rightarrow> bytes \<Rightarrow> pb_istream_t \<Rightarrow> bool \<times> bytes \<times> pb_istream_t" where
  "store_checked sg n v dest stream =
     (case clamp sg n v of
        None \<Rightarrow> (False, dest, snd (ierror ''invalid data_size'' stream :: unit option \<times> pb_istream_t))
      | Some clamped \<Rightarrow>
          if clamped \<noteq> v
          then (False, store_le n v dest, snd (ierror ''integer too large'' stream :: unit option \<times> pb_istream_t))
          else (True, store_le n v dest, stream))"

definition pb_dec_varint :: "pb_istream_t \<Rightarrow> pb_field_t \<Rightarrow> bytes \<Rightarrow> bool \<times> bytes \<times> pb_istream_t" where
  "pb_dec_varint stream field dest =
     (case pb_decode_varint stream of
        (None, stream) \<Rightarrow> (False, dest, stream)
      | (Some value, stream) \<Rightarrow>
          (let svalue = (if data_size field = 8 then value else scast (ucast value :: u32))
           in store_checked True (data_size field) svalue dest stream))"

definition pb_dec_uvarint :: "pb_istream_t \<Rightarrow> pb_field_t \<Rightarrow> bytes \<Rightarrow> bool \<times> bytes \<times> pb_istream_t" where
  "pb_dec_uvarint stream field dest =
     (case pb_decode_varint stream of
        (None, stream) \<Rightarrow> (False, dest, stream)
      | (Some value, stream) \<Rightarrow> store_checked False (data_size field) value dest stream)"

definition pb_dec_svarint :: "pb_istream_t \<Rightarrow> pb_field_t \<Rightarrow> bytes \<Rightarrow> bool \<times> bytes \<times> pb_istream_t" where
  "pb_dec_svarint stream field dest =
     (case pb_decode_svarint stream of
        (None, stream) \<Rightarrow> (False, dest, stream)
      | (Some value, stream) \<Rightarrow> store_checked True (data_size field) value dest stream)"

definition pb_dec_fixed32 :: "pb_istream_t \<Rightarrow> bytes \<Rightarrow> bool \<times> bytes \<times> pb_istream_t" where
  "pb_dec_fixed32 stream dest =
     (case pb_decode_fixed32 stream of
        (None, stream) \<Rightarrow> (False, dest, stream)
      | (Some v, stream) \<Rightarrow> (True, store_le 4 (ucast v) dest, stream))"

definition pb_dec_fixed64 :: "pb_istream_t \<Rightarrow> bytes \<Rightarrow> bool \<times> bytes \<times> pb_istream_t" where
  "pb_dec_fixed64 stream dest =
     (case pb_decode_fixed64 stream of
        (None, stream) \<Rightarrow> (False, dest, stream)
      | (Some v, stream) \<Rightarrow> (True, store_le 8 v dest, stream))"


text \<open>
  \<^verbatim>\<open>allocate_field\<close> for the pointer \<open>ptr\<close> of a field: the block of \<open>array_size * data_size\<close> bytes.
  \<^verbatim>\<open>pb_realloc\<close> is the C library's \<^verbatim>\<open>realloc\<close>.
\<close>

definition pb_realloc :: "alloc_env \<Rightarrow> bytes option \<Rightarrow> nat \<Rightarrow> bytes option" where
  "pb_realloc E p n =
     (if \<not> can_alloc E n then None
      else let old = (case p of None \<Rightarrow> [] | Some d \<Rightarrow> d)
           in Some (take n old @ map (junk E) [length (take n old)..<n]))"

definition allocate_field :: "alloc_env \<Rightarrow> bytes option \<Rightarrow> nat \<Rightarrow> nat \<Rightarrow> pb_istream_t \<Rightarrow> bytes option \<times> pb_istream_t" where
  "allocate_field E p dsize array_size stream =
     (if dsize = 0 \<or> array_size = 0 then ierror ''invalid size'' stream
      else if (dsize \<ge> 2 ^ 32 \<or> array_size \<ge> 2 ^ 32) \<and> (2 ^ 64 - 1) div array_size < dsize
        then ierror ''size too large'' stream
      else
        case pb_realloc E p (size_mul array_size dsize) of
          None \<Rightarrow> ierror ''realloc failed'' stream
        | Some block \<Rightarrow> (Some block, stream))"

text \<open>The destination of a bytes or string field: its memory, or the pointer it holds.\<close>

datatype pb_dest = Static bytes | Pointer "bytes option"

definition pb_dec_bytes :: "alloc_env \<Rightarrow> pb_istream_t \<Rightarrow> pb_field_t \<Rightarrow> pb_dest \<Rightarrow> bool \<times> pb_dest \<times> pb_istream_t" where
  "pb_dec_bytes E stream field dest =
     (case pb_decode_varint32 stream of
        (None, stream) \<Rightarrow> (False, dest, stream)
      | (Some sz, stream) \<Rightarrow>
          (let alloc_size = PB_BYTES_ARRAY_T_ALLOCSIZE (unat sz);
               fail = (\<lambda>msg. (False, dest, snd (ierror msg stream :: unit option \<times> pb_istream_t)))
           in if unat sz > alloc_size then fail ''size too large''
              else
                case dest of
                  Pointer p \<Rightarrow>
                    if bytes_left stream < unat sz then fail ''end-of-stream''
                    else
                      (case allocate_field E p alloc_size 1 stream of
                         (None, stream) \<Rightarrow> (False, dest, stream)
                       | (Some block, stream) \<Rightarrow>
                           (case pb_read stream (unat sz) of
                              (None, stream) \<Rightarrow> (False, Pointer (Some (store_le 4 (ucast sz) block)), stream)
                            | (Some bs, stream) \<Rightarrow>
                                (True, Pointer (Some (write_at 4 bs (store_le 4 (ucast sz) block))), stream)))
                | Static d \<Rightarrow>
                    if alloc_size > data_size field then fail ''bytes overflow''
                    else
                      (case pb_read stream (unat sz) of
                         (None, stream) \<Rightarrow> (False, Static (store_le 4 (ucast sz) d), stream)
                       | (Some bs, stream) \<Rightarrow> (True, Static (write_at 4 bs (store_le 4 (ucast sz) d)), stream))))"

definition read_string :: "pb_istream_t \<Rightarrow> nat \<Rightarrow> bytes \<Rightarrow> bool \<times> bytes \<times> pb_istream_t" where
  "read_string stream n d =
     (case pb_read stream n of
        (None, stream) \<Rightarrow> (False, d[n := 0], stream)
      | (Some bs, stream) \<Rightarrow> (True, (write_at 0 bs d)[n := 0], stream))"

definition pb_dec_string :: "alloc_env \<Rightarrow> pb_istream_t \<Rightarrow> pb_field_t \<Rightarrow> pb_dest \<Rightarrow> bool \<times> pb_dest \<times> pb_istream_t" where
  "pb_dec_string E stream field dest =
     (case pb_decode_varint32 stream of
        (None, stream) \<Rightarrow> (False, dest, stream)
      | (Some sz, stream) \<Rightarrow>
          (let alloc_size = unat (sz + 1);
               fail = (\<lambda>msg. (False, dest, snd (ierror msg stream :: unit option \<times> pb_istream_t)))
           in if alloc_size < unat sz then fail ''size too large''
              else
                case dest of
                  Pointer p \<Rightarrow>
                    if bytes_left stream < unat sz then fail ''end-of-stream''
                    else
                      (case allocate_field E p alloc_size 1 stream of
                         (None, stream) \<Rightarrow> (False, dest, stream)
                       | (Some block, stream) \<Rightarrow>
                           (case read_string stream (unat sz) block of
                              (ok, d, stream) \<Rightarrow> (ok, Pointer (Some d), stream)))
                | Static d \<Rightarrow>
                    if alloc_size > data_size field then fail ''string overflow''
                    else
                      (case read_string stream (unat sz) d of
                         (ok, d, stream) \<Rightarrow> (ok, Static d, stream))))"

definition pb_dec_fixed_length_bytes :: "pb_istream_t \<Rightarrow> pb_field_t \<Rightarrow> bytes \<Rightarrow> bool \<times> bytes \<times> pb_istream_t" where
  "pb_dec_fixed_length_bytes stream field dest =
     (case pb_decode_varint32 stream of
        (None, stream) \<Rightarrow> (False, dest, stream)
      | (Some sz, stream) \<Rightarrow>
          if sz = 0 then (True, write_at 0 (replicate (data_size field) 0) dest, stream)
          else if unat sz \<noteq> data_size field
            then (False, dest, snd (ierror ''incorrect fixed length bytes size'' stream :: unit option \<times> pb_istream_t))
          else
            case pb_read stream (data_size field) of
              (None, stream) \<Rightarrow> (False, dest, stream)
            | (Some bs, stream) \<Rightarrow> (True, write_at 0 bs dest, stream))"

end
