(* ===== verification/Nanopb_Codec.thy ===== *)
theory Nanopb_Codec
  imports Nanopb CBB_Writers
begin

text \<open>
  What the wire format layer guarantees.  \<open>reads\<close> and \<open>emits\<close> state that a decoder takes, and an
  encoder gives, certain bytes; the locale \<open>pb_codec\<close> pairs them, and its interpretations for
  the number formats give round trips, sizes and the refusal of small buffers.
  \<^item> \<open>varint_loop_reads\<close>, \<open>varint32_loop_reads\<close>, \<open>varint_bytes_eq\<close>: the varint loops.
  \<^item> \<open>pb_decode_tag_reads\<close>, \<open>pb_skip_field_reads\<close>, \<open>substream_ok\<close>: tags, skipping, substreams.
  \<^item> \<open>pb_dec_varint_enc\<close> and its siblings: integer fields of every size.
  \<^item> \<open>varint32_wraps\<close>: the bit position of the 32-bit decoder wraps around.
\<close>

section \<open>Varints\<close>

text \<open>The encoding: groups of seven bits, least significant first, with a continuation bit.\<close>

fun varint :: "nat \<Rightarrow> bytes" where
  "varint n = (if n < 128 then [of_nat n] else of_nat (n mod 128 + 128) # varint (n div 128))"

declare varint.simps [simp del]

lemma varint_small: "n < 128 \<Longrightarrow> varint n = [of_nat n]"
  by (simp add: varint.simps)

lemma varint_big: "128 \<le> n \<Longrightarrow> varint n = of_nat (n mod 128 + 128) # varint (n div 128)"
  by (subst varint.simps) simp

lemma varint_nonempty [simp]: "varint n \<noteq> []"
  by (subst varint.simps) simp

lemma length_varint: "n < 128 ^ k \<Longrightarrow> 0 < k \<Longrightarrow> length (varint n) \<le> k"
proof (induction k arbitrary: n)
  case (Suc k)
  show ?case
  proof (cases "n < 128")
    case True
    then show ?thesis by (simp add: varint_small)
  next
    case False
    then have "n div 128 < 128 ^ k" using Suc.prems(1) by (simp add: less_mult_imp_div_less mult.commute)
    moreover have "0 < k" using False Suc.prems(1) by (cases k) auto
    ultimately show ?thesis using Suc.IH False by (simp add: varint_big)
  qed
qed simp

text \<open>What the stream gives and how it moves.\<close>

definition consume :: "nat \<Rightarrow> pb_istream_t \<Rightarrow> pb_istream_t" where
  "consume n s = s\<lparr>istate := drop n (istate s), bytes_left := bytes_left s - n\<rparr>"

lemma consume_sel [simp]:
  "istate (consume n s) = drop n (istate s)" "bytes_left (consume n s) = bytes_left s - n"
  "ierrmsg (consume n s) = ierrmsg s"
  by (simp_all add: consume_def)

lemma consume_consume [simp]: "consume m (consume n s) = consume (n + m) s"
  by (simp add: consume_def add.commute)

lemma consume_0 [simp]: "consume 0 s = s"
  by (simp add: consume_def)

lemma pb_read_ok: "n \<le> bytes_left s \<Longrightarrow> pb_read s n = (Some (take n (istate s)), consume n s)"
  by (auto simp: pb_read_def buf_read_def consume_def)

lemma pb_readbyte_ok: "0 < bytes_left s \<Longrightarrow> istate s = b # rest \<Longrightarrow> pb_readbyte s = (Some b, consume 1 s)"
  by (auto simp: pb_readbyte_def buf_read_def consume_def)

definition reads :: "(pb_istream_t \<Rightarrow> 'a option \<times> pb_istream_t) \<Rightarrow> bytes \<Rightarrow> 'a \<Rightarrow> bool" where
  "reads dec xs v \<longleftrightarrow>
     (\<forall>s rest. istate s = xs @ rest \<longrightarrow> length xs \<le> bytes_left s \<longrightarrow> dec s = (Some v, consume (length xs) s))"

lemma readsI:
  "(\<And>s rest. istate s = xs @ rest \<Longrightarrow> length xs \<le> bytes_left s \<Longrightarrow> dec s = (Some v, consume (length xs) s)) \<Longrightarrow> reads dec xs v"
  by (simp add: reads_def)

lemma readsD: "reads dec xs v \<Longrightarrow> istate s = xs @ rest \<Longrightarrow> length xs \<le> bytes_left s \<Longrightarrow> dec s = (Some v, consume (length xs) s)"
  by (simp add: reads_def)

lemma group_or:
  fixes r :: "'a::len word" and b :: u8
  assumes "8 \<le> LENGTH('a)" "unat r < 2 ^ n" "(unat b mod 128) * 2 ^ n < 2 ^ LENGTH('a)"
  shows "unat (r OR push_bit n (ucast (b AND 0x7F))) = unat r + (unat b mod 128) * 2 ^ n"
proof -
  have u: "unat (ucast (b AND 0x7F) :: 'a word) = unat b mod 128"
    using assms(1) by (simp add: unat_ucast_up unat_and_7f)
  then have "unat (push_bit n (ucast (b AND 0x7F)) OR r) = (unat b mod 128) * 2 ^ n + unat r"
    using push_or_disjoint [of r n "ucast (b AND 0x7F)"] assms(2,3) by simp
  then show ?thesis by (simp only: or.commute [of r] add.commute)
qed

lemma varint_byte: "unat (of_nat (n mod 128 + 128) :: u8) = n mod 128 + 128" "unat (of_nat (n mod 128) :: u8) = n mod 128"
proof -
  have "n mod 128 < 128" by simp
  then have "n mod 128 + 128 < 256" "n mod 128 < 256" by linarith+
  then show "unat (of_nat (n mod 128 + 128) :: u8) = n mod 128 + 128" "unat (of_nat (n mod 128) :: u8) = n mod 128"
    by (simp_all only: unat_of_nat_u8 mod_less)
qed

lemma group_bound: "r + n * 2 ^ k < (2::nat) ^ l \<Longrightarrow> 0 < n \<Longrightarrow> k < l"
proof (rule ccontr)
  assume a: "r + n * 2 ^ k < 2 ^ l" "0 < n" "\<not> k < l"
  then have "(2::nat) ^ l \<le> 2 ^ k" by (intro power_increasing) auto
  also have "\<dots> \<le> n * 2 ^ k" using a(2) by simp
  finally show False using a(1) by simp
qed

lemma group_split: "r + n * 2 ^ (7 * k) = (r + n mod 128 * 2 ^ (7 * k)) + n div 128 * 2 ^ (7 * Suc k)" for n :: nat
proof -
  have "n * 2 ^ (7 * k) = (n div 128 * 128 + n mod 128) * 2 ^ (7 * k)" by simp
  also have "\<dots> = n div 128 * 2 ^ (7 * Suc k) + n mod 128 * 2 ^ (7 * k)"
    by (simp only: distrib_right mult_Suc_right power_add) simp
  finally show ?thesis by simp
qed

lemma group_lt: "r < 2 ^ (7 * k) \<Longrightarrow> r + n mod 128 * 2 ^ (7 * k) < (2::nat) ^ (7 * Suc k)"
proof -
  assume r: "r < 2 ^ (7 * k)"
  have "n mod 128 \<le> 127" using mod_less_divisor [of 128 n] by linarith
  then have "n mod 128 * 2 ^ (7 * k) \<le> 127 * 2 ^ (7 * k)" by (rule mult_le_mono1)
  then have "r + n mod 128 * 2 ^ (7 * k) < 2 ^ (7 * k) + 127 * 2 ^ (7 * k)" using r by linarith
  also have "\<dots> = 2 ^ (7 * Suc k)" by (simp add: power_add)
  finally show ?thesis .
qed


lemma mod_128_add: "(n mod 128 + 128) mod 128 = n mod (128::nat)"
  by simp

text \<open>One round of the loop, for a word of either width.\<close>

lemma varint_group:
  fixes r :: "'a::len word" and b :: u8
  assumes w: "8 \<le> LENGTH('a)" and r: "unat r < 2 ^ (7 * k)" and n: "unat r + n * 2 ^ (7 * k) < 2 ^ LENGTH('a)"
    and b: "unat b mod 128 = n mod 128"
  shows "unat (r OR push_bit (7 * k) (ucast (b AND 0x7F))) = unat r + n mod 128 * 2 ^ (7 * k)"
proof -
  have "n mod 128 * 2 ^ (7 * k) \<le> n * 2 ^ (7 * k)" by (intro mult_le_mono1) simp
  then have "n mod 128 * 2 ^ (7 * k) < 2 ^ LENGTH('a)" using n by linarith
  then have "unat b mod 128 * 2 ^ (7 * k) < 2 ^ LENGTH('a)" by (simp only: b)
  from group_or [OF w r this] show ?thesis using b by simp
qed

lemma varint_loop_reads:
  "unat r < 2 ^ (7 * k) \<Longrightarrow> unat bitpos = 7 * k \<Longrightarrow> 7 * k < 64 \<Longrightarrow> unat r + n * 2 ^ (7 * k) < 2 ^ 64 \<Longrightarrow>
   istate s = varint n @ rest \<Longrightarrow> length (varint n) \<le> bytes_left s \<Longrightarrow>
   varint_loop r bitpos s = (Some (of_nat (unat r + n * 2 ^ (7 * k))), consume (length (varint n)) s)"
proof (induction n arbitrary: r bitpos k s rule: varint.induct)
  case (1 n)
  have bp: "\<not> bitpos \<ge> 64" using "1.prems"(2,3) by (simp add: word_le_nat_alt)
  show ?case
  proof (cases "n < 128")
    case True
    have b: "pb_readbyte s = (Some (of_nat n), consume 1 s)"
      using "1.prems"(5,6) True by (intro pb_readbyte_ok) (auto simp: varint_small)
    have nb: "unat (of_nat n :: u8) = n" using True by (simp add: unat_of_nat_u8)
    have "unat (r OR push_bit (7 * k) (ucast ((of_nat n :: u8) AND 0x7F))) = unat r + n * 2 ^ (7 * k)"
      using varint_group [of r k n "of_nat n"] "1.prems"(1,4) True by (simp only: nb) simp
    then have "r OR push_bit (7 * k) (ucast ((of_nat n :: u8) AND 0x7F)) = of_nat (unat r + n * 2 ^ (7 * k))"
      by (metis of_nat_unat_id)
    moreover have "(of_nat n :: u8) AND 0x80 = 0" using nb True by (simp only: u8_high_bit)
    ultimately show ?thesis
      using bp "1.prems"(2) True by (subst varint_loop.simps) (simp add: b varint_small)
  next
    case False
    define b :: u8 where "b = of_nat (n mod 128 + 128)"
    have ub: "unat b = n mod 128 + 128" by (simp only: b_def varint_byte)
    define r' where "r' = r OR push_bit (7 * k) (ucast (b AND 0x7F))"
    have v: "varint n = b # varint (n div 128)" using False by (simp add: varint_big b_def)
    have rb: "pb_readbyte s = (Some b, consume 1 s)"
      using "1.prems"(5,6) v by (intro pb_readbyte_ok) auto
    have r': "unat r' = unat r + n mod 128 * 2 ^ (7 * k)"
      unfolding r'_def using "1.prems"(1,4) ub mod_128_add by (intro varint_group) simp_all
    have tot: "unat r' + n div 128 * 2 ^ (7 * Suc k) = unat r + n * 2 ^ (7 * k)"
      using group_split [of "unat r" n k] r' by simp
    have "unat r' + n div 128 * 2 ^ (7 * Suc k) < 2 ^ 64" using "1.prems"(4) by (simp only: tot)
    moreover have "0 < n div 128" using False by (simp add: div_greater_zero_iff)
    ultimately have k: "7 * Suc k < 64" by (rule group_bound)
    have bp': "unat (bitpos + 7) = 7 * Suc k"
      using "1.prems"(2) k by (simp add: unat_word_ariths)
    have lt: "unat r' < 2 ^ (7 * Suc k)" using group_lt [OF "1.prems"(1), of n] r' by simp
    have "b AND 0x80 \<noteq> 0" using ub by (simp add: u8_high_bit)
    then have "varint_loop r bitpos s = varint_loop r' (bitpos + 7) (consume 1 s)"
      using bp "1.prems"(2) by (subst varint_loop.simps) (simp add: rb r'_def)
    also have "\<dots> = (Some (of_nat (unat r' + n div 128 * 2 ^ (7 * Suc k))), consume (length (varint (n div 128))) (consume 1 s))"
      using "1.prems"(4,5,6) v tot False
      by (intro "1.IH" [OF _ lt bp' k]) auto
    finally show ?thesis by (simp only: tot v) simp
  qed
qed

lemma pb_decode_varint_reads: "reads pb_decode_varint (varint (unat v)) v"
proof (rule readsI)
  fix s :: pb_istream_t and rest
  assume a: "istate s = varint (unat v) @ rest" "length (varint (unat v)) \<le> bytes_left s"
  have "unat v < 2 ^ 64" using unsigned_less [of v, where 'a = nat] by simp
  with varint_loop_reads [of 0 0 0 "unat v" s rest] a
  show "pb_decode_varint s = (Some v, consume (length (varint (unat v))) s)"
    by (simp add: pb_decode_varint_def)
qed


lemma and_0x70: "unat (b :: u8) < 16 \<Longrightarrow> b AND 0x70 = 0"
proof -
  assume "unat b < 16"
  then have "unat (b AND 0x0F) = unat b" using unat_and_mask [of b 4] by (simp add: mask_numeral)
  then have "b AND 0x70 = (b AND 0x0F) AND 0x70" by (metis word_unat_eq_iff)
  then show ?thesis by (simp add: and.assoc)
qed

lemma varint32_loop_reads:
  "unat r < 2 ^ (7 * k) \<Longrightarrow> unat bitpos = 7 * k \<Longrightarrow> 7 * k < 32 \<Longrightarrow> unat r + n * 2 ^ (7 * k) < 2 ^ 32 \<Longrightarrow>
   istate s = varint n @ rest \<Longrightarrow> length (varint n) \<le> bytes_left s \<Longrightarrow>
   \<exists>bp b. varint32_loop r bitpos s = (Some (of_nat (unat r + n * 2 ^ (7 * k)), bp, b), consume (length (varint n)) s)
     \<and> (bp = 35 \<longrightarrow> b AND 0x70 = 0)"
proof (induction n arbitrary: r bitpos k s rule: varint.induct)
  case (1 n)
  have bp: "\<not> bitpos \<ge> 32" using "1.prems"(2,3) by (simp add: word_le_nat_alt)
  show ?case
  proof (cases "n < 128")
    case True
    have b: "pb_readbyte s = (Some (of_nat n), consume 1 s)"
      using "1.prems"(5,6) True by (intro pb_readbyte_ok) (auto simp: varint_small)
    have nb: "unat (of_nat n :: u8) = n" using True by (simp add: unat_of_nat_u8)
    have "unat (r OR push_bit (7 * k) (ucast ((of_nat n :: u8) AND 0x7F))) = unat r + n * 2 ^ (7 * k)"
      using varint_group [of r k n "of_nat n"] "1.prems"(1,4) True by (simp only: nb) simp
    then have "r OR push_bit (7 * k) (ucast ((of_nat n :: u8) AND 0x7F)) = of_nat (unat r + n * 2 ^ (7 * k))"
      by (metis of_nat_unat_id)
    moreover have "(of_nat n :: u8) AND 0x80 = 0" using nb True by (simp only: u8_high_bit)
    ultimately have step: "varint32_loop r bitpos s = (Some (of_nat (unat r + n * 2 ^ (7 * k)), bitpos + 7, of_nat n), consume 1 s)"
      using bp "1.prems"(2) by (subst varint32_loop.simps) (simp add: b)
    have "(of_nat n :: u8) AND 0x70 = 0" if "bitpos + 7 = 35"
    proof -
      have "unat (bitpos + 7) = 7 * k + 7" using "1.prems"(2,3) by (simp add: unat_word_ariths)
      then have "k = 4" using that by simp
      then have "n < 16" using "1.prems"(4) by simp
      then show ?thesis using nb by (intro and_0x70) simp
    qed
    then show ?thesis using step True by (auto simp: varint_small)
  next
    case False
    define b :: u8 where "b = of_nat (n mod 128 + 128)"
    have ub: "unat b = n mod 128 + 128" by (simp only: b_def varint_byte)
    define r' where "r' = r OR push_bit (7 * k) (ucast (b AND 0x7F))"
    have v: "varint n = b # varint (n div 128)" using False by (simp add: varint_big b_def)
    have rb: "pb_readbyte s = (Some b, consume 1 s)"
      using "1.prems"(5,6) v by (intro pb_readbyte_ok) auto
    have r': "unat r' = unat r + n mod 128 * 2 ^ (7 * k)"
      unfolding r'_def using "1.prems"(1,4) ub mod_128_add by (intro varint_group) simp_all
    have tot: "unat r' + n div 128 * 2 ^ (7 * Suc k) = unat r + n * 2 ^ (7 * k)"
      using group_split [of "unat r" n k] r' by simp
    have lt32: "unat r' + n div 128 * 2 ^ (7 * Suc k) < 2 ^ 32" using "1.prems"(4) by (simp only: tot)
    moreover have "0 < n div 128" using False by (simp add: div_greater_zero_iff)
    ultimately have k: "7 * Suc k < 32" by (rule group_bound)
    have bp': "unat (bitpos + 7) = 7 * Suc k"
      using "1.prems"(2) k by (simp add: unat_word_ariths)
    have lt: "unat r' < 2 ^ (7 * Suc k)" using group_lt [OF "1.prems"(1), of n] r' by simp
    have "b AND 0x80 \<noteq> 0" using ub by (simp add: u8_high_bit)
    then have "varint32_loop r bitpos s = varint32_loop r' (bitpos + 7) (consume 1 s)"
      using bp "1.prems"(2) by (subst varint32_loop.simps) (simp add: rb r'_def)
    moreover have "istate (consume 1 s) = varint (n div 128) @ rest" "length (varint (n div 128)) \<le> bytes_left (consume 1 s)"
      using "1.prems"(5,6) v by auto
    note "1.IH" [OF False lt bp' k lt32 this]
    ultimately show ?thesis by (simp only: tot v) simp
  qed
qed

lemma pb_decode_varint32_eof_reads:
  assumes "istate s = varint (unat v) @ rest" "length (varint (unat v)) \<le> bytes_left s"
  shows "pb_decode_varint32_eof s = (Some v, False, consume (length (varint (unat v))) s)"
proof (cases "unat v < 128")
  case True
  have b: "pb_readbyte s = (Some (of_nat (unat v)), consume 1 s)"
    using assms True by (intro pb_readbyte_ok) (auto simp: varint_small)
  have nb: "unat (of_nat (unat v) :: u8) = unat v" using True by (simp only: unat_of_nat_u8) simp
  then have "(of_nat (unat v) :: u8) AND 0x80 = 0" using True by (simp only: u8_high_bit)
  moreover have "ucast (of_nat (unat v) :: u8) = v" using nb by (simp add: word_unat_eq_iff unat_ucast_up)
  ultimately show ?thesis using True by (simp add: pb_decode_varint32_eof_def b varint_small)
next
  case False
  define n where "n = unat v"
  define b :: u8 where "b = of_nat (n mod 128 + 128)"
  have ub: "unat b = n mod 128 + 128" by (simp only: b_def varint_byte)
  have v: "varint n = b # varint (n div 128)" using False by (simp add: varint_big b_def n_def)
  have rb: "pb_readbyte s = (Some b, consume 1 s)"
    using assms v by (intro pb_readbyte_ok) (auto simp: n_def)
  have hb: "b AND 0x80 \<noteq> 0" using ub by (simp add: u8_high_bit)
  have r: "unat (ucast (b AND 0x7F) :: u32) = n mod 128"
    using ub mod_128_add by (simp add: unat_ucast_up unat_and_7f)
  have n32: "n < 2 ^ 32" unfolding n_def using unsigned_less [of v, where 'a = nat] by simp
  have e: "n mod 128 + n div 128 * 2 ^ (7 * 1) = n" by simp
  have "istate (consume 1 s) = varint (n div 128) @ rest" "length (varint (n div 128)) \<le> bytes_left (consume 1 s)"
    using assms v by (auto simp: n_def)
  from varint32_loop_reads [of "ucast (b AND 0x7F)" 1 7 "n div 128" "consume 1 s" rest, unfolded r e, OF _ _ _ n32 this]
  obtain bp c where "varint32_loop (ucast (b AND 0x7F)) 7 (consume 1 s)
      = (Some (of_nat n, bp, c), consume (length (varint (n div 128))) (consume 1 s))" "bp = 35 \<longrightarrow> c AND 0x70 = 0"
    by auto
  then have "pb_decode_varint32_eof s = (Some (of_nat n), False, consume (length (varint (n div 128))) (consume 1 s))"
    using hb by (auto simp: pb_decode_varint32_eof_def rb)
  then show ?thesis using v by (simp add: n_def)
qed

lemma pb_decode_varint32_reads: "reads pb_decode_varint32 (varint (unat v)) v"
  by (rule readsI) (simp add: pb_decode_varint32_def pb_decode_varint32_eof_reads)


section \<open>Writing\<close>

definition ostream_ok :: "pb_ostream_t \<Rightarrow> bool" where
  "ostream_ok s \<longleftrightarrow> max_size s < 2 ^ 64 \<and> bytes_written s < 2 ^ 64
     \<and> (ocallback s \<longrightarrow> bytes_written s \<le> max_size s \<and> opos s + (max_size s - bytes_written s) \<le> length (obuf s))"

definition fits :: "pb_ostream_t \<Rightarrow> nat \<Rightarrow> bool" where
  "fits s n \<longleftrightarrow> (if ocallback s then bytes_written s + n \<le> max_size s else bytes_written s + n < 2 ^ 64)"

definition advance :: "pb_ostream_t \<Rightarrow> bytes \<Rightarrow> pb_ostream_t" where
  "advance s xs =
     (if ocallback s
      then s\<lparr>opos := opos s + length xs, obuf := write_at (opos s) xs (obuf s), bytes_written := bytes_written s + length xs\<rparr>
      else s\<lparr>bytes_written := bytes_written s + length xs\<rparr>)"

definition emits :: "pb_encoder \<Rightarrow> bytes \<Rightarrow> bool" where
  "emits f xs \<longleftrightarrow>
     (\<forall>s. ostream_ok s \<longrightarrow> (fits s (length xs) \<longrightarrow> f s = (True, advance s xs))
        \<and> (ocallback s \<and> \<not> fits s (length xs) \<longrightarrow> \<not> fst (f s)))"

lemma emitsI:
  assumes "\<And>s. ostream_ok s \<Longrightarrow> fits s (length xs) \<Longrightarrow> f s = (True, advance s xs)"
    and "\<And>s. ostream_ok s \<Longrightarrow> ocallback s \<Longrightarrow> \<not> fits s (length xs) \<Longrightarrow> \<not> fst (f s)"
  shows "emits f xs"
  using assms by (simp add: emits_def)

lemma emits_fits: "emits f xs \<Longrightarrow> ostream_ok s \<Longrightarrow> fits s (length xs) \<Longrightarrow> f s = (True, advance s xs)"
  by (simp add: emits_def)

lemma emits_full: "emits f xs \<Longrightarrow> ostream_ok s \<Longrightarrow> ocallback s \<Longrightarrow> \<not> fits s (length xs) \<Longrightarrow> \<not> fst (f s)"
  by (simp add: emits_def)

lemma advance_ok: "ostream_ok s \<Longrightarrow> fits s (length xs) \<Longrightarrow> ostream_ok (advance s xs)"
  by (auto simp: ostream_ok_def fits_def advance_def length_write_at split: if_splits)

lemma advance_Nil: "advance s [] = s"
  by (simp add: advance_def write_at_def)

lemma write_at_append:
  assumes "p + length xs + length ys \<le> length b"
  shows "write_at (p + length xs) ys (write_at p xs b) = write_at p (xs @ ys) b"
  using assms by (cases "xs = []") (auto simp: write_at_def min_def ac_simps neq_Nil_conv)

lemma advance_append:
  assumes "ostream_ok s" "fits s (length (xs @ ys))"
  shows "advance (advance s xs) ys = advance s (xs @ ys)"
proof (cases "ocallback s")
  case True
  then have "opos s + length xs + length ys \<le> length (obuf s)"
    using assms by (auto simp: ostream_ok_def fits_def)
  then show ?thesis using True by (simp add: advance_def write_at_append add.assoc)
qed (simp add: advance_def add.assoc)

lemma emits_write: "length bs < 2 ^ 64 \<Longrightarrow> emits (\<lambda>s. pb_write s bs) bs"
proof (rule emitsI)
  fix s
  assume a: "ostream_ok s" "fits s (length bs)"
  then have "bytes_written s + length bs < 2 ^ 64" by (auto simp: ostream_ok_def fits_def split: if_splits)
  then have "size_add (bytes_written s) (length bs) = bytes_written s + length bs" by (rule size_add_small)
  then show "pb_write s bs = (True, advance s bs)"
    using a by (auto simp: pb_write_def buf_write_def advance_def fits_def Let_def write_at_def)
next
  fix s
  assume l: "length bs < 2 ^ 64" and a: "ostream_ok s" "ocallback s" "\<not> fits s (length bs)"
  have big: "max_size s < bytes_written s + length bs" using a by (simp add: fits_def)
  have "0 < length bs" using a by (auto simp: fits_def ostream_ok_def)
  moreover have "size_add (bytes_written s) (length bs) < bytes_written s
      \<or> max_size s < size_add (bytes_written s) (length bs)"
  proof (cases "bytes_written s + length bs < 2 ^ 64")
    case True
    then show ?thesis using big by (simp add: size_add_small)
  next
    case False
    then show ?thesis using size_add_overflow_iff [of "bytes_written s" "length bs"] l a(1) by (simp add: ostream_ok_def)
  qed
  ultimately show "\<not> fst (pb_write s bs)" using a(2) by (auto simp: pb_write_def oerror_def Let_def)
qed

lemma emits_cong: "emits f xs \<Longrightarrow> (\<And>s. g s = f s) \<Longrightarrow> emits g xs"
  by (simp add: emits_def)

text \<open>Encoders in sequence.\<close>

definition and_then :: "pb_encoder \<Rightarrow> pb_encoder \<Rightarrow> pb_encoder" where
  "and_then f g s = (case f s of (False, s) \<Rightarrow> (False, s) | (True, s) \<Rightarrow> g s)"

lemma emits_and_then:
  assumes f: "emits f xs" and g: "emits g ys"
  shows "emits (and_then f g) (xs @ ys)"
proof (rule emitsI)
  fix s
  assume a: "ostream_ok s" "fits s (length (xs @ ys))"
  then have x: "fits s (length xs)" by (auto simp: fits_def split: if_splits)
  then have "fits (advance s xs) (length ys)" using a by (auto simp: fits_def advance_def split: if_splits)
  then show "and_then f g s = (True, advance s (xs @ ys))"
    using emits_fits [OF f a(1) x] emits_fits [OF g advance_ok [OF a(1) x]] advance_append [OF a]
    by (simp add: and_then_def)
next
  fix s
  assume a: "ostream_ok s" "ocallback s" "\<not> fits s (length (xs @ ys))"
  show "\<not> fst (and_then f g s)"
  proof (cases "fits s (length xs)")
    case True
    have "\<not> fits (advance s xs) (length ys)" "ocallback (advance s xs)" using a True by (auto simp: fits_def advance_def)
    then show ?thesis
      using emits_fits [OF f a(1) True] emits_full [OF g advance_ok [OF a(1) True]] by (simp add: and_then_def)
  next
    case False
    then show ?thesis using emits_full [OF f a(1,2)] by (auto simp: and_then_def split: prod.splits bool.splits)
  qed
qed

lemma varint_bytes_0: "varint_bytes 0 = []"
  by (simp add: varint_bytes.simps)

lemma varint_bytes_step: "v \<noteq> 0 \<Longrightarrow> varint_bytes v = ucast ((v AND 0x7F) OR 0x80) # varint_bytes (drop_bit 7 v)"
  by (subst varint_bytes.simps) simp

lemma varint_bytes_nonempty: "v \<noteq> 0 \<Longrightarrow> varint_bytes v \<noteq> []"
  by (simp add: varint_bytes_step)

lemma group_byte: "ucast (((v :: u64) AND 0x7F) OR 0x80) = (of_nat (unat v mod 128 + 128) :: u8)"
proof -
  have "unat (push_bit 7 (1 :: u64) OR (v AND 0x7F)) = unat (1 :: u64) * 2 ^ 7 + unat (v AND 0x7F)"
    by (intro push_or_disjoint) (simp_all add: unat_and_7f)
  then have "unat ((v AND 0x7F) OR 0x80) = unat v mod 128 + 128"
    by (simp add: unat_and_7f or.commute)
  then show ?thesis by (metis of_nat_unat_ucast)
qed

definition clear_last :: "bytes \<Rightarrow> bytes" where
  "clear_last bs = bs[length bs - 1 := bs ! (length bs - 1) AND 0x7F]"

lemma clear_last_Cons: "bs \<noteq> [] \<Longrightarrow> clear_last (b # bs) = b # clear_last bs"
  by (cases bs) (auto simp: clear_last_def)

lemma varint_bytes_eq: "v \<noteq> 0 \<Longrightarrow> clear_last (varint_bytes v) = varint (unat v)"
proof (induction v rule: varint_bytes.induct)
  case (1 v)
  have d: "unat (drop_bit 7 v) = unat v div 128" using unat_div_drop_bit [of v 7] by simp
  show ?case
  proof (cases "unat v < 128")
    case True
    then have "drop_bit 7 v = 0" using d by (simp add: word_unat_eq_iff)
    then have "varint_bytes v = [of_nat (unat v mod 128 + 128)]"
      using "1.prems" group_byte [of v] by (simp add: varint_bytes_step varint_bytes_0)
    moreover have "(of_nat (unat v mod 128 + 128) :: u8) AND 0x7F = of_nat (unat v)"
    proof -
      have "unat ((of_nat (unat v mod 128 + 128) :: u8) AND 0x7F) = unat v"
        by (simp only: unat_and_7f varint_byte mod_128_add) (use True in simp)
      then show ?thesis by (metis of_nat_unat_id)
    qed
    ultimately show ?thesis using True by (simp add: clear_last_def varint_small)
  next
    case False
    then have nz: "drop_bit 7 v \<noteq> 0" using d by (auto simp: word_unat_eq_iff div_eq_0_iff)
    have "clear_last (varint_bytes v) = of_nat (unat v mod 128 + 128) # clear_last (varint_bytes (drop_bit 7 v))"
      using "1.prems" nz by (simp only: varint_bytes_step [OF "1.prems"] group_byte clear_last_Cons varint_bytes_nonempty not_False_eq_True)
    also have "\<dots> = of_nat (unat v mod 128 + 128) # varint (unat v div 128)"
      using "1.IH" [OF "1.prems" nz] d by simp
    finally show ?thesis using False by (simp add: varint_big)
  qed
qed

lemma pb_encode_varint_eq: "pb_encode_varint v s = pb_write s (varint (unat v))"
proof (cases "v \<le> 0x7F")
  case True
  then have "unat v < 128" by (simp add: word_le_nat_alt)
  then show ?thesis using True by (simp add: pb_encode_varint_def varint_small of_nat_unat_ucast)
next
  case False
  then have "v \<noteq> 0" by auto
  then show ?thesis using False varint_bytes_eq [of v] by (simp add: pb_encode_varint_def clear_last_def Let_def)
qed

lemma length_varint_u64: "length (varint (unat (v :: u64))) \<le> 10"
proof -
  have "unat v < 2 ^ 64" using unsigned_less [of v, where 'a = nat] by simp
  then show ?thesis by (intro length_varint) simp_all
qed

lemma emits_varint: "emits (pb_encode_varint v) (varint (unat v))"
  using length_varint_u64 [of v] by (intro emits_cong [OF emits_write pb_encode_varint_eq]) simp


section \<open>Codecs\<close>

text \<open>
  An encoder and a decoder that agree on the bytes of a value.  Writing a value into a buffer
  that is large enough and reading the buffer gives it back, and a sizing stream counts the
  bytes that writing it takes.
\<close>

locale pb_codec =
  fixes enc :: "'a \<Rightarrow> pb_encoder"
    and dec :: "pb_istream_t \<Rightarrow> 'a option \<times> pb_istream_t"
    and wire :: "'a \<Rightarrow> bytes"
    and valid :: "'a \<Rightarrow> bool"
  assumes emits: "valid x \<Longrightarrow> emits (enc x) (wire x)"
    and reads: "valid x \<Longrightarrow> reads dec (wire x) x"
begin

lemma sizing:
  assumes "valid x" "length (wire x) < 2 ^ 64"
  shows "enc x PB_OSTREAM_SIZING = (True, PB_OSTREAM_SIZING\<lparr>bytes_written := length (wire x)\<rparr>)"
  using emits_fits [OF emits [OF assms(1)], of PB_OSTREAM_SIZING] assms(2)
  by (simp add: PB_OSTREAM_SIZING_def ostream_ok_def fits_def advance_def)

lemma write_read:
  assumes "valid x" "length (wire x) \<le> n" "n \<le> length bf" "n < 2 ^ 64"
  shows "\<exists>t u. enc x (pb_ostream_from_buffer bf n) = (True, t) \<and> bytes_written t = length (wire x)
    \<and> dec (pb_istream_from_buffer (obuf t) (bytes_written t)) = (Some x, u) \<and> bytes_left u = 0"
proof -
  define s where "s = pb_ostream_from_buffer bf n"
  have "ostream_ok s" "fits s (length (wire x))" using assms by (auto simp: s_def pb_ostream_from_buffer_def ostream_ok_def fits_def)
  then have e: "enc x s = (True, advance s (wire x))" using emits_fits [OF emits [OF assms(1)]] by blast
  have "dec (pb_istream_from_buffer (write_at 0 (wire x) bf) (length (wire x)))
      = (Some x, consume (length (wire x)) (pb_istream_from_buffer (write_at 0 (wire x) bf) (length (wire x))))"
    by (rule readsD [OF reads [OF assms(1)]]) (auto simp: pb_istream_from_buffer_def write_at_def)
  then show ?thesis
    using e by (simp add: s_def pb_ostream_from_buffer_def advance_def) (simp add: pb_istream_from_buffer_def)
qed

text \<open>A buffer that is too small is refused.\<close>

lemma write_full:
  assumes "valid x" "n < length (wire x)" "n \<le> length bf" "n < 2 ^ 64"
  shows "\<not> fst (enc x (pb_ostream_from_buffer bf n))"
  using assms by (intro emits_full [OF emits]) (auto simp: pb_ostream_from_buffer_def ostream_ok_def fits_def)

end

interpretation uvarint: pb_codec pb_encode_varint pb_decode_varint "\<lambda>v. varint (unat v)" "\<lambda>_. True"
  by unfold_locales (auto intro: emits_varint pb_decode_varint_reads)

text \<open>The zigzag form of a signed number.\<close>

definition zigzag :: "u64 \<Rightarrow> u64" where
  "zigzag v = (if sint v < 0 then NOT (push_bit 1 v) else push_bit 1 v)"

definition unzigzag :: "u64 \<Rightarrow> u64" where
  "unzigzag v = (if v AND 1 \<noteq> 0 then NOT (drop_bit 1 v) else drop_bit 1 v)"

lemma and_1_iff: "(v :: u64) AND 1 \<noteq> 0 \<longleftrightarrow> bit v 0"
  by (simp add: and_one_eq odd_iff_mod_2_eq_one bit_0)

lemma drop_push:
  fixes v :: "'a::len word"
  shows "(\<forall>i. LENGTH('a) \<le> i + m \<longrightarrow> i < LENGTH('a) \<longrightarrow> bit v i) \<Longrightarrow> drop_bit m (NOT (push_bit m v)) = NOT v"
    and "(\<forall>i. LENGTH('a) \<le> i + m \<longrightarrow> i < LENGTH('a) \<longrightarrow> \<not> bit v i) \<Longrightarrow> drop_bit m (push_bit m v) = v"
  by (rule bit_word_eqI, force simp: bit_simps)+

lemma unzigzag_zigzag: "unzigzag (zigzag v) = v"
proof (cases "sint v < 0")
  case True
  then have b: "bit v 63" by (simp add: bit_last_iff [of v, simplified])
  have "drop_bit 1 (NOT (push_bit 1 v)) = NOT v"
    using b by (intro drop_push(1)) (auto simp: less_Suc_eq_le dest: le_antisym)
  moreover have "bit (NOT (push_bit 1 v)) 0" by (simp add: bit_simps bit_0)
  ultimately show ?thesis using True unfolding zigzag_def unzigzag_def and_1_iff by simp
next
  case False
  then have b: "\<not> bit v 63" by (simp add: bit_last_iff [of v, simplified])
  have "drop_bit 1 (push_bit 1 v) = v"
    using b by (intro drop_push(2)) (auto simp: less_Suc_eq_le dest: le_antisym)
  moreover have "\<not> bit (push_bit 1 v) 0" by (simp add: bit_simps bit_0)
  ultimately show ?thesis using False unfolding zigzag_def unzigzag_def and_1_iff by simp
qed


lemma pb_encode_svarint_eq: "pb_encode_svarint v = pb_encode_varint (zigzag v)"
  by (rule ext) (simp add: pb_encode_svarint_def zigzag_def Let_def)

lemma pb_decode_svarint_eq:
  "pb_decode_svarint s = (case pb_decode_varint s of (r, s) \<Rightarrow> (map_option unzigzag r, s))"
  by (simp add: pb_decode_svarint_def unzigzag_def split: prod.splits option.splits)

interpretation svarint: pb_codec pb_encode_svarint pb_decode_svarint "\<lambda>v. varint (unat (zigzag v))" "\<lambda>_. True"
proof
  fix v :: u64
  show "emits (pb_encode_svarint v) (varint (unat (zigzag v)))" by (simp add: pb_encode_svarint_eq emits_varint)
  show "reads pb_decode_svarint (varint (unat (zigzag v))) v"
    by (rule readsI) (simp add: pb_decode_svarint_eq readsD [OF pb_decode_varint_reads] unzigzag_zigzag)
qed

text \<open>Fixed-width numbers are the reversed big-endian bytes.\<close>

lemma ucast_and_ff: "ucast ((x :: 'a::len word) AND 0xFF) = (ucast x :: u8)"
proof -
  have "x AND 0xFF = take_bit 8 x" by (simp add: take_bit_eq_mask mask_numeral)
  then show ?thesis by (auto intro!: bit_word_eqI simp: bit_simps)
qed

lemma pb_encode_fixed32_eq: "pb_encode_fixed32 v s = pb_write s (rev (be_bytes 4 (unat v)))"
  by (simp add: pb_encode_fixed32_def be_bytes_word4 ucast_and_ff)

lemma pb_encode_fixed64_eq: "pb_encode_fixed64 v s = pb_write s (rev (be_bytes 8 (unat v)))"
  by (simp add: pb_encode_fixed64_def be_bytes_word8 ucast_and_ff)

lemma take_or_step:
  fixes v :: "'a::len word"
  shows "take_bit k v OR push_bit k (ucast (ucast (drop_bit k v) :: u8)) = take_bit (k + 8) v"
  by (rule bit_word_eqI) (auto simp: bit_simps)

lemma take_or_first: "8 \<le> LENGTH('a) \<Longrightarrow> ucast (ucast (v :: 'a::len word) :: u8) = take_bit 8 v"
  by (rule bit_word_eqI) (auto simp: bit_simps)

lemma word32_of_bytes:
  fixes v :: u32
  shows "ucast (ucast v :: u8) OR push_bit 8 (ucast (ucast (drop_bit 8 v) :: u8)) OR push_bit 16 (ucast (ucast (drop_bit 16 v) :: u8))
    OR push_bit 24 (ucast (ucast (drop_bit 24 v) :: u8)) = v"
proof -
  have "take_bit 32 v = v" by (rule bit_word_eqI) (simp add: bit_simps)
  then show ?thesis
    using take_or_step [of 8 v] take_or_step [of 16 v] take_or_step [of 24 v] take_or_first [of v]
    by (simp add: or.assoc [symmetric] del: push_bit_of_Suc_0)
qed

lemma word64_of_bytes:
  fixes v :: u64
  shows "ucast (ucast v :: u8) OR push_bit 8 (ucast (ucast (drop_bit 8 v) :: u8)) OR push_bit 16 (ucast (ucast (drop_bit 16 v) :: u8))
    OR push_bit 24 (ucast (ucast (drop_bit 24 v) :: u8)) OR push_bit 32 (ucast (ucast (drop_bit 32 v) :: u8))
    OR push_bit 40 (ucast (ucast (drop_bit 40 v) :: u8)) OR push_bit 48 (ucast (ucast (drop_bit 48 v) :: u8))
    OR push_bit 56 (ucast (ucast (drop_bit 56 v) :: u8)) = v"
proof -
  have "take_bit 64 v = v" by (rule bit_word_eqI) (simp add: bit_simps)
  then show ?thesis
    using take_or_step [of 8 v] take_or_step [of 16 v] take_or_step [of 24 v] take_or_step [of 32 v]
      take_or_step [of 40 v] take_or_step [of 48 v] take_or_step [of 56 v] take_or_first [of v]
    by (simp add: or.assoc [symmetric])
qed

interpretation fixed32: pb_codec pb_encode_fixed32 pb_decode_fixed32 "\<lambda>v. rev (be_bytes 4 (unat v))" "\<lambda>_. True"
proof
  fix v :: u32
  show "emits (pb_encode_fixed32 v) (rev (be_bytes 4 (unat v)))"
    by (intro emits_cong [OF emits_write pb_encode_fixed32_eq]) simp
  show "reads pb_decode_fixed32 (rev (be_bytes 4 (unat v))) v"
    by (rule readsI) (simp add: pb_decode_fixed32_def pb_read_ok be_bytes_word4 word32_of_bytes)
qed

interpretation fixed64: pb_codec pb_encode_fixed64 pb_decode_fixed64 "\<lambda>v. rev (be_bytes 8 (unat v))" "\<lambda>_. True"
proof
  fix v :: u64
  show "emits (pb_encode_fixed64 v) (rev (be_bytes 8 (unat v)))"
    by (intro emits_cong [OF emits_write pb_encode_fixed64_eq]) simp
  show "reads pb_decode_fixed64 (rev (be_bytes 8 (unat v))) v"
    by (rule readsI) (simp add: pb_decode_fixed64_def pb_read_ok be_bytes_word8 word64_of_bytes)
qed

text \<open>Length-prefixed strings, read through a substream or skipped.\<close>

definition pb_string :: "bytes \<Rightarrow> bytes" where
  "pb_string bs = varint (length bs) @ bs"

lemma emits_string: "length bs < 2 ^ 64 \<Longrightarrow> emits (pb_encode_string bs) (pb_string bs)"
proof -
  assume l: "length bs < 2 ^ 64"
  then have "unat (of_nat (length bs) :: u64) = length bs" by (simp add: unat_of_nat)
  with emits_and_then [OF emits_varint [of "of_nat (length bs)"] emits_write [OF l]]
  have "emits (and_then (pb_encode_varint (of_nat (length bs))) (\<lambda>s. pb_write s bs)) (pb_string bs)"
    by (simp add: pb_string_def)
  then show ?thesis
    by (rule emits_cong) (simp add: pb_encode_string_def and_then_def split: prod.splits bool.splits)
qed

lemma string_length_reads:
  assumes "length bs < 2 ^ 32" "istate s = pb_string bs @ rest" "length (pb_string bs) \<le> bytes_left s"
  shows "pb_decode_varint32 s = (Some (of_nat (length bs)), consume (length (varint (length bs))) s)"
  using readsD [OF pb_decode_varint32_reads [of "of_nat (length bs)"], of s "bs @ rest"] assms
  by (simp add: pb_string_def unat_of_nat)

lemma pb_skip_string_reads: "length bs < 2 ^ 32 \<Longrightarrow> reads pb_skip_string (pb_string bs) ()"
proof (rule readsI)
  fix s :: pb_istream_t and rest
  assume a: "length bs < 2 ^ 32" "istate s = pb_string bs @ rest" "length (pb_string bs) \<le> bytes_left s"
  then have "unat (of_nat (length bs) :: u32) = length bs" by (simp add: unat_of_nat)
  then show "pb_skip_string s = (Some (), consume (length (pb_string bs)) s)"
    using string_length_reads [OF a] a(3) by (simp add: pb_skip_string_def pb_skip_def pb_read_ok pb_string_def)
qed

text \<open>The substream holds the string, and closing it, wherever its reader stopped, passes over the string.\<close>

lemma substream_ok:
  assumes "length bs < 2 ^ 32" "istate s = pb_string bs @ rest" "length (pb_string bs) \<le> bytes_left s"
  shows "\<exists>sub t. pb_make_string_substream s = (Some sub, t) \<and> istate sub = bs @ rest \<and> bytes_left sub = length bs
    \<and> (\<forall>n \<le> length bs. pb_close_string_substream t (consume n sub) = (True, consume (length (pb_string bs)) s))"
proof -
  have u: "unat (of_nat (length bs) :: u32) = length bs" using assms(1) by (simp add: unat_of_nat)
  define c where "c = consume (length (varint (length bs))) s"
  have c: "istate c = bs @ rest" "length bs \<le> bytes_left c" using assms(2,3) by (auto simp: c_def pb_string_def)
  define sub where "sub = c\<lparr>bytes_left := length bs\<rparr>"
  define t where "t = c\<lparr>bytes_left := bytes_left c - length bs\<rparr>"
  have m: "pb_make_string_substream s = (Some sub, t)"
    using string_length_reads [OF assms] c u by (simp add: pb_make_string_substream_def c_def [symmetric] sub_def t_def)
  have e: "t\<lparr>istate := rest, ierrmsg := ierrmsg c\<rparr> = consume (length (pb_string bs)) s"
    using assms(2) by (simp add: t_def c_def consume_def pb_string_def)
  have "pb_close_string_substream t (consume n sub) = (True, consume (length (pb_string bs)) s)" if "n \<le> length bs" for n
    using that c(1) e
    by (auto simp: pb_close_string_substream_def pb_read_ok sub_def)
  then show ?thesis using m c(1) by (auto simp: sub_def)
qed


section \<open>Tags and skipping\<close>

text \<open>The key of a field on the wire: its number and wire type.\<close>

definition pb_key :: "pb_wire_type_t \<Rightarrow> u32 \<Rightarrow> nat" where
  "pb_key wt tag = unat tag * 8 + wire_type_num wt"

lemma key_word:
  fixes tag :: u32
  assumes "wire_type_num wt < 8"
  shows "unat (push_bit 3 (ucast tag) OR of_nat (wire_type_num wt) :: u64) = pb_key wt tag"
proof -
  have u: "unat (of_nat (wire_type_num wt) :: u64) = wire_type_num wt" using assms by (simp add: unat_of_nat)
  have "unat tag < 2 ^ 32" using unsigned_less [of tag, where 'a = nat] by simp
  then have "unat (ucast tag :: u64) * 2 ^ 3 < 2 ^ LENGTH(64)" by (simp add: unat_ucast_up)
  from push_or_disjoint [OF _ this, of "of_nat (wire_type_num wt)"] assms u show ?thesis
    by (simp add: pb_key_def unat_ucast_up)
qed

lemma emits_tag: "wire_type_num wt < 8 \<Longrightarrow> emits (pb_encode_tag wt tag) (varint (pb_key wt tag))"
  using emits_varint [of "push_bit 3 (ucast tag) OR of_nat (wire_type_num wt)"] key_word [of wt tag]
  by (simp add: pb_encode_tag_def [abs_def] Let_def)

lemma wire_type_of_num: "wire_type_of (wire_type_num wt) = wt \<or> (\<exists>n. wt = PB_WT_other n)"
  by (cases wt) (auto simp: wire_type_of_def)

lemma pb_decode_tag_reads:
  assumes wt: "wire_type_of (wire_type_num wt) = wt" "wire_type_num wt < 8" and tag: "0 < tag" "unat tag < 2 ^ 29"
    and s: "istate s = varint (pb_key wt tag) @ rest" "length (varint (pb_key wt tag)) \<le> bytes_left s"
  shows "pb_decode_tag s = (Some (wt, tag), False, consume (length (varint (pb_key wt tag))) s)"
proof -
  define k :: u32 where "k = of_nat (pb_key wt tag)"
  have "pb_key wt tag < 2 ^ 32" using wt(2) tag(2) by (simp add: pb_key_def)
  then have k: "unat k = pb_key wt tag" by (simp add: k_def unat_of_nat)
  have "pb_decode_varint32_eof s = (Some k, False, consume (length (varint (pb_key wt tag))) s)"
    using pb_decode_varint32_eof_reads [of s k rest] s k by simp
  moreover have "k \<noteq> 0" using k tag(1) by (auto simp: pb_key_def word_less_nat_alt word_unat_eq_iff)
  moreover have "unat (k AND 7) = wire_type_num wt"
    using unat_and_mask [of k 3] k wt(2) by (simp add: pb_key_def mask_numeral)
  moreover have "drop_bit 3 k = tag"
  proof -
    have "unat (drop_bit 3 k) = unat tag" using unat_div_drop_bit [of k 3] k wt(2) by (simp add: pb_key_def)
    then show ?thesis by (simp add: word_unat_eq_iff)
  qed
  ultimately show ?thesis using wt(1) by (simp add: pb_decode_tag_def)
qed

lemma pb_skip_reads: "length bs = n \<Longrightarrow> reads (\<lambda>s. pb_skip s n) bs ()"
  by (rule readsI) (simp add: pb_skip_def pb_read_ok)

lemma pb_skip_varint_reads: "reads pb_skip_varint (varint n) ()"
proof (rule readsI)
  fix s :: pb_istream_t and rest
  show "istate s = varint n @ rest \<Longrightarrow> length (varint n) \<le> bytes_left s \<Longrightarrow>
    pb_skip_varint s = (Some (), consume (length (varint n)) s)"
  proof (induction n arbitrary: s rule: varint.induct)
    case (1 n)
    show ?case
    proof (cases "n < 128")
      case True
      have "unat (of_nat n :: u8) < 128" using True by (simp add: unat_of_nat_u8)
      then have "(of_nat n :: u8) AND 0x80 = 0" by (simp only: u8_high_bit)
      then show ?thesis using "1.prems" True by (subst pb_skip_varint.simps) (simp add: pb_read_ok varint_small)
    next
      case False
      define b :: u8 where "b = of_nat (n mod 128 + 128)"
      have "unat b = n mod 128 + 128" by (simp only: b_def varint_byte)
      then have hb: "b AND 0x80 \<noteq> 0" by (simp add: u8_high_bit)
      have v: "varint n = b # varint (n div 128)" using False by (simp add: varint_big b_def)
      have "pb_skip_varint s = pb_skip_varint (consume 1 s)"
        using "1.prems" v hb by (subst pb_skip_varint.simps) (simp add: pb_read_ok)
      then show ?thesis using "1.IH" [OF False, of "consume 1 s"] "1.prems" v by simp
    qed
  qed
qed

text \<open>A field of an unknown number is skipped by its wire type, whatever value it was written with.\<close>

inductive field_wire :: "pb_wire_type_t \<Rightarrow> bytes \<Rightarrow> bool" where
  "field_wire PB_WT_VARINT (varint n)"
| "length bs = 8 \<Longrightarrow> field_wire PB_WT_64BIT bs"
| "length bs = 4 \<Longrightarrow> field_wire PB_WT_32BIT bs"
| "length bs < 2 ^ 32 \<Longrightarrow> field_wire PB_WT_STRING (pb_string bs)"

lemma pb_skip_field_reads: "field_wire wt bs \<Longrightarrow> reads (\<lambda>s. pb_skip_field s wt) bs ()"
  by (induction rule: field_wire.induct)
    (auto intro: pb_skip_varint_reads pb_skip_reads pb_skip_string_reads)

text \<open>
  The eight-bit position of \<^verbatim>\<open>pb_decode_varint32_eof\<close> wraps around: the loop does not bound the
  number of padding bytes.
\<close>

text \<open>The number that the low seven bits of a list of bytes make, least significant group first.\<close>

definition groups :: "bytes \<Rightarrow> u32" where
  "groups cs = foldr (\<lambda>c w. ucast (c AND 0x7F) OR push_bit 7 w) cs 0"

definition continues :: "u8 \<Rightarrow> bool" where
  "continues c \<longleftrightarrow> c AND 0x80 \<noteq> 0"

lemma groups_simps: "groups [] = 0" "groups (c # cs) = ucast (c AND 0x7F) OR push_bit 7 (groups cs)"
  by (simp_all add: groups_def)

lemma last_group: "\<not> continues b \<Longrightarrow> b AND 0x7F = b"
proof -
  assume "\<not> continues b"
  then have "\<not> bit (b AND 0x80) 7" by (simp add: continues_def)
  then have "\<not> bit b 7" by (simp add: bit_and_iff)
  then have "bit b n \<Longrightarrow> n < 7" for n using bit_imp_le_length [of b n] by (cases "n = 7") auto
  moreover have m: "(0x7F :: u8) = mask 7" by (simp add: mask_eq_exp_minus_1)
  ultimately show ?thesis unfolding m by (auto simp: bit_simps intro!: bit_word_eqI)
qed

lemma varint32_loop_step:
  assumes "istate s = c # rest" "0 < bytes_left s" "bitpos < 32 \<or> c AND 0x7F = 0"
  shows "varint32_loop r bitpos s =
     (let r' = (if bitpos \<ge> 32 then r else r OR push_bit (unat bitpos) (ucast (c AND 0x7F)))
      in if continues c then varint32_loop r' (bitpos + 7) (consume 1 s) else (Some (r', bitpos + 7, c), consume 1 s))"
  using assms pb_readbyte_ok [OF assms(2,1)]
  by (subst varint32_loop.simps) (auto simp: Let_def continues_def not_less)

lemma position_plus: "unat bitpos + 7 < 256 \<Longrightarrow> unat (bitpos + 7 :: u8) = unat bitpos + 7"
  by (simp add: unat_word_ariths)

lemma varint32_loop_groups:
  "istate s = cs @ rest \<Longrightarrow> length cs \<le> bytes_left s \<Longrightarrow> list_all continues cs \<Longrightarrow> unat bitpos + 7 * length cs \<le> 35 \<Longrightarrow>
   varint32_loop r bitpos s =
     varint32_loop (r OR push_bit (unat bitpos) (groups cs)) (bitpos + 7 * of_nat (length cs)) (consume (length cs) s)"
proof (induction cs arbitrary: r bitpos s)
  case (Cons c cs)
  have p: "unat (bitpos + 7) = unat bitpos + 7" using Cons.prems by (intro position_plus) simp
  have b: "bitpos < 32" using Cons.prems by (simp add: word_less_nat_alt)
  have "varint32_loop r bitpos s = varint32_loop (r OR push_bit (unat bitpos) (ucast (c AND 0x7F))) (bitpos + 7) (consume 1 s)"
    using Cons.prems b varint32_loop_step [of s c "cs @ rest" bitpos r] by simp
  also have "\<dots> = varint32_loop ((r OR push_bit (unat bitpos) (ucast (c AND 0x7F))) OR push_bit (unat bitpos + 7) (groups cs))
      (bitpos + 7 + 7 * of_nat (length cs)) (consume (length cs) (consume 1 s))"
    using Cons.prems p Cons.IH [of "consume 1 s" "bitpos + 7" "r OR push_bit (unat bitpos) (ucast (c AND 0x7F))"] by simp
  finally show ?case by (simp add: groups_simps push_bit_or or.assoc algebra_simps)
qed (simp add: groups_simps)

lemma varint32_loop_pad:
  "istate s = replicate n 0x80 @ rest \<Longrightarrow> n \<le> bytes_left s \<Longrightarrow> 32 \<le> unat bitpos \<Longrightarrow> unat bitpos + 7 * n < 263 \<Longrightarrow>
   varint32_loop r bitpos s = varint32_loop r (bitpos + 7 * of_nat n) (consume n s)"
proof (induction n arbitrary: bitpos s)
  case (Suc n)
  have "varint32_loop r bitpos s = varint32_loop r (bitpos + 7) (consume 1 s)"
    using Suc.prems varint32_loop_step [of s "0x80" "replicate n 0x80 @ rest" bitpos r]
    by (simp add: word_less_nat_alt word_le_nat_alt continues_def)
  also have "\<dots> = varint32_loop r (bitpos + 7 + 7 * of_nat n) (consume n (consume 1 s))"
  proof (cases "n = 0")
    case False
    then have "unat (bitpos + 7) = unat bitpos + 7" using Suc.prems by (intro position_plus) simp
    then show ?thesis using Suc.prems by (intro Suc.IH) auto
  qed simp
  finally show ?case by (simp add: algebra_simps)
qed simp

lemma position_wraps: "(259 :: u8) = 3"
  by simp

text \<open>
  After 37 bytes of which the last 32 are padding the position is 3 again, and the seven bits of the last byte are added
  there, to a number that was complete long before.
\<close>

lemma varint32_wraps:
  assumes s: "istate s = cs @ replicate 32 0x80 @ b # rest" "38 \<le> bytes_left s"
    and cs: "length cs = 5" "list_all continues cs" and b: "\<not> continues b"
  shows "pb_decode_varint32 s = (Some (groups cs OR push_bit 3 (ucast b)), consume 38 s)"
proof -
  obtain c cs' where c: "cs = c # cs'" "length cs' = 4" "continues c" "list_all continues cs'"
    using cs by (cases cs) auto
  have b7: "b AND 0x7F = b" using b by (rule last_group)
  let ?r = "groups cs"
  have "varint32_loop (ucast (c AND 0x7F)) 7 (consume 1 s)
      = varint32_loop (ucast (c AND 0x7F) OR push_bit 7 (groups cs')) 35 (consume 5 s)"
    using varint32_loop_groups [of "consume 1 s" cs' "replicate 32 0x80 @ b # rest" 7] c s by simp
  also have "\<dots> = varint32_loop ?r 35 (consume 5 s)" by (simp add: c groups_simps)
  also have "\<dots> = varint32_loop ?r 3 (consume 37 s)"
    using varint32_loop_pad [of "consume 5 s" 32 "b # rest" 35 ?r] s cs position_wraps by simp
  also have "\<dots> = (Some (?r OR push_bit 3 (ucast b), 10, b), consume 38 s)"
    using varint32_loop_step [of "consume 37 s" b rest 3 ?r] s cs b b7 by simp
  finally have l: "varint32_loop (ucast (c AND 0x7F)) 7 (consume 1 s) = (Some (?r OR push_bit 3 (ucast b), 10, b), consume 38 s)" .
  have "pb_readbyte s = (Some c, consume 1 s)" using s c by (intro pb_readbyte_ok) auto
  then show ?thesis using l c(3) by (simp add: pb_decode_varint32_def pb_decode_varint32_eof_def continues_def)
qed

lemma varint_loop_overflow:
  "istate s = cs @ rest \<Longrightarrow> length cs \<le> bytes_left s \<Longrightarrow> list_all continues cs \<Longrightarrow> 64 \<le> unat bitpos + 7 * length cs \<Longrightarrow>
   fst (varint_loop r bitpos s) = None"
proof (induction cs arbitrary: r bitpos s)
  case Nil
  then show ?case by (subst varint_loop.simps) (simp add: word_le_nat_alt ierror_def)
next
  case (Cons c cs)
  show ?case
  proof (cases "bitpos \<ge> 64")
    case True
    then show ?thesis by (subst varint_loop.simps) (simp add: ierror_def)
  next
    case False
    then have p: "unat (bitpos + 7) = unat bitpos + 7" by (intro position_plus) (simp add: word_le_nat_alt)
    have "pb_readbyte s = (Some c, consume 1 s)" using Cons.prems by (intro pb_readbyte_ok) auto
    then have "varint_loop r bitpos s = varint_loop (r OR push_bit (unat bitpos) (ucast (c AND 0x7F))) (bitpos + 7) (consume 1 s)"
      using Cons.prems False by (subst varint_loop.simps) (simp add: Let_def continues_def)
    then show ?thesis using Cons.IH [of "consume 1 s"] Cons.prems p by simp
  qed
qed

text \<open>The 64-bit decoder refuses every varint of more than ten bytes.\<close>

lemma varint64_refuses:
  assumes "istate s = cs @ rest" "10 \<le> bytes_left s" "length cs = 10" "list_all continues cs"
  shows "fst (pb_decode_varint s) = None"
  unfolding pb_decode_varint_def using assms by (intro varint_loop_overflow) auto

section \<open>Integer fields\<close>

lemma load_le_simps: "load_le [] = 0" "load_le (b # bs) = ucast b OR push_bit 8 (load_le bs)"
  by (simp_all add: load_le_def)

lemma bit_load_le: "n < LENGTH('a) \<Longrightarrow> bit (load_le bs :: 'a::len word) n \<longleftrightarrow> n div 8 < length bs \<and> bit (bs ! (n div 8)) (n mod 8)"
proof (induction bs arbitrary: n)
  case Nil
  then show ?case by (simp add: load_le_simps)
next
  case (Cons b bs)
  show ?case
  proof (cases "n < 8")
    case True
    then show ?thesis using Cons.prems by (auto simp: load_le_simps bit_simps)
  next
    case False
    then have "n div 8 = Suc ((n - 8) div 8)" "n mod 8 = (n - 8) mod 8" by (simp_all add: le_div_geq le_mod_geq)
    then show ?thesis using False Cons.prems Cons.IH [of "n - 8"] by (auto simp: load_le_simps bit_simps)
  qed
qed

lemma store_load_le:
  assumes "length bs = n" "\<And>i. i < 8 * n \<Longrightarrow> bit v i \<longleftrightarrow> bit (bs ! (i div 8)) (i mod 8)"
  shows "store_le n v dest = bs @ drop n dest"
proof -
  have "map (\<lambda>i. ucast (drop_bit (8 * i) v)) [0..<n] = (bs :: bytes)"
  proof (rule nth_equalityI)
    fix i
    assume "i < length (map (\<lambda>i. ucast (drop_bit (8 * i) v) :: u8) [0..<n])"
    then have i: "i < n" by simp
    have "bit (ucast (drop_bit (8 * i) v) :: u8) j \<longleftrightarrow> bit (bs ! i) j" if "j < 8" for j
      using assms(2) [of "8 * i + j"] i that by (simp add: bit_simps)
    then show "map (\<lambda>i. ucast (drop_bit (8 * i) v)) [0..<n] ! i = bs ! i" using i by (auto intro: bit_word_eqI)
  qed (simp add: assms(1))
  then show ?thesis by (simp add: store_le_def)
qed

text \<open>A loaded value survives the cast back to its size, and its low bytes are those loaded.\<close>

lemma load_signed_back:
  assumes "load_signed n src = Some v" "length src = n"
  shows "clamp True n v = Some v" "store_le n v dest = src @ drop n dest" "n \<noteq> 8 \<Longrightarrow> scast (ucast v :: u32) = v"
proof -
  show "clamp True n v = Some v" "n \<noteq> 8 \<Longrightarrow> scast (ucast v :: u32) = v"
    using assms(1) by (auto simp: load_signed_def clamp_def split: if_splits intro!: bit_word_eqI) (auto simp: bit_simps min.assoc [symmetric])
  show "store_le n v dest = src @ drop n dest"
    using assms
    by (intro store_load_le) (auto simp: load_signed_def bit_simps bit_load_le less_mult_imp_div_less split: if_splits)
qed


lemma load_unsigned_back:
  assumes "load_unsigned n src = Some v" "length src = n"
  shows "clamp False n v = Some v" "store_le n v dest = src @ drop n dest"
proof -
  show "clamp False n v = Some v"
    using assms(1) by (auto simp: load_unsigned_def clamp_def split: if_splits)
  show "store_le n v dest = src @ drop n dest"
    using assms
    by (intro store_load_le) (auto simp: load_unsigned_def bit_simps bit_load_le less_mult_imp_div_less split: if_splits)
qed

lemma load_defined: "n \<in> {1, 2, 4, 8} \<longleftrightarrow> load_signed n src \<noteq> None" "n \<in> {1, 2, 4, 8} \<longleftrightarrow> load_unsigned n src \<noteq> None"
  by (auto simp: load_signed_def load_unsigned_def)

text \<open>A field is decoded to the bytes it was encoded from.\<close>

lemma pb_dec_varint_enc:
  assumes "load_signed (data_size f) src = Some v" "length src = data_size f"
    and s: "istate s = varint (unat v) @ rest" "length (varint (unat v)) \<le> bytes_left s"
  shows "pb_enc_varint f src = pb_encode_varint v"
    "pb_dec_varint s f dest = (True, src @ drop (data_size f) dest, consume (length (varint (unat v))) s)"
  using assms(1) load_signed_back [OF assms(1,2)] readsD [OF pb_decode_varint_reads s]
  by (auto simp: pb_enc_varint_def [abs_def] pb_dec_varint_def store_checked_def Let_def)

lemma pb_dec_uvarint_enc:
  assumes "load_unsigned (data_size f) src = Some v" "length src = data_size f"
    and s: "istate s = varint (unat v) @ rest" "length (varint (unat v)) \<le> bytes_left s"
  shows "pb_enc_uvarint f src = pb_encode_varint v"
    "pb_dec_uvarint s f dest = (True, src @ drop (data_size f) dest, consume (length (varint (unat v))) s)"
  using assms(1) load_unsigned_back [OF assms(1,2)] readsD [OF pb_decode_varint_reads s]
  by (auto simp: pb_enc_uvarint_def [abs_def] pb_dec_uvarint_def store_checked_def Let_def)

lemma pb_dec_svarint_enc:
  assumes "load_signed (data_size f) src = Some v" "length src = data_size f"
    and s: "istate s = varint (unat (zigzag v)) @ rest" "length (varint (unat (zigzag v))) \<le> bytes_left s"
  shows "pb_enc_svarint f src = pb_encode_svarint v"
    "pb_dec_svarint s f dest = (True, src @ drop (data_size f) dest, consume (length (varint (unat (zigzag v)))) s)"
  using assms(1) load_signed_back [OF assms(1,2)] readsD [OF svarint.reads s]
  by (auto simp: pb_enc_svarint_def [abs_def] pb_dec_svarint_def store_checked_def Let_def)

text \<open>A field encoder and decoder that agree on the bytes between them, through a buffer.\<close>

lemma field_write_read:
  assumes e: "emits enc w" and l: "length w \<le> n" "n \<le> length bf" "n < 2 ^ 64"
    and d: "\<And>s rest. istate s = w @ rest \<Longrightarrow> length w \<le> bytes_left s \<Longrightarrow> dec s = (True, out, consume (length w) s)"
  shows "\<exists>t u. enc (pb_ostream_from_buffer bf n) = (True, t) \<and> bytes_written t = length w
    \<and> dec (pb_istream_from_buffer (obuf t) (bytes_written t)) = (True, out, u) \<and> bytes_left u = 0"
proof -
  define s where "s = pb_ostream_from_buffer bf n"
  have "ostream_ok s" "fits s (length w)" using l by (auto simp: s_def pb_ostream_from_buffer_def ostream_ok_def fits_def)
  then have e: "enc s = (True, advance s w)" using emits_fits [OF e] by blast
  have "dec (pb_istream_from_buffer (write_at 0 w bf) (length w))
      = (True, out, consume (length w) (pb_istream_from_buffer (write_at 0 w bf) (length w)))"
    by (rule d) (auto simp: pb_istream_from_buffer_def write_at_def)
  then show ?thesis
    using e by (simp add: s_def pb_ostream_from_buffer_def advance_def) (simp add: pb_istream_from_buffer_def)
qed

lemma field_roundtrip:
  assumes f: "data_size f \<in> {1, 2, 4, 8}" "length src = data_size f" and n: "10 \<le> n" "n \<le> length bf" "n < 2 ^ 64"
    and p: "(enc, dec) \<in> {(pb_enc_varint, pb_dec_varint), (pb_enc_uvarint, pb_dec_uvarint), (pb_enc_svarint, pb_dec_svarint)}"
  shows "\<exists>t u. enc f src (pb_ostream_from_buffer bf n) = (True, t) \<and> bytes_written t \<le> 10
    \<and> dec (pb_istream_from_buffer (obuf t) (bytes_written t)) f dest = (True, src @ drop (data_size f) dest, u) \<and> bytes_left u = 0"
proof -
  have "\<exists>w :: u64. emits (enc f src) (varint (unat w)) \<and>
     (\<forall>s rest. istate s = varint (unat w) @ rest \<longrightarrow> length (varint (unat w)) \<le> bytes_left s \<longrightarrow>
        dec s f dest = (True, src @ drop (data_size f) dest, consume (length (varint (unat w))) s))" (is "Ex ?P")
  proof -
    obtain v where v: "load_signed (data_size f) src = Some v" using load_defined(1) [of "data_size f" src] f(1) by auto
    obtain v' where v': "load_unsigned (data_size f) src = Some v'" using load_defined(2) [of "data_size f" src] f(1) by auto
    have e: "pb_enc_varint f src = pb_encode_varint v" "pb_enc_uvarint f src = pb_encode_varint v'"
      "pb_enc_svarint f src = pb_encode_svarint v"
      using v v' by (auto simp: pb_enc_varint_def pb_enc_uvarint_def pb_enc_svarint_def)
    consider "(enc, dec) = (pb_enc_varint, pb_dec_varint)" | "(enc, dec) = (pb_enc_uvarint, pb_dec_uvarint)"
      | "(enc, dec) = (pb_enc_svarint, pb_dec_svarint)" using p by auto
    then show ?thesis
    proof cases
      case 1
      then show ?thesis using pb_dec_varint_enc(2) [OF v f(2)] by (intro exI [of _ v]) (auto simp: e intro: emits_varint)
    next
      case 2
      then show ?thesis using pb_dec_uvarint_enc(2) [OF v' f(2)] by (intro exI [of _ v']) (auto simp: e intro: emits_varint)
    next
      case 3
      then show ?thesis using pb_dec_svarint_enc(2) [OF v f(2)]
        by (intro exI [of _ "zigzag v"]) (auto simp: e pb_encode_svarint_eq intro: emits_varint)
    qed
  qed
  then obtain w where w: "?P w" by blast
  have l: "length (varint (unat w)) \<le> 10" by (rule length_varint_u64)
  show ?thesis using field_write_read [of "enc f src" "varint (unat w)" n bf "\<lambda>s. dec s f dest"] w l n by fastforce
qed

text \<open>Every stored byte of a decoded string is within the field, and the string is terminated.\<close>

lemma pb_dec_string_static:
  assumes f: "length d = data_size f" and bs: "length bs + 1 < 2 ^ 32" "length bs + 1 \<le> data_size f"
    and s: "istate s = pb_string bs @ rest" "length (pb_string bs) \<le> bytes_left s"
  shows "pb_dec_string E s f (Static d) = (True, Static (bs @ 0 # drop (length bs + 1) d), consume (length (pb_string bs)) s)"
proof -
  have u: "unat (of_nat (length bs) :: u32) = length bs" "unat (of_nat (length bs) + 1 :: u32) = length bs + 1"
    using bs(1) by (simp_all add: unat_word_ariths unat_of_nat)
  have r: "read_string (consume (length (varint (length bs))) s) (length bs) d
      = (True, (write_at 0 bs d)[length bs := 0], consume (length (pb_string bs)) s)"
    using s by (simp add: read_string_def pb_read_ok pb_string_def)
  have w: "(write_at 0 bs d)[length bs := 0] = bs @ 0 # drop (length bs + 1) d"
    using f bs(2) by (simp add: write_at_def list_update_append Cons_nth_drop_Suc [symmetric])
  show ?thesis using string_length_reads [of bs s rest] s bs u r w by (simp add: pb_dec_string_def)
qed

lemma pb_dec_string_overflow:
  assumes bs: "length bs + 1 < 2 ^ 32" "data_size f < length bs + 1"
    and s: "istate s = pb_string bs @ rest" "length (pb_string bs) \<le> bytes_left s"
  shows "\<exists>t. pb_dec_string E s f (Static d) = (False, Static d, t)"
proof -
  have u: "unat (of_nat (length bs) :: u32) = length bs" "unat (of_nat (length bs) + 1 :: u32) = length bs + 1"
    using bs(1) by (simp_all add: unat_word_ariths unat_of_nat)
  show ?thesis using string_length_reads [of bs s rest] s bs u by (simp add: pb_dec_string_def)
qed

end
