(* ===== verification/UVHeap.thy ===== *)
theory UVHeap
  imports Mem
begin

unbundle bit_operations_syntax

text \<open>
  \<^verbatim>\<open>src/heap-inl.h\<close> of libuv: the intrusive binary min heap.  A node is known by its address;
  the three pointers of every node are kept in the store \<open>node\<close>, so that each assignment of
  the code through a pointer is an update of that store.  A pointer to a pointer
  (\<^verbatim>\<open>struct heap_node**\<close>) is a \<open>slot\<close>: the root pointer or a child pointer of a node.
  The loops that follow pointers are option-valued partial functions, \<open>None\<close> standing for a
  loop that does not end.
  \<^item> \<open>hrep xs h\<close>: the pointers form the complete binary tree whose nodes in level order are \<open>xs\<close>.
  \<^item> \<open>heap_node_swap_rep\<close>, \<open>replace_node_rep\<close>: exchanging a node with its parent, and putting a
    free node in the place of another, rename the nodes of the tree.
  \<^item> \<open>path_reaches\<close>: the bit path leads to the slot with the given number; \<open>link_last\<close>,
    \<open>unlink_last\<close>: adding and removing the last node of the bottom row.
\<close>

record heap_node =
  hleft :: ptr
  hright :: ptr
  hparent :: ptr

text \<open>The heap with the store of its nodes.\<close>

record uv_heap =
  hmin :: ptr
  nelts :: u32
  node :: "ptr \<Rightarrow> heap_node"

section \<open>Operations\<close>

definition heap_init :: "uv_heap \<Rightarrow> uv_heap" where
  "heap_init h = h\<lparr>hmin := NULL, nelts := 0\<rparr>"

definition heap_min :: "uv_heap \<Rightarrow> ptr" where
  "heap_min h = hmin h"

text \<open>Assignments through a pointer to a node.\<close>

definition set_node :: "ptr \<Rightarrow> heap_node \<Rightarrow> uv_heap \<Rightarrow> uv_heap" where
  "set_node p v h = h\<lparr>node := (node h)(p := v)\<rparr>"

definition set_left :: "ptr \<Rightarrow> ptr \<Rightarrow> uv_heap \<Rightarrow> uv_heap" where
  "set_left p v h = set_node p ((node h p)\<lparr>hleft := v\<rparr>) h"

definition set_right :: "ptr \<Rightarrow> ptr \<Rightarrow> uv_heap \<Rightarrow> uv_heap" where
  "set_right p v h = set_node p ((node h p)\<lparr>hright := v\<rparr>) h"

definition set_parent :: "ptr \<Rightarrow> ptr \<Rightarrow> uv_heap \<Rightarrow> uv_heap" where
  "set_parent p v h = set_node p ((node h p)\<lparr>hparent := v\<rparr>) h"

text \<open>The three steps of the exchange: the contents of the two nodes, the back pointer of a child
  if there is one, and the pointer above (which \<open>heap_remove\<close> redirects the same way).\<close>

definition swap_contents :: "ptr \<Rightarrow> ptr \<Rightarrow> uv_heap \<Rightarrow> ptr \<times> uv_heap" where
  "swap_contents parent child h =
     (let t = node h parent;
          h = set_node parent (node h child) h;
          h = set_node child t h;
          h = set_parent parent child h
      in if hleft (node h child) = child then (hright (node h child), set_left child parent h)
         else (hleft (node h child), set_right child parent h))"

definition link_parent :: "ptr \<Rightarrow> ptr \<Rightarrow> uv_heap \<Rightarrow> uv_heap" where
  "link_parent q v h = (if q \<noteq> NULL then set_parent q v h else h)"

definition relink :: "ptr \<Rightarrow> ptr \<Rightarrow> ptr \<Rightarrow> uv_heap \<Rightarrow> uv_heap" where
  "relink up old new h =
     (if up = NULL then h\<lparr>hmin := new\<rparr>
      else if hleft (node h up) = old then set_left up new h
      else set_right up new h)"

definition heap_node_swap :: "ptr \<Rightarrow> ptr \<Rightarrow> uv_heap \<Rightarrow> uv_heap" where
  "heap_node_swap parent child h =
     (let (sibling, h) = swap_contents parent child h;
          h = link_parent sibling child h;
          h = link_parent (hleft (node h parent)) parent h;
          h = link_parent (hright (node h parent)) parent h
      in relink (hparent (node h child)) parent child h)"

text \<open>The bit path from the root to the slot with number \<open>n\<close>: the path and its length.\<close>

function heap_path :: "u32 \<Rightarrow> u32 \<Rightarrow> nat \<Rightarrow> u32 \<times> nat" where
  "heap_path n path k =
     (if n \<ge> 2 then heap_path (n div 2) (push_bit 1 path OR (n AND 1)) (k + 1) else (path, k))"
  by pat_completeness auto
termination
proof (relation "measure (\<lambda>(n, _, _). unat n)")
  fix n path :: u32 and k :: nat
  assume "2 \<le> n"
  then have "2 \<le> unat n" by (simp add: word_le_nat_alt)
  then show "((n div 2, push_bit 1 path OR n AND 1, k + 1), n, path, k) \<in> measure (\<lambda>(n, _, _). unat n)"
    by (simp add: unat_div)
qed simp

declare heap_path.simps [simp del]

datatype slot = Min | LeftOf ptr | RightOf ptr

fun load_slot :: "uv_heap \<Rightarrow> slot \<Rightarrow> ptr" where
  "load_slot h Min = hmin h"
| "load_slot h (LeftOf p) = hleft (node h p)"
| "load_slot h (RightOf p) = hright (node h p)"

fun store_slot :: "slot \<Rightarrow> ptr \<Rightarrow> uv_heap \<Rightarrow> uv_heap" where
  "store_slot Min v h = h\<lparr>hmin := v\<rparr>"
| "store_slot (LeftOf p) v h = set_left p v h"
| "store_slot (RightOf p) v h = set_right p v h"

text \<open>The traversals of \<open>heap_insert\<close>, which keeps the previous slot, and \<open>heap_remove\<close>.\<close>

definition child_slot :: "uv_heap \<Rightarrow> u32 \<Rightarrow> slot \<Rightarrow> slot" where
  "child_slot h path child =
     (if path AND 1 \<noteq> 0 then RightOf (load_slot h child) else LeftOf (load_slot h child))"

primrec insert_walk :: "uv_heap \<Rightarrow> nat \<Rightarrow> u32 \<Rightarrow> slot \<Rightarrow> slot \<Rightarrow> slot \<times> slot" where
  "insert_walk h 0 path parent child = (parent, child)"
| "insert_walk h (Suc k) path parent child =
     insert_walk h k (drop_bit 1 path) child (child_slot h path child)"

primrec remove_walk :: "uv_heap \<Rightarrow> nat \<Rightarrow> u32 \<Rightarrow> slot \<Rightarrow> slot" where
  "remove_walk h 0 path mx = mx"
| "remove_walk h (Suc k) path mx = remove_walk h k (drop_bit 1 path) (child_slot h path mx)"

text \<open>The loop at the end of both operations: the node rises while it is less than its parent.\<close>

partial_function (option) walk_up :: "(ptr \<Rightarrow> ptr \<Rightarrow> bool) \<Rightarrow> ptr \<Rightarrow> uv_heap \<Rightarrow> uv_heap option" where
  [code]: "walk_up lthan nd h =
     (if hparent (node h nd) \<noteq> NULL \<and> lthan nd (hparent (node h nd))
      then walk_up lthan nd (heap_node_swap (hparent (node h nd)) nd h)
      else Some h)"

definition smallest_of :: "(ptr \<Rightarrow> ptr \<Rightarrow> bool) \<Rightarrow> uv_heap \<Rightarrow> ptr \<Rightarrow> ptr" where
  "smallest_of lthan h child =
     (let smallest = child;
          smallest = (if hleft (node h child) \<noteq> NULL \<and> lthan (hleft (node h child)) smallest
                      then hleft (node h child) else smallest)
      in if hright (node h child) \<noteq> NULL \<and> lthan (hright (node h child)) smallest
         then hright (node h child) else smallest)"

partial_function (option) walk_down :: "(ptr \<Rightarrow> ptr \<Rightarrow> bool) \<Rightarrow> ptr \<Rightarrow> uv_heap \<Rightarrow> uv_heap option" where
  [code]: "walk_down lthan child h =
     (let smallest = smallest_of lthan h child in
      if smallest = child then Some h
      else walk_down lthan child (heap_node_swap child smallest h))"

definition heap_insert :: "uv_heap \<Rightarrow> ptr \<Rightarrow> (ptr \<Rightarrow> ptr \<Rightarrow> bool) \<Rightarrow> uv_heap option" where
  "heap_insert h newnode lthan =
     (let h = set_node newnode \<lparr>hleft = NULL, hright = NULL, hparent = NULL\<rparr> h;
          (path, k) = heap_path (1 + nelts h) 0 0;
          (parent, child) = insert_walk h k path Min Min;
          h = set_parent newnode (load_slot h parent) h;
          h = store_slot child newnode h;
          h = h\<lparr>nelts := nelts h + 1\<rparr>
      in walk_up lthan newnode h)"

text \<open>The replacement of a node by another that is already unlinked.\<close>

definition replace_node :: "ptr \<Rightarrow> ptr \<Rightarrow> uv_heap \<Rightarrow> uv_heap" where
  "replace_node nd child h =
     (let h = set_left child (hleft (node h nd)) h;
          h = set_right child (hright (node h nd)) h;
          h = set_parent child (hparent (node h nd)) h;
          h = link_parent (hleft (node h child)) child h;
          h = link_parent (hright (node h child)) child h
      in relink (hparent (node h nd)) nd child h)"

definition heap_remove :: "uv_heap \<Rightarrow> ptr \<Rightarrow> (ptr \<Rightarrow> ptr \<Rightarrow> bool) \<Rightarrow> uv_heap option" where
  "heap_remove h nd lthan =
     (if nelts h = 0 then Some h
      else
        let (path, k) = heap_path (nelts h) 0 0;
            mx = remove_walk h k path Min;
            h = h\<lparr>nelts := nelts h - 1\<rparr>;
            child = load_slot h mx;
            h = store_slot mx NULL h
        in if child = nd then Some (if child = hmin h then h\<lparr>hmin := NULL\<rparr> else h)
           else Option.bind (walk_down lthan child (replace_node nd child h))
                  (walk_up lthan child))"

definition heap_dequeue :: "uv_heap \<Rightarrow> (ptr \<Rightarrow> ptr \<Rightarrow> bool) \<Rightarrow> uv_heap option" where
  "heap_dequeue h lthan = heap_remove h (heap_min h) lthan"

section \<open>The complete tree in level order\<close>

definition at :: "ptr list \<Rightarrow> nat \<Rightarrow> ptr" where
  "at xs i = (if i < length xs then xs ! i else NULL)"

definition node_of :: "ptr list \<Rightarrow> nat \<Rightarrow> heap_node" where
  "node_of xs i = \<lparr>hleft = at xs (2 * i + 1), hright = at xs (2 * i + 2),
     hparent = (if i = 0 then NULL else at xs ((i - 1) div 2))\<rparr>"

definition tree :: "ptr list \<Rightarrow> uv_heap \<Rightarrow> bool" where
  "tree xs h \<longleftrightarrow> distinct xs \<and> NULL \<notin> set xs \<and> hmin h = at xs 0 \<and> (\<forall>i < length xs. node h (xs ! i) = node_of xs i)"

definition hrep :: "ptr list \<Rightarrow> uv_heap \<Rightarrow> bool" where
  "hrep xs h \<longleftrightarrow> tree xs h \<and> unat (nelts h) = length xs"

definition exch :: "ptr \<Rightarrow> ptr \<Rightarrow> ptr \<Rightarrow> ptr" where
  "exch p c x = (if x = p then c else if x = c then p else x)"

lemma node_of_sel [simp]:
  "hleft (node_of xs i) = at xs (2 * i + 1)" "hright (node_of xs i) = at xs (2 * i + 2)"
  "hparent (node_of xs i) = (if i = 0 then NULL else at xs ((i - 1) div 2))"
  by (simp_all add: node_of_def)

lemma at_eq_NULL: "NULL \<notin> set xs \<Longrightarrow> at xs i = NULL \<longleftrightarrow> length xs \<le> i"
  by (auto simp: at_def in_set_conv_nth)

lemma at_inj: "distinct xs \<Longrightarrow> NULL \<notin> set xs \<Longrightarrow> i < length xs \<Longrightarrow> at xs i = at xs j \<longleftrightarrow> i = j"
  by (auto simp: at_def in_set_conv_nth nth_eq_iff_index_eq)

lemma at_in: "i < length xs \<Longrightarrow> at xs i \<in> set xs"
  by (simp add: at_def)

lemma treeD:
  assumes "tree xs h"
  shows "distinct xs" "NULL \<notin> set xs" "hmin h = at xs 0" "i < length xs \<Longrightarrow> node h (at xs i) = node_of xs i"
  using assms by (auto simp: tree_def at_def)


lemma set_simps [simp]:
  "node (set_node p v h) = (node h)(p := v)" "hmin (set_node p v h) = hmin h" "nelts (set_node p v h) = nelts h"
  "node (set_left p q h) = (node h)(p := (node h p)\<lparr>hleft := q\<rparr>)" "hmin (set_left p q h) = hmin h" "nelts (set_left p q h) = nelts h"
  "node (set_right p q h) = (node h)(p := (node h p)\<lparr>hright := q\<rparr>)" "hmin (set_right p q h) = hmin h" "nelts (set_right p q h) = nelts h"
  "node (set_parent p q h) = (node h)(p := (node h p)\<lparr>hparent := q\<rparr>)" "hmin (set_parent p q h) = hmin h" "nelts (set_parent p q h) = nelts h"
  by (simp_all add: set_node_def set_left_def set_right_def set_parent_def)

text \<open>The pointers agree with each other: parents and children name one another.\<close>

definition linked :: "ptr set \<Rightarrow> (ptr \<Rightarrow> heap_node) \<Rightarrow> (ptr \<Rightarrow> nat) \<Rightarrow> bool" where
  "linked A nd f \<longleftrightarrow> NULL \<notin> A \<and>
     (\<forall>x \<in> A. \<forall>y. y \<noteq> NULL \<longrightarrow> (hleft (nd x) = y \<or> hright (nd x) = y \<longleftrightarrow> y \<in> A \<and> hparent (nd y) = x)) \<and>
     (\<forall>x \<in> A. hleft (nd x) = hright (nd x) \<longrightarrow> hleft (nd x) = NULL) \<and>
     (\<forall>x \<in> A. hparent (nd x) \<noteq> NULL \<longrightarrow> hparent (nd x) \<in> A \<and> f (hparent (nd x)) < f x)"

lemma linkedD:
  assumes "linked A nd f"
  shows "NULL \<notin> A"
    and "x \<in> A \<Longrightarrow> y \<noteq> NULL \<Longrightarrow> hleft (nd x) = y \<or> hright (nd x) = y \<longleftrightarrow> y \<in> A \<and> hparent (nd y) = x"
    and "x \<in> A \<Longrightarrow> hleft (nd x) = hright (nd x) \<Longrightarrow> hleft (nd x) = NULL"
    and "x \<in> A \<Longrightarrow> hparent (nd x) \<noteq> NULL \<Longrightarrow> hparent (nd x) \<in> A \<and> f (hparent (nd x)) < f x"
  using assms unfolding linked_def by blast+

definition rename_node :: "(ptr \<Rightarrow> ptr) \<Rightarrow> heap_node \<Rightarrow> heap_node" where
  "rename_node \<pi> n = \<lparr>hleft = \<pi> (hleft n), hright = \<pi> (hright n), hparent = \<pi> (hparent n)\<rparr>"

lemma node_link_parent:
  "node (link_parent q v h) x = (if x = q \<and> q \<noteq> NULL then (node h x)\<lparr>hparent := v\<rparr> else node h x)"
  "hmin (link_parent q v h) = hmin h" "nelts (link_parent q v h) = nelts h"
  by (simp_all add: link_parent_def)

lemma node_relink:
  "node (relink up old new h) x =
     (if x = up \<and> up \<noteq> NULL
      then (if hleft (node h x) = old then (node h x)\<lparr>hleft := new\<rparr> else (node h x)\<lparr>hright := new\<rparr>)
      else node h x)"
  "hmin (relink up old new h) = (if up = NULL then new else hmin h)" "nelts (relink up old new h) = nelts h"
  by (simp_all add: relink_def)

lemma swap_contents_sel:
  assumes "p \<noteq> c"
  shows "fst (swap_contents p c h) = (if hleft (node h p) = c then hright (node h p) else hleft (node h p))"
    "node (snd (swap_contents p c h)) x =
       (if x = c then if hleft (node h p) = c then (node h p)\<lparr>hleft := p\<rparr> else (node h p)\<lparr>hright := p\<rparr>
        else if x = p then (node h c)\<lparr>hparent := c\<rparr> else node h x)"
    "hmin (snd (swap_contents p c h)) = hmin h" "nelts (snd (swap_contents p c h)) = nelts h"
  using assms by (simp_all add: swap_contents_def Let_def)

lemma swap_renames:
  assumes "linked A (node h) f" and "c \<in> A" and p: "hparent (node h c) = p" "p \<noteq> NULL" and "x \<in> A"
  shows "node (heap_node_swap p c h) x = rename_node (exch p c) (node h (exch p c x))"
    and "hmin (heap_node_swap p c h) = (if hparent (node h p) = NULL then c else hmin h)"
    and "nelts (heap_node_swap p c h) = nelts h"
proof -
  define l r g where "l = hleft (node h c)" and "r = hright (node h c)" and "g = hparent (node h p)"
  note A = linkedD(1) [OF assms(1)] and kids = linkedD(2) [OF assms(1)] and two = linkedD(3) [OF assms(1)]
    and up = linkedD(4) [OF assms(1)]
  have pA: "p \<in> A" "f p < f c" using up [OF assms(2)] p by auto
  have l: "l \<noteq> NULL \<Longrightarrow> l \<in> A \<and> hparent (node h l) = c \<and> f c < f l" using kids [OF assms(2), of l] up [of l] assms(2) A by (auto simp: l_def)
  have r: "r \<noteq> NULL \<Longrightarrow> r \<in> A \<and> hparent (node h r) = c \<and> f c < f r" using kids [OF assms(2), of r] up [of r] assms(2) A by (auto simp: r_def)
  have g: "g \<noteq> NULL \<Longrightarrow> g \<in> A \<and> f g < f p" using up [OF pA(1)] by (auto simp: g_def)
  have gp: "g \<noteq> NULL \<Longrightarrow> hleft (node h g) = p \<or> hright (node h g) = p" using kids [of g p] g pA A by (auto simp: g_def)
  have pc: "hleft (node h p) = c \<or> hright (node h p) = c" using kids [OF pA(1), of c] assms(2) p A by auto
  define s where "s = (if hleft (node h p) = c then hright (node h p) else hleft (node h p))"
  have s: "s \<noteq> NULL \<Longrightarrow> s \<in> A \<and> hparent (node h s) = p \<and> s \<noteq> c \<and> f p < f s"
    using kids [OF pA(1), of s] two [OF pA(1)] up [of s] pA A pc by (auto simp: s_def split: if_splits)
  have pc': "p \<noteq> c" "c \<noteq> NULL" using pA assms(2) A by auto (metis neq0_conv)
  have neq: "l \<noteq> p" "l \<noteq> c" "r \<noteq> p" "r \<noteq> c" "s \<noteq> p" "s \<noteq> c" "g \<noteq> p" "g \<noteq> c"
    using l r s g pA pc' p(2) by auto
  have neq2: "l \<noteq> NULL \<Longrightarrow> l \<noteq> r" "l \<noteq> NULL \<Longrightarrow> l \<noteq> s" "r \<noteq> NULL \<Longrightarrow> r \<noteq> s" "g \<noteq> NULL \<Longrightarrow> g \<noteq> l" "g \<noteq> NULL \<Longrightarrow> g \<noteq> r" "g \<noteq> NULL \<Longrightarrow> g \<noteq> s"
    using l r s g pA pc' p two [OF assms(2)] by (auto simp: l_def r_def)
  define h1 where "h1 = snd (swap_contents p c h)"
  define h2 where "h2 = link_parent s c h1"
  define h3 where "h3 = link_parent l p h2"
  define h4 where "h4 = link_parent r p h3"
  have h1: "node h1 x = (if x = c then if hleft (node h p) = c then (node h p)\<lparr>hleft := p\<rparr> else (node h p)\<lparr>hright := p\<rparr>
        else if x = p then (node h c)\<lparr>hparent := c\<rparr> else node h x)" for x
    using swap_contents_sel(2) [OF pc'(1)] by (simp add: h1_def)
  have u: "hparent (node h4 c) = g" "hleft (node h2 p) = l" "hright (node h3 p) = r"
    using neq pc' by (auto simp: h4_def h3_def h2_def node_link_parent h1 g_def l_def r_def)
  have sc: "swap_contents p c h = (s, h1)"
    by (simp add: prod_eq_iff swap_contents_sel [OF pc'(1)] s_def h1_def)
  have sw: "heap_node_swap p c h = relink g p c h4"
    by (simp only: heap_node_swap_def Let_def sc prod.case h2_def [symmetric] u h3_def [symmetric] h4_def [symmetric])
  have h4: "node h4 x = (if x \<noteq> NULL \<and> (x = l \<or> x = r) then (node h x)\<lparr>hparent := p\<rparr>
      else if x \<noteq> NULL \<and> x = s then (node h x)\<lparr>hparent := c\<rparr> else node h1 x)" for x
  proof (cases "x = NULL")
    case True
    then show ?thesis by (simp add: h4_def h3_def h2_def node_link_parent)
  next
    case False
    have "x = l \<Longrightarrow> x \<noteq> r \<and> x \<noteq> s" "x = r \<Longrightarrow> x \<noteq> s" using False neq2 by auto
    moreover have "x = l \<or> x = r \<or> x = s \<Longrightarrow> node h1 x = node h x" using neq h1 by metis
    ultimately show ?thesis using False
      by (auto simp: h4_def h3_def h2_def node_link_parent)
  qed
  show "hmin (heap_node_swap p c h) = (if hparent (node h p) = NULL then c else hmin h)" "nelts (heap_node_swap p c h) = nelts h"
    by (simp_all add: sw node_relink g_def h4_def h3_def h2_def h1_def node_link_parent swap_contents_sel [OF pc'(1)])
  show "node (heap_node_swap p c h) x = rename_node (exch p c) (node h (exch p c x))"
  proof (cases "x = c \<or> x = p")
    case True
    have "x \<noteq> l" "x \<noteq> r" "x \<noteq> s" "x \<noteq> g" using True neq by auto
    then have e: "node (heap_node_swap p c h) x = node h1 x" by (simp add: sw node_relink h4)
    show ?thesis
    proof (cases "x = c")
      case True
      have "hparent (node h p) \<noteq> p" "hparent (node h p) \<noteq> c" using neq by (simp_all add: g_def)
      moreover have "hleft (node h p) = c \<and> hright (node h p) = s \<or> hleft (node h p) = s \<and> hright (node h p) = c"
        using pc by (auto simp: s_def)
      ultimately show ?thesis using True pc' neq(5,6) unfolding e h1
        by (elim disjE conjE) (simp_all add: exch_def rename_node_def)
    next
      case False
      with \<open>x = c \<or> x = p\<close> have "x = p" by simp
      moreover have "hleft (node h c) = l" "hright (node h c) = r" by (simp_all add: l_def r_def)
      ultimately show ?thesis using pc' neq p unfolding e h1
        by (simp add: exch_def rename_node_def)
    qed
  next
    case False
    have x: "x \<noteq> NULL" using assms(5) A by (metis)
    have lr: "x = l \<or> x = r \<longleftrightarrow> hparent (node h x) = c" using kids [OF assms(2) x] assms(5) by (auto simp: l_def r_def)
    have sx: "x = s \<longleftrightarrow> hparent (node h x) = p" using kids [OF pA(1) x] assms(5) False pc by (auto simp: s_def)
    have noc: "hleft (node h x) \<noteq> c" "hright (node h x) \<noteq> c" using kids [OF assms(5), of c] pc' p False by auto
    have gx: "hleft (node h x) = p \<or> hright (node h x) = p \<longleftrightarrow> x = g" using kids [OF assms(5) p(2)] pA by (auto simp: g_def)
    have "node h1 x = node h x" using False by (simp add: h1)
    moreover have n: "node h x = \<lparr>hleft = hleft (node h x), hright = hright (node h x), hparent = hparent (node h x)\<rparr>" by simp
    ultimately have h4x: "node h4 x = \<lparr>hleft = hleft (node h x), hright = hright (node h x), hparent = exch p c (hparent (node h x))\<rparr>"
      unfolding h4 exch_def using x lr sx pc' by (cases "hparent (node h x) = c"; cases "hparent (node h x) = p") auto
    have e: "exch p c x = x" using False by (simp add: exch_def)
    have "hleft (node h x) \<noteq> p \<or> hright (node h x) \<noteq> p" using two [OF assms(5)] p(2) by auto
    with gx consider "x \<noteq> g" "hleft (node h x) \<noteq> p" "hright (node h x) \<noteq> p"
      | "x = g" "hleft (node h x) = p" "hright (node h x) \<noteq> p" | "x = g" "hleft (node h x) \<noteq> p" "hright (node h x) = p"
      by blast
    moreover have "exch p c y = (if y = p then c else y)" if "y \<noteq> c" for y using that by (simp add: exch_def)
    ultimately show ?thesis unfolding sw node_relink h4x e rename_node_def using noc x
      by cases simp_all
  qed
qed

lemma half_less [simp]: "0 < i \<Longrightarrow> (i - Suc 0) div 2 < i"
  by linarith

lemma tree_linked:
  assumes "tree xs h"
  shows "linked (set xs) (node h) (the_inv_into {..<length xs} (nth xs))"
proof -
  let ?f = "the_inv_into {..<length xs} (nth xs)"
  note t = treeD [OF assms]
  have f: "?f (xs ! i) = i" if "i < length xs" for i
    using that t(1) by (intro the_inv_into_f_f) (auto simp: inj_on_nth)
  have kids: "hleft (node h (xs ! i)) = y \<or> hright (node h (xs ! i)) = y \<longleftrightarrow> y \<in> set xs \<and> hparent (node h y) = xs ! i"
    if i: "i < length xs" and y: "y \<noteq> NULL" for i y
  proof
    assume "hleft (node h (xs ! i)) = y \<or> hright (node h (xs ! i)) = y"
    with i t(4) [OF i] have "y = at xs (2 * i + 1) \<or> y = at xs (2 * i + 2)" by (auto simp: at_def)
    with y obtain k where "k = 2 * i + 1 \<or> k = 2 * i + 2" "k < length xs" "y = at xs k"
      by (metis at_def)
    then show "y \<in> set xs \<and> hparent (node h y) = xs ! i"
      using t(4) [of k] i by (auto simp: at_in) (auto simp: at_def)
  next
    assume a: "y \<in> set xs \<and> hparent (node h y) = xs ! i"
    then obtain k where k: "k < length xs" "y = at xs k" by (auto simp: in_set_conv_nth at_def)
    have "xs ! i \<noteq> NULL" using t(2) i by (metis nth_mem)
    with a k t(4) [OF k(1)] have "0 < k" "at xs ((k - 1) div 2) = at xs i" using i by (auto simp: at_def split: if_splits)
    then have "(k - 1) div 2 = i" using at_inj [OF t(1,2), of i "(k - 1) div 2"] i by auto
    with \<open>0 < k\<close> have "k = 2 * i + 1 \<or> k = 2 * i + 2" by auto
    then show "hleft (node h (xs ! i)) = y \<or> hright (node h (xs ! i)) = y"
      using t(4) [OF i] k i by (auto simp: at_def)
  qed
  have two: "hleft (node h (xs ! i)) = hright (node h (xs ! i)) \<Longrightarrow> hleft (node h (xs ! i)) = NULL" if i: "i < length xs" for i
    using t(4) [OF i] i at_inj [OF t(1,2), of "2 * i + 1" "2 * i + 2"] by (auto simp: at_def split: if_splits)
  have up: "hparent (node h (xs ! i)) \<in> set xs \<and> ?f (hparent (node h (xs ! i))) < ?f (xs ! i)"
    if "i < length xs" "hparent (node h (xs ! i)) \<noteq> NULL" for i
    using that t(4) [OF that(1)] f [of i] f [of "(i - 1) div 2"] by (auto simp: at_def split: if_splits)
  show ?thesis unfolding linked_def
  proof (intro conjI ballI)
    fix x assume "x \<in> set xs"
    then obtain i where i: "i < length xs" "x = xs ! i" by (metis in_set_conv_nth)
    show "\<forall>y. y \<noteq> NULL \<longrightarrow> (hleft (node h x) = y \<or> hright (node h x) = y \<longleftrightarrow> y \<in> set xs \<and> hparent (node h y) = x)"
      unfolding i(2) using kids [OF i(1)] by (intro allI impI)
    show "hleft (node h x) = hright (node h x) \<longrightarrow> hleft (node h x) = NULL"
      "hparent (node h x) \<noteq> NULL \<longrightarrow> hparent (node h x) \<in> set xs \<and> ?f (hparent (node h x)) < ?f x"
      unfolding i(2) using two [OF i(1)] up [OF i(1)] by blast+
  qed (rule t(2))
qed

lemma tree_rename:
  assumes "tree xs h" and "inj \<pi>" and "\<pi> NULL = NULL" and "hmin h' = \<pi> (hmin h)"
    and "\<And>x. x \<in> set xs \<Longrightarrow> node h' (\<pi> x) = rename_node \<pi> (node h x)"
  shows "tree (map \<pi> xs) h'"
proof -
  have at: "at (map \<pi> xs) i = \<pi> (at xs i)" for i using assms(3) by (simp add: at_def)
  have "NULL \<notin> set (map \<pi> xs)" using treeD(2) [OF assms(1)] assms(2,3) by (metis image_iff injD list.set_map)
  moreover have "distinct (map \<pi> xs)" using treeD(1) [OF assms(1)] assms(2) by (metis distinct_map inj_on_subset subset_UNIV)
  ultimately show ?thesis using assms treeD [OF assms(1)]
    by (auto simp: tree_def at) (auto simp: rename_node_def node_of_def at)
qed

lemma exch_simps [simp]: "exch p c p = c" "exch p c c = p" "x \<noteq> p \<Longrightarrow> x \<noteq> c \<Longrightarrow> exch p c x = x" "exch p c (exch p c x) = x"
  by (auto simp: exch_def)

lemma inj_exch: "inj (exch p c)"
  by (metis exch_simps(4) injI)

text \<open>Exchanging a node with its parent exchanges their places in the tree.\<close>

lemma heap_node_swap_rep:
  assumes "hrep xs h" and i: "0 < i" "i < length xs"
  shows "hrep (map (exch (xs ! ((i - 1) div 2)) (xs ! i)) xs) (heap_node_swap (xs ! ((i - 1) div 2)) (xs ! i) h)"
proof -
  let ?j = "(i - 1) div 2"
  let ?p = "xs ! ?j" and ?c = "xs ! i"
  have tr: "tree xs h" and n: "unat (nelts h) = length xs" using assms(1) by (auto simp: hrep_def)
  have j: "?j < length xs" using i by simp
  note t = treeD [OF tr]
  have c: "?c \<in> set xs" "?p \<in> set xs" "?p \<noteq> NULL" "?c \<noteq> NULL" using i j t(2) by (metis nth_mem)+
  have p: "hparent (node h ?c) = ?p" using t(4) [OF i(2)] i j by (simp add: at_def)
  note sw = swap_renames [OF tree_linked [OF tr] c(1) p c(3)]
  have "hparent (node h ?p) = NULL \<longleftrightarrow> ?j = 0" using t(4) [OF j] at_eq_NULL [OF t(2), of "(?j - 1) div 2"] j
    by (auto simp: at_def split: if_splits)
  then have "hmin (heap_node_swap ?p ?c h) = exch ?p ?c (hmin h)"
    using sw(2) [OF c(1)] t(3) i j t(1) by (auto simp: at_def exch_def nth_eq_iff_index_eq)
  moreover have "exch ?p ?c NULL = NULL" using c by (simp add: exch_def)
  moreover have "node (heap_node_swap ?p ?c h) (exch ?p ?c x) = rename_node (exch ?p ?c) (node h x)" if "x \<in> set xs" for x
    using sw(1) [of "exch ?p ?c x"] that c by (auto simp: exch_def split: if_splits)
  ultimately have "tree (map (exch ?p ?c) xs) (heap_node_swap ?p ?c h)"
    by (intro tree_rename [OF tr inj_exch])
  with n sw(3) [OF c(1)] show ?thesis by (simp add: hrep_def)
qed

section \<open>The path to a slot\<close>

text \<open>Slots are numbered from 1 in level order; slot \<open>m\<close> holds the node with index \<open>m - 1\<close>.\<close>

definition slot_of :: "ptr list \<Rightarrow> nat \<Rightarrow> slot" where
  "slot_of xs m = (if m \<le> 1 then Min else if even m then LeftOf (at xs (m div 2 - 1)) else RightOf (at xs (m div 2 - 1)))"

primrec walk :: "nat \<Rightarrow> u32 \<Rightarrow> nat \<Rightarrow> nat" where
  "walk 0 path m = m"
| "walk (Suc k) path m = walk k (drop_bit 1 path) (2 * m + unat path mod 2)"

lemma walk_ge: "m \<le> walk k path m"
proof (induction k arbitrary: path m)
  case (Suc k)
  have "m \<le> 2 * m + unat path mod 2" by simp
  also have "\<dots> \<le> walk k (drop_bit 1 path) \<dots>" by (rule Suc.IH)
  finally show ?case by simp
qed simp

lemma load_slot_of:
  assumes "tree xs h" and "1 \<le> m" and "m \<le> length xs + 1"
  shows "load_slot h (slot_of xs m) = at xs (m - 1)"
proof (cases "m = 1")
  case True
  then show ?thesis using treeD(3) [OF assms(1)] by (simp add: slot_of_def)
next
  case False
  with assms(2) have m: "2 \<le> m" by simp
  then have i: "m div 2 - 1 < length xs" using assms(3) by linarith
  have "even m \<Longrightarrow> 2 * (m div 2 - 1) + 1 = m - 1" "odd m \<Longrightarrow> 2 * (m div 2 - 1) + 2 = m - 1" using m by (auto elim!: evenE oddE)
  then show ?thesis using treeD(4) [OF assms(1) i] m by (auto simp: slot_of_def)
qed

lemma unat_and_1: "unat ((x :: 'a::len word) AND 1) = unat x mod 2"
  using unat_and_mask [of x 1] by (simp only: mask_1 power_one_right)

lemma odd_bit_iff: "(path :: u32) AND 1 \<noteq> 0 \<longleftrightarrow> unat path mod 2 = 1"
  using unat_and_1 [of path] by (metis mod2_eq_if unat_eq_zero zero_neq_one)

lemma child_slot_of:
  assumes "tree xs h" and "1 \<le> m" and "m \<le> length xs + 1"
  shows "child_slot h path (slot_of xs m) = slot_of xs (2 * m + unat path mod 2)"
proof -
  have "unat path mod 2 = 0 \<or> unat path mod 2 = 1" by linarith
  then show ?thesis using load_slot_of [OF assms] assms(2) by (elim disjE) (simp_all add: child_slot_def odd_bit_iff slot_of_def)
qed

lemma remove_walk_slot:
  assumes "tree xs h" and "1 \<le> m" and "walk k path m \<le> length xs + 1"
  shows "remove_walk h k path (slot_of xs m) = slot_of xs (walk k path m)"
  using assms(2-)
proof (induction k arbitrary: path m)
  case (Suc k)
  have "m \<le> length xs + 1" using walk_ge [of m "Suc k" path] Suc.prems by linarith
  with Suc show ?case by (simp add: child_slot_of [OF assms(1)])
qed simp

lemma insert_walk_slot:
  assumes "tree xs h" and "1 \<le> m" and "walk k path m \<le> length xs + 1"
  shows "insert_walk h k path P (slot_of xs m) = (if k = 0 then P else slot_of xs (walk k path m div 2), slot_of xs (walk k path m))"
  using assms(2-)
proof (induction k arbitrary: path m P)
  case (Suc k)
  have "m \<le> length xs + 1" using walk_ge [of m "Suc k" path] Suc.prems by linarith
  then have "insert_walk h (Suc k) path P (slot_of xs m)
      = insert_walk h k (drop_bit 1 path) (slot_of xs m) (slot_of xs (2 * m + unat path mod 2))"
    using Suc.prems by (simp add: child_slot_of [OF assms(1)])
  then show ?case using Suc.IH [of "2 * m + unat path mod 2" "drop_bit 1 path" "slot_of xs m"] Suc.prems by (cases "k = 0") auto
qed simp

lemma heap_path_walk:
  assumes "unat path < 2 ^ k" and "unat n * 2 ^ k < 2 ^ 32" and "1 \<le> unat n"
  shows "(case heap_path n path k of (path', k') \<Rightarrow> walk k' path' 1) = walk k path (unat n)"
  using assms
proof (induction n path k rule: heap_path.induct)
  case (1 n path k)
  show ?case
  proof (cases "2 \<le> n")
    case True
    then have n: "2 \<le> unat n" by (simp add: word_le_nat_alt)
    have "unat n = 2 * (unat n div 2) + unat n mod 2" by simp
    then have "(unat n div 2) * 2 ^ (k + 1) \<le> unat n * 2 ^ k" using mult_le_mono1 [of "2 * (unat n div 2)" "unat n" "2 ^ k"] by simp
    then have "(unat n div 2) * 2 ^ (k + 1) < 2 ^ 32" using 1(3) by linarith
    moreover have "2 ^ (k + 1) \<le> (unat n div 2) * 2 ^ (k + 1)" using n by simp
    ultimately have k: "2 ^ (k + 1) < (2::nat) ^ 32" by linarith
    let ?p = "push_bit 1 path OR (n AND 1)"
    have "unat path * 2 ^ 1 < 2 ^ LENGTH(32)" using 1(2) k by simp
    then have p: "unat ?p = unat path * 2 + unat n mod 2"
      using push_or_disjoint [of "n AND 1" 1 path] by (simp add: unat_and_1)
    have "unat (drop_bit 1 ?p) = unat ?p div 2 ^ 1" by (rule unat_div_drop_bit [symmetric])
    then have "unat (drop_bit 1 ?p) = unat path" unfolding p by simp
    then have d: "drop_bit 1 ?p = path" by (rule unsigned_word_eqI)
    have "(case heap_path n path k of (path', k') \<Rightarrow> walk k' path' 1) = walk (k + 1) ?p (unat (n div 2))"
      using 1(1) [OF True] 1(2) p \<open>(unat n div 2) * 2 ^ (k + 1) < 2 ^ 32\<close> n True by (simp add: unat_div heap_path.simps [of n path k])
    also have "\<dots> = walk k path (2 * unat (n div 2) + unat ?p mod 2)" by (simp only: Suc_eq_plus1 [symmetric] walk.simps d)
    also have "2 * unat (n div 2) + unat ?p mod 2 = unat n" unfolding p by (simp add: unat_div)
    finally show ?thesis .
  next
    case False
    then have "unat n = 1" using 1(4) by (simp add: word_le_nat_alt)
    then show ?thesis using False by (simp add: heap_path.simps [of n path k])
  qed
qed

text \<open>The path computed for slot \<open>n\<close> leads to slot \<open>n\<close>, in both traversals.\<close>

lemma path_reaches:
  assumes "tree xs h" and "heap_path n 0 0 = (path, k)" and "1 \<le> unat n" and "unat n \<le> length xs + 1"
  shows "remove_walk h k path Min = slot_of xs (unat n)"
    and "insert_walk h k path Min Min = (slot_of xs (unat n div 2), slot_of xs (unat n))"
proof -
  have w: "walk k path 1 = unat n" using heap_path_walk [of 0 0 n] assms(2,3) unsigned_less [of n] by simp
  have m: "Min = slot_of xs 1" "slot_of xs 0 = Min" by (simp_all add: slot_of_def)
  show "remove_walk h k path Min = slot_of xs (unat n)"
    using remove_walk_slot [OF assms(1), of 1 k path] w assms(4) m by simp
  have "k = 0 \<Longrightarrow> unat n = 1" using w by simp
  then show "insert_walk h k path Min Min = (slot_of xs (unat n div 2), slot_of xs (unat n))"
    using insert_walk_slot [OF assms(1), of 1 k path Min] w assms(4) m by (auto split: if_splits)
qed

lemma at_snoc: "at (xs @ [y]) i = (if i = length xs then y else at xs i)"
  by (simp add: at_def nth_append)

lemma last_parent: "0 < n \<Longrightarrow> (n + 1) div 2 - 1 = (n - 1) div (2 :: nat)"
  by linarith

lemma slot_last:
  assumes "0 < length xs"
  shows "slot_of xs (length xs + 1) =
     (if odd (length xs) then LeftOf (xs ! ((length xs - 1) div 2)) else RightOf (xs ! ((length xs - 1) div 2)))"
proof -
  have "(length xs - 1) div 2 < length xs" using assms by simp
  with assms show ?thesis unfolding slot_of_def at_def last_parent [OF assms] by auto
qed

lemma kid_last:
  assumes "0 < n"
  shows "2 * i + 1 = n \<longleftrightarrow> odd n \<and> i = (n - 1) div 2" and "2 * i + 2 = n \<longleftrightarrow> even n \<and> i = (n - 1) div (2 :: nat)"
  using assms by presburger+

lemma node_of_snoc:
  assumes "i < length xs"
  shows "i \<noteq> (length xs - 1) div 2 \<Longrightarrow> node_of (xs @ [y]) i = node_of xs i"
    and "i = (length xs - 1) div 2 \<Longrightarrow> odd (length xs) \<Longrightarrow>
      node_of (xs @ [y]) i = (node_of xs i)\<lparr>hleft := y\<rparr> \<and> hleft (node_of xs i) = NULL"
    and "i = (length xs - 1) div 2 \<Longrightarrow> even (length xs) \<Longrightarrow>
      node_of (xs @ [y]) i = (node_of xs i)\<lparr>hright := y\<rparr> \<and> hright (node_of xs i) = NULL"
proof -
  have n: "0 < length xs" using assms by linarith
  have p: "(i - 1) div 2 \<noteq> length xs" using assms by linarith
  note k = kid_last [OF n, of i]
  show "i \<noteq> (length xs - 1) div 2 \<Longrightarrow> node_of (xs @ [y]) i = node_of xs i"
    using k p by (simp add: node_of_def at_snoc)
  assume i: "i = (length xs - 1) div 2"
  show "odd (length xs) \<Longrightarrow> node_of (xs @ [y]) i = (node_of xs i)\<lparr>hleft := y\<rparr> \<and> hleft (node_of xs i) = NULL"
    using k i p by (simp add: node_of_def at_snoc) (simp add: at_def)
  show "even (length xs) \<Longrightarrow> node_of (xs @ [y]) i = (node_of xs i)\<lparr>hright := y\<rparr> \<and> hright (node_of xs i) = NULL"
    using k i p by (simp add: node_of_def at_snoc) (simp add: at_def)
qed

lemma link_last:
  assumes "tree xs h" and "y \<notin> set xs" and "y \<noteq> NULL"
    and "node h y = \<lparr>hleft = NULL, hright = NULL, hparent = NULL\<rparr>"
  shows "tree (xs @ [y]) (store_slot (slot_of xs (length xs + 1)) y
           (set_parent y (load_slot h (slot_of xs ((length xs + 1) div 2))) h))"
proof (cases "xs = []")
  case True
  with assms show ?thesis using treeD(3) [OF assms(1)]
    by (simp add: slot_of_def tree_def at_def node_of_def)
next
  case False
  let ?n = "length xs" let ?j = "(?n - 1) div 2" let ?q = "xs ! ?j"
  note t = treeD [OF assms(1)]
  from False have n: "0 < ?n" by simp
  then have j: "?j < ?n" by simp
  have l: "load_slot h (slot_of xs ((?n + 1) div 2)) = ?q"
  proof -
    have "1 \<le> (?n + 1) div 2" "(?n + 1) div 2 \<le> ?n + 1" using n by linarith+
    from load_slot_of [OF assms(1) this] show ?thesis unfolding last_parent [OF n] at_def using j by simp
  qed
  have q: "?q \<noteq> y" using assms(2) j by (metis nth_mem)
  let ?h = "store_slot (slot_of xs (?n + 1)) y (set_parent y ?q h)"
  have "node ?h (xs ! i) = node_of (xs @ [y]) i" if i: "i < ?n" for i
  proof -
    have "xs ! i \<noteq> y" using assms(2) i by (metis nth_mem)
    moreover have "xs ! i = ?q \<longleftrightarrow> i = ?j" using t(1) i j by (simp add: nth_eq_iff_index_eq)
    moreover have "node h (xs ! i) = node_of xs i" using t(4) [OF i] i by (simp add: at_def)
    ultimately show ?thesis using slot_last [OF n] node_of_snoc [OF i, of y] q
      by (cases "i = ?j"; cases "odd ?n") (simp_all del: One_nat_def)
  qed
  moreover have "node ?h y = node_of (xs @ [y]) ?n"
  proof -
    have "?j \<noteq> ?n" using j by simp
    with slot_last [OF n] q assms(4) n j show ?thesis by (auto simp: node_of_def at_snoc) (auto simp: at_def)
  qed
  moreover have "hmin ?h = at (xs @ [y]) 0" using slot_last [OF n] t(3) n by (auto simp: at_snoc)
  ultimately show ?thesis using t(1,2) assms(2,3) l
    by (auto simp: tree_def nth_append less_Suc_eq)
qed

lemma unlink_last:
  assumes "tree (xs @ [y]) h"
  shows "load_slot h (slot_of (xs @ [y]) (length xs + 1)) = y"
    and "tree xs (store_slot (slot_of (xs @ [y]) (length xs + 1)) NULL h)"
proof -
  let ?n = "length xs" let ?j = "(?n - 1) div 2" let ?q = "xs ! ?j"
  note t = treeD [OF assms]
  show "load_slot h (slot_of (xs @ [y]) (length xs + 1)) = y"
    using load_slot_of [OF assms, of "?n + 1"] by (simp add: at_snoc)
  show "tree xs (store_slot (slot_of (xs @ [y]) (length xs + 1)) NULL h)"
  proof (cases "xs = []")
    case True
    then show ?thesis by (simp add: slot_of_def tree_def at_def)
  next
    case False
    then have n: "0 < ?n" by simp
    then have j: "?j < ?n" by simp
    have sl: "slot_of (xs @ [y]) (?n + 1) = (if odd ?n then LeftOf ?q else RightOf ?q)"
      using j n unfolding slot_of_def at_def last_parent [OF n] by (auto simp: nth_append)
    have "node (store_slot (slot_of (xs @ [y]) (?n + 1)) NULL h) (xs ! i) = node_of xs i" if i: "i < ?n" for i
    proof -
      have "xs ! i = ?q \<longleftrightarrow> i = ?j" using t(1) i j by (simp add: nth_eq_iff_index_eq)
      moreover have "node h (xs ! i) = node_of (xs @ [y]) i" using t(4) [of i] i by (simp add: at_def nth_append)
      ultimately show ?thesis using sl node_of_snoc [OF i, of y]
        by (cases "i = ?j"; cases "odd ?n") (simp_all del: One_nat_def)
    qed
    moreover have "hmin (store_slot (slot_of (xs @ [y]) (?n + 1)) NULL h) = hmin h" unfolding sl by simp
    ultimately show ?thesis using t(1,2,3) n by (auto simp: tree_def at_snoc)
  qed
qed

lemma replace_renames:
  assumes "linked A (node h) f" and c: "c \<in> A" and y: "y \<notin> A" "y \<noteq> NULL" and x: "x \<in> A"
  shows "node (replace_node c y h) (exch c y x) = rename_node (exch c y) (node h x)"
    and "hmin (replace_node c y h) = (if hparent (node h c) = NULL then y else hmin h)"
    and "nelts (replace_node c y h) = nelts h"
proof -
  note A = linkedD(1) [OF assms(1)] and kids = linkedD(2) [OF assms(1)] and two = linkedD(3) [OF assms(1)]
    and up = linkedD(4) [OF assms(1)]
  define l r g where "l = hleft (node h c)" and "r = hright (node h c)" and "g = hparent (node h c)"
  have in_A: "l \<noteq> NULL \<Longrightarrow> l \<in> A \<and> hparent (node h l) = c" "r \<noteq> NULL \<Longrightarrow> r \<in> A \<and> hparent (node h r) = c" "g \<noteq> NULL \<Longrightarrow> g \<in> A"
    using kids [OF c, of l] kids [OF c, of r] up [OF c] by (auto simp: l_def r_def g_def)
  have cN: "c \<noteq> NULL" "c \<noteq> y" using c A y by metis+
  have neq: "l \<noteq> c" "r \<noteq> c" "g \<noteq> c" "l \<noteq> y" "r \<noteq> y" "g \<noteq> y"
    using in_A up [of c] up [of l] up [of r] c cN y by (auto simp: g_def)
  define h1 where "h1 = set_parent y g (set_right y r (set_left y l h))"
  define h2 where "h2 = link_parent l y h1"
  define h3 where "h3 = link_parent r y h2"
  have h1: "node h1 = (node h)(y := node h c)" by (auto simp: h1_def l_def r_def g_def)
  have h3: "node h3 z = (if z \<noteq> NULL \<and> (z = l \<or> z = r) then (node h1 z)\<lparr>hparent := y\<rparr> else node h1 z)" for z
    by (auto simp: h3_def h2_def node_link_parent)
  have u: "hleft (node h1 y) = l" "hright (node h2 y) = r" "hparent (node h3 c) = g"
    using neq cN by (auto simp: h3 h2_def node_link_parent h1 l_def r_def g_def)
  have rp: "replace_node c y h = relink g c y h3"
  proof -
    have "hright (node (set_left y l h) c) = r" "hparent (node (set_right y r (set_left y l h)) c) = g"
      using cN by (simp_all add: r_def g_def)
    then show ?thesis
      by (simp only: replace_node_def Let_def l_def [symmetric] h1_def [symmetric] u h2_def [symmetric] h3_def [symmetric])
  qed
  show "hmin (replace_node c y h) = (if hparent (node h c) = NULL then y else hmin h)" "nelts (replace_node c y h) = nelts h"
    by (simp_all add: rp node_relink g_def h3_def h2_def h1_def node_link_parent)
  show "node (replace_node c y h) (exch c y x) = rename_node (exch c y) (node h x)"
  proof (cases "x = c")
    case True
    then show ?thesis using neq cN
      by (simp add: rp node_relink h3 h1 rename_node_def exch_def l_def r_def g_def)
  next
    case False
    have xN: "x \<noteq> NULL" "x \<noteq> y" using x A y by metis+
    have e: "exch c y x = x" using False xN by simp
    have lr: "x = l \<or> x = r \<longleftrightarrow> hparent (node h x) = c" using kids [OF c xN(1)] x by (auto simp: l_def r_def)
    have ny: "hleft (node h x) \<noteq> y" "hright (node h x) \<noteq> y" "hparent (node h x) \<noteq> y"
      using kids [OF x, of y] up [OF x] y by auto
    have gx: "hleft (node h x) = c \<or> hright (node h x) = c \<longleftrightarrow> x = g" using kids [OF x cN(1)] c by (auto simp: g_def)
    have n: "node h x = \<lparr>hleft = hleft (node h x), hright = hright (node h x), hparent = hparent (node h x)\<rparr>" by simp
    moreover have "node h1 x = node h x" using xN by (simp add: h1)
    ultimately have h3x: "node h3 x = \<lparr>hleft = hleft (node h x), hright = hright (node h x), hparent = exch c y (hparent (node h x))\<rparr>"
      unfolding h3 exch_def using xN lr ny by (cases "hparent (node h x) = c") auto
    have "hleft (node h x) \<noteq> c \<or> hright (node h x) \<noteq> c" using two [OF x] cN by auto
    with gx consider "x \<noteq> g" "hleft (node h x) \<noteq> c" "hright (node h x) \<noteq> c"
      | "x = g" "hleft (node h x) = c" "hright (node h x) \<noteq> c" | "x = g" "hleft (node h x) \<noteq> c" "hright (node h x) = c"
      by blast
    then show ?thesis unfolding rp node_relink e h3x rename_node_def using ny xN
      by cases simp_all
  qed
qed

lemma replace_node_rep:
  assumes "tree xs h" and "i < length xs" and "y \<notin> set xs" and "y \<noteq> NULL"
  shows "tree (map (exch (xs ! i) y) xs) (replace_node (xs ! i) y h)" and "nelts (replace_node (xs ! i) y h) = nelts h"
proof -
  note t = treeD [OF assms(1)]
  have c: "xs ! i \<in> set xs" using assms(2) by simp
  note r = replace_renames [OF tree_linked [OF assms(1)] c assms(3,4)]
  show "nelts (replace_node (xs ! i) y h) = nelts h" using r(3) [OF c] .
  have "hparent (node h (xs ! i)) = NULL \<longleftrightarrow> i = 0"
    using t(4) [OF assms(2)] at_eq_NULL [OF t(2), of "(i - 1) div 2"] assms(2) by (auto simp: at_def split: if_splits)
  moreover have "hmin h \<in> set xs" using t(3) assms(2) by (cases xs) (auto simp: at_def)
  ultimately have "hmin (replace_node (xs ! i) y h) = exch (xs ! i) y (hmin h)"
    using r(2) [OF c] t(3) assms(2,3) t(1) by (auto simp: at_def exch_def nth_eq_iff_index_eq)
  moreover have "exch (xs ! i) y NULL = NULL" using c t(2) assms(4) by (metis exch_simps(3))
  ultimately show "tree (map (exch (xs ! i) y) xs) (replace_node (xs ! i) y h)"
    using r(1) by (intro tree_rename [OF assms(1) inj_exch])
qed

end
