(* ===== verification/UVHeap_Order.thy ===== *)
theory UVHeap_Order
  imports UVHeap "HOL-Library.Multiset"
begin

text \<open>
  The order of the heap.  \<open>heap_order\<close> is what \<^verbatim>\<open>heap-inl.h\<close> asks of its comparison function;
  for such a function
  \<^item> \<open>walk_up_ok\<close>, \<open>walk_down_ok\<close>: the two loops end, and move one misplaced node to its place;
  \<^item> \<open>heap_insert_spec\<close>, \<open>heap_remove_spec\<close>: both operations return, keep the tree complete and in
    order, and add or remove the one node;
  \<^item> \<open>heap_min_spec\<close>: the root is a least node.
\<close>

section \<open>Heap order\<close>

text \<open>No node is less than its parent; \<open>nearly\<close> excepts the index \<open>i\<close>, whose children are compared
  with the parent of \<open>i\<close> instead.\<close>

definition heap_ordered :: "(ptr \<Rightarrow> ptr \<Rightarrow> bool) \<Rightarrow> ptr list \<Rightarrow> bool" where
  "heap_ordered lt xs \<longleftrightarrow> (\<forall>k. 0 < k \<longrightarrow> k < length xs \<longrightarrow> \<not> lt (xs ! k) (xs ! ((k - 1) div 2)))"

definition nearly :: "(ptr \<Rightarrow> ptr \<Rightarrow> bool) \<Rightarrow> ptr list \<Rightarrow> nat \<Rightarrow> bool" where
  "nearly lt xs i \<longleftrightarrow> (\<forall>k. 0 < k \<longrightarrow> k < length xs \<longrightarrow> k \<noteq> i \<longrightarrow>
     ((k - 1) div 2 \<noteq> i \<longrightarrow> \<not> lt (xs ! k) (xs ! ((k - 1) div 2))) \<and>
     ((k - 1) div 2 = i \<longrightarrow> 0 < i \<longrightarrow> \<not> lt (xs ! k) (xs ! ((i - 1) div 2))))"

definition kids_ok :: "(ptr \<Rightarrow> ptr \<Rightarrow> bool) \<Rightarrow> ptr list \<Rightarrow> nat \<Rightarrow> bool" where
  "kids_ok lt xs i \<longleftrightarrow> (\<forall>k. 0 < k \<longrightarrow> k < length xs \<longrightarrow> (k - 1) div 2 = i \<longrightarrow> \<not> lt (xs ! k) (xs ! i))"

text \<open>What the heap asks of the comparison: a strict weak order.\<close>

locale heap_order =
  fixes lt :: "ptr \<Rightarrow> ptr \<Rightarrow> bool"
  assumes asym: "lt a b \<Longrightarrow> \<not> lt b a"
    and neg_trans: "\<not> lt a b \<Longrightarrow> \<not> lt b c \<Longrightarrow> \<not> lt a c"
begin

lemma irrefl: "\<not> lt a a"
  using asym by blast

lemma lt_le_trans: "lt a b \<Longrightarrow> \<not> lt c b \<Longrightarrow> \<not> lt c a"
  using asym neg_trans by blast

lemma orderedI: "nearly lt xs i \<Longrightarrow> kids_ok lt xs i \<Longrightarrow> (0 < i \<Longrightarrow> i < length xs \<Longrightarrow> \<not> lt (xs ! i) (xs ! ((i - 1) div 2))) \<Longrightarrow> heap_ordered lt xs"
proof (unfold heap_ordered_def, intro allI impI)
  fix k assume *: "nearly lt xs i" "kids_ok lt xs i" "0 < i \<Longrightarrow> i < length xs \<Longrightarrow> \<not> lt (xs ! i) (xs ! ((i - 1) div 2))" "0 < k" "k < length xs"
  consider "k = i" | "(k - 1) div 2 = i" | "k \<noteq> i" "(k - 1) div 2 \<noteq> i" by blast
  then show "\<not> lt (xs ! k) (xs ! ((k - 1) div 2))"
    using * by cases (simp_all add: nearly_def kids_ok_def)
qed

lemma nth_exch:
  assumes "distinct xs" and "i < length xs" "j < length xs" "k < length xs"
  shows "map (exch (xs ! j) (xs ! i)) xs ! k = (if k = j then xs ! i else if k = i then xs ! j else xs ! k)"
  using assms by (auto simp: exch_def nth_eq_iff_index_eq)

lemma swap_up:
  assumes "distinct xs" and i: "0 < i" "i < length xs" and near: "nearly lt xs i" and kids: "kids_ok lt xs i"
    and lt: "lt (xs ! i) (xs ! ((i - 1) div 2))"
  defines "j \<equiv> (i - 1) div 2"
  defines "ys \<equiv> map (exch (xs ! j) (xs ! i)) xs"
  shows "nearly lt ys j" and "kids_ok lt ys j"
proof -
  have j: "j < length xs" "j < i" using i by (auto simp: j_def)
  have ys: "ys ! k = (if k = j then xs ! i else if k = i then xs ! j else xs ! k)" if "k < length xs" for k
    unfolding ys_def using nth_exch [OF assms(1) i(2) j(1) that] .
  have len: "length ys = length xs" by (simp add: ys_def)
  have sib: "\<not> lt (xs ! k) (xs ! j)" if "0 < k" "k < length xs" "(k - 1) div 2 = j" "k \<noteq> i" for k
    using near that j unfolding nearly_def by auto
  show "kids_ok lt ys j" unfolding kids_ok_def len
  proof (intro allI impI)
    fix k assume k: "0 < k" "k < length xs" "(k - 1) div 2 = j"
    then have "k \<noteq> j" by auto
    with k sib [OF k] lt asym [OF lt] lt_le_trans [OF lt] j show "\<not> lt (ys ! k) (ys ! j)" by (auto simp: ys j_def)
  qed
  show "nearly lt ys j" unfolding nearly_def len
  proof (intro allI impI conjI)
    fix k assume k: "0 < k" "k < length xs" "k \<noteq> j"
    {
      assume kj: "(k - 1) div 2 \<noteq> j"
      then have ki: "k \<noteq> i" by (auto simp: j_def)
      show "\<not> lt (ys ! k) (ys ! ((k - 1) div 2))"
      proof (cases "(k - 1) div 2 = i")
        case True
        then have "\<not> lt (xs ! k) (xs ! j)" using near k ki i by (auto simp: nearly_def j_def)
        then show ?thesis using True k ki j by (simp add: ys)
      next
        case False
        then have "\<not> lt (xs ! k) (xs ! ((k - 1) div 2))" using near k ki by (simp add: nearly_def)
        moreover have "(k - 1) div 2 < length xs" using k by simp
        ultimately show ?thesis using False kj k ki by (simp add: ys)
      qed
    next
      assume kj: "(k - 1) div 2 = j" "0 < j"
      have pj: "(j - 1) div 2 < j" using kj(2) by simp
      then have up: "\<not> lt (xs ! j) (xs ! ((j - 1) div 2))" using near kj(2) j by (auto simp: nearly_def)
      then have "\<not> lt (xs ! k) (xs ! ((j - 1) div 2))" if "k \<noteq> i" using neg_trans sib [OF k(1,2) kj(1) that] by blast
      then show "\<not> lt (ys ! k) (ys ! ((j - 1) div 2))" using up k pj j by (auto simp: ys)
    }
  qed
qed

lemma swap_down:
  assumes "distinct xs" and s: "0 < s" "s < length xs" and near: "nearly lt xs i" and i: "(s - 1) div 2 = i"
    and lt: "lt (xs ! s) (xs ! i)"
    and least: "\<And>k. 0 < k \<Longrightarrow> k < length xs \<Longrightarrow> (k - 1) div 2 = i \<Longrightarrow> \<not> lt (xs ! k) (xs ! s)"
  defines "ys \<equiv> map (exch (xs ! i) (xs ! s)) xs"
  shows "nearly lt ys s"
proof -
  have j: "i < length xs" "i < s" using s i by auto
  have ys: "ys ! k = (if k = i then xs ! s else if k = s then xs ! i else xs ! k)" if "k < length xs" for k
    unfolding ys_def using nth_exch [OF assms(1) s(2) j(1) that] .
  have len: "length ys = length xs" by (simp add: ys_def)
  show "nearly lt ys s" unfolding nearly_def len
  proof (intro allI impI conjI)
    fix k assume k: "0 < k" "k < length xs" "k \<noteq> s"
    have pk: "(k - 1) div 2 < length xs" "(k - 1) div 2 < k" using k by auto
    {
      assume ks: "(k - 1) div 2 \<noteq> s"
      show "\<not> lt (ys ! k) (ys ! ((k - 1) div 2))"
      proof (cases "(k - 1) div 2 = i")
        case True
        then show ?thesis using least [OF k(1,2) True] k pk j by (simp add: ys)
      next
        case False
        then have "k \<noteq> i \<Longrightarrow> \<not> lt (xs ! k) (xs ! ((k - 1) div 2))" using near k by (simp add: nearly_def)
        moreover have "k = i \<Longrightarrow> \<not> lt (xs ! s) (xs ! ((i - 1) div 2))"
          using near [unfolded nearly_def, rule_format, of s] s i j k by simp
        ultimately show ?thesis using False ks k pk by (auto simp: ys)
      qed
    next
      assume ks: "(k - 1) div 2 = s" "0 < s"
      then have "k \<noteq> i" using j pk by linarith
      moreover have "\<not> lt (xs ! k) (xs ! ((k - 1) div 2))" using near k ks j \<open>k \<noteq> i\<close> by (auto simp: nearly_def)
      ultimately show "\<not> lt (ys ! k) (ys ! ((s - 1) div 2))" using ks k j i by (simp add: ys)
    }
  qed
qed

end

lemma mset_exch: "distinct xs \<Longrightarrow> p \<in> set xs \<Longrightarrow> c \<in> set xs \<Longrightarrow> mset (map (exch p c) xs) = mset xs"
proof -
  assume a: "distinct xs" "p \<in> set xs" "c \<in> set xs"
  have "set (map (exch p c) xs) = set xs" using a by (auto simp: exch_def image_iff)
  moreover have "distinct (map (exch p c) xs)" using a(1) inj_exch [of p c] by (metis distinct_map inj_on_subset subset_UNIV)
  ultimately show ?thesis using a(1) set_eq_iff_mset_eq_distinct by blast
qed

lemma hrepD: "hrep xs h \<Longrightarrow> tree xs h" "hrep xs h \<Longrightarrow> distinct xs"
  by (auto simp: hrep_def tree_def)

lemma node_rep:
  assumes "hrep xs h" and "i < length xs"
  shows "node h (xs ! i) = node_of xs i" "xs ! i \<noteq> NULL"
  using assms by (auto simp: hrep_def tree_def in_set_conv_nth)

context heap_order
begin

lemma walk_up_ok:
  assumes "hrep xs h" and "i < length xs" and "nearly lt xs i" and "kids_ok lt xs i"
  shows "\<exists>h' ys. walk_up lt (xs ! i) h = Some h' \<and> hrep ys h' \<and> heap_ordered lt ys \<and> mset ys = mset xs"
  using assms
proof (induction i arbitrary: xs h rule: less_induct)
  case (less i)
  let ?j = "(i - 1) div 2"
  have p: "hparent (node h (xs ! i)) = (if i = 0 then NULL else xs ! ?j)"
  proof -
    have "?j < length xs" using less.prems(2) by linarith
    then show ?thesis using node_rep [OF less.prems(1,2)] by (simp add: at_def)
  qed
  show ?case
  proof (cases "0 < i \<and> lt (xs ! i) (xs ! ?j)")
    case False
    then have "walk_up lt (xs ! i) h = Some h" using walk_up.simps [of lt "xs ! i" h] p by auto
    moreover have "heap_ordered lt xs" using orderedI [OF less.prems(3,4)] False by auto
    ultimately show ?thesis using less.prems(1) by auto
  next
    case True
    then have j: "?j < i" "?j < length xs" "xs ! ?j \<noteq> NULL" using less.prems node_rep(2) [OF less.prems(1), of ?j] by auto
    let ?ys = "map (exch (xs ! ?j) (xs ! i)) xs" let ?h = "heap_node_swap (xs ! ?j) (xs ! i) h"
    have r: "hrep ?ys ?h" using heap_node_swap_rep [OF less.prems(1)] True less.prems(2) by blast
    have "nearly lt ?ys ?j" "kids_ok lt ?ys ?j"
      using swap_up [OF hrepD(2) [OF less.prems(1)] _ less.prems(2-4)] True by blast+
    moreover have "?ys ! ?j = xs ! i" using j by simp
    moreover have "mset ?ys = mset xs" using mset_exch [OF hrepD(2) [OF less.prems(1)]] j less.prems(2) by simp
    moreover have "walk_up lt (xs ! i) h = walk_up lt (xs ! i) ?h"
      using walk_up.simps [of lt "xs ! i" h] p True j by auto
    ultimately show ?thesis using less.IH [OF j(1) r] j by simp
  qed
qed

lemma smallest_of_ok:
  assumes "hrep xs h" and i: "i < length xs"
  shows "smallest_of lt h (xs ! i) = xs ! i \<and> kids_ok lt xs i \<or>
    (\<exists>s. 0 < s \<and> s < length xs \<and> (s - 1) div 2 = i \<and> smallest_of lt h (xs ! i) = xs ! s \<and> lt (xs ! s) (xs ! i) \<and>
       (\<forall>k. 0 < k \<longrightarrow> k < length xs \<longrightarrow> (k - 1) div 2 = i \<longrightarrow> \<not> lt (xs ! k) (xs ! s)))"
proof -
  let ?l = "2 * i + 1" and ?r = "2 * i + 2"
  have kid: "(k - 1) div 2 = i \<longleftrightarrow> k = ?l \<or> k = ?r" if "0 < k" for k using that by linarith
  have n: "at xs k \<noteq> NULL \<longleftrightarrow> k < length xs" for k using at_eq_NULL [OF treeD(2) [OF hrepD(1) [OF assms(1)]]] by (simp add: not_le)
  have e: "smallest_of lt h (xs ! i) =
     (let m = (if ?l < length xs \<and> lt (xs ! ?l) (xs ! i) then xs ! ?l else xs ! i)
      in if ?r < length xs \<and> lt (xs ! ?r) m then xs ! ?r else m)"
    unfolding smallest_of_def node_rep(1) [OF assms] node_of_sel n by (simp add: at_def Let_def cong: conj_cong)
  consider (r) "?r < length xs" "lt (xs ! ?r) (xs ! i)" "\<not> lt (xs ! ?l) (xs ! ?r)" "smallest_of lt h (xs ! i) = xs ! ?r"
    | (l) "?l < length xs" "lt (xs ! ?l) (xs ! i)" "?r < length xs \<longrightarrow> \<not> lt (xs ! ?r) (xs ! ?l)" "smallest_of lt h (xs ! i) = xs ! ?l"
    | (i) "?l < length xs \<longrightarrow> \<not> lt (xs ! ?l) (xs ! i)" "?r < length xs \<longrightarrow> \<not> lt (xs ! ?r) (xs ! i)" "smallest_of lt h (xs ! i) = xs ! i"
  proof (cases "?l < length xs \<and> lt (xs ! ?l) (xs ! i)")
    case L: True
    show thesis
    proof (cases "?r < length xs \<and> lt (xs ! ?r) (xs ! ?l)")
      case True
      then have "lt (xs ! ?r) (xs ! i)" "\<not> lt (xs ! ?l) (xs ! ?r)" using L asym neg_trans by blast+
      then show thesis using True L by (intro r) (simp_all add: e Let_def)
    next
      case False
      then show thesis using L by (intro l) (auto simp: e Let_def)
    qed
  next
    case L: False
    show thesis
    proof (cases "?r < length xs \<and> lt (xs ! ?r) (xs ! i)")
      case True
      then have "\<not> lt (xs ! ?l) (xs ! ?r)" using L lt_le_trans by auto
      then show thesis using True L by (intro r) (simp_all add: e Let_def)
    next
      case False
      then show thesis using L by (intro i) (auto simp: e Let_def)
    qed
  qed
  then show ?thesis
  proof cases
    case r
    then show ?thesis using irrefl kid [of ?r] by (intro disjI2 exI [of _ ?r]) (auto simp: kid simp del: One_nat_def)
  next
    case l
    then show ?thesis using irrefl kid [of ?l] by (intro disjI2 exI [of _ ?l]) (auto simp: kid simp del: One_nat_def)
  next
    case i
    then show ?thesis unfolding kids_ok_def by (auto simp: kid simp del: One_nat_def)
  qed
qed

lemma walk_down_ok:
  assumes "hrep xs h" and "i < length xs" and "nearly lt xs i"
  shows "\<exists>h' ys m. walk_down lt (xs ! i) h = Some h' \<and> hrep ys h' \<and> m < length ys \<and> ys ! m = xs ! i
    \<and> nearly lt ys m \<and> kids_ok lt ys m \<and> mset ys = mset xs"
  using assms
proof (induction "length xs - i" arbitrary: xs h i rule: less_induct)
  case less
  note d = hrepD(2) [OF less.prems(1)]
  from smallest_of_ok [OF less.prems(1,2)] show ?case
  proof (elim disjE exE conjE)
    assume "smallest_of lt h (xs ! i) = xs ! i" "kids_ok lt xs i"
    then have "walk_down lt (xs ! i) h = Some h" using walk_down.simps [of lt "xs ! i" h] by simp
    with \<open>kids_ok lt xs i\<close> less.prems show ?thesis by blast
  next
    fix s
    assume s: "0 < s" "s < length xs" "(s - 1) div 2 = i" "smallest_of lt h (xs ! i) = xs ! s" "lt (xs ! s) (xs ! i)"
      and least: "\<forall>k. 0 < k \<longrightarrow> k < length xs \<longrightarrow> (k - 1) div 2 = i \<longrightarrow> \<not> lt (xs ! k) (xs ! s)"
    let ?ys = "map (exch (xs ! i) (xs ! s)) xs" let ?h = "heap_node_swap (xs ! i) (xs ! s) h"
    have si: "i < s" using s by auto
    have "xs ! s \<noteq> xs ! i" using s(5) irrefl by auto
    then have w: "walk_down lt (xs ! i) h = walk_down lt (xs ! i) ?h"
      using walk_down.simps [of lt "xs ! i" h] s(4) by simp
    have r: "hrep ?ys ?h" using heap_node_swap_rep [OF less.prems(1) s(1,2)] s(3) by simp
    have "nearly lt ?ys s" using swap_down [OF d s(1,2) less.prems(3) s(3,5)] least by blast
    with less.hyps [OF _ r, of s] s si have "\<exists>h' ys m. walk_down lt (?ys ! s) ?h = Some h' \<and> hrep ys h' \<and> m < length ys \<and> ys ! m = ?ys ! s
      \<and> nearly lt ys m \<and> kids_ok lt ys m \<and> mset ys = mset ?ys" by fastforce
    moreover have "mset ?ys = mset xs" using mset_exch [OF d] s(2) less.prems(2) by simp
    ultimately show ?thesis using s(2) w by simp
  qed
qed

lemma ordered_snoc: "heap_ordered lt (xs @ [y]) \<Longrightarrow> heap_ordered lt xs"
  unfolding heap_ordered_def
proof (intro allI impI)
  fix k assume a: "\<forall>k. 0 < k \<longrightarrow> k < length (xs @ [y]) \<longrightarrow> \<not> lt ((xs @ [y]) ! k) ((xs @ [y]) ! ((k - 1) div 2))" "0 < k" "k < length xs"
  then have "(k - 1) div 2 < length xs" by auto
  with a show "\<not> lt (xs ! k) (xs ! ((k - 1) div 2))" by (auto simp: nth_append dest: spec [of _ k])
qed

lemma nearly_snoc:
  assumes "heap_ordered lt xs"
  shows "nearly lt (xs @ [y]) (length xs)" and "kids_ok lt (xs @ [y]) (length xs)"
proof -
  have k: "(k - 1) div 2 < length xs" if "k < length xs" for k using that by linarith
  then show "nearly lt (xs @ [y]) (length xs)" using assms
    by (auto simp: nearly_def heap_ordered_def nth_append)
  show "kids_ok lt (xs @ [y]) (length xs)" unfolding kids_ok_def
    by (auto dest: half_less)
qed

text \<open>Insertion: the tree stays complete and in order, and has the new node.\<close>

lemma heap_insert_spec:
  assumes "hrep xs h" and "heap_ordered lt xs" and "y \<notin> set xs" and "y \<noteq> NULL" and "length xs + 1 < 2 ^ 32"
  shows "\<exists>h' ys. heap_insert h y lt = Some h' \<and> hrep ys h' \<and> heap_ordered lt ys \<and> mset ys = add_mset y (mset xs)"
proof -
  let ?h0 = "set_node y \<lparr>hleft = NULL, hright = NULL, hparent = NULL\<rparr> h"
  have t: "tree xs ?h0" using hrepD(1) [OF assms(1)] assms(3) by (auto simp: tree_def)
  have n: "unat (1 + nelts h) = length xs + 1" using assms(1,5) by (simp add: hrep_def unat_word_ariths)
  obtain path k where p: "heap_path (1 + nelts h) 0 0 = (path, k)" by force
  let ?h1 = "store_slot (slot_of xs (length xs + 1)) y (set_parent y (load_slot ?h0 (slot_of xs ((length xs + 1) div 2))) ?h0)"
  have ne: "nelts ?h1 = nelts h" by (cases "slot_of xs (length xs + 1)") simp_all
  have "tree (xs @ [y]) ?h1" using link_last [OF t assms(3,4)] by simp
  then have r: "hrep (xs @ [y]) (?h1\<lparr>nelts := nelts ?h1 + 1\<rparr>)"
    using n unfolding ne by (simp add: hrep_def tree_def add.commute)
  have "heap_insert h y lt = walk_up lt y (?h1\<lparr>nelts := nelts ?h1 + 1\<rparr>)"
    using path_reaches(2) [OF t p] n p by (simp add: heap_insert_def Let_def)
  with walk_up_ok [OF r _ nearly_snoc [OF assms(2)]] show ?thesis by simp
qed

lemma nearly_replace:
  assumes "heap_ordered lt xs" and "distinct xs" and "y \<notin> set xs" and i: "i < length xs"
  shows "nearly lt (map (exch (xs ! i) y) xs) i"
proof -
  let ?ys = "map (exch (xs ! i) y) xs"
  have ys: "?ys ! k = (if k = i then y else xs ! k)" if k: "k < length xs" for k
  proof -
    have "xs ! k \<noteq> y" using assms(3) k by (metis nth_mem)
    then show ?thesis using assms(2) i k by (auto simp: exch_def nth_eq_iff_index_eq)
  qed
  have o: "\<not> lt (xs ! k) (xs ! ((k - 1) div 2))" if "0 < k" "k < length xs" for k
    using assms(1) that by (simp add: heap_ordered_def)
  show ?thesis unfolding nearly_def
  proof (intro allI impI conjI)
    fix k assume k: "0 < k" "k < length ?ys" "k \<noteq> i"
    then have pk: "(k - 1) div 2 < length xs" by auto
    { assume "(k - 1) div 2 \<noteq> i"
      then have "?ys ! ((k - 1) div 2) = xs ! ((k - 1) div 2)" using ys [OF pk] by simp
      moreover have "?ys ! k = xs ! k" using ys [of k] k by simp
      ultimately show "\<not> lt (?ys ! k) (?ys ! ((k - 1) div 2))" using o [of k] k by simp
    next
      assume ki: "(k - 1) div 2 = i" "0 < i"
      have "\<not> lt (xs ! k) (xs ! i)" using o [of k] k unfolding ki(1) by simp
      from neg_trans [OF this o [OF ki(2) i]] have "\<not> lt (xs ! k) (xs ! ((i - 1) div 2))" .
      moreover have "?ys ! ((i - 1) div 2) = xs ! ((i - 1) div 2)" using ys [of "(i - 1) div 2"] half_less [OF ki(2)] i by simp
      moreover have "?ys ! k = xs ! k" using ys [of k] k by simp
      ultimately show "\<not> lt (?ys ! k) (?ys ! ((i - 1) div 2))" by simp
    }
  qed
qed

text \<open>Removal of a node of the tree.\<close>

lemma heap_remove_spec:
  assumes "hrep xs h" and "heap_ordered lt xs" and "y \<in> set xs"
  shows "\<exists>h' ys. heap_remove h y lt = Some h' \<and> hrep ys h' \<and> heap_ordered lt ys \<and> mset ys = mset xs - {#y#}"
proof -
  from assms(3) obtain zs z where xs: "xs = zs @ [z]" by (cases xs rule: rev_cases) auto
  have n: "unat (nelts h) = length zs + 1" using assms(1) by (simp add: hrep_def xs)
  then have n0: "nelts h \<noteq> 0" by auto
  obtain path k where p: "heap_path (nelts h) 0 0 = (path, k)" by force
  let ?s = "slot_of xs (length zs + 1)"
  let ?h0 = "h\<lparr>nelts := nelts h - 1\<rparr>"
  have t: "tree (zs @ [z]) ?h0" "tree xs h" using hrepD(1) [OF assms(1)] by (simp_all add: xs tree_def)
  have u: "load_slot ?h0 ?s = z" "tree zs (store_slot ?s NULL ?h0)"
    using unlink_last [OF t(1)] by (simp_all add: xs)
  let ?h1 = "store_slot ?s NULL ?h0"
  have ne: "nelts ?h1 = nelts h - 1" by (cases ?s) simp_all
  have n1: "unat (nelts h - 1) = length zs" using n by (simp add: unat_minus_one [OF n0])
  have z: "z \<notin> set zs" "z \<noteq> NULL" "distinct zs" using t(1) by (auto simp: tree_def)
  have oz: "heap_ordered lt zs" using assms(2) ordered_snoc by (simp add: xs)
  have w: "remove_walk h k path Min = ?s" using path_reaches(1) [OF t(2) p] n by (simp add: xs)
  have e: "heap_remove h y lt = (if z = y then Some (if z = hmin ?h1 then ?h1\<lparr>hmin := NULL\<rparr> else ?h1)
     else Option.bind (walk_down lt z (replace_node y z ?h1)) (walk_up lt z))"
    using n0 p u(1) unfolding heap_remove_def by (simp add: w Let_def)
  show ?thesis
  proof (cases "z = y")
    case True
    have "z \<noteq> hmin ?h1" using treeD(3) [OF u(2)] z by (auto simp: at_def)
    then have "heap_remove h y lt = Some ?h1" using e True by simp
    moreover have "hrep zs ?h1" using u(2) ne n1 by (simp add: hrep_def)
    ultimately show ?thesis using oz True by (auto simp: xs)
  next
    case False
    with assms(3) obtain i where i: "i < length zs" "y = zs ! i" by (auto simp: xs in_set_conv_nth)
    let ?ys = "map (exch y z) zs" let ?h2 = "replace_node y z ?h1"
    have r: "hrep ?ys ?h2" using replace_node_rep [OF u(2) i(1) z(1,2)] ne n1 by (simp add: hrep_def i(2))
    have "nearly lt ?ys i" using nearly_replace [OF oz z(3,1) i(1)] by (simp add: i(2))
    moreover have yi: "?ys ! i = z" using i by simp
    ultimately obtain h3 vs m where d: "walk_down lt z ?h2 = Some h3" "hrep vs h3" "m < length vs" "vs ! m = z"
      "nearly lt vs m" "kids_ok lt vs m" "mset vs = mset ?ys"
      using walk_down_ok [OF r, of i] i by auto
    from walk_up_ok [OF d(2,3,5,6)] d(4) obtain h4 us where
      "walk_up lt z h3 = Some h4" "hrep us h4" "heap_ordered lt us" "mset us = mset vs" by auto
    moreover have "mset ?ys = mset xs - {#y#}"
    proof -
      have "?ys = zs[i := z]" using i z by (intro nth_equalityI) (auto simp: exch_def nth_list_update nth_eq_iff_index_eq)
      then show ?thesis using i by (simp add: xs mset_update)
    qed
    ultimately show ?thesis using e d(1,7) False by auto
  qed
qed

lemma root_least:
  assumes "heap_ordered lt xs" and "k < length xs"
  shows "\<not> lt (xs ! k) (xs ! 0)"
  using assms(2)
proof (induction k rule: less_induct)
  case (less k)
  show ?case
  proof (cases "k = 0")
    case False
    then have "(k - 1) div 2 < k" by simp
    moreover have "\<not> lt (xs ! k) (xs ! ((k - 1) div 2))" using assms(1) less.prems False by (simp add: heap_ordered_def)
    ultimately show ?thesis using less.IH [of "(k - 1) div 2"] less.prems neg_trans by auto
  qed (simp add: irrefl)
qed

lemma heap_min_spec:
  assumes "hrep xs h" and "heap_ordered lt xs"
  shows "if xs = [] then heap_min h = NULL else heap_min h \<in> set xs \<and> (\<forall>x \<in> set xs. \<not> lt x (heap_min h))"
  using root_least [OF assms(2)] treeD(3) [OF hrepD(1) [OF assms(1)]]
  by (auto simp: heap_min_def at_def in_set_conv_nth)

end

end
