(* ===== verification/UVQueue.thy ===== *)
theory UVQueue
  imports Mem
begin

text \<open>
  \<^verbatim>\<open>src/queue.h\<close> of libuv: circular doubly linked lists through the two pointers of a \<^verbatim>\<open>QUEUE\<close>.
  The store \<open>queues\<close> gives the pair of pointers of every queue node; each macro is the sequence
  of its assignments, every right-hand side read in the store of that moment.
  \<^item> \<open>qrep h xs Q\<close>: the nodes from the head \<open>h\<close> on are \<open>xs\<close>, linked in both directions.
  \<^item> \<open>INSERT_TAIL_rep\<close> and the lemmas after it: every macro is the list operation;
    \<open>queue_frame\<close>: it leaves the queues it does not touch as they are.
  \<^item> \<open>foreach_rep\<close>: the iteration ends and visits exactly the elements, in order.
\<close>

type_synonym queues = "ptr \<Rightarrow> ptr \<times> ptr"

section \<open>The macros\<close>

definition QUEUE_NEXT :: "queues \<Rightarrow> ptr \<Rightarrow> ptr" where
  "QUEUE_NEXT Q q = fst (Q q)"

definition QUEUE_PREV :: "queues \<Rightarrow> ptr \<Rightarrow> ptr" where
  "QUEUE_PREV Q q = snd (Q q)"

definition set_next :: "ptr \<Rightarrow> ptr \<Rightarrow> queues \<Rightarrow> queues" where
  "set_next q v Q = Q(q := (v, snd (Q q)))"

definition set_prev :: "ptr \<Rightarrow> ptr \<Rightarrow> queues \<Rightarrow> queues" where
  "set_prev q v Q = Q(q := (fst (Q q), v))"

text \<open>Assignments to \<^verbatim>\<open>QUEUE_PREV_NEXT(q)\<close> and \<^verbatim>\<open>QUEUE_NEXT_PREV(q)\<close>.\<close>

definition set_prev_next :: "ptr \<Rightarrow> ptr \<Rightarrow> queues \<Rightarrow> queues" where
  "set_prev_next q v Q = set_next (QUEUE_PREV Q q) v Q"

definition set_next_prev :: "ptr \<Rightarrow> ptr \<Rightarrow> queues \<Rightarrow> queues" where
  "set_next_prev q v Q = set_prev (QUEUE_NEXT Q q) v Q"

definition QUEUE_EMPTY :: "queues \<Rightarrow> ptr \<Rightarrow> bool" where
  "QUEUE_EMPTY Q q \<longleftrightarrow> q = QUEUE_NEXT Q q"

definition QUEUE_HEAD :: "queues \<Rightarrow> ptr \<Rightarrow> ptr" where
  "QUEUE_HEAD Q q = QUEUE_NEXT Q q"

definition QUEUE_INIT :: "ptr \<Rightarrow> queues \<Rightarrow> queues" where
  "QUEUE_INIT q Q = (let Q = set_next q q Q in set_prev q q Q)"

definition QUEUE_ADD :: "ptr \<Rightarrow> ptr \<Rightarrow> queues \<Rightarrow> queues" where
  "QUEUE_ADD h n Q =
     (let Q = set_prev_next h (QUEUE_NEXT Q n) Q;
          Q = set_next_prev n (QUEUE_PREV Q h) Q;
          Q = set_prev h (QUEUE_PREV Q n) Q
      in set_prev_next h h Q)"

definition QUEUE_SPLIT :: "ptr \<Rightarrow> ptr \<Rightarrow> ptr \<Rightarrow> queues \<Rightarrow> queues" where
  "QUEUE_SPLIT h q n Q =
     (let Q = set_prev n (QUEUE_PREV Q h) Q;
          Q = set_prev_next n n Q;
          Q = set_next n q Q;
          Q = set_prev h (QUEUE_PREV Q q) Q;
          Q = set_prev_next h h Q
      in set_prev q n Q)"

definition QUEUE_MOVE :: "ptr \<Rightarrow> ptr \<Rightarrow> queues \<Rightarrow> queues" where
  "QUEUE_MOVE h n Q =
     (if QUEUE_EMPTY Q h then QUEUE_INIT n Q
      else let q = QUEUE_HEAD Q h in QUEUE_SPLIT h q n Q)"

definition QUEUE_INSERT_HEAD :: "ptr \<Rightarrow> ptr \<Rightarrow> queues \<Rightarrow> queues" where
  "QUEUE_INSERT_HEAD h q Q =
     (let Q = set_next q (QUEUE_NEXT Q h) Q;
          Q = set_prev q h Q;
          Q = set_next_prev q q Q
      in set_next h q Q)"

definition QUEUE_INSERT_TAIL :: "ptr \<Rightarrow> ptr \<Rightarrow> queues \<Rightarrow> queues" where
  "QUEUE_INSERT_TAIL h q Q =
     (let Q = set_next q h Q;
          Q = set_prev q (QUEUE_PREV Q h) Q;
          Q = set_prev_next q q Q
      in set_prev h q Q)"

definition QUEUE_REMOVE :: "ptr \<Rightarrow> queues \<Rightarrow> queues" where
  "QUEUE_REMOVE q Q =
     (let Q = set_prev_next q (QUEUE_NEXT Q q) Q
      in set_next_prev q (QUEUE_PREV Q q) Q)"

text \<open>The nodes \<^verbatim>\<open>QUEUE_FOREACH\<close> visits, from \<open>q\<close> on.\<close>

partial_function (option) queue_foreach :: "queues \<Rightarrow> ptr \<Rightarrow> ptr \<Rightarrow> ptr list option" where
  [code]: "queue_foreach Q h q =
     (if q = h then Some []
      else Option.bind (queue_foreach Q h (QUEUE_NEXT Q q)) (\<lambda>qs. Some (q # qs)))"

definition QUEUE_FOREACH :: "queues \<Rightarrow> ptr \<Rightarrow> ptr list option" where
  "QUEUE_FOREACH Q h = queue_foreach Q h (QUEUE_NEXT Q h)"

section \<open>Queues as lists\<close>

text \<open>The nodes \<open>xs\<close> lead from \<open>a\<close> to \<open>b\<close>, and back.\<close>

fun seg :: "queues \<Rightarrow> ptr \<Rightarrow> ptr list \<Rightarrow> ptr \<Rightarrow> bool" where
  "seg Q a [] b \<longleftrightarrow> QUEUE_NEXT Q a = b \<and> QUEUE_PREV Q b = a"
| "seg Q a (x # xs) b \<longleftrightarrow> QUEUE_NEXT Q a = x \<and> QUEUE_PREV Q x = a \<and> seg Q x xs b"

definition qrep :: "ptr \<Rightarrow> ptr list \<Rightarrow> queues \<Rightarrow> bool" where
  "qrep h xs Q \<longleftrightarrow> distinct (h # xs) \<and> seg Q h xs h"

lemma next_simps [simp]:
  "QUEUE_NEXT (set_next q v Q) x = (if x = q then v else QUEUE_NEXT Q x)" "QUEUE_PREV (set_next q v Q) x = QUEUE_PREV Q x"
  "QUEUE_PREV (set_prev q v Q) x = (if x = q then v else QUEUE_PREV Q x)" "QUEUE_NEXT (set_prev q v Q) x = QUEUE_NEXT Q x"
  by (simp_all add: QUEUE_NEXT_def QUEUE_PREV_def set_next_def set_prev_def)

lemma seg_append: "seg Q a (xs @ y # ys) b \<longleftrightarrow> seg Q a xs y \<and> seg Q y ys b"
  by (induction xs arbitrary: a) auto

lemma seg_ends:
  "seg Q a xs b \<Longrightarrow> QUEUE_NEXT Q a = (case xs of [] \<Rightarrow> b | x # _ \<Rightarrow> x)"
  "seg Q a xs b \<Longrightarrow> QUEUE_PREV Q b = last (a # xs)"
  by (induction Q a xs b rule: seg.induct) auto

text \<open>A segment depends on the next pointers of all but its last node and on the previous pointers of all but its first.\<close>

lemma seg_cong:
  "(\<And>x. x \<in> set (a # xs) \<Longrightarrow> QUEUE_NEXT Q' x = QUEUE_NEXT Q x) \<Longrightarrow>
   (\<And>x. x \<in> set (xs @ [b]) \<Longrightarrow> QUEUE_PREV Q' x = QUEUE_PREV Q x) \<Longrightarrow> seg Q' a xs b = seg Q a xs b"
  by (induction xs arbitrary: a) auto

lemma queue_frame:
  assumes "qrep h xs Q" and "\<And>x. x \<in> set (h # xs) \<Longrightarrow> Q' x = Q x"
  shows "qrep h xs Q'"
proof -
  have "seg Q' h xs h = seg Q h xs h"
    using assms(2) by (intro seg_cong) (auto simp: QUEUE_NEXT_def QUEUE_PREV_def)
  with assms(1) show ?thesis by (simp add: qrep_def)
qed

lemma EMPTY_rep: "qrep h xs Q \<Longrightarrow> QUEUE_EMPTY Q h \<longleftrightarrow> xs = []"
  by (cases xs) (auto simp: qrep_def QUEUE_EMPTY_def)

lemma HEAD_rep: "qrep h (x # xs) Q \<Longrightarrow> QUEUE_HEAD Q h = x"
  by (simp add: qrep_def QUEUE_HEAD_def)

lemma INIT_rep: "qrep q [] (QUEUE_INIT q Q)"
  by (simp add: qrep_def QUEUE_INIT_def Let_def)

lemma foreach_seg:
  assumes "seg Q a xs h" and "h \<notin> set xs"
  shows "queue_foreach Q h (QUEUE_NEXT Q a) = Some xs"
  using assms
proof (induction xs arbitrary: a)
  case Nil
  then show ?case using queue_foreach.simps [of Q h h] by simp
next
  case (Cons x xs)
  then show ?case using queue_foreach.simps [of Q h x] by simp
qed

lemma foreach_rep: "qrep h xs Q \<Longrightarrow> QUEUE_FOREACH Q h = Some xs"
  by (auto simp: qrep_def QUEUE_FOREACH_def intro: foreach_seg)

lemma INSERT_TAIL_rep:
  assumes "qrep h xs Q" and "q \<notin> set (h # xs)"
  shows "qrep h (xs @ [q]) (QUEUE_INSERT_TAIL h q Q)"
proof -
  have s: "seg Q h xs h" "distinct (h # xs)" using assms(1) by (auto simp: qrep_def)
  let ?Q = "QUEUE_INSERT_TAIL h q Q"
  have n: "QUEUE_NEXT ?Q x = (if x = last (h # xs) then q else if x = q then h else QUEUE_NEXT Q x)"
    and p: "QUEUE_PREV ?Q x = (if x = h then q else if x = q then last (h # xs) else QUEUE_PREV Q x)" for x
    using seg_ends(2) [OF s(1)] assms(2) by (auto simp: QUEUE_INSERT_TAIL_def set_prev_next_def Let_def)
  show ?thesis
  proof (cases xs rule: rev_cases)
    case Nil
    then show ?thesis using assms n p by (auto simp: qrep_def)
  next
    case (snoc ys y)
    have "seg ?Q h ys y = seg Q h ys y" using s(2) assms(2) by (intro seg_cong) (auto simp: n p snoc)
    then show ?thesis using s assms(2) n p by (auto simp: qrep_def snoc seg_append)
  qed
qed

lemma INSERT_HEAD_rep:
  assumes "qrep h xs Q" and "q \<notin> set (h # xs)"
  shows "qrep h (q # xs) (QUEUE_INSERT_HEAD h q Q)"
proof -
  have s: "seg Q h xs h" "distinct (h # xs)" using assms(1) by (auto simp: qrep_def)
  let ?Q = "QUEUE_INSERT_HEAD h q Q" and ?f = "case xs of [] \<Rightarrow> h | x # _ \<Rightarrow> x"
  have n: "QUEUE_NEXT ?Q x = (if x = h then q else if x = q then ?f else QUEUE_NEXT Q x)"
    and p: "QUEUE_PREV ?Q x = (if x = ?f then q else if x = q then h else QUEUE_PREV Q x)" for x
    using seg_ends(1) [OF s(1)] assms(2) by (auto simp: QUEUE_INSERT_HEAD_def set_next_prev_def Let_def)
  show ?thesis
  proof (cases xs)
    case Nil
    then show ?thesis using assms n p by (auto simp: qrep_def)
  next
    case (Cons y ys)
    have "seg ?Q y ys h = seg Q y ys h" using s(2) assms(2) by (intro seg_cong) (auto simp: n p Cons)
    then show ?thesis using s assms(2) n p by (auto simp: qrep_def Cons)
  qed
qed

lemma REMOVE_rep:
  assumes "qrep h (xs @ q # ys) Q"
  shows "qrep h (xs @ ys) (QUEUE_REMOVE q Q)"
proof -
  have s: "seg Q h xs q" "seg Q q ys h" "distinct (h # xs @ q # ys)" using assms by (auto simp: qrep_def seg_append)
  let ?Q = "QUEUE_REMOVE q Q" and ?f = "case ys of [] \<Rightarrow> h | x # _ \<Rightarrow> x" and ?l = "last (h # xs)"
  have "?l \<noteq> q" "?f \<noteq> q" using s(3) last_in_set [of "h # xs"] by (auto split: list.splits)
  then have n: "QUEUE_NEXT ?Q x = (if x = ?l then ?f else QUEUE_NEXT Q x)"
    and p: "QUEUE_PREV ?Q x = (if x = ?f then ?l else QUEUE_PREV Q x)" for x
    using seg_ends(2) [OF s(1)] seg_ends(1) [OF s(2)] by (simp_all add: QUEUE_REMOVE_def set_next_prev_def set_prev_next_def Let_def)
  have "seg ?Q h (xs @ ys) h"
  proof (cases xs rule: rev_cases)
    case Nil
    then show ?thesis
    proof (cases ys)
      case (Cons y zs)
      have "seg ?Q y zs h = seg Q y zs h" using s(3) by (intro seg_cong) (auto simp: n p Cons Nil)
      then show ?thesis using s n p by (simp add: Nil Cons)
    qed (use n p Nil in simp)
  next
    case (snoc us u)
    have u: "seg ?Q h us u = seg Q h us u" using s(3) by (intro seg_cong) (auto simp: n p snoc split: list.splits)
    show ?thesis
    proof (cases ys)
      case Nil
      then show ?thesis using s u n p by (simp add: snoc seg_append)
    next
      case (Cons y zs)
      have "seg ?Q y zs h = seg Q y zs h" using s(3) by (intro seg_cong) (auto simp: n p Cons snoc)
      then show ?thesis using s u n p by (simp add: snoc Cons seg_append)
    qed
  qed
  with s(3) show ?thesis by (simp add: qrep_def)
qed

text \<open>\<open>QUEUE_SPLIT\<close>: the nodes from \<open>q\<close> on become the queue of \<open>n\<close>.\<close>

lemma SPLIT_rep:
  assumes "qrep h (xs @ q # ys) Q" and "n \<notin> set (h # xs @ q # ys)"
  shows "qrep h xs (QUEUE_SPLIT h q n Q)" and "qrep n (q # ys) (QUEUE_SPLIT h q n Q)"
proof -
  have s: "seg Q h xs q" "seg Q q ys h" "distinct (h # xs @ q # ys)" using assms(1) by (auto simp: qrep_def seg_append)
  let ?Q = "QUEUE_SPLIT h q n Q" and ?l = "last (h # xs)" and ?e = "last (q # ys)"
  have d: "?l \<in> set (h # xs)" "?e \<in> set (q # ys)" using last_in_set by blast+
  then have neq: "?l \<noteq> n" "?e \<noteq> n" "?l \<noteq> q" "?e \<noteq> h" "?l \<noteq> ?e" "q \<noteq> h" "q \<noteq> n" "h \<noteq> n" using s(3) assms(2) by auto
  have nx: "QUEUE_NEXT ?Q x = (if x = ?l then h else if x = n then q else if x = ?e then n else QUEUE_NEXT Q x)"
    and p: "QUEUE_PREV ?Q x = (if x = q then n else if x = h then ?l else if x = n then ?e else QUEUE_PREV Q x)" for x
    using seg_ends(2) [OF s(1)] seg_ends(2) [OF s(2)] neq
    by (simp_all add: QUEUE_SPLIT_def set_prev_next_def Let_def)
  show "qrep h xs ?Q"
  proof (cases xs rule: rev_cases)
    case Nil
    then show ?thesis using nx p neq by (simp add: qrep_def)
  next
    case (snoc us u)
    have "seg ?Q h us u = seg Q h us u" using s(3) assms(2) d neq by (intro seg_cong) (auto simp: nx p snoc)
    then show ?thesis using s nx p neq by (simp add: qrep_def snoc seg_append)
  qed
  have "seg ?Q q ys n"
  proof (cases ys rule: rev_cases)
    case Nil
    then show ?thesis using nx p neq by simp
  next
    case (snoc us u)
    have l: "x \<noteq> ?l" if "x \<in> set (q # ys)" for x using d(1) s(3) that by auto
    have "seg ?Q q us u = seg Q q us u"
    proof (rule seg_cong)
      fix x assume "x \<in> set (q # us)"
      then have "x \<noteq> ?l" "x \<noteq> n" "x \<noteq> u" using l [of x] s(3) assms(2) by (auto simp: snoc)
      then show "QUEUE_NEXT ?Q x = QUEUE_NEXT Q x" by (simp add: nx snoc)
    next
      fix x assume "x \<in> set (us @ [u])"
      then have "x \<noteq> q" "x \<noteq> n" "x \<noteq> h" using s(3) assms(2) by (auto simp: snoc)
      then show "QUEUE_PREV ?Q x = QUEUE_PREV Q x" by (simp add: p)
    qed
    moreover have "u \<noteq> ?l" using l by (simp add: snoc)
    ultimately show ?thesis using s nx p neq by (simp add: snoc seg_append)
  qed
  then show "qrep n (q # ys) ?Q" using nx p neq s(3) assms(2) by (simp add: qrep_def)
qed

lemma MOVE_rep:
  assumes "qrep h xs Q" and "n \<notin> set (h # xs)"
  shows "qrep h [] (QUEUE_MOVE h n Q)" and "qrep n xs (QUEUE_MOVE h n Q)"
proof -
  have "qrep h [] (QUEUE_MOVE h n Q) \<and> qrep n xs (QUEUE_MOVE h n Q)"
  proof (cases xs)
    case Nil
    have "QUEUE_INIT n Q h = Q h" using assms(2) by (simp add: QUEUE_INIT_def set_next_def set_prev_def Let_def)
    then have "qrep h [] (QUEUE_INIT n Q)" using queue_frame [of h "[]" Q "QUEUE_INIT n Q"] assms(1) by (simp add: Nil)
    then show ?thesis using INIT_rep EMPTY_rep [OF assms(1)] by (simp add: QUEUE_MOVE_def Nil)
  next
    case (Cons x ys)
    then show ?thesis using EMPTY_rep [OF assms(1)] HEAD_rep [of h x ys Q] assms SPLIT_rep [of h "[]" x ys Q n]
      by (simp add: QUEUE_MOVE_def)
  qed
  then show "qrep h [] (QUEUE_MOVE h n Q)" "qrep n xs (QUEUE_MOVE h n Q)" by auto
qed

text \<open>\<open>QUEUE_ADD\<close>: the elements of \<open>n\<close> go to the end of \<open>h\<close>.\<close>

lemma ADD_rep:
  assumes "qrep h xs Q" and "qrep n ys Q" and "set (h # xs) \<inter> set (n # ys) = {}" and "ys \<noteq> []"
  shows "qrep h (xs @ ys) (QUEUE_ADD h n Q)"
proof -
  obtain y zs where ys: "ys = y # zs" using assms(4) by (cases ys) auto
  have s: "seg Q h xs h" "seg Q n ys n" "distinct (h # xs)" "distinct (n # ys)" using assms(1,2) by (auto simp: qrep_def)
  let ?Q = "QUEUE_ADD h n Q" and ?l = "last (h # xs)" and ?e = "last (n # ys)"
  have d: "?l \<in> set (h # xs)" "?e \<in> set ys" using last_in_set [of "h # xs"] by (auto simp: ys)
  then have neq: "?l \<noteq> ?e" "?l \<noteq> n" "?e \<noteq> h" "y \<noteq> h" "h \<noteq> n" "?e \<noteq> n" "y \<noteq> n" using assms(3) s(3,4) by (auto simp: ys)
  have nx: "QUEUE_NEXT ?Q x = (if x = ?e then h else if x = ?l then y else QUEUE_NEXT Q x)"
    and p: "QUEUE_PREV ?Q x = (if x = h then ?e else if x = y then ?l else QUEUE_PREV Q x)" for x
  proof -
    have "QUEUE_PREV Q h = l \<Longrightarrow> QUEUE_PREV Q n = e \<Longrightarrow> QUEUE_NEXT Q n = y \<Longrightarrow> l \<noteq> e \<Longrightarrow> l \<noteq> n \<Longrightarrow> e \<noteq> h \<Longrightarrow>
      QUEUE_NEXT ?Q x = (if x = e then h else if x = l then y else QUEUE_NEXT Q x) \<and>
      QUEUE_PREV ?Q x = (if x = h then e else if x = y then l else QUEUE_PREV Q x)" for l e
      using neq(4,5,7) by (simp add: QUEUE_ADD_def set_prev_next_def set_next_prev_def Let_def)
    from this [OF seg_ends(2) [OF s(1)] seg_ends(2) [OF s(2)]] show
      "QUEUE_NEXT ?Q x = (if x = ?e then h else if x = ?l then y else QUEUE_NEXT Q x)"
      "QUEUE_PREV ?Q x = (if x = h then ?e else if x = y then ?l else QUEUE_PREV Q x)"
      using seg_ends(1) [OF s(2)] neq(1-3) by (simp_all only: ys list.case) blast+
  qed
  have e: "seg ?Q y zs h"
  proof (cases zs rule: rev_cases)
    case Nil
    then show ?thesis using nx p neq by (simp add: ys)
  next
    case (snoc us u)
    have "seg ?Q y us u = seg Q y us u" using s(3,4) assms(3) d(1) neq by (intro seg_cong) (auto simp: nx p ys snoc)
    then show ?thesis using s nx p neq by (simp add: ys snoc seg_append)
  qed
  have "seg ?Q h (xs @ ys) h"
  proof (cases xs rule: rev_cases)
    case Nil
    then show ?thesis using e nx p neq by (simp add: ys)
  next
    case (snoc us u)
    have "seg ?Q h us u = seg Q h us u" using s(3,4) assms(3) d(2) neq by (intro seg_cong) (auto simp: nx p ys snoc)
    then show ?thesis using s e nx p neq by (simp add: ys snoc seg_append)
  qed
  then show ?thesis using s(3,4) assms(3) by (auto simp: qrep_def)
qed

text \<open>The macros leave the nodes of other queues alone.\<close>

lemma last_Cons_in: "last (h # xs) \<in> set (h # xs)"
  by (rule last_in_set) simp

lemma INIT_frame: "x \<noteq> q \<Longrightarrow> QUEUE_INIT q Q x = Q x"
  by (simp add: QUEUE_INIT_def set_next_def set_prev_def Let_def)

lemma INSERT_TAIL_frame:
  assumes "qrep h xs Q" and "x \<notin> set (q # h # xs)"
  shows "QUEUE_INSERT_TAIL h q Q x = Q x"
proof -
  have "QUEUE_PREV Q h \<in> set (h # xs)" using seg_ends(2) [of Q h xs h] assms(1) last_Cons_in [of h xs] by (simp only: qrep_def)
  with assms(2) show ?thesis by (auto simp: QUEUE_INSERT_TAIL_def set_prev_next_def set_next_def set_prev_def QUEUE_PREV_def Let_def)
qed

lemma INSERT_HEAD_frame:
  assumes "qrep h xs Q" and "x \<notin> set (q # h # xs)"
  shows "QUEUE_INSERT_HEAD h q Q x = Q x"
proof -
  have "QUEUE_NEXT Q h \<in> set (h # xs)" using seg_ends(1) [of Q h xs h] assms(1) by (auto simp: qrep_def split: list.splits)
  with assms(2) show ?thesis by (auto simp: QUEUE_INSERT_HEAD_def set_next_prev_def set_next_def set_prev_def QUEUE_NEXT_def Let_def)
qed

lemma REMOVE_frame:
  assumes "qrep h (xs @ q # ys) Q" and "x \<notin> set (h # xs @ q # ys)"
  shows "QUEUE_REMOVE q Q x = Q x"
proof -
  have s: "seg Q h xs q" "seg Q q ys h" using assms(1) by (auto simp: qrep_def seg_append)
  have "QUEUE_PREV Q q \<in> set (h # xs)" using seg_ends(2) [OF s(1)] last_Cons_in [of h xs] by (simp only:)
  moreover have "QUEUE_NEXT Q q \<in> set (h # ys)" using seg_ends(1) [OF s(2)] by (auto split: list.splits)
  ultimately have "x \<noteq> QUEUE_PREV Q q" "x \<noteq> QUEUE_NEXT Q q" "x \<noteq> q" using assms(2) by auto
  then show ?thesis
    by (auto simp: QUEUE_REMOVE_def set_prev_next_def set_next_prev_def set_next_def set_prev_def QUEUE_PREV_def QUEUE_NEXT_def Let_def)
qed

lemma MOVE_frame:
  assumes "qrep h xs Q" and "x \<notin> set (n # h # xs)"
  shows "QUEUE_MOVE h n Q x = Q x"
proof (cases xs)
  case Nil
  then show ?thesis using EMPTY_rep [OF assms(1)] assms(2) by (simp add: QUEUE_MOVE_def QUEUE_INIT_def set_next_def set_prev_def Let_def)
next
  case (Cons y ys)
  have s: "seg Q h xs h" "distinct (h # xs)" using assms(1) by (auto simp: qrep_def)
  have e: "QUEUE_PREV Q h = last (y # ys)" "QUEUE_PREV Q y = h" using seg_ends(2) [OF s(1)] s by (auto simp: Cons)
  have "last (y # ys) \<in> set xs" using last_Cons_in [of y ys] by (simp only: Cons)
  then have "QUEUE_PREV Q h \<in> set xs" using e by simp
  then have "x \<noteq> QUEUE_PREV Q h" "QUEUE_PREV Q h \<noteq> h" "y \<noteq> h" "y \<noteq> n \<or> y = n" using assms(2) s(2) by (auto simp: Cons)
  then show ?thesis using EMPTY_rep [OF assms(1)] HEAD_rep [of h y ys Q] assms e
    by (auto simp: Cons QUEUE_MOVE_def QUEUE_SPLIT_def set_prev_next_def set_next_def set_prev_def QUEUE_PREV_def QUEUE_NEXT_def Let_def)
qed

end
