(* ===== verification/UVLoop.thy ===== *)
theory UVLoop
  imports UVHeap_Order UVQueue
begin

unbundle bit_operations_syntax

text \<open>
  The parts of the event loop that timers and watchers share: the handle and loop structures of
  \<^verbatim>\<open>include/uv.h\<close> and \<^verbatim>\<open>include/uv/unix.h\<close>, the flag macros of \<^verbatim>\<open>src/uv-common.h\<close>, and from
  \<^verbatim>\<open>src/uv-common.c\<close> and \<^verbatim>\<open>src/unix/core.c\<close> the reference flag, liveness and poll timeout of a loop.
  A handle is known by its address, which is also the address of the queue and heap nodes inside
  it; \<open>handles\<close> is the store of all handles, \<open>handle_links\<close> and \<open>watcher_links\<close> are the stores of the
  two queue nodes of a handle.  A failed \<^verbatim>\<open>assert\<close> is \<open>None\<close>.
  \<^item> \<open>active_count\<close>: \<^verbatim>\<open>active_handles\<close> is the number of handles that are active and referenced;
    \<open>handle_start_count\<close> and the lemmas after it: the flag macros keep it so.
\<close>

section \<open>Structures\<close>

text \<open>The handle types of this development.\<close>

datatype uv_handle_type = UV_TIMER | UV_PREPARE | UV_CHECK | UV_IDLE

text \<open>The common fields, those of \<^verbatim>\<open>uv_timer_t\<close>, and the callback of a timer or a watcher.\<close>

record uv_handle_t =
  htype :: uv_handle_type
  flags :: u32
  close_cb :: ptr
  next_closing :: ptr
  cb :: ptr
  timeout :: u64
  trepeat :: u64
  start_id :: u64

record uv_loop_t =
  time :: u64
  timer_counter :: u64
  timer_heap :: uv_heap
  active_handles :: u32
  active_reqs :: u32
  stop_flag :: u32
  closing_handles :: ptr
  handle_queue :: ptr
  pending_queue :: ptr
  watcher_handles :: "uv_handle_type \<Rightarrow> ptr"
  handles :: "ptr \<Rightarrow> uv_handle_t"
  handle_links :: queues
  watcher_links :: queues

definition UV_HANDLE_CLOSING :: u32 where "UV_HANDLE_CLOSING = 0x1"
definition UV_HANDLE_CLOSED :: u32 where "UV_HANDLE_CLOSED = 0x2"
definition UV_HANDLE_ACTIVE :: u32 where "UV_HANDLE_ACTIVE = 0x4"
definition UV_HANDLE_REF :: u32 where "UV_HANDLE_REF = 0x8"

text \<open>\<^verbatim>\<open>UV__ERR(EINVAL)\<close> with the value of \<^verbatim>\<open>EINVAL\<close> on Darwin and Linux.\<close>

definition UV_EINVAL :: int where "UV_EINVAL = - 22"

section \<open>The macros of uv-common.h\<close>

definition upd_handle :: "ptr \<Rightarrow> (uv_handle_t \<Rightarrow> uv_handle_t) \<Rightarrow> uv_loop_t \<Rightarrow> uv_loop_t" where
  "upd_handle p f l = l\<lparr>handles := (handles l)(p := f (handles l p))\<rparr>"

definition uv__is_active :: "uv_handle_t \<Rightarrow> bool" where
  "uv__is_active h \<longleftrightarrow> flags h AND UV_HANDLE_ACTIVE \<noteq> 0"

definition uv__is_closing :: "uv_handle_t \<Rightarrow> bool" where
  "uv__is_closing h \<longleftrightarrow> flags h AND (UV_HANDLE_CLOSING OR UV_HANDLE_CLOSED) \<noteq> 0"

definition uv__has_ref :: "uv_handle_t \<Rightarrow> bool" where
  "uv__has_ref h \<longleftrightarrow> flags h AND UV_HANDLE_REF \<noteq> 0"

definition uv__has_active_handles :: "uv_loop_t \<Rightarrow> bool" where
  "uv__has_active_handles l \<longleftrightarrow> active_handles l > 0"

definition uv__has_active_reqs :: "uv_loop_t \<Rightarrow> bool" where
  "uv__has_active_reqs l \<longleftrightarrow> active_reqs l > 0"

definition uv__active_handle_add :: "uv_loop_t \<Rightarrow> uv_loop_t" where
  "uv__active_handle_add l = l\<lparr>active_handles := active_handles l + 1\<rparr>"

definition uv__active_handle_rm :: "uv_loop_t \<Rightarrow> uv_loop_t" where
  "uv__active_handle_rm l = l\<lparr>active_handles := active_handles l - 1\<rparr>"

definition uv__handle_start :: "ptr \<Rightarrow> uv_loop_t \<Rightarrow> uv_loop_t" where
  "uv__handle_start p l =
     (if flags (handles l p) AND UV_HANDLE_ACTIVE \<noteq> 0 then l
      else let l = upd_handle p (\<lambda>h. h\<lparr>flags := flags h OR UV_HANDLE_ACTIVE\<rparr>) l in
        if flags (handles l p) AND UV_HANDLE_REF \<noteq> 0 then uv__active_handle_add l else l)"

definition uv__handle_stop :: "ptr \<Rightarrow> uv_loop_t \<Rightarrow> uv_loop_t" where
  "uv__handle_stop p l =
     (if flags (handles l p) AND UV_HANDLE_ACTIVE = 0 then l
      else let l = upd_handle p (\<lambda>h. h\<lparr>flags := flags h AND NOT UV_HANDLE_ACTIVE\<rparr>) l in
        if flags (handles l p) AND UV_HANDLE_REF \<noteq> 0 then uv__active_handle_rm l else l)"

definition uv__handle_ref :: "ptr \<Rightarrow> uv_loop_t \<Rightarrow> uv_loop_t" where
  "uv__handle_ref p l =
     (if flags (handles l p) AND UV_HANDLE_REF \<noteq> 0 then l
      else let l = upd_handle p (\<lambda>h. h\<lparr>flags := flags h OR UV_HANDLE_REF\<rparr>) l in
        if flags (handles l p) AND UV_HANDLE_CLOSING \<noteq> 0 then l
        else if flags (handles l p) AND UV_HANDLE_ACTIVE \<noteq> 0 then uv__active_handle_add l else l)"

definition uv__handle_unref :: "ptr \<Rightarrow> uv_loop_t \<Rightarrow> uv_loop_t" where
  "uv__handle_unref p l =
     (if flags (handles l p) AND UV_HANDLE_REF = 0 then l
      else let l = upd_handle p (\<lambda>h. h\<lparr>flags := flags h AND NOT UV_HANDLE_REF\<rparr>) l in
        if flags (handles l p) AND UV_HANDLE_CLOSING \<noteq> 0 then l
        else if flags (handles l p) AND UV_HANDLE_ACTIVE \<noteq> 0 then uv__active_handle_rm l else l)"

definition uv__handle_init :: "uv_handle_type \<Rightarrow> ptr \<Rightarrow> uv_loop_t \<Rightarrow> uv_loop_t" where
  "uv__handle_init t p l =
     (let l = upd_handle p (\<lambda>h. h\<lparr>htype := t\<rparr>) l;
          l = upd_handle p (\<lambda>h. h\<lparr>flags := UV_HANDLE_REF\<rparr>) l;
          l = l\<lparr>handle_links := QUEUE_INSERT_TAIL (handle_queue l) p (handle_links l)\<rparr>
      in upd_handle p (\<lambda>h. h\<lparr>next_closing := NULL\<rparr>) l)"

section \<open>Operations of the loop\<close>

definition uv_ref :: "ptr \<Rightarrow> uv_loop_t \<Rightarrow> uv_loop_t" where
  "uv_ref p l = uv__handle_ref p l"

definition uv_unref :: "ptr \<Rightarrow> uv_loop_t \<Rightarrow> uv_loop_t" where
  "uv_unref p l = uv__handle_unref p l"

definition uv_has_ref :: "ptr \<Rightarrow> uv_loop_t \<Rightarrow> bool" where
  "uv_has_ref p l = uv__has_ref (handles l p)"

definition uv_is_active :: "ptr \<Rightarrow> uv_loop_t \<Rightarrow> bool" where
  "uv_is_active p l = uv__is_active (handles l p)"

definition uv_is_closing :: "ptr \<Rightarrow> uv_loop_t \<Rightarrow> bool" where
  "uv_is_closing p l = uv__is_closing (handles l p)"

definition uv_stop :: "uv_loop_t \<Rightarrow> uv_loop_t" where
  "uv_stop l = l\<lparr>stop_flag := 1\<rparr>"

definition uv_now :: "uv_loop_t \<Rightarrow> u64" where
  "uv_now l = time l"

text \<open>The nanosecond clock of the system is an argument.\<close>

definition uv__update_time :: "u64 \<Rightarrow> uv_loop_t \<Rightarrow> uv_loop_t" where
  "uv__update_time hrtime l = l\<lparr>time := hrtime div 1000000\<rparr>"

definition uv__loop_alive :: "uv_loop_t \<Rightarrow> bool" where
  "uv__loop_alive l \<longleftrightarrow> uv__has_active_handles l \<or> uv__has_active_reqs l \<or> closing_handles l \<noteq> NULL"

definition uv__make_close_pending :: "ptr \<Rightarrow> uv_loop_t \<Rightarrow> uv_loop_t option" where
  "uv__make_close_pending p l =
     (if flags (handles l p) AND UV_HANDLE_CLOSING = 0 \<or> flags (handles l p) AND UV_HANDLE_CLOSED \<noteq> 0 then None
      else let l = upd_handle p (\<lambda>h. h\<lparr>next_closing := closing_handles l\<rparr>) l
        in Some (l\<lparr>closing_handles := p\<rparr>))"

section \<open>Flags\<close>

lemma flag_bits:
  "(f :: u32) AND UV_HANDLE_CLOSING = 0 \<longleftrightarrow> \<not> bit f 0" "f AND UV_HANDLE_CLOSED = 0 \<longleftrightarrow> \<not> bit f 1"
  "f AND UV_HANDLE_ACTIVE = 0 \<longleftrightarrow> \<not> bit f 2" "f AND UV_HANDLE_REF = 0 \<longleftrightarrow> \<not> bit f 3"
  "f AND (UV_HANDLE_CLOSING OR UV_HANDLE_CLOSED) = 0 \<longleftrightarrow> \<not> bit f 0 \<and> \<not> bit f 1"
proof -
  show c: "f AND UV_HANDLE_CLOSING = 0 \<longleftrightarrow> \<not> bit f 0" "f AND UV_HANDLE_CLOSED = 0 \<longleftrightarrow> \<not> bit f 1"
    "f AND UV_HANDLE_ACTIVE = 0 \<longleftrightarrow> \<not> bit f 2" "f AND UV_HANDLE_REF = 0 \<longleftrightarrow> \<not> bit f 3"
    using and_exp_eq_0_iff_not_bit [of f 0] and_exp_eq_0_iff_not_bit [of f 1] and_exp_eq_0_iff_not_bit [of f 2] and_exp_eq_0_iff_not_bit [of f 3]
    by (simp_all add: UV_HANDLE_CLOSING_def UV_HANDLE_CLOSED_def UV_HANDLE_ACTIVE_def UV_HANDLE_REF_def)
  have "f AND (UV_HANDLE_CLOSING OR UV_HANDLE_CLOSED) = 0 \<longleftrightarrow> f AND UV_HANDLE_CLOSING = 0 \<and> f AND UV_HANDLE_CLOSED = 0"
    by (simp add: bit.conj_disj_distrib or_eq_0_iff)
  with c show "f AND (UV_HANDLE_CLOSING OR UV_HANDLE_CLOSED) = 0 \<longleftrightarrow> \<not> bit f 0 \<and> \<not> bit f 1" by simp
qed

lemma flag_ops [simp]:
  "bit (f OR UV_HANDLE_ACTIVE) n \<longleftrightarrow> bit f n \<or> n = 2" "bit (f AND NOT UV_HANDLE_ACTIVE) n \<longleftrightarrow> bit f n \<and> n \<noteq> 2"
  "bit (f OR UV_HANDLE_REF) n \<longleftrightarrow> bit f n \<or> n = 3" "bit (f AND NOT UV_HANDLE_REF) n \<longleftrightarrow> bit f n \<and> n \<noteq> 3"
  "bit (f OR UV_HANDLE_CLOSING) n \<longleftrightarrow> bit f n \<or> n = 0" "bit (f OR UV_HANDLE_CLOSED) n \<longleftrightarrow> bit f n \<or> n = 1"
  "bit UV_HANDLE_REF n \<longleftrightarrow> n = 3"
proof -
  have b: "bit UV_HANDLE_CLOSING n \<longleftrightarrow> n = 0" "bit UV_HANDLE_CLOSED n \<longleftrightarrow> n = 1" "bit UV_HANDLE_ACTIVE n \<longleftrightarrow> n = 2" "bit UV_HANDLE_REF n \<longleftrightarrow> n = 3" for n
    using bit_exp_iff [of 0 n, where ?'a = "32 word"] bit_exp_iff [of 1 n, where ?'a = "32 word"] bit_exp_iff [of 2 n, where ?'a = "32 word"] bit_exp_iff [of 3 n, where ?'a = "32 word"]
    by (auto simp: UV_HANDLE_CLOSING_def UV_HANDLE_CLOSED_def UV_HANDLE_ACTIVE_def UV_HANDLE_REF_def)
  show
  "bit (f OR UV_HANDLE_ACTIVE) n \<longleftrightarrow> bit f n \<or> n = 2" "bit (f AND NOT UV_HANDLE_ACTIVE) n \<longleftrightarrow> bit f n \<and> n \<noteq> 2"
  "bit (f OR UV_HANDLE_REF) n \<longleftrightarrow> bit f n \<or> n = 3" "bit (f AND NOT UV_HANDLE_REF) n \<longleftrightarrow> bit f n \<and> n \<noteq> 3"
  "bit (f OR UV_HANDLE_CLOSING) n \<longleftrightarrow> bit f n \<or> n = 0" "bit (f OR UV_HANDLE_CLOSED) n \<longleftrightarrow> bit f n \<or> n = 1"
  "bit UV_HANDLE_REF n \<longleftrightarrow> n = 3"
    by (auto simp: bit_simps b not_bit_beyond dest: bit_imp_le_length)
qed

text \<open>The flags of a handle as predicates.\<close>

definition is_active :: "uv_loop_t \<Rightarrow> ptr \<Rightarrow> bool" where
  "is_active l p \<longleftrightarrow> bit (flags (handles l p)) 2"

definition is_ref :: "uv_loop_t \<Rightarrow> ptr \<Rightarrow> bool" where
  "is_ref l p \<longleftrightarrow> bit (flags (handles l p)) 3"

definition is_closing :: "uv_loop_t \<Rightarrow> ptr \<Rightarrow> bool" where
  "is_closing l p \<longleftrightarrow> bit (flags (handles l p)) 0 \<or> bit (flags (handles l p)) 1"

lemma flag_predicates:
  "uv__is_active (handles l p) = is_active l p" "uv__is_closing (handles l p) = is_closing l p" "uv__has_ref (handles l p) = is_ref l p"
  by (simp_all add: uv__is_active_def uv__is_closing_def uv__has_ref_def is_active_def is_closing_def is_ref_def flag_bits)

definition live :: "uv_loop_t \<Rightarrow> ptr set" where
  "live l = {p. is_active l p \<and> is_ref l p}"

definition active_count :: "uv_loop_t \<Rightarrow> bool" where
  "active_count l \<longleftrightarrow> finite (live l) \<and> active_handles l = of_nat (card (live l))"

lemma of_nat_card_remove: "finite A \<Longrightarrow> p \<in> A \<Longrightarrow> (of_nat (card (A - {p})) :: u32) = of_nat (card A) - 1"
  by (cases "card A") (auto simp: card_Diff_singleton)

lemma active_count_step:
  assumes "active_count l" and "active_handles l' = (if p \<in> live l' \<and> p \<notin> live l then active_handles l + 1
      else if p \<notin> live l' \<and> p \<in> live l then active_handles l - 1 else active_handles l)"
    and "\<And>x. x \<noteq> p \<Longrightarrow> x \<in> live l' \<longleftrightarrow> x \<in> live l"
  shows "active_count l'"
proof -
  consider "live l' = live l" | "p \<notin> live l" "live l' = insert p (live l)" | "p \<in> live l" "p \<notin> live l'" "live l' = live l - {p}"
    using assms(3) by (cases "p \<in> live l"; cases "p \<in> live l'") (auto simp: set_eq_iff, metis+)
  then show ?thesis
    using assms(1,2) of_nat_card_remove [of "live l" p] by cases (auto simp: active_count_def)
qed

lemma upd_handle_sel [simp]:
  "handles (upd_handle p f l) = (handles l)(p := f (handles l p))" "active_handles (upd_handle p f l) = active_handles l"
  "timer_heap (upd_handle p f l) = timer_heap l" "time (upd_handle p f l) = time l" "timer_counter (upd_handle p f l) = timer_counter l"
  "handle_links (upd_handle p f l) = handle_links l" "watcher_links (upd_handle p f l) = watcher_links l"
  "handle_queue (upd_handle p f l) = handle_queue l" "watcher_handles (upd_handle p f l) = watcher_handles l"
  "closing_handles (upd_handle p f l) = closing_handles l" "pending_queue (upd_handle p f l) = pending_queue l"
  "stop_flag (upd_handle p f l) = stop_flag l" "active_reqs (upd_handle p f l) = active_reqs l"
  by (simp_all add: upd_handle_def)

lemma live_iff: "x \<in> live l \<longleftrightarrow> bit (flags (handles l x)) 2 \<and> bit (flags (handles l x)) 3"
  by (simp add: live_def is_active_def is_ref_def)

lemma flag_same: "bit f 2 \<Longrightarrow> f OR UV_HANDLE_ACTIVE = f" "\<not> bit f 2 \<Longrightarrow> f AND NOT UV_HANDLE_ACTIVE = f"
  "bit f 3 \<Longrightarrow> f OR UV_HANDLE_REF = f" "\<not> bit f 3 \<Longrightarrow> f AND NOT UV_HANDLE_REF = f"
  by (rule bit_eqI, auto)+

lemmas handle_macro_defs = uv__handle_start_def uv__handle_stop_def uv__handle_ref_def uv__handle_unref_def
  uv__active_handle_add_def uv__active_handle_rm_def Let_def

text \<open>What the flag macros change: the flag, and the counter.\<close>

lemma handle_start_eq:
  "uv__handle_start p l = (upd_handle p (\<lambda>h. h\<lparr>flags := flags h OR UV_HANDLE_ACTIVE\<rparr>) l)
     \<lparr>active_handles := (if \<not> is_active l p \<and> is_ref l p then active_handles l + 1 else active_handles l)\<rparr>"
  unfolding handle_macro_defs flag_bits is_active_def is_ref_def
  by (cases "bit (flags (handles l p)) 2"; cases "bit (flags (handles l p)) 3") (simp_all add: flag_same upd_handle_def)

lemma handle_stop_eq:
  "uv__handle_stop p l = (upd_handle p (\<lambda>h. h\<lparr>flags := flags h AND NOT UV_HANDLE_ACTIVE\<rparr>) l)
     \<lparr>active_handles := (if is_active l p \<and> is_ref l p then active_handles l - 1 else active_handles l)\<rparr>"
  unfolding handle_macro_defs flag_bits is_active_def is_ref_def
  by (cases "bit (flags (handles l p)) 2"; cases "bit (flags (handles l p)) 3") (simp_all add: flag_same upd_handle_def)

lemma handle_ref_eq:
  "uv__handle_ref p l = (upd_handle p (\<lambda>h. h\<lparr>flags := flags h OR UV_HANDLE_REF\<rparr>) l)
     \<lparr>active_handles := (if \<not> is_ref l p \<and> \<not> bit (flags (handles l p)) 0 \<and> is_active l p then active_handles l + 1 else active_handles l)\<rparr>"
  unfolding handle_macro_defs flag_bits is_active_def is_ref_def
  by (cases "bit (flags (handles l p)) 2"; cases "bit (flags (handles l p)) 3"; cases "bit (flags (handles l p)) 0") (simp_all add: flag_same upd_handle_def)

lemma handle_unref_eq:
  "uv__handle_unref p l = (upd_handle p (\<lambda>h. h\<lparr>flags := flags h AND NOT UV_HANDLE_REF\<rparr>) l)
     \<lparr>active_handles := (if is_ref l p \<and> \<not> bit (flags (handles l p)) 0 \<and> is_active l p then active_handles l - 1 else active_handles l)\<rparr>"
  unfolding handle_macro_defs flag_bits is_active_def is_ref_def
  by (cases "bit (flags (handles l p)) 2"; cases "bit (flags (handles l p)) 3"; cases "bit (flags (handles l p)) 0") (simp_all add: flag_same upd_handle_def)

lemma handle_start_count: "active_count l \<Longrightarrow> active_count (uv__handle_start p l)"
  by (erule active_count_step [where p = p]) (simp_all add: live_iff handle_start_eq is_active_def is_ref_def)

lemma handle_stop_count: "active_count l \<Longrightarrow> active_count (uv__handle_stop p l)"
  by (erule active_count_step [where p = p]) (simp_all add: live_iff handle_stop_eq is_active_def is_ref_def)

lemma handle_ref_count: "active_count l \<Longrightarrow> (is_closing l p \<Longrightarrow> \<not> is_active l p) \<Longrightarrow> active_count (uv__handle_ref p l)"
  by (erule active_count_step [where p = p]) (auto simp: live_iff handle_ref_eq is_closing_def is_active_def is_ref_def)

lemma handle_unref_count: "active_count l \<Longrightarrow> (is_closing l p \<Longrightarrow> \<not> is_active l p) \<Longrightarrow> active_count (uv__handle_unref p l)"
  by (erule active_count_step [where p = p]) (auto simp: live_iff handle_unref_eq is_closing_def is_active_def is_ref_def)

end
