(* ===== verification/UVTimer.thy ===== *)
theory UVTimer
  imports UVLoop
begin

unbundle bit_operations_syntax

text \<open>
  \<^verbatim>\<open>src/timer.c\<close> of libuv: timers over the heap, and the poll timeout of \<^verbatim>\<open>src/unix/core.c\<close> that is
  computed from it.  The callback of a timer is code of the client: \<open>call\<close> gives its effect on the
  loop and on a state of the client's own.  \<open>None\<close> stands for an operation that does not return.
  \<^item> \<open>timer_inv\<close>: the heap is the complete ordered tree of the active timers; \<open>timer_stop_spec\<close>,
    \<open>timer_start_spec\<close>, \<open>timer_again_spec\<close>: the operations return and keep it.
  \<^item> \<open>next_timeout_spec\<close>: the time to the earliest timer.
  \<^item> \<open>run_timers_spec\<close>: the loop ends after calling every due timer once, in order.
\<close>

section \<open>Operations\<close>

definition timer_less_than :: "(ptr \<Rightarrow> uv_handle_t) \<Rightarrow> ptr \<Rightarrow> ptr \<Rightarrow> bool" where
  "timer_less_than H a b =
     (if timeout (H a) < timeout (H b) then True
      else if timeout (H b) < timeout (H a) then False
      else start_id (H a) < start_id (H b))"

definition uv_timer_init :: "ptr \<Rightarrow> uv_loop_t \<Rightarrow> int \<times> uv_loop_t" where
  "uv_timer_init p l =
     (let l = uv__handle_init UV_TIMER p l;
          l = upd_handle p (\<lambda>h. h\<lparr>cb := NULL\<rparr>) l;
          l = upd_handle p (\<lambda>h. h\<lparr>trepeat := 0\<rparr>) l
      in (0, l))"

definition uv_timer_stop :: "ptr \<Rightarrow> uv_loop_t \<Rightarrow> (int \<times> uv_loop_t) option" where
  "uv_timer_stop p l =
     (if \<not> uv__is_active (handles l p) then Some (0, l)
      else Option.bind (heap_remove (timer_heap l) p (timer_less_than (handles l)))
        (\<lambda>th. Some (0, uv__handle_stop p (l\<lparr>timer_heap := th\<rparr>))))"

definition uv_timer_start :: "ptr \<Rightarrow> ptr \<Rightarrow> u64 \<Rightarrow> u64 \<Rightarrow> uv_loop_t \<Rightarrow> (int \<times> uv_loop_t) option" where
  "uv_timer_start p c tmo rep l =
     (if uv__is_closing (handles l p) \<or> c = NULL then Some (UV_EINVAL, l)
      else Option.bind (if uv__is_active (handles l p) then uv_timer_stop p l else Some (0, l)) (\<lambda>(_, l).
        let clamped_timeout = time l + tmo;
            clamped_timeout = (if clamped_timeout < tmo then - 1 else clamped_timeout);
            l = upd_handle p (\<lambda>h. h\<lparr>cb := c\<rparr>) l;
            l = upd_handle p (\<lambda>h. h\<lparr>timeout := clamped_timeout\<rparr>) l;
            l = upd_handle p (\<lambda>h. h\<lparr>trepeat := rep\<rparr>) l;
            l = upd_handle p (\<lambda>h. h\<lparr>start_id := timer_counter l\<rparr>) l;
            l = l\<lparr>timer_counter := timer_counter l + 1\<rparr>
        in Option.bind (heap_insert (timer_heap l) p (timer_less_than (handles l)))
             (\<lambda>th. Some (0, uv__handle_start p (l\<lparr>timer_heap := th\<rparr>)))))"

definition uv_timer_again :: "ptr \<Rightarrow> uv_loop_t \<Rightarrow> (int \<times> uv_loop_t) option" where
  "uv_timer_again p l =
     (if cb (handles l p) = NULL then Some (UV_EINVAL, l)
      else if trepeat (handles l p) \<noteq> 0 then
        Option.bind (uv_timer_stop p l) (\<lambda>(_, l).
        Option.bind (uv_timer_start p (cb (handles l p)) (trepeat (handles l p)) (trepeat (handles l p)) l) (\<lambda>(_, l).
        Some (0, l)))
      else Some (0, l))"

definition uv_timer_set_repeat :: "ptr \<Rightarrow> u64 \<Rightarrow> uv_loop_t \<Rightarrow> uv_loop_t" where
  "uv_timer_set_repeat p rep l = upd_handle p (\<lambda>h. h\<lparr>trepeat := rep\<rparr>) l"

definition uv_timer_get_repeat :: "ptr \<Rightarrow> uv_loop_t \<Rightarrow> u64" where
  "uv_timer_get_repeat p l = trepeat (handles l p)"

definition INT_MAX_u64 :: u64 where
  "INT_MAX_u64 = 0x7fffffff"

definition uv__next_timeout :: "uv_loop_t \<Rightarrow> int" where
  "uv__next_timeout l =
     (let p = heap_min (timer_heap l) in
      if p = NULL then - 1
      else if timeout (handles l p) \<le> time l then 0
      else let diff = timeout (handles l p) - time l;
               diff = (if diff > INT_MAX_u64 then INT_MAX_u64 else diff)
           in uint diff)"

definition uv_backend_timeout :: "uv_loop_t \<Rightarrow> int" where
  "uv_backend_timeout l =
     (if stop_flag l \<noteq> 0 then 0
      else if \<not> uv__has_active_handles l \<and> \<not> uv__has_active_reqs l then 0
      else if \<not> QUEUE_EMPTY (watcher_links l) (watcher_handles l UV_IDLE) then 0
      else if \<not> QUEUE_EMPTY (watcher_links l) (pending_queue l) then 0
      else if closing_handles l \<noteq> NULL then 0
      else uv__next_timeout l)"

type_synonym 'u caller = "ptr \<Rightarrow> ptr \<Rightarrow> uv_loop_t \<times> 'u \<Rightarrow> (uv_loop_t \<times> 'u) option"

partial_function (option) uv__run_timers :: "'u caller \<Rightarrow> uv_loop_t \<times> 'u \<Rightarrow> (uv_loop_t \<times> 'u) option" where
  [code]: "uv__run_timers call s =
     (let l = fst s; p = heap_min (timer_heap l) in
      if p = NULL then Some s
      else if timeout (handles l p) > time l then Some s
      else Option.bind (uv_timer_stop p l) (\<lambda>(_, l).
           Option.bind (uv_timer_again p l) (\<lambda>(_, l).
           Option.bind (call (cb (handles l p)) p (l, snd s)) (uv__run_timers call))))"

definition uv__timer_close :: "ptr \<Rightarrow> uv_loop_t \<Rightarrow> uv_loop_t option" where
  "uv__timer_close p l = map_option snd (uv_timer_stop p l)"

section \<open>The heap of active timers\<close>

interpretation timers: heap_order "timer_less_than H" for H
  by unfold_locales (auto simp: timer_less_than_def split: if_splits)

definition armed :: "uv_loop_t \<Rightarrow> ptr set" where
  "armed l = {p. is_active l p \<and> htype (handles l p) = UV_TIMER}"

definition timer_inv :: "uv_loop_t \<Rightarrow> bool" where
  "timer_inv l \<longleftrightarrow> (\<exists>xs. hrep xs (timer_heap l) \<and> heap_ordered (timer_less_than (handles l)) xs \<and> set xs = armed l)"

lemma ordered_cong:
  assumes "\<And>a. a \<in> set xs \<Longrightarrow> timeout (H' a) = timeout (H a) \<and> start_id (H' a) = start_id (H a)"
    and "heap_ordered (timer_less_than H) xs"
  shows "heap_ordered (timer_less_than H') xs"
  unfolding heap_ordered_def
proof (intro allI impI)
  fix k assume k: "0 < k" "k < length xs"
  then have "(k - 1) div 2 < length xs" by auto
  then have "timer_less_than H' (xs ! k) (xs ! ((k - 1) div 2)) = timer_less_than H (xs ! k) (xs ! ((k - 1) div 2))"
    using assms(1) k by (simp add: timer_less_than_def)
  with assms(2) k show "\<not> timer_less_than H' (xs ! k) (xs ! ((k - 1) div 2))" by (simp add: heap_ordered_def)
qed

text \<open>The invariant depends on the heap and on the keys and flags of the timers only.\<close>

lemma timer_inv_cong:
  assumes "timer_inv l" and "timer_heap l' = timer_heap l" and "armed l' = armed l"
    and "\<And>a. a \<in> armed l \<Longrightarrow> timeout (handles l' a) = timeout (handles l a) \<and> start_id (handles l' a) = start_id (handles l a)"
  shows "timer_inv l'"
  using assms ordered_cong [of _ "handles l'" "handles l"] unfolding timer_inv_def by metis

lemma timer_stop_spec:
  assumes "timer_inv l" and "htype (handles l p) = UV_TIMER"
  shows "\<exists>l'. uv_timer_stop p l = Some (0, l') \<and> timer_inv l' \<and> l' = (uv__handle_stop p l)\<lparr>timer_heap := timer_heap l'\<rparr>"
proof (cases "is_active l p")
  case False
  then have "uv__handle_stop p l = l" by (simp add: uv__handle_stop_def is_active_def flag_bits)
  then show ?thesis using False assms(1) by (auto simp: uv_timer_stop_def flag_predicates)
next
  case True
  from assms(1) obtain xs where x: "hrep xs (timer_heap l)" "heap_ordered (timer_less_than (handles l)) xs" "set xs = armed l"
    by (auto simp: timer_inv_def)
  have "p \<in> set xs" using True assms(2) x(3) by (simp add: armed_def)
  from timers.heap_remove_spec [OF x(1,2) this] obtain th ys where
    y: "heap_remove (timer_heap l) p (timer_less_than (handles l)) = Some th" "hrep ys th"
      "heap_ordered (timer_less_than (handles l)) ys" "mset ys = mset xs - {#p#}" by blast
  let ?l = "uv__handle_stop p (l\<lparr>timer_heap := th\<rparr>)"
  have "set ys = set xs - {p}" using y(4) hrepD(2) [OF x(1)] by (metis mset_eq_setD mset_remove1 set_remove1_eq)
  then have "set ys = armed ?l" using x(3) True
    by (auto simp: armed_def handle_stop_eq is_active_def)
  moreover have "timer_heap ?l = th" by (simp add: handle_stop_eq)
  moreover have "heap_ordered (timer_less_than (handles ?l)) ys"
    using ordered_cong [OF _ y(3), of "handles ?l"] by (simp add: handle_stop_eq)
  ultimately have "timer_inv ?l" using y(2) by (auto simp: timer_inv_def)
  moreover have "uv_timer_stop p l = Some (0, ?l)" using y(1) True by (simp add: uv_timer_stop_def flag_predicates)
  moreover have "?l = (uv__handle_stop p l)\<lparr>timer_heap := th\<rparr>"
    by (simp add: handle_stop_eq upd_handle_def is_active_def is_ref_def)
  ultimately show ?thesis by (auto simp: handle_stop_eq)
qed

definition clamped :: "u64 \<Rightarrow> u64 \<Rightarrow> u64" where
  "clamped now tmo = (if now + tmo < tmo then - 1 else now + tmo)"

text \<open>The handle with the fields \<open>uv_timer_start\<close> sets.\<close>

definition keyed :: "ptr \<Rightarrow> u64 \<Rightarrow> u64 \<Rightarrow> uv_loop_t \<Rightarrow> uv_handle_t \<Rightarrow> uv_handle_t" where
  "keyed c tmo r l h = h\<lparr>cb := c, timeout := clamped (time l) tmo, trepeat := r, start_id := timer_counter l\<rparr>"

lemma timer_start_inactive:
  assumes inv: "timer_inv l" and t: "htype (handles l p) = UV_TIMER" and "\<not> is_active l p" "\<not> is_closing l p" "c \<noteq> NULL" "p \<noteq> NULL"
    and room: "card (armed l) + 1 < 2 ^ 32"
  shows "\<exists>l'. uv_timer_start p c tmo r l = Some (0, l') \<and> timer_inv l' \<and>
    l' = (uv__handle_start p ((upd_handle p (keyed c tmo r l) l)\<lparr>timer_counter := timer_counter l + 1\<rparr>))\<lparr>timer_heap := timer_heap l'\<rparr>"
proof -
  from inv obtain xs where x: "hrep xs (timer_heap l)" "heap_ordered (timer_less_than (handles l)) xs" "set xs = armed l"
    by (auto simp: timer_inv_def)
  have p: "p \<notin> set xs" using assms(3) x(3) by (simp add: armed_def)
  have n: "length xs + 1 < 2 ^ 32" using room distinct_card [OF hrepD(2) [OF x(1)]] by (simp add: x(3))
  let ?H = "(handles l)(p := keyed c tmo r l (handles l p))"
  have "heap_ordered (timer_less_than ?H) xs" using x(2) p by (elim ordered_cong [rotated]) auto
  from timers.heap_insert_spec [OF x(1) this p assms(6) n] obtain th ys where
    y: "heap_insert (timer_heap l) p (timer_less_than ?H) = Some th" "hrep ys th" "heap_ordered (timer_less_than ?H) ys" "mset ys = add_mset p (mset xs)"
    by blast
  let ?m = "(upd_handle p (keyed c tmo r l) l)\<lparr>timer_counter := timer_counter l + 1\<rparr>"
  let ?l = "uv__handle_start p (?m\<lparr>timer_heap := th\<rparr>)"
  have "set ys = insert p (set xs)" using y(4) by (metis set_mset_mset set_mset_add_mset_insert)
  then have "set ys = armed ?l" using x(3) t by (auto simp: armed_def handle_start_eq is_active_def keyed_def)
  moreover have "heap_ordered (timer_less_than (handles ?l)) ys"
    using ordered_cong [OF _ y(3), of "handles ?l"] by (simp add: handle_start_eq)
  ultimately have "timer_inv ?l" using y(2) by (auto simp: timer_inv_def handle_start_eq)
  moreover have "uv_timer_start p c tmo r l = Some (0, ?l)"
    using y(1) assms(3-5) by (simp add: uv_timer_start_def flag_predicates upd_handle_def Let_def keyed_def clamped_def)
  moreover have "?l = (uv__handle_start p ?m)\<lparr>timer_heap := th\<rparr>"
    by (simp add: handle_start_eq upd_handle_def is_active_def is_ref_def)
  ultimately show ?thesis by (auto simp: handle_start_eq)
qed

section \<open>The invariant of the loop\<close>

definition loop_inv :: "uv_loop_t \<Rightarrow> bool" where
  "loop_inv l \<longleftrightarrow> timer_inv l \<and> active_count l \<and> (\<forall>p. is_closing l p \<longrightarrow> \<not> is_active l p) \<and> (\<forall>p \<in> armed l. cb (handles l p) \<noteq> NULL)"

text \<open>The fields that the timer operations leave as they are.\<close>

definition frame :: "uv_loop_t \<Rightarrow> uv_loop_t \<Rightarrow> bool" where
  "frame l l' \<longleftrightarrow> time l' = time l \<and> active_reqs l' = active_reqs l \<and> stop_flag l' = stop_flag l \<and> closing_handles l' = closing_handles l
     \<and> handle_queue l' = handle_queue l \<and> pending_queue l' = pending_queue l \<and> watcher_handles l' = watcher_handles l
     \<and> handle_links l' = handle_links l \<and> watcher_links l' = watcher_links l"

lemma frame_trans: "frame l l' \<Longrightarrow> frame l' l'' \<Longrightarrow> frame l l''"
  by (simp add: frame_def)

lemma active_count_heap [simp]: "active_count (l\<lparr>timer_heap := th\<rparr>) = active_count l"
  by (simp add: active_count_def live_def is_active_def is_ref_def)

lemma stop_ok:
  assumes "loop_inv l" and "htype (handles l p) = UV_TIMER"
  shows "\<exists>l'. uv_timer_stop p l = Some (0, l') \<and> loop_inv l' \<and> timer_counter l' = timer_counter l \<and> frame l l' \<and>
    handles l' = (handles l)(p := (handles l p)\<lparr>flags := flags (handles l p) AND NOT UV_HANDLE_ACTIVE\<rparr>)"
proof -
  have i: "timer_inv l" "active_count l" "\<And>p. is_closing l p \<Longrightarrow> \<not> is_active l p"
    "\<And>p. p \<in> armed l \<Longrightarrow> cb (handles l p) \<noteq> NULL" using assms(1) by (auto simp: loop_inv_def)
  from timer_stop_spec [OF i(1) assms(2)] obtain l' where
    l': "uv_timer_stop p l = Some (0, l')" "timer_inv l'" "l' = (uv__handle_stop p l)\<lparr>timer_heap := timer_heap l'\<rparr>" by blast
  have h: "handles l' = (handles l)(p := (handles l p)\<lparr>flags := flags (handles l p) AND NOT UV_HANDLE_ACTIVE\<rparr>)"
    "timer_counter l' = timer_counter l" "frame l l'"
    by (subst l'(3), simp add: handle_stop_eq frame_def)+
  moreover have "active_count l'" by (subst l'(3)) (simp add: handle_stop_count i(2))
  moreover have "is_closing l' x \<Longrightarrow> \<not> is_active l' x" for x
    using i(3) [of x] by (auto simp: is_closing_def is_active_def h(1) split: if_splits)
  moreover have "x \<in> armed l' \<Longrightarrow> cb (handles l' x) \<noteq> NULL" for x
    using i(4) [of x] by (auto simp: armed_def is_active_def h(1) split: if_splits)
  ultimately show ?thesis using l'(1,2) by (auto simp: loop_inv_def)
qed

lemma start_refused:
  "is_closing l p \<or> c = NULL \<Longrightarrow> uv_timer_start p c tmo r l = Some (UV_EINVAL, l)"
  by (simp add: uv_timer_start_def flag_predicates)

lemma keyed_stop:
  "keyed c tmo r l' = keyed c tmo r l" if "time l' = time l" "timer_counter l' = timer_counter l"
  using that by (simp add: keyed_def fun_eq_iff)

lemma start_ok:
  assumes "loop_inv l" and t: "htype (handles l p) = UV_TIMER" and c: "\<not> is_closing l p" "c \<noteq> NULL" "p \<noteq> NULL"
    and room: "card (armed l - {p}) + 1 < 2 ^ 32"
  shows "\<exists>l'. uv_timer_start p c tmo r l = Some (0, l') \<and> loop_inv l' \<and> timer_counter l' = timer_counter l + 1 \<and> frame l l' \<and>
    handles l' = (handles l)(p := (keyed c tmo r l (handles l p))\<lparr>flags := flags (handles l p) OR UV_HANDLE_ACTIVE\<rparr>)"
proof -
  obtain m where m: "(if is_active l p then uv_timer_stop p l else Some (0, l)) = Some (0, m)" "loop_inv m" "timer_counter m = timer_counter l" "frame l m"
    "handles m = (handles l)(p := (handles l p)\<lparr>flags := flags (handles l p) AND NOT UV_HANDLE_ACTIVE\<rparr>)"
  proof (cases "is_active l p")
    case True
    then show thesis using that stop_ok [OF assms(1) t] by auto
  next
    case False
    then show thesis using that [of l] assms(1) by (auto simp: frame_def flag_same is_active_def)
  qed
  have na: "\<not> is_active m p" "\<not> is_closing m p" "htype (handles m p) = UV_TIMER" using c t by (auto simp: is_active_def is_closing_def m(5))
  have "armed m = armed l - {p}" using t by (auto simp: armed_def is_active_def m(5))
  then have r: "card (armed m) + 1 < 2 ^ 32" using room by simp
  have "timer_inv m" using m(2) by (simp add: loop_inv_def)
  from timer_start_inactive [OF this na(3,1,2) c(2,3) r, of tmo r] obtain l' where
    l': "uv_timer_start p c tmo r m = Some (0, l')" "timer_inv l'"
      "l' = (uv__handle_start p ((upd_handle p (keyed c tmo r m) m)\<lparr>timer_counter := timer_counter m + 1\<rparr>))\<lparr>timer_heap := timer_heap l'\<rparr>"
    by blast
  have e: "uv_timer_start p c tmo r l = uv_timer_start p c tmo r m"
    using m(1) c na by (simp add: uv_timer_start_def flag_predicates split: if_splits)
  have fl: "(f AND NOT UV_HANDLE_ACTIVE) OR UV_HANDLE_ACTIVE = f OR UV_HANDLE_ACTIVE" for f by (rule bit_eqI) auto
  have "time m = time l" using m(4) by (simp add: frame_def)
  then have h: "handles l' = (handles l)(p := (keyed c tmo r l (handles l p))\<lparr>flags := flags (handles l p) OR UV_HANDLE_ACTIVE\<rparr>)"
    using m(3) by (subst l'(3)) (simp add: handle_start_eq m(5) keyed_def fl)
  have f: "timer_counter l' = timer_counter l + 1" "frame m l'"
    by (subst l'(3), simp add: handle_start_eq frame_def m(3))+
  have "live ((upd_handle p (keyed c tmo r m) m)\<lparr>timer_counter := timer_counter m + 1\<rparr>) = live m"
    by (auto simp: live_iff keyed_def split: if_splits)
  then have "active_count ((upd_handle p (keyed c tmo r m) m)\<lparr>timer_counter := timer_counter m + 1\<rparr>)"
    using m(2) by (simp add: active_count_def loop_inv_def)
  then have "active_count l'" by (subst l'(3)) (simp add: handle_start_count)
  moreover have "is_closing l' x \<Longrightarrow> \<not> is_active l' x" for x
    using assms(1) c by (auto simp: loop_inv_def is_closing_def is_active_def h keyed_def split: if_splits)
  moreover have "x \<in> armed l' \<Longrightarrow> cb (handles l' x) \<noteq> NULL" for x
    using assms(1) c(2) by (auto simp: loop_inv_def armed_def is_active_def h keyed_def split: if_splits)
  ultimately show ?thesis using l'(1,2) e h f frame_trans [OF m(4)] by (auto simp: loop_inv_def)
qed

lemma armed_finite:
  assumes "timer_inv l"
  shows "finite (armed l)" "card (armed l) < 2 ^ 32" "NULL \<notin> armed l"
proof -
  from assms obtain xs where x: "hrep xs (timer_heap l)" "set xs = armed l" by (auto simp: timer_inv_def)
  then have "card (armed l) = unat (nelts (timer_heap l))" using distinct_card [OF hrepD(2) [OF x(1)]] by (simp add: hrep_def x(2))
  then show "card (armed l) < 2 ^ 32" using unsigned_less [of "nelts (timer_heap l)"] by simp
  show "finite (armed l)" "NULL \<notin> armed l" using x treeD(2) [OF hrepD(1) [OF x(1)]] by (auto simp flip: x(2))
qed

lemma min_armed:
  assumes "timer_inv l"
  shows "armed l = {} \<Longrightarrow> heap_min (timer_heap l) = NULL"
    and "armed l \<noteq> {} \<Longrightarrow> heap_min (timer_heap l) \<in> armed l"
    and "x \<in> armed l \<Longrightarrow> \<not> timer_less_than (handles l) x (heap_min (timer_heap l))"
proof -
  from assms obtain xs where x: "hrep xs (timer_heap l)" "heap_ordered (timer_less_than (handles l)) xs" "set xs = armed l"
    by (auto simp: timer_inv_def)
  note m = timers.heap_min_spec [OF x(1,2)]
  show "armed l = {} \<Longrightarrow> heap_min (timer_heap l) = NULL"
    "armed l \<noteq> {} \<Longrightarrow> heap_min (timer_heap l) \<in> armed l"
    "x \<in> armed l \<Longrightarrow> \<not> timer_less_than (handles l) x (heap_min (timer_heap l))"
    using m by (auto simp flip: x(3) split: if_splits)
qed

lemma clamp_later:
  assumes "r \<noteq> 0" and "now < - 1"
  shows "now < clamped now r"
proof (cases "now + r < r")
  case True
  then show ?thesis using assms(2) by (simp add: clamped_def)
next
  case False
  then have "r \<le> now + r" by simp
  then have "uint (now + r) = uint now + uint r" using no_olen_add' [of r now] uint_add_lem [of now r] by simp
  moreover have "0 < uint r" using assms(1) unsigned_greater_eq [of r] by (simp add: order_less_le uint_0_iff)
  ultimately show ?thesis using False by (simp add: clamped_def word_less_def)
qed

definition due :: "uv_loop_t \<Rightarrow> ptr set" where
  "due l = {p \<in> armed l. timeout (handles l p) \<le> time l}"

text \<open>One round of \<open>uv__run_timers\<close> before the callback.\<close>

lemma fire_ok:
  assumes inv: "loop_inv l" and p: "p \<in> armed l" and now: "time l < - 1"
  shows "\<exists>l1 l2 r. uv_timer_stop p l = Some (0, l1) \<and> uv_timer_again p l1 = Some (r, l2) \<and> loop_inv l2 \<and> frame l l2
    \<and> (\<forall>x. x \<noteq> p \<longrightarrow> handles l2 x = handles l x) \<and> cb (handles l2 p) = cb (handles l p) \<and> p \<notin> due l2
    \<and> (is_active l2 p \<longleftrightarrow> trepeat (handles l p) \<noteq> 0)"
proof -
  have t: "htype (handles l p) = UV_TIMER" and ac: "is_active l p" using p by (auto simp: armed_def)
  have ti: "timer_inv l" and c: "cb (handles l p) \<noteq> NULL" and cl: "\<not> is_closing l p" using inv p ac by (auto simp: loop_inv_def)
  from stop_ok [OF inv t] obtain l1 where l1: "uv_timer_stop p l = Some (0, l1)" "loop_inv l1" "timer_counter l1 = timer_counter l" "frame l l1"
    "handles l1 = (handles l)(p := (handles l p)\<lparr>flags := flags (handles l p) AND NOT UV_HANDLE_ACTIVE\<rparr>)" by blast
  have na: "\<not> is_active l1 p" by (simp add: is_active_def l1(5))
  show ?thesis
  proof (cases "trepeat (handles l p) = 0")
    case True
    then have "uv_timer_again p l1 = Some (0, l1)" using c by (simp add: uv_timer_again_def l1(5))
    then show ?thesis using l1 na True by (intro exI [of _ l1]) (auto simp: due_def armed_def)
  next
    case False
    have s1: "uv_timer_stop p l1 = Some (0, l1)" using na by (simp add: uv_timer_stop_def flag_predicates)
    have pN: "p \<noteq> NULL" using armed_finite(3) [OF ti] p by metis
    have "armed l1 = armed l - {p}" using t by (auto simp: armed_def is_active_def l1(5))
    then have "card (armed l1 - {p}) + 1 < 2 ^ 32"
      using armed_finite(1,2) [OF ti] p card_Suc_Diff1 [of "armed l" p] by simp
    from start_ok [OF l1(2) _ _ _ pN this, of "cb (handles l p)" "trepeat (handles l p)" "trepeat (handles l p)"] t cl c
    obtain l2 where l2: "uv_timer_start p (cb (handles l p)) (trepeat (handles l p)) (trepeat (handles l p)) l1 = Some (0, l2)"
      "loop_inv l2" "frame l1 l2" "handles l2 = (handles l1)(p := (keyed (cb (handles l p)) (trepeat (handles l p)) (trepeat (handles l p)) l1 (handles l1 p))
         \<lparr>flags := flags (handles l1 p) OR UV_HANDLE_ACTIVE\<rparr>)"
      by (auto simp: l1(5) is_closing_def)
    have "uv_timer_again p l1 = Some (0, l2)" using c s1 l2(1) False by (simp add: uv_timer_again_def l1(5))
    moreover have "time l1 = time l" "time l2 = time l" using l1(4) l2(3) by (simp_all add: frame_def)
    ultimately show ?thesis using l1 l2 frame_trans [OF l1(4) l2(3)] clamp_later [OF False now] False
      by (intro exI [of _ l1] exI [of _ l2]) (auto simp: due_def keyed_def is_active_def)
  qed
qed

lemma run_timers_spec:
  assumes "loop_inv l" and "time l < - 1" and quiet: "\<And>c p l u. call c p (l, u) = Some (l, f c p u)"
  shows "\<exists>l' ps. uv__run_timers call (l, u) = Some (l', fold (\<lambda>p. f (cb (handles l p)) p) ps u) \<and> loop_inv l' \<and> frame l l'
    \<and> distinct ps \<and> set ps = due l \<and> sorted_wrt (\<lambda>a b. \<not> timer_less_than (handles l) b a) ps \<and> due l' = {}
    \<and> (\<forall>x. x \<notin> due l \<longrightarrow> handles l' x = handles l x) \<and> (\<forall>x \<in> due l. is_active l' x \<longleftrightarrow> trepeat (handles l x) \<noteq> 0)"
  using assms(1,2)
proof (induction "card (due l)" arbitrary: l u rule: less_induct)
  case less
  have ti: "timer_inv l" using less.prems by (simp add: loop_inv_def)
  let ?p = "heap_min (timer_heap l)"
  show ?case
  proof (cases "due l = {}")
    case True
    have "?p \<noteq> NULL \<Longrightarrow> timeout (handles l ?p) > time l"
      using min_armed(1,2) [OF ti] True by (auto simp: due_def not_le)
    then have "uv__run_timers call (l, u) = Some (l, u)" using uv__run_timers.simps [of call "(l, u)"] by (auto simp: Let_def)
    then show ?thesis using less.prems True by (intro exI [of _ l] exI [of _ "[]"]) (auto simp: frame_def)
  next
    case False
    then obtain x where x: "x \<in> armed l" "timeout (handles l x) \<le> time l" by (auto simp: due_def)
    have p: "?p \<in> armed l" using min_armed(2) [OF ti] x by blast
    have pN: "?p \<noteq> NULL" using p armed_finite(3) [OF ti] by metis
    have "timeout (handles l ?p) \<le> time l" using min_armed(3) [OF ti x(1)] x(2)
      by (auto simp: timer_less_than_def split: if_splits)
    then have d: "?p \<in> due l" using p by (simp add: due_def)
    from fire_ok [OF less.prems(1) p less.prems(2)] obtain l1 l2 r where
      l2: "uv_timer_stop ?p l = Some (0, l1)" "uv_timer_again ?p l1 = Some (r, l2)" "loop_inv l2" "frame l l2"
        "\<And>x. x \<noteq> ?p \<Longrightarrow> handles l2 x = handles l x" "cb (handles l2 ?p) = cb (handles l ?p)" "?p \<notin> due l2"
        "is_active l2 ?p \<longleftrightarrow> trepeat (handles l ?p) \<noteq> 0" by blast
    have t: "time l2 = time l" using l2(4) by (simp add: frame_def)
    have x2: "x \<in> due l2 \<longleftrightarrow> x \<in> due l" if "x \<noteq> ?p" for x using l2(5) [OF that] t by (simp add: due_def armed_def is_active_def)
    have d2: "due l2 = due l - {?p}"
    proof (rule set_eqI)
      show "x \<in> due l2 \<longleftrightarrow> x \<in> due l - {?p}" for x using x2 [of x] l2(7) by (cases "x = ?p") simp_all
    qed
    have "finite (due l)" using armed_finite(1) [OF ti] by (simp add: due_def)
    then have "card (due l2) < card (due l)" using d d2 by (metis card_Diff1_less)
    then obtain l' ps where r: "uv__run_timers call (l2, f (cb (handles l ?p)) ?p u) = Some (l', fold (\<lambda>p. f (cb (handles l2 p)) p) ps (f (cb (handles l ?p)) ?p u))"
      "loop_inv l'" "frame l2 l'" "distinct ps" "set ps = due l2" "sorted_wrt (\<lambda>a b. \<not> timer_less_than (handles l2) b a) ps" "due l' = {}"
      "\<And>x. x \<notin> due l2 \<Longrightarrow> handles l' x = handles l2 x" "\<And>x. x \<in> due l2 \<Longrightarrow> is_active l' x \<longleftrightarrow> trepeat (handles l2 x) \<noteq> 0"
      using less.hyps [of l2 "f (cb (handles l ?p)) ?p u"] l2(3) t less.prems(2) by auto
    have st: "uv__run_timers call (l, u) = uv__run_timers call (l2, f (cb (handles l ?p)) ?p u)"
    proof -
      have "\<not> time l < timeout (handles l ?p)" using \<open>timeout (handles l ?p) \<le> time l\<close> by simp
      then show ?thesis using uv__run_timers.simps [of call "(l, u)"] pN l2(1,2,6) by (simp add: Let_def quiet)
    qed
    have ps: "x \<noteq> ?p" if "x \<in> set ps" for x using that r(5) d2 by auto
    have "fold (\<lambda>p. f (cb (handles l2 p)) p) ps v = fold (\<lambda>p. f (cb (handles l p)) p) ps v" for v
      using ps l2(5) by (intro fold_cong) auto
    with r(1) st have e: "uv__run_timers call (l, u) = Some (l', fold (\<lambda>p. f (cb (handles l p)) p) (?p # ps) u)" by simp
    have "timer_less_than (handles l2) b a = timer_less_than (handles l) b a" if "a \<in> set ps" "b \<in> set ps" for a b
      using l2(5) ps that by (simp add: timer_less_than_def)
    then have "sorted_wrt (\<lambda>a b. \<not> timer_less_than (handles l) b a) ps"
      by (intro sorted_wrt_mono_rel [OF _ r(6)]) simp
    moreover have "\<not> timer_less_than (handles l) b ?p" if "b \<in> set ps" for b
      using that r(5) d2 min_armed(3) [OF ti, of b] by (auto simp: due_def)
    ultimately have so: "sorted_wrt (\<lambda>a b. \<not> timer_less_than (handles l) b a) (?p # ps)" by simp
    have ds: "distinct (?p # ps)" "set (?p # ps) = due l" using r(4,5) ps d d2 by auto
    have un: "handles l' x = handles l x" if "x \<notin> due l" for x
      using that d r(8) [of x] l2(5) [of x] d2 by (cases "x = ?p") auto
    have ac: "is_active l' x \<longleftrightarrow> trepeat (handles l x) \<noteq> 0" if "x \<in> due l" for x
    proof (cases "x = ?p")
      case True
      have "handles l' ?p = handles l2 ?p" using r(8) [OF l2(7)] .
      then show ?thesis using l2(8) unfolding True by (simp add: is_active_def)
    next
      case False
      then show ?thesis using r(9) [of x] that d2 l2(5) [OF False] by auto
    qed
    show ?thesis using e r(2,7) frame_trans [OF l2(4) r(3)] so ds un ac by blast
  qed
qed

lemma next_timeout_spec:
  assumes "timer_inv l"
  shows "armed l = {} \<Longrightarrow> uv__next_timeout l = - 1"
    and "due l \<noteq> {} \<Longrightarrow> uv__next_timeout l = 0"
    and "armed l \<noteq> {} \<Longrightarrow> due l = {} \<Longrightarrow> 0 < uv__next_timeout l \<and> uv__next_timeout l \<le> 2147483647
      \<and> (\<forall>p \<in> armed l. uint (time l) + uv__next_timeout l \<le> uint (timeout (handles l p)))
      \<and> (uv__next_timeout l < 2147483647 \<longrightarrow> (\<exists>p \<in> armed l. uint (timeout (handles l p)) = uint (time l) + uv__next_timeout l))"
proof -
  let ?p = "heap_min (timer_heap l)"
  show "armed l = {} \<Longrightarrow> uv__next_timeout l = - 1" using min_armed(1) [OF assms] by (simp add: uv__next_timeout_def)
  have p: "?p \<in> armed l" "?p \<noteq> NULL" if "armed l \<noteq> {}" using min_armed(2) [OF assms that] armed_finite(3) [OF assms] by (blast, metis)
  have le: "timeout (handles l ?p) \<le> timeout (handles l x)" if "x \<in> armed l" for x
    using min_armed(3) [OF assms that] by (auto simp: timer_less_than_def split: if_splits)
  show "uv__next_timeout l = 0" if "due l \<noteq> {}"
  proof -
    from that obtain x where x: "x \<in> armed l" "timeout (handles l x) \<le> time l" by (auto simp: due_def)
    then have "timeout (handles l ?p) \<le> time l" using le [OF x(1)] by simp
    then show ?thesis using p(2) x(1) by (auto simp: uv__next_timeout_def Let_def)
  qed
  assume a: "armed l \<noteq> {}" "due l = {}"
  then have lt: "time l < timeout (handles l ?p)" using p by (auto simp: due_def not_le)
  let ?d = "timeout (handles l ?p) - time l"
  have d: "uint ?d = uint (timeout (handles l ?p)) - uint (time l)" using lt uint_minus_simple_alt by (metis order_less_imp_le)
  have n: "uv__next_timeout l = min (uint ?d) 2147483647"
    using p(2) [OF a(1)] lt by (auto simp: uv__next_timeout_def Let_def INT_MAX_u64_def word_less_def word_le_def min_def)
  have l: "uint (time l) < uint (timeout (handles l ?p))" using lt by (simp add: word_less_def)
  have "uint (timeout (handles l ?p)) \<le> uint (timeout (handles l x))" if "x \<in> armed l" for x
    using le [OF that] by (simp add: word_le_def)
  then show "0 < uv__next_timeout l \<and> uv__next_timeout l \<le> 2147483647
      \<and> (\<forall>p \<in> armed l. uint (time l) + uv__next_timeout l \<le> uint (timeout (handles l p)))
      \<and> (uv__next_timeout l < 2147483647 \<longrightarrow> (\<exists>p \<in> armed l. uint (timeout (handles l p)) = uint (time l) + uv__next_timeout l))"
    using l d p(1) [OF a(1)] unfolding n by (force simp: min_def)
qed

end
