(* ===== verification/UVWatcher.thy ===== *)
theory UVWatcher
  imports UVTimer
begin

unbundle bit_operations_syntax

text \<open>
  \<^verbatim>\<open>src/unix/loop-watcher.c\<close> of libuv, whose macro defines the prepare, check and idle watchers, and
  the closing of handles in \<^verbatim>\<open>src/unix/core.c\<close> for these types and for timers.  The macro's \<open>name\<close> is
  the handle type; \<open>watcher_handles\<close> gives the head of the queue of each type.  The address of the
  local queue of \<^verbatim>\<open>uv__run_<name>\<close> is an argument, \<open>sq\<close>.
  \<^item> \<open>run_watchers_spec\<close>: one round ends after calling every watcher once, in the order of the queue,
    which is kept.
\<close>

section \<open>Watchers\<close>

definition uv_watcher_init :: "uv_handle_type \<Rightarrow> ptr \<Rightarrow> uv_loop_t \<Rightarrow> int \<times> uv_loop_t" where
  "uv_watcher_init t p l =
     (let l = uv__handle_init t p l;
          l = upd_handle p (\<lambda>h. h\<lparr>cb := NULL\<rparr>) l
      in (0, l))"

definition uv_watcher_start :: "ptr \<Rightarrow> ptr \<Rightarrow> uv_loop_t \<Rightarrow> int \<times> uv_loop_t" where
  "uv_watcher_start p c l =
     (if uv__is_active (handles l p) then (0, l)
      else if c = NULL then (UV_EINVAL, l)
      else
        let l = l\<lparr>watcher_links := QUEUE_INSERT_HEAD (watcher_handles l (htype (handles l p))) p (watcher_links l)\<rparr>;
            l = upd_handle p (\<lambda>h. h\<lparr>cb := c\<rparr>) l
        in (0, uv__handle_start p l))"

definition uv_watcher_stop :: "ptr \<Rightarrow> uv_loop_t \<Rightarrow> int \<times> uv_loop_t" where
  "uv_watcher_stop p l =
     (if \<not> uv__is_active (handles l p) then (0, l)
      else
        let l = l\<lparr>watcher_links := QUEUE_REMOVE p (watcher_links l)\<rparr>
        in (0, uv__handle_stop p l))"

text \<open>The loop of \<^verbatim>\<open>uv__run_<name>\<close> and the function.\<close>

partial_function (option) run_watchers :: "uv_handle_type \<Rightarrow> ptr \<Rightarrow> 'u caller \<Rightarrow> uv_loop_t \<times> 'u \<Rightarrow> (uv_loop_t \<times> 'u) option" where
  [code]: "run_watchers t sq call s =
     (let l = fst s in
      if QUEUE_EMPTY (watcher_links l) sq then Some s
      else
        let q = QUEUE_HEAD (watcher_links l) sq;
            l = l\<lparr>watcher_links := QUEUE_REMOVE q (watcher_links l)\<rparr>;
            l = l\<lparr>watcher_links := QUEUE_INSERT_TAIL (watcher_handles l t) q (watcher_links l)\<rparr>
        in Option.bind (call (cb (handles l q)) q (l, snd s)) (run_watchers t sq call))"

definition uv__run_watchers :: "uv_handle_type \<Rightarrow> ptr \<Rightarrow> 'u caller \<Rightarrow> uv_loop_t \<times> 'u \<Rightarrow> (uv_loop_t \<times> 'u) option" where
  "uv__run_watchers t sq call s =
     (let l = fst s;
          l = l\<lparr>watcher_links := QUEUE_MOVE (watcher_handles l t) sq (watcher_links l)\<rparr>
      in run_watchers t sq call (l, snd s))"

definition uv__watcher_close :: "ptr \<Rightarrow> uv_loop_t \<Rightarrow> uv_loop_t" where
  "uv__watcher_close p l = snd (uv_watcher_stop p l)"

section \<open>Closing\<close>

definition uv_close :: "ptr \<Rightarrow> ptr \<Rightarrow> uv_loop_t \<Rightarrow> uv_loop_t option" where
  "uv_close p ccb l =
     (if uv__is_closing (handles l p) then None
      else
        let l = upd_handle p (\<lambda>h. h\<lparr>flags := flags h OR UV_HANDLE_CLOSING\<rparr>) l;
            l = upd_handle p (\<lambda>h. h\<lparr>close_cb := ccb\<rparr>) l
        in Option.bind
             (case htype (handles l p) of
                UV_TIMER \<Rightarrow> uv__timer_close p l
              | UV_PREPARE \<Rightarrow> Some (uv__watcher_close p l)
              | UV_CHECK \<Rightarrow> Some (uv__watcher_close p l)
              | UV_IDLE \<Rightarrow> Some (uv__watcher_close p l))
             (uv__make_close_pending p))"

definition uv__finish_close :: "'u caller \<Rightarrow> ptr \<Rightarrow> uv_loop_t \<times> 'u \<Rightarrow> (uv_loop_t \<times> 'u) option" where
  "uv__finish_close call p s =
     (let l = fst s in
      if flags (handles l p) AND UV_HANDLE_CLOSING = 0 \<or> flags (handles l p) AND UV_HANDLE_CLOSED \<noteq> 0 then None
      else
        let l = upd_handle p (\<lambda>h. h\<lparr>flags := flags h OR UV_HANDLE_CLOSED\<rparr>) l;
            l = uv__handle_unref p l;
            l = l\<lparr>handle_links := QUEUE_REMOVE p (handle_links l)\<rparr>
        in if close_cb (handles l p) \<noteq> NULL then call (close_cb (handles l p)) p (l, snd s) else Some (l, snd s))"

partial_function (option) close_each :: "'u caller \<Rightarrow> ptr \<Rightarrow> uv_loop_t \<times> 'u \<Rightarrow> (uv_loop_t \<times> 'u) option" where
  [code]: "close_each call p s =
     (if p = NULL then Some s
      else let q = next_closing (handles (fst s) p)
           in Option.bind (uv__finish_close call p s) (close_each call q))"

definition uv__run_closing_handles :: "'u caller \<Rightarrow> uv_loop_t \<times> 'u \<Rightarrow> (uv_loop_t \<times> 'u) option" where
  "uv__run_closing_handles call s =
     (let p = closing_handles (fst s) in close_each call p ((fst s)\<lparr>closing_handles := NULL\<rparr>, snd s))"

section \<open>A round of watchers\<close>

lemma run_watchers_loop:
  assumes "qrep hq ds (watcher_links l)" and "qrep sq rs (watcher_links l)" and "set (hq # ds) \<inter> set (sq # rs) = {}"
    and "watcher_handles l t = hq" and quiet: "\<And>c p l u. call c p (l, u) = Some (l, f c p u)"
  shows "\<exists>Q. run_watchers t sq call (l, u) = Some (l\<lparr>watcher_links := Q\<rparr>, fold (\<lambda>p. f (cb (handles l p)) p) rs u)
    \<and> qrep hq (ds @ rs) Q \<and> (\<forall>x. x \<notin> set (hq # ds) \<union> set (sq # rs) \<longrightarrow> Q x = watcher_links l x)"
  using assms(1-4)
proof (induction rs arbitrary: ds l u)
  case Nil
  then have "run_watchers t sq call (l, u) = Some (l, u)"
    using run_watchers.simps [of t sq call "(l, u)"] EMPTY_rep [OF Nil(2)] by (simp add: Let_def)
  then show ?case using Nil by (intro exI [of _ "watcher_links l"]) simp
next
  case (Cons r rs)
  let ?Q1 = "QUEUE_REMOVE r (watcher_links l)" let ?Q2 = "QUEUE_INSERT_TAIL hq r ?Q1"
  let ?l = "l\<lparr>watcher_links := ?Q2\<rparr>"
  have 1: "qrep sq rs ?Q1" using REMOVE_rep [of sq "[]" r rs] Cons.prems(2) by simp
  have fr1: "?Q1 x = watcher_links l x" if "x \<notin> set (sq # r # rs)" for x
    using REMOVE_frame [of sq "[]" r rs] Cons.prems(2) that by simp
  have 2: "qrep hq ds ?Q1" using Cons.prems(3) by (intro queue_frame [OF Cons.prems(1)] fr1) auto
  have 3: "qrep hq (ds @ [r]) ?Q2" using Cons.prems(3) by (intro INSERT_TAIL_rep [OF 2]) auto
  have fr2: "?Q2 x = ?Q1 x" if "x \<notin> set (r # hq # ds)" for x using INSERT_TAIL_frame [OF 2 that] .
  have "distinct (sq # r # rs)" using Cons.prems(2) by (simp add: qrep_def)
  then have 4: "qrep sq rs ?Q2" using Cons.prems(3) by (intro queue_frame [OF 1] fr2) auto
  have e: "run_watchers t sq call (l, u) = run_watchers t sq call (?l, f (cb (handles l r)) r u)"
    using run_watchers.simps [of t sq call "(l, u)"] EMPTY_rep [OF Cons.prems(2)] HEAD_rep [OF Cons.prems(2)] Cons.prems(4)
    by (simp add: Let_def quiet)
  from Cons.IH [of "ds @ [r]" ?l "f (cb (handles l r)) r u"] 3 4 Cons.prems \<open>distinct (sq # r # rs)\<close> obtain Q where
    "run_watchers t sq call (?l, f (cb (handles l r)) r u) = Some (?l\<lparr>watcher_links := Q\<rparr>, fold (\<lambda>p. f (cb (handles ?l p)) p) rs (f (cb (handles l r)) r u))"
    "qrep hq ((ds @ [r]) @ rs) Q" "\<forall>x. x \<notin> set (hq # ds @ [r]) \<union> set (sq # rs) \<longrightarrow> Q x = watcher_links ?l x" by auto
  then show ?case using e fr1 fr2 by (intro exI [of _ Q]) auto
qed

lemma run_watchers_spec:
  assumes "qrep (watcher_handles l t) ws (watcher_links l)" and "sq \<notin> set (watcher_handles l t # ws)"
    and quiet: "\<And>c p l u. call c p (l, u) = Some (l, f c p u)"
  shows "\<exists>Q. uv__run_watchers t sq call (l, u) = Some (l\<lparr>watcher_links := Q\<rparr>, fold (\<lambda>p. f (cb (handles l p)) p) ws u)
    \<and> qrep (watcher_handles l t) ws Q \<and> (\<forall>x. x \<notin> set (sq # watcher_handles l t # ws) \<longrightarrow> Q x = watcher_links l x)"
proof -
  let ?Q = "QUEUE_MOVE (watcher_handles l t) sq (watcher_links l)"
  have d: "distinct (watcher_handles l t # ws)" using assms(1) by (simp add: qrep_def)
  from run_watchers_loop [of "watcher_handles l t" "[]" "l\<lparr>watcher_links := ?Q\<rparr>" sq ws t call f u] MOVE_rep [OF assms(1,2)] assms(2) d quiet
  obtain Q where "run_watchers t sq call (l\<lparr>watcher_links := ?Q\<rparr>, u) = Some (l\<lparr>watcher_links := Q\<rparr>, fold (\<lambda>p. f (cb (handles l p)) p) ws u)"
    "qrep (watcher_handles l t) ws Q" "\<forall>x. x \<notin> {watcher_handles l t} \<union> set (sq # ws) \<longrightarrow> Q x = ?Q x" by auto
  then show ?thesis using MOVE_frame [OF assms(1)] by (intro exI [of _ Q]) (auto simp: uv__run_watchers_def Let_def)
qed

end
