(* ===== verification/UVReach.thy ===== *)
theory UVReach
  imports UVWatcher
begin

unbundle bit_operations_syntax

text \<open>
  The states of an event loop that a client can reach through the timer, watcher and handle
  operations, and what holds in all of them.
  \<^item> \<open>wf_with\<close>: the heap is the ordered tree of the active timers, the queue of each watcher type holds
    its active watchers, the handle queue holds every handle, the closing list every handle whose
    closing is pending, and \<^verbatim>\<open>active_handles\<close> counts the active referenced handles.
  \<^item> \<open>reachable\<close>, \<open>reachable_wf\<close>: every state reached by the operations is well formed.
  \<^item> \<open>run_closing_spec\<close>: the closing list is worked off, and the handles on it leave the handle queue.
\<close>

section \<open>A new loop\<close>

text \<open>
  The assignments of \<^verbatim>\<open>uv_loop_init\<close> before the platform's part; the queues' heads are fields of
  the loop and keep their addresses.  The rest of the function is left out: it sets up the platform and creates two internal
  handles, the signal watcher \<^verbatim>\<open>child_watcher\<close> and the thread pool's \<^verbatim>\<open>wq_async\<close>, of types that are not modelled,
  which it puts on the handle queue and unreferences.
\<close>

definition uv_loop_init :: "u64 \<Rightarrow> uv_loop_t \<Rightarrow> uv_loop_t" where
  "uv_loop_init hrtime l =
     (let l = l\<lparr>time := 0, timer_counter := 0, active_handles := 0, active_reqs := 0, stop_flag := 0, closing_handles := NULL\<rparr>;
          l = l\<lparr>timer_heap := heap_init (timer_heap l)\<rparr>;
          l = l\<lparr>watcher_links := QUEUE_INIT (watcher_handles l UV_IDLE) (watcher_links l)\<rparr>;
          l = l\<lparr>watcher_links := QUEUE_INIT (watcher_handles l UV_CHECK) (watcher_links l)\<rparr>;
          l = l\<lparr>watcher_links := QUEUE_INIT (watcher_handles l UV_PREPARE) (watcher_links l)\<rparr>;
          l = l\<lparr>handle_links := QUEUE_INIT (handle_queue l) (handle_links l)\<rparr>;
          l = l\<lparr>active_handles := 0\<rparr>;
          l = l\<lparr>active_reqs := 0\<rparr>;
          l = l\<lparr>watcher_links := QUEUE_INIT (pending_queue l) (watcher_links l)\<rparr>;
          l = l\<lparr>closing_handles := NULL\<rparr>;
          l = uv__update_time hrtime l;
          l = l\<lparr>timer_counter := 0\<rparr>
      in l\<lparr>stop_flag := 0\<rparr>)"

section \<open>Well-formed loops\<close>

definition watching :: "uv_loop_t \<Rightarrow> uv_handle_type \<Rightarrow> ptr set" where
  "watching l t = {p. is_active l p \<and> htype (handles l p) = t}"

fun closing_chain :: "(ptr \<Rightarrow> uv_handle_t) \<Rightarrow> ptr \<Rightarrow> ptr list \<Rightarrow> bool" where
  "closing_chain H p [] \<longleftrightarrow> p = NULL"
| "closing_chain H p (c # cs) \<longleftrightarrow> p = c \<and> c \<noteq> NULL \<and> closing_chain H (next_closing (H c)) cs"

definition heads_ok :: "uv_loop_t \<Rightarrow> ptr set \<Rightarrow> bool" where
  "heads_ok l A \<longleftrightarrow> (\<forall>s t. s \<noteq> t \<longrightarrow> s \<noteq> UV_TIMER \<longrightarrow> t \<noteq> UV_TIMER \<longrightarrow> watcher_handles l s \<noteq> watcher_handles l t)
     \<and> (\<forall>t. t \<noteq> UV_TIMER \<longrightarrow> watcher_handles l t \<notin> A)"

definition queues_ok :: "uv_loop_t \<Rightarrow> bool" where
  "queues_ok l \<longleftrightarrow> (\<forall>t. t \<noteq> UV_TIMER \<longrightarrow> (\<exists>ws. qrep (watcher_handles l t) ws (watcher_links l) \<and> set ws = watching l t))"

definition closing_ok :: "uv_loop_t \<Rightarrow> ptr list \<Rightarrow> bool" where
  "closing_ok l hs \<longleftrightarrow> (\<exists>cs. closing_chain (handles l) (closing_handles l) cs \<and> distinct cs \<and> set cs = {p \<in> set hs. bit (flags (handles l p)) 0})
     \<and> (\<forall>p \<in> set hs. \<not> bit (flags (handles l p)) 1)"

definition wf_with :: "ptr list \<Rightarrow> uv_loop_t \<Rightarrow> bool" where
  "wf_with hs l \<longleftrightarrow> loop_inv l \<and> queues_ok l \<and> heads_ok l (set hs) \<and> closing_ok l hs
     \<and> qrep (handle_queue l) hs (handle_links l) \<and> NULL \<notin> set hs \<and> (\<forall>p. is_active l p \<longrightarrow> p \<in> set hs)"

lemma chain_cong: "(\<And>x. x \<in> set cs \<Longrightarrow> next_closing (H' x) = next_closing (H x)) \<Longrightarrow> closing_chain H' p cs = closing_chain H p cs"
  by (induction cs arbitrary: p) auto

lemma closing_ok_cong:
  assumes "closing_ok l hs" and "closing_handles l' = closing_handles l"
    and "\<And>x. x \<in> set hs \<Longrightarrow> next_closing (handles l' x) = next_closing (handles l x)
      \<and> (bit (flags (handles l' x)) 0 \<longleftrightarrow> bit (flags (handles l x)) 0) \<and> (bit (flags (handles l' x)) 1 \<longleftrightarrow> bit (flags (handles l x)) 1)"
  shows "closing_ok l' hs"
proof -
  from assms(1) obtain cs where cs: "closing_chain (handles l) (closing_handles l) cs" "distinct cs" "set cs = {p \<in> set hs. bit (flags (handles l p)) 0}"
    by (auto simp: closing_ok_def)
  have "closing_chain (handles l') (closing_handles l') cs" using cs assms(2,3) by (subst chain_cong [of _ _ "handles l"]) auto
  moreover have "set cs = {p \<in> set hs. bit (flags (handles l' p)) 0}" using cs(3) assms(3) by auto
  ultimately show ?thesis using cs(2) assms(1,3) by (auto simp: closing_ok_def)
qed

definition static :: "uv_loop_t \<Rightarrow> uv_loop_t \<Rightarrow> bool" where
  "static l l' \<longleftrightarrow> watcher_handles l' = watcher_handles l \<and> handle_queue l' = handle_queue l
     \<and> handle_links l' = handle_links l \<and> closing_handles l' = closing_handles l"

lemma frame_static: "frame l l' \<Longrightarrow> static l l'"
  by (simp add: frame_def static_def)

lemma queues_ok_cong:
  assumes "queues_ok l" and "watcher_handles l' = watcher_handles l" and "watcher_links l' = watcher_links l"
    and "\<And>t. t \<noteq> UV_TIMER \<Longrightarrow> watching l' t = watching l t"
  shows "queues_ok l'"
  using assms by (simp add: queues_ok_def)

text \<open>An operation on one handle that leaves its type, its closing flags and the other queues alone.\<close>

definition touches :: "ptr \<Rightarrow> uv_loop_t \<Rightarrow> uv_loop_t \<Rightarrow> bool" where
  "touches p l l' \<longleftrightarrow> (\<forall>x. x \<noteq> p \<longrightarrow> handles l' x = handles l x) \<and> htype (handles l' p) = htype (handles l p)
     \<and> next_closing (handles l' p) = next_closing (handles l p)
     \<and> (bit (flags (handles l' p)) 0 \<longleftrightarrow> bit (flags (handles l p)) 0) \<and> (bit (flags (handles l' p)) 1 \<longleftrightarrow> bit (flags (handles l p)) 1)"

lemma touches_other: "touches p l l' \<Longrightarrow> x \<noteq> p \<Longrightarrow> handles l' x = handles l x"
  unfolding touches_def by blast

lemma touches_fields:
  assumes "touches p l l'"
  shows "htype (handles l' x) = htype (handles l x)" "next_closing (handles l' x) = next_closing (handles l x)"
    "bit (flags (handles l' x)) 0 \<longleftrightarrow> bit (flags (handles l x)) 0" "bit (flags (handles l' x)) 1 \<longleftrightarrow> bit (flags (handles l x)) 1"
  using assms touches_other [OF assms, of x] unfolding touches_def by (cases "x = p"; simp)+

lemma wf_touches:
  assumes "wf_with hs l" and "loop_inv l'" and "p \<in> set hs" and "static l l'" and t: "touches p l l'" and "queues_ok l'"
  shows "wf_with hs l'"
proof -
  have "is_active l' x \<Longrightarrow> x \<in> set hs" for x
    using touches_other [OF t, of x] assms(1,3) by (cases "x = p") (simp_all add: wf_with_def is_active_def)
  moreover have "closing_ok l' hs" 
    by (rule closing_ok_cong [of l]) (use assms(1,4) touches_fields [OF t] in \<open>simp_all add: wf_with_def static_def\<close>)
  ultimately show ?thesis using assms(1,2,4,6) by (simp add: wf_with_def heads_ok_def static_def)
qed

lemma watching_touches:
  assumes "touches p l l'" and "is_active l' p = is_active l p \<or> htype (handles l p) = UV_TIMER" and "t \<noteq> UV_TIMER"
  shows "watching l' t = watching l t"
proof -
  have "x \<in> watching l' t \<longleftrightarrow> x \<in> watching l t" for x
    using assms(2,3) touches_fields(1) [OF assms(1), of x] touches_other [OF assms(1), of x]
    by (cases "x = p") (auto simp: watching_def is_active_def)
  then show ?thesis by blast
qed

lemma wf_timer_op:
  assumes "wf_with hs l" and "loop_inv l'" and "p \<in> set hs" and "frame l l'" and "touches p l l'" and "htype (handles l p) = UV_TIMER"
  shows "wf_with hs l'"
proof (rule wf_touches [OF assms(1-3) frame_static [OF assms(4)] assms(5)])
  show "queues_ok l'" 
    by (rule queues_ok_cong [of l]) (use assms(1,4) watching_touches [OF assms(5)] assms(6) in \<open>auto simp: wf_with_def frame_def\<close>)
qed

section \<open>Timers\<close>

lemma wf_timer_stop:
  assumes "wf_with hs l" and "p \<in> set hs" and "htype (handles l p) = UV_TIMER" and "uv_timer_stop p l = Some (e, l')"
  shows "wf_with hs l'"
proof -
  have "loop_inv l" using assms(1) by (simp add: wf_with_def)
  from stop_ok [OF this assms(3)] assms(4) show ?thesis
    by (intro wf_timer_op [OF assms(1) _ assms(2) _ _ assms(3)]) (auto simp: touches_def)
qed

lemma wf_timer_start:
  assumes "wf_with hs l" and "p \<in> set hs" and "htype (handles l p) = UV_TIMER" and "uv_timer_start p c tmo r l = Some (e, l')"
    and room: "card (armed l - {p}) + 1 < 2 ^ 32"
  shows "wf_with hs l'"
proof (cases "is_closing l p \<or> c = NULL")
  case True
  then show ?thesis using start_refused [OF True, of tmo r] assms(1,4) by simp
next
  case False
  have "loop_inv l" "p \<noteq> NULL" using assms(1,2) unfolding wf_with_def by metis+
  from start_ok [OF this(1) assms(3) _ _ this(2) room, of c tmo r] False assms(4) show ?thesis
    by (intro wf_timer_op [OF assms(1) _ assms(2) _ _ assms(3)]) (auto simp: touches_def keyed_def)
qed

lemma wf_timer_again:
  assumes "wf_with hs l" and "p \<in> set hs" and t: "htype (handles l p) = UV_TIMER" and "uv_timer_again p l = Some (e, l')"
    and room: "card (armed l - {p}) + 1 < 2 ^ 32"
  shows "wf_with hs l'"
proof -
  have i: "loop_inv l" using assms(1) by (simp add: wf_with_def)
  from stop_ok [OF i t] obtain l1 where l1: "uv_timer_stop p l = Some (0, l1)"
    "handles l1 = (handles l)(p := (handles l p)\<lparr>flags := flags (handles l p) AND NOT UV_HANDLE_ACTIVE\<rparr>)" by blast
  have w1: "wf_with hs l1" by (rule wf_timer_stop [OF assms(1,2) t l1(1)])
  have t1: "htype (handles l1 p) = UV_TIMER" "armed l1 - {p} = armed l - {p}" using t by (auto simp: l1(2) armed_def is_active_def)
  show ?thesis
  proof (cases "cb (handles l p) = NULL \<or> trepeat (handles l p) = 0")
    case True
    then show ?thesis using assms(1,4) by (auto simp: uv_timer_again_def split: if_splits)
  next
    case False
    then obtain e' where "uv_timer_start p (cb (handles l1 p)) (trepeat (handles l1 p)) (trepeat (handles l1 p)) l1 = Some (e', l')"
      using assms(4) l1(1) by (auto simp: uv_timer_again_def split: Option.bind_splits)
    then show ?thesis using wf_timer_start [OF w1 assms(2) t1(1)] t1(2) room by simp
  qed
qed

lemma loop_inv_repeat: "loop_inv l \<Longrightarrow> loop_inv (uv_timer_set_repeat p r l)"
proof -
  let ?l = "uv_timer_set_repeat p r l"
  assume i: "loop_inv l"
  have h: "flags (handles ?l x) = flags (handles l x)" "htype (handles ?l x) = htype (handles l x)" "cb (handles ?l x) = cb (handles l x)"
    "timeout (handles ?l x) = timeout (handles l x)" "start_id (handles ?l x) = start_id (handles l x)" for x
    by (simp_all add: uv_timer_set_repeat_def)
  have "armed ?l = armed l" "live ?l = live l" by (simp_all add: armed_def live_def is_active_def is_ref_def h)
  moreover have "timer_inv ?l" 
    by (rule timer_inv_cong [of l]) (use i \<open>armed ?l = armed l\<close> in \<open>auto simp: loop_inv_def h uv_timer_set_repeat_def\<close>)
  moreover have "active_handles ?l = active_handles l" by (simp add: uv_timer_set_repeat_def)
  ultimately show ?thesis using i by (simp add: loop_inv_def active_count_def is_closing_def is_active_def h)
qed

lemma wf_set_repeat:
  assumes "wf_with hs l" and "p \<in> set hs" and "htype (handles l p) = UV_TIMER"
  shows "wf_with hs (uv_timer_set_repeat p r l)"
  using loop_inv_repeat [of l p r] assms(1)
  by (intro wf_timer_op [OF assms(1) _ assms(2) _ _ assms(3)]) (auto simp: wf_with_def frame_def touches_def uv_timer_set_repeat_def)

section \<open>Other handles\<close>

lemma loop_inv_touches:
  assumes i: "loop_inv l" and t: "touches p l l'" and "timer_heap l' = timer_heap l" and "active_count l'"
    and key: "p \<in> armed l \<or> p \<in> armed l' \<Longrightarrow> is_active l p \<and> is_active l' p \<and> cb (handles l' p) = cb (handles l p)
      \<and> timeout (handles l' p) = timeout (handles l p) \<and> start_id (handles l' p) = start_id (handles l p)"
    and "is_closing l p \<Longrightarrow> \<not> is_active l' p"
  shows "loop_inv l'"
proof -
  note o = touches_other [OF t] and f = touches_fields [OF t]
  have a: "x \<in> armed l' \<longleftrightarrow> x \<in> armed l" for x
    using key o [of x] f(1) [of x] by (cases "x = p") (auto simp: armed_def is_active_def)
  then have ar: "armed l' = armed l" by blast
  have k: "cb (handles l' x) = cb (handles l x) \<and> timeout (handles l' x) = timeout (handles l x) \<and> start_id (handles l' x) = start_id (handles l x)"
    if "x \<in> armed l" for x using that key o [of x] by (cases "x = p") auto
  have "timer_inv l'" by (rule timer_inv_cong [of l]) (use i assms(3) ar k in \<open>auto simp: loop_inv_def\<close>)
  moreover have "is_closing l' x \<Longrightarrow> \<not> is_active l' x" for x
    using i assms(6) o [of x] f(3,4) [of x] by (cases "x = p") (auto simp: loop_inv_def is_closing_def is_active_def)
  ultimately show ?thesis using i assms(4) ar k by (auto simp: loop_inv_def)
qed

lemma wf_ref:
  assumes "wf_with hs l" and "p \<in> set hs" and "l' = uv__handle_ref p l \<or> l' = uv__handle_unref p l"
  shows "wf_with hs l'"
proof -
  have i: "loop_inv l" using assms(1) by (simp add: wf_with_def)
  then have c: "active_count l" "is_closing l p \<Longrightarrow> \<not> is_active l p" by (simp_all add: loop_inv_def)
  have t: "touches p l l'" and s: "static l l'" and h: "timer_heap l' = timer_heap l" "watcher_links l' = watcher_links l"
    using assms(3) by (auto simp: touches_def static_def handle_ref_eq handle_unref_eq)
  have ac: "is_active l' p = is_active l p" "cb (handles l' p) = cb (handles l p)" "timeout (handles l' p) = timeout (handles l p)" "start_id (handles l' p) = start_id (handles l p)"
    using assms(3) by (auto simp: is_active_def handle_ref_eq handle_unref_eq)
  have "active_count l'" using assms(3) handle_ref_count [OF c] handle_unref_count [OF c] by auto
  then have "loop_inv l'" using ac c(2) touches_fields(1) [OF t, of p] by (intro loop_inv_touches [OF i t h(1)]) (auto simp: armed_def)
  moreover have "queues_ok l'"
    by (rule queues_ok_cong [of l]) (use assms(1) s h watching_touches [OF t] ac in \<open>auto simp: wf_with_def static_def\<close>)
  ultimately show ?thesis using wf_touches [OF assms(1) _ assms(2) s t] by simp
qed

text \<open>A change in the queue of one watcher type.\<close>

lemma queues_ok_step:
  assumes w: "wf_with hs l" and p: "p \<in> set hs" "htype (handles l p) = t" "t \<noteq> UV_TIMER" and tc: "touches p l l'"
    and wh: "watcher_handles l' = watcher_handles l" and q: "qrep (watcher_handles l t) ws (watcher_links l')" "set ws = watching l' t"
    and fr: "\<And>x. x \<notin> insert p (insert (watcher_handles l t) (watching l t)) \<Longrightarrow> watcher_links l' x = watcher_links l x"
  shows "queues_ok l'"
  unfolding queues_ok_def wh
proof (intro allI impI)
  fix u assume u: "u \<noteq> UV_TIMER"
  show "\<exists>ws. qrep (watcher_handles l u) ws (watcher_links l') \<and> set ws = watching l' u"
  proof (cases "u = t")
    case True
    with q show ?thesis by blast
  next
    case False
    from w u obtain vs where v: "qrep (watcher_handles l u) vs (watcher_links l)" "set vs = watching l u"
      by (auto simp: wf_with_def queues_ok_def)
    have hd: "watcher_handles l u \<noteq> watcher_handles l t" "watcher_handles l u \<notin> set hs" "watcher_handles l t \<notin> set hs"
      using w u p(3) False by (auto simp: wf_with_def heads_ok_def)
    have sub: "watching l s \<subseteq> set hs" for s using w by (auto simp: wf_with_def watching_def)
    have "x \<notin> insert p (insert (watcher_handles l t) (watching l t))" if "x \<in> set (watcher_handles l u # vs)" for x
      using that v(2) hd sub [of u] sub [of t] p False by (auto simp: watching_def)
    then have "qrep (watcher_handles l u) vs (watcher_links l')" using fr by (intro queue_frame [OF v(1)]) auto
    moreover have "watching l' u = watching l u"
    proof -
      have "x \<in> watching l' u \<longleftrightarrow> x \<in> watching l u" for x
        using touches_fields(1) [OF tc, of x] touches_other [OF tc, of x] p False by (cases "x = p") (auto simp: watching_def is_active_def)
      then show ?thesis by blast
    qed
    ultimately show ?thesis using v(2) by blast
  qed
qed

lemma wf_watcher_start:
  assumes w: "wf_with hs l" and p: "p \<in> set hs" "htype (handles l p) \<noteq> UV_TIMER" "\<not> is_closing l p"
  shows "wf_with hs (snd (uv_watcher_start p c l))"
proof (cases "is_active l p \<or> c = NULL")
  case True
  then show ?thesis using w by (auto simp: uv_watcher_start_def flag_predicates)
next
  case False
  let ?t = "htype (handles l p)" let ?h = "watcher_handles l ?t"
  let ?m = "upd_handle p (\<lambda>h. h\<lparr>cb := c\<rparr>) (l\<lparr>watcher_links := QUEUE_INSERT_HEAD ?h p (watcher_links l)\<rparr>)"
  let ?l = "uv__handle_start p ?m"
  have e: "snd (uv_watcher_start p c l) = ?l" using False by (simp add: uv_watcher_start_def flag_predicates)
  have i: "loop_inv l" using w by (simp add: wf_with_def)
  have t: "touches p l ?l" and s: "static l ?l" by (auto simp: touches_def static_def handle_start_eq)
  have "live ?m = live l" by (auto simp: live_iff split: if_splits)
  then have "active_count ?m" using i by (simp add: loop_inv_def active_count_def)
  then have "active_count ?l" by (rule handle_start_count)
  then have "loop_inv ?l" using p touches_fields(1) [OF t, of p]
    by (intro loop_inv_touches [OF i t]) (auto simp: handle_start_eq armed_def)
  moreover have "queues_ok ?l"
  proof -
    from w p(2) obtain ws where ws: "qrep ?h ws (watcher_links l)" "set ws = watching l ?t" by (auto simp: wf_with_def queues_ok_def)
    have np: "p \<notin> set (?h # ws)" using ws(2) False w p by (auto simp: watching_def wf_with_def heads_ok_def)
    have l: "watcher_links ?l = QUEUE_INSERT_HEAD ?h p (watcher_links l)" "watcher_handles ?l = watcher_handles l" by (simp_all add: handle_start_eq)
    have "x \<in> watching ?l ?t \<longleftrightarrow> x = p \<or> x \<in> watching l ?t" for x
      using touches_fields(1) [OF t, of x] touches_other [OF t, of x] by (cases "x = p") (auto simp: watching_def is_active_def handle_start_eq)
    then have "set (p # ws) = watching ?l ?t" using ws(2) by auto
    then show ?thesis using INSERT_HEAD_rep [OF ws(1) np] INSERT_HEAD_frame [OF ws(1)] ws(2)
      by (intro queues_ok_step [OF w p(1) refl p(2) t l(2), of "p # ws"]) (auto simp: l(1))
  qed
  ultimately show ?thesis using wf_touches [OF w _ p(1) s t] e by simp
qed

lemma wf_watcher_stop:
  assumes w: "wf_with hs l" and p: "p \<in> set hs" "htype (handles l p) \<noteq> UV_TIMER"
  shows "wf_with hs (snd (uv_watcher_stop p l))"
proof (cases "is_active l p")
  case False
  then show ?thesis using w by (auto simp: uv_watcher_stop_def flag_predicates)
next
  case True
  let ?t = "htype (handles l p)" let ?h = "watcher_handles l ?t"
  let ?m = "l\<lparr>watcher_links := QUEUE_REMOVE p (watcher_links l)\<rparr>"
  let ?l = "uv__handle_stop p ?m"
  have e: "snd (uv_watcher_stop p l) = ?l" using True by (simp add: uv_watcher_stop_def flag_predicates)
  have i: "loop_inv l" using w by (simp add: wf_with_def)
  have t: "touches p l ?l" and s: "static l ?l" by (auto simp: touches_def static_def handle_stop_eq)
  have "live ?m = live l" by (auto simp: live_iff)
  then have "active_count ?m" using i by (simp add: loop_inv_def active_count_def)
  then have "active_count ?l" by (rule handle_stop_count)
  then have "loop_inv ?l" using p touches_fields(1) [OF t, of p]
    by (intro loop_inv_touches [OF i t]) (auto simp: handle_stop_eq armed_def is_active_def)
  moreover have "queues_ok ?l"
  proof -
    from w p(2) obtain ws where ws: "qrep ?h ws (watcher_links l)" "set ws = watching l ?t" by (auto simp: wf_with_def queues_ok_def)
    have "p \<in> set ws" using ws(2) True by (simp add: watching_def)
    then obtain us vs where uv: "ws = us @ p # vs" by (meson split_list)
    have l: "watcher_links ?l = QUEUE_REMOVE p (watcher_links l)" "watcher_handles ?l = watcher_handles l" by (simp_all add: handle_stop_eq)
    have "x \<in> watching ?l ?t \<longleftrightarrow> x \<noteq> p \<and> x \<in> watching l ?t" for x
      using touches_fields(1) [OF t, of x] touches_other [OF t, of x] by (cases "x = p") (auto simp: watching_def is_active_def handle_stop_eq)
    moreover have "distinct ws" using ws(1) by (simp add: qrep_def)
    ultimately have "set (us @ vs) = watching ?l ?t" using ws(2) by (auto simp: uv)
    then show ?thesis using REMOVE_rep [of ?h us p vs] REMOVE_frame [of ?h us p vs] ws
      by (intro queues_ok_step [OF w p(1) refl p(2) t l(2), of "us @ vs"]) (auto simp: l(1) uv)
  qed
  ultimately show ?thesis using wf_touches [OF w _ p(1) s t] e by simp
qed

section \<open>New handles\<close>

text \<open>A change of one handle that is inactive before and after.\<close>

lemma loop_inv_inactive:
  assumes i: "loop_inv l" and na: "\<not> is_active l p" "\<not> is_active l' p" and h: "\<And>x. x \<noteq> p \<Longrightarrow> handles l' x = handles l x"
    and f: "timer_heap l' = timer_heap l" "active_handles l' = active_handles l"
  shows "loop_inv l'" and "watching l' t = watching l t" and "is_active l' x \<longleftrightarrow> is_active l x"
proof -
  show ac: "is_active l' x \<longleftrightarrow> is_active l x" for x using na h [of x] by (cases "x = p") (auto simp: is_active_def)
  have act: "is_active l' x \<and> htype (handles l' x) = t \<longleftrightarrow> is_active l x \<and> htype (handles l x) = t" for x t
    using ac [of x] na h [of x] by (cases "x = p") auto
  then have sets: "armed l' = armed l" "watching l' t = watching l t" for t by (simp_all add: armed_def watching_def)
  then show "watching l' t = watching l t" by simp
  have "x \<in> live l' \<longleftrightarrow> x \<in> live l" for x using na h [of x] ac [of x] by (cases "x = p") (auto simp: live_def is_ref_def)
  then have "live l' = live l" by blast
  moreover have same: "handles l' x = handles l x" if "is_active l x" for x using h [of x] na that by (cases "x = p") auto
  moreover have "timer_inv l'" by (rule timer_inv_cong [of l]) (use i f sets same in \<open>auto simp: loop_inv_def armed_def\<close>)
  moreover have "is_closing l' x \<Longrightarrow> \<not> is_active l' x" for x
    using i same [of x] ac [of x] by (auto simp: loop_inv_def is_closing_def)
  ultimately show "loop_inv l'" using i f sets same by (auto simp: loop_inv_def active_count_def armed_def)
qed

lemma wf_handle_init:
  assumes w: "wf_with hs l" and p: "p \<noteq> NULL" "p \<notin> set (handle_queue l # hs)" "\<forall>t. t \<noteq> UV_TIMER \<longrightarrow> watcher_handles l t \<noteq> p"
    and h: "\<And>x. x \<noteq> p \<Longrightarrow> handles l' x = handles l x" "flags (handles l' p) = UV_HANDLE_REF"
    and f: "timer_heap l' = timer_heap l" "active_handles l' = active_handles l" "watcher_handles l' = watcher_handles l"
      "watcher_links l' = watcher_links l" "closing_handles l' = closing_handles l" "handle_queue l' = handle_queue l"
      "handle_links l' = QUEUE_INSERT_TAIL (handle_queue l) p (handle_links l)"
  shows "wf_with (hs @ [p]) l'"
proof -
  have i: "loop_inv l" and na: "\<not> is_active l p" using w p(2) by (auto simp: wf_with_def)
  have na': "\<not> is_active l' p" by (simp add: is_active_def h(2))
  have inv: "loop_inv l'" and ac: "\<And>x. is_active l' x \<longleftrightarrow> is_active l x" and sets: "\<And>t. watching l' t = watching l t"
    using loop_inv_inactive [OF i na na' h(1) f(1,2)] by blast+
  have "handles l' x = handles l x" if "x \<in> set hs" for x using h(1) [of x] p(2) that by (cases "x = p") auto
  then have cl: "closing_ok l' hs"
    by - (rule closing_ok_cong [of l], use w f in \<open>simp_all add: wf_with_def\<close>)
  then have "closing_ok l' (hs @ [p])"
  proof -
    have "{x \<in> set (hs @ [p]). bit (flags (handles l' x)) 0} = {x \<in> set hs. bit (flags (handles l' x)) 0}" by (auto simp: h(2))
    then show ?thesis using cl h(2) by (auto simp: closing_ok_def)
  qed
  moreover have "qrep (handle_queue l') (hs @ [p]) (handle_links l')" using INSERT_TAIL_rep [OF _ p(2)] w f by (simp add: wf_with_def)
  ultimately show ?thesis using w inv f sets p ac by (auto simp: wf_with_def heads_ok_def queues_ok_def)
qed

lemma wf_timer_init:
  assumes "wf_with hs l" and "p \<noteq> NULL" "p \<notin> set (handle_queue l # hs)" "\<forall>t. t \<noteq> UV_TIMER \<longrightarrow> watcher_handles l t \<noteq> p"
  shows "wf_with (hs @ [p]) (snd (uv_timer_init p l))"
  by (rule wf_handle_init [OF assms]) (simp_all add: uv_timer_init_def uv__handle_init_def Let_def)

lemma wf_watcher_init:
  assumes "wf_with hs l" and "p \<noteq> NULL" "p \<notin> set (handle_queue l # hs)" "\<forall>t. t \<noteq> UV_TIMER \<longrightarrow> watcher_handles l t \<noteq> p"
  shows "wf_with (hs @ [p]) (snd (uv_watcher_init t p l))"
  by (rule wf_handle_init [OF assms]) (simp_all add: uv_watcher_init_def uv__handle_init_def Let_def)

section \<open>Closing\<close>

text \<open>A handle that is marked as closing after it has been stopped.\<close>

definition marked :: "ptr \<Rightarrow> ptr \<Rightarrow> uv_loop_t \<Rightarrow> uv_loop_t" where
  "marked p ccb l = upd_handle p (\<lambda>h. h\<lparr>flags := flags h OR UV_HANDLE_CLOSING, close_cb := ccb\<rparr>) l"

lemma flag_commute: "(f OR UV_HANDLE_CLOSING) AND NOT UV_HANDLE_ACTIVE = (f AND NOT UV_HANDLE_ACTIVE) OR UV_HANDLE_CLOSING"
  by (rule bit_eqI) auto

lemma marked_sel [simp]:
  "is_active (marked p ccb l) = is_active l" "is_ref (marked p ccb l) = is_ref l" "timer_heap (marked p ccb l) = timer_heap l"
  "armed (marked p ccb l) = armed l" "watcher_links (marked p ccb l) = watcher_links l"
  "timer_less_than (handles (marked p ccb l)) = timer_less_than (handles l)"
  by (auto simp: marked_def is_active_def is_ref_def armed_def timer_less_than_def fun_eq_iff)

lemma handle_stop_marked: "uv__handle_stop p (marked p ccb l) = marked p ccb (uv__handle_stop p l)"
  by (intro uv_loop_t.equality)
    (auto simp: handle_stop_eq marked_def flag_commute is_active_def is_ref_def intro!: uv_handle_t.equality)

lemma timer_stop_marked:
  "uv_timer_stop p (marked p ccb l) = map_option (\<lambda>(e, l'). (e, marked p ccb l')) (uv_timer_stop p l)"
proof -
  have h: "(marked p ccb l)\<lparr>timer_heap := th\<rparr> = marked p ccb (l\<lparr>timer_heap := th\<rparr>)" for th by (simp add: marked_def upd_handle_def)
  show ?thesis unfolding uv_timer_stop_def flag_predicates marked_sel h handle_stop_marked
    by (cases "heap_remove (timer_heap l) p (timer_less_than (handles l))") auto
qed

lemma watcher_stop_marked: "uv_watcher_stop p (marked p ccb l) = map_prod id (marked p ccb) (uv_watcher_stop p l)"
proof -
  have h: "(marked p ccb l)\<lparr>watcher_links := Q\<rparr> = marked p ccb (l\<lparr>watcher_links := Q\<rparr>)" for Q by (simp add: marked_def upd_handle_def)
  show ?thesis unfolding uv_watcher_stop_def flag_predicates marked_sel h Let_def handle_stop_marked by simp
qed

text \<open>So closing a handle is stopping it, marking it and putting it on the list.\<close>

lemma uv_close_eq:
  assumes "\<not> is_closing l p"
  shows "uv_close p ccb l = Option.bind
    (if htype (handles l p) = UV_TIMER then map_option snd (uv_timer_stop p l) else Some (snd (uv_watcher_stop p l)))
    (\<lambda>l. uv__make_close_pending p (marked p ccb l))"
proof -
  have m: "upd_handle p (\<lambda>h. h\<lparr>close_cb := ccb\<rparr>) (upd_handle p (\<lambda>h. h\<lparr>flags := flags h OR UV_HANDLE_CLOSING\<rparr>) l) = marked p ccb l"
    by (simp add: marked_def upd_handle_def)
  have t: "htype (handles (marked p ccb l) p) = htype (handles l p)" by (simp add: marked_def)
  show ?thesis using assms unfolding uv_close_def flag_predicates Let_def m t uv__timer_close_def uv__watcher_close_def timer_stop_marked watcher_stop_marked
    by (cases "htype (handles l p)"; cases "uv_timer_stop p l") auto
qed

lemma wf_mark:
  assumes w: "wf_with hs l" and p: "p \<in> set hs" "\<not> is_active l p" "\<not> is_closing l p"
  shows "\<exists>l'. uv__make_close_pending p (marked p ccb l) = Some l' \<and> wf_with hs l'"
proof -
  let ?l = "(upd_handle p (\<lambda>h. h\<lparr>next_closing := closing_handles l\<rparr>) (marked p ccb l))\<lparr>closing_handles := p\<rparr>"
  have e: "uv__make_close_pending p (marked p ccb l) = Some ?l"
    using p(3) by (simp add: uv__make_close_pending_def flag_bits marked_def is_closing_def Let_def) (simp add: UV_HANDLE_CLOSING_def)
  have i: "loop_inv l" and pN: "p \<noteq> NULL" using w p(1) unfolding wf_with_def by metis+
  have o: "handles ?l x = handles l x" if "x \<noteq> p" for x using that by (simp add: marked_def)
  have na: "\<not> is_active ?l p" using p(2) by (simp add: is_active_def marked_def)
  note s = loop_inv_inactive [OF i p(2) na o]
  have inv: "loop_inv ?l" and wt: "\<And>t. watching ?l t = watching l t" using s by (simp_all add: marked_def)
  from w obtain cs where cs: "closing_chain (handles l) (closing_handles l) cs" "distinct cs" "set cs = {x \<in> set hs. bit (flags (handles l x)) 0}"
    and n1: "\<forall>x \<in> set hs. \<not> bit (flags (handles l x)) 1" by (auto simp: wf_with_def closing_ok_def)
  have pcs: "p \<notin> set cs" using cs(3) p(3) by (simp add: is_closing_def)
  then have "closing_chain (handles ?l) (closing_handles l) cs = closing_chain (handles l) (closing_handles l) cs" using o by (intro chain_cong) metis
  then have "closing_chain (handles ?l) (closing_handles ?l) (p # cs)" using cs(1) pN by (simp add: marked_def)
  moreover have "set (p # cs) = {x \<in> set hs. bit (flags (handles ?l x)) 0}" using cs(3) p(1) by (auto simp: marked_def)
  moreover have "\<forall>x \<in> set hs. \<not> bit (flags (handles ?l x)) 1" using n1 by (auto simp: marked_def)
  ultimately have "closing_ok ?l hs" using cs(2) pcs by (auto simp: closing_ok_def intro!: exI [of _ "p # cs"])
  moreover have "queues_ok ?l" by (rule queues_ok_cong [of l]) (use w wt in \<open>simp_all add: wf_with_def marked_def\<close>)
  moreover have "is_active ?l x \<Longrightarrow> x \<in> set hs" for x using w na o [of x] by (cases "x = p") (auto simp: wf_with_def is_active_def)
  ultimately have "wf_with hs ?l" using w inv by (simp add: wf_with_def heads_ok_def marked_def)
  with e show ?thesis by blast
qed

lemma wf_close:
  assumes w: "wf_with hs l" and p: "p \<in> set hs" "\<not> is_closing l p"
  shows "\<exists>l'. uv_close p ccb l = Some l' \<and> wf_with hs l'"
proof -
  have i: "loop_inv l" using w by (simp add: wf_with_def)
  obtain l1 where l1: "(if htype (handles l p) = UV_TIMER then map_option snd (uv_timer_stop p l) else Some (snd (uv_watcher_stop p l))) = Some l1"
    "wf_with hs l1" "\<not> is_active l1 p" "\<not> is_closing l1 p"
  proof (cases "htype (handles l p) = UV_TIMER")
    case True
    from stop_ok [OF i True] obtain l1 where s: "uv_timer_stop p l = Some (0, l1)"
      "handles l1 = (handles l)(p := (handles l p)\<lparr>flags := flags (handles l p) AND NOT UV_HANDLE_ACTIVE\<rparr>)" by blast
    show thesis using that [of l1] s True wf_timer_stop [OF w p(1) True s(1)] p(2) by (simp add: is_active_def is_closing_def)
  next
    case False
    have "\<not> is_active (snd (uv_watcher_stop p l)) p" "\<not> is_closing (snd (uv_watcher_stop p l)) p"
      using p(2) by (auto simp: uv_watcher_stop_def flag_predicates handle_stop_eq Let_def is_active_def is_closing_def)
    then show thesis using that False wf_watcher_stop [OF w p(1) False] by simp
  qed
  from wf_mark [OF l1(2) p(1) l1(3,4)] show ?thesis by (simp add: uv_close_eq [OF p(2)] l1(1))
qed

section \<open>Working off the closing list\<close>

definition closing_rest :: "ptr list \<Rightarrow> ptr \<Rightarrow> ptr list \<Rightarrow> uv_loop_t \<Rightarrow> bool" where
  "closing_rest hs p cs l \<longleftrightarrow> loop_inv l \<and> queues_ok l \<and> heads_ok l (set hs) \<and> closing_handles l = NULL
     \<and> closing_chain (handles l) p cs \<and> distinct cs \<and> set cs = {x \<in> set hs. bit (flags (handles l x)) 0}
     \<and> (\<forall>x \<in> set hs. \<not> bit (flags (handles l x)) 1)
     \<and> qrep (handle_queue l) hs (handle_links l) \<and> NULL \<notin> set hs \<and> (\<forall>x. is_active l x \<longrightarrow> x \<in> set hs)"

lemma closing_rest_end: "closing_rest hs p [] l \<Longrightarrow> wf_with hs l"
  by (auto simp: closing_rest_def wf_with_def closing_ok_def intro!: exI [of _ "[]"])

definition finished :: "ptr \<Rightarrow> uv_loop_t \<Rightarrow> uv_loop_t" where
  "finished p l = l\<lparr>handles := (handles l)(p := (handles l p)\<lparr>flags := (flags (handles l p) OR UV_HANDLE_CLOSED) AND NOT UV_HANDLE_REF\<rparr>),
     handle_links := QUEUE_REMOVE p (handle_links l)\<rparr>"

lemma finish_close_eq:
  assumes "bit (flags (handles l p)) 0" "\<not> bit (flags (handles l p)) 1" and quiet: "\<And>c p l u. call c p (l, u) = Some (l, f c p u)"
  shows "uv__finish_close call p (l, u) = Some (finished p l, if close_cb (handles l p) \<noteq> NULL then f (close_cb (handles l p)) p u else u)"
proof -
  let ?l = "upd_handle p (\<lambda>h. h\<lparr>flags := flags h OR UV_HANDLE_CLOSED\<rparr>) l"
  have e: "(uv__handle_unref p ?l)\<lparr>handle_links := QUEUE_REMOVE p (handle_links (uv__handle_unref p ?l))\<rparr> = finished p l"
    using assms(1) by (simp add: handle_unref_eq finished_def upd_handle_def)
  have "close_cb (handles (finished p l) p) = close_cb (handles l p)" by (simp add: finished_def)
  then show ?thesis using assms(1,2) unfolding uv__finish_close_def Let_def fst_conv snd_conv e by (simp add: flag_bits quiet)
qed

lemma closing_step:
  assumes r: "closing_rest hs c (c # cs) l"
  shows "closing_rest (remove1 c hs) (next_closing (handles l c)) cs (finished c l)"
proof -
  have d: "c \<in> set hs" "bit (flags (handles l c)) 0" "\<not> bit (flags (handles l c)) 1" "distinct hs" and i: "loop_inv l"
    using r by (auto simp: closing_rest_def qrep_def)
  obtain xs ys where xy: "hs = xs @ c # ys" using d(1) by (meson split_list)
  then have rm: "remove1 c hs = xs @ ys" using d(4) by (simp add: remove1_append)
  have o: "handles (finished c l) x = handles l x" if "x \<noteq> c" for x using that by (simp add: finished_def)
  have na: "\<not> is_active l c" using i d by (auto simp: loop_inv_def is_closing_def)
  then have na': "\<not> is_active (finished c l) c" by (simp add: is_active_def finished_def)
  have fl: "bit (flags (handles (finished c l) x)) 0 \<longleftrightarrow> bit (flags (handles l x)) 0" for x by (simp add: finished_def)
  note s = loop_inv_inactive [OF i na na' o]
  have inv: "loop_inv (finished c l)" and wt: "\<And>t. watching (finished c l) t = watching l t" using s by (simp_all add: finished_def)
  have cc: "c \<notin> set cs" using r by (simp add: closing_rest_def)
  have "closing_chain (handles l) (next_closing (handles l c)) cs" using r by (simp add: closing_rest_def)
  moreover have "closing_chain (handles (finished c l)) q cs = closing_chain (handles l) q cs" for q using cc o by (intro chain_cong) metis
  moreover have "queues_ok (finished c l)" by (rule queues_ok_cong [of l]) (use r wt in \<open>simp_all add: closing_rest_def finished_def\<close>)
  moreover have "qrep (handle_queue l) (xs @ ys) (QUEUE_REMOVE c (handle_links l))" using r by (intro REMOVE_rep) (simp add: closing_rest_def xy)
  moreover have "set cs = {x \<in> set (xs @ ys). bit (flags (handles (finished c l) x)) 0}"
    using r d(4) unfolding closing_rest_def fl by (auto simp: xy)
  moreover have "is_active (finished c l) x \<Longrightarrow> x \<in> set (xs @ ys)" for x
    using r na' o [of x] by (cases "x = c") (auto simp: closing_rest_def is_active_def xy)
  moreover have "\<forall>x \<in> set (xs @ ys). \<not> bit (flags (handles (finished c l) x)) 1"
  proof
    fix x assume x: "x \<in> set (xs @ ys)"
    then have "x \<noteq> c" using d(4) by (auto simp: xy)
    then show "\<not> bit (flags (handles (finished c l) x)) 1" using r x o [of x] by (auto simp: closing_rest_def xy)
  qed
  moreover have "closing_handles (finished c l) = NULL" "watcher_handles (finished c l) = watcher_handles l"
    "handle_queue (finished c l) = handle_queue l" "handle_links (finished c l) = QUEUE_REMOVE c (handle_links l)"
    using r by (simp_all add: finished_def closing_rest_def)
  ultimately show ?thesis using r inv unfolding rm closing_rest_def heads_ok_def by (auto simp: xy)
qed

lemma close_each_spec:
  assumes "closing_rest hs p cs l" and quiet: "\<And>c p l u. call c p (l, u) = Some (l, f c p u)"
  shows "\<exists>l'. close_each call p (l, u) = Some (l', fold (\<lambda>c u. if close_cb (handles l c) \<noteq> NULL then f (close_cb (handles l c)) c u else u) cs u)
    \<and> wf_with (filter (\<lambda>x. x \<notin> set cs) hs) l' \<and> (\<forall>x. x \<notin> set cs \<longrightarrow> handles l' x = handles l x) \<and> (\<forall>x \<in> set cs. bit (flags (handles l' x)) 1)"
  using assms(1)
proof (induction cs arbitrary: hs p l u)
  case Nil
  then have "p = NULL" by (simp add: closing_rest_def)
  then show ?case using close_each.simps [of call NULL "(l, u)"] closing_rest_end [OF Nil] by auto
next
  case (Cons c cs)
  then have p: "p = c" "c \<noteq> NULL" "distinct hs" "bit (flags (handles l c)) 0" "\<not> bit (flags (handles l c)) 1" "c \<notin> set cs"
    by (auto simp: closing_rest_def qrep_def)
  let ?u = "if close_cb (handles l c) \<noteq> NULL then f (close_cb (handles l c)) c u else u"
  have e: "close_each call p (l, u) = close_each call (next_closing (handles l c)) (finished c l, ?u)"
    using close_each.simps [of call c "(l, u)"] p finish_close_eq [OF p(4,5) quiet, where u = u] by (simp add: Let_def)
  have o: "handles (finished c l) x = handles l x" if "x \<noteq> c" for x using that by (simp add: finished_def)
  let ?g = "\<lambda>l c u. if close_cb (handles l c) \<noteq> NULL then f (close_cb (handles l c)) c u else u"
  from Cons.IH [OF closing_step, where u = ?u] Cons.prems p(1) obtain l' where l':
    "close_each call (next_closing (handles l c)) (finished c l, ?u) = Some (l', fold (?g (finished c l)) cs ?u)"
    "wf_with (filter (\<lambda>x. x \<notin> set cs) (remove1 c hs)) l'" "\<forall>x. x \<notin> set cs \<longrightarrow> handles l' x = handles (finished c l) x"
    "\<forall>x \<in> set cs. bit (flags (handles l' x)) 1"
    by blast
  have "fold (?g (finished c l)) cs ?u = fold (?g l) cs ?u" using p(6) o by (intro fold_cong) (auto, metis+)
  then have "close_each call p (l, u) = Some (l', fold (?g l) (c # cs) u)" using e l'(1) by simp
  moreover have "filter (\<lambda>x. x \<notin> set cs) (remove1 c hs) = filter (\<lambda>x. x \<notin> set (c # cs)) hs"
    using p(3) by (simp add: distinct_remove1_removeAll removeAll_filter_not_eq) (rule filter_cong, auto)
  moreover have "handles l' x = handles l x" if "x \<notin> set (c # cs)" for x using that l'(3) o by auto
  moreover have "bit (flags (handles l' x)) 1" if "x \<in> set (c # cs)" for x
  proof (cases "x = c")
    case True
    then show ?thesis using l'(3) p(6) by (simp add: finished_def)
  next
    case False
    then show ?thesis using l'(4) that by simp
  qed
  ultimately show ?case using l'(2) by auto
qed

lemma run_closing_spec:
  assumes "wf_with hs l" and quiet: "\<And>c p l u. call c p (l, u) = Some (l, f c p u)"
  shows "\<exists>l' cs. uv__run_closing_handles call (l, u) =
      Some (l', fold (\<lambda>c u. if close_cb (handles l c) \<noteq> NULL then f (close_cb (handles l c)) c u else u) cs u)
    \<and> distinct cs \<and> set cs = {p \<in> set hs. is_closing l p} \<and> wf_with (filter (\<lambda>p. \<not> is_closing l p) hs) l'
    \<and> (\<forall>x. x \<notin> set cs \<longrightarrow> handles l' x = handles l x) \<and> (\<forall>x \<in> set cs. bit (flags (handles l' x)) 1)"
proof -
  let ?l = "l\<lparr>closing_handles := NULL\<rparr>"
  from assms(1) obtain cs where cs: "closing_chain (handles l) (closing_handles l) cs" "distinct cs" "set cs = {x \<in> set hs. bit (flags (handles l x)) 0}"
    and n: "\<forall>x \<in> set hs. \<not> bit (flags (handles l x)) 1" by (auto simp: wf_with_def closing_ok_def)
  have sets: "armed ?l = armed l" "live ?l = live l" "\<And>t. watching ?l t = watching l t" "is_active ?l = is_active l" "is_closing ?l = is_closing l"
    by (auto simp: armed_def live_def watching_def is_active_def is_ref_def is_closing_def fun_eq_iff)
  have "timer_inv ?l" by (rule timer_inv_cong [of l]) (use assms(1) sets in \<open>auto simp: wf_with_def loop_inv_def\<close>)
  then have "loop_inv ?l" using assms(1) sets by (simp add: wf_with_def loop_inv_def active_count_def)
  moreover have "queues_ok ?l" by (rule queues_ok_cong [of l]) (use assms(1) sets in \<open>simp_all add: wf_with_def\<close>)
  ultimately have "closing_rest hs (closing_handles l) cs ?l"
    using assms(1) cs n sets by (simp add: closing_rest_def wf_with_def heads_ok_def)
  moreover have hh: "handles ?l = handles l" by simp
  ultimately have r: "closing_rest hs (closing_handles l) cs ?l" by blast
  from close_each_spec [where call = call and f = f and u = u, OF r quiet, unfolded hh] obtain l' where l':
    "close_each call (closing_handles l) (?l, u) = Some (l', fold (\<lambda>c u. if close_cb (handles l c) \<noteq> NULL then f (close_cb (handles l c)) c u else u) cs u)"
    "wf_with (filter (\<lambda>x. x \<notin> set cs) hs) l'" "\<forall>x. x \<notin> set cs \<longrightarrow> handles l' x = handles l x" "\<forall>x \<in> set cs. bit (flags (handles l' x)) 1" by blast
  have "set cs = {p \<in> set hs. is_closing l p}" using cs(3) n by (auto simp: is_closing_def)
  moreover from this have "filter (\<lambda>x. x \<notin> set cs) hs = filter (\<lambda>p. \<not> is_closing l p) hs" by (intro filter_cong) auto
  ultimately show ?thesis using l' cs(2) by (auto simp: uv__run_closing_handles_def)
qed

section \<open>The loop itself\<close>

lemma wf_update_time: "wf_with hs l \<Longrightarrow> wf_with hs (uv__update_time t l)"
proof -
  let ?l = "uv__update_time t l"
  assume w: "wf_with hs l"
  have sets: "armed ?l = armed l" "live ?l = live l" "\<And>t. watching ?l t = watching l t" "is_active ?l = is_active l" "is_closing ?l = is_closing l"
    by (auto simp: armed_def live_def watching_def is_active_def is_ref_def is_closing_def fun_eq_iff uv__update_time_def)
  have "timer_inv ?l" by (rule timer_inv_cong [of l]) (use w sets in \<open>auto simp: wf_with_def loop_inv_def uv__update_time_def\<close>)
  then have "loop_inv ?l" using w sets by (simp add: wf_with_def loop_inv_def active_count_def uv__update_time_def)
  moreover have "queues_ok ?l" by (rule queues_ok_cong [of l]) (use w sets in \<open>simp_all add: wf_with_def uv__update_time_def\<close>)
  moreover have "closing_ok ?l hs" by (rule closing_ok_cong [of l]) (use w in \<open>simp_all add: wf_with_def uv__update_time_def\<close>)
  ultimately show ?thesis using w sets by (simp add: wf_with_def heads_ok_def uv__update_time_def)
qed

lemma INIT_other: "qrep h [] Q \<Longrightarrow> h \<noteq> q \<Longrightarrow> qrep h [] (QUEUE_INIT q Q)"
  by (erule queue_frame) (simp add: INIT_frame)

lemma wf_loop_init:
  assumes "\<And>p. flags (handles l p) = 0" and "heads_ok l {}" and "\<And>t. t \<noteq> UV_TIMER \<Longrightarrow> watcher_handles l t \<noteq> pending_queue l"
  shows "wf_with [] (uv_loop_init hrtime l)"
proof -
  let ?l = "uv_loop_init hrtime l"
  have f: "flags (handles ?l p) = 0" "handle_queue ?l = handle_queue l" "watcher_handles ?l = watcher_handles l" "closing_handles ?l = NULL"
    "hmin (timer_heap ?l) = NULL" "nelts (timer_heap ?l) = 0" "active_handles ?l = 0" "handle_links ?l = QUEUE_INIT (handle_queue l) (handle_links l)" for p
    using assms(1) by (simp_all add: uv_loop_init_def uv__update_time_def heap_init_def Let_def)
  have e: "armed ?l = {}" "live ?l = {}" "watching ?l t = {}" "\<not> is_active ?l p" for t p
    by (simp_all add: armed_def live_def watching_def is_active_def f)
  have "hrep [] (timer_heap ?l)" by (simp add: hrep_def tree_def at_def f)
  then have "timer_inv ?l" using e by (auto simp: timer_inv_def heap_ordered_def intro!: exI [of _ "[]"])
  then have inv: "loop_inv ?l" using e f by (simp add: loop_inv_def active_count_def)
  have d: "watcher_handles l UV_IDLE \<noteq> watcher_handles l UV_CHECK" "watcher_handles l UV_IDLE \<noteq> watcher_handles l UV_PREPARE" "watcher_handles l UV_CHECK \<noteq> watcher_handles l UV_PREPARE"
    using assms(2) by (simp_all add: heads_ok_def)
  have "watcher_links ?l = QUEUE_INIT (pending_queue l) (QUEUE_INIT (watcher_handles l UV_PREPARE)
      (QUEUE_INIT (watcher_handles l UV_CHECK) (QUEUE_INIT (watcher_handles l UV_IDLE) (watcher_links l))))"
    by (simp add: uv_loop_init_def uv__update_time_def Let_def)
  then have "qrep (watcher_handles l t) [] (watcher_links ?l)" if "t \<noteq> UV_TIMER" for t
    using d assms(3) [OF that] that by (cases t) (auto intro!: INIT_other INIT_rep)
  then have "queues_ok ?l" using f e by (auto simp: queues_ok_def)
  moreover have "closing_ok ?l []" using f by (auto simp: closing_ok_def intro!: exI [of _ "[]"])
  ultimately show ?thesis using inv f e assms(2) INIT_rep by (simp add: wf_with_def heads_ok_def)
qed

text \<open>The handles of a loop, in the order of its handle queue.\<close>

definition handle_list :: "uv_loop_t \<Rightarrow> ptr list" where
  "handle_list l = (case QUEUE_FOREACH (handle_links l) (handle_queue l) of None \<Rightarrow> [] | Some hs \<Rightarrow> hs)"

lemma handle_list_wf: "wf_with hs l \<Longrightarrow> handle_list l = hs"
  using foreach_rep [of "handle_queue l" hs "handle_links l"] by (simp add: wf_with_def handle_list_def)

definition fresh :: "uv_loop_t \<Rightarrow> ptr \<Rightarrow> bool" where
  "fresh l p \<longleftrightarrow> p \<noteq> NULL \<and> p \<notin> set (handle_queue l # handle_list l) \<and> (\<forall>t. t \<noteq> UV_TIMER \<longrightarrow> watcher_handles l t \<noteq> p)"

definition is_timer :: "uv_loop_t \<Rightarrow> ptr \<Rightarrow> bool" where
  "is_timer l p \<longleftrightarrow> p \<in> set (handle_list l) \<and> htype (handles l p) = UV_TIMER"

definition is_watcher :: "uv_loop_t \<Rightarrow> ptr \<Rightarrow> bool" where
  "is_watcher l p \<longleftrightarrow> p \<in> set (handle_list l) \<and> htype (handles l p) \<noteq> UV_TIMER"

definition room :: "uv_loop_t \<Rightarrow> ptr \<Rightarrow> bool" where
  "room l p \<longleftrightarrow> card (armed l - {p}) + 1 < 2 ^ 32"

text \<open>The operations of a client on its loop, within the contract of the library.\<close>

inductive reachable :: "uv_loop_t \<Rightarrow> bool" where
  loop_init: "(\<And>p. flags (handles l p) = 0) \<Longrightarrow> heads_ok l {} \<Longrightarrow> (\<And>t. t \<noteq> UV_TIMER \<Longrightarrow> watcher_handles l t \<noteq> pending_queue l) \<Longrightarrow>
    reachable (uv_loop_init hrtime l)"
| timer_init: "reachable l \<Longrightarrow> fresh l p \<Longrightarrow> reachable (snd (uv_timer_init p l))"
| timer_start: "reachable l \<Longrightarrow> is_timer l p \<Longrightarrow> room l p \<Longrightarrow> uv_timer_start p c tmo r l = Some (e, l') \<Longrightarrow> reachable l'"
| timer_stop: "reachable l \<Longrightarrow> is_timer l p \<Longrightarrow> uv_timer_stop p l = Some (e, l') \<Longrightarrow> reachable l'"
| timer_again: "reachable l \<Longrightarrow> is_timer l p \<Longrightarrow> room l p \<Longrightarrow> uv_timer_again p l = Some (e, l') \<Longrightarrow> reachable l'"
| timer_set_repeat: "reachable l \<Longrightarrow> is_timer l p \<Longrightarrow> reachable (uv_timer_set_repeat p r l)"
| watcher_init: "reachable l \<Longrightarrow> fresh l p \<Longrightarrow> reachable (snd (uv_watcher_init t p l))"
| watcher_start: "reachable l \<Longrightarrow> is_watcher l p \<Longrightarrow> \<not> is_closing l p \<Longrightarrow> reachable (snd (uv_watcher_start p c l))"
| watcher_stop: "reachable l \<Longrightarrow> is_watcher l p \<Longrightarrow> reachable (snd (uv_watcher_stop p l))"
| ref: "reachable l \<Longrightarrow> p \<in> set (handle_list l) \<Longrightarrow> reachable (uv_ref p l)"
| unref: "reachable l \<Longrightarrow> p \<in> set (handle_list l) \<Longrightarrow> reachable (uv_unref p l)"
| update_time: "reachable l \<Longrightarrow> reachable (uv__update_time hrtime l)"
| close: "reachable l \<Longrightarrow> p \<in> set (handle_list l) \<Longrightarrow> uv_close p ccb l = Some l' \<Longrightarrow> reachable l'"
| run_closing: "reachable l \<Longrightarrow> uv__run_closing_handles (\<lambda>c p (l, u). Some (l, u @ [p])) (l, []) = Some (l', us) \<Longrightarrow> reachable l'"

lemma reachable_wf: "reachable l \<Longrightarrow> wf_with (handle_list l) l"
proof (induction rule: reachable.induct)
  case (loop_init l hrtime)
  show ?case using wf_loop_init [OF loop_init, of hrtime] handle_list_wf by metis
next
  case (timer_init l p)
  then show ?case using wf_timer_init handle_list_wf unfolding fresh_def by metis
next
  case (timer_start l p c tmo r e l')
  then show ?case using wf_timer_start handle_list_wf unfolding is_timer_def room_def by metis
next
  case (timer_stop l p e l')
  then show ?case using wf_timer_stop handle_list_wf unfolding is_timer_def by metis
next
  case (timer_again l p e l')
  then show ?case using wf_timer_again handle_list_wf unfolding is_timer_def room_def by metis
next
  case (timer_set_repeat l p r)
  then show ?case using wf_set_repeat handle_list_wf unfolding is_timer_def by metis
next
  case (watcher_init l p t)
  then show ?case using wf_watcher_init handle_list_wf unfolding fresh_def by metis
next
  case (watcher_start l p c)
  then show ?case using wf_watcher_start handle_list_wf unfolding is_watcher_def by metis
next
  case (watcher_stop l p)
  then show ?case using wf_watcher_stop handle_list_wf unfolding is_watcher_def by metis
next
  case (ref l p)
  then show ?case using wf_ref handle_list_wf unfolding uv_ref_def by metis
next
  case (unref l p)
  then show ?case using wf_ref handle_list_wf unfolding uv_unref_def by metis
next
  case (update_time l hrtime)
  then show ?case using wf_update_time handle_list_wf by metis
next
  case (close l p ccb l')
  then have "\<not> is_closing l p" by (auto simp: uv_close_def flag_predicates)
  from wf_close [OF close.IH close.hyps(2) this, of ccb] close.hyps(3) show ?case using handle_list_wf by auto
next
  case (run_closing l l' us)
  from run_closing_spec [OF run_closing.IH, of "\<lambda>c p (l, u). Some (l, u @ [p])" "\<lambda>c p u. u @ [p]" "[]"] run_closing.hyps(2)
  show ?case using handle_list_wf by auto
qed

end
