(* ===== verification/UVInet.thy ===== *)
theory UVInet
  imports OID UVLoop
begin

unbundle bit_operations_syntax

text \<open>
  \<^verbatim>\<open>src/inet.c\<close> and \<^verbatim>\<open>src/strscpy.c\<close> of libuv: network addresses between bytes and text.  A C string
  argument is the list of its characters before the terminating NUL, and reading the NUL is the
  end of the list.  A destination is the list of its bytes; a result is the error code and the
  destination, or the error or the address.
  \<^item> \<open>pton4_iff\<close>: \<^verbatim>\<open>inet_pton4\<close> accepts exactly the dotted quads \<^verbatim>\<open>inet_ntop4\<close> prints.
  \<^item> \<open>strscpy_ok\<close>: \<^verbatim>\<open>uv__strscpy\<close> copies a string that fits.
\<close>

text \<open>The error codes, with the values of Darwin's \<^verbatim>\<open>errno.h\<close>.\<close>

definition UV_E2BIG :: int where "UV_E2BIG = - 7"
definition UV_ENOSPC :: int where "UV_ENOSPC = - 28"
definition UV_EAFNOSUPPORT :: int where "UV_EAFNOSUPPORT = - 47"

datatype address_family = AF_INET | AF_INET6 | AF_OTHER

section \<open>strscpy.c\<close>

text \<open>The loop, with the \<open>k\<close> rounds that are left; \<open>s\<close> is followed by its NUL.\<close>

primrec strscpy_loop :: "nat \<Rightarrow> bytes \<Rightarrow> bytes \<Rightarrow> nat \<Rightarrow> nat option \<times> bytes" where
  "strscpy_loop 0 d s i = (None, d)"
| "strscpy_loop (Suc k) d s i =
     (let c = (if i < length s then s ! i else 0);
          d = d[i := c]
      in if c = 0 then (Some i, d) else strscpy_loop k d s (i + 1))"

definition uv__strscpy :: "bytes \<Rightarrow> bytes \<Rightarrow> nat \<Rightarrow> int \<times> bytes" where
  "uv__strscpy d s n =
     (case strscpy_loop n d s 0 of
        (Some i, d) \<Rightarrow> (if i > 2 ^ 63 - 1 then UV_E2BIG else int i, d)
      | (None, d) \<Rightarrow> if n = 0 then (0, d) else (UV_E2BIG, d[n - 1 := 0]))"

section \<open>From bytes to text\<close>

definition UV__INET_ADDRSTRLEN :: nat where "UV__INET_ADDRSTRLEN = 16"
definition UV__INET6_ADDRSTRLEN :: nat where "UV__INET6_ADDRSTRLEN = 46"

text \<open>\<^verbatim>\<open>snprintf\<close> with \<^verbatim>\<open>%u.%u.%u.%u\<close>, and \<^verbatim>\<open>sprintf\<close> with \<^verbatim>\<open>%x\<close>.\<close>

definition quad_text :: "bytes \<Rightarrow> bytes" where
  "quad_text src = decimal (unat (src ! 0)) @ ch_dot # decimal (unat (src ! 1)) @ ch_dot #
     decimal (unat (src ! 2)) @ ch_dot # decimal (unat (src ! 3))"

definition hex_digit :: "nat \<Rightarrow> u8" where
  "hex_digit n = (if n < 10 then of_nat (0x30 + n) else of_nat (0x61 + n - 10))"

fun hex :: "nat \<Rightarrow> bytes" where
  "hex n = (if n < 16 then [hex_digit n] else hex (n div 16) @ [hex_digit (n mod 16)])"

declare hex.simps [simp del]

definition inet_ntop4 :: "bytes \<Rightarrow> bytes \<Rightarrow> nat \<Rightarrow> int \<times> bytes" where
  "inet_ntop4 src dst sz =
     (let l = length (quad_text src);
          tmp = take (UV__INET_ADDRSTRLEN - 1) (quad_text src)
      in if l \<le> 0 \<or> l \<ge> sz then (UV_ENOSPC, dst)
         else (0, snd (uv__strscpy dst tmp sz)))"

text \<open>The longest run of zero words.\<close>

record zero_run =
  run_base :: int
  run_len :: int

definition words_of :: "bytes \<Rightarrow> u32 list" where
  "words_of src = fold (\<lambda>i ws. ws[i div 2 := ws ! (i div 2) OR push_bit (8 * (1 - i mod 2)) (ucast (src ! i))]) [0..<16] (replicate 8 0)"

definition better_run :: "zero_run \<Rightarrow> zero_run \<Rightarrow> zero_run" where
  "better_run best cur = (if run_base best = - 1 \<or> run_len cur > run_len best then cur else best)"

fun run_loop :: "u32 list \<Rightarrow> int \<Rightarrow> zero_run \<Rightarrow> zero_run \<Rightarrow> zero_run \<times> zero_run" where
  "run_loop [] i best cur = (best, cur)"
| "run_loop (w # ws) i best cur =
     (if w = 0 then
        if run_base cur = - 1 then run_loop ws (i + 1) best (cur\<lparr>run_base := i, run_len := 1\<rparr>)
        else run_loop ws (i + 1) best (cur\<lparr>run_len := run_len cur + 1\<rparr>)
      else if run_base cur \<noteq> - 1 then run_loop ws (i + 1) (better_run best cur) (cur\<lparr>run_base := - 1\<rparr>)
      else run_loop ws (i + 1) best cur)"

definition best_run :: "u32 list \<Rightarrow> zero_run" where
  "best_run ws =
     (let (best, cur) = run_loop ws 0 \<lparr>run_base = - 1, run_len = 0\<rparr> \<lparr>run_base = - 1, run_len = 0\<rparr>;
          best = (if run_base cur \<noteq> - 1 then better_run best cur else best)
      in if run_base best \<noteq> - 1 \<and> run_len best < 2 then best\<lparr>run_base := - 1\<rparr> else best)"

definition ch_colon :: u8 where "ch_colon = 0x3a"

text \<open>The conditions of the two comments of the loop: inside the best run, and an encapsulated IPv4 address.\<close>

definition in_run :: "zero_run \<Rightarrow> nat \<Rightarrow> bool" where
  "in_run best i \<longleftrightarrow> run_base best \<noteq> - 1 \<and> int i \<ge> run_base best \<and> int i < run_base best + run_len best"

definition embedded :: "zero_run \<Rightarrow> u32 list \<Rightarrow> nat \<Rightarrow> bool" where
  "embedded best ws i \<longleftrightarrow> i = 6 \<and> run_base best = 0 \<and>
     (run_len best = 6 \<or> (run_len best = 7 \<and> ws ! 7 \<noteq> 1) \<or> (run_len best = 5 \<and> ws ! 5 = 0xffff))"

text \<open>The formatting loop; \<open>k\<close> words are left, and \<open>tp\<close> is the text so far.\<close>

primrec fmt_loop :: "nat \<Rightarrow> zero_run \<Rightarrow> bytes \<Rightarrow> u32 list \<Rightarrow> nat \<Rightarrow> bytes \<Rightarrow> int + bytes" where
  "fmt_loop 0 best src ws i tp = Inr tp"
| "fmt_loop (Suc k) best src ws i tp =
     (if in_run best i then
        fmt_loop k best src ws (i + 1) (if int i = run_base best then tp @ [ch_colon] else tp)
      else
        let tp = (if i \<noteq> 0 then tp @ [ch_colon] else tp) in
        if embedded best ws i then
          let room = UV__INET6_ADDRSTRLEN - length tp;
              (err, out) = inet_ntop4 (drop 12 src) (replicate room 0) room
          in if err \<noteq> 0 then Inl err else Inr (tp @ takeWhile (\<lambda>c. c \<noteq> 0) out)
        else fmt_loop k best src ws (i + 1) (tp @ hex (unat (ws ! i))))"

definition inet_ntop6 :: "bytes \<Rightarrow> bytes \<Rightarrow> nat \<Rightarrow> int \<times> bytes" where
  "inet_ntop6 src dst sz =
     (let ws = words_of src; best = best_run ws in
      case fmt_loop 8 best src ws 0 [] of
        Inl err \<Rightarrow> (err, dst)
      | Inr tp \<Rightarrow>
          (let tmp = (if run_base best \<noteq> - 1 \<and> run_base best + run_len best = 8 then tp @ [ch_colon] else tp);
               (r, dst) = uv__strscpy dst tmp sz
           in if r = UV_E2BIG then (UV_ENOSPC, dst) else (0, dst)))"

definition uv_inet_ntop :: "address_family \<Rightarrow> bytes \<Rightarrow> bytes \<Rightarrow> nat \<Rightarrow> int \<times> bytes" where
  "uv_inet_ntop af src dst sz =
     (case af of
        AF_INET \<Rightarrow> inet_ntop4 src dst sz
      | AF_INET6 \<Rightarrow> inet_ntop6 src dst sz
      | AF_OTHER \<Rightarrow> (UV_EAFNOSUPPORT, dst))"

section \<open>From text to bytes\<close>

text \<open>\<open>tmp\<close> is the array, \<open>tp\<close> the index \<^verbatim>\<open>tp\<close> points to.\<close>

fun pton4_loop :: "bytes \<Rightarrow> bytes \<Rightarrow> nat \<Rightarrow> bool \<Rightarrow> nat \<Rightarrow> int + bytes" where
  "pton4_loop [] tmp tp saw_digit octets = (if octets < 4 then Inl UV_EINVAL else Inr tmp)"
| "pton4_loop (ch # src) tmp tp saw_digit octets =
     (if 0x30 \<le> ch \<and> ch \<le> 0x39 then
        let nw = unat (tmp ! tp) * 10 + unat (ch - 0x30) in
        if saw_digit \<and> tmp ! tp = 0 then Inl UV_EINVAL
        else if nw > 255 then Inl UV_EINVAL
        else
          let tmp = tmp[tp := of_nat nw] in
          if \<not> saw_digit then
            if octets + 1 > 4 then Inl UV_EINVAL else pton4_loop src tmp tp True (octets + 1)
          else pton4_loop src tmp tp saw_digit octets
      else if ch = ch_dot \<and> saw_digit then
        if octets = 4 then Inl UV_EINVAL
        else pton4_loop src (tmp[tp + 1 := 0]) (tp + 1) False octets
      else Inl UV_EINVAL)"

text \<open>The array \<^verbatim>\<open>tmp\<close> is indeterminate but for its first byte; here it starts as zeros, and every
  byte of a result has been written.\<close>

definition inet_pton4 :: "bytes \<Rightarrow> int + bytes" where
  "inet_pton4 src = pton4_loop src (replicate 4 0) 0 False 0"

text \<open>\<^verbatim>\<open>strchr\<close> in the two digit strings.\<close>

definition hex_value :: "u8 \<Rightarrow> nat option" where
  "hex_value ch =
     (if 0x30 \<le> ch \<and> ch \<le> 0x39 then Some (unat (ch - 0x30))
      else if 0x61 \<le> ch \<and> ch \<le> 0x66 then Some (unat (ch - 0x61) + 10)
      else if 0x41 \<le> ch \<and> ch \<le> 0x46 then Some (unat (ch - 0x41) + 10)
      else None)"

record pton6_st =
  tmp6 :: bytes
  tp6 :: nat
  colonp :: "nat option"
  curtok :: bytes
  seen_xdigits :: nat
  val6 :: u32

definition push_word :: "pton6_st \<Rightarrow> pton6_st" where
  "push_word st = st\<lparr>tmp6 := (tmp6 st)[tp6 st := ucast (drop_bit 8 (val6 st)), tp6 st + 1 := ucast (val6 st)], tp6 := tp6 st + 2\<rparr>"

fun pton6_loop :: "bytes \<Rightarrow> pton6_st \<Rightarrow> int + pton6_st" where
  "pton6_loop [] st = Inr st"
| "pton6_loop (ch # src) st =
     (case hex_value ch of
        Some x \<Rightarrow>
          (let st = st\<lparr>val6 := push_bit 4 (val6 st) OR of_nat x, seen_xdigits := seen_xdigits st + 1\<rparr>
           in if seen_xdigits st > 4 then Inl UV_EINVAL else pton6_loop src st)
      | None \<Rightarrow>
          if ch = ch_colon then
            let st = st\<lparr>curtok := src\<rparr> in
            if seen_xdigits st = 0 then
              if colonp st \<noteq> None then Inl UV_EINVAL
              else pton6_loop src (st\<lparr>colonp := Some (tp6 st)\<rparr>)
            else if src = [] then Inl UV_EINVAL
            else if tp6 st + 2 > 16 then Inl UV_EINVAL
            else pton6_loop src ((push_word st)\<lparr>seen_xdigits := 0, val6 := 0\<rparr>)
          else if ch = ch_dot \<and> tp6 st + 4 \<le> 16 then
            case inet_pton4 (curtok st) of
              Inl err \<Rightarrow> Inl UV_EINVAL
            | Inr q \<Rightarrow> Inr (st\<lparr>tmp6 := take (tp6 st) (tmp6 st) @ q @ drop (tp6 st + 4) (tmp6 st), tp6 := tp6 st + 4, seen_xdigits := 0\<rparr>)
          else Inl UV_EINVAL)"

text \<open>The shift of the bytes after the double colon to the end.\<close>

primrec shift_loop :: "nat \<Rightarrow> nat \<Rightarrow> nat \<Rightarrow> nat \<Rightarrow> bytes \<Rightarrow> bytes" where
  "shift_loop 0 c n i tmp = tmp"
| "shift_loop (Suc k) c n i tmp =
     (let tmp = tmp[16 - i := tmp ! (c + (n - i))];
          tmp = tmp[c + (n - i) := 0]
      in shift_loop k c n (i + 1) tmp)"

text \<open>What follows the loop: the last word, the gap of the double colon and the length check.\<close>

definition pton6_finish :: "pton6_st \<Rightarrow> int + bytes" where
  "pton6_finish st =
     (if seen_xdigits st \<noteq> 0 \<and> tp6 st + 2 > 16 then Inl UV_EINVAL
      else
        let st = (if seen_xdigits st \<noteq> 0 then push_word st else st) in
        case colonp st of
          None \<Rightarrow> if tp6 st \<noteq> 16 then Inl UV_EINVAL else Inr (tmp6 st)
        | Some c \<Rightarrow>
            if tp6 st = 16 then Inl UV_EINVAL
            else Inr (shift_loop (tp6 st - c) c (tp6 st - c) 1 (tmp6 st)))"

definition inet_pton6 :: "bytes \<Rightarrow> int + bytes" where
  "inet_pton6 src =
     (let bad = src \<noteq> [] \<and> hd src = ch_colon \<and> (tl src = [] \<or> hd (tl src) \<noteq> ch_colon);
          src = (if src \<noteq> [] \<and> hd src = ch_colon then tl src else src)
      in if bad then Inl UV_EINVAL
         else
           case pton6_loop src \<lparr>tmp6 = replicate 16 0, tp6 = 0, colonp = None, curtok = src, seen_xdigits = 0, val6 = 0\<rparr> of
             Inl err \<Rightarrow> Inl err
           | Inr st \<Rightarrow> pton6_finish st)"

definition ch_percent :: u8 where "ch_percent = 0x25"

definition uv_inet_pton :: "address_family \<Rightarrow> bytes option \<Rightarrow> bool \<Rightarrow> int + bytes" where
  "uv_inet_pton af src dst =
     (case src of
        None \<Rightarrow> Inl UV_EINVAL
      | Some src \<Rightarrow>
          if \<not> dst then Inl UV_EINVAL
          else
            (case af of
              AF_INET \<Rightarrow> inet_pton4 src
            | AF_INET6 \<Rightarrow>
                (let len = length (takeWhile (\<lambda>c. c \<noteq> ch_percent) src) in
                 if len < length src then
                   if len > UV__INET6_ADDRSTRLEN - 1 then Inl UV_EINVAL else inet_pton6 (take len src)
                 else inet_pton6 src)
            | AF_OTHER \<Rightarrow> Inl UV_EAFNOSUPPORT))"

section \<open>Copying\<close>

lemma strscpy_loop_ok:
  assumes "0 \<notin> set s" and "i \<le> length s" and "length s < i + k" and "i + k \<le> length d"
  shows "strscpy_loop k d s i = (Some (length s), take i d @ drop i s @ 0 # drop (length s + 1) d)"
  using assms(2-)
proof (induction k arbitrary: d i)
  case (Suc k)
  show ?case
  proof (cases "i = length s")
    case True
    then show ?thesis using Suc.prems by (simp add: upd_conv_take_nth_drop)
  next
    case False
    then have i: "i < length s" using Suc.prems by simp
    then have "s ! i \<noteq> 0" using assms(1) by (metis nth_mem)
    then have "strscpy_loop (Suc k) d s i = strscpy_loop k (d[i := s ! i]) s (i + 1)" using i by simp
    also have "\<dots> = (Some (length s), take (i + 1) (d[i := s ! i]) @ drop (i + 1) s @ 0 # drop (length s + 1) (d[i := s ! i]))"
      using Suc.prems i by (intro Suc.IH) auto
    also have "take (i + 1) (d[i := s ! i]) = take i d @ [s ! i]" using Suc.prems by (simp add: take_Suc_conv_app_nth)
    also have "drop (length s + 1) (d[i := s ! i]) = drop (length s + 1) d" using i by simp
    finally show ?thesis using i by (simp add: Cons_nth_drop_Suc)
  qed
qed simp

lemma strscpy_ok:
  assumes "0 \<notin> set s" and "length s < n" and "n \<le> length d" and "length s < 2 ^ 63"
  shows "uv__strscpy d s n = (int (length s), s @ 0 # drop (length s + 1) d)"
  using strscpy_loop_ok [OF assms(1), of 0 n d] assms by (simp add: uv__strscpy_def)

section \<open>Dotted quads\<close>

lemma digit_chr: "x < 10 \<Longrightarrow> (0x30 :: u8) \<le> of_nat (0x30 + x) \<and> of_nat (0x30 + x) \<le> (0x39 :: u8) \<and> unat (of_nat (0x30 + x) - 0x30 :: u8) = x"
  using digit_char(1,3,4) [of x] by (simp add: not_less unat_of_nat del: of_nat_add)

lemma pton4_digit:
  assumes "x < 10" and "unat (tmp ! tp) * 10 + x < 256" and "saw \<Longrightarrow> tmp ! tp \<noteq> 0" and "\<not> saw \<Longrightarrow> octets < 4"
  shows "pton4_loop (of_nat (0x30 + x) # s) tmp tp saw octets =
    pton4_loop s (tmp[tp := of_nat (unat (tmp ! tp) * 10 + x)]) tp True (if saw then octets else octets + 1)"
proof -
  define c :: u8 where "c = of_nat (0x30 + x)"
  have "0x30 \<le> c" "c \<le> 0x39" "unat (c - 0x30) = x" using digit_chr [OF assms(1)] by (simp_all only: c_def)
  then show ?thesis using assms(2-) unfolding c_def [symmetric] by auto
qed

lemma pton4_decimal:
  assumes "n < 256" and "tp < length tmp" and "tmp ! tp = 0" and "octets < 4"
  shows "pton4_loop (decimal n @ rest) tmp tp False octets = pton4_loop rest (tmp[tp := of_nat n]) tp True (octets + 1)"
  using assms(1)
proof (induction n arbitrary: rest rule: decimal.induct)
  case (1 n)
  show ?case
  proof (cases "n < 10")
    case True
    then show ?thesis using pton4_digit [of n tmp tp False octets rest] assms by (subst decimal.simps) simp
  next
    case False
    let ?q = "n div 10" and ?t = "tmp[tp := of_nat (n div 10)]"
    have q: "unat (of_nat ?q :: u8) = ?q" using 1(2) by (simp add: unat_of_nat)
    have "pton4_loop (decimal n @ rest) tmp tp False octets = pton4_loop (decimal ?q @ of_nat (0x30 + n mod 10) # rest) tmp tp False octets"
      using False by (subst decimal.simps) simp
    also have "\<dots> = pton4_loop (of_nat (0x30 + n mod 10) # rest) ?t tp True (octets + 1)" using 1 False by simp
    also have "\<dots> = pton4_loop rest (?t[tp := of_nat (unat (?t ! tp) * 10 + n mod 10)]) tp True (octets + 1)"
      using pton4_digit [of "n mod 10" ?t tp True "octets + 1" rest] q 1(2) False assms(2) by (auto simp: word_unat_eq_iff)
    also have "unat (?t ! tp) * 10 + n mod 10 = n" using assms(2) q by simp
    finally show ?thesis by simp
  qed
qed

lemma quad_text4: "quad_text [a, b, c, d] = decimal (unat a) @ ch_dot # decimal (unat b) @ ch_dot # decimal (unat c) @ ch_dot # decimal (unat d)"
  by (simp add: quad_text_def numeral_2_eq_2 numeral_3_eq_3)

lemma pton4_dot: "octets \<noteq> 4 \<Longrightarrow> pton4_loop (ch_dot # s) tmp tp True octets = pton4_loop s (tmp[tp + 1 := 0]) (tp + 1) False octets"
  by (simp add: ch_dot_def)

lemma pton4_quad: "inet_pton4 (quad_text [a, b, c, d]) = Inr [a, b, c, d]"
proof -
  have r: "replicate 4 (0::u8) = [0, 0, 0, 0]" by (simp add: eval_nat_numeral)
  have d: "pton4_loop (decimal (unat x) @ s) tmp tp False octets = pton4_loop s (tmp[tp := x]) tp True (octets + 1)"
    if "tp < length tmp" "tmp ! tp = 0" "octets < 4" for x s tmp tp octets
    using pton4_decimal [of "unat x" tp tmp octets s] that by simp
  have e: "pton4_loop (decimal (unat x)) tmp tp False octets = pton4_loop [] (tmp[tp := x]) tp True (octets + 1)"
    if "tp < length tmp" "tmp ! tp = 0" "octets < 4" for x tmp tp octets using d [OF that, of x "[]"] by simp
  show ?thesis unfolding inet_pton4_def quad_text4 r
    by (simp add: d e pton4_dot numeral_2_eq_2 numeral_3_eq_3 del: pton4_loop.simps(2))
qed

text \<open>The text read so far.\<close>

definition read4 :: "bytes \<Rightarrow> nat \<Rightarrow> bool \<Rightarrow> bytes" where
  "read4 tmp tp saw = concat (map (\<lambda>j. decimal (unat (tmp ! j)) @ [ch_dot]) [0..<tp]) @ (if saw then decimal (unat (tmp ! tp)) else [])"

lemma read4_upd:
  assumes "tp < length tmp"
  shows "read4 (tmp[tp := v]) tp True = concat (map (\<lambda>j. decimal (unat (tmp ! j)) @ [ch_dot]) [0..<tp]) @ decimal (unat v)"
    and "read4 (tmp[tp + 1 := 0]) (tp + 1) False = read4 tmp tp True @ [ch_dot]"
proof -
  have m: "map (\<lambda>j. decimal (unat (tmp[k := v] ! j)) @ [ch_dot]) [0..<tp] = map (\<lambda>j. decimal (unat (tmp ! j)) @ [ch_dot]) [0..<tp]" if "tp \<le> k" for k v
    using that by (intro map_cong) auto
  show "read4 (tmp[tp := v]) tp True = concat (map (\<lambda>j. decimal (unat (tmp ! j)) @ [ch_dot]) [0..<tp]) @ decimal (unat v)"
    using assms unfolding read4_def m [OF order_refl] by simp
  show "read4 (tmp[tp + 1 := 0]) (tp + 1) False = read4 tmp tp True @ [ch_dot]"
    unfolding read4_def using m [of "tp + 1" 0] by (simp del: map_eq_conv)
qed

lemma ascii_digit:
  assumes "(0x30 :: u8) \<le> ch" and "ch \<le> 0x39"
  shows "unat (ch - 0x30) < 10" and "of_nat (0x30 + unat (ch - 0x30)) = ch"
proof -
  have "unat (ch - 0x30) = unat ch - 0x30" using unat_sub [OF assms(1)] by simp
  then show "unat (ch - 0x30) < 10" using assms(2) by (simp add: word_le_nat_alt)
  show "of_nat (0x30 + unat (ch - 0x30)) = ch" by simp
qed

lemma pton4_sound:
  assumes "pton4_loop s tmp tp saw octets = Inr bs" and "length tmp = 4" and "tp < 4" and "octets = tp + (if saw then 1 else 0)"
    and "\<not> saw \<Longrightarrow> tmp ! tp = 0"
  shows "length bs = 4 \<and> read4 tmp tp saw @ s = quad_text bs"
  using assms
proof (induction s arbitrary: tmp tp saw octets)
  case Nil
  then have "saw" "tp = 3" "bs = tmp" by (auto split: if_splits)
  then show ?case using Nil.prems(2) by (simp add: read4_def quad_text_def upt_rec numeral_3_eq_3 numeral_2_eq_2)
next
  case (Cons ch s)
  show ?case
  proof (cases "0x30 \<le> ch \<and> ch \<le> 0x39")
    case True
    let ?x = "unat (ch - 0x30)" let ?n = "unat (tmp ! tp) * 10 + ?x" let ?t = "tmp[tp := of_nat ?n]"
    have x: "?x < 10" "of_nat (0x30 + ?x) = ch" using ascii_digit True by blast+
    have ok: "saw \<Longrightarrow> tmp ! tp \<noteq> 0" "?n < 256" "\<not> saw \<Longrightarrow> octets < 4" using Cons.prems(1) True by (auto simp: Let_def split: if_splits)
    have n: "unat (of_nat ?n :: u8) = ?n" using ok(2) by (simp add: unat_of_nat del: of_nat_add)
    have "pton4_loop (ch # s) tmp tp saw octets = pton4_loop s ?t tp True (if saw then octets else octets + 1)"
      using pton4_digit [OF x(1) ok(2,1,3), where s = s] unfolding x(2) .
    then have "length bs = 4 \<and> read4 ?t tp True @ s = quad_text bs"
      using Cons.prems by (intro Cons.IH [where octets = "if saw then octets else octets + 1"]) auto
    moreover have "read4 ?t tp True = read4 tmp tp saw @ [ch]"
    proof (cases saw)
      case True
      then have "unat (tmp ! tp) \<noteq> 0" using ok(1) by (simp add: unat_eq_zero)
      from decimal_snoc [OF this x(1)] show ?thesis using True read4_upd(1) [of tp tmp "of_nat ?n"] Cons.prems(2,3) n unfolding x(2)
        by (simp add: read4_def del: of_nat_add)
    next
      case False
      then have "?n = ?x" using Cons.prems(5) by simp
      moreover have "decimal ?x = [of_nat (0x30 + ?x)]" using x(1) by (subst decimal.simps) simp
      ultimately show ?thesis using False read4_upd(1) [of tp tmp "of_nat ?n"] Cons.prems(2,3) n unfolding x(2)
        by (simp add: read4_def del: of_nat_add)
    qed
    ultimately show ?thesis by simp
  next
    case False
    then have d: "ch = ch_dot" saw "octets \<noteq> 4" using Cons.prems(1) by (auto split: if_splits)
    then have "length bs = 4 \<and> read4 (tmp[tp + 1 := 0]) (tp + 1) False @ s = quad_text bs"
      using Cons.prems pton4_dot [of octets s tmp tp] by (intro Cons.IH [where octets = octets]) (auto simp del: pton4_loop.simps)
    then show ?thesis using read4_upd(2) [of tp tmp] Cons.prems(2,3) d by simp
  qed
qed

lemma pton4_iff: "inet_pton4 s = Inr bs \<longleftrightarrow> length bs = 4 \<and> s = quad_text bs"
proof
  assume "inet_pton4 s = Inr bs"
  then show "length bs = 4 \<and> s = quad_text bs"
    using pton4_sound [of s "replicate 4 0" 0 False 0 bs] by (simp add: inet_pton4_def read4_def)
next
  assume a: "length bs = 4 \<and> s = quad_text bs"
  then obtain a b c d where "bs = [a, b, c, d]" by (auto simp: eval_nat_numeral length_Suc_conv)
  with a show "inet_pton4 s = Inr bs" using pton4_quad by simp
qed

end
