(* ===== verification/UVInet6.thy ===== *)
theory UVInet6
  imports UVInet
begin

unbundle bit_operations_syntax

text \<open>
  The IPv6 half of \<^verbatim>\<open>src/inet.c\<close>: the text \<^verbatim>\<open>inet_ntop6\<close> prints is within its buffer of 46 bytes and
  \<^verbatim>\<open>inet_pton6\<close> reads it back.
  \<^item> \<open>state6\<close>: the reader's state after some bytes; \<open>read_hex\<close>, \<open>read_colon\<close>, \<open>read_gap\<close> and \<open>read_quad\<close>
    are its steps over a word, a colon, a double colon and a dotted quad.
  \<^item> \<open>finish_gap\<close>: the loop after \<^verbatim>\<open>colonp\<close> moves the bytes behind the gap to the end.
  \<^item> \<open>best_run_cases\<close>: the run of zeros the printer leaves out is a run of two or more zero words.
  \<^item> \<open>fmt_reads_as\<close>, \<open>inet_pton_ntop\<close>: the round trip, of both families.
  \<^item> \<open>pton_size\<close>: a reader that succeeds has written an address of the family's size, inside its array.
\<close>

section \<open>Hexadecimal tokens\<close>

lemma hex_value_digit: "n < 16 \<Longrightarrow> hex_value (hex_digit n) = Some n"
proof -
  have "list_all (\<lambda>n. hex_value (hex_digit n) = Some n) [0..<16]" by code_simp
  then show "n < 16 \<Longrightarrow> hex_value (hex_digit n) = Some n" by (simp add: list_all_iff)
qed

lemma hex_length: "n < 16 ^ Suc k \<Longrightarrow> length (hex n) \<le> Suc k"
proof (induction n arbitrary: k rule: hex.induct)
  case (1 n)
  show ?case
  proof (cases "n < 16")
    case True
    then show ?thesis by (subst hex.simps) simp
  next
    case False
    then obtain j where "k = Suc j" using 1(2) by (cases k) auto
    then have "n div 16 < 16 ^ Suc j" using 1(2) by (simp add: less_mult_imp_div_less mult.commute)
    from 1(1) [OF False this] show ?thesis using False \<open>k = Suc j\<close> by (subst hex.simps) simp
  qed
qed

lemma hex_nonempty [simp]: "hex n \<noteq> []" by (subst hex.simps) simp

lemma shift_in:
  assumes "x < 16"
  shows "push_bit 4 (of_nat m :: u32) OR of_nat x = of_nat (16 * m + x)"
proof -
  have "push_bit 4 (of_nat m :: u32) = of_nat (push_bit 4 m)" by (simp add: push_bit_of_nat)
  moreover have "(of_nat (push_bit 4 m) :: u32) OR of_nat x = of_nat (push_bit 4 m OR x)" by (simp add: of_nat_or_eq)
  moreover have "push_bit 4 m OR x = 16 * m + x" using nat_push_or [of x 4 m] assms by simp
  ultimately show ?thesis by simp
qed

text \<open>The reader's state after the bytes \<open>bs\<close>.\<close>

definition state6 :: "bytes \<Rightarrow> nat option \<Rightarrow> u32 \<Rightarrow> nat \<Rightarrow> bytes \<Rightarrow> pton6_st" where
  "state6 bs c w k tok = \<lparr>tmp6 = bs @ replicate (16 - length bs) 0, tp6 = length bs, colonp = c, curtok = tok, seen_xdigits = k, val6 = w\<rparr>"

definition word_bytes :: "u32 \<Rightarrow> bytes" where
  "word_bytes w = [ucast (drop_bit 8 w), ucast w]"

lemma word_bytes_length [simp]: "length (word_bytes w) = 2"
  by (simp add: word_bytes_def)

lemma state6_fields [simp]:
  "tmp6 (state6 bs c w k tok) = bs @ replicate (16 - length bs) 0" "tp6 (state6 bs c w k tok) = length bs"
  "colonp (state6 bs c w k tok) = c" "curtok (state6 bs c w k tok) = tok" "seen_xdigits (state6 bs c w k tok) = k" "val6 (state6 bs c w k tok) = w"
  "(state6 bs c w k tok)\<lparr>colonp := c'\<rparr> = state6 bs c' w k tok" "(state6 bs c w k tok)\<lparr>curtok := tok'\<rparr> = state6 bs c w k tok'"
  "(state6 bs c w k tok)\<lparr>seen_xdigits := k'\<rparr> = state6 bs c w k' tok" "(state6 bs c w k tok)\<lparr>val6 := w'\<rparr> = state6 bs c w' k tok"
  by (simp_all add: state6_def)

lemma read_hex_digit:
  assumes "x < 16" and "k < 4"
  shows "pton6_loop (hex_digit x # s) (state6 bs c (of_nat m) k tok) = pton6_loop s (state6 bs c (of_nat (16 * m + x)) (k + 1) tok)"
  using assms by (simp add: hex_value_digit shift_in del: of_nat_add of_nat_mult)

lemma read_hex:
  assumes "length (hex n) \<le> 4"
  shows "pton6_loop (hex n @ s) (state6 bs c 0 0 tok) = pton6_loop s (state6 bs c (of_nat n) (length (hex n)) tok)"
  using assms
proof (induction n arbitrary: s rule: hex.induct)
  case (1 n)
  show ?case
  proof (cases "n < 16")
    case True
    then have "hex n = [hex_digit n]" by (subst hex.simps) simp
    then show ?thesis using read_hex_digit [OF True, of 0 s bs c 0 tok] by simp
  next
    case False
    then have h: "hex n = hex (n div 16) @ [hex_digit (n mod 16)]" by (subst hex.simps) simp
    then have l: "length (hex (n div 16)) < 4" using 1(2) by simp
    have "pton6_loop (hex n @ s) (state6 bs c 0 0 tok) = pton6_loop (hex_digit (n mod 16) # s) (state6 bs c (of_nat (n div 16)) (length (hex (n div 16))) tok)"
      unfolding h using 1(1) [OF False] l by simp
    also have "\<dots> = pton6_loop s (state6 bs c (of_nat (16 * (n div 16) + n mod 16)) (length (hex (n div 16)) + 1) tok)"
      by (rule read_hex_digit) (use l in auto)
    finally show ?thesis using h by simp
  qed
qed

lemma hex_value_colon [simp]: "hex_value ch_colon = None" "hex_value ch_dot = None"
  by (simp_all add: hex_value_def ch_colon_def ch_dot_def)

lemma append_zeros_upd:
  assumes "length bs + 2 \<le> 16"
  shows "(bs @ replicate (16 - length bs) 0)[length bs := x, length bs + 1 := y] = (bs @ [x, y]) @ replicate (16 - (length bs + 2)) (0 :: u8)"
proof -
  have "16 - length bs = Suc (Suc (16 - (length bs + 2)))" using assms by simp
  then show ?thesis by (simp add: list_update_append)
qed

lemma push_word_state6: "length bs + 2 \<le> 16 \<Longrightarrow> push_word (state6 bs c w k tok) = state6 (bs @ word_bytes w) c w k tok"
  using append_zeros_upd [of bs] by (simp add: push_word_def state6_def word_bytes_def)

lemma read_colon:
  assumes "k \<noteq> 0" and "s \<noteq> []" and "length bs + 2 \<le> 16"
  shows "pton6_loop (ch_colon # s) (state6 bs c w k tok) = pton6_loop s (state6 (bs @ word_bytes w) c 0 0 s)"
  using assms by (simp add: push_word_state6)

lemma read_gap: "pton6_loop (ch_colon # s) (state6 bs None 0 0 tok) = pton6_loop s (state6 bs (Some (length bs)) 0 0 s)"
  by simp

definition colons :: "u32 list \<Rightarrow> bytes" where
  "colons ws = concat (map (\<lambda>w. ch_colon # hex (unat w)) ws)"

lemma colons_simps [simp]: "colons [] = []" "colons (w # ws) = ch_colon # hex (unat w) @ colons ws"
  by (simp_all add: colons_def)

abbreviation words_bytes :: "u32 list \<Rightarrow> bytes" where
  "words_bytes ws \<equiv> concat (map word_bytes ws)"

abbreviation small :: "u32 \<Rightarrow> bool" where
  "small w \<equiv> unat w < 65536"

lemma small_hex: "small w \<Longrightarrow> length (hex (unat w)) \<le> 4"
  using hex_length [of "unat w" 3] by simp

lemma words_bytes_length [simp]: "length (words_bytes ws) = 2 * length ws"
  by (induction ws) (simp_all add: word_bytes_def)

lemma read_colons:
  assumes "\<forall>w \<in> set ws. small w" and "k \<noteq> 0" and "length bs + 2 * length ws \<le> 16"
  shows "\<exists>k' tok'. k' \<noteq> 0 \<and> pton6_loop (colons ws @ s) (state6 bs c w k tok) =
    pton6_loop s (state6 (bs @ words_bytes (butlast (w # ws))) c (last (w # ws)) k' tok')"
  using assms
proof (induction ws arbitrary: bs w k tok)
  case (Cons v ws)
  let ?s = "hex (unat v) @ colons ws @ s" and ?b = "bs @ word_bytes w"
  have "pton6_loop (colons (v # ws) @ s) (state6 bs c w k tok) = pton6_loop ?s (state6 ?b c 0 0 ?s)"
    using read_colon [of k ?s bs c w tok] Cons.prems by simp
  also have "\<dots> = pton6_loop (colons ws @ s) (state6 ?b c v (length (hex (unat v))) ?s)"
    using read_hex [OF small_hex] Cons.prems(1) by simp
  finally show ?case using Cons.IH [of "length (hex (unat v))" ?b v ?s] Cons.prems by (simp add: word_bytes_def)
qed auto

lemma read_group:
  assumes "\<forall>w \<in> set (w # ws). small w" and "length bs + 2 * length ws \<le> 16"
  shows "\<exists>k' tok'. k' \<noteq> 0 \<and> pton6_loop (hex (unat w) @ colons ws @ s) (state6 bs c 0 0 tok) =
    pton6_loop s (state6 (bs @ words_bytes (butlast (w # ws))) c (last (w # ws)) k' tok')"
  using read_colons [of ws "length (hex (unat w))" bs] read_hex [OF small_hex, of w] assms by simp

section \<open>The end of the text\<close>

lemma shift_gap:
  assumes "length A = c" and "length B = n" and "c + n + m = 16" and "0 < m" and "k \<le> n"
  shows "shift_loop k c n (n - k + 1) (A @ take k B @ replicate m 0 @ drop k B) = A @ replicate m 0 @ B"
  using assms(5)
proof (induction k)
  case (Suc k)
  let ?i = "n - Suc k + 1"
  obtain m' where m: "m = Suc m'" using assms(4) by (cases m) auto
  have i: "16 - ?i = c + Suc k + m'" "c + (n - ?i) = c + k" using assms(1-3) m Suc.prems by auto
  have B: "take (Suc k) B = take k B @ [B ! k]" "drop k B = B ! k # drop (Suc k) B" using assms(2) Suc.prems by (simp_all add: take_Suc_conv_app_nth Cons_nth_drop_Suc)
  let ?t = "A @ take (Suc k) B @ replicate m 0 @ drop (Suc k) B"
  have r: "replicate m (0::u8) = replicate m' 0 @ [0]" by (simp add: m replicate_append_same)
  have "?t ! (c + k) = B ! k" using assms(1,2) Suc.prems unfolding B by (simp add: nth_append)
  moreover have "?t[c + Suc k + m' := B ! k] = A @ take (Suc k) B @ replicate m' 0 @ B ! k # drop (Suc k) B"
    using assms(1,2) Suc.prems unfolding r by (simp add: list_update_append)
  moreover have "(A @ take (Suc k) B @ replicate m' 0 @ B ! k # drop (Suc k) B)[c + k := 0] = A @ take k B @ replicate m 0 @ drop k B"
    using assms(1,2) Suc.prems unfolding B m by (simp add: list_update_append)
  ultimately have "shift_loop (Suc k) c n ?i ?t = shift_loop k c n (?i + 1) (A @ take k B @ replicate m 0 @ drop k B)"
    unfolding shift_loop.simps Let_def i by simp
  then show ?case using Suc by (simp add: Suc_diff_Suc)
qed simp

lemma finish_word:
  assumes "k \<noteq> 0" and "length bs + 2 \<le> 16"
  shows "pton6_finish (state6 bs c w k tok) = pton6_finish (state6 (bs @ word_bytes w) c w 0 tok)"
  using assms by (simp add: pton6_finish_def push_word_state6 Let_def split: option.split)

lemma finish_full: "length bs = 16 \<Longrightarrow> pton6_finish (state6 bs None w 0 tok) = Inr bs"
  by (simp add: pton6_finish_def state6_def)

lemma finish_gap:
  assumes "length A + length B < 16"
  shows "pton6_finish (state6 (A @ B) (Some (length A)) w 0 tok) = Inr (A @ replicate (16 - (length A + length B)) 0 @ B)"
  using shift_gap [of A "length A" B "length B" "16 - (length A + length B)" "length B"] assms
  by (simp add: pton6_finish_def state6_def)

lemma butlast_bytes: "vs = us @ [v] \<Longrightarrow> words_bytes vs = words_bytes us @ word_bytes v"
  by simp

lemma finish_group:
  assumes "k \<noteq> 0" and "length bs + 2 * length (w # ws) \<le> 16"
  shows "pton6_finish (state6 (bs @ words_bytes (butlast (w # ws))) c (last (w # ws)) k tok) = pton6_finish (state6 (bs @ words_bytes (w # ws)) c (last (w # ws)) 0 tok)"
proof -
  have "w # ws = butlast (w # ws) @ [last (w # ws)]" by (simp only: append_butlast_last_id list.distinct not_False_eq_True)
  then have "words_bytes (w # ws) = words_bytes (butlast (w # ws)) @ word_bytes (last (w # ws))"
    by (metis (no_types) butlast_bytes)
  then show ?thesis using finish_word [OF assms(1), of "bs @ words_bytes (butlast (w # ws))" c "last (w # ws)" tok] assms(2) by simp
qed

lemma read_full:
  assumes "\<forall>w \<in> set (w # ws). small w" and "length (w # ws) = 8"
  shows "\<exists>st. pton6_loop (hex (unat w) @ colons ws) (state6 [] None 0 0 tok) = Inr st \<and> pton6_finish st = Inr (words_bytes (w # ws))"
proof -
  obtain k' tok' where k: "k' \<noteq> 0" "pton6_loop (hex (unat w) @ colons ws) (state6 [] None 0 0 tok) = Inr (state6 (words_bytes (butlast (w # ws))) None (last (w # ws)) k' tok')"
    using read_group [OF assms(1), of "[]" "[]" None tok] assms(2) by auto
  have "pton6_finish (state6 (words_bytes (butlast (w # ws))) None (last (w # ws)) k' tok') = Inr (words_bytes (w # ws))"
    using finish_group [OF k(1), of "[]" w ws None tok'] finish_full [of "words_bytes (w # ws)"] assms(2) by (simp del: butlast.simps last.simps)
  then show ?thesis using k by blast
qed

text \<open>After the first part, a gap, with more words or at the end.\<close>

lemma read_tail:
  assumes "\<forall>w \<in> set ws. small w" and "length bs + 2 * length ws < 16"
  shows "\<exists>st. pton6_loop (colons ws @ (if ws = [] then [ch_colon] else [])) (state6 bs None 0 0 tok) = Inr st \<and>
    pton6_finish st = Inr (bs @ replicate (16 - (length bs + 2 * length ws)) 0 @ words_bytes ws)"
proof (cases ws)
  case Nil
  then show ?thesis using read_gap [of "[]" bs tok] finish_gap [of bs "[]" 0 "[]"] assms(2) by simp
next
  case (Cons v vs)
  let ?s = "hex (unat v) @ colons vs" and ?c = "Some (length bs)"
  obtain k' tok' where k: "k' \<noteq> 0" "pton6_loop ?s (state6 bs ?c 0 0 ?s) = Inr (state6 (bs @ words_bytes (butlast ws)) ?c (last ws) k' tok')"
    using read_group [of v vs bs "[]" ?c ?s] assms Cons by auto
  then have "pton6_loop (colons ws) (state6 bs None 0 0 tok) = Inr (state6 (bs @ words_bytes (butlast ws)) ?c (last ws) k' tok')"
    using read_gap [of ?s bs tok] Cons by simp
  moreover have "pton6_finish (state6 (bs @ words_bytes (butlast ws)) ?c (last ws) k' tok') = Inr (bs @ replicate (16 - (length bs + 2 * length ws)) 0 @ words_bytes ws)"
    using finish_group [OF k(1), of bs v vs ?c tok'] finish_gap [of bs "words_bytes ws" "last ws" tok'] assms(2) Cons
    by (simp del: butlast.simps last.simps)
  ultimately show ?thesis using Cons by simp
qed

section \<open>The quad at the end\<close>

lemma hex_chars: "\<forall>ch \<in> set (hex n). hex_value ch \<noteq> None"
proof (induction n rule: hex.induct)
  case (1 n)
  then show ?case by (subst hex.simps) (auto simp: hex_value_digit)
qed

lemma decimal_chars: "\<forall>ch \<in> set (decimal n). hex_value ch \<noteq> None"
proof (induction n rule: decimal.induct)
  case (1 n)
  have "hex_value (of_nat (0x30 + x)) \<noteq> None" if "x < 10" for x
    using digit_chr [OF that] by (simp add: hex_value_def del: of_nat_add)
  with 1 show ?case by (subst decimal.simps) (auto simp del: of_nat_add)
qed

lemma read_digits:
  assumes "\<forall>ch \<in> set ds. hex_value ch \<noteq> None" and "k + length ds \<le> 4"
  shows "\<exists>v'. pton6_loop (ds @ s) (state6 bs c v k tok) = pton6_loop s (state6 bs c v' (k + length ds) tok)"
  using assms
proof (induction ds arbitrary: v k)
  case (Cons d ds)
  then obtain x where "hex_value d = Some x" by auto
  then show ?case using Cons.IH [of "k + 1"] Cons.prems by simp
qed auto

lemma dot_not_colon: "ch_dot \<noteq> ch_colon"
  by (simp add: ch_dot_def ch_colon_def)

lemma read_quad:
  assumes "length q = 4" and "length bs + 4 \<le> 16"
  shows "\<exists>v. pton6_loop (quad_text q) (state6 bs c 0 0 (quad_text q)) = Inr (state6 (bs @ q) c v 0 (quad_text q))"
proof -
  let ?d = "decimal (unat (q ! 0))" and ?tok = "quad_text q"
  obtain s where s: "?tok = ?d @ ch_dot # s" by (simp add: quad_text_def)
  have "length ?d \<le> 3" using length_decimal [of "unat (q ! 0)" 2] unat_u8_lt [of "q ! 0"] by simp
  then obtain v k where "pton6_loop ?tok (state6 bs c 0 0 ?tok) = pton6_loop (ch_dot # s) (state6 bs c v k ?tok)"
    using read_digits [OF decimal_chars, of 0 "unat (q ! 0)" "ch_dot # s" bs c 0 ?tok] s by auto
  moreover have "pton6_loop (ch_dot # s) (state6 bs c v k ?tok) = Inr (state6 (bs @ q) c v 0 ?tok)"
    using assms pton4_iff [of ?tok q] dot_not_colon by (simp add: state6_def)
  ultimately show ?thesis by auto
qed

text \<open>An address that ends in a quad: nothing, or one word, before it.\<close>

lemma read_mapped:
  assumes "length q = 4" and "\<forall>w \<in> set ws. small w" and "length ws \<le> 1"
  shows "\<exists>st. pton6_loop (colons ws @ ch_colon # quad_text q) (state6 [] None 0 0 tok) = Inr st \<and>
    pton6_finish st = Inr (replicate (12 - 2 * length ws) 0 @ words_bytes ws @ q)"
proof (cases ws)
  case Nil
  then show ?thesis using read_quad [OF assms(1), of "[]" "Some 0"] read_gap [of "quad_text q" "[]" tok] finish_gap [of "[]" q] assms(1)
    by (auto simp del: pton6_loop.simps)
next
  case (Cons w ws')
  then have w: "ws = [w]" "small w" using assms(2,3) by auto
  let ?q = "quad_text q" let ?s = "hex (unat w) @ ch_colon # ?q" let ?k = "length (hex (unat w))"
  have ne: "?q \<noteq> []" by (simp add: quad_text_def)
  have "pton6_loop (colons ws @ ch_colon # ?q) (state6 [] None 0 0 tok) = pton6_loop ?s (state6 [] (Some 0) 0 0 ?s)"
    using read_gap [of ?s "[]" tok] w(1) by simp
  also have "\<dots> = pton6_loop (ch_colon # ?q) (state6 [] (Some 0) w ?k ?s)"
    using read_hex [OF small_hex [OF w(2)]] by simp
  also have "\<dots> = pton6_loop ?q (state6 (word_bytes w) (Some 0) 0 0 ?q)"
    using read_colon [of ?k ?q "[]" "Some 0" w ?s] ne by simp
  finally show ?thesis
    using read_quad [OF assms(1), of "word_bytes w" "Some 0"] finish_gap [of "[]" "word_bytes w @ q"] assms(1) w(1)
    by (auto simp del: pton6_loop.simps)
qed

lemma pton6_colon: "inet_pton6 (ch_colon # ch_colon # s) = (case pton6_loop (ch_colon # s) (state6 [] None 0 0 (ch_colon # s)) of Inl err \<Rightarrow> Inl err | Inr st \<Rightarrow> pton6_finish st)"
  by (simp add: inet_pton6_def state6_def Let_def del: pton6_loop.simps)

lemma hex_hd: "hd (hex n @ s) \<noteq> ch_colon"
  using hex_chars [of n] hd_in_set [OF hex_nonempty, of n] hex_value_colon(1) by (metis hd_append2 hex_nonempty)

lemma pton6_hex: "inet_pton6 (hex n @ s) = (case pton6_loop (hex n @ s) (state6 [] None 0 0 (hex n @ s)) of Inl err \<Rightarrow> Inl err | Inr st \<Rightarrow> pton6_finish st)"
  using hex_hd [of n s] by (simp add: inet_pton6_def state6_def Let_def del: pton6_loop.simps)

text \<open>The words with colons between them.\<close>

fun joined :: "u32 list \<Rightarrow> bytes" where
  "joined [] = []"
| "joined (w # ws) = hex (unat w) @ colons ws"

lemma pton6_full:
  assumes "\<forall>w \<in> set ws. small w" and "length ws = 8"
  shows "inet_pton6 (joined ws) = Inr (words_bytes ws)"
proof -
  obtain v vs where v: "ws = v # vs" using assms(2) by (cases ws) auto
  show ?thesis using read_full [of v vs "joined ws"] assms unfolding v by (auto simp: pton6_hex)
qed

lemma pton6_gap:
  assumes "\<forall>w \<in> set (us @ ws). small w" and "length us + length ws < 8"
  shows "inet_pton6 (joined us @ ch_colon # colons ws @ (if ws = [] then [ch_colon] else [])) =
    Inr (words_bytes us @ replicate (16 - 2 * (length us + length ws)) 0 @ words_bytes ws)"
proof (cases us)
  case Nil
  define t where "t = colons ws @ (if ws = [] then [ch_colon] else [])"
  have t: "t \<noteq> []" "hd t = ch_colon" by (cases ws; simp add: t_def)+
  then have "inet_pton6 (ch_colon # t) = (case pton6_loop t (state6 [] None 0 0 t) of Inl err \<Rightarrow> Inl err | Inr st \<Rightarrow> pton6_finish st)"
    using pton6_colon [of "tl t"] by (metis list.collapse)
  then show ?thesis using read_tail [of ws "[]" t] assms Nil unfolding t_def by (auto simp del: pton6_loop.simps)
next
  case (Cons u us')
  define t where "t = colons ws @ (if ws = [] then [ch_colon] else [])"
  have t: "t \<noteq> []" by (cases ws; simp add: t_def)
  let ?s = "joined us @ ch_colon # t"
  obtain k' tok' where k: "k' \<noteq> 0" "pton6_loop ?s (state6 [] None 0 0 ?s) = pton6_loop (ch_colon # t) (state6 (words_bytes (butlast us)) None (last us) k' tok')"
    using read_group [of u us' "[]" "ch_colon # t" None ?s] assms Cons by auto
  have b: "words_bytes us = words_bytes (butlast us) @ word_bytes (last us)"
    using Cons by (intro butlast_bytes) simp
  have "pton6_loop ?s (state6 [] None 0 0 ?s) = pton6_loop t (state6 (words_bytes us) None 0 0 t)"
    using k(2) read_colon [OF k(1) t, of "words_bytes (butlast us)" None "last us" tok'] assms(2) Cons unfolding b by simp
  moreover have "inet_pton6 ?s = (case pton6_loop ?s (state6 [] None 0 0 ?s) of Inl err \<Rightarrow> Inl err | Inr st \<Rightarrow> pton6_finish st)"
    using pton6_hex [of "unat u" "colons us' @ ch_colon # t"] Cons by simp
  moreover obtain st where "pton6_loop t (state6 (words_bytes us) None 0 0 t) = Inr st"
    "pton6_finish st = Inr (words_bytes us @ replicate (16 - (length (words_bytes us) + 2 * length ws)) 0 @ words_bytes ws)"
    using read_tail [of ws "words_bytes us" t] assms unfolding t_def by auto
  ultimately show ?thesis unfolding t_def by (simp add: add_mult_distrib2)
qed

lemma pton6_mapped:
  assumes "length q = 4" and "\<forall>w \<in> set ws. small w" and "length ws \<le> 1"
  shows "inet_pton6 (ch_colon # colons ws @ ch_colon # quad_text q) = Inr (replicate (12 - 2 * length ws) 0 @ words_bytes ws @ q)"
proof -
  define t where "t = colons ws @ ch_colon # quad_text q"
  have t: "t \<noteq> []" "hd t = ch_colon" by (cases ws; simp add: t_def)+
  then have "inet_pton6 (ch_colon # t) = (case pton6_loop t (state6 [] None 0 0 t) of Inl err \<Rightarrow> Inl err | Inr st \<Rightarrow> pton6_finish st)"
    using pton6_colon [of "tl t"] by (metis list.collapse)
  then show ?thesis using read_mapped [OF assms, of t] unfolding t_def by auto
qed

section \<open>The words of an address\<close>

definition word_of :: "u8 \<Rightarrow> u8 \<Rightarrow> u32" where
  "word_of a b = push_bit 8 (ucast a) OR ucast b"

lemma unat_word_of: "unat (word_of a b) = unat a * 256 + unat b"
proof -
  have "unat (ucast b :: u32) < 2 ^ 8" "unat (ucast a :: u32) * 2 ^ 8 < 2 ^ LENGTH(32)"
    using order.strict_trans [OF unat_u8_lt [of a], of 16777216] by (simp_all add: unat_ucast_up)
  from push_or_disjoint [OF this] show ?thesis by (simp add: word_of_def unat_ucast_up)
qed

lemma word_bytes_word_of: "word_bytes (word_of a b) = [a, b]"
proof -
  have "(ucast (drop_bit 8 (word_of a b)) :: u8) = a" "(ucast (word_of a b) :: u8) = b"
    unfolding word_of_def by (rule bit_word_eqI; auto simp: bit_simps)+
  then show ?thesis by (simp add: word_bytes_def)
qed

lemma small_word_of: "small (word_of a b)"
  using unat_u8_lt [of a] unat_u8_lt [of b] unfolding unat_word_of by linarith

lemma length_16E:
  assumes "length (src :: bytes) = 16"
  obtains a b c d e f g h i j k l m n p q where "src = [a, b, c, d, e, f, g, h, i, j, k, l, m, n, p, q]"
  using assms by (auto simp: eval_nat_numeral length_Suc_conv)

lemma upd_Cons_numeral: "(x # xs)[numeral k := y] = x # xs[pred_numeral k := y]"
  by (simp add: numeral_eq_Suc)

lemma words_of_16:
  "words_of [a, b, c, d, e, f, g, h, i, j, k, l, m, n, p, q] =
     [word_of a b, word_of c d, word_of e f, word_of g h, word_of i j, word_of k l, word_of m n, word_of p q]"
proof -
  have "[0..<16] = [0, 1, 2, 3, 4, 5, 6, 7, 8, 9, 10, 11, 12, 13, 14, 15]" by (simp add: upt_rec)
  moreover have "replicate 8 (0 :: u32) = [0, 0, 0, 0, 0, 0, 0, 0]" by (simp add: numeral_eq_Suc)
  ultimately show ?thesis by (simp add: words_of_def word_of_def upd_Cons_numeral)
qed

lemma words_of_props:
  assumes "length src = 16"
  shows "length (words_of src) = 8" "\<forall>w \<in> set (words_of src). small w" "words_bytes (words_of src) = src"
proof -
  obtain a b c d e f g h i j k l m n p q where src: "src = [a, b, c, d, e, f, g, h, i, j, k, l, m, n, p, q]"
    using assms by (rule length_16E)
  show "length (words_of src) = 8" "\<forall>w \<in> set (words_of src). small w" "words_bytes (words_of src) = src"
    unfolding src words_of_16 by (simp_all add: small_word_of word_bytes_word_of)
qed

section \<open>The run of zeros\<close>

text \<open>A run is absent, or a stretch of zero words that ends before \<open>i\<close>.\<close>

definition run_ok :: "u32 list \<Rightarrow> nat \<Rightarrow> zero_run \<Rightarrow> bool" where
  "run_ok ws i r \<longleftrightarrow> run_base r = - 1 \<or>
     (\<exists>b n. run_base r = int b \<and> run_len r = int n \<and> 1 \<le> n \<and> b + n \<le> i \<and> (\<forall>j. b \<le> j \<and> j < b + n \<longrightarrow> ws ! j = 0))"

definition run_open :: "nat \<Rightarrow> zero_run \<Rightarrow> bool" where
  "run_open i r \<longleftrightarrow> run_base r = - 1 \<or> run_base r + run_len r = int i"

lemma run_ok_mono: "run_ok ws i r \<Longrightarrow> i \<le> i' \<Longrightarrow> run_ok ws i' r"
  unfolding run_ok_def using order_trans by blast

lemma better_run_ok: "run_ok ws i best \<Longrightarrow> run_ok ws i cur \<Longrightarrow> run_ok ws i (better_run best cur)"
  by (simp add: better_run_def)

lemma run_grows:
  assumes "run_ok ws i cur" and "run_open i cur" and "ws ! i = 0"
  shows "run_ok ws (Suc i) (if run_base cur = - 1 then cur\<lparr>run_base := int i, run_len := 1\<rparr> else cur\<lparr>run_len := run_len cur + 1\<rparr>)"
proof (cases "run_base cur = - 1")
  case True
  then show ?thesis using assms(3) unfolding run_ok_def
    by (intro disjI2 exI [of _ i] exI [of _ 1]) (auto simp: less_Suc_eq_le dest: antisym)
next
  case False
  then obtain b n where bn: "run_base cur = int b" "run_len cur = int n" "\<forall>j. b \<le> j \<and> j < b + n \<longrightarrow> ws ! j = 0"
    using assms(1) unfolding run_ok_def by auto
  then have "b + n = i" using assms(2) False unfolding run_open_def by linarith
  with bn show ?thesis using assms(3) False unfolding run_ok_def
    by (intro disjI2 exI [of _ b] exI [of _ "n + 1"]) (auto simp: less_Suc_eq)
qed

lemma run_loop_ok:
  assumes "vs = drop i ws" and "i \<le> length ws" and "run_ok ws i best" and "run_ok ws i cur" and "run_open i cur" and "run_loop vs (int i) best cur = (best', cur')"
  shows "run_ok ws (length ws) best' \<and> run_ok ws (length ws) cur'"
  using assms
proof (induction vs arbitrary: i best cur)
  case Nil
  then show ?case by simp
next
  case (Cons v vs)
  have i: "i < length ws" "v = ws ! i" "vs = drop (Suc i) ws" using Cons.prems(1,2)
    by (metis drop_eq_Nil linorder_not_le list.distinct(1), metis nth_via_drop, metis drop_Suc list.sel(3) tl_drop)
  let ?grown = "if run_base cur = - 1 then cur\<lparr>run_base := int i, run_len := 1\<rparr> else cur\<lparr>run_len := run_len cur + 1\<rparr>"
  let ?best = "if v \<noteq> 0 \<and> run_base cur \<noteq> - 1 then better_run best cur else best"
  let ?cur = "if v = 0 then ?grown else if run_base cur \<noteq> - 1 then cur\<lparr>run_base := - 1\<rparr> else cur"
  have "run_loop vs (int (Suc i)) ?best ?cur = (best', cur')" using Cons.prems(6) by (auto simp: add.commute split: if_splits)
  moreover have "run_ok ws (Suc i) ?best" using better_run_ok [OF Cons.prems(3,4)] Cons.prems(3) by (auto intro: run_ok_mono)
  moreover have "run_ok ws (Suc i) ?cur" using run_grows [OF Cons.prems(4,5)] i(2) by (auto simp: run_ok_def)
  moreover have "run_open (Suc i) ?cur" using Cons.prems(5) by (auto simp: run_open_def)
  ultimately show ?case using Cons.IH [of "Suc i"] i by simp
qed

lemma best_run_cases:
  assumes "length ws = 8"
  obtains "run_base (best_run ws) = - 1"
  | b n where "run_base (best_run ws) = int b" "run_len (best_run ws) = int n" "2 \<le> n" "b + n \<le> 8" "\<forall>j. b \<le> j \<and> j < b + n \<longrightarrow> ws ! j = 0"
proof -
  let ?none = "\<lparr>run_base = - 1, run_len = 0\<rparr>"
  obtain best cur where l: "run_loop ws 0 ?none ?none = (best, cur)" by (metis surj_pair)
  have "run_ok ws 8 best" "run_ok ws 8 cur" using run_loop_ok [of ws 0 ws ?none ?none best cur] l assms by (simp_all add: run_ok_def run_open_def)
  then have "run_ok ws 8 (if run_base cur \<noteq> - 1 then better_run best cur else best)" by (simp add: better_run_ok)
  then have "run_base (best_run ws) = - 1 \<or> (run_ok ws 8 (best_run ws) \<and> 2 \<le> run_len (best_run ws))"
    unfolding best_run_def l Let_def by auto
  then show ?thesis using that unfolding run_ok_def by fastforce
qed

section \<open>The formatting loop\<close>

lemma fmt_word: "\<not> in_run best i \<Longrightarrow> i \<noteq> 0 \<Longrightarrow> \<not> embedded best ws i \<Longrightarrow>
  fmt_loop (Suc k) best src ws i tp = fmt_loop k best src ws (i + 1) (tp @ ch_colon # hex (unat (ws ! i)))"
  by simp

lemma fmt_words:
  assumes "\<forall>j. i \<le> j \<and> j < i + m \<longrightarrow> \<not> in_run best j" and "i \<noteq> 0" and "\<forall>j. i \<le> j \<and> j < i + m \<longrightarrow> \<not> embedded best ws j" and "i + m \<le> length ws"
  shows "fmt_loop (m + k) best src ws i tp = fmt_loop k best src ws (i + m) (tp @ colons (take m (drop i ws)))"
  using assms
proof (induction m arbitrary: i tp)
  case (Suc m)
  have d: "take (Suc m) (drop i ws) = ws ! i # take m (drop (Suc i) ws)" using Suc.prems(4) by (simp add: Cons_nth_drop_Suc [symmetric])
  have "fmt_loop (Suc m + k) best src ws i tp = fmt_loop (m + k) best src ws (i + 1) (tp @ ch_colon # hex (unat (ws ! i)))"
    using fmt_word [of best i ws "m + k" src tp] Suc.prems(1-3) by simp
  also have "\<dots> = fmt_loop k best src ws (i + 1 + m) ((tp @ ch_colon # hex (unat (ws ! i))) @ colons (take m (drop (i + 1) ws)))"
    using Suc.prems by (intro Suc.IH) auto
  finally show ?case unfolding d by simp
qed simp

lemma fmt_in_run: "in_run best i \<Longrightarrow> int i \<noteq> run_base best \<Longrightarrow> fmt_loop (Suc k) best src ws i tp = fmt_loop k best src ws (i + 1) tp"
  by simp

lemma fmt_rest_of_run:
  assumes "run_base best = int b" and "run_len best = int n" and "b < i" and "i + m = b + n"
  shows "fmt_loop (m + k) best src ws i tp = fmt_loop k best src ws (b + n) tp"
  using assms(3,4)
proof (induction m arbitrary: i)
  case (Suc m)
  have "fmt_loop (Suc m + k) best src ws i tp = fmt_loop (m + k) best src ws (i + 1) tp"
    using fmt_in_run [of best i "m + k" src ws tp] assms(1,2) Suc.prems by (simp add: in_run_def)
  also have "\<dots> = fmt_loop k best src ws (b + n) tp" using Suc.prems by (intro Suc.IH) auto
  finally show ?case .
qed simp

lemma fmt_run:
  assumes "run_base best = int b" and "run_len best = int n" and "1 \<le> n"
  shows "fmt_loop (n + k) best src ws b tp = fmt_loop k best src ws (b + n) (tp @ [ch_colon])"
proof -
  obtain m where m: "n = Suc m" using assms(3) by (cases n) auto
  then show ?thesis using fmt_rest_of_run [OF assms(1,2), of "b + 1" m k src ws "tp @ [ch_colon]"] assms by (simp add: in_run_def)
qed

lemma fmt_first: "\<not> in_run best 0 \<Longrightarrow> fmt_loop (Suc k) best src ws 0 tp = fmt_loop k best src ws 1 (tp @ hex (unat (ws ! 0)))"
  by (simp add: embedded_def)

text \<open>Of the conditions for an encapsulated IPv4 address the one on a run of seven words is never met:
  the seventh word is then in the run, and the loop has gone on before it comes to them.\<close>

lemma seven_zeros_not_embedded: "embedded best ws i \<Longrightarrow> \<not> in_run best i \<Longrightarrow> run_len best \<noteq> 7"
  by (auto simp: embedded_def in_run_def)

lemma joined_take: "0 < b \<Longrightarrow> b \<le> length ws \<Longrightarrow> joined (take b ws) = hex (unat (ws ! 0)) @ colons (take (b - 1) (drop 1 ws))"
  by (cases ws; cases b) auto

lemma fmt_before:
  assumes "\<forall>j < b. \<not> in_run best j" and "b = 0 \<or> run_base best \<noteq> 0" and "b \<le> length ws"
  shows "fmt_loop (b + k) best src ws 0 [] = fmt_loop k best src ws b (joined (take b ws))"
proof (cases b)
  case (Suc m)
  then have "fmt_loop (b + k) best src ws 0 [] = fmt_loop (m + k) best src ws 1 (hex (unat (ws ! 0)))"
    using fmt_first [of best "m + k" src ws "[]"] assms(1) by simp
  also have "\<dots> = fmt_loop k best src ws (1 + m) (hex (unat (ws ! 0)) @ colons (take m (drop 1 ws)))"
    using Suc assms by (intro fmt_words) (auto simp: embedded_def)
  finally show ?thesis using joined_take [of b ws] Suc assms(3) by simp
qed simp

lemma fmt_plain: "run_base best = - 1 \<Longrightarrow> length ws = 8 \<Longrightarrow> fmt_loop 8 best src ws 0 [] = Inr (joined ws)"
  using fmt_before [of 8 best ws 0 src] by (simp add: in_run_def)

lemma fmt_run_start:
  assumes "run_base best = int b" and "run_len best = int n" and "1 \<le> n" and "b + n \<le> 8" and "length ws = 8"
  shows "fmt_loop 8 best src ws 0 [] = fmt_loop (8 - (b + n)) best src ws (b + n) (joined (take b ws) @ [ch_colon])"
proof -
  have "fmt_loop (b + (n + (8 - (b + n)))) best src ws 0 [] = fmt_loop (n + (8 - (b + n))) best src ws b (joined (take b ws))"
    using assms by (intro fmt_before) (auto simp: in_run_def)
  also have "\<dots> = fmt_loop (8 - (b + n)) best src ws (b + n) (joined (take b ws) @ [ch_colon])"
    using assms by (intro fmt_run) auto
  finally show ?thesis using assms(4) by simp
qed

lemma fmt_gap:
  assumes "run_base best = int b" and "run_len best = int n" and "2 \<le> n" and "b + n \<le> 8" and "length ws = 8"
    and "\<not> (embedded best ws 6 \<and> b + n \<le> 6)"
  shows "fmt_loop 8 best src ws 0 [] = Inr (joined (take b ws) @ ch_colon # colons (drop (b + n) ws))"
proof -
  have "fmt_loop (8 - (b + n) + 0) best src ws (b + n) tp = fmt_loop 0 best src ws (b + n + (8 - (b + n))) (tp @ colons (take (8 - (b + n)) (drop (b + n) ws)))" for tp
    using assms by (intro fmt_words) (auto simp: in_run_def embedded_def)
  then show ?thesis using fmt_run_start [of best b n ws src] assms by simp
qed

section \<open>Texts\<close>

lemma quad_chars: "\<forall>ch \<in> set (quad_text q). hex_value ch \<noteq> None \<or> ch = ch_dot"
  using decimal_chars by (auto simp: quad_text_def)

lemma quad_length: "length (quad_text q) \<le> 15"
proof -
  have "length (decimal (unat x)) \<le> 3" for x :: u8 using length_decimal [of "unat x" 2] unat_u8_lt [of x] by simp
  from this [of "q ! 0"] this [of "q ! 1"] this [of "q ! 2"] this [of "q ! 3"] show ?thesis by (simp add: quad_text_def)
qed

lemma hex_value_zero [simp]: "hex_value 0 = None" "hex_value ch_percent = None"
  by (simp_all add: hex_value_def ch_percent_def)

lemma quad_no_nul: "0 \<notin> set (quad_text q)" "ch_percent \<notin> set (quad_text q)"
proof -
  have "ch_dot \<noteq> 0" "ch_dot \<noteq> ch_percent" by (simp_all add: ch_dot_def ch_percent_def)
  then show "0 \<notin> set (quad_text q)" "ch_percent \<notin> set (quad_text q)" using quad_chars [of q] hex_value_zero by force+
qed

lemma takeWhile_nul: "0 \<notin> set s \<Longrightarrow> takeWhile (\<lambda>c. c \<noteq> 0) (s @ 0 # r) = (s :: bytes)"
  by (induction s) auto

lemma ntop4_ok:
  assumes "15 < sz" and "sz \<le> length dst"
  shows "inet_ntop4 src dst sz = (0, quad_text src @ 0 # drop (length (quad_text src) + 1) dst)"
proof -
  have "quad_text src \<noteq> []" by (simp add: quad_text_def)
  then show ?thesis using strscpy_ok [OF quad_no_nul(1), of src sz dst] quad_length [of src] assms
    by (simp add: inet_ntop4_def UV__INET_ADDRSTRLEN_def Let_def)
qed

lemma fmt_embedded:
  assumes "embedded best ws 6" and "length tp \<le> 20" and "run_len best \<le> 6"
  shows "fmt_loop 2 best src ws 6 tp = Inr (tp @ ch_colon # quad_text (drop 12 src))"
proof -
  let ?room = "UV__INET6_ADDRSTRLEN - length (tp @ [ch_colon])"
  have r: "15 < ?room" using assms(2) by (simp add: UV__INET6_ADDRSTRLEN_def)
  have "inet_ntop4 (drop 12 src) (replicate ?room 0) ?room = (0, quad_text (drop 12 src) @ 0 # drop (length (quad_text (drop 12 src)) + 1) (replicate ?room 0))"
    using r by (intro ntop4_ok) auto
  then show ?thesis using assms takeWhile_nul [OF quad_no_nul(1)] by (simp add: numeral_2_eq_2 in_run_def embedded_def)
qed

section \<open>The round trip\<close>

text \<open>A text that the reader takes for the address \<open>src\<close>, within the printer's buffer.\<close>

definition reads_as :: "bytes \<Rightarrow> bytes \<Rightarrow> bool" where
  "reads_as t src \<longleftrightarrow> length t < UV__INET6_ADDRSTRLEN \<and> 0 \<notin> set t \<and> ch_percent \<notin> set t \<and> inet_pton6 t = Inr src"

lemma hex_no_nul: "0 \<notin> set (hex n)" "ch_percent \<notin> set (hex n)"
  using hex_chars [of n] hex_value_zero by force+

lemma colon_no_nul: "ch_colon \<noteq> 0" "ch_colon \<noteq> ch_percent"
  by (simp_all add: ch_colon_def ch_percent_def)

lemma colons_no_nul: "0 \<notin> set (colons ws)" "ch_percent \<notin> set (colons ws)"
  by (induction ws) (use hex_no_nul colon_no_nul in auto)

lemma joined_no_nul: "0 \<notin> set (joined ws)" "ch_percent \<notin> set (joined ws)"
  using hex_no_nul colons_no_nul by (cases ws; force)+

lemmas no_nul = hex_no_nul colon_no_nul colons_no_nul joined_no_nul quad_no_nul colon_no_nul [symmetric]

lemma colons_length: "\<forall>w \<in> set ws. small w \<Longrightarrow> length (colons ws) \<le> 5 * length ws"
proof (induction ws)
  case (Cons w ws)
  then show ?case using small_hex [of w] by auto
qed simp

lemma joined_length: "\<forall>w \<in> set ws. small w \<Longrightarrow> length (joined ws) \<le> 5 * length ws"
  using colons_length small_hex by (cases ws; fastforce)

lemma split_words:
  assumes "length ws = 8" and "\<forall>j. b \<le> j \<and> j < b + n \<longrightarrow> ws ! j = 0" and "b + n \<le> 8"
  shows "words_bytes ws = words_bytes (take b ws) @ replicate (2 * n) 0 @ words_bytes (drop (b + n) ws)"
proof -
  have "take n (drop b ws) = replicate n 0" using assms by (intro nth_equalityI) auto
  moreover have "ws = take b ws @ take n (drop b ws) @ drop (b + n) ws" by (metis append_take_drop_id drop_drop add.commute)
  ultimately have "ws = take b ws @ replicate n 0 @ drop (b + n) ws" by metis
  moreover have "words_bytes (replicate n 0) = replicate (2 * n) 0" by (induction n) (simp_all add: word_bytes_def)
  ultimately show ?thesis by (metis concat_append map_append)
qed

lemma small_takes: "\<forall>w \<in> set ws. small w \<Longrightarrow> \<forall>w \<in> set (take b ws @ drop c ws). small w"
  by (auto dest: in_set_takeD in_set_dropD)

lemma reads_as_plain:
  assumes "length ws = 8" and "\<forall>w \<in> set ws. small w"
  shows "reads_as (joined ws) (words_bytes ws)"
  using pton6_full [OF assms(2,1)] joined_length [OF assms(2)] assms(1) by (simp add: reads_as_def no_nul UV__INET6_ADDRSTRLEN_def)

lemma reads_as_gap:
  assumes "length ws = 8" and "\<forall>w \<in> set ws. small w" and "2 \<le> n" and "b + n \<le> 8" and "\<forall>j. b \<le> j \<and> j < b + n \<longrightarrow> ws ! j = 0"
  shows "reads_as (joined (take b ws) @ ch_colon # colons (drop (b + n) ws) @ (if b + n = 8 then [ch_colon] else [])) (words_bytes ws)"
proof -
  note s = small_takes [OF assms(2), of b "b + n"]
  have e: "drop (b + n) ws = [] \<longleftrightarrow> b + n = 8" using assms(1,4) by simp
  have "length (joined (take b ws)) \<le> 5 * b" "length (colons (drop (b + n) ws)) \<le> 5 * (8 - (b + n))"
    using joined_length [of "take b ws"] colons_length [of "drop (b + n) ws"] s assms(1,4) by auto
  then have "length (joined (take b ws)) + length (colons (drop (b + n) ws)) \<le> 30" using assms(3,4) by arith
  moreover have "16 - 2 * (length (take b ws) + length (drop (b + n) ws)) = 2 * n" using assms(1,4) by simp
  ultimately show ?thesis using pton6_gap [OF s] split_words [OF assms(1,5,4)] assms(1,3,4) unfolding e
    by (auto simp: reads_as_def no_nul UV__INET6_ADDRSTRLEN_def)
qed

lemma reads_as_mapped:
  assumes "length ws = 8" and "\<forall>w \<in> set ws. small w" and "n = 5 \<or> n = 6" and "\<forall>j < n. ws ! j = 0"
  shows "reads_as (ch_colon # colons (take (6 - n) (drop n ws)) @ ch_colon # quad_text (drop 12 (words_bytes ws))) (words_bytes ws)"
proof -
  let ?m = "take (6 - n) (drop n ws)" and ?q = "words_bytes (drop 6 ws)"
  have s: "\<forall>w \<in> set ?m. small w" using assms(2) by (auto dest: in_set_takeD in_set_dropD)
  have "drop 6 ws = drop (6 - n) (drop n ws)" using assms(3) by auto
  then have "drop n ws = ?m @ drop 6 ws" by (metis append_take_drop_id)
  then have "words_bytes (drop n ws) = words_bytes ?m @ ?q" by (metis concat_append map_append)
  then have w: "words_bytes ws = replicate (2 * n) 0 @ words_bytes ?m @ ?q"
    using split_words [OF assms(1), of 0 n] assms(3,4) by auto
  have m: "length ?m = 6 - n" using assms(1,3) by auto
  then have q: "drop 12 (words_bytes ws) = ?q" unfolding w using assms(3) by auto
  have "12 - 2 * length ?m = 2 * n" using m assms(3) by auto
  then have "inet_pton6 (ch_colon # colons ?m @ ch_colon # quad_text ?q) = Inr (words_bytes ws)"
    using pton6_mapped [of ?q ?m] s m assms(1,3) unfolding w by auto
  moreover have "length (colons ?m) \<le> 5" using colons_length [OF s] m assms(3) by auto
  ultimately show ?thesis unfolding q using quad_length [of ?q] by (auto simp: reads_as_def no_nul UV__INET6_ADDRSTRLEN_def)
qed

lemma fmt_mapped:
  assumes "run_base best = 0" and "run_len best = int n" and "n = 5 \<or> n = 6" and "embedded best ws 6" and "length ws = 8" and "\<forall>w \<in> set ws. small w"
  shows "fmt_loop 8 best src ws 0 [] = Inr (ch_colon # colons (take (6 - n) (drop n ws)) @ ch_colon # quad_text (drop 12 src))"
proof -
  let ?m = "take (6 - n) (drop n ws)"
  have s: "\<forall>w \<in> set ?m. small w" using assms(6) by (auto dest: in_set_takeD in_set_dropD)
  have "fmt_loop 8 best src ws 0 [] = fmt_loop (8 - n) best src ws n [ch_colon]"
    using fmt_run_start [of best 0 n ws src] assms by auto
  also have "8 - n = (6 - n) + 2" using assms(3) by auto
  also have "fmt_loop ((6 - n) + 2) best src ws n [ch_colon] = fmt_loop 2 best src ws (n + (6 - n)) ([ch_colon] @ colons ?m)"
    using assms by (intro fmt_words) (auto simp: in_run_def embedded_def)
  also have "n + (6 - n) = 6" using assms(3) by auto
  also have "fmt_loop 2 best src ws 6 ([ch_colon] @ colons ?m) = Inr (([ch_colon] @ colons ?m) @ ch_colon # quad_text (drop 12 src))"
    using assms(2,3,5) colons_length [OF s] by (intro fmt_embedded [OF assms(4)]) auto
  finally show ?thesis by simp
qed

text \<open>The text as \<^verbatim>\<open>inet_ntop6\<close> leaves it, with the colon of a run at the end.\<close>

definition closed_text :: "zero_run \<Rightarrow> bytes \<Rightarrow> bytes" where
  "closed_text best tp = (if run_base best \<noteq> - 1 \<and> run_base best + run_len best = 8 then tp @ [ch_colon] else tp)"

lemma fmt_reads_as:
  assumes "length ws = 8" and "\<forall>w \<in> set ws. small w" and "words_bytes ws = src"
  shows "\<exists>tp. fmt_loop 8 (best_run ws) src ws 0 [] = Inr tp \<and> reads_as (closed_text (best_run ws) tp) src"
  using assms(1)
proof (cases rule: best_run_cases)
  case 1
  then show ?thesis using fmt_plain [OF 1 assms(1)] reads_as_plain [OF assms(1,2)] assms(3) by (simp add: closed_text_def)
next
  case (2 b n)
  show ?thesis
  proof (cases "embedded (best_run ws) ws 6 \<and> b + n \<le> 6")
    case True
    then have e: "run_base (best_run ws) = 0" "b = 0" "n = 5 \<or> n = 6" using 2 by (auto simp: embedded_def)
    then have "run_len (best_run ws) \<noteq> 8" "\<forall>j < n. ws ! j = 0" using 2 by auto
    then show ?thesis using fmt_mapped [OF e(1) 2(2) e(3) _ assms(1,2)] reads_as_mapped [OF assms(1,2) e(3)] True e(1) assms(3)
      by (simp add: closed_text_def)
  next
    case False
    have "run_base (best_run ws) + run_len (best_run ws) = 8 \<longleftrightarrow> b + n = 8" using 2(1,2) by linarith
    then show ?thesis using fmt_gap [OF 2(1-4) assms(1) False] reads_as_gap [OF assms(1,2) 2(3-5)] assms(3) 2(1)
      by (cases "b + n = 8") (simp_all add: closed_text_def)
  qed
qed

lemma pton6_ntop6:
  assumes "length src = 16" and "UV__INET6_ADDRSTRLEN \<le> sz" and "sz \<le> length dst"
  obtains t where "inet_ntop6 src dst sz = (0, t @ 0 # drop (length t + 1) dst)" and "reads_as t src"
proof -
  let ?b = "best_run (words_of src)"
  obtain tp where tp: "fmt_loop 8 ?b src (words_of src) 0 [] = Inr tp" "reads_as (closed_text ?b tp) src"
    using fmt_reads_as [OF words_of_props [OF assms(1)]] by blast
  let ?t = "closed_text ?b tp"
  have "uv__strscpy dst ?t sz = (int (length ?t), ?t @ 0 # drop (length ?t + 1) dst)"
    using assms tp(2) by (intro strscpy_ok) (auto simp: reads_as_def UV__INET6_ADDRSTRLEN_def)
  then have "inet_ntop6 src dst sz = (0, ?t @ 0 # drop (length ?t + 1) dst)"
    using tp(1) by (simp add: inet_ntop6_def Let_def closed_text_def [symmetric] UV_E2BIG_def)
  then show ?thesis using that tp(2) by blast
qed

text \<open>The two families.\<close>

definition address_size :: "address_family \<Rightarrow> nat" where
  "address_size af = (case af of AF_INET \<Rightarrow> 4 | AF_INET6 \<Rightarrow> 16 | AF_OTHER \<Rightarrow> 0)"

lemma inet_pton_ntop:
  assumes "af \<noteq> AF_OTHER" and "length src = address_size af" and "UV__INET6_ADDRSTRLEN \<le> sz" and "sz \<le> length dst"
  shows "\<exists>out. uv_inet_ntop af src dst sz = (0, out) \<and> length out = length dst \<and> 0 \<in> set out \<and>
    uv_inet_pton af (Some (takeWhile (\<lambda>c. c \<noteq> 0) out)) True = Inr src"
proof (cases af)
  case AF_INET
  have l: "length (quad_text src) < length dst" using quad_length [of src] assms(3,4) by (simp add: UV__INET6_ADDRSTRLEN_def)
  show ?thesis using ntop4_ok [of sz dst src] assms takeWhile_nul [OF quad_no_nul(1)] pton4_iff [of "quad_text src" src] l
    by (simp add: uv_inet_ntop_def uv_inet_pton_def AF_INET UV__INET6_ADDRSTRLEN_def address_size_def)
next
  case AF_INET6
  obtain t where t: "inet_ntop6 src dst sz = (0, t @ 0 # drop (length t + 1) dst)" "reads_as t src"
    using pton6_ntop6 [of src sz dst] assms AF_INET6 by (auto simp: address_size_def)
  then have p: "length (takeWhile (\<lambda>c. c \<noteq> ch_percent) t) = length t" "0 \<notin> set t" "length t < length dst" "inet_pton6 t = Inr src"
    using assms(3,4) by (auto simp: reads_as_def takeWhile_eq_all_conv intro!: arg_cong [of _ _ length])
  have "uv_inet_pton AF_INET6 (Some t) True = Inr src" unfolding uv_inet_pton_def by (simp add: p Let_def)
  then show ?thesis using t(1) takeWhile_nul [OF p(2)] p(3) by (simp add: uv_inet_ntop_def AF_INET6)
qed (use assms in simp)

section \<open>What the readers accept\<close>

text \<open>The array has sixteen bytes, and the position stays inside it.\<close>

definition pton6_inv :: "pton6_st \<Rightarrow> bool" where
  "pton6_inv st \<longleftrightarrow> length (tmp6 st) = 16 \<and> tp6 st \<le> 16 \<and> (\<forall>c. colonp st = Some c \<longrightarrow> c \<le> tp6 st)"

lemma push_word_inv: "pton6_inv st \<Longrightarrow> tp6 st + 2 \<le> 16 \<Longrightarrow> pton6_inv (push_word st)"
  by (auto simp: pton6_inv_def push_word_def)

lemma pton6_loop_inv: "pton6_loop s st = Inr st' \<Longrightarrow> pton6_inv st \<Longrightarrow> pton6_inv st'"
proof (induction s st rule: pton6_loop.induct)
  case (2 ch src st)
  note IH = 2(1-3) and run = 2(4) and inv = 2(5)
  show ?case
  proof (cases "hex_value ch")
    case (Some x)
    then show ?thesis using IH(3) [OF Some refl] run inv by (auto simp: pton6_inv_def Let_def split: if_splits)
  next
    case None
    show ?thesis
    proof (cases "ch = ch_colon")
      case True
      let ?st = "st\<lparr>curtok := src\<rparr>"
      have i: "pton6_inv ?st" "pton6_inv (?st\<lparr>colonp := Some (tp6 st)\<rparr>)" using inv by (auto simp: pton6_inv_def)
      have "tp6 st + 2 \<le> 16 \<Longrightarrow> pton6_inv ((push_word ?st)\<lparr>seen_xdigits := 0, val6 := 0\<rparr>)"
        using push_word_inv [OF i(1)] by (simp add: pton6_inv_def)
      then show ?thesis using IH(1,2) [OF None True refl] i run None True by (auto simp: Let_def split: if_splits)
    next
      case False
      then show ?thesis using run inv None pton4_iff by (fastforce simp: pton6_inv_def split: if_splits sum.splits)
    qed
  qed
qed simp

lemma shift_loop_length [simp]: "length (shift_loop k c n i tmp) = length tmp"
  by (induction k arbitrary: i tmp) simp_all

lemma pton6_length:
  assumes "inet_pton6 s = Inr bs"
  shows "length bs = 16"
proof -
  obtain t st where st: "pton6_loop t (state6 [] None 0 0 t) = Inr st" "pton6_finish st = Inr bs"
    using assms by (auto simp: inet_pton6_def state6_def Let_def split: if_splits sum.splits)
  have "pton6_inv st" using pton6_loop_inv [OF st(1)] by (simp add: pton6_inv_def)
  then show ?thesis using st(2) push_word_inv [of st]
    by (auto simp: pton6_finish_def pton6_inv_def Let_def split: if_splits option.splits)
qed

lemma pton_size: "uv_inet_pton af src dst = Inr bs \<Longrightarrow> length bs = address_size af"
  using pton4_iff pton6_length by (cases af) (auto simp: uv_inet_pton_def address_size_def Let_def split: option.splits if_splits)

end
