(* ===== verification/ASN1Str.thy ===== *)
theory ASN1Str
  imports Unicode
begin

unbundle bit_operations_syntax

text \<open>
  ASN.1 strings: \<^verbatim>\<open>ASN1_STRING_set\<close> and \<^verbatim>\<open>ASN1_STRING_type_new\<close> of \<^verbatim>\<open>crypto/asn1/asn1_lib.c\<close>,
  \<^verbatim>\<open>ASN1_mbstring_ncopy\<close> of \<^verbatim>\<open>a_mbstr.c\<close> and \<^verbatim>\<open>ASN1_STRING_to_UTF8\<close> of \<^verbatim>\<open>a_strex.c\<close>, on top of the
  readers and writers of \<open>Unicode\<close> and the builder of \<open>CBB\<close>.

  A string's \<^verbatim>\<open>data\<close> is the block it points to, of which the first \<^verbatim>\<open>length\<close> bytes are its contents.
  \<open>None\<close> as the result of an operation stands for undefined behaviour: a length that overflows
  \<^verbatim>\<open>int\<close> or a read past the input.
  \<^item> \<open>mb_scan_text\<close>: the first loop decodes the input and narrows the mask to the types that can hold it.
  \<^item> \<open>mb_choose_first\<close>: the type chosen is the first of the mask, in the order of the code.
  \<^item> \<open>mbstring_sound\<close>, \<open>mbstring_complete\<close>: the result holds the characters of the input in the first type of
    the mask that can represent them all, and the conversion fails only for the reasons named.
  \<^item> \<open>to_UTF8_text\<close>: conversion to UTF-8 keeps the characters of a string.
\<close>

section \<open>Strings\<close>

record asn1_string =
  slen :: nat
  stype :: int
  sdata :: "bytes option"
  sflags :: int

definition sizeof_ASN1_STRING :: nat where "sizeof_ASN1_STRING = 24"

definition INT_MAX_asn1 :: int where "INT_MAX_asn1 = 2 ^ 31 - 1"

definition V_ASN1_OCTET_STRING :: int where "V_ASN1_OCTET_STRING = 4"
definition V_ASN1_UTF8STRING :: int where "V_ASN1_UTF8STRING = 12"
definition V_ASN1_PRINTABLESTRING :: int where "V_ASN1_PRINTABLESTRING = 19"
definition V_ASN1_T61STRING :: int where "V_ASN1_T61STRING = 20"
definition V_ASN1_IA5STRING :: int where "V_ASN1_IA5STRING = 22"
definition V_ASN1_UNIVERSALSTRING :: int where "V_ASN1_UNIVERSALSTRING = 28"
definition V_ASN1_BMPSTRING :: int where "V_ASN1_BMPSTRING = 30"

definition ASN1_STRING_type_new :: "alloc_env \<Rightarrow> int \<Rightarrow> asn1_string option" where
  "ASN1_STRING_type_new E ty =
     (case OPENSSL_malloc E sizeof_ASN1_STRING of
        None \<Rightarrow> None
      | Some _ \<Rightarrow> Some \<lparr>slen = 0, stype = ty, sdata = None, sflags = 0\<rparr>)"

text \<open>The length a negative \<^verbatim>\<open>len\<close> stands for.\<close>

definition c_len :: "bytes \<Rightarrow> int \<Rightarrow> nat option" where
  "c_len data len =
     (if len < 0 then c_strlen data else if nat len \<le> length data then Some (nat len) else None)"

definition ASN1_STRING_set :: "alloc_env \<Rightarrow> asn1_string \<Rightarrow> bytes option \<Rightarrow> int \<Rightarrow> (bool \<times> asn1_string) option" where
  "ASN1_STRING_set E str data len =
     (if len < 0 \<and> data = None then Some (False, str)
      else
        case (case data of None \<Rightarrow> Some (nat len) | Some d \<Rightarrow> c_len d len) of
          None \<Rightarrow> None
        | Some n \<Rightarrow>
            if int n \<ge> INT_MAX_asn1 then None
            else
              let blk = (if slen str \<le> n \<or> sdata str = None then OPENSSL_realloc E (sdata str) (n + 1) else sdata str)
              in case blk of
                   None \<Rightarrow> Some (False, str)
                 | Some d \<Rightarrow>
                     Some (True, str\<lparr>slen := n,
                       sdata := Some (case data of None \<Rightarrow> d | Some src \<Rightarrow> (take n src @ drop n d)[n := 0])\<rparr>))"

section \<open>Conversion between encodings\<close>

datatype mbstring = MBSTRING_UTF8 | MBSTRING_ASC | MBSTRING_BMP | MBSTRING_UNIV

definition MBSTRING_FLAG :: int where "MBSTRING_FLAG = 0x1000"

definition mbstring_of :: "int \<Rightarrow> mbstring option" where
  "mbstring_of inform =
     (if inform = MBSTRING_FLAG + 2 then Some MBSTRING_BMP
      else if inform = MBSTRING_FLAG + 4 then Some MBSTRING_UNIV
      else if inform = MBSTRING_FLAG then Some MBSTRING_UTF8
      else if inform = MBSTRING_FLAG + 1 then Some MBSTRING_ASC
      else None)"

definition B_ASN1_PRINTABLESTRING :: u64 where "B_ASN1_PRINTABLESTRING = 0x0002"
definition B_ASN1_T61STRING :: u64 where "B_ASN1_T61STRING = 0x0004"
definition B_ASN1_IA5STRING :: u64 where "B_ASN1_IA5STRING = 0x0010"
definition B_ASN1_UNIVERSALSTRING :: u64 where "B_ASN1_UNIVERSALSTRING = 0x0100"
definition B_ASN1_BMPSTRING :: u64 where "B_ASN1_BMPSTRING = 0x0800"
definition B_ASN1_UTF8STRING :: u64 where "B_ASN1_UTF8STRING = 0x2000"

definition DIRSTRING_TYPE :: u64 where
  "DIRSTRING_TYPE = B_ASN1_PRINTABLESTRING OR B_ASN1_T61STRING OR B_ASN1_BMPSTRING OR B_ASN1_UTF8STRING"

definition asn1_is_printable :: "u32 \<Rightarrow> bool" where
  "asn1_is_printable v =
     (if v > 0x7f then False
      else (0x61 \<le> v \<and> v \<le> 0x7a) \<or> (0x41 \<le> v \<and> v \<le> 0x5a) \<or> (0x30 \<le> v \<and> v \<le> 0x39) \<or>
        v = 0x20 \<or> v = 0x27 \<or> v = 0x28 \<or> v = 0x29 \<or> v = 0x2b \<or> v = 0x2c \<or> v = 0x2d \<or> v = 0x2e \<or>
        v = 0x2f \<or> v = 0x3a \<or> v = 0x3d \<or> v = 0x3f)"

primrec decode_func :: "mbstring \<Rightarrow> u32 reader" where
  "decode_func MBSTRING_BMP = cbs_get_ucs2_be"
| "decode_func MBSTRING_UNIV = cbs_get_utf32_be"
| "decode_func MBSTRING_UTF8 = cbs_get_utf8"
| "decode_func MBSTRING_ASC = cbs_get_latin1"

primrec encode_func :: "mbstring \<Rightarrow> alloc_env \<Rightarrow> nat \<Rightarrow> u32 \<Rightarrow> cbb_op" where
  "encode_func MBSTRING_BMP E d c = cbb_add_ucs2_be E d c"
| "encode_func MBSTRING_UNIV E d c = cbb_add_utf32_be E d c"
| "encode_func MBSTRING_UTF8 E d c = cbb_add_utf8 E d c"
| "encode_func MBSTRING_ASC E d c = cbb_add_latin1 E d c"

text \<open>Update which output formats are still possible.\<close>

definition mb_clear :: "u64 \<Rightarrow> bool \<Rightarrow> u64 \<Rightarrow> u64" where
  "mb_clear flag bad msk = (if msk AND flag \<noteq> 0 \<and> bad then msk AND NOT flag else msk)"

definition mb_narrow :: "u64 \<Rightarrow> u32 \<Rightarrow> u64" where
  "mb_narrow msk c =
     mb_clear B_ASN1_BMPSTRING (c > 0xffff)
       (mb_clear B_ASN1_T61STRING (c > 0xff)
         (mb_clear B_ASN1_IA5STRING (c > 127)
           (mb_clear B_ASN1_PRINTABLESTRING (\<not> asn1_is_printable c) msk)))"

text \<open>What each decoder accepts: the bytes of a valid character.\<close>

primrec mb_valid :: "mbstring \<Rightarrow> u32 \<Rightarrow> bool" where
  "mb_valid MBSTRING_BMP c = (c \<le> 0xffff \<and> text_char c)"
| "mb_valid MBSTRING_UNIV c = text_char c"
| "mb_valid MBSTRING_UTF8 c = text_char c"
| "mb_valid MBSTRING_ASC c = (c \<le> 0xff)"

declare is_valid_code_point_iff [symmetric, simp]

primrec mb_bytes :: "mbstring \<Rightarrow> u32 \<Rightarrow> bytes" where
  "mb_bytes MBSTRING_BMP c = be_bytes 2 (unat c)"
| "mb_bytes MBSTRING_UNIV c = be_bytes 4 (unat c)"
| "mb_bytes MBSTRING_UTF8 c = utf8 (unat c)"
| "mb_bytes MBSTRING_ASC c = [ucast c]"

lemma get_be_iff:
  fixes dec :: "'a::len word reader"
  assumes "\<And>v rest. dec (be_bytes n (unat v) @ rest) = (Some v, rest)" and "\<And>s. length s < n \<Longrightarrow> fst (dec s) = None"
    and "2 ^ LENGTH('a) = (256 :: nat) ^ n"
  shows "dec s = (Some v, t) \<longleftrightarrow> s = be_bytes n (unat v) @ t"
proof
  assume d: "dec s = (Some v, t)"
  then have n: "n \<le> length s" using assms(2) [of s] by (cases "length s < n") auto
  let ?w = "of_nat (be_nat (take n s)) :: 'a word"
  have "be_nat (take n s) < 256 ^ n" using be_nat_lt [of "take n s"] n by simp
  then have "unat ?w = be_nat (take n s)" unfolding assms(3) [symmetric] by (simp add: unat_of_nat)
  then have s: "s = be_bytes n (unat ?w) @ drop n s" using be_bytes_be_nat [of "take n s"] n by simp
  from assms(1) [of ?w "drop n s"] d show "s = be_bytes n (unat v) @ t" unfolding s [symmetric] using s by simp
qed (use assms(1) in simp)

lemma get_u16_iff: "CBS_get_u16 s = (Some v, t) \<longleftrightarrow> s = be_bytes 2 (unat v) @ t"
proof (rule get_be_iff)
  show "CBS_get_u16 (be_bytes 2 (unat v) @ rest) = (Some v, rest)" for v rest by (rule u16.dec_enc) simp
qed (simp_all add: CBS_get_u16_def cbs_get_u_def rbind_def cbs_get_def)

lemma get_u32_iff: "CBS_get_u32 s = (Some v, t) \<longleftrightarrow> s = be_bytes 4 (unat v) @ t"
proof (rule get_be_iff)
  show "CBS_get_u32 (be_bytes 4 (unat v) @ rest) = (Some v, rest)" for v rest by (rule u32.dec_enc) simp
qed (simp_all add: CBS_get_u32_def cbs_get_u_def rbind_def cbs_get_def)

lemma decode_ucs2_iff: "cbs_get_ucs2_be s = (Some c, t) \<longleftrightarrow> c \<le> 0xffff \<and> is_valid_code_point c \<and> s = be_bytes 2 (unat c) @ t"
proof
  assume "cbs_get_ucs2_be s = (Some c, t)"
  then obtain v :: u16 and s' where "CBS_get_u16 s = (Some v, s')" "(if \<not> is_valid_code_point (ucast v) then rfail else rret (ucast v)) s' = (Some c, t)"
    unfolding cbs_get_ucs2_be_def rbind_eq_Some by blast
  then have v: "CBS_get_u16 s = (Some v, t)" "is_valid_code_point (ucast v)" "c = ucast v"
    by (simp_all add: rret_def rfail_def split: if_split_asm)
  have "unat c = unat v" unfolding v(3) by (rule unat_ucast_up) simp
  moreover have "unat v < 65536" using unsigned_less [of v, where 'a = nat] by simp
  ultimately show "c \<le> 0xffff \<and> is_valid_code_point c \<and> s = be_bytes 2 (unat c) @ t" using v by (simp only: get_u16_iff word_le_nat_alt) simp
qed (use ucs2_be.dec_enc in blast)

lemma decode_latin1_iff: "cbs_get_latin1 s = (Some c, t) \<longleftrightarrow> c \<le> 0xff \<and> s = [ucast c] @ t"
proof
  assume "cbs_get_latin1 s = (Some c, t)"
  then obtain b :: u8 where b: "s = b # t" "c = ucast b"
    by (cases s) (auto simp: cbs_get_latin1_def CBS_get_u8_def rbind_def cbs_get_def rret_def)
  moreover have "unat c = unat b" unfolding b(2) by (rule unat_ucast_up) simp
  moreover have "unat b \<le> 255" using unat_u8_lt [of b] by linarith
  ultimately show "c \<le> 0xff \<and> s = [ucast c] @ t" by (simp add: word_le_nat_alt)
qed (use latin1.dec_enc in blast)

lemma decode_func_iff: "decode_func form s = (Some c, t) \<longleftrightarrow> mb_valid form c \<and> s = mb_bytes form c @ t"
proof (cases form)
  case MBSTRING_UNIV
  then show ?thesis using utf32_be.dec_enc
    by (auto simp: cbs_get_utf32_be_def rbind_eq_Some get_u32_iff rret_def rfail_def split: if_splits)
qed (simp_all add: cbs_get_utf8_iff decode_ucs2_iff decode_latin1_iff)

lemma mb_bytes_nonempty [simp]: "mb_bytes form c \<noteq> []"
  by (cases form) (auto simp: utf8_def be_bytes_numeral)

lemma decode_func_shorter: "decode_func form s = (Some c, t) \<Longrightarrow> length t < length s"
  by (auto simp: decode_func_iff)

function mb_scan :: "mbstring \<Rightarrow> bytes \<Rightarrow> u64 \<Rightarrow> nat \<Rightarrow> nat \<Rightarrow> (u64 \<times> nat \<times> nat) option" where
  "mb_scan form cbs msk nchar utf8_len =
     (if cbs = [] then Some (msk, nchar, utf8_len)
      else
        case decode_func form cbs of
          (None, _) \<Rightarrow> None
        | (Some c, cbs') \<Rightarrow>
            if nchar = 0 \<and> (form = MBSTRING_BMP \<or> form = MBSTRING_UNIV) \<and> c = 0xfeff then None
            else if mb_narrow msk c = 0 then None
            else mb_scan form cbs' (mb_narrow msk c) (nchar + 1) (utf8_len + cbb_get_utf8_len c))"
  by pat_completeness auto
termination
  by (relation "measure (\<lambda>(form, cbs, _). length cbs)") (auto dest: decode_func_shorter [OF sym])

declare mb_scan.simps [simp del]

text \<open>The type, its encoding and the size estimate.\<close>

definition mb_choose :: "u64 \<Rightarrow> nat \<Rightarrow> nat \<Rightarrow> (int \<times> mbstring \<times> nat) option" where
  "mb_choose msk nchar utf8_len =
     (if msk AND B_ASN1_PRINTABLESTRING \<noteq> 0 then Some (V_ASN1_PRINTABLESTRING, MBSTRING_ASC, nchar)
      else if msk AND B_ASN1_IA5STRING \<noteq> 0 then Some (V_ASN1_IA5STRING, MBSTRING_ASC, nchar)
      else if msk AND B_ASN1_T61STRING \<noteq> 0 then Some (V_ASN1_T61STRING, MBSTRING_ASC, nchar)
      else if msk AND B_ASN1_BMPSTRING \<noteq> 0 then Some (V_ASN1_BMPSTRING, MBSTRING_BMP, 2 * nchar)
      else if msk AND B_ASN1_UNIVERSALSTRING \<noteq> 0 then Some (V_ASN1_UNIVERSALSTRING, MBSTRING_UNIV, 4 * nchar)
      else if msk AND B_ASN1_UTF8STRING \<noteq> 0 then Some (V_ASN1_UTF8STRING, MBSTRING_UTF8, utf8_len)
      else None)"

text \<open>The second loop, on the \<^verbatim>\<open>CBB\<close> at depth \<open>d\<close>.\<close>

function mb_encode :: "alloc_env \<Rightarrow> nat \<Rightarrow> mbstring \<Rightarrow> mbstring \<Rightarrow> bytes \<Rightarrow> cbb_op" where
  "mb_encode E d form outform cbs cbb =
     (if cbs = [] then (True, cbb)
      else
        case decode_func form cbs of
          (None, _) \<Rightarrow> (False, cbb)
        | (Some c, cbs') \<Rightarrow>
            (case encode_func outform E d c cbb of
               (False, cbb) \<Rightarrow> (False, cbb)
             | (True, cbb) \<Rightarrow> mb_encode E d form outform cbs' cbb))"
  by pat_completeness auto
termination
  by (relation "measure (\<lambda>(E, d, form, outform, cbs, _). length cbs)") (auto dest: decode_func_shorter [OF sym])

declare mb_encode.simps [simp del]

text \<open>
  \<^verbatim>\<open>ASN1_mbstring_ncopy\<close>: \<open>out\<close> is \<open>None\<close> for a null \<^verbatim>\<open>out\<close>, \<open>Some None\<close> for a null \<^verbatim>\<open>*out\<close>.  The result is
  the returned value with the string \<^verbatim>\<open>*out\<close> refers to; when the call frees a string it made, \<^verbatim>\<open>*out\<close> is
  left with an address that is no longer a string's, here \<open>None\<close>.
\<close>

definition mb_dest :: "alloc_env \<Rightarrow> asn1_string option \<Rightarrow> int \<Rightarrow> asn1_string option" where
  "mb_dest E out str_type =
     (case out of
        Some dest \<Rightarrow> Some (if sdata dest \<noteq> None then dest\<lparr>slen := 0, sdata := None, stype := str_type\<rparr> else dest\<lparr>stype := str_type\<rparr>)
      | None \<Rightarrow> ASN1_STRING_type_new E str_type)"

definition mb_convert :: "alloc_env \<Rightarrow> mbstring \<Rightarrow> mbstring \<Rightarrow> bytes \<Rightarrow> nat \<Rightarrow> (bytes \<times> nat) option" where
  "mb_convert E form outform inp size_estimate =
     (case CBB_init E (size_estimate + 1) of
        (False, _) \<Rightarrow> None
      | (True, cbb) \<Rightarrow>
          (case andalso (mb_encode E 0 form outform inp) (CBB_add_u8 E 0 0) cbb of
             (False, _) \<Rightarrow> None
           | (True, cbb) \<Rightarrow>
               (case CBB_finish E 0 True True cbb of
                  (None, _) \<Rightarrow> None
                | (Some (data, data_len), _) \<Rightarrow>
                    if data_len < 1 \<or> int data_len > INT_MAX_asn1 then None else Some (data, data_len))))"

definition mb_store ::
    "alloc_env \<Rightarrow> asn1_string option \<Rightarrow> bytes option \<Rightarrow> bytes \<Rightarrow> mbstring \<Rightarrow> mbstring \<Rightarrow> int \<Rightarrow> nat \<Rightarrow> (int \<times> asn1_string option option) option" where
  "mb_store E dst src inp form outform str_type size_estimate =
     (case mb_dest E dst str_type of
        None \<Rightarrow> Some (- 1, Some None)
      | Some dest \<Rightarrow>
          if form = outform then
            case ASN1_STRING_set E dest src (int (length inp)) of
              None \<Rightarrow> None
            | Some (ok, dest) \<Rightarrow> Some (if ok then str_type else - 1, Some (Some dest))
          else
            case mb_convert E form outform inp size_estimate of
              None \<Rightarrow> Some (- 1, Some (if dst = None then None else Some dest))
            | Some (data, data_len) \<Rightarrow> Some (str_type, Some (Some (dest\<lparr>slen := data_len - 1, sdata := Some data\<rparr>))))"

definition ASN1_mbstring_ncopy ::
    "alloc_env \<Rightarrow> asn1_string option option \<Rightarrow> bytes option \<Rightarrow> int \<Rightarrow> int \<Rightarrow> u64 \<Rightarrow> int \<Rightarrow> int \<Rightarrow> (int \<times> asn1_string option option) option" where
  "ASN1_mbstring_ncopy E out src len inform msk minsize maxsize =
     (case (if len < - 1 then None else case src of None \<Rightarrow> if len = 0 then Some 0 else None | Some d \<Rightarrow> c_len d len) of
        None \<Rightarrow> None
      | Some n \<Rightarrow>
          let msk = (if msk = 0 then DIRSTRING_TYPE else msk); inp = (case src of None \<Rightarrow> [] | Some d \<Rightarrow> take n d) in
          case mbstring_of inform of
            None \<Rightarrow> Some (- 1, out)
          | Some form \<Rightarrow>
              (case mb_scan form inp msk 0 0 of
                 None \<Rightarrow> Some (- 1, out)
               | Some (msk, nchar, utf8_len) \<Rightarrow>
                   if minsize > 0 \<and> int nchar < minsize then Some (- 1, out)
                   else if maxsize > 0 \<and> int nchar > maxsize then Some (- 1, out)
                   else
                     case mb_choose msk nchar utf8_len of
                       None \<Rightarrow> Some (- 1, out)
                     | Some (str_type, outform, size_estimate) \<Rightarrow>
                         (case out of
                            None \<Rightarrow> Some (str_type, None)
                          | Some dst \<Rightarrow> mb_store E dst src inp form outform str_type size_estimate)))"

definition ASN1_mbstring_copy ::
    "alloc_env \<Rightarrow> asn1_string option option \<Rightarrow> bytes option \<Rightarrow> int \<Rightarrow> int \<Rightarrow> u64 \<Rightarrow> (int \<times> asn1_string option option) option" where
  "ASN1_mbstring_copy E out inp len inform msk = ASN1_mbstring_ncopy E out inp len inform msk 0 0"

definition tag2nbyte :: "int list" where
  "tag2nbyte = [- 1, - 1, - 1, - 1, - 1, - 1, - 1, - 1, - 1, - 1, - 1, - 1, 0, - 1, - 1, - 1, - 1, - 1, 1, 1, 1, - 1, 1, 1, 1, - 1, 1, - 1, 4, - 1, 2]"

text \<open>The bytes and the length of the UTF-8 string, or the negative result.\<close>

definition ASN1_STRING_to_UTF8 :: "alloc_env \<Rightarrow> asn1_string \<Rightarrow> (int \<times> bytes option) option" where
  "ASN1_STRING_to_UTF8 E inp =
     (if stype inp < 0 \<or> stype inp > 30 then Some (- 1, None)
      else
        let mbflag = tag2nbyte ! nat (stype inp) in
        if mbflag = - 1 then Some (- 1, None)
        else
          case ASN1_mbstring_copy E (Some (Some \<lparr>slen = 0, stype = 0, sdata = None, sflags = 0\<rparr>))
                 (sdata inp) (int (slen inp)) (mbflag + MBSTRING_FLAG) B_ASN1_UTF8STRING of
            None \<Rightarrow> None
          | Some (ret, out) \<Rightarrow>
              if ret < 0 then Some (ret, None)
              else
                case out of
                  Some (Some stmp) \<Rightarrow> Some (int (slen stmp), sdata stmp)
                | _ \<Rightarrow> None)"

section \<open>The first loop\<close>

definition mb_text :: "mbstring \<Rightarrow> u32 list \<Rightarrow> bytes" where
  "mb_text form cs = concat (map (mb_bytes form) cs)"

lemma mb_text_simps [simp]: "mb_text form [] = []" "mb_text form (c # cs) = mb_bytes form c @ mb_text form cs"
  by (simp_all add: mb_text_def)

abbreviation valid_text :: "mbstring \<Rightarrow> u32 list \<Rightarrow> bool" where
  "valid_text form cs \<equiv> \<forall>c \<in> set cs. mb_valid form c"

definition narrowed :: "u64 \<Rightarrow> u32 list \<Rightarrow> u64" where
  "narrowed msk cs = fold (\<lambda>c m. mb_narrow m c) cs msk"

text \<open>A byte-order mark at the start of a text in a form that has one.\<close>

definition has_bom :: "mbstring \<Rightarrow> u32 list \<Rightarrow> bool" where
  "has_bom form cs \<longleftrightarrow> (form = MBSTRING_BMP \<or> form = MBSTRING_UNIV) \<and> cs \<noteq> [] \<and> hd cs = 0xfeff"

lemma mb_narrow_0 [simp]: "mb_narrow 0 c = 0"
  by (simp add: mb_narrow_def mb_clear_def)

lemma narrowed_simps [simp]: "narrowed msk [] = msk" "narrowed msk (c # cs) = narrowed (mb_narrow msk c) cs"
  by (simp_all add: narrowed_def)

lemma narrowed_0 [simp]: "narrowed 0 cs = 0"
  by (induction cs) simp_all

lemma latin1_valid: "c \<le> 0xff \<Longrightarrow> is_valid_code_point c"
proof -
  assume c: "c \<le> 0xff"
  have "c AND 0xfffe \<le> c" by (rule word_and_le2)
  with c have "c AND 0xfffe \<le> 0xff" by (rule order_trans [rotated])
  then have "c AND 0xfffe \<noteq> 0xfffe" by auto
  moreover have "c \<le> 0x10ffff" "c < 0xfdd0" "c < 0xd800" using c by (simp_all add: word_le_nat_alt word_less_nat_alt)
  ultimately show ?thesis by (simp add: is_valid_code_point_def not_less [symmetric])
qed

lemma mb_valid_code_point: "mb_valid form c \<Longrightarrow> is_valid_code_point c"
  using latin1_valid by (cases form) simp_all

lemma mb_scan_text:
  assumes "valid_text form cs" and "n \<noteq> 0 \<or> \<not> has_bom form cs"
  shows "mb_scan form (mb_text form cs) msk n u =
    (if cs \<noteq> [] \<and> narrowed msk cs = 0 then None else Some (narrowed msk cs, n + length cs, u + length (mb_text MBSTRING_UTF8 cs)))"
  using assms
proof (induction cs arbitrary: msk n u)
  case Nil
  show ?case by (subst mb_scan.simps) simp
next
  case (Cons c cs)
  have d: "decode_func form (mb_text form (c # cs)) = (Some c, mb_text form cs)" using Cons.prems(1) by (simp add: decode_func_iff)
  have "\<not> (n = 0 \<and> (form = MBSTRING_BMP \<or> form = MBSTRING_UNIV) \<and> c = 0xfeff)" using Cons.prems(2) by (auto simp: has_bom_def)
  then have "mb_scan form (mb_text form (c # cs)) msk n u =
    (if mb_narrow msk c = 0 then None else mb_scan form (mb_text form cs) (mb_narrow msk c) (n + 1) (u + cbb_get_utf8_len c))"
    using d by (subst mb_scan.simps) auto
  moreover have "length (utf8 (unat c)) = cbb_get_utf8_len c" using Cons.prems(1) by (intro length_utf8 mb_valid_code_point [of form]) simp
  ultimately show ?case using Cons.IH [of "n + 1"] Cons.prems(1) by (cases cs) (auto simp: add.assoc)
qed

lemma mb_scan_bom: "valid_text form cs \<Longrightarrow> has_bom form cs \<Longrightarrow> mb_scan form (mb_text form cs) msk 0 u = None"
proof -
  assume v: "valid_text form cs" "has_bom form cs"
  then obtain cs' where cs: "cs = 0xfeff # cs'" by (cases cs) (auto simp: has_bom_def)
  have "decode_func form (mb_text form cs) = (Some 0xfeff, mb_text form cs')" using v(1) by (simp add: decode_func_iff cs)
  then show ?thesis using v(2) cs by (subst mb_scan.simps) (auto simp: has_bom_def)
qed

lemma mb_scan_Some: "mb_scan form s msk n u = Some r \<Longrightarrow> \<exists>cs. valid_text form cs \<and> s = mb_text form cs"
proof (induction form s msk n u rule: mb_scan.induct)
  case (1 form s msk n u)
  show ?case
  proof (cases "s = []")
    case False
    then obtain c t where d: "decode_func form s = (Some c, t)" and r: "mb_scan form t (mb_narrow msk c) (n + 1) (u + cbb_get_utf8_len c) = Some r"
      and n: "\<not> (n = 0 \<and> (form = MBSTRING_BMP \<or> form = MBSTRING_UNIV) \<and> c = 0xfeff)" "mb_narrow msk c \<noteq> 0"
      using 1(2) by (subst (asm) mb_scan.simps) (auto split: prod.splits option.splits if_splits)
    from 1(1) [OF False d [symmetric] refl n r] obtain cs where "valid_text form cs" "t = mb_text form cs" by blast
    then have "valid_text form (c # cs) \<and> s = mb_text form (c # cs)" using d by (simp add: decode_func_iff)
    then show ?thesis by blast
  qed (auto intro: exI [of _ "[]"])
qed

section \<open>The choice of a type\<close>

lemma mb_flag_bits: "B_ASN1_PRINTABLESTRING = 2 ^ 1" "B_ASN1_T61STRING = 2 ^ 2" "B_ASN1_IA5STRING = 2 ^ 4"
  "B_ASN1_UNIVERSALSTRING = 2 ^ 8" "B_ASN1_BMPSTRING = 2 ^ 11" "B_ASN1_UTF8STRING = 2 ^ 13"
  by (simp_all add: B_ASN1_PRINTABLESTRING_def B_ASN1_T61STRING_def B_ASN1_IA5STRING_def B_ASN1_UNIVERSALSTRING_def B_ASN1_BMPSTRING_def B_ASN1_UTF8STRING_def)

lemma flag_iff: "msk AND 2 ^ k = 0 \<longleftrightarrow> \<not> bit (msk :: u64) k"
  by (rule and_exp_eq_0_iff_not_bit)

lemma flag_test:
  "msk AND B_ASN1_PRINTABLESTRING = 0 \<longleftrightarrow> \<not> bit msk 1" "msk AND B_ASN1_T61STRING = 0 \<longleftrightarrow> \<not> bit msk 2"
  "msk AND B_ASN1_IA5STRING = 0 \<longleftrightarrow> \<not> bit msk 4" "msk AND B_ASN1_UNIVERSALSTRING = 0 \<longleftrightarrow> \<not> bit msk 8"
  "msk AND B_ASN1_BMPSTRING = 0 \<longleftrightarrow> \<not> bit msk 11" "msk AND B_ASN1_UTF8STRING = 0 \<longleftrightarrow> \<not> bit msk 13"
  unfolding mb_flag_bits by (rule flag_iff)+

lemma bit_clear: "bit (mb_clear (2 ^ k) bad msk) j \<longleftrightarrow> bit msk j \<and> \<not> (j = k \<and> bad)"
  using bit_imp_le_length [of msk j] by (auto simp: mb_clear_def flag_iff bit_simps)

lemma bit_clears:
  "bit (mb_clear B_ASN1_PRINTABLESTRING bad msk) j \<longleftrightarrow> bit msk j \<and> \<not> (j = 1 \<and> bad)"
  "bit (mb_clear B_ASN1_T61STRING bad msk) j \<longleftrightarrow> bit msk j \<and> \<not> (j = 2 \<and> bad)"
  "bit (mb_clear B_ASN1_IA5STRING bad msk) j \<longleftrightarrow> bit msk j \<and> \<not> (j = 4 \<and> bad)"
  "bit (mb_clear B_ASN1_BMPSTRING bad msk) j \<longleftrightarrow> bit msk j \<and> \<not> (j = 11 \<and> bad)"
  unfolding mb_flag_bits by (rule bit_clear)+

text \<open>The characters a type can represent, by its bit in the mask.\<close>

definition holds :: "nat \<Rightarrow> u32 \<Rightarrow> bool" where
  "holds k c \<longleftrightarrow> (k = 1 \<longrightarrow> asn1_is_printable c) \<and> (k = 4 \<longrightarrow> c \<le> 127) \<and> (k = 2 \<longrightarrow> c \<le> 0xff) \<and> (k = 11 \<longrightarrow> c \<le> 0xffff)"

lemma bit_narrow: "bit (mb_narrow msk c) j \<longleftrightarrow> bit msk j \<and> holds j c"
  by (auto simp: mb_narrow_def bit_clears holds_def not_less)

lemma bit_narrowed: "bit (narrowed msk cs) j \<longleftrightarrow> bit msk j \<and> (\<forall>c \<in> set cs. holds j c)"
  by (induction cs arbitrary: msk) (auto simp: bit_narrow)

text \<open>The types in the order of preference, with their bits and encodings.\<close>

definition mb_types :: "(nat \<times> int \<times> mbstring) list" where
  "mb_types = [(1, V_ASN1_PRINTABLESTRING, MBSTRING_ASC), (4, V_ASN1_IA5STRING, MBSTRING_ASC), (2, V_ASN1_T61STRING, MBSTRING_ASC),
     (11, V_ASN1_BMPSTRING, MBSTRING_BMP), (8, V_ASN1_UNIVERSALSTRING, MBSTRING_UNIV), (13, V_ASN1_UTF8STRING, MBSTRING_UTF8)]"

text \<open>The first type of the mask that can represent every character.\<close>

definition first_type :: "u64 \<Rightarrow> u32 list \<Rightarrow> (int \<times> mbstring) option" where
  "first_type msk cs = map_option snd (find (\<lambda>(k, _). bit msk k \<and> list_all (holds k) cs) mb_types)"

lemma length_mb_text:
  "length (mb_text MBSTRING_ASC cs) = length cs" "length (mb_text MBSTRING_BMP cs) = 2 * length cs" "length (mb_text MBSTRING_UNIV cs) = 4 * length cs"
  by (induction cs) (simp_all add: be_bytes_numeral)

lemma mb_choose_first:
  "mb_choose (narrowed msk cs) (length cs) (length (mb_text MBSTRING_UTF8 cs)) =
     map_option (\<lambda>(ty, form). (ty, form, length (mb_text form cs))) (first_type msk cs)"
  by (simp add: mb_choose_def flag_test bit_narrowed first_type_def mb_types_def list_all_iff length_mb_text)

lemma ascii_printable: "asn1_is_printable c \<Longrightarrow> c \<le> 0x7f"
  by (simp add: asn1_is_printable_def not_less split: if_splits)

lemma first_type_valid:
  assumes "first_type msk cs = Some (ty, outform)" and "valid_text form cs"
  shows "valid_text outform cs" and "0 \<le> ty"
proof -
  have "outform = MBSTRING_ASC \<Longrightarrow> \<forall>c \<in> set cs. c \<le> 0xff" "outform = MBSTRING_BMP \<Longrightarrow> \<forall>c \<in> set cs. c \<le> 0xffff"
    using assms(1) by (auto simp: first_type_def mb_types_def holds_def list_all_iff split: if_splits dest!: bspec ascii_printable intro: order_trans)
  then show "valid_text outform cs" using assms(2) mb_valid_code_point by (cases outform) auto
  show "0 \<le> ty" using assms(1) by (auto simp: first_type_def mb_types_def V_ASN1_PRINTABLESTRING_def V_ASN1_IA5STRING_def V_ASN1_T61STRING_def
    V_ASN1_BMPSTRING_def V_ASN1_UNIVERSALSTRING_def V_ASN1_UTF8STRING_def split: if_splits)
qed

section \<open>The second loop\<close>

lemma encode_func_writer:
  assumes "mb_valid form c"
  shows "cbb_writer (\<lambda>d. encode_func form E d c) (mb_bytes form c)"
proof (cases form)
  case MBSTRING_UTF8
  then show ?thesis using cbb_add_utf8_writer [of c E] assms by simp
next
  case MBSTRING_ASC
  then show ?thesis using add_u8.cbb_writer_axioms [of E "ucast c"] assms by (simp add: cbb_add_latin1_def)
next
  case MBSTRING_BMP
  then have "unat (ucast c :: u16) = unat c" using assms by (simp add: unsigned_ucast_eq word_le_nat_alt take_bit_nat_eq_self)
  then show ?thesis using add_u16.cbb_writer_axioms [of E "ucast c"] assms MBSTRING_BMP by (simp add: cbb_add_ucs2_be_def)
next
  case MBSTRING_UNIV
  then show ?thesis using add_u32.cbb_writer_axioms [of E c] assms by (simp add: cbb_add_utf32_be_def)
qed

lemma mb_encode_writer:
  assumes "valid_text form cs" and "valid_text outform cs"
  shows "cbb_leaf_writer (\<lambda>d. mb_encode E d form outform (mb_text form cs)) (mb_text outform cs)"
  using assms
proof (induction cs)
  case Nil
  have "mb_encode E d form outform [] = (\<lambda>st. (True, st))" for d by (rule ext, subst mb_encode.simps) simp
  then show ?case using skip.cbb_leaf_writer_axioms by simp
next
  case (Cons c cs)
  have "decode_func form (mb_text form (c # cs)) = (Some c, mb_text form cs)" using Cons.prems(1) by (simp add: decode_func_iff)
  then have "mb_encode E d form outform (mb_text form (c # cs)) = andalso (encode_func outform E d c) (mb_encode E d form outform (mb_text form cs))" for d
    by (intro ext, subst mb_encode.simps) (simp add: andalso_def)
  then show ?case using leaf_andalso [OF writer_leaf [OF encode_func_writer] Cons.IH] Cons.prems by simp
qed

lemma mb_convert_text:
  assumes "valid_text form cs" and "valid_text outform cs" and "int (length (mb_text outform cs)) < INT_MAX_asn1"
  shows "mb_convert E form outform (mb_text form cs) (length (mb_text outform cs)) = None \<and> fst (CBB_init E (length (mb_text outform cs) + 1)) = False \<or>
    (\<exists>data. mb_convert E form outform (mb_text form cs) (length (mb_text outform cs)) = Some (data, length (mb_text outform cs) + 1)
      \<and> take (length (mb_text outform cs) + 1) data = mb_text outform cs @ [0])"
proof -
  let ?t = "mb_text outform cs" let ?op = "\<lambda>d. andalso (mb_encode E d form outform (mb_text form cs)) (CBB_add_u8 E d 0)"
  have w: "cbb_leaf_writer ?op (?t @ [0])"
    using leaf_andalso [OF mb_encode_writer [OF assms(1,2)] writer_leaf [OF add_u8.cbb_writer_axioms]] .
  obtain ok st where i: "CBB_init E (length ?t + 1) = (ok, st)" by fastforce
  show ?thesis
  proof (cases ok)
    case False
    then show ?thesis using i by (simp add: mb_convert_def)
  next
    case True
    then have i': "CBB_init E (length ?t + 1) = (True, st)" using i by simp
    have n: "length (?t @ [0]) \<le> length ?t + 1" "length ?t + 1 < 2 ^ 64" using assms(3) by (simp_all add: INT_MAX_asn1_def)
    obtain st1 bf st2 where "?op 0 st = (True, st1)" "CBB_finish E 0 True True st1 = (Some (bf, length (?t @ [0])), st2)"
      "take (length (?t @ [0])) bf = ?t @ [0]"
      using session_leaf [OF w i' n] by blast
    then show ?thesis using i True assms(3) by (simp add: mb_convert_def)
  qed
qed

section \<open>The whole conversion\<close>

definition string_holds :: "asn1_string \<Rightarrow> bytes \<Rightarrow> bool" where
  "string_holds str t \<longleftrightarrow> slen str = length t \<and> (\<exists>d. sdata str = Some d \<and> length t < length d \<and> take (length t) d = t \<and> d ! length t = 0)"

lemma STRING_set_ok:
  assumes "ASN1_STRING_set E str (Some blk) (int n) = Some (True, str')" and "sdata str = None" and "n \<le> length blk"
  shows "string_holds str' (take n blk) \<and> stype str' = stype str"
  using assms OPENSSL_realloc_length [of E None "n + 1"]
  by (auto simp: ASN1_STRING_set_def c_len_def string_holds_def Let_def split: if_splits option.splits)

lemma mb_dest_fresh: "mb_dest E dst ty = Some dest \<Longrightarrow> sdata dest = None \<and> stype dest = ty"
  by (auto simp: mb_dest_def ASN1_STRING_type_new_def split: option.splits if_splits)

lemma mb_store_ok:
  assumes "valid_text form cs" and "valid_text outform cs" and "int (length (mb_text outform cs)) < INT_MAX_asn1"
    and "n \<le> length blk" and "take n blk = mb_text form cs"
    and "mb_store E dst (Some blk) (mb_text form cs) form outform ty (length (mb_text outform cs)) = Some (r, out)"
    and "0 \<le> r"
  shows "r = ty \<and> (\<exists>str. out = Some (Some str) \<and> stype str = ty \<and> string_holds str (mb_text outform cs))"
proof -
  let ?t = "mb_text outform cs"
  obtain dest where d: "mb_dest E dst ty = Some dest" using assms(6,7) by (auto simp: mb_store_def split: option.splits)
  note f = mb_dest_fresh [OF d]
  show ?thesis
  proof (cases "form = outform")
    case True
    have "length ?t = n" using assms(4,5) True by (metis length_take min.absorb2)
    then obtain dest' where "ASN1_STRING_set E dest (Some blk) (int n) = Some (True, dest')" "r = ty" "out = Some (Some dest')"
      using assms(6,7) d True by (auto simp: mb_store_def split: option.splits prod.splits if_splits)
    then show ?thesis using STRING_set_ok [of E dest blk n dest'] f assms(4,5) True by simp
  next
    case False
    then obtain data where c: "mb_convert E form outform (mb_text form cs) (length ?t) = Some (data, length ?t + 1)" "take (length ?t + 1) data = ?t @ [0]"
      using mb_convert_text [OF assms(1-3), of E] assms(6,7) d by (auto simp: mb_store_def split: if_splits)
    have l: "length ?t < length data" using c(2) by (metis Suc_eq_plus1 length_append_singleton length_take min.cobounded1 Suc_le_lessD)
    then have "take (length ?t) data = ?t \<and> data ! length ?t = 0" using c(2) by (simp add: take_Suc_conv_app_nth)
    then show ?thesis using c(1) assms(6) d f False l by (auto simp: mb_store_def string_holds_def)
  qed
qed

lemma text_bound: "valid_text form cs \<Longrightarrow> length (mb_text outform cs) \<le> 4 * length (mb_text form cs)"
proof (induction cs)
  case (Cons c cs)
  have "length (mb_bytes f c) \<le> 4" for f by (cases f) (simp_all add: utf8_def be_bytes_numeral)
  from this [of outform] show ?case using Cons by (cases "mb_bytes form c") auto
qed simp

definition eff_mask :: "u64 \<Rightarrow> u64" where
  "eff_mask msk = (if msk = 0 then DIRSTRING_TYPE else msk)"

definition size_ok :: "int \<Rightarrow> int \<Rightarrow> nat \<Rightarrow> bool" where
  "size_ok minsize maxsize n \<longleftrightarrow> \<not> (minsize > 0 \<and> int n < minsize) \<and> \<not> (maxsize > 0 \<and> int n > maxsize)"

lemma first_type_nonzero: "first_type msk cs = Some x \<Longrightarrow> narrowed msk cs \<noteq> 0"
proof
  assume f: "first_type msk cs = Some x" and "narrowed msk cs = 0"
  then have "\<not> bit (narrowed msk cs) j" for j by simp
  then show False using f by (auto simp: first_type_def mb_types_def bit_narrowed list_all_iff split: if_splits)
qed

text \<open>A text that is accepted, with the type it gets.\<close>

definition accepts_text :: "int \<Rightarrow> u64 \<Rightarrow> int \<Rightarrow> int \<Rightarrow> bytes \<Rightarrow> mbstring \<Rightarrow> u32 list \<Rightarrow> int \<Rightarrow> mbstring \<Rightarrow> bool" where
  "accepts_text inform msk minsize maxsize inp form cs ty outform \<longleftrightarrow>
     mbstring_of inform = Some form \<and> inp = mb_text form cs \<and> valid_text form cs \<and> \<not> has_bom form cs \<and>
     size_ok minsize maxsize (length cs) \<and> first_type (eff_mask msk) cs = Some (ty, outform)"

lemma ncopy_text:
  assumes "accepts_text inform msk minsize maxsize (take n blk) form cs ty outform" and "n \<le> length blk"
  shows "ASN1_mbstring_ncopy E out (Some blk) (int n) inform msk minsize maxsize =
    (case out of None \<Rightarrow> Some (ty, None)
     | Some dst \<Rightarrow> mb_store E dst (Some blk) (take n blk) form outform ty (length (mb_text outform cs)))"
proof -
  note a = assms(1) [unfolded accepts_text_def]
  have "mb_scan form (take n blk) (eff_mask msk) 0 0 = Some (narrowed (eff_mask msk) cs, length cs, length (mb_text MBSTRING_UTF8 cs))"
    using a mb_scan_text [where form = form and cs = cs and n = 0 and msk = "eff_mask msk" and u = 0] first_type_nonzero by auto
  then show ?thesis using a mb_choose_first [of "eff_mask msk" cs] assms(2)
    by (cases out) (auto simp: ASN1_mbstring_ncopy_def c_len_def size_ok_def Let_def simp flip: eff_mask_def)
qed

lemma ncopy_accepts:
  assumes "ASN1_mbstring_ncopy E out (Some blk) (int n) inform msk minsize maxsize = Some (r, out')" and "0 \<le> r" and "n \<le> length blk"
  shows "\<exists>form cs ty outform. accepts_text inform msk minsize maxsize (take n blk) form cs ty outform"
proof -
  obtain form where f: "mbstring_of inform = Some form"
    using assms by (auto simp: ASN1_mbstring_ncopy_def c_len_def Let_def split: option.splits)
  obtain m nc u where s: "mb_scan form (take n blk) (eff_mask msk) 0 0 = Some (m, nc, u)" and sz: "size_ok minsize maxsize nc" and ch: "mb_choose m nc u \<noteq> None"
    using assms f by (auto simp: ASN1_mbstring_ncopy_def c_len_def Let_def size_ok_def simp flip: eff_mask_def split: option.splits if_splits)
  from mb_scan_Some [OF s] obtain cs where cs: "valid_text form cs" "take n blk = mb_text form cs" by blast
  have bom: "\<not> has_bom form cs" using mb_scan_bom [OF cs(1)] s cs(2) by auto
  then have "m = narrowed (eff_mask msk) cs" "nc = length cs" "u = length (mb_text MBSTRING_UTF8 cs)"
    using mb_scan_text [OF cs(1), of 0 "eff_mask msk" 0] s cs(2) by (auto split: if_splits)
  then obtain ty outform where "first_type (eff_mask msk) cs = Some (ty, outform)" using ch mb_choose_first [of "eff_mask msk" cs] by auto
  then show ?thesis using f cs bom sz \<open>nc = length cs\<close> unfolding accepts_text_def by blast
qed

lemma mbstring_sound:
  assumes "ASN1_mbstring_ncopy E out (Some blk) (int n) inform msk minsize maxsize = Some (r, out')" and "0 \<le> r"
    and "4 * int n < INT_MAX_asn1" and "n \<le> length blk"
  obtains form cs outform where "accepts_text inform msk minsize maxsize (take n blk) form cs r outform"
    and "out \<noteq> None \<Longrightarrow> \<exists>str. out' = Some (Some str) \<and> stype str = r \<and> string_holds str (mb_text outform cs)"
proof -
  obtain form cs ty outform where a: "accepts_text inform msk minsize maxsize (take n blk) form cs ty outform" using ncopy_accepts [OF assms(1,2,4)] by blast
  note d = a [unfolded accepts_text_def]
  have v: "valid_text form cs" "valid_text outform cs" using d first_type_valid by blast+
  have b: "int (length (mb_text outform cs)) < INT_MAX_asn1" using text_bound [OF v(1), of outform] assms(3,4) d by (metis (no_types, lifting) INT_MAX_asn1_def le_less_trans length_take min.absorb2 of_nat_le_iff of_nat_mult of_nat_numeral)
  show ?thesis
  proof (cases out)
    case None
    then show ?thesis using that [of form cs outform] a ncopy_text [OF a assms(4), of E out] assms(1) by simp
  next
    case (Some dst)
    then have "mb_store E dst (Some blk) (take n blk) form outform ty (length (mb_text outform cs)) = Some (r, out')" using ncopy_text [OF a assms(4), of E out] assms(1) by simp
    then have "r = ty \<and> (\<exists>str. out' = Some (Some str) \<and> stype str = ty \<and> string_holds str (mb_text outform cs))"
      using mb_store_ok [OF v b assms(4), of E dst ty r out'] assms(2) d by simp
    then show ?thesis using that [of form cs outform] a by auto
  qed
qed

text \<open>With memory there is no other failure.\<close>

lemma malloc_ok: "\<forall>n. can_alloc E n \<Longrightarrow> n < 2 ^ 63 \<Longrightarrow> \<exists>b. OPENSSL_malloc E n = Some b"
  by (simp add: OPENSSL_malloc_def size_add_def OPENSSL_MALLOC_PREFIX_def)

lemma mbstring_complete:
  assumes "accepts_text inform msk minsize maxsize (take n blk) form cs ty outform" and "\<forall>n. can_alloc E n" and "4 * int n < INT_MAX_asn1" and "n \<le> length blk"
  shows "\<exists>out'. ASN1_mbstring_ncopy E out (Some blk) (int n) inform msk minsize maxsize = Some (ty, out')"
proof (cases out)
  case None
  then show ?thesis using ncopy_text [OF assms(1,4), of E out] by simp
next
  case (Some dst)
  note d = assms(1) [unfolded accepts_text_def]
  let ?t = "mb_text outform cs"
  have v: "valid_text form cs" "valid_text outform cs" using d first_type_valid by blast+
  have b: "int (length ?t) < INT_MAX_asn1" using text_bound [OF v(1), of outform] assms(3,4) d by (metis (no_types, lifting) INT_MAX_asn1_def le_less_trans length_take min.absorb2 of_nat_le_iff of_nat_mult of_nat_numeral)
  have n: "length (mb_text form cs) = n" using d assms(4) by (metis length_take min.absorb2)
  have m: "\<exists>dest. mb_dest E dst ty = Some dest"
    using malloc_ok [OF assms(2), of sizeof_ASN1_STRING] by (auto simp: mb_dest_def ASN1_STRING_type_new_def sizeof_ASN1_STRING_def split: option.splits)
  then obtain dest where dest: "mb_dest E dst ty = Some dest" by blast
  have "\<exists>dest'. ASN1_STRING_set E dest (Some blk) (int n) = Some (True, dest')"
    using malloc_ok [OF assms(2), of "n + 1"] mb_dest_fresh [OF dest] assms(3,4)
    by (auto simp: ASN1_STRING_set_def c_len_def Let_def OPENSSL_realloc_def INT_MAX_asn1_def)
  moreover have "fst (CBB_init E (length ?t + 1))"
    using malloc_ok [OF assms(2), of "length ?t + 1"] malloc_ok [OF assms(2), of sizeof_cbb_buffer_st] b
    by (auto simp: CBB_init_def cbb_init_def sizeof_cbb_buffer_st_def INT_MAX_asn1_def)
  ultimately have "\<exists>out'. mb_store E dst (Some blk) (take n blk) form outform ty (length ?t) = Some (ty, out')"
    using dest mb_convert_text [OF v b, of E] d n by (auto simp: mb_store_def)
  then show ?thesis using ncopy_text [OF assms(1,4), of E out] Some by simp
qed

text \<open>\<^verbatim>\<open>ASN1_STRING_to_UTF8\<close> keeps the text.\<close>

lemma to_UTF8_text:
  assumes "ASN1_STRING_to_UTF8 E str = Some (r, out)" and "0 \<le> r" and "sdata str = Some blk" and "slen str \<le> length blk" and "4 * int (slen str) < INT_MAX_asn1"
  shows "\<exists>form cs d. mbstring_of (tag2nbyte ! nat (stype str) + MBSTRING_FLAG) = Some form \<and> take (slen str) blk = mb_text form cs \<and> valid_text form cs \<and> \<not> has_bom form cs \<and> out = Some d \<and>
    r = int (length (mb_text MBSTRING_UTF8 cs)) \<and> length (mb_text MBSTRING_UTF8 cs) < length d \<and> take (nat r) d = mb_text MBSTRING_UTF8 cs"
proof -
  let ?e = "Some (Some \<lparr>slen = 0, stype = 0, sdata = None, sflags = 0\<rparr>)" and ?f = "tag2nbyte ! nat (stype str) + MBSTRING_FLAG"
  obtain r' o' where c: "ASN1_mbstring_ncopy E ?e (Some blk) (int (slen str)) ?f B_ASN1_UTF8STRING 0 0 = Some (r', o')" and "0 \<le> r'"
    and o: "case o' of Some (Some stmp) \<Rightarrow> Some (int (slen stmp), sdata stmp) = Some (r, out) | _ \<Rightarrow> False"
    using assms(1-3) by (auto simp: ASN1_STRING_to_UTF8_def ASN1_mbstring_copy_def Let_def split: if_splits option.splits)
  obtain form cs outform where a: "accepts_text ?f B_ASN1_UTF8STRING 0 0 (take (slen str) blk) form cs r' outform"
    and s: "\<exists>str. o' = Some (Some str) \<and> stype str = r' \<and> string_holds str (mb_text outform cs)"
    by (rule mbstring_sound [OF c \<open>0 \<le> r'\<close> assms(5,4)]) blast
  have "outform = MBSTRING_UTF8" using a by (auto simp: accepts_text_def first_type_def mb_types_def eff_mask_def B_ASN1_UTF8STRING_def split: if_splits)
  then obtain str' d where "o' = Some (Some str')" "slen str' = length (mb_text MBSTRING_UTF8 cs)" "sdata str' = Some d"
    "length (mb_text MBSTRING_UTF8 cs) < length d" "take (length (mb_text MBSTRING_UTF8 cs)) d = mb_text MBSTRING_UTF8 cs"
    using s unfolding string_holds_def by blast
  then show ?thesis using a o by (intro exI [of _ form] exI [of _ cs] exI [of _ d]) (auto simp: accepts_text_def)
qed

end
