(* ===== verification/X509Host.thy ===== *)
theory X509Host
  imports ASN1Str OID
begin

unbundle bit_operations_syntax

text \<open>
  Names in certificates, \<^verbatim>\<open>crypto/x509v3/v3_utl.c\<close>: comparison of a certificate's names with the host,
  e-mail or IP address the caller asks for, with wildcards, and \<^verbatim>\<open>X509_check_host\<close> and its siblings.

  A pattern or subject with its length is the list of its bytes.  An object identifier is known by
  its NID.  A certificate is its decoded \<^verbatim>\<open>subjectAltName\<close> extension, \<open>None\<close> when \<^verbatim>\<open>X509_get_ext_d2i\<close>
  returns null, and its subject.
  \<^item> \<open>equal_nocase_iff\<close>: comparison without case, of whole names or of a suffix.
  \<^item> \<open>valid_star_shape\<close>: a pattern with a wildcard has one star, in its first label, and two dots after it.
  \<^item> \<open>wildcard_shape\<close>: what a name that matches looks like.
  \<^item> \<open>check_host_altname\<close>, \<open>check_host_matched\<close>: the name of the certificate a successful check goes back to.
  \<^item> \<open>wildcard_host\<close>: a host of one more label matches the usual wildcard.
\<close>

section \<open>Certificates\<close>

type_synonym x509_name_entry = "int \<times> asn1_string"

record x509_name =
  entries :: "x509_name_entry list"
  modified :: bool
  canon_enc :: bytes

datatype general_name =
    GEN_OTHERNAME
  | GEN_EMAIL asn1_string
  | GEN_DNS asn1_string
  | GEN_X400
  | GEN_DIRNAME x509_name
  | GEN_EDIPARTY
  | GEN_URI asn1_string
  | GEN_IPADD asn1_string
  | GEN_RID

datatype gen_type = OTHERNAME_type | EMAIL_type | DNS_type | X400_type | DIRNAME_type | EDIPARTY_type | URI_type | IPADD_type | RID_type

primrec gtype :: "general_name \<Rightarrow> gen_type" where
  "gtype GEN_OTHERNAME = OTHERNAME_type"
| "gtype (GEN_EMAIL _) = EMAIL_type"
| "gtype (GEN_DNS _) = DNS_type"
| "gtype GEN_X400 = X400_type"
| "gtype (GEN_DIRNAME _) = DIRNAME_type"
| "gtype GEN_EDIPARTY = EDIPARTY_type"
| "gtype (GEN_URI _) = URI_type"
| "gtype (GEN_IPADD _) = IPADD_type"
| "gtype GEN_RID = RID_type"

record general_subtree =
  sub_base :: general_name
  sub_minimum :: "int option"
  sub_maximum :: "int option"

record name_constraints =
  permittedSubtrees :: "general_subtree list"
  excludedSubtrees :: "general_subtree list"

text \<open>
  \<open>altname\<close> is the cached \<^verbatim>\<open>x->altname\<close>; \<open>san_ext\<close> is what \<^verbatim>\<open>X509_get_ext_d2i\<close> gives when \<^verbatim>\<open>do_x509_check\<close> decodes
  the same extension again, \<open>None\<close> also when that decoding runs out of memory.
\<close>

record x509 =
  altname :: "general_name list option"
  san_ext :: "general_name list option"
  subject_name :: x509_name
  ex_flags :: u64
  nc :: "name_constraints option"

text \<open>The bytes of an ASN.1 string.\<close>

definition string_bytes :: "asn1_string \<Rightarrow> bytes" where
  "string_bytes a = (case sdata a of None \<Rightarrow> [] | Some d \<Rightarrow> take (slen a) d)"

definition NID_undef :: int where "NID_undef = 0"
definition NID_commonName :: int where "NID_commonName = 13"
definition NID_pkcs9_emailAddress :: int where "NID_pkcs9_emailAddress = 48"

text \<open>The loop of \<^verbatim>\<open>X509_NAME_get_index_by_OBJ\<close>, from position \<open>i\<close>.\<close>

fun index_from :: "x509_name_entry list \<Rightarrow> int \<Rightarrow> int \<Rightarrow> int" where
  "index_from [] nid i = - 1"
| "index_from ((obj, _) # es) nid i = (if obj = nid then i else index_from es nid (i + 1))"

text \<open>The conversion of \<^verbatim>\<open>size_t\<close> to \<^verbatim>\<open>int\<close>.\<close>

definition X509_NAME_entry_count :: "x509_name \<Rightarrow> int" where
  "X509_NAME_entry_count name = sint (of_nat (length (entries name)) :: u32)"

text \<open>The entries below the count as an \<^verbatim>\<open>int\<close>, which the search is limited to.\<close>

definition seen_entries :: "x509_name \<Rightarrow> x509_name_entry list" where
  "seen_entries name = take (nat (X509_NAME_entry_count name)) (entries name)"

definition X509_NAME_get_index_by_NID :: "x509_name \<Rightarrow> int \<Rightarrow> int \<Rightarrow> int" where
  "X509_NAME_get_index_by_NID name nid lastpos =
     (let lastpos = (if lastpos < 0 then - 1 else lastpos)
      in index_from (drop (nat (lastpos + 1)) (seen_entries name)) nid (lastpos + 1))"

section \<open>Comparison\<close>

definition X509_CHECK_FLAG_NO_WILDCARDS :: u32 where "X509_CHECK_FLAG_NO_WILDCARDS = 0x2"
definition X509_CHECK_FLAG_NO_PARTIAL_WILDCARDS :: u32 where "X509_CHECK_FLAG_NO_PARTIAL_WILDCARDS = 0x4"
definition X509_CHECK_FLAG_MULTI_LABEL_WILDCARDS :: u32 where "X509_CHECK_FLAG_MULTI_LABEL_WILDCARDS = 0x8"
definition X509_CHECK_FLAG_SINGLE_LABEL_SUBDOMAINS :: u32 where "X509_CHECK_FLAG_SINGLE_LABEL_SUBDOMAINS = 0x10"
definition X509_CHECK_FLAG_NEVER_CHECK_SUBJECT :: u32 where "X509_CHECK_FLAG_NEVER_CHECK_SUBJECT = 0x20"
definition X509_CHECK_FLAG_DOT_SUBDOMAINS :: u32 where "X509_CHECK_FLAG_DOT_SUBDOMAINS = 0x8000"

definition ch_at :: u8 where "ch_at = 0x40"
definition ch_star :: u8 where "ch_star = 0x2a"
definition ch_hyphen :: u8 where "ch_hyphen = 0x2d"

type_synonym equal_fn = "bytes \<Rightarrow> bytes \<Rightarrow> u32 \<Rightarrow> bool"

fun skip_loop :: "bytes \<Rightarrow> nat \<Rightarrow> u32 \<Rightarrow> bytes" where
  "skip_loop [] subject_len flags = []"
| "skip_loop (c # pattern) subject_len flags =
     (if length (c # pattern) > subject_len \<and> c \<noteq> 0 then
        if flags AND X509_CHECK_FLAG_SINGLE_LABEL_SUBDOMAINS \<noteq> 0 \<and> c = ch_dot then c # pattern
        else skip_loop pattern subject_len flags
      else c # pattern)"

definition skip_prefix :: "bytes \<Rightarrow> bytes \<Rightarrow> u32 \<Rightarrow> bytes" where
  "skip_prefix pattern subject flags =
     (if flags AND X509_CHECK_FLAG_DOT_SUBDOMAINS = 0 then pattern
      else
        let p = skip_loop pattern (length subject) flags in
        if length p = length subject then p else pattern)"

definition to_lower :: "u8 \<Rightarrow> u8" where
  "to_lower l = (if 0x41 \<le> l \<and> l \<le> 0x5a then l - 0x41 + 0x61 else l)"

fun nocase_loop :: "bytes \<Rightarrow> bytes \<Rightarrow> bool" where
  "nocase_loop (l # pattern) (r # subject) =
     (if l = 0 then False
      else if l \<noteq> r \<and> to_lower l \<noteq> to_lower r then False
      else nocase_loop pattern subject)"
| "nocase_loop _ _ = True"

definition equal_nocase :: equal_fn where
  "equal_nocase pattern subject flags =
     (let pattern = skip_prefix pattern subject flags
      in if length pattern \<noteq> length subject then False else nocase_loop pattern subject)"

definition equal_case :: equal_fn where
  "equal_case pattern subject flags =
     (let pattern = skip_prefix pattern subject flags
      in if length pattern \<noteq> length subject then False else pattern = subject)"

text \<open>The search for the last \<^verbatim>\<open>@\<close>, from position \<open>i\<close> down; \<open>None\<close> is the early return of 0.\<close>

primrec email_loop :: "nat \<Rightarrow> bytes \<Rightarrow> bytes \<Rightarrow> nat option" where
  "email_loop 0 a b = Some 0"
| "email_loop (Suc i) a b =
     (if a ! i = ch_at \<or> b ! i = ch_at then
        if \<not> equal_nocase (drop i a) (drop i b) 0 then None else Some i
      else email_loop i a b)"

definition equal_email :: equal_fn where
  "equal_email a b unused_flags =
     (if length a \<noteq> length b then False
      else
        case email_loop (length a) a b of
          None \<Rightarrow> False
        | Some i \<Rightarrow>
            (let i = (if i = 0 then length a else i) in equal_case (take i a) (take i b) 0))"

section \<open>Wildcards\<close>

definition is_alnum :: "u8 \<Rightarrow> bool" where
  "is_alnum c \<longleftrightarrow> (0x61 \<le> c \<and> c \<le> 0x7a) \<or> (0x41 \<le> c \<and> c \<le> 0x5a) \<or> (0x30 \<le> c \<and> c \<le> 0x39)"

text \<open>\<^verbatim>\<open>len >= 4\<close> and the comparison with \<^verbatim>\<open>"xn--"\<close>.\<close>

definition starts_idna :: "bytes \<Rightarrow> bool" where
  "starts_idna s \<longleftrightarrow> length s \<ge> 4 \<and> OPENSSL_strncasecmp s [0x78, 0x6e, ch_hyphen, ch_hyphen, 0] 4 = Some 0"

definition wildcard_match :: "bytes \<Rightarrow> bytes \<Rightarrow> bytes \<Rightarrow> u32 \<Rightarrow> bool" where
  "wildcard_match prefix suffix subject flags =
     (if length subject < length prefix + length suffix then False
      else if \<not> equal_nocase prefix (take (length prefix) subject) flags then False
      else
        let wild = take (length subject - length suffix - length prefix) (drop (length prefix) subject);
            wildcard_end = drop (length subject - length suffix) subject
        in if \<not> equal_nocase wildcard_end suffix flags then False
           else
             let whole = (prefix = [] \<and> suffix \<noteq> [] \<and> hd suffix = ch_dot);
                 allow_multi = (whole \<and> flags AND X509_CHECK_FLAG_MULTI_LABEL_WILDCARDS \<noteq> 0)
             in if whole \<and> wild = [] then False
                else if \<not> whole \<and> starts_idna subject then False
                else if wild = [ch_star] then True
                else list_all (\<lambda>c. is_alnum c \<or> c = ch_hyphen \<or> (allow_multi \<and> c = ch_dot)) wild)"

text \<open>The bits of \<^verbatim>\<open>state\<close>.\<close>

record label_state =
  label_start :: bool
  label_hyphen :: bool
  label_idna :: bool

text \<open>The loop of \<^verbatim>\<open>valid_star\<close> at index \<open>i\<close>, with the bytes from there on; \<open>None\<close> is \<^verbatim>\<open>return NULL\<close> inside it.\<close>

fun star_loop :: "bytes \<Rightarrow> u32 \<Rightarrow> nat \<Rightarrow> label_state \<Rightarrow> nat \<Rightarrow> nat option \<Rightarrow> (label_state \<times> nat \<times> nat option) option" where
  "star_loop [] flags i state dots star = Some (state, dots, star)"
| "star_loop (c # p) flags i state dots star =
     (if c = ch_star then
        let atstart = label_start state; atend = (p = [] \<or> hd p = ch_dot) in
        if star \<noteq> None \<or> label_idna state \<or> dots \<noteq> 0 then None
        else if flags AND X509_CHECK_FLAG_NO_PARTIAL_WILDCARDS \<noteq> 0 \<and> (\<not> atstart \<or> \<not> atend) then None
        else if \<not> atstart \<and> \<not> atend then None
        else star_loop p flags (i + 1) (state\<lparr>label_start := False\<rparr>) dots (Some i)
      else if is_alnum c then
        let state = (if label_start state \<and> starts_idna (c # p) then state\<lparr>label_idna := True\<rparr> else state)
        in star_loop p flags (i + 1) (state\<lparr>label_hyphen := False, label_start := False\<rparr>) dots star
      else if c = ch_dot then
        if label_hyphen state \<or> label_start state then None
        else star_loop p flags (i + 1) \<lparr>label_start = True, label_hyphen = False, label_idna = False\<rparr> (dots + 1) star
      else if c = ch_hyphen then
        if label_start state then None
        else star_loop p flags (i + 1) (state\<lparr>label_hyphen := True\<rparr>) dots star
      else None)"

definition valid_star :: "bytes \<Rightarrow> u32 \<Rightarrow> nat option" where
  "valid_star p flags =
     (case star_loop p flags 0 \<lparr>label_start = True, label_hyphen = False, label_idna = False\<rparr> 0 None of
        None \<Rightarrow> None
      | Some (state, dots, star) \<Rightarrow>
          if label_start state \<or> label_hyphen state \<or> dots < 2 then None else star)"

definition equal_wildcard :: equal_fn where
  "equal_wildcard pattern subject flags =
     (case (if \<not> (length subject > 1 \<and> hd subject = ch_dot) then valid_star pattern flags else None) of
        None \<Rightarrow> equal_nocase pattern subject flags
      | Some star \<Rightarrow> wildcard_match (take star pattern) (drop (star + 1) pattern) subject flags)"

text \<open>The loop of \<^verbatim>\<open>x509v3_looks_like_dns_name\<close> at index \<open>i\<close> of a name of length \<open>len\<close>.\<close>

fun dns_loop :: "bytes \<Rightarrow> nat \<Rightarrow> nat \<Rightarrow> nat \<Rightarrow> bool" where
  "dns_loop [] len i lstart = True"
| "dns_loop (c # cs) len i lstart =
     (if is_alnum c \<or> (c = ch_hyphen \<and> i > lstart) \<or> c = 0x5f \<or> c = 0x3a then dns_loop cs len (i + 1) lstart
      else if c = ch_dot \<and> i > lstart \<and> i < len - 1 then dns_loop cs len (i + 1) (i + 1)
      else False)"

definition x509v3_looks_like_dns_name :: "bytes \<Rightarrow> bool" where
  "x509v3_looks_like_dns_name name =
     (let name = (if name \<noteq> [] \<and> last name = ch_dot then butlast name else name);
          name = (if length name \<ge> 2 \<and> name ! 0 = ch_star \<and> name ! 1 = ch_dot then drop 2 name else name)
      in if name = [] then False else dns_loop name (length name) 0 0)"

section \<open>Checking a certificate\<close>

text \<open>
  The result of a check, and the string \<^verbatim>\<open>*peername\<close> is set to: \<open>None\<close> when it is not assigned.  \<open>None\<close> as a
  whole is undefined behaviour: of a callee, or a comparison past the end of \<^verbatim>\<open>a->data\<close>, when \<^verbatim>\<open>(int)blen\<close> drops bits.  \<open>cmp_type\<close> is \<open>None\<close> for the value \<^verbatim>\<open>-1\<close>.
\<close>

type_synonym check_result = "(int \<times> bytes option option) option"

definition set_peer :: "alloc_env \<Rightarrow> bool \<Rightarrow> int \<Rightarrow> bytes \<Rightarrow> bytes option option" where
  "set_peer E peername rv s = (if rv > 0 \<and> peername then Some (OPENSSL_strndup E s (length s)) else None)"

definition do_check_string ::
    "alloc_env \<Rightarrow> asn1_string \<Rightarrow> int option \<Rightarrow> equal_fn \<Rightarrow> u32 \<Rightarrow> gen_type \<Rightarrow> bytes \<Rightarrow> bool \<Rightarrow> check_result" where
  "do_check_string E a cmp_type equal flags check_type b peername =
     (if sdata a = None \<or> slen a = 0 then Some (0, None)
      else
        case cmp_type of
          Some ty \<Rightarrow>
            (let s = string_bytes a in
             if ty \<noteq> stype a then Some (0, None)
             else
               case (if ty = V_ASN1_IA5STRING then Some (if equal s b flags then 1 else 0)
                     else if int (slen a) \<noteq> sint (of_nat (length b) :: u32) then Some 0
                     else if length b \<noteq> slen a then None
                     else Some (if s = b then 1 else 0)) of
                 None \<Rightarrow> None
               | Some rv \<Rightarrow> Some (rv, set_peer E peername rv s))
        | None \<Rightarrow>
            (case ASN1_STRING_to_UTF8 E a of
               None \<Rightarrow> None
             | Some (astrlen, astr) \<Rightarrow>
                 if astrlen < 0 then Some (- 1, None)
                 else
                   let s = take (nat astrlen) (case astr of None \<Rightarrow> [] | Some d \<Rightarrow> d);
                       rv = (if check_type = DNS_type \<and> \<not> x509v3_looks_like_dns_name s then 0 else if equal s b flags then 1 else 0)
                   in Some (rv, set_peer E peername rv s)))"

text \<open>The string of a general name of the type looked for.\<close>

definition gen_string :: "general_name \<Rightarrow> asn1_string option" where
  "gen_string gen = (case gen of GEN_EMAIL s \<Rightarrow> Some s | GEN_DNS s \<Rightarrow> Some s | GEN_IPADD s \<Rightarrow> Some s | _ \<Rightarrow> None)"

fun check_gens ::
    "alloc_env \<Rightarrow> general_name list \<Rightarrow> int \<Rightarrow> equal_fn \<Rightarrow> u32 \<Rightarrow> gen_type \<Rightarrow> bytes \<Rightarrow> bool \<Rightarrow> check_result" where
  "check_gens E [] alt_type equal flags check_type chk peername = Some (0, None)"
| "check_gens E (gen # gens) alt_type equal flags check_type chk peername =
     (if gtype gen \<noteq> check_type then check_gens E gens alt_type equal flags check_type chk peername
      else
        case gen_string gen of
          None \<Rightarrow> None
        | Some cstr \<Rightarrow>
            (case do_check_string E cstr (Some alt_type) equal flags check_type chk peername of
               None \<Rightarrow> None
             | Some (rv, peer) \<Rightarrow>
                 if rv \<noteq> 0 then Some (rv, peer) else check_gens E gens alt_type equal flags check_type chk peername))"

lemma index_from_bounds: "index_from es nid i = j \<Longrightarrow> 0 \<le> i \<Longrightarrow> j = - 1 \<or> (i \<le> j \<and> j < i + int (length es) \<and> fst (es ! nat (j - i)) = nid)"
proof (induction es nid i arbitrary: j rule: index_from.induct)
  case (2 obj v es nid i)
  show ?case
  proof (cases "obj = nid")
    case True
    then show ?thesis using 2(2) by auto
  next
    case False
    then consider "j = - 1" | "i + 1 \<le> j" "j < i + 1 + int (length es)" "fst (es ! nat (j - (i + 1))) = nid" using 2 by auto
    then show ?thesis
    proof cases
      case 2
      then have "nat (j - i) = Suc (nat (j - (i + 1)))" by linarith
      then show ?thesis using 2 by simp
    qed simp
  qed
qed simp

lemma seen_entries_nth: "k < length (seen_entries name) \<Longrightarrow> k < length (entries name) \<and> seen_entries name ! k = entries name ! k"
  by (simp add: seen_entries_def)

lemma next_index_bounds:
  assumes "X509_NAME_get_index_by_NID name nid lastpos = j" and "0 \<le> j"
  shows "lastpos < j" and "j < int (length (seen_entries name))" and "fst (entries name ! nat j) = nid"
proof -
  let ?l = "if lastpos < 0 then - 1 else lastpos"
  have l: "0 \<le> ?l + 1" by simp
  have e: "index_from (drop (nat (?l + 1)) (seen_entries name)) nid (?l + 1) = j" using assms(1) unfolding X509_NAME_get_index_by_NID_def Let_def .
  from index_from_bounds [OF e l] assms(2) have b: "?l + 1 \<le> j" "j < ?l + 1 + int (length (drop (nat (?l + 1)) (seen_entries name)))"
    "fst (drop (nat (?l + 1)) (seen_entries name) ! nat (j - (?l + 1))) = nid" by auto
  then show "lastpos < j" by (simp split: if_splits)
  show j: "j < int (length (seen_entries name))" using b(1,2) l by (auto split: if_splits)
  have "nat (?l + 1) + nat (j - (?l + 1)) = nat j" using b(1) l by linarith
  moreover have "nat (?l + 1) \<le> length (seen_entries name)" using b(1) j by linarith
  ultimately have "fst (seen_entries name ! nat j) = nid" using b(3) by (simp only: nth_drop)
  then show "fst (entries name ! nat j) = nid" using seen_entries_nth [of "nat j" name] j assms(2) by simp
qed

lemma next_index_less:
  assumes "X509_NAME_get_index_by_NID name nid lastpos = j" and "j \<noteq> - 1"
  shows "0 \<le> j" and "lastpos < j" and "j < int (length (seen_entries name))"
proof -
  let ?l = "if lastpos < 0 then - 1 else lastpos"
  have "index_from (drop (nat (?l + 1)) (seen_entries name)) nid (?l + 1) = j" using assms(1) unfolding X509_NAME_get_index_by_NID_def Let_def .
  moreover have l: "0 \<le> ?l + 1" by simp
  ultimately have "?l + 1 \<le> j" using index_from_bounds assms(2) by blast
  then show "0 \<le> j" using l by linarith
  then show "lastpos < j" "j < int (length (seen_entries name))" using next_index_bounds [OF assms(1)] by auto
qed

function check_subject ::
    "alloc_env \<Rightarrow> x509_name \<Rightarrow> int \<Rightarrow> int \<Rightarrow> equal_fn \<Rightarrow> u32 \<Rightarrow> gen_type \<Rightarrow> bytes \<Rightarrow> bool \<Rightarrow> check_result" where
  "check_subject E name cnid j equal flags check_type chk peername =
     (let j' = X509_NAME_get_index_by_NID name cnid j in
      if j' < 0 then Some (0, None)
      else
        case do_check_string E (snd (entries name ! nat j')) None equal flags check_type chk peername of
          None \<Rightarrow> None
        | Some (rv, peer) \<Rightarrow>
            if rv \<noteq> 0 then Some (rv, peer)
            else check_subject E name cnid j' equal flags check_type chk peername)"
  by pat_completeness auto
termination
proof (relation "measure (\<lambda>(E, name, cnid, j, _). nat (int (length (seen_entries name)) - j))")
  fix E name cnid j equal flags check_type chk peername j' x rv peer
  assume j': "j' = X509_NAME_get_index_by_NID name cnid j" "\<not> j' < 0"
  show "((E, name, cnid, j', equal, flags, check_type, chk, peername), (E, name, cnid, j, equal, flags, check_type, chk, peername))
    \<in> measure (\<lambda>(E, name, cnid, j, _). nat (int (length (seen_entries name)) - j))"
    using next_index_bounds [OF j'(1) [symmetric]] j'(2) by simp
qed simp

declare check_subject.simps [simp del]

definition do_x509_check :: "alloc_env \<Rightarrow> x509 \<Rightarrow> bytes \<Rightarrow> u32 \<Rightarrow> gen_type \<Rightarrow> bool \<Rightarrow> check_result" where
  "do_x509_check E x chk flags check_type peername =
     (let flags = flags AND NOT X509_CHECK_FLAG_DOT_SUBDOMAINS;
          flags = (if check_type = DNS_type \<and> length chk > 1 \<and> hd chk = ch_dot then flags OR X509_CHECK_FLAG_DOT_SUBDOMAINS else flags);
          (cnid, alt_type, equal) =
            (if check_type = EMAIL_type then (NID_pkcs9_emailAddress, V_ASN1_IA5STRING, equal_email)
             else if check_type = DNS_type then
               (NID_commonName, V_ASN1_IA5STRING, if flags AND X509_CHECK_FLAG_NO_WILDCARDS \<noteq> 0 then equal_nocase else equal_wildcard)
             else (NID_undef, V_ASN1_OCTET_STRING, equal_case))
      in case san_ext x of
           Some gens \<Rightarrow> check_gens E gens alt_type equal flags check_type chk peername
         | None \<Rightarrow>
             if cnid = NID_undef \<or> flags AND X509_CHECK_FLAG_NEVER_CHECK_SUBJECT \<noteq> 0 then Some (0, None)
             else check_subject E (subject_name x) cnid (- 1) equal flags check_type chk peername)"

definition X509_check_host :: "alloc_env \<Rightarrow> x509 \<Rightarrow> bytes option \<Rightarrow> u32 \<Rightarrow> bool \<Rightarrow> check_result" where
  "X509_check_host E x chk flags peername =
     (case chk of
        None \<Rightarrow> Some (- 2, None)
      | Some chk \<Rightarrow> if memchr chk 0 \<noteq> None then Some (- 2, None) else do_x509_check E x chk flags DNS_type peername)"

definition X509_check_email :: "alloc_env \<Rightarrow> x509 \<Rightarrow> bytes option \<Rightarrow> u32 \<Rightarrow> check_result" where
  "X509_check_email E x chk flags =
     (case chk of
        None \<Rightarrow> Some (- 2, None)
      | Some chk \<Rightarrow> if memchr chk 0 \<noteq> None then Some (- 2, None) else do_x509_check E x chk flags EMAIL_type False)"

definition X509_check_ip :: "alloc_env \<Rightarrow> x509 \<Rightarrow> bytes option \<Rightarrow> u32 \<Rightarrow> check_result" where
  "X509_check_ip E x chk flags =
     (case chk of None \<Rightarrow> Some (- 2, None) | Some chk \<Rightarrow> do_x509_check E x chk flags IPADD_type False)"

section \<open>Comparison without case\<close>

definition same_nocase :: "bytes \<Rightarrow> bytes \<Rightarrow> bool" where
  "same_nocase p s \<longleftrightarrow> 0 \<notin> set p \<and> map to_lower p = map to_lower s"

lemma same_nocase_length: "same_nocase p s \<Longrightarrow> length p = length s"
  unfolding same_nocase_def by (metis length_map)

lemma nocase_loop_iff: "length p = length s \<Longrightarrow> nocase_loop p s \<longleftrightarrow> same_nocase p s"
  by (induction p s rule: nocase_loop.induct) (auto simp: same_nocase_def)

lemma equal_nocase_iff: "flags AND X509_CHECK_FLAG_DOT_SUBDOMAINS = 0 \<Longrightarrow> equal_nocase p s flags \<longleftrightarrow> same_nocase p s"
  using nocase_loop_iff [of p s] same_nocase_length [of p s] by (auto simp: equal_nocase_def skip_prefix_def)

definition skippable :: "u32 \<Rightarrow> bytes \<Rightarrow> bool" where
  "skippable flags pre \<longleftrightarrow> 0 \<notin> set pre \<and> (flags AND X509_CHECK_FLAG_SINGLE_LABEL_SUBDOMAINS \<noteq> 0 \<longrightarrow> ch_dot \<notin> set pre)"

lemma skip_loop_split: "\<exists>pre. p = pre @ skip_loop p n flags \<and> skippable flags pre"
proof (induction p n flags rule: skip_loop.induct)
  case (2 c p n flags)
  show ?case
  proof (cases "length (c # p) > n \<and> c \<noteq> 0 \<and> \<not> (flags AND X509_CHECK_FLAG_SINGLE_LABEL_SUBDOMAINS \<noteq> 0 \<and> c = ch_dot)")
    case True
    then obtain pre where "p = pre @ skip_loop p n flags" "skippable flags pre" using 2 by blast
    then have "c # p = (c # pre) @ skip_loop (c # p) n flags" "skippable flags (c # pre)" using True by (auto simp: skippable_def)
    then show ?thesis by blast
  qed (auto simp: skippable_def)
qed (simp add: skippable_def)

lemma skip_loop_exact: "skippable flags pre \<Longrightarrow> skip_loop (pre @ q) (length q) flags = q"
proof (induction pre)
  case Nil
  show ?case by (cases q) simp_all
qed (auto simp: skippable_def)

lemma equal_nocase_suffix:
  assumes "flags AND X509_CHECK_FLAG_DOT_SUBDOMAINS \<noteq> 0"
  shows "equal_nocase p s flags \<longleftrightarrow> (\<exists>pre q. p = pre @ q \<and> skippable flags pre \<and> same_nocase q s)"
proof
  assume e: "equal_nocase p s flags"
  obtain pre where pre: "p = pre @ skip_loop p (length s) flags" "skippable flags pre" using skip_loop_split by blast
  show "\<exists>pre q. p = pre @ q \<and> skippable flags pre \<and> same_nocase q s"
  proof (cases "length (skip_loop p (length s) flags) = length s")
    case True
    then have "same_nocase (skip_loop p (length s) flags) s" using e assms nocase_loop_iff [OF True] by (simp add: equal_nocase_def skip_prefix_def)
    then show ?thesis using pre by blast
  next
    case False
    then have "length p = length s" "same_nocase p s" using e assms nocase_loop_iff by (auto simp: equal_nocase_def skip_prefix_def split: if_splits)
    then show ?thesis by (intro exI [of _ "[]"] exI [of _ p]) (simp add: skippable_def)
  qed
next
  assume "\<exists>pre q. p = pre @ q \<and> skippable flags pre \<and> same_nocase q s"
  then obtain pre q where p: "p = pre @ q" "skippable flags pre" "same_nocase q s" by blast
  note l = same_nocase_length [OF p(3)]
  have "skip_loop p (length s) flags = q" by (simp only: p(1) l [symmetric] skip_loop_exact [OF p(2)])
  then show "equal_nocase p s flags" using assms l p(3) nocase_loop_iff [OF l] by (simp add: equal_nocase_def skip_prefix_def)
qed

lemma to_lower_upper: "0x41 \<le> c \<and> c \<le> 0x5a \<Longrightarrow> unat (to_lower c) = unat c + 32 \<and> 97 \<le> unat (to_lower c)"
  by (simp add: to_lower_def word_le_nat_alt unat_sub unat_word_ariths)

lemma to_lower_small: "unat k < 65 \<Longrightarrow> to_lower c = k \<longleftrightarrow> c = k"
proof (cases "0x41 \<le> c \<and> c \<le> 0x5a")
  case True
  moreover assume "unat k < 65"
  ultimately show ?thesis using to_lower_upper [OF True] by (auto simp: word_le_nat_alt)
qed (simp only: to_lower_def if_False simp_thms)

lemma to_lower_dot [simp]: "to_lower c = to_lower ch_dot \<longleftrightarrow> c = ch_dot" "to_lower ch_dot = to_lower c \<longleftrightarrow> c = ch_dot"
proof -
  have "unat ch_dot < 65" by (simp add: ch_dot_def)
  then show "to_lower c = to_lower ch_dot \<longleftrightarrow> c = ch_dot" "to_lower ch_dot = to_lower c \<longleftrightarrow> c = ch_dot"
    using to_lower_small by metis+
qed

lemma char_distinct [simp]:
  "\<not> is_alnum ch_dot" "\<not> is_alnum ch_star" "ch_dot \<noteq> ch_star" "ch_star \<noteq> ch_dot" "ch_dot \<noteq> ch_hyphen" "ch_hyphen \<noteq> ch_dot" "ch_hyphen \<noteq> ch_star" "\<not> is_alnum ch_hyphen"
  "ch_dot \<noteq> 0" "0 \<noteq> ch_dot"
  by (simp_all add: is_alnum_def ch_star_def ch_dot_def ch_hyphen_def)

lemma same_nocase_append:
  "same_nocase (p @ q) s \<longleftrightarrow> (\<exists>s1 s2. s = s1 @ s2 \<and> same_nocase p s1 \<and> same_nocase q s2)"
proof
  assume a: "same_nocase (p @ q) s"
  have "same_nocase p (take (length p) s)" using arg_cong [of _ _ "take (length p)", OF conjunct2 [OF a [unfolded same_nocase_def]]] a
    by (simp add: same_nocase_def take_map)
  moreover have "same_nocase q (drop (length p) s)" using arg_cong [of _ _ "drop (length p)", OF conjunct2 [OF a [unfolded same_nocase_def]]] a
    by (simp add: same_nocase_def drop_map)
  ultimately show "\<exists>s1 s2. s = s1 @ s2 \<and> same_nocase p s1 \<and> same_nocase q s2" by (metis append_take_drop_id)
qed (auto simp: same_nocase_def)

lemma same_nocase_dot [simp]: "same_nocase (ch_dot # p) s \<longleftrightarrow> (\<exists>s'. s = ch_dot # s' \<and> same_nocase p s')"
  by (cases s) (auto simp: same_nocase_def)

lemma same_nocase_Nil [simp]: "same_nocase [] s \<longleftrightarrow> s = []"
  by (auto simp: same_nocase_def)

section \<open>The star\<close>

definition label_char :: "u8 \<Rightarrow> bool" where
  "label_char c \<longleftrightarrow> is_alnum c \<or> c = ch_hyphen"

lemma label_char_distinct: "label_char c \<Longrightarrow> c \<noteq> ch_star \<and> c \<noteq> ch_dot \<and> c \<noteq> 0"
  by (auto simp: label_char_def is_alnum_def ch_star_def ch_dot_def ch_hyphen_def)

lemma star_loop_rest:
  assumes "star_loop p flags i st dots (Some k) = Some (st', dots', star)"
  shows "star = Some k \<and> dots' = dots + count_list p ch_dot \<and> (\<forall>c \<in> set p. label_char c \<or> c = ch_dot)"
  using assms
proof (induction p arbitrary: i st dots)
  case (Cons c p)
  have "c \<noteq> ch_star" using Cons.prems by (auto simp: Let_def split: if_splits)
  then show ?case using Cons.prems by (auto simp: Let_def label_char_def dest!: Cons.IH split: if_splits)
qed simp

lemma star_loop_first:
  assumes "star_loop p flags i st dots None = Some (st', dots', Some k)"
  shows "\<exists>a b. p = a @ ch_star # b \<and> k = i + length a \<and> dots = 0 \<and> list_all label_char a \<and> (\<forall>c \<in> set b. label_char c \<or> c = ch_dot) \<and>
    dots' = count_list b ch_dot \<and> (a = [] \<and> label_start st \<or> b = [] \<or> hd b = ch_dot)"
  using assms
proof (induction p arbitrary: i st dots)
  case (Cons c p)
  show ?case
  proof (cases "c = ch_star")
    case True
    then have s: "star_loop p flags (i + 1) (st\<lparr>label_start := False\<rparr>) dots (Some i) = Some (st', dots', Some k)" "dots = 0" "label_start st \<or> p = [] \<or> hd p = ch_dot"
      using Cons.prems by (auto simp: Let_def split: if_splits)
    then show ?thesis using star_loop_rest [OF s(1)] True by (intro exI [of _ "[]"] exI [of _ p]) auto
  next
    case False
    then obtain st2 dots2 where r: "star_loop p flags (i + 1) st2 dots2 None = Some (st', dots', Some k)"
      and st2: "label_char c \<and> \<not> label_start st2 \<and> dots2 = dots \<or> dots2 = dots + 1"
      using Cons.prems by (auto simp: Let_def label_char_def split: if_splits)
    from Cons.IH [OF r] obtain a b where ab: "p = a @ ch_star # b" "k = i + 1 + length a" "dots2 = 0" "list_all label_char a"
      "\<forall>c \<in> set b. label_char c \<or> c = ch_dot" "dots' = count_list b ch_dot" "a = [] \<and> label_start st2 \<or> b = [] \<or> hd b = ch_dot" by blast
    then have "label_char c" "\<not> label_start st2" "dots = 0" using st2 by auto
    with ab show ?thesis by (intro exI [of _ "c # a"] exI [of _ b]) auto
  qed
qed simp

lemma valid_star_shape:
  assumes "valid_star p flags = Some k"
  obtains a b c where "p = a @ ch_star # b @ ch_dot # c" and "k = length a" and "list_all label_char a" and "list_all label_char b"
    and "\<forall>x \<in> set c. label_char x \<or> x = ch_dot" and "ch_dot \<in> set c" and "a = [] \<or> b = []"
proof -
  obtain st dots where r: "star_loop p flags 0 \<lparr>label_start = True, label_hyphen = False, label_idna = False\<rparr> 0 None = Some (st, dots, Some k)" "2 \<le> dots"
    using assms by (auto simp: valid_star_def split: option.splits if_splits)
  from star_loop_first [OF r(1)] obtain a t where t: "p = a @ ch_star # t" "k = length a" "list_all label_char a"
    "\<forall>c \<in> set t. label_char c \<or> c = ch_dot" "dots = count_list t ch_dot" "a = [] \<or> t = [] \<or> hd t = ch_dot" by auto
  then have "ch_dot \<in> set t" using r(2) by (metis count_notin not_numeral_le_zero)
  then obtain b c where bc: "t = b @ ch_dot # c" "ch_dot \<notin> set b" by (metis split_list_first)
  then have "count_list c ch_dot \<ge> 1" using t(5) r(2) by simp
  then have "ch_dot \<in> set c" by (metis count_notin not_one_le_zero)
  moreover have "a = [] \<or> b = []" using t(6) bc by (cases b) auto
  moreover have "list_all label_char b" using t(4) bc by (auto simp: list_all_iff)
  ultimately show ?thesis using that [of a b c] t bc by auto
qed

section \<open>Matching with a wildcard\<close>

text \<open>The characters a wildcard stands for.\<close>

definition wild_ok :: "u32 \<Rightarrow> bool \<Rightarrow> bytes \<Rightarrow> bool" where
  "wild_ok flags whole w \<longleftrightarrow> w = [ch_star] \<or> list_all label_char w \<or>
     (whole \<and> flags AND X509_CHECK_FLAG_MULTI_LABEL_WILDCARDS \<noteq> 0 \<and> (\<forall>c \<in> set w. label_char c \<or> c = ch_dot))"

text \<open>A subject that matches the pattern \<open>a * b . c\<close>.\<close>

definition wild_match :: "u32 \<Rightarrow> bytes \<Rightarrow> bytes \<Rightarrow> bool" where
  "wild_match flags p s \<longleftrightarrow>
     (\<exists>a b c a' w b' c'. p = a @ ch_star # b @ ch_dot # c \<and> s = a' @ w @ b' @ ch_dot # c' \<and>
        same_nocase a a' \<and> same_nocase b b' \<and> same_nocase c c' \<and>
        list_all label_char a \<and> list_all label_char b \<and> (a = [] \<or> b = []) \<and> ch_dot \<in> set c \<and> ch_star \<notin> set c \<and>
        wild_ok flags (a = [] \<and> b = []) w \<and> (a = [] \<and> b = [] \<longrightarrow> w \<noteq> []))"

lemma same_nocase_swap: "same_nocase p s \<Longrightarrow> 0 \<notin> set s \<Longrightarrow> same_nocase s p"
  by (simp add: same_nocase_def)

lemma same_nocase_zero: "same_nocase p s \<Longrightarrow> 0 \<notin> set s"
proof -
  have z: "to_lower c = 0 \<longleftrightarrow> c = 0" for c by (rule to_lower_small) simp
  assume a: "same_nocase p s"
  then have "0 \<notin> to_lower ` set p" using z by (fastforce simp: same_nocase_def)
  then have "0 \<notin> to_lower ` set s" using a by (metis same_nocase_def list.set_map)
  then show ?thesis using z by force
qed

lemma wildcard_match_shape:
  assumes m: "wildcard_match a (b @ ch_dot # c) s flags" and nodot: "flags AND X509_CHECK_FLAG_DOT_SUBDOMAINS = 0"
    and ok: "list_all label_char a" "list_all label_char b" "a = [] \<or> b = []" "\<forall>x \<in> set c. label_char x \<or> x = ch_dot" "ch_dot \<in> set c"
  shows "wild_match flags (a @ ch_star # b @ ch_dot # c) s"
proof -
  let ?t = "b @ ch_dot # c"
  define a' w t' where "a' = take (length a) s" and "w = take (length s - length ?t - length a) (drop (length a) s)" and "t' = drop (length s - length ?t) s"
  have len: "length a + length ?t \<le> length s" using m by (auto simp: wildcard_match_def split: if_splits)
  have "length s - length ?t = length a + (length s - length ?t - length a)" using len by simp
  then have s: "s = a' @ w @ t'" unfolding a'_def w_def t'_def by (metis append_take_drop_id append.assoc take_add)
  have sa: "same_nocase a a'" and st: "same_nocase t' ?t" using m nodot by (auto simp: wildcard_match_def Let_def equal_nocase_iff a'_def t'_def split: if_splits)
  have "0 \<notin> set ?t" using ok(2,4) label_char_distinct by (force simp: list_all_iff)
  then have "same_nocase ?t t'" using same_nocase_swap [OF st] by simp
  then obtain b' c' where t': "t' = b' @ ch_dot # c'" "same_nocase b b'" "same_nocase c c'" unfolding same_nocase_append by auto
  have whole: "(a = [] \<and> ?t \<noteq> [] \<and> hd ?t = ch_dot) \<longleftrightarrow> (a = [] \<and> b = [])"
    using ok(2) by (cases b) (auto simp: label_char_def)
  have "wild_ok flags (a = [] \<and> b = []) w \<and> (a = [] \<and> b = [] \<longrightarrow> w \<noteq> [])"
    using m unfolding wildcard_match_def whole Let_def w_def [symmetric]
    by (auto simp: wild_ok_def list_all_iff label_char_def split: if_splits)
  moreover have "ch_star \<notin> set c" using ok(4) label_char_distinct char_distinct(4) by metis
  ultimately show ?thesis using s sa t' ok unfolding wild_match_def by blast
qed

lemma wildcard_shape:
  assumes "equal_wildcard p s flags" and "flags AND X509_CHECK_FLAG_DOT_SUBDOMAINS = 0"
  shows "same_nocase p s \<or> wild_match flags p s"
proof (cases "if \<not> (length s > 1 \<and> hd s = ch_dot) then valid_star p flags else None")
  case None
  then show ?thesis using assms equal_nocase_iff by (simp add: equal_wildcard_def)
next
  case (Some k)
  then have "valid_star p flags = Some k" by (simp split: if_splits)
  then obtain a b c where p: "p = a @ ch_star # b @ ch_dot # c" "k = length a" "list_all label_char a" "list_all label_char b"
    "\<forall>x \<in> set c. label_char x \<or> x = ch_dot" "ch_dot \<in> set c" "a = [] \<or> b = []" by (rule valid_star_shape)
  have "wildcard_match a (b @ ch_dot # c) s flags" using assms(1) unfolding equal_wildcard_def Some by (simp add: p(1,2))
  then show ?thesis using wildcard_match_shape assms(2) p by blast
qed

text \<open>The other way round, for the usual pattern \<open>*.c\<close>: a host of one more label matches.\<close>

lemma star_loop_labels:
  assumes "list_all label_char l" and "l \<noteq> []" and "label_start st \<longrightarrow> hd l \<noteq> ch_hyphen" and "last l \<noteq> ch_hyphen"
  shows "\<exists>st'. star_loop (l @ p) flags i st dots star = star_loop p flags (i + length l) st' dots star \<and> \<not> label_start st' \<and> \<not> label_hyphen st'"
  using assms
proof (induction l arbitrary: i st)
  case (Cons c l)
  obtain st1 where st1: "star_loop ((c # l) @ p) flags i st dots star = star_loop (l @ p) flags (i + 1) st1 dots star" "\<not> label_start st1"
    "label_hyphen st1 \<longleftrightarrow> c = ch_hyphen"
  proof (cases "c = ch_hyphen")
    case True
    then show ?thesis using that [of "st\<lparr>label_hyphen := True\<rparr>"] Cons.prems by simp
  next
    case False
    then have "is_alnum c" "c \<noteq> ch_star" using Cons.prems label_char_distinct [of c] by (auto simp: label_char_def)
    then show ?thesis using that [of "(if label_start st \<and> starts_idna (c # l @ p) then st\<lparr>label_idna := True\<rparr> else st)\<lparr>label_hyphen := False, label_start := False\<rparr>"] False
      by (simp add: Let_def)
  qed
  show ?case
  proof (cases "l = []")
    case True
    then show ?thesis using st1 Cons.prems(4) by auto
  next
    case False
    then show ?thesis using Cons.IH [of st1 "i + 1"] Cons.prems st1 by auto
  qed
qed simp

text \<open>Domain names: labels of letters, digits and inner hyphens.\<close>

definition good_label :: "bytes \<Rightarrow> bool" where
  "good_label l \<longleftrightarrow> l \<noteq> [] \<and> list_all label_char l \<and> hd l \<noteq> ch_hyphen \<and> last l \<noteq> ch_hyphen"

definition dotted :: "bytes list \<Rightarrow> bytes" where
  "dotted ls = concat (map (\<lambda>l. ch_dot # l) ls)"

lemma star_loop_dotted:
  assumes "\<forall>l \<in> set ls. good_label l" and "\<not> label_start st" and "\<not> label_hyphen st"
  shows "\<exists>st' i'. star_loop (dotted ls) flags i st dots star = Some (st', dots + length ls, star) \<and> \<not> label_start st' \<and> \<not> label_hyphen st'"
  using assms
proof (induction ls arbitrary: i st dots)
  case (Cons l ls)
  let ?st = "\<lparr>label_start = True, label_hyphen = False, label_idna = False\<rparr>"
  have "star_loop (dotted (l # ls)) flags i st dots star = star_loop (l @ dotted ls) flags (i + 1) ?st (dots + 1) star"
    using Cons.prems by (simp add: dotted_def)
  moreover obtain st1 where "star_loop (l @ dotted ls) flags (i + 1) ?st (dots + 1) star = star_loop (dotted ls) flags (i + 1 + length l) st1 (dots + 1) star"
      "\<not> label_start st1" "\<not> label_hyphen st1"
    using star_loop_labels [of l ?st "dotted ls" flags "i + 1" "dots + 1" star] Cons.prems(1) by (auto simp: good_label_def)
  ultimately show ?case using Cons.IH [of st1 "i + 1 + length l" "dots + 1"] Cons.prems(1) by auto
qed (simp add: dotted_def)

lemma valid_star_whole:
  assumes "\<forall>l \<in> set ls. good_label l" and "2 \<le> length ls"
  shows "valid_star (ch_star # dotted ls) flags = Some 0"
proof -
  let ?st = "\<lparr>label_start = False, label_hyphen = False, label_idna = False\<rparr>"
  have "hd (dotted ls) = ch_dot" using assms(2) by (cases ls) (auto simp: dotted_def)
  then have "star_loop (ch_star # dotted ls) flags 0 \<lparr>label_start = True, label_hyphen = False, label_idna = False\<rparr> 0 None = star_loop (dotted ls) flags 1 ?st 0 (Some 0)"
    by (simp add: Let_def)
  moreover obtain st' where "star_loop (dotted ls) flags 1 ?st 0 (Some 0) = Some (st', length ls, Some 0)" "\<not> label_start st'" "\<not> label_hyphen st'"
    using star_loop_dotted [OF assms(1), of ?st flags 1 0 "Some 0"] by auto
  ultimately show ?thesis using assms(2) by (simp add: valid_star_def)
qed

lemma wildcard_accepts:
  assumes "\<forall>l \<in> set ls. good_label l" and "2 \<le> length ls" and "list_all label_char w" and "w \<noteq> []" and "same_nocase (dotted ls) d"
    and "flags AND X509_CHECK_FLAG_DOT_SUBDOMAINS = 0"
  shows "equal_wildcard (ch_star # dotted ls) (w @ d) flags"
proof -
  obtain l ls' where ls: "ls = l # ls'" using assms(2) by (cases ls) auto
  have d: "dotted ls = ch_dot # l @ dotted ls'" by (simp add: ls dotted_def)
  have len: "length d = length (dotted ls)" using same_nocase_length [OF assms(5)] by simp
  have "hd (w @ d) \<noteq> ch_dot" using assms(3,4) label_char_distinct by (cases w) auto
  then have "equal_wildcard (ch_star # dotted ls) (w @ d) flags \<longleftrightarrow> wildcard_match [] (dotted ls) (w @ d) flags"
    using valid_star_whole [OF assms(1,2)] by (simp add: equal_wildcard_def)
  moreover have "0 \<notin> set d" using same_nocase_zero [OF assms(5)] .
  ultimately show ?thesis using assms(3-6) len d same_nocase_swap [OF assms(5)]
    by (auto simp: wildcard_match_def equal_nocase_iff list_all_iff label_char_def Let_def)
qed

section \<open>Checks of a certificate\<close>

lemma dot_flag_and [simp]:
  "(flags AND NOT X509_CHECK_FLAG_DOT_SUBDOMAINS) AND X509_CHECK_FLAG_DOT_SUBDOMAINS = 0"
  "(flags OR X509_CHECK_FLAG_DOT_SUBDOMAINS) AND X509_CHECK_FLAG_DOT_SUBDOMAINS = X509_CHECK_FLAG_DOT_SUBDOMAINS"
  "X509_CHECK_FLAG_DOT_SUBDOMAINS \<noteq> 0"
  by (simp_all add: X509_CHECK_FLAG_DOT_SUBDOMAINS_def and.assoc bit.conj_disj_distrib2)

lemma other_flag_and:
  assumes "m \<in> {X509_CHECK_FLAG_NO_WILDCARDS, X509_CHECK_FLAG_MULTI_LABEL_WILDCARDS, X509_CHECK_FLAG_SINGLE_LABEL_SUBDOMAINS, X509_CHECK_FLAG_NEVER_CHECK_SUBJECT}"
  shows "(flags AND NOT X509_CHECK_FLAG_DOT_SUBDOMAINS) AND m = flags AND m" and "(flags OR X509_CHECK_FLAG_DOT_SUBDOMAINS) AND m = flags AND m"
  using assms by (auto simp: X509_CHECK_FLAG_DOT_SUBDOMAINS_def X509_CHECK_FLAG_NO_WILDCARDS_def X509_CHECK_FLAG_MULTI_LABEL_WILDCARDS_def
      X509_CHECK_FLAG_SINGLE_LABEL_SUBDOMAINS_def X509_CHECK_FLAG_NEVER_CHECK_SUBJECT_def and.assoc bit.conj_disj_distrib2)

text \<open>The host \<open>b\<close> asked for is the name \<open>s\<close> of a certificate, lies below it, or is one its wildcard stands for.\<close>

definition host_match :: "u32 \<Rightarrow> bytes \<Rightarrow> bytes \<Rightarrow> bool" where
  "host_match flags s b \<longleftrightarrow>
     (if length b > 1 \<and> hd b = ch_dot then (\<exists>pre q. s = pre @ q \<and> skippable flags pre \<and> same_nocase q b)
      else same_nocase s b \<or> (flags AND X509_CHECK_FLAG_NO_WILDCARDS = 0 \<and> wild_match flags s b))"

definition host_flags :: "u32 \<Rightarrow> bytes \<Rightarrow> u32" where
  "host_flags flags b = (let f = flags AND NOT X509_CHECK_FLAG_DOT_SUBDOMAINS in if length b > 1 \<and> hd b = ch_dot then f OR X509_CHECK_FLAG_DOT_SUBDOMAINS else f)"

definition host_equal :: "u32 \<Rightarrow> equal_fn" where
  "host_equal flags = (if flags AND X509_CHECK_FLAG_NO_WILDCARDS \<noteq> 0 then equal_nocase else equal_wildcard)"

lemma skippable_flags: "skippable (host_flags flags b) pre = skippable flags pre"
  by (simp add: skippable_def host_flags_def other_flag_and Let_def)

lemma host_flags_wild: "\<not> (length b > 1 \<and> hd b = ch_dot) \<Longrightarrow> wild_match (host_flags flags b) p s = wild_match flags p s"
  unfolding wild_match_def wild_ok_def by (simp add: host_flags_def other_flag_and Let_def)

lemma host_equal_match:
  assumes "host_equal flags s b (host_flags flags b)"
  shows "host_match flags s b"
proof (cases "length b > 1 \<and> hd b = ch_dot")
  case True
  then have "equal_nocase s b (host_flags flags b)" using assms by (auto simp: host_equal_def equal_wildcard_def split: if_splits)
  moreover have "host_flags flags b AND X509_CHECK_FLAG_DOT_SUBDOMAINS \<noteq> 0" using True by (simp add: host_flags_def Let_def)
  ultimately show ?thesis using True by (simp add: host_match_def equal_nocase_suffix skippable_flags)
next
  case False
  then have f: "host_flags flags b AND X509_CHECK_FLAG_DOT_SUBDOMAINS = 0" by (auto simp: host_flags_def Let_def)
  show ?thesis
  proof (cases "flags AND X509_CHECK_FLAG_NO_WILDCARDS = 0")
    case True
    then have "equal_wildcard s b (host_flags flags b)" using assms by (simp add: host_equal_def)
    from wildcard_shape [OF this f] show ?thesis using True False host_flags_wild [OF False] by (auto simp: host_match_def)
  next
    case nowild: False
    then have "same_nocase s b" using assms equal_nocase_iff [OF f] by (simp add: host_equal_def)
    then show ?thesis using False by (auto simp: host_match_def)
  qed
qed

text \<open>A check against the alternative names answers whether one of them matches.\<close>

definition ia5_name :: "asn1_string \<Rightarrow> bool" where
  "ia5_name a \<longleftrightarrow> stype a = V_ASN1_IA5STRING \<and> sdata a \<noteq> None \<and> slen a \<noteq> 0"

lemma do_check_string_ia5:
  "\<exists>peer. do_check_string E a (Some V_ASN1_IA5STRING) equal flags ct b peername = Some (if ia5_name a \<and> equal (string_bytes a) b flags then 1 else 0, peer)"
  by (auto simp: do_check_string_def ia5_name_def Let_def)

definition name_matches :: "gen_type \<Rightarrow> equal_fn \<Rightarrow> u32 \<Rightarrow> bytes \<Rightarrow> general_name \<Rightarrow> bool" where
  "name_matches ct equal flags b g \<longleftrightarrow>
     gtype g = ct \<and> (case gen_string g of None \<Rightarrow> False | Some a \<Rightarrow> ia5_name a \<and> equal (string_bytes a) b flags)"

lemma check_gens_ia5:
  assumes "ct \<in> {DNS_type, EMAIL_type}"
  shows "\<exists>peer. check_gens E gens V_ASN1_IA5STRING equal flags ct b peername =
    Some (if \<exists>g \<in> set gens. name_matches ct equal flags b g then 1 else 0, peer)"
proof (induction gens)
  case (Cons g gens)
  show ?case
  proof (cases "gtype g = ct")
    case True
    then obtain a where a: "gen_string g = Some a" using assms by (cases g) (auto simp: gen_string_def)
    then have m: "name_matches ct equal flags b g \<longleftrightarrow> ia5_name a \<and> equal (string_bytes a) b flags" using True by (simp add: name_matches_def)
    obtain peer where d: "do_check_string E a (Some V_ASN1_IA5STRING) equal flags ct b peername =
        Some (if name_matches ct equal flags b g then 1 else 0, peer)" using do_check_string_ia5 unfolding m by blast
    show ?thesis using Cons.IH True a d by (cases "name_matches ct equal flags b g") auto
  next
    case False
    then show ?thesis using Cons.IH by (simp add: name_matches_def)
  qed
qed simp

lemma memchr_absent: "c \<notin> set bs \<longleftrightarrow> memchr bs c = None"
  by (induction bs) auto

lemma x509_check_host_flags:
  "do_x509_check E x b flags DNS_type peername =
     (case san_ext x of
        Some gens \<Rightarrow> check_gens E gens V_ASN1_IA5STRING (host_equal flags) (host_flags flags b) DNS_type b peername
      | None \<Rightarrow>
          if flags AND X509_CHECK_FLAG_NEVER_CHECK_SUBJECT \<noteq> 0 then Some (0, None)
          else check_subject E (subject_name x) NID_commonName (- 1) (host_equal flags) (host_flags flags b) DNS_type b peername)"
proof -
  have h: "host_flags flags b = (if length b > 1 \<and> hd b = ch_dot then (flags AND NOT X509_CHECK_FLAG_DOT_SUBDOMAINS) OR X509_CHECK_FLAG_DOT_SUBDOMAINS
      else flags AND NOT X509_CHECK_FLAG_DOT_SUBDOMAINS)" by (simp add: host_flags_def Let_def)
  have m: "host_flags flags b AND X509_CHECK_FLAG_NO_WILDCARDS = flags AND X509_CHECK_FLAG_NO_WILDCARDS"
    "host_flags flags b AND X509_CHECK_FLAG_NEVER_CHECK_SUBJECT = flags AND X509_CHECK_FLAG_NEVER_CHECK_SUBJECT"
    unfolding h by (auto simp: other_flag_and)
  have e: "DNS_type \<noteq> EMAIL_type" "NID_commonName \<noteq> NID_undef" by (simp_all add: NID_commonName_def NID_undef_def)
  show ?thesis unfolding do_x509_check_def Let_def
    by (simp only: e simp_thms if_False if_True h [symmetric] m prod.case host_equal_def [symmetric] cong: option.case_cong)
qed

lemma name_matches_dns:
  "(\<exists>g \<in> set gens. name_matches DNS_type equal flags b g) \<longleftrightarrow> (\<exists>a. GEN_DNS a \<in> set gens \<and> ia5_name a \<and> equal (string_bytes a) b flags)"
proof -
  have "name_matches DNS_type equal flags b g \<longleftrightarrow> (\<exists>a. g = GEN_DNS a \<and> ia5_name a \<and> equal (string_bytes a) b flags)" for g
    by (cases g) (auto simp: name_matches_def gen_string_def)
  then show ?thesis by auto
qed

lemma check_host_altname:
  assumes "san_ext x = Some gens" and "0 \<notin> set b"
  shows "\<exists>peer. X509_check_host E x (Some b) flags peername =
    Some (if \<exists>a. GEN_DNS a \<in> set gens \<and> ia5_name a \<and> host_equal flags (string_bytes a) b (host_flags flags b) then 1 else 0, peer)"
proof -
  have "X509_check_host E x (Some b) flags peername = check_gens E gens V_ASN1_IA5STRING (host_equal flags) (host_flags flags b) DNS_type b peername"
    using iffD1 [OF memchr_absent assms(2)] by (simp only: X509_check_host_def x509_check_host_flags assms(1) option.case simp_thms if_False)
  then show ?thesis using check_gens_ia5 [of DNS_type E gens "host_equal flags" "host_flags flags b" b peername]
    by (simp only: name_matches_dns insert_iff simp_thms)
qed

text \<open>The common name is consulted only for a certificate without alternative names.\<close>

lemma do_check_string_utf8:
  assumes "do_check_string E a None equal flags DNS_type b peername = Some (rv, peer)" and "0 < rv"
  obtains n astr s where "ASN1_STRING_to_UTF8 E a = Some (n, astr)" and "0 \<le> n" and "s = take (nat n) (case astr of None \<Rightarrow> [] | Some d \<Rightarrow> d)"
    and "x509v3_looks_like_dns_name s" and "equal s b flags"
  using assms by (auto simp: do_check_string_def Let_def split: if_splits option.splits prod.splits)

lemma check_subject_positive:
  assumes "check_subject E name cnid j equal flags DNS_type b peername = Some (rv, peer)" and "0 < rv"
  shows "\<exists>a peer. (cnid, a) \<in> set (seen_entries name) \<and> do_check_string E a None equal flags DNS_type b peername = Some (rv, peer)"
  using assms
proof (induction E name cnid j equal flags DNS_type b peername rule: check_subject.induct)
  case (1 E name cnid j equal flags b peername)
  let ?j = "X509_NAME_get_index_by_NID name cnid j"
  let ?e = "entries name ! nat ?j"
  have j: "0 \<le> ?j" using "1.prems" by (subst (asm) check_subject.simps) (auto simp: Let_def split: if_splits)
  have "nat ?j < length (seen_entries name)" using next_index_bounds(2) [OF refl j] j by linarith
  then have "?e \<in> set (seen_entries name)" using seen_entries_nth by (metis nth_mem)
  then have e: "fst ?e = cnid" "?e \<in> set (seen_entries name)" using next_index_bounds(3) [OF refl j] by simp_all
  obtain rv1 peer1 where d: "do_check_string E (snd ?e) None equal flags DNS_type b peername = Some (rv1, peer1)"
    using "1.prems" j by (subst (asm) check_subject.simps) (auto simp: Let_def split: option.splits)
  show ?case
  proof (cases "rv1 = 0")
    case True
    then have "check_subject E name cnid ?j equal flags DNS_type b peername = Some (rv, peer)"
      using "1.prems"(1) j d by (subst (asm) check_subject.simps) (simp add: Let_def)
    then show ?thesis using "1.hyps" [OF refl _ d refl] "1.prems"(2) j True by simp
  next
    case False
    then have "rv1 = rv" using "1.prems"(1) j d by (subst (asm) check_subject.simps) (simp add: Let_def)
    then show ?thesis using e d by (metis prod.collapse)
  qed
qed

lemma check_host_matched:
  assumes r: "X509_check_host E x chk flags peername = Some (rv, peer)" "0 < rv"
  shows "\<exists>b. chk = Some b \<and> 0 \<notin> set b \<and>
    (case san_ext x of
       Some gens \<Rightarrow> \<exists>a. GEN_DNS a \<in> set gens \<and> stype a = V_ASN1_IA5STRING \<and> host_match flags (string_bytes a) b
     | None \<Rightarrow>
         flags AND X509_CHECK_FLAG_NEVER_CHECK_SUBJECT = 0 \<and>
         (\<exists>a n d. (NID_commonName, a) \<in> set (seen_entries (subject_name x)) \<and> ASN1_STRING_to_UTF8 E a = Some (n, d) \<and> 0 \<le> n \<and>
            (let s = take (nat n) (case d of None \<Rightarrow> [] | Some d \<Rightarrow> d) in x509v3_looks_like_dns_name s \<and> host_match flags s b)))"
proof -
  obtain b where b: "chk = Some b" using r by (cases chk) (auto simp: X509_check_host_def)
  then have z: "0 \<notin> set b" using r memchr_absent [of 0 b] by (auto simp: X509_check_host_def split: if_splits)
  have d: "do_x509_check E x b flags DNS_type peername = Some (rv, peer)" using r z memchr_absent [of 0 b] by (simp add: X509_check_host_def b)
  show ?thesis
  proof (cases "san_ext x")
    case (Some gens)
    then show ?thesis using check_host_altname [OF Some z, of E flags peername] r b z host_equal_match by (auto simp: ia5_name_def split: if_splits)
  next
    case None
    then have f: "flags AND X509_CHECK_FLAG_NEVER_CHECK_SUBJECT = 0" and
        "check_subject E (subject_name x) NID_commonName (- 1) (host_equal flags) (host_flags flags b) DNS_type b peername = Some (rv, peer)"
      using d r(2) by (auto simp: x509_check_host_flags split: if_splits)
    from check_subject_positive [OF this(2) r(2)] obtain a peer1 where a: "(NID_commonName, a) \<in> set (seen_entries (subject_name x))"
      "do_check_string E a None (host_equal flags) (host_flags flags b) DNS_type b peername = Some (rv, peer1)" by blast
    show ?thesis
      by (rule do_check_string_utf8 [OF a(2) r(2)]) (use None b z f a(1) host_equal_match in \<open>auto simp: Let_def\<close>)
  qed
qed

text \<open>The usual wildcard is accepted.\<close>

lemma wildcard_host:
  assumes x: "san_ext x = Some gens" "GEN_DNS a \<in> set gens" "ia5_name a" "string_bytes a = ch_star # dotted ls"
    and ls: "\<forall>l \<in> set ls. good_label l" "2 \<le> length ls" and w: "list_all label_char w" "w \<noteq> []" and d: "same_nocase (dotted ls) d"
    and flags: "flags AND X509_CHECK_FLAG_NO_WILDCARDS = 0"
  shows "\<exists>peer. X509_check_host E x (Some (w @ d)) flags peername = Some (1, peer)"
proof -
  have "\<forall>c \<in> set w. c \<noteq> 0" using w(1) label_char_distinct by (auto simp: list_all_iff)
  then have z: "0 \<notin> set (w @ d)" using same_nocase_zero [OF d] by auto
  have "hd (w @ d) \<noteq> ch_dot" using w label_char_distinct by (cases w) auto
  then have "host_flags flags (w @ d) AND X509_CHECK_FLAG_DOT_SUBDOMAINS = 0" by (auto simp: host_flags_def Let_def)
  then have e: "host_equal flags (string_bytes a) (w @ d) (host_flags flags (w @ d))"
    using wildcard_accepts [OF ls w d] flags x(4) by (simp add: host_equal_def)
  have "\<exists>a. GEN_DNS a \<in> set gens \<and> ia5_name a \<and> host_equal flags (string_bytes a) (w @ d) (host_flags flags (w @ d))"
    by (rule exI [of _ a], intro conjI x(2,3) e)
  then show ?thesis using check_host_altname [OF x(1) z, of E flags peername] by (simp only: if_True)
qed

end
