(* ===== verification/X509Cons.thy ===== *)
theory X509Cons
  imports X509Host
begin

unbundle bit_operations_syntax

text \<open>
  Name constraints, \<^verbatim>\<open>crypto/x509v3/v3_ncons.c\<close>.  \<open>i2d\<close> stands for \<^verbatim>\<open>i2d_X509_NAME\<close>, the encoder the ASN.1
  templates make: its result and the name with its encodings brought up to date.  The code leaves that name in
  place of the old one, so a later call finds it with \<^verbatim>\<open>modified\<close> cleared; the model asks \<open>i2d\<close> again.
  \<^item> \<open>nc_dns_iff\<close>: the subtree of a DNS constraint.
  \<^item> \<open>nc_match_sound\<close>, \<open>nc_match_dns_iff\<close>: permitted and excluded subtrees.
  \<^item> \<open>wild_match_within\<close>: a wildcard does not lead out of a permitted subtree.
  \<^item> \<open>nc_check_sound\<close>, \<open>nc_check_bounded\<close>: what a certificate that passes satisfies, and the work it took.
  \<^item> \<open>nc_check_codes\<close>: the results there are.
\<close>

definition X509_V_OK :: int where "X509_V_OK = 0"
definition X509_V_ERR_UNSPECIFIED :: int where "X509_V_ERR_UNSPECIFIED = 1"
definition X509_V_ERR_OUT_OF_MEM :: int where "X509_V_ERR_OUT_OF_MEM = 17"
definition X509_V_ERR_PERMITTED_VIOLATION :: int where "X509_V_ERR_PERMITTED_VIOLATION = 47"
definition X509_V_ERR_EXCLUDED_VIOLATION :: int where "X509_V_ERR_EXCLUDED_VIOLATION = 48"
definition X509_V_ERR_SUBTREE_MINMAX :: int where "X509_V_ERR_SUBTREE_MINMAX = 49"
definition X509_V_ERR_UNSUPPORTED_CONSTRAINT_TYPE :: int where "X509_V_ERR_UNSUPPORTED_CONSTRAINT_TYPE = 51"
definition X509_V_ERR_UNSUPPORTED_NAME_SYNTAX :: int where "X509_V_ERR_UNSUPPORTED_NAME_SYNTAX = 53"
definition X509_V_ERR_NAME_CONSTRAINTS_WITHOUT_SANS :: int where "X509_V_ERR_NAME_CONSTRAINTS_WITHOUT_SANS = 67"

section \<open>One name and one subtree\<close>

type_synonym name_encoder = "x509_name \<Rightarrow> int \<times> x509_name"

text \<open>The name with its canonical encoding up to date, \<open>None\<close> when that fails.\<close>

definition up_to_date :: "name_encoder \<Rightarrow> x509_name \<Rightarrow> x509_name option" where
  "up_to_date i2d nm =
     (if modified nm then (let (r, nm') = i2d nm in if r < 0 then None else Some nm') else Some nm)"

definition nc_dn :: "name_encoder \<Rightarrow> x509_name \<Rightarrow> x509_name \<Rightarrow> int" where
  "nc_dn i2d nm constr =
     (case up_to_date i2d nm of
        None \<Rightarrow> X509_V_ERR_OUT_OF_MEM
      | Some nm \<Rightarrow>
          (case up_to_date i2d constr of
             None \<Rightarrow> X509_V_ERR_OUT_OF_MEM
           | Some constr \<Rightarrow>
               if length (canon_enc constr) > length (canon_enc nm) then X509_V_ERR_PERMITTED_VIOLATION
               else if canon_enc constr \<noteq> take (length (canon_enc constr)) (canon_enc nm) then X509_V_ERR_PERMITTED_VIOLATION
               else X509_V_OK))"

definition starts_with :: "cbs \<Rightarrow> u8 \<Rightarrow> bool" where
  "starts_with cbs c \<longleftrightarrow> CBS_len cbs > 0 \<and> CBS_data cbs ! 0 = c"

definition nc_equal_case :: "cbs \<Rightarrow> cbs \<Rightarrow> bool" where
  "nc_equal_case a b =
     (if CBS_len a \<noteq> CBS_len b then False
      else list_all2 (\<lambda>x y. OPENSSL_tolower (uint x) = OPENSSL_tolower (uint y)) (CBS_data a) (CBS_data b))"

definition has_suffix_case :: "cbs \<Rightarrow> cbs \<Rightarrow> bool" where
  "has_suffix_case a b =
     (if CBS_len a < CBS_len b then False
      else let (_, copy) = CBS_skip (CBS_len a - CBS_len b) a in nc_equal_case copy b)"

definition nc_dns :: "asn1_string \<Rightarrow> asn1_string \<Rightarrow> int" where
  "nc_dns dns constr =
     (let dns_cbs = string_bytes dns; base_cbs = string_bytes constr in
      if CBS_len base_cbs = 0 then X509_V_OK
      else if starts_with base_cbs ch_dot then
        if has_suffix_case dns_cbs base_cbs then X509_V_OK else X509_V_ERR_PERMITTED_VIOLATION
      else
        case (if CBS_len dns_cbs > CBS_len base_cbs then
                (case CBS_skip (CBS_len dns_cbs - CBS_len base_cbs - 1) dns_cbs of
                   (None, _) \<Rightarrow> None
                 | (Some _, dns_cbs) \<Rightarrow>
                     (case CBS_get_u8 dns_cbs of
                        (None, _) \<Rightarrow> None
                      | (Some dot, dns_cbs) \<Rightarrow> if dot \<noteq> ch_dot then None else Some dns_cbs))
              else Some dns_cbs) of
          None \<Rightarrow> X509_V_ERR_PERMITTED_VIOLATION
        | Some dns_cbs \<Rightarrow> if \<not> nc_equal_case dns_cbs base_cbs then X509_V_ERR_PERMITTED_VIOLATION else X509_V_OK)"

definition nc_email :: "asn1_string \<Rightarrow> asn1_string \<Rightarrow> int" where
  "nc_email eml constr =
     (case CBS_get_until_first ch_at (string_bytes eml) of
        (None, _) \<Rightarrow> X509_V_ERR_UNSUPPORTED_NAME_SYNTAX
      | (Some eml_local, eml_cbs) \<Rightarrow>
          (let (base_local, base_cbs) = CBS_get_until_first ch_at (string_bytes constr) in
           if base_local = None \<and> starts_with base_cbs ch_dot then
             if has_suffix_case eml_cbs base_cbs then X509_V_OK else X509_V_ERR_PERMITTED_VIOLATION
           else
             case (case base_local of
                     None \<Rightarrow> Some base_cbs
                   | Some l \<Rightarrow>
                       if CBS_len l > 0 \<and> \<not> CBS_mem_equal l (CBS_data eml_local) (CBS_len eml_local) then None
                       else Some (snd (CBS_skip 1 base_cbs))) of
               None \<Rightarrow> X509_V_ERR_PERMITTED_VIOLATION
             | Some base_cbs \<Rightarrow>
                 if \<not> nc_equal_case base_cbs (snd (CBS_skip 1 eml_cbs)) then X509_V_ERR_PERMITTED_VIOLATION else X509_V_OK))"

text \<open>The part of a URI after \<^verbatim>\<open>scheme://\<close>.\<close>

definition uri_rest :: "unit reader" where
  "uri_rest =
     rbind (CBS_get_until_first 0x3a) (\<lambda>scheme.
     rbind (CBS_skip 1) (\<lambda>_.
     rbind CBS_get_u8 (\<lambda>byte. if byte \<noteq> 0x2f then rfail else
     rbind CBS_get_u8 (\<lambda>byte. if byte \<noteq> 0x2f then rfail else rret ()))))"

definition uri_host :: "cbs \<Rightarrow> cbs" where
  "uri_host uri_cbs =
     (case CBS_get_until_first 0x3a uri_cbs of
        (Some host, _) \<Rightarrow> host
      | (None, uri_cbs) \<Rightarrow>
          (case CBS_get_until_first 0x2f uri_cbs of (Some host, _) \<Rightarrow> host | (None, uri_cbs) \<Rightarrow> uri_cbs))"

definition nc_uri :: "asn1_string \<Rightarrow> asn1_string \<Rightarrow> int" where
  "nc_uri uri constr =
     (let base_cbs = string_bytes constr in
      case uri_rest (string_bytes uri) of
        (None, _) \<Rightarrow> X509_V_ERR_UNSUPPORTED_NAME_SYNTAX
      | (Some _, uri_cbs) \<Rightarrow>
          (let host = uri_host uri_cbs in
           if CBS_len host = 0 then X509_V_ERR_UNSUPPORTED_NAME_SYNTAX
           else if starts_with base_cbs ch_dot then
             if has_suffix_case host base_cbs then X509_V_OK else X509_V_ERR_PERMITTED_VIOLATION
           else if \<not> nc_equal_case base_cbs host then X509_V_ERR_PERMITTED_VIOLATION
           else X509_V_OK))"

text \<open>\<open>nc_match\<close> calls it on names of the type of the base, so the union is read at its own member.\<close>

definition nc_match_single :: "name_encoder \<Rightarrow> general_name \<Rightarrow> general_name \<Rightarrow> int" where
  "nc_match_single i2d gen constr =
     (case (gen, constr) of
        (GEN_DIRNAME g, GEN_DIRNAME b) \<Rightarrow> nc_dn i2d g b
      | (GEN_DNS g, GEN_DNS b) \<Rightarrow> nc_dns g b
      | (GEN_EMAIL g, GEN_EMAIL b) \<Rightarrow> nc_email g b
      | (GEN_URI g, GEN_URI b) \<Rightarrow> nc_uri g b
      | _ \<Rightarrow> X509_V_ERR_UNSUPPORTED_CONSTRAINT_TYPE)"

section \<open>One name and all subtrees\<close>

text \<open>The first loop of \<^verbatim>\<open>nc_match\<close>: \<open>Inl\<close> an early return, \<open>Inr\<close> the value of \<^verbatim>\<open>match\<close> after it.\<close>

fun permitted_loop :: "name_encoder \<Rightarrow> general_name \<Rightarrow> general_subtree list \<Rightarrow> nat \<Rightarrow> int + nat" where
  "permitted_loop i2d gen [] match = Inr match"
| "permitted_loop i2d gen (sub # subs) match =
     (if gtype gen \<noteq> gtype (sub_base sub) then permitted_loop i2d gen subs match
      else if sub_minimum sub \<noteq> None \<or> sub_maximum sub \<noteq> None then Inl X509_V_ERR_SUBTREE_MINMAX
      else if match = 2 then permitted_loop i2d gen subs match
      else
        let match = (if match = 0 then 1 else match);
            r = nc_match_single i2d gen (sub_base sub)
        in if r = X509_V_OK then permitted_loop i2d gen subs 2
           else if r \<noteq> X509_V_ERR_PERMITTED_VIOLATION then Inl r
           else permitted_loop i2d gen subs match)"

fun excluded_loop :: "name_encoder \<Rightarrow> general_name \<Rightarrow> general_subtree list \<Rightarrow> int" where
  "excluded_loop i2d gen [] = X509_V_OK"
| "excluded_loop i2d gen (sub # subs) =
     (if gtype gen \<noteq> gtype (sub_base sub) then excluded_loop i2d gen subs
      else if sub_minimum sub \<noteq> None \<or> sub_maximum sub \<noteq> None then X509_V_ERR_SUBTREE_MINMAX
      else
        let r = nc_match_single i2d gen (sub_base sub)
        in if r = X509_V_OK then X509_V_ERR_EXCLUDED_VIOLATION
           else if r \<noteq> X509_V_ERR_PERMITTED_VIOLATION then r
           else excluded_loop i2d gen subs)"

definition nc_match :: "name_encoder \<Rightarrow> general_name \<Rightarrow> name_constraints \<Rightarrow> int" where
  "nc_match i2d gen c =
     (case permitted_loop i2d gen (permittedSubtrees c) 0 of
        Inl r \<Rightarrow> r
      | Inr match \<Rightarrow>
          if match = 1 then X509_V_ERR_PERMITTED_VIOLATION else excluded_loop i2d gen (excludedSubtrees c))"

section \<open>All names of a certificate\<close>

function nc_emails :: "name_encoder \<Rightarrow> x509_name \<Rightarrow> name_constraints \<Rightarrow> int \<Rightarrow> int" where
  "nc_emails i2d nm c i =
     (let i' = X509_NAME_get_index_by_NID nm NID_pkcs9_emailAddress i in
      if i' = - 1 then X509_V_OK
      else
        let rfc822Name = snd (entries nm ! nat i') in
        if stype rfc822Name \<noteq> V_ASN1_IA5STRING then X509_V_ERR_UNSUPPORTED_NAME_SYNTAX
        else
          let r = nc_match i2d (GEN_EMAIL rfc822Name) c in
          if r \<noteq> X509_V_OK then r else nc_emails i2d nm c i')"
  by pat_completeness auto
termination
proof (relation "measure (\<lambda>(i2d, nm, c, i). nat (int (length (seen_entries nm)) - i))")
  fix i2d nm c i i' a r
  assume i': "i' = X509_NAME_get_index_by_NID nm NID_pkcs9_emailAddress i" "i' \<noteq> - 1"
  show "((i2d, nm, c, i'), (i2d, nm, c, i)) \<in> measure (\<lambda>(i2d, nm, c, i). nat (int (length (seen_entries nm)) - i))"
    using next_index_less [OF i'(1) [symmetric] i'(2)] by simp
qed simp

declare nc_emails.simps [simp del]

fun nc_altnames :: "name_encoder \<Rightarrow> general_name list \<Rightarrow> name_constraints \<Rightarrow> int" where
  "nc_altnames i2d [] c = X509_V_OK"
| "nc_altnames i2d (gen # gens) c =
     (let r = nc_match i2d gen c in if r \<noteq> X509_V_OK then r else nc_altnames i2d gens c)"

definition altnames :: "x509 \<Rightarrow> general_name list" where
  "altnames x = (case altname x of None \<Rightarrow> [] | Some gens \<Rightarrow> gens)"

definition NAME_CONSTRAINTS_check :: "name_encoder \<Rightarrow> x509 \<Rightarrow> name_constraints \<Rightarrow> int" where
  "NAME_CONSTRAINTS_check i2d x c =
     (let nm = subject_name x;
          name_count = of_int (X509_NAME_entry_count nm) + of_nat (length (altnames x)) :: u64;
          constraint_count = of_nat (length (permittedSubtrees c)) + of_nat (length (excludedSubtrees c)) :: u64;
          check_count = constraint_count * name_count
      in if name_count < of_int (X509_NAME_entry_count nm) \<or>
            constraint_count < of_nat (length (permittedSubtrees c)) \<or>
            (constraint_count \<noteq> 0 \<and> check_count div constraint_count \<noteq> name_count) \<or>
            check_count > push_bit 20 1
         then X509_V_ERR_UNSPECIFIED
         else
           let r = (if X509_NAME_entry_count nm > 0 then
                      (let r = nc_match i2d (GEN_DIRNAME nm) c in if r \<noteq> X509_V_OK then r else nc_emails i2d nm c (- 1))
                    else X509_V_OK)
           in if r \<noteq> X509_V_OK then r else nc_altnames i2d (altnames x) c)"

section \<open>Subtrees of DNS names\<close>

text \<open>Equality without case, and \<open>d\<close> lies in the subtree \<open>b\<close>: it is \<open>b\<close> or ends in \<open>b\<close> at the start of a label.\<close>

definition same_letters :: "bytes \<Rightarrow> bytes \<Rightarrow> bool" where
  "same_letters p s \<longleftrightarrow> map to_lower p = map to_lower s"

definition dns_within :: "bytes \<Rightarrow> bytes \<Rightarrow> bool" where
  "dns_within b d \<longleftrightarrow> b = [] \<or> (\<exists>pre q. d = pre @ q \<and> same_letters q b \<and> (hd b = ch_dot \<or> pre = [] \<or> last pre = ch_dot))"

lemma tolower_byte: "OPENSSL_tolower (uint c) = uint (to_lower c)"
proof (cases "0x41 \<le> c \<and> c \<le> 0x5a")
  case True
  then have "uint (to_lower c) = uint c + 32" using to_lower_upper [OF True] by (metis of_nat_add of_nat_numeral uint_nat)
  then show ?thesis using True by (simp add: OPENSSL_tolower_def word_le_def)
qed (auto simp: OPENSSL_tolower_def to_lower_def word_le_def)

lemma nc_equal_case_iff: "nc_equal_case a b \<longleftrightarrow> same_letters a b"
  by (auto simp: nc_equal_case_def same_letters_def CBS_len_def CBS_data_def tolower_byte list_all2_conv_all_nth list_eq_iff_nth_eq word_uint_eq_iff)

lemma same_letters_length: "same_letters p s \<Longrightarrow> length p = length s"
  unfolding same_letters_def by (metis length_map)

lemma CBS_skip_ok: "n \<le> length s \<Longrightarrow> CBS_skip n s = (Some (), drop n s)"
  by (simp add: CBS_skip_def rbind_def cbs_get_def rret_def)

lemma CBS_get_u8_cons: "CBS_get_u8 (c # s) = (Some c, s)"
  by (simp add: CBS_get_u8_def rbind_def cbs_get_def rret_def)

lemma has_suffix_case_iff: "has_suffix_case a b \<longleftrightarrow> (\<exists>pre q. a = pre @ q \<and> same_letters q b)"
proof
  assume h: "has_suffix_case a b"
  let ?n = "length a - length b"
  have "same_letters (drop ?n a) b" using h CBS_skip_ok [of ?n a]
    by (simp add: has_suffix_case_def CBS_len_def nc_equal_case_iff split: if_splits)
  then show "\<exists>pre q. a = pre @ q \<and> same_letters q b" by (metis append_take_drop_id)
next
  assume "\<exists>pre q. a = pre @ q \<and> same_letters q b"
  then obtain pre q where q: "a = pre @ q" "same_letters q b" by blast
  then show "has_suffix_case a b" using same_letters_length [OF q(2)] CBS_skip_ok [of "length pre" a]
    by (simp add: has_suffix_case_def CBS_len_def nc_equal_case_iff)
qed

lemma error_distinct [simp]:
  "X509_V_ERR_PERMITTED_VIOLATION \<noteq> X509_V_OK" "X509_V_OK \<noteq> X509_V_ERR_PERMITTED_VIOLATION"
  "X509_V_ERR_EXCLUDED_VIOLATION \<noteq> X509_V_OK" "X509_V_ERR_SUBTREE_MINMAX \<noteq> X509_V_OK"
  "X509_V_ERR_UNSPECIFIED \<noteq> X509_V_OK" "X509_V_ERR_UNSUPPORTED_NAME_SYNTAX \<noteq> X509_V_OK" "X509_V_ERR_OUT_OF_MEM \<noteq> X509_V_OK"
  "X509_V_ERR_NAME_CONSTRAINTS_WITHOUT_SANS \<noteq> X509_V_OK" "X509_V_ERR_NAME_CONSTRAINTS_WITHOUT_SANS \<noteq> X509_V_ERR_OUT_OF_MEM"
  by (simp_all add: X509_V_OK_def X509_V_ERR_PERMITTED_VIOLATION_def X509_V_ERR_EXCLUDED_VIOLATION_def X509_V_ERR_SUBTREE_MINMAX_def
      X509_V_ERR_UNSPECIFIED_def X509_V_ERR_UNSUPPORTED_NAME_SYNTAX_def X509_V_ERR_OUT_OF_MEM_def X509_V_ERR_NAME_CONSTRAINTS_WITHOUT_SANS_def)

text \<open>The labels added on the left.\<close>

lemma nc_dns_longer:
  assumes "length b < length d" and "b \<noteq> []" and "hd b \<noteq> ch_dot"
  shows "dns_within b d \<longleftrightarrow> (\<exists>pre q. d = pre @ ch_dot # q \<and> same_letters q b)"
proof
  assume "dns_within b d"
  then obtain pre q where q: "d = pre @ q" "same_letters q b" "pre = [] \<or> last pre = ch_dot" using assms(2,3) unfolding dns_within_def by blast
  then have "pre \<noteq> []" using assms(1) same_letters_length [OF q(2)] by auto
  then have "pre = butlast pre @ [ch_dot]" using q(3) by (metis append_butlast_last_id)
  then have "d = butlast pre @ ch_dot # q" using q(1) by (metis append.assoc append_Cons append_Nil)
  then show "\<exists>pre q. d = pre @ ch_dot # q \<and> same_letters q b" using q(2) by blast
next
  assume "\<exists>pre q. d = pre @ ch_dot # q \<and> same_letters q b"
  then obtain pre q where "d = (pre @ [ch_dot]) @ q" "same_letters q b" by auto
  then show "dns_within b d" unfolding dns_within_def by (metis last_snoc)
qed

theorem nc_dns_iff:
  "nc_dns dns constr = (if dns_within (string_bytes constr) (string_bytes dns) then X509_V_OK else X509_V_ERR_PERMITTED_VIOLATION)"
proof -
  let ?d = "string_bytes dns" and ?b = "string_bytes constr"
  consider (empty) "?b = []" | (dot) "?b \<noteq> []" "hd ?b = ch_dot" | (short) "?b \<noteq> []" "hd ?b \<noteq> ch_dot" "length ?d \<le> length ?b"
    | (long) "?b \<noteq> []" "hd ?b \<noteq> ch_dot" "length ?b < length ?d" by linarith
  then show ?thesis
  proof cases
    case empty
    then show ?thesis by (simp add: nc_dns_def dns_within_def CBS_len_def)
  next
    case dot
    then have "dns_within ?b ?d \<longleftrightarrow> has_suffix_case ?d ?b" unfolding dns_within_def has_suffix_case_iff by blast
    then show ?thesis using dot by (simp add: nc_dns_def CBS_len_def starts_with_def CBS_data_def hd_conv_nth Let_def)
  next
    case short
    have "dns_within ?b ?d \<longleftrightarrow> same_letters ?d ?b"
    proof
      assume "dns_within ?b ?d"
      then obtain pre q where q: "?d = pre @ q" "same_letters q ?b" using short(1) unfolding dns_within_def by blast
      then show "same_letters ?d ?b" using same_letters_length [OF q(2)] short(3) by simp
    next
      assume "same_letters ?d ?b"
      then show "dns_within ?b ?d" unfolding dns_within_def by (metis append_Nil)
    qed
    then show ?thesis using short by (simp add: nc_dns_def CBS_len_def starts_with_def CBS_data_def hd_conv_nth Let_def nc_equal_case_iff)
  next
    case long
    let ?n = "length ?d - length ?b - 1"
    have cut: "?d = take ?n ?d @ ?d ! ?n # drop (Suc ?n) ?d" using long(3) by (simp add: id_take_nth_drop)
    have "dns_within ?b ?d \<longleftrightarrow> ?d ! ?n = ch_dot \<and> same_letters (drop (Suc ?n) ?d) ?b"
    proof
      assume "dns_within ?b ?d"
      then obtain pre q where q: "?d = pre @ ch_dot # q" "same_letters q ?b" using nc_dns_longer long by blast
      then have "length pre = ?n" using same_letters_length [OF q(2)] by simp
      then have "?d ! ?n = ch_dot" "drop (Suc ?n) ?d = q" unfolding q(1) by (metis nth_append_length, simp)
      then show "?d ! ?n = ch_dot \<and> same_letters (drop (Suc ?n) ?d) ?b" using q(2) by simp
    next
      assume "?d ! ?n = ch_dot \<and> same_letters (drop (Suc ?n) ?d) ?b"
      then show "dns_within ?b ?d" using nc_dns_longer long cut by metis
    qed
    moreover have n: "?n < length ?d" using long(3) by linarith
    moreover have "CBS_get_u8 (drop ?n ?d) = (Some (?d ! ?n), drop (Suc ?n) ?d)"
      by (simp only: Cons_nth_drop_Suc [OF n, symmetric] CBS_get_u8_cons)
    ultimately show ?thesis using long CBS_skip_ok [of ?n ?d]
      by (simp add: nc_dns_def CBS_len_def starts_with_def CBS_data_def hd_conv_nth Let_def nc_equal_case_iff)
  qed
qed

section \<open>Permitted and excluded subtrees\<close>

definition no_minmax :: "general_subtree \<Rightarrow> bool" where
  "no_minmax s \<longleftrightarrow> sub_minimum s = None \<and> sub_maximum s = None"

definition of_type :: "general_name \<Rightarrow> general_subtree list \<Rightarrow> general_subtree list" where
  "of_type gen subs = [s \<leftarrow> subs. gtype gen = gtype (sub_base s)]"

lemma permitted_step:
  assumes "gtype gen = gtype (sub_base s)" and "no_minmax s" and "m < 2"
  shows "permitted_loop i2d gen (s # subs) m =
    (if nc_match_single i2d gen (sub_base s) = X509_V_OK then permitted_loop i2d gen subs 2
     else if nc_match_single i2d gen (sub_base s) \<noteq> X509_V_ERR_PERMITTED_VIOLATION then Inl (nc_match_single i2d gen (sub_base s))
     else permitted_loop i2d gen subs 1)"
proof -
  have "(if m = 0 then 1 else m) = 1" "m \<noteq> 2" using assms(3) by auto
  then show ?thesis using assms(1,2) unfolding no_minmax_def permitted_loop.simps Let_def by (simp only: simp_thms if_False)
qed

lemma permitted_loop_sound:
  assumes "permitted_loop i2d gen subs m = Inr m'" and "m \<le> 2"
  shows "(\<forall>s \<in> set (of_type gen subs). no_minmax s) \<and> m \<le> m' \<and> m' \<le> 2 \<and> (of_type gen subs \<noteq> [] \<longrightarrow> m' \<noteq> 0) \<and>
    (m' = 2 \<longrightarrow> m = 2 \<or> (\<exists>s \<in> set (of_type gen subs). nc_match_single i2d gen (sub_base s) = X509_V_OK))"
  using assms
proof (induction subs arbitrary: m)
  case (Cons s subs)
  show ?case
  proof (cases "gtype gen = gtype (sub_base s)")
    case False
    then show ?thesis using Cons.IH [of m] Cons.prems by (simp add: of_type_def)
  next
    case True
    then have "no_minmax s" using Cons.prems(1) by (auto simp: no_minmax_def split: if_splits)
    then obtain m1 where m1: "permitted_loop i2d gen subs m1 = Inr m'" "m \<le> m1" "m1 \<noteq> 0" "m1 \<le> 2"
      "m1 = 2 \<longrightarrow> m = 2 \<or> nc_match_single i2d gen (sub_base s) = X509_V_OK"
    proof (cases "m = 2")
      case True
      then show ?thesis using that [of 2] Cons.prems(1) \<open>gtype gen = gtype (sub_base s)\<close> by (auto split: if_splits)
    next
      case False
      let ?m = "if nc_match_single i2d gen (sub_base s) = X509_V_OK then 2 else 1 :: nat"
      have m2: "m < 2" using Cons.prems(2) False by linarith
      have "permitted_loop i2d gen subs ?m = Inr m'"
        using Cons.prems(1) unfolding permitted_step [OF \<open>gtype gen = gtype (sub_base s)\<close> \<open>no_minmax s\<close> m2]
        by (metis (full_types) Inl_Inr_False)
      then show ?thesis by (rule that) (use m2 in auto)
    qed
    then show ?thesis using Cons.IH [OF m1(1,4)] m1 True \<open>no_minmax s\<close> by (auto simp: of_type_def)
  qed
qed (simp add: of_type_def)

lemma excluded_loop_sound:
  assumes "excluded_loop i2d gen subs = X509_V_OK"
  shows "\<forall>s \<in> set (of_type gen subs). no_minmax s \<and> nc_match_single i2d gen (sub_base s) = X509_V_ERR_PERMITTED_VIOLATION"
  using assms by (induction subs) (auto simp: of_type_def no_minmax_def Let_def split: if_splits)

definition obeys :: "name_encoder \<Rightarrow> general_name \<Rightarrow> name_constraints \<Rightarrow> bool" where
  "obeys i2d gen c \<longleftrightarrow>
     (\<forall>s \<in> set (of_type gen (permittedSubtrees c)) \<union> set (of_type gen (excludedSubtrees c)). no_minmax s) \<and>
     (of_type gen (permittedSubtrees c) \<noteq> [] \<longrightarrow> (\<exists>s \<in> set (of_type gen (permittedSubtrees c)). nc_match_single i2d gen (sub_base s) = X509_V_OK)) \<and>
     (\<forall>s \<in> set (of_type gen (excludedSubtrees c)). nc_match_single i2d gen (sub_base s) = X509_V_ERR_PERMITTED_VIOLATION)"

lemma nc_match_sound:
  assumes "nc_match i2d gen c = X509_V_OK"
  shows "obeys i2d gen c"
proof -
  have "\<exists>m. permitted_loop i2d gen (permittedSubtrees c) 0 = Inr m"
  proof (rule ccontr)
    assume "\<nexists>m. permitted_loop i2d gen (permittedSubtrees c) 0 = Inr m"
    then obtain r where "permitted_loop i2d gen (permittedSubtrees c) 0 = Inl r" by (metis sumE)
    moreover have "permitted_loop i2d gen subs m = Inl r \<Longrightarrow> r \<noteq> X509_V_OK" for subs m r
      by (induction subs arbitrary: m) (auto simp: Let_def split: if_splits)
    ultimately show False using assms by (auto simp: nc_match_def)
  qed
  then obtain m where m: "permitted_loop i2d gen (permittedSubtrees c) 0 = Inr m" by blast
  then have "m \<noteq> 1" "excluded_loop i2d gen (excludedSubtrees c) = X509_V_OK" using assms by (auto simp: nc_match_def split: if_splits)
  then show ?thesis using permitted_loop_sound [OF m] excluded_loop_sound unfolding obeys_def
    by (metis One_nat_def UnE Zero_not_Suc le_SucE le_zero_eq numeral_2_eq_2 zero_le)
qed

text \<open>Constraints on DNS names have no other outcome than match and mismatch, so the converse holds.\<close>

lemma permitted_loop_complete:
  assumes "\<forall>s \<in> set (of_type gen subs). no_minmax s \<and> nc_match_single i2d gen (sub_base s) \<in> {X509_V_OK, X509_V_ERR_PERMITTED_VIOLATION}" and "m \<le> 2"
  shows "permitted_loop i2d gen subs m =
    Inr (if m = 2 \<or> (\<exists>s \<in> set (of_type gen subs). nc_match_single i2d gen (sub_base s) = X509_V_OK) then 2
         else if of_type gen subs = [] then m else 1)"
  using assms
proof (induction subs arbitrary: m)
  case (Cons s subs)
  have c: "m = 0 \<or> m = 1 \<or> m = 2" using Cons.prems(2) by auto
  show ?case using Cons.prems c Cons.IH [of m] Cons.IH [of 2] Cons.IH [of 1]
    by (auto simp: of_type_def no_minmax_def Let_def)
qed (auto simp: of_type_def)

lemma excluded_loop_complete:
  assumes "\<forall>s \<in> set (of_type gen subs). no_minmax s \<and> nc_match_single i2d gen (sub_base s) = X509_V_ERR_PERMITTED_VIOLATION"
  shows "excluded_loop i2d gen subs = X509_V_OK"
  using assms by (induction subs) (auto simp: of_type_def no_minmax_def Let_def)

lemma nc_match_single_dns:
  "s \<in> set (of_type (GEN_DNS a) subs) \<Longrightarrow> \<exists>b. sub_base s = GEN_DNS b \<and> nc_match_single i2d (GEN_DNS a) (sub_base s) = nc_dns a b"
  by (cases "sub_base s") (auto simp: of_type_def nc_match_single_def)

text \<open>The bases of the subtrees for DNS names.\<close>

definition dns_bases :: "general_subtree list \<Rightarrow> bytes set" where
  "dns_bases subs = {string_bytes b | s b. s \<in> set subs \<and> sub_base s = GEN_DNS b}"

definition dns_minmax_free :: "general_subtree list \<Rightarrow> bool" where
  "dns_minmax_free subs \<longleftrightarrow> (\<forall>s \<in> set subs. gtype (sub_base s) = DNS_type \<longrightarrow> no_minmax s)"

lemma single_dns_iff:
  "(\<exists>s \<in> set (of_type (GEN_DNS a) subs). nc_match_single i2d (GEN_DNS a) (sub_base s) = X509_V_OK) \<longleftrightarrow> (\<exists>b \<in> dns_bases subs. dns_within b (string_bytes a))"
proof -
  have "s \<in> set (of_type (GEN_DNS a) subs) \<and> nc_match_single i2d (GEN_DNS a) (sub_base s) = X509_V_OK \<longleftrightarrow>
      (\<exists>b. s \<in> set subs \<and> sub_base s = GEN_DNS b \<and> dns_within (string_bytes b) (string_bytes a))" for s
    by (cases "sub_base s") (auto simp: of_type_def nc_match_single_def nc_dns_iff split: if_splits)
  then have "(\<exists>s \<in> set (of_type (GEN_DNS a) subs). nc_match_single i2d (GEN_DNS a) (sub_base s) = X509_V_OK) \<longleftrightarrow>
      (\<exists>s b. s \<in> set subs \<and> sub_base s = GEN_DNS b \<and> dns_within (string_bytes b) (string_bytes a))" unfolding Bex_def by (simp only:)
  then show ?thesis unfolding dns_bases_def by blast
qed

lemma single_dns_excluded:
  assumes "s \<in> set (of_type (GEN_DNS a) subs)"
  shows "nc_match_single i2d (GEN_DNS a) (sub_base s) \<in> {X509_V_OK, X509_V_ERR_PERMITTED_VIOLATION}"
  using nc_match_single_dns [OF assms] by (metis insertI1 insertI2 nc_dns_iff)

lemma of_type_dns: "of_type (GEN_DNS a) subs = [] \<longleftrightarrow> dns_bases subs = {}"
proof -
  have "gtype g = DNS_type \<longleftrightarrow> (\<exists>b. g = GEN_DNS b)" for g by (cases g) auto
  then have "of_type (GEN_DNS a) subs = [] \<longleftrightarrow> \<not> (\<exists>s b. s \<in> set subs \<and> sub_base s = GEN_DNS b)"
    unfolding of_type_def filter_empty_conv gtype.simps by metis
  then show ?thesis unfolding dns_bases_def by blast
qed

theorem nc_match_dns_iff:
  "nc_match i2d (GEN_DNS a) c = X509_V_OK \<longleftrightarrow>
     dns_minmax_free (permittedSubtrees c) \<and> dns_minmax_free (excludedSubtrees c) \<and>
     (dns_bases (permittedSubtrees c) = {} \<or> (\<exists>b \<in> dns_bases (permittedSubtrees c). dns_within b (string_bytes a))) \<and>
     (\<forall>b \<in> dns_bases (excludedSubtrees c). \<not> dns_within b (string_bytes a))"
    (is "_ \<longleftrightarrow> ?spec")
proof -
  let ?g = "GEN_DNS a"
  have mm: "dns_minmax_free subs \<longleftrightarrow> (\<forall>s \<in> set (of_type ?g subs). no_minmax s)" for subs by (auto simp: dns_minmax_free_def of_type_def)
  have ex: "(\<forall>s \<in> set (of_type ?g subs). nc_match_single i2d ?g (sub_base s) = X509_V_ERR_PERMITTED_VIOLATION) \<longleftrightarrow>
      (\<forall>b \<in> dns_bases subs. \<not> dns_within b (string_bytes a))" for subs
    using single_dns_iff [of a subs i2d] single_dns_excluded [of _ a subs i2d] by (metis error_distinct(1) insertE singletonD)
  have "?spec \<longleftrightarrow> obeys i2d ?g c" unfolding obeys_def mm single_dns_iff ex of_type_dns by blast
  moreover have "nc_match i2d ?g c = X509_V_OK" if o: "obeys i2d ?g c"
  proof -
    have p: "\<forall>s \<in> set (of_type ?g (permittedSubtrees c)). no_minmax s \<and> nc_match_single i2d ?g (sub_base s) \<in> {X509_V_OK, X509_V_ERR_PERMITTED_VIOLATION}"
      using o single_dns_excluded unfolding obeys_def by blast
    have "excluded_loop i2d ?g (excludedSubtrees c) = X509_V_OK" using o excluded_loop_complete unfolding obeys_def by blast
    moreover have "permitted_loop i2d ?g (permittedSubtrees c) 0 \<noteq> Inr 1" "\<exists>m. permitted_loop i2d ?g (permittedSubtrees c) 0 = Inr m"
      using permitted_loop_complete [OF p, of 0] o unfolding obeys_def by auto
    ultimately show ?thesis by (auto simp: nc_match_def)
  qed
  ultimately show ?thesis using nc_match_sound by blast
qed

section \<open>Wildcards and subtrees\<close>

lemma same_letters_append:
  "same_letters (p @ q) s \<Longrightarrow> \<exists>s1 s2. s = s1 @ s2 \<and> same_letters p s1 \<and> same_letters q s2"
proof (intro exI conjI)
  assume a: "same_letters (p @ q) s"
  then have "map to_lower p @ map to_lower q = map to_lower s" by (simp add: same_letters_def)
  then have "map to_lower p = map to_lower (take (length p) s)" "map to_lower q = map to_lower (drop (length p) s)"
    using same_letters_length [OF a] by (auto simp: take_map [symmetric] drop_map [symmetric] dest: sym)
  then show "same_letters p (take (length p) s)" "same_letters q (drop (length p) s)" by (simp_all add: same_letters_def)
qed simp

lemma same_letters_last: "same_letters p s \<Longrightarrow> p \<noteq> [] \<Longrightarrow> last p = ch_dot \<Longrightarrow> s \<noteq> [] \<and> last s = ch_dot"
  unfolding same_letters_def by (metis last_map map_is_Nil_conv to_lower_dot(2))

lemma same_letters_hd: "same_letters p s \<Longrightarrow> p \<noteq> [] \<Longrightarrow> hd p = ch_dot \<longleftrightarrow> hd s = ch_dot"
  unfolding same_letters_def by (metis list.map_sel(1) map_is_Nil_conv to_lower_dot(1))

lemma same_letters_trans: "same_letters p q \<Longrightarrow> same_letters q r \<Longrightarrow> same_letters p r"
  and same_letters_sym: "same_letters p q \<Longrightarrow> same_letters q p"
  by (simp_all add: same_letters_def)

lemma same_nocase_letters: "same_nocase p s \<Longrightarrow> same_letters p s"
  by (simp add: same_nocase_def same_letters_def)

lemma dns_within_same:
  assumes "same_letters p s" and "dns_within b p"
  shows "dns_within b s"
proof (cases "b = []")
  case False
  then obtain pre q where q: "p = pre @ q" "same_letters q b" "hd b = ch_dot \<or> pre = [] \<or> last pre = ch_dot"
    using assms(2) unfolding dns_within_def by blast
  obtain s1 s2 where s: "s = s1 @ s2" "same_letters pre s1" "same_letters q s2" using same_letters_append assms(1) q(1) by blast
  have "hd b = ch_dot \<or> s1 = [] \<or> last s1 = ch_dot" using q(3) same_letters_last [OF s(2)] same_letters_length [OF s(2)] by (cases "pre = []") auto
  moreover have "same_letters s2 b" using s(3) q(2) same_letters_sym same_letters_trans by blast
  ultimately show ?thesis using s(1) unfolding dns_within_def by blast
qed (simp add: dns_within_def)

lemma star_letters: "same_letters q b \<Longrightarrow> ch_star \<notin> set b \<Longrightarrow> ch_star \<notin> set q"
proof -
  have z: "to_lower c = ch_star \<longleftrightarrow> c = ch_star" for c by (rule to_lower_small) (simp add: ch_star_def)
  assume "same_letters q b" "ch_star \<notin> set b"
  then have "to_lower ` set q = to_lower ` set b" unfolding same_letters_def by (metis list.set_map)
  then show ?thesis using z \<open>ch_star \<notin> set b\<close> by (metis image_iff)
qed

text \<open>A subtree whose base has no star begins at a label after the one of the wildcard.\<close>

lemma base_after_star:
  assumes p: "a @ ch_star # b @ ch_dot # c = pre @ q" and b: "list_all label_char b" and q: "ch_star \<notin> set q" "q \<noteq> []"
    and start: "hd q = ch_dot \<or> last pre = ch_dot"
  obtains r where "ch_dot # c = r @ q" and "pre = a @ ch_star # b @ r"
proof -
  have "(a @ [ch_star]) @ (b @ ch_dot # c) = pre @ q" using p by simp
  then obtain us where "a @ [ch_star] = pre @ us \<and> us @ b @ ch_dot # c = q \<or> (a @ [ch_star]) @ us = pre \<and> b @ ch_dot # c = us @ q"
    unfolding append_eq_append_conv2 by blast
  moreover have "us = []" if "a @ [ch_star] = pre @ us" "us @ b @ ch_dot # c = q"
    using that q(1) by (cases us rule: rev_cases) auto
  ultimately obtain us where us: "pre = a @ ch_star # us" "b @ ch_dot # c = us @ q" by fastforce
  then obtain vs where "b = us @ vs \<and> vs @ ch_dot # c = q \<or> b @ vs = us \<and> ch_dot # c = vs @ q" unfolding append_eq_append_conv2 by blast
  moreover have "vs = []" if v: "b = us @ vs" "vs @ ch_dot # c = q"
  proof (rule ccontr)
    assume "vs \<noteq> []"
    then have "hd q \<noteq> ch_dot" using v b label_char_distinct by (cases vs) auto
    moreover have "last pre \<noteq> ch_dot" using us(1) v(1) b label_char_distinct by (cases us rule: rev_cases) auto
    ultimately show False using start by blast
  qed
  ultimately have "\<exists>r. ch_dot # c = r @ q \<and> pre = a @ ch_star # b @ r" using us by fastforce
  then show ?thesis using that by blast
qed

theorem wild_match_within:
  assumes m: "wild_match flags p s" and "dns_within b p" and nostar: "ch_star \<notin> set b"
  shows "dns_within b s"
proof (cases "b = []")
  case False
  obtain a b1 c a' w b1' c' where p: "p = a @ ch_star # b1 @ ch_dot # c" and s: "s = a' @ w @ b1' @ ch_dot # c'"
    and c: "same_nocase c c'" and b1: "list_all label_char b1" using m unfolding wild_match_def by blast
  obtain pre q where q: "p = pre @ q" "same_letters q b" "hd b = ch_dot \<or> pre = [] \<or> last pre = ch_dot"
    using assms(2) False unfolding dns_within_def by blast
  have q0: "ch_star \<notin> set q" "q \<noteq> []" using star_letters [OF q(2) nostar] same_letters_length [OF q(2)] False by auto
  moreover have "pre \<noteq> []" using p q(1) q0(1) by auto
  ultimately have st: "hd q = ch_dot \<or> last pre = ch_dot" using q(3) same_letters_hd [OF q(2)] by blast
  obtain r where r: "ch_dot # c = r @ q" "pre = a @ ch_star # b1 @ r"
    using base_after_star [OF _ b1 q0 st] p q(1) by metis
  have "same_letters (r @ q) (ch_dot # c')" using same_nocase_letters [OF c] r(1) [symmetric] by (simp add: same_letters_def)
  then obtain r' q' where r': "ch_dot # c' = r' @ q'" "same_letters r r'" "same_letters q q'" using same_letters_append by blast
  have "same_letters q' b" using r'(3) q(2) same_letters_sym same_letters_trans by blast
  moreover have "hd b = ch_dot \<or> last (a' @ w @ b1' @ r') = ch_dot"
  proof (cases "r = []")
    case True
    then have "hd q = ch_dot" using r(1) q0(2) by (metis append_Nil list.sel(1))
    then show ?thesis using same_letters_hd [OF q(2) q0(2)] by simp
  next
    case False
    then show ?thesis using st same_letters_hd [OF q(2) q0(2)] same_letters_last [OF r'(2) False] r(2) by auto
  qed
  ultimately show ?thesis using s r'(1) unfolding dns_within_def by (metis append.assoc)
qed (simp add: dns_within_def)

section \<open>Matchers of names\<close>

text \<open>A comparison of a certificate's name with a host that respects subtrees.\<close>

locale dns_matcher =
  fixes matches :: "bytes \<Rightarrow> bytes \<Rightarrow> bool"
  assumes matches_within: "matches p s \<Longrightarrow> dns_within d p \<Longrightarrow> ch_star \<notin> set d \<Longrightarrow> dns_within d s"
begin

lemma permitted_host:
  assumes "nc_match i2d (GEN_DNS a) con = X509_V_OK" and "matches (string_bytes a) s"
    and "dns_bases (permittedSubtrees con) \<noteq> {}" and "\<forall>d \<in> dns_bases (permittedSubtrees con). ch_star \<notin> set d"
  shows "\<exists>d \<in> dns_bases (permittedSubtrees con). dns_within d s"
proof -
  obtain d where "d \<in> dns_bases (permittedSubtrees con)" "dns_within d (string_bytes a)" using assms(1,3) unfolding nc_match_dns_iff by blast
  then show ?thesis using matches_within assms(2,4) by blast
qed

end

definition plain_host :: "bytes \<Rightarrow> bool" where
  "plain_host s \<longleftrightarrow> \<not> (1 < length s \<and> hd s = ch_dot)"

lemma host_match_within:
  assumes "host_match flags p s" and "plain_host s" and "dns_within d p" and "ch_star \<notin> set d"
  shows "dns_within d s"
proof -
  have "same_nocase p s \<or> wild_match flags p s" using assms(1,2) unfolding host_match_def plain_host_def by auto
  then show ?thesis using dns_within_same [OF same_nocase_letters assms(3)] wild_match_within [OF _ assms(3,4)] by blast
qed

interpretation host_names: dns_matcher "\<lambda>p s. host_equal flags p s (host_flags flags s) \<and> plain_host s" for flags
  by unfold_locales (use host_equal_match host_match_within in blast)

section \<open>Every name of a certificate\<close>

lemma index_from_first:
  "i \<le> int k \<Longrightarrow> 0 \<le> i \<Longrightarrow> nat (int k - i) < length es \<Longrightarrow> fst (es ! nat (int k - i)) = nid \<Longrightarrow>
    index_from es nid i \<noteq> - 1 \<and> index_from es nid i \<le> int k"
proof (induction es nid i rule: index_from.induct)
  case (2 obj v es nid i)
  show ?case
  proof (cases "obj = nid")
    case False
    then have "int k \<noteq> i" using "2.prems"(4) by auto
    then have n: "nat (int k - i) = Suc (nat (int k - (i + 1)))" "i + 1 \<le> int k" using "2.prems"(1) by auto
    then show ?thesis using "2.IH" False "2.prems" by simp
  qed (use "2.prems" in auto)
qed simp

lemma next_index_first:
  assumes "lastpos < int k" and "k < length (seen_entries name)" and "fst (seen_entries name ! k) = nid"
  shows "X509_NAME_get_index_by_NID name nid lastpos \<noteq> - 1 \<and> X509_NAME_get_index_by_NID name nid lastpos \<le> int k"
proof -
  let ?l = "if lastpos < 0 then - 1 else lastpos"
  have l: "?l + 1 \<le> int k" "0 \<le> ?l + 1" using assms(1) by auto
  moreover have k: "nat (?l + 1) + nat (int k - (?l + 1)) = k" using l by linarith
  ultimately show ?thesis using index_from_first [of "?l + 1" k "drop (nat (?l + 1)) (seen_entries name)" nid] assms(2,3)
    unfolding X509_NAME_get_index_by_NID_def Let_def by (simp add: nth_drop)
qed

lemma nc_emails_sound:
  assumes "nc_emails i2d nm c i = X509_V_OK" and "i < int k" and "k < length (seen_entries nm)" and "fst (seen_entries nm ! k) = NID_pkcs9_emailAddress"
  shows "stype (snd (entries nm ! k)) = V_ASN1_IA5STRING \<and> nc_match i2d (GEN_EMAIL (snd (entries nm ! k))) c = X509_V_OK"
  using assms
proof (induction i2d nm c i rule: nc_emails.induct)
  case (1 i2d nm c i)
  have kk: "seen_entries nm ! k = entries nm ! k" using seen_entries_nth "1.prems"(3) by blast
  let ?i = "X509_NAME_get_index_by_NID nm NID_pkcs9_emailAddress i"
  have i: "?i \<noteq> - 1" "?i \<le> int k" using next_index_first "1.prems" by blast+
  then have 2: "stype (snd (entries nm ! nat ?i)) = V_ASN1_IA5STRING" "nc_match i2d (GEN_EMAIL (snd (entries nm ! nat ?i))) c = X509_V_OK"
    "nc_emails i2d nm c ?i = X509_V_OK"
    using "1.prems"(1) by (auto simp: nc_emails.simps [of i2d nm c i] Let_def split: if_splits)
  show ?case
  proof (cases "?i = int k")
    case True
    then show ?thesis using 2 by simp
  next
    case False
    then show ?thesis using "1.IH" [OF refl i(1) refl _ refl] 2 i(2) "1.prems"(3,4) by simp
  qed
qed

lemma nc_altnames_sound: "nc_altnames i2d gens c = X509_V_OK \<Longrightarrow> gen \<in> set gens \<Longrightarrow> nc_match i2d gen c = X509_V_OK"
  by (induction gens) (auto simp: Let_def split: if_splits)

text \<open>The guard on the number of comparisons, which the wrap-around of \<^verbatim>\<open>size_t\<close> does not get past.\<close>

lemma unat_sum_guard:
  fixes x y :: u64
  assumes "\<not> x + y < x"
  shows "unat (x + y) = unat x + unat y"
  using assms by (metis linorder_not_less no_olen_add_nat unat_add_lem)

lemma unat_mult_guard:
  fixes x y :: u64
  assumes "x \<noteq> 0" and "(x * y) div x = y"
  shows "unat (x * y) = unat x * unat y"
proof -
  have "unat (x * y) div unat x = unat y" using assms(2) by (metis unat_div)
  then have "unat y * unat x \<le> unat (x * y)" by (metis div_times_less_eq_dividend)
  moreover have "unat (x * y) \<le> unat x * unat y" by (simp add: unat_word_ariths)
  ultimately show ?thesis by (simp add: mult.commute)
qed

definition size_bounded :: "x509 \<Rightarrow> name_constraints \<Rightarrow> bool" where
  "size_bounded x c \<longleftrightarrow> length (entries (subject_name x)) < 2 ^ 31 \<and> length (altnames x) < 2 ^ 64 \<and>
     length (permittedSubtrees c) < 2 ^ 64 \<and> length (excludedSubtrees c) < 2 ^ 64"

lemma entry_count: "length (entries nm) < 2 ^ 31 \<Longrightarrow> X509_NAME_entry_count nm = int (length (entries nm))"
  unfolding X509_NAME_entry_count_def by (simp add: signed_of_nat signed_take_bit_int_eq_self)

theorem nc_check_bounded:
  assumes r: "NAME_CONSTRAINTS_check i2d x c \<noteq> X509_V_ERR_UNSPECIFIED" and s: "size_bounded x c"
  shows "(length (permittedSubtrees c) + length (excludedSubtrees c)) * (length (entries (subject_name x)) + length (altnames x)) \<le> 2 ^ 20"
proof -
  define n a p e where "n = (of_nat (length (entries (subject_name x))) :: u64)" and "a = (of_nat (length (altnames x)) :: u64)"
    and "p = (of_nat (length (permittedSubtrees c)) :: u64)" and "e = (of_nat (length (excludedSubtrees c)) :: u64)"
  have ec: "of_int (X509_NAME_entry_count (subject_name x)) = n" using s by (simp add: n_def size_bounded_def entry_count)
  have g: "\<not> n + a < n" "\<not> p + e < p" "p + e \<noteq> 0 \<longrightarrow> ((p + e) * (n + a)) div (p + e) = n + a" "(p + e) * (n + a) \<le> push_bit 20 1"
    using r unfolding NAME_CONSTRAINTS_check_def Let_def ec a_def [symmetric] p_def [symmetric] e_def [symmetric]
    by (auto split: if_splits)
  have u: "unat n = length (entries (subject_name x))" "unat a = length (altnames x)" "unat p = length (permittedSubtrees c)" "unat e = length (excludedSubtrees c)"
    using s by (auto simp: n_def a_def p_def e_def size_bounded_def unat_of_nat take_bit_nat_eq_self)
  have "unat (p + e) * unat (n + a) \<le> 2 ^ 20"
  proof (cases "p + e = 0")
    case False
    then have "unat (p + e) * unat (n + a) = unat ((p + e) * (n + a))" using unat_mult_guard g(3) by metis
    then show ?thesis using g(4) by (simp add: word_le_nat_alt push_bit_eq_mult)
  qed simp
  then show ?thesis using unat_sum_guard [OF g(1)] unat_sum_guard [OF g(2)] u by simp
qed

theorem nc_check_sound:
  assumes r: "NAME_CONSTRAINTS_check i2d x c = X509_V_OK"
  shows "\<forall>gen \<in> set (altnames x). nc_match i2d gen c = X509_V_OK"
    and "0 < X509_NAME_entry_count (subject_name x) \<Longrightarrow> nc_match i2d (GEN_DIRNAME (subject_name x)) c = X509_V_OK \<and>
      (\<forall>a. (NID_pkcs9_emailAddress, a) \<in> set (seen_entries (subject_name x)) \<longrightarrow> stype a = V_ASN1_IA5STRING \<and> nc_match i2d (GEN_EMAIL a) c = X509_V_OK)"
proof -
  have "nc_altnames i2d (altnames x) c = X509_V_OK" using r by (auto simp: NAME_CONSTRAINTS_check_def Let_def split: if_splits)
  then show "\<forall>gen \<in> set (altnames x). nc_match i2d gen c = X509_V_OK" using nc_altnames_sound by blast
  assume "0 < X509_NAME_entry_count (subject_name x)"
  then have e: "nc_match i2d (GEN_DIRNAME (subject_name x)) c = X509_V_OK" "nc_emails i2d (subject_name x) c (- 1) = X509_V_OK"
    using r by (auto simp: NAME_CONSTRAINTS_check_def Let_def split: if_splits)
  then show "nc_match i2d (GEN_DIRNAME (subject_name x)) c = X509_V_OK \<and>
      (\<forall>a. (NID_pkcs9_emailAddress, a) \<in> set (seen_entries (subject_name x)) \<longrightarrow> stype a = V_ASN1_IA5STRING \<and> nc_match i2d (GEN_EMAIL a) c = X509_V_OK)"
    using nc_emails_sound [OF e(2)] seen_entries_nth by (fastforce simp: in_set_conv_nth)
qed

text \<open>The results of the check.\<close>

definition nc_codes :: "int set" where
  "nc_codes = {X509_V_OK, X509_V_ERR_UNSPECIFIED, X509_V_ERR_OUT_OF_MEM, X509_V_ERR_PERMITTED_VIOLATION, X509_V_ERR_EXCLUDED_VIOLATION,
     X509_V_ERR_SUBTREE_MINMAX, X509_V_ERR_UNSUPPORTED_CONSTRAINT_TYPE, X509_V_ERR_UNSUPPORTED_NAME_SYNTAX}"

lemma nc_match_single_codes: "nc_match_single i2d gen b \<in> nc_codes"
  by (auto simp: nc_match_single_def nc_dn_def nc_dns_iff nc_email_def nc_uri_def nc_codes_def Let_def split: general_name.splits option.splits prod.splits)

lemma permitted_loop_codes: "permitted_loop i2d gen subs m = Inl r \<Longrightarrow> r \<in> nc_codes"
proof (induction subs arbitrary: m)
  case (Cons s subs)
  then show ?case using nc_match_single_codes [of i2d gen "sub_base s"] by (auto simp: Let_def nc_codes_def split: if_splits)
qed simp

lemma excluded_loop_codes: "excluded_loop i2d gen subs \<in> nc_codes"
proof (induction subs)
  case (Cons s subs)
  then show ?case using nc_match_single_codes [of i2d gen "sub_base s"] by (auto simp: Let_def nc_codes_def)
qed (simp add: nc_codes_def)

lemma nc_match_codes: "nc_match i2d gen c \<in> nc_codes"
  using permitted_loop_codes excluded_loop_codes by (auto simp: nc_match_def nc_codes_def split: sum.splits)

lemma nc_emails_codes: "nc_emails i2d nm c i \<in> nc_codes"
proof (induction i2d nm c i rule: nc_emails.induct)
  case (1 i2d nm c i)
  have "X509_V_OK \<in> nc_codes" "X509_V_ERR_UNSUPPORTED_NAME_SYNTAX \<in> nc_codes" by (simp_all add: nc_codes_def)
  then show ?case using 1 nc_match_codes by (subst nc_emails.simps) (auto simp: Let_def)
qed

lemma nc_altnames_codes: "nc_altnames i2d gens c \<in> nc_codes"
  by (induction gens) (use nc_match_codes in \<open>auto simp: Let_def nc_codes_def\<close>)

theorem nc_check_codes: "NAME_CONSTRAINTS_check i2d x c \<in> nc_codes"
proof -
  have "X509_V_ERR_UNSPECIFIED \<in> nc_codes" by (simp add: nc_codes_def)
  then show ?thesis using nc_match_codes nc_emails_codes nc_altnames_codes unfolding NAME_CONSTRAINTS_check_def Let_def by simp
qed

end
