(* ===== verification/X509Chain.thy ===== *)
theory X509Chain
  imports X509Cons
begin

unbundle bit_operations_syntax

text \<open>
  Names along a chain of certificates, in \<^verbatim>\<open>crypto/x509/x509_vfy.c\<close>: \<^verbatim>\<open>check_name_constraints\<close>, with the refusal of
  host names in the common name, and \<^verbatim>\<open>check_id\<close>, the identity the caller asks for.  \<open>cb\<close> is the
  application's \<^verbatim>\<open>verify_cb\<close>, called with 0; it may write the fields of \<open>store_ctx\<close> and does not change the chain.
  \<^item> \<open>chain_names_sound\<close>: a chain that passes obeys the constraints of every certificate.
  \<^item> \<open>common_name_depth\<close>: the depth at which a host name in the common name is reported.
  \<^item> \<open>failed_decode_host\<close>: the common name is compared when the alternative names cannot be decoded again.
  \<^item> \<open>check_id_sound\<close>: the identities that were checked.
  \<^item> \<open>chain_host_within\<close>: a host accepted for the leaf lies in the permitted subtrees above it.
\<close>

section \<open>Chains\<close>

function reject_dns_from :: "alloc_env \<Rightarrow> x509_name \<Rightarrow> int \<Rightarrow> int option" where
  "reject_dns_from E name i =
     (let i' = X509_NAME_get_index_by_NID name NID_commonName i in
      if i' = - 1 then Some X509_V_OK
      else
        case ASN1_STRING_to_UTF8 E (snd (entries name ! nat i')) of
          None \<Rightarrow> None
        | Some (idlen, idval) \<Rightarrow>
            if idlen < 0 then Some X509_V_ERR_OUT_OF_MEM
            else if x509v3_looks_like_dns_name (take (nat idlen) (case idval of None \<Rightarrow> [] | Some d \<Rightarrow> d))
            then Some X509_V_ERR_NAME_CONSTRAINTS_WITHOUT_SANS
            else reject_dns_from E name i')"
  by pat_completeness auto
termination
proof (relation "measure (\<lambda>(E, nm, i). nat (int (length (seen_entries nm)) - i))")
  fix E nm i i' x idlen idval
  assume i': "i' = X509_NAME_get_index_by_NID nm NID_commonName i" "i' \<noteq> - 1"
  show "((E, nm, i'), (E, nm, i)) \<in> measure (\<lambda>(E, nm, i). nat (int (length (seen_entries nm)) - i))"
    using next_index_less [OF i'(1) [symmetric] i'(2)] by simp
qed simp

declare reject_dns_from.simps [simp del]

definition reject_dns_name_in_common_name :: "alloc_env \<Rightarrow> x509 \<Rightarrow> int option" where
  "reject_dns_name_in_common_name E x = reject_dns_from E (subject_name x) (- 1)"

text \<open>The fields of \<^verbatim>\<open>X509_STORE_CTX\<close> the check and the callback write.\<close>

record store_ctx =
  ctx_error :: int
  ctx_error_depth :: int
  ctx_current_cert :: "x509 option"

type_synonym verify_cb = "store_ctx \<Rightarrow> bool \<times> store_ctx"

definition EXFLAG_SI :: u64 where "EXFLAG_SI = 0x20"

text \<open>Certificate \<open>x\<close> at depth \<open>i\<close> against those above it, topmost first; \<open>Inl\<close> is the return of 0.\<close>

fun nc_above :: "verify_cb \<Rightarrow> name_encoder \<Rightarrow> x509 \<Rightarrow> int \<Rightarrow> x509 list \<Rightarrow> bool \<Rightarrow> store_ctx \<Rightarrow> store_ctx + bool \<times> store_ctx" where
  "nc_above cb i2d x i [] has ctx = Inr (has, ctx)"
| "nc_above cb i2d x i (y # ys) has ctx =
     (case nc y of
        None \<Rightarrow> nc_above cb i2d x i ys has ctx
      | Some c \<Rightarrow>
          (let rv = NAME_CONSTRAINTS_check i2d x c in
           if rv = X509_V_OK then nc_above cb i2d x i ys True ctx
           else if rv = X509_V_ERR_OUT_OF_MEM then Inl (ctx\<lparr>ctx_error := rv\<rparr>)
           else
             let (ok, ctx) = cb (ctx\<lparr>ctx_error := rv, ctx_error_depth := i, ctx_current_cert := Some x\<rparr>)
             in if \<not> ok then Inl ctx else nc_above cb i2d x i ys True ctx))"

text \<open>The loop over the certificates, with the value of \<^verbatim>\<open>i\<close> it ends with.\<close>

function nc_chain ::
    "verify_cb \<Rightarrow> name_encoder \<Rightarrow> x509 list \<Rightarrow> int \<Rightarrow> bool \<Rightarrow> store_ctx \<Rightarrow> store_ctx + int \<times> bool \<times> store_ctx" where
  "nc_chain cb i2d certs i has ctx =
     (if i \<ge> 0 then
        let x = certs ! nat i in
        if i \<noteq> 0 \<and> ex_flags x AND EXFLAG_SI \<noteq> 0 then nc_chain cb i2d certs (i - 1) has ctx
        else
          case nc_above cb i2d x i (rev (drop (nat i + 1) certs)) has ctx of
            Inl ctx \<Rightarrow> Inl ctx
          | Inr (has, ctx) \<Rightarrow> nc_chain cb i2d certs (i - 1) has ctx
      else Inr (i, has, ctx))"
  by pat_completeness auto
termination
  by (relation "measure (\<lambda>(cb, i2d, certs, i, has, ctx). nat (i + 1))") auto

declare nc_chain.simps [simp del]

text \<open>The depth of the last error is the value of \<^verbatim>\<open>i\<close> after the loop.\<close>

definition check_name_constraints :: "alloc_env \<Rightarrow> verify_cb \<Rightarrow> name_encoder \<Rightarrow> x509 list \<Rightarrow> store_ctx \<Rightarrow> (bool \<times> store_ctx) option" where
  "check_name_constraints E cb i2d certs ctx =
     (case nc_chain cb i2d certs (int (length certs) - 1) False ctx of
        Inl ctx \<Rightarrow> Some (False, ctx)
      | Inr (i, has, ctx) \<Rightarrow>
          (let leaf = certs ! 0 in
           if has \<and> altname leaf = None then
             case reject_dns_name_in_common_name E leaf of
               None \<Rightarrow> None
             | Some rv \<Rightarrow>
                 if rv = X509_V_OK then Some (True, ctx)
                 else if rv = X509_V_ERR_OUT_OF_MEM then Some (False, ctx\<lparr>ctx_error := rv\<rparr>)
                 else
                   let (ok, ctx) = cb (ctx\<lparr>ctx_error := rv, ctx_error_depth := i, ctx_current_cert := Some leaf\<rparr>)
                   in Some (ok, ctx)
           else Some (True, ctx)))"

section \<open>The identity the caller asks for\<close>

definition X509_V_ERR_HOSTNAME_MISMATCH :: int where "X509_V_ERR_HOSTNAME_MISMATCH = 62"
definition X509_V_ERR_EMAIL_MISMATCH :: int where "X509_V_ERR_EMAIL_MISMATCH = 63"
definition X509_V_ERR_IP_ADDRESS_MISMATCH :: int where "X509_V_ERR_IP_ADDRESS_MISMATCH = 64"
definition X509_V_ERR_INVALID_CALL :: int where "X509_V_ERR_INVALID_CALL = 65"

record verify_param =
  poison :: bool
  vpm_hosts :: "bytes list option"
  hostflags :: u32
  vpm_peername :: "bytes option"
  vpm_email :: "bytes option"
  vpm_ip :: "bytes option"

text \<open>The loop of \<^verbatim>\<open>check_hosts\<close>; a host is the bytes before its terminator.  The result is whether one matched, and \<^verbatim>\<open>param->peername\<close>.\<close>

fun hosts_loop :: "alloc_env \<Rightarrow> x509 \<Rightarrow> u32 \<Rightarrow> bytes list \<Rightarrow> bytes option \<Rightarrow> (bool \<times> bytes option) option" where
  "hosts_loop E x flags [] peer = Some (False, peer)"
| "hosts_loop E x flags (name # names) peer =
     (case X509_check_host E x (Some name) flags True of
        None \<Rightarrow> None
      | Some (rv, p) \<Rightarrow>
          (let peer = (case p of None \<Rightarrow> peer | Some q \<Rightarrow> q)
           in if rv > 0 then Some (True, peer) else hosts_loop E x flags names peer))"

definition check_hosts :: "alloc_env \<Rightarrow> x509 \<Rightarrow> verify_param \<Rightarrow> (bool \<times> verify_param) option" where
  "check_hosts E x param =
     (let names = (case vpm_hosts param of None \<Rightarrow> [] | Some hs \<Rightarrow> hs) in
      case hosts_loop E x (hostflags param) names None of
        None \<Rightarrow> None
      | Some (found, peer) \<Rightarrow> Some (found \<or> names = [], param\<lparr>vpm_peername := peer\<rparr>))"

definition check_id_error :: "verify_cb \<Rightarrow> x509 \<Rightarrow> store_ctx \<Rightarrow> int \<Rightarrow> bool \<times> store_ctx" where
  "check_id_error cb x ctx errcode = cb (ctx\<lparr>ctx_error := errcode, ctx_current_cert := Some x, ctx_error_depth := 0\<rparr>)"

text \<open>One test of \<^verbatim>\<open>check_id\<close>: when it fails, the callback decides whether to go on.\<close>

definition id_step :: "verify_cb \<Rightarrow> x509 \<Rightarrow> int \<Rightarrow> bool \<Rightarrow> store_ctx \<Rightarrow> bool \<times> store_ctx" where
  "id_step cb x errcode failed ctx = (if failed then check_id_error cb x ctx errcode else (True, ctx))"

definition check_id :: "alloc_env \<Rightarrow> verify_cb \<Rightarrow> x509 \<Rightarrow> verify_param \<Rightarrow> store_ctx \<Rightarrow> (bool \<times> store_ctx \<times> verify_param) option" where
  "check_id E cb x vpm ctx =
     (case id_step cb x X509_V_ERR_INVALID_CALL (poison vpm) ctx of (ok, ctx) \<Rightarrow>
      if \<not> ok then Some (False, ctx, vpm) else
      case (if vpm_hosts vpm = None then Some (True, vpm) else check_hosts E x vpm) of
        None \<Rightarrow> None
      | Some (found, vpm) \<Rightarrow>
      (case id_step cb x X509_V_ERR_HOSTNAME_MISMATCH (\<not> found) ctx of (ok, ctx) \<Rightarrow>
      if \<not> ok then Some (False, ctx, vpm) else
      case (if vpm_email vpm = None then Some (1, None) else X509_check_email E x (vpm_email vpm) 0) of
        None \<Rightarrow> None
      | Some (r, _) \<Rightarrow>
      (case id_step cb x X509_V_ERR_EMAIL_MISMATCH (r \<le> 0) ctx of (ok, ctx) \<Rightarrow>
      if \<not> ok then Some (False, ctx, vpm) else
      case (if vpm_ip vpm = None then Some (1, None) else X509_check_ip E x (vpm_ip vpm) 0) of
        None \<Rightarrow> None
      | Some (r, _) \<Rightarrow>
      (case id_step cb x X509_V_ERR_IP_ADDRESS_MISMATCH (r \<le> 0) ctx of (ok, ctx) \<Rightarrow> Some (ok, ctx, vpm)))))"

section \<open>Every certificate of a chain\<close>

text \<open>The callback of an application that does not override errors, as \<^verbatim>\<open>null_callback\<close>.\<close>

definition refuses :: "verify_cb \<Rightarrow> bool" where
  "refuses cb \<longleftrightarrow> (\<forall>ctx. \<not> fst (cb ctx))"

lemma nc_above_sound:
  assumes "nc_above cb i2d x i ys has ctx = Inr (has', ctx')" and "refuses cb"
  shows "(\<forall>y \<in> set ys. \<forall>c. nc y = Some c \<longrightarrow> NAME_CONSTRAINTS_check i2d x c = X509_V_OK) \<and> (has' \<longleftrightarrow> has \<or> (\<exists>y \<in> set ys. nc y \<noteq> None)) \<and> ctx' = ctx"
  using assms
proof (induction ys arbitrary: has)
  case (Cons y ys)
  show ?case
  proof (cases "nc y")
    case None
    then show ?thesis using Cons.IH [of has] Cons.prems by simp
  next
    case (Some c)
    have "NAME_CONSTRAINTS_check i2d x c = X509_V_OK"
    proof (rule ccontr)
      assume n: "NAME_CONSTRAINTS_check i2d x c \<noteq> X509_V_OK"
      have "\<not> fst (cb (ctx\<lparr>ctx_error := NAME_CONSTRAINTS_check i2d x c, ctx_error_depth := i, ctx_current_cert := Some x\<rparr>))"
        using Cons.prems(2) unfolding refuses_def by blast
      then show False using Cons.prems(1) Some n by (auto simp: Let_def split: if_splits prod.splits)
    qed
    then show ?thesis using Cons.IH [of True] Cons.prems Some by (simp add: Let_def)
  qed
qed simp

lemma nc_chain_end: "nc_chain cb i2d certs (- 1) has ctx = Inr (- 1, has, ctx)"
  by (simp add: nc_chain.simps [of _ _ _ "- 1"])

lemma nc_chain_step:
  "nc_chain cb i2d certs (int n) has ctx =
     (if n \<noteq> 0 \<and> ex_flags (certs ! n) AND EXFLAG_SI \<noteq> 0 then nc_chain cb i2d certs (int n - 1) has ctx
      else
        case nc_above cb i2d (certs ! n) (int n) (rev (drop (n + 1) certs)) has ctx of
          Inl ctx \<Rightarrow> Inl ctx
        | Inr (has, ctx) \<Rightarrow> nc_chain cb i2d certs (int n - 1) has ctx)"
  by (subst nc_chain.simps) (simp add: Let_def)

text \<open>The loop, when no callback stops it, leaves \<^verbatim>\<open>i\<close> at \<^verbatim>\<open>-1\<close>.\<close>

lemma nc_chain_index:
  assumes "nc_chain cb i2d certs (int n - 1) has ctx = Inr (i, has', ctx')"
  shows "i = - 1"
  using assms
proof (induction n arbitrary: has ctx)
  case (Suc n)
  then show ?case by (auto simp: nc_chain_step split: if_splits sum.splits)
qed (simp add: nc_chain_end)

lemma nc_chain_sound:
  assumes "nc_chain cb i2d certs (int n - 1) has ctx = Inr (k, has', ctx')" and "refuses cb" and "n \<le> length certs"
  shows "(\<forall>i < n. (i = 0 \<or> ex_flags (certs ! i) AND EXFLAG_SI = 0) \<longrightarrow>
      (\<forall>y \<in> set (drop (Suc i) certs). \<forall>c. nc y = Some c \<longrightarrow> NAME_CONSTRAINTS_check i2d (certs ! i) c = X509_V_OK)) \<and>
    (0 < n \<longrightarrow> (\<exists>y \<in> set (drop 1 certs). nc y \<noteq> None) \<longrightarrow> has')"
  using assms
proof (induction n arbitrary: has ctx)
  case (Suc n)
  have step: "nc_chain cb i2d certs (int n) has ctx = Inr (k, has', ctx')" using Suc.prems(1) by simp
  show ?case
  proof (cases "n \<noteq> 0 \<and> ex_flags (certs ! n) AND EXFLAG_SI \<noteq> 0")
    case True
    then have "nc_chain cb i2d certs (int n - 1) has ctx = Inr (k, has', ctx')" using step by (simp add: nc_chain_step)
    then show ?thesis using Suc.IH Suc.prems(2,3) True by (auto simp: less_Suc_eq)
  next
    case False
    then obtain has1 ctx1 where a: "nc_above cb i2d (certs ! n) (int n) (rev (drop (n + 1) certs)) has ctx = Inr (has1, ctx1)"
      "nc_chain cb i2d certs (int n - 1) has1 ctx1 = Inr (k, has', ctx')"
      using step by (auto simp: nc_chain_step split: sum.splits)
    note s = nc_above_sound [OF a(1) Suc.prems(2)]
    show ?thesis
    proof (cases "n = 0")
      case True
      then show ?thesis using s a(2) by (auto simp: nc_chain_end)
    next
      case False
      then show ?thesis using s Suc.IH [OF a(2) Suc.prems(2)] Suc.prems(3) by (auto simp: less_Suc_eq)
    qed
  qed
qed simp

lemma reject_dns_sound:
  assumes "reject_dns_from E nm i = Some X509_V_OK" and "i < int k" and "k < length (seen_entries nm)" and "fst (seen_entries nm ! k) = NID_commonName"
  shows "\<exists>n d. ASN1_STRING_to_UTF8 E (snd (entries nm ! k)) = Some (n, d) \<and> 0 \<le> n \<and> \<not> x509v3_looks_like_dns_name (take (nat n) (case d of None \<Rightarrow> [] | Some d \<Rightarrow> d))"
  using assms
proof (induction E nm i rule: reject_dns_from.induct)
  case (1 E nm i)
  let ?i = "X509_NAME_get_index_by_NID nm NID_commonName i"
  have i: "?i \<noteq> - 1" "?i \<le> int k" using next_index_first "1.prems" by blast+
  then obtain n d where 2: "ASN1_STRING_to_UTF8 E (snd (entries nm ! nat ?i)) = Some (n, d)" "\<not> n < 0"
    "\<not> x509v3_looks_like_dns_name (take (nat n) (case d of None \<Rightarrow> [] | Some d \<Rightarrow> d))" "reject_dns_from E nm ?i = Some X509_V_OK"
    using "1.prems"(1) by (auto simp: reject_dns_from.simps [of E nm i] Let_def split: if_splits option.splits prod.splits)
  show ?case
  proof (cases "?i = int k")
    case True
    then show ?thesis using 2 by auto
  next
    case False
    then show ?thesis using "1.IH" [OF refl i(1) 2(1) refl 2(2,3,4)] i(2) "1.prems"(3,4) by simp
  qed
qed

theorem chain_names_sound:
  assumes c: "check_name_constraints E cb i2d certs ctx = Some (True, ctx')" and cb: "refuses cb"
  shows "\<forall>i j c. i < j \<longrightarrow> j < length certs \<longrightarrow> (i = 0 \<or> ex_flags (certs ! i) AND EXFLAG_SI = 0) \<longrightarrow> nc (certs ! j) = Some c \<longrightarrow>
      NAME_CONSTRAINTS_check i2d (certs ! i) c = X509_V_OK"
    and "0 < j \<Longrightarrow> j < length certs \<Longrightarrow> nc (certs ! j) \<noteq> None \<Longrightarrow> altname (certs ! 0) = None \<Longrightarrow>
      reject_dns_name_in_common_name E (certs ! 0) = Some X509_V_OK"
proof -
  obtain i has ctx1 where h: "nc_chain cb i2d certs (int (length certs) - 1) False ctx = Inr (i, has, ctx1)" using c
    by (auto simp: check_name_constraints_def split: sum.splits)
  note s = nc_chain_sound [OF h cb order_refl]
  have above: "certs ! j \<in> set (drop (Suc i) certs)" if "i < j" "j < length certs" for i j
    using that by (auto simp: in_set_conv_nth intro!: exI [of _ "j - Suc i"])
  show "\<forall>i j c. i < j \<longrightarrow> j < length certs \<longrightarrow> (i = 0 \<or> ex_flags (certs ! i) AND EXFLAG_SI = 0) \<longrightarrow> nc (certs ! j) = Some c \<longrightarrow>
      NAME_CONSTRAINTS_check i2d (certs ! i) c = X509_V_OK"
  proof (intro allI impI)
    fix i j c
    assume a: "i < j" "j < length certs" "i = 0 \<or> ex_flags (certs ! i) AND EXFLAG_SI = 0" "nc (certs ! j) = Some c"
    then have "i < length certs" by linarith
    then show "NAME_CONSTRAINTS_check i2d (certs ! i) c = X509_V_OK" using s above [OF a(1,2)] a(3,4) by blast
  qed
  assume j: "0 < j" "j < length certs" "nc (certs ! j) \<noteq> None" "altname (certs ! 0) = None"
  then have "has" using s above [OF j(1,2)] by auto
  moreover have "\<not> fst (cb (ctx1\<lparr>ctx_error := rv, ctx_error_depth := i, ctx_current_cert := Some (certs ! 0)\<rparr>))" for rv using cb unfolding refuses_def by blast
  ultimately show "reject_dns_name_in_common_name E (certs ! 0) = Some X509_V_OK" using c h j(4)
    by (auto simp: check_name_constraints_def Let_def split: option.splits if_splits prod.splits) (metis fst_conv)
qed

text \<open>A host accepted for the leaf of such a chain lies in the permitted subtrees of every certificate above it.\<close>

theorem chain_host_within:
  assumes c: "check_name_constraints E cb i2d certs ctx = Some (True, ctx')" and cb: "refuses cb"
    and h: "X509_check_host E (certs ! 0) (Some b) flags peername = Some (rv, peer)" "0 < rv" and nodot: "plain_host b"
    and san: "san_ext (certs ! 0) = altname (certs ! 0)" and j: "0 < j" "j < length certs" "nc (certs ! j) = Some con"
    and p: "dns_bases (permittedSubtrees con) \<noteq> {}" "\<forall>d \<in> dns_bases (permittedSubtrees con). ch_star \<notin> set d"
  shows "\<exists>d \<in> dns_bases (permittedSubtrees con). dns_within d b"
proof -
  note chain = chain_names_sound [OF c cb]
  have ok: "NAME_CONSTRAINTS_check i2d (certs ! 0) con = X509_V_OK" using chain(1) j by blast
  have "altname (certs ! 0) \<noteq> None"
  proof
    assume n: "altname (certs ! 0) = None"
    then have r: "reject_dns_from E (subject_name (certs ! 0)) (- 1) = Some X509_V_OK"
      using chain(2) j by (auto simp: reject_dns_name_in_common_name_def)
    obtain a m d where a: "(NID_commonName, a) \<in> set (seen_entries (subject_name (certs ! 0)))" "ASN1_STRING_to_UTF8 E a = Some (m, d)"
      "x509v3_looks_like_dns_name (take (nat m) (case d of None \<Rightarrow> [] | Some d \<Rightarrow> d))"
      using check_host_matched [OF h] n san by (auto simp: Let_def)
    obtain k where k: "k < length (seen_entries (subject_name (certs ! 0)))" "seen_entries (subject_name (certs ! 0)) ! k = (NID_commonName, a)"
      using a(1) by (metis in_set_conv_nth)
    have "entries (subject_name (certs ! 0)) ! k = (NID_commonName, a)" using seen_entries_nth [OF k(1)] k(2) by simp
    then show False using reject_dns_sound [OF r _ k(1)] k(2) a(2,3) by auto
  qed
  then obtain gens where gens: "altname (certs ! 0) = Some gens" "san_ext (certs ! 0) = Some gens" using san by auto
  have "0 \<notin> set b" using check_host_matched [OF h] by auto
  then obtain a where a: "GEN_DNS a \<in> set gens" "host_equal flags (string_bytes a) b (host_flags flags b)"
    using check_host_altname [OF gens(2), of b E flags peername] h by (auto split: if_splits)
  then have "nc_match i2d (GEN_DNS a) con = X509_V_OK" using nc_check_sound(1) [OF ok] gens by (simp add: altnames_def)
  then show ?thesis using host_names.permitted_host a(2) nodot p by blast
qed

text \<open>The error for a host name in the leaf's common name is reported at depth -1, where no certificate is, to any callback.\<close>

lemma common_name_depth:
  assumes "nc_chain cb i2d certs (int (length certs) - 1) False ctx = Inr (i, True, ctx1)" and "altname (certs ! 0) = None"
    and "reject_dns_name_in_common_name E (certs ! 0) = Some X509_V_ERR_NAME_CONSTRAINTS_WITHOUT_SANS"
  shows "check_name_constraints E cb i2d certs ctx =
    Some (cb (ctx1\<lparr>ctx_error := X509_V_ERR_NAME_CONSTRAINTS_WITHOUT_SANS, ctx_error_depth := - 1, ctx_current_cert := Some (certs ! 0)\<rparr>))"
  using assms nc_chain_index [OF assms(1)] by (simp add: check_name_constraints_def Let_def error_distinct(9))

text \<open>
  With alternative names in the cache the common name is not looked at; \<^verbatim>\<open>do_x509_check\<close> decodes them again, and when that
  fails, compares the common name.
\<close>

lemma cached_names_skip_common_name:
  assumes "altname (certs ! 0) \<noteq> None"
  shows "check_name_constraints E cb i2d certs ctx =
    (case nc_chain cb i2d certs (int (length certs) - 1) False ctx of Inl c \<Rightarrow> Some (False, c) | Inr (i, has, c) \<Rightarrow> Some (True, c))"
  using assms by (auto simp: check_name_constraints_def Let_def split: sum.splits)

lemma failed_decode_host:
  assumes "san_ext x = None" and "entries (subject_name x) = [(NID_commonName, a)]" and "sdata a \<noteq> None" and "slen a \<noteq> 0"
    and "ASN1_STRING_to_UTF8 E a = Some (int (length h), Some d)" and "take (length h) d = h" and "x509v3_looks_like_dns_name h"
    and "0 \<notin> set h" and "plain_host h" and "ch_star \<notin> set h" and "flags AND X509_CHECK_FLAG_NEVER_CHECK_SUBJECT = 0"
  shows "\<exists>peer. X509_check_host E x (Some h) flags peername = Some (1, peer)"
proof -
  have i: "X509_NAME_get_index_by_NID (subject_name x) NID_commonName (- 1) = 0"
    using assms(2) by (simp add: X509_NAME_get_index_by_NID_def seen_entries_def X509_NAME_entry_count_def)
  have f: "host_flags flags h AND X509_CHECK_FLAG_DOT_SUBDOMAINS = 0" using assms(9) by (auto simp: host_flags_def plain_host_def Let_def)
  have "same_nocase h h" using assms(8) by (simp add: same_nocase_def)
  then have "equal_nocase h h (host_flags flags h)" using equal_nocase_iff [OF f] by blast
  moreover have "valid_star h (host_flags flags h) = None"
  proof (cases "valid_star h (host_flags flags h)")
    case (Some k)
    then show ?thesis by (rule valid_star_shape) (use assms(10) in simp)
  qed
  ultimately have e: "host_equal flags h h (host_flags flags h)" by (simp add: host_equal_def equal_wildcard_def)
  have "do_check_string E a None (host_equal flags) (host_flags flags h) DNS_type h peername = Some (1, set_peer E peername 1 h)"
    using assms(3-7) e by (simp add: do_check_string_def Let_def)
  then show ?thesis using assms(1,2,8,11) i memchr_absent [of 0 h]
    by (simp add: X509_check_host_def x509_check_host_flags check_subject.simps [of E "subject_name x" _ "- 1"] Let_def)
qed

section \<open>The identity\<close>

lemma hosts_loop_found:
  "hosts_loop E x flags names peer = Some (True, peer') \<Longrightarrow> \<exists>h \<in> set names. \<exists>rv p. X509_check_host E x (Some h) flags True = Some (rv, p) \<and> 0 < rv"
  by (induction names arbitrary: peer) (auto simp: Let_def split: option.splits if_splits prod.splits)

lemma id_step_refuses:
  assumes "refuses cb"
  shows "(case id_step cb x e failed ctx of (ok, ctx) \<Rightarrow> if \<not> ok then Some (False, ctx, v) else f ctx) = Some (True, r) \<longleftrightarrow> \<not> failed \<and> f ctx = Some (True, r)"
    and "(case id_step cb x e failed ctx of (ok, ctx) \<Rightarrow> Some (ok, ctx, v)) = Some (True, r) \<longleftrightarrow> \<not> failed \<and> r = (ctx, v)"
proof -
  have "\<not> fst (check_id_error cb x ctx e)" using assms by (simp add: refuses_def check_id_error_def)
  then show "(case id_step cb x e failed ctx of (ok, ctx) \<Rightarrow> if \<not> ok then Some (False, ctx, v) else f ctx) = Some (True, r) \<longleftrightarrow> \<not> failed \<and> f ctx = Some (True, r)"
    and "(case id_step cb x e failed ctx of (ok, ctx) \<Rightarrow> Some (ok, ctx, v)) = Some (True, r) \<longleftrightarrow> \<not> failed \<and> r = (ctx, v)"
    by (cases "check_id_error cb x ctx e"; auto simp: id_step_def)+
qed

lemma option_pair_case: "(case o1 of None \<Rightarrow> None | Some (a, b) \<Rightarrow> f a b) = Some r \<longleftrightarrow> (\<exists>a b. o1 = Some (a, b) \<and> f a b = Some r)"
  by (cases o1) auto

theorem check_id_sound:
  assumes "check_id E cb x vpm ctx = Some (True, ctx', vpm')" and cb: "refuses cb"
  shows "\<not> poison vpm"
    and "vpm_hosts vpm = Some hs \<Longrightarrow> hs \<noteq> [] \<Longrightarrow> \<exists>h \<in> set hs. \<exists>rv p. X509_check_host E x (Some h) (hostflags vpm) True = Some (rv, p) \<and> 0 < rv"
    and "vpm_email vpm = Some e \<Longrightarrow> \<exists>rv p. X509_check_email E x (Some e) 0 = Some (rv, p) \<and> 0 < rv"
    and "vpm_ip vpm = Some ip \<Longrightarrow> \<exists>rv p. X509_check_ip E x (Some ip) 0 = Some (rv, p) \<and> 0 < rv"
proof -
  obtain found v r q r' q' where n: "\<not> poison vpm"
    and v: "(if vpm_hosts vpm = None then Some (True, vpm) else check_hosts E x vpm) = Some (found, v)" "found"
    and em: "(if vpm_email v = None then Some (1, None) else X509_check_email E x (vpm_email v) 0) = Some (r, q)" "\<not> r \<le> 0"
    and ip: "(if vpm_ip v = None then Some (1, None) else X509_check_ip E x (vpm_ip v) 0) = Some (r', q')" "\<not> r' \<le> 0"
    using assms(1) unfolding check_id_def id_step_refuses [OF cb] option_pair_case by blast
  have same: "vpm_email v = vpm_email vpm" "vpm_ip v = vpm_ip vpm" using v by (auto simp: check_hosts_def Let_def split: if_splits option.splits prod.splits)
  show "\<not> poison vpm" by (rule n)
  show "\<exists>h \<in> set hs. \<exists>rv p. X509_check_host E x (Some h) (hostflags vpm) True = Some (rv, p) \<and> 0 < rv" if "vpm_hosts vpm = Some hs" "hs \<noteq> []"
    using v that hosts_loop_found by (auto simp: check_hosts_def Let_def split: option.splits prod.splits)
  show "\<exists>rv p. X509_check_email E x (Some e) 0 = Some (rv, p) \<and> 0 < rv" if "vpm_email vpm = Some e" using em same that by auto
  show "\<exists>rv p. X509_check_ip E x (Some ip) 0 = Some (rv, p) \<and> 0 < rv" if "vpm_ip vpm = Some ip" using ip same that by auto
qed

end
