(* ===== verification/Modes.thy ===== *)
theory Modes
  imports CBS
begin

unbundle bit_operations_syntax

text \<open>
  The stream modes of \<^verbatim>\<open>crypto/fipsmodule/modes\<close>: counter mode with a block function and with a function for many
  blocks (\<^verbatim>\<open>ctr.c\<close>), output feedback (\<^verbatim>\<open>ofb.c\<close>), cipher feedback by the block, by the byte and by the bit (\<^verbatim>\<open>cfb.c\<close>). The block
  cipher is a parameter, the argument \<^verbatim>\<open>block\<close> (or \<^verbatim>\<open>func\<close>) of each function with its key; all that is asked of it
  is that a block goes to a block (\<open>block_ok\<close>). Input and output are lists: a mode reads each input byte before
  it writes the output byte of the same index, so the output may be the input buffer. The locales \<open>byte_stream\<close> and
  \<open>stream_cipher\<close> state what callers rely on: the output does not depend on how the input is cut into calls, and
  decryption is the inverse of encryption. \<open>ctr32_agrees\<close> compares the two functions for counter mode.
\<close>

section \<open>Words in memory order\<close>

fun le_value :: "bytes \<Rightarrow> u64" where
  "le_value [] = 0"
| "le_value (b # bs) = ucast b OR push_bit 8 (le_value bs)"

definition CRYPTO_load_word_le :: "bytes \<Rightarrow> u64" where
  "CRYPTO_load_word_le p = le_value (take 8 p)"

definition CRYPTO_store_word_le :: "u64 \<Rightarrow> bytes" where
  "CRYPTO_store_word_le v = map (\<lambda>i. ucast (drop_bit (8 * i) v)) [0..<8]"

text \<open>The loop over the words of a block.\<close>

definition xor_words :: "bytes \<Rightarrow> bytes \<Rightarrow> bytes" where
  "xor_words a b = concat (map (\<lambda>n. CRYPTO_store_word_le (CRYPTO_load_word_le (drop n a) XOR CRYPTO_load_word_le (drop n b))) [0, 8])"

lemma bit_le_value: "length bs \<le> 8 \<Longrightarrow> bit (le_value bs) i \<longleftrightarrow> i div 8 < length bs \<and> bit (bs ! (i div 8)) (i mod 8)"
proof (induction bs arbitrary: i)
  case (Cons b bs)
  show ?case
  proof (cases "i < 8")
    case True
    then show ?thesis by (simp add: bit_simps)
  next
    case False
    then obtain j where j: "i = j + 8" using le_Suc_ex by (metis add.commute not_less)
    have "bit (le_value (b # bs)) i \<longleftrightarrow> j + 8 < 64 \<and> bit (le_value bs) j" using j bit_imp_le_length [of b i] by (auto simp: bit_simps)
    also have "\<dots> \<longleftrightarrow> bit (le_value bs) j" using Cons j by (auto simp: Cons.IH)
    finally show ?thesis using Cons j div_add_self2 [of 8 j] by simp
  qed
qed simp

lemma store_load_xor:
  assumes "8 \<le> length a" and "8 \<le> length b"
  shows "CRYPTO_store_word_le (CRYPTO_load_word_le a XOR CRYPTO_load_word_le b) = map2 (XOR) (take 8 a) (take 8 b)"
proof (rule nth_equalityI)
  show "length (CRYPTO_store_word_le (CRYPTO_load_word_le a XOR CRYPTO_load_word_le b)) = length (map2 (XOR) (take 8 a) (take 8 b))"
    using assms by (simp add: CRYPTO_store_word_le_def)
  fix i
  assume "i < length (CRYPTO_store_word_le (CRYPTO_load_word_le a XOR CRYPTO_load_word_le b))"
  then have i: "i < 8" by (simp add: CRYPTO_store_word_le_def)
  show "CRYPTO_store_word_le (CRYPTO_load_word_le a XOR CRYPTO_load_word_le b) ! i = map2 (XOR) (take 8 a) (take 8 b) ! i"
  proof (rule bit_word_eqI)
    fix k
    assume k: "k < LENGTH(8)"
    then have "(8 * i + k) div 8 = i" "(8 * i + k) mod 8 = k" by simp_all
    then show "bit (CRYPTO_store_word_le (CRYPTO_load_word_le a XOR CRYPTO_load_word_le b) ! i) k \<longleftrightarrow> bit (map2 (XOR) (take 8 a) (take 8 b) ! i) k"
      using assms i k by (simp add: CRYPTO_store_word_le_def CRYPTO_load_word_le_def bit_simps bit_le_value)
  qed
qed

abbreviation xor_bytes :: "bytes \<Rightarrow> bytes \<Rightarrow> bytes" where
  "xor_bytes \<equiv> map2 (XOR)"

lemma xor_words_bytes:
  assumes "16 \<le> length a" and "16 \<le> length b"
  shows "xor_words a b = xor_bytes (take 16 a) (take 16 b)"
proof -
  have t: "take 16 s = take 8 s @ take 8 (drop 8 s)" for s :: bytes using take_add [of 8 8 s] by simp
  have "xor_words a b = xor_bytes (take 8 a) (take 8 b) @ xor_bytes (take 8 (drop 8 a)) (take 8 (drop 8 b))"
    using assms by (simp add: xor_words_def store_load_xor)
  also have "\<dots> = xor_bytes (take 8 a @ take 8 (drop 8 a)) (take 8 b @ take 8 (drop 8 b))" using assms by (simp add: zip_append)
  finally show ?thesis by (simp only: t)
qed

section \<open>The shape of the stream modes\<close>

text \<open>
  The functions for counter, OFB and CFB mode have three loops: bytes are taken from a block already begun
  (\<^verbatim>\<open>while (n && len)\<close>), then whole blocks (\<^verbatim>\<open>while (len >= 16)\<close>), then what is left (\<^verbatim>\<open>while (len--)\<close>) of a new block.
  \<open>body n b c\<close> handles the byte \<open>b\<close> at index \<open>n\<close> of a block with the buffers \<open>c\<close>; \<open>refill\<close> is the call of the block
  cipher; \<open>whole\<close> is the body of the second loop.
\<close>

fun head_loop :: "(nat \<Rightarrow> u8 \<Rightarrow> 'c \<Rightarrow> u8 \<times> 'c) \<Rightarrow> nat \<Rightarrow> bytes \<Rightarrow> 'c \<Rightarrow> bytes \<times> bytes \<times> nat \<times> 'c" where
  "head_loop body n [] c = ([], [], n, c)"
| "head_loop body n (b # inp) c =
     (if n \<noteq> 0 then
        let (x, c) = body n b c; (out, rest, n', c') = head_loop body ((n + 1) mod 16) inp c
        in (x # out, rest, n', c')
      else ([], b # inp, n, c))"

fun tail_loop :: "(nat \<Rightarrow> u8 \<Rightarrow> 'c \<Rightarrow> u8 \<times> 'c) \<Rightarrow> nat \<Rightarrow> bytes \<Rightarrow> 'c \<Rightarrow> bytes \<times> nat \<times> 'c" where
  "tail_loop body n [] c = ([], n, c)"
| "tail_loop body n (b # inp) c =
     (let (x, c) = body n b c; (out, n', c') = tail_loop body (n + 1) inp c in (x # out, n', c'))"

function block_loop :: "(bytes \<Rightarrow> 'c \<Rightarrow> bytes \<times> 'c) \<Rightarrow> bytes \<Rightarrow> 'c \<Rightarrow> bytes \<times> bytes \<times> 'c" where
  "block_loop whole inp c =
     (if length inp \<ge> 16 then
        let (x, c) = whole inp c; (out, rest, c') = block_loop whole (drop 16 inp) c in (x @ out, rest, c')
      else ([], inp, c))"
  by pat_completeness auto
termination
  by (relation "measure (\<lambda>(whole, inp, c). length inp)") auto

declare block_loop.simps [simp del]

definition stream_mode ::
    "(nat \<Rightarrow> u8 \<Rightarrow> 'c \<Rightarrow> u8 \<times> 'c) \<Rightarrow> ('c \<Rightarrow> 'c) \<Rightarrow> (bytes \<Rightarrow> 'c \<Rightarrow> bytes \<times> 'c) \<Rightarrow> nat \<times> 'c \<Rightarrow> bytes \<Rightarrow> bytes \<times> nat \<times> 'c" where
  "stream_mode body refill whole st inp =
     (let (o1, inp, n, c) = head_loop body (fst st) inp (snd st);
          (o2, inp, c) = block_loop whole inp c;
          (o3, n, c) = (if inp \<noteq> [] then tail_loop body n inp (refill c) else ([], n, c))
      in (o1 @ o2 @ o3, n, c))"

text \<open>One byte at a time.\<close>

fun byte_run :: "('s \<Rightarrow> u8 \<Rightarrow> u8 \<times> 's) \<Rightarrow> 's \<Rightarrow> bytes \<Rightarrow> bytes \<times> 's" where
  "byte_run f s [] = ([], s)"
| "byte_run f s (b # bs) = (let (x, s) = f s b; (xs, s) = byte_run f s bs in (x # xs, s))"

definition mode_step :: "(nat \<Rightarrow> u8 \<Rightarrow> 'c \<Rightarrow> u8 \<times> 'c) \<Rightarrow> ('c \<Rightarrow> 'c) \<Rightarrow> nat \<times> 'c \<Rightarrow> u8 \<Rightarrow> u8 \<times> nat \<times> 'c" where
  "mode_step body refill st b = (let n = fst st; (x, c) = body n b (if n = 0 then refill (snd st) else snd st) in (x, (n + 1) mod 16, c))"

lemma byte_run_append: "byte_run f s (xs @ ys) = (let (o1, s1) = byte_run f s xs; (o2, s2) = byte_run f s1 ys in (o1 @ o2, s2))"
  by (induction xs arbitrary: s) (auto simp: Let_def split: prod.splits)

lemma byte_run_length: "length (fst (byte_run f s xs)) = length xs"
proof (induction xs arbitrary: s)
  case (Cons b xs)
  obtain x s1 where "f s b = (x, s1)" by fastforce
  then show ?case using Cons.IH [of s1] by (simp add: Let_def split_beta)
qed simp

lemma mode_step_mid: "n \<noteq> 0 \<Longrightarrow> body n b c = (x, c1) \<Longrightarrow> mode_step body refill (n, c) b = (x, (n + 1) mod 16, c1)"
  and mode_step_new: "body 0 b (refill c) = (x, c1) \<Longrightarrow> mode_step body refill (0, c) b = (x, 1, c1)"
  by (simp_all add: mode_step_def)

lemma head_loop_run:
  assumes "head_loop body n inp c = (out, rest, n', c')"
  obtains pre where "inp = pre @ rest" and "byte_run (mode_step body refill) (n, c) pre = (out, n', c')" and "rest = [] \<or> n' = 0"
  using assms
proof (induction body n inp c arbitrary: out thesis rule: head_loop.induct)
  case (2 body n b inp c)
  show ?case
  proof (cases "n = 0")
    case True
    then show ?thesis using 2(2) [of "[]"] 2(3) by simp
  next
    case False
    obtain x c1 where x: "body n b c = (x, c1)" by (cases "body n b c")
    obtain out1 where h: "head_loop body ((n + 1) mod 16) inp c1 = (out1, rest, n', c')" "out = x # out1"
      using 2(3) False x by (auto simp: Let_def split: prod.splits)
    obtain pre where p: "inp = pre @ rest" "byte_run (mode_step body refill) ((n + 1) mod 16, c1) pre = (out1, n', c')" "rest = [] \<or> n' = 0"
      using 2(1) [OF False x [symmetric] refl _ h(1)] by blast
    show ?thesis by (rule 2(2) [of "b # pre"]) (use p h(2) mode_step_mid [where body = body and n = n and b = b and c = c and x = x and ?c1.0 = c1 and refill = refill, OF False x] in auto)
  qed
qed simp

lemma tail_loop_run:
  "n \<noteq> 0 \<Longrightarrow> n + length inp < 16 \<Longrightarrow> byte_run (mode_step body refill) (n, c) inp = tail_loop body n inp c"
proof (induction inp arbitrary: n c)
  case (Cons b inp)
  obtain x c1 where x: "body n b c = (x, c1)" by fastforce
  show ?case using Cons mode_step_mid [where body = body and n = n and b = b and c = c and x = x and ?c1.0 = c1 and refill = refill, OF Cons.prems(1) x] x by simp
qed simp

lemma tail_loop_fresh:
  assumes "inp \<noteq> []" and "length inp < 16"
  shows "byte_run (mode_step body refill) (0, c) inp = tail_loop body 0 inp (refill c)"
proof -
  obtain b bs where inp: "inp = b # bs" using assms(1) by (cases inp) auto
  obtain x c1 where x: "body 0 b (refill c) = (x, c1)" by (cases "body 0 b (refill c)")
  have "byte_run (mode_step body refill) (1, c1) bs = tail_loop body 1 bs c1" using assms(2) inp by (intro tail_loop_run) auto
  then show ?thesis using mode_step_new [where body = body and b = b and c = c and x = x and ?c1.0 = c1 and refill = refill, OF x] by (simp add: inp x)
qed

lemma tail_loop_index: "fst (snd (tail_loop body n xs c)) = n + length xs"
proof (induction xs arbitrary: n c)
  case (Cons b xs)
  obtain x c1 where "body n b c = (x, c1)" by fastforce
  then show ?case using Cons.IH [of "n + 1" c1] by (simp add: Let_def split_beta)
qed simp

lemma byte_run_block:
  assumes "length blk = 16"
  shows "byte_run (mode_step body refill) (0, c) blk = (let (x, _, c') = tail_loop body 0 blk (refill c) in (x, 0, c'))"
proof -
  obtain l b where blk: "blk = l @ [b]" "length l = 15" using assms by (cases blk rule: rev_cases) auto
  have l: "byte_run (mode_step body refill) (0, c) l = tail_loop body 0 l (refill c)" using blk(2) by (intro tail_loop_fresh) auto
  have t: "tail_loop body n (xs @ [b]) c = (let (o1, n1, c1) = tail_loop body n xs c; (x, c2) = body n1 b c1 in (o1 @ [x], n1 + 1, c2))" for n xs c
    by (induction xs arbitrary: n c) (auto simp: Let_def split: prod.splits)
  obtain o1 c1 where o1: "tail_loop body 0 l (refill c) = (o1, 15, c1)" using tail_loop_index [of body 0 l "refill c"] blk(2) by (cases "tail_loop body 0 l (refill c)") auto
  obtain x c2 where x: "body 15 b c1 = (x, c2)" by fastforce
  show ?thesis unfolding blk(1) byte_run_append l t using mode_step_mid [where body = body and n = 15 and b = b and c = c1 and x = x and ?c1.0 = c2 and refill = refill, OF _ x] by (simp add: o1 x)
qed

definition block_agrees :: "(nat \<Rightarrow> u8 \<Rightarrow> 'c \<Rightarrow> u8 \<times> 'c) \<Rightarrow> ('c \<Rightarrow> 'c) \<Rightarrow> (bytes \<Rightarrow> 'c \<Rightarrow> bytes \<times> 'c) \<Rightarrow> ('c \<Rightarrow> bool) \<Rightarrow> bool" where
  "block_agrees body refill whole ok \<longleftrightarrow>
     (\<forall>inp c. 16 \<le> length inp \<and> ok c \<longrightarrow> (\<exists>x c'. whole inp c = (x, c') \<and> tail_loop body 0 (take 16 inp) (refill c) = (x, 16, c') \<and> ok c'))"

lemma block_loop_run:
  assumes "block_agrees body refill whole ok" and "block_loop whole inp c = (out, rest, c')" and "ok c"
  obtains pre where "inp = pre @ rest" and "byte_run (mode_step body refill) (0, c) pre = (out, 0, c')" and "length rest < 16"
  using assms(2,3)
proof (induction "length inp" arbitrary: inp c out thesis rule: less_induct)
  case less
  show ?case
  proof (cases "16 \<le> length inp")
    case True
    then obtain x c1 where x: "whole inp c = (x, c1)" "tail_loop body 0 (take 16 inp) (refill c) = (x, 16, c1)" "ok c1"
      using assms(1) less.prems(3) unfolding block_agrees_def by blast
    obtain out1 where l: "block_loop whole (drop 16 inp) c1 = (out1, rest, c')" "out = x @ out1"
      using less.prems(2) True x(1) by (subst (asm) block_loop.simps) (auto simp: Let_def split: prod.splits)
    obtain pre where p: "drop 16 inp = pre @ rest" "byte_run (mode_step body refill) (0, c1) pre = (out1, 0, c')" "length rest < 16"
      by (rule less.hyps [OF _ _ l(1) x(3)]) (use True in auto)
    have "byte_run (mode_step body refill) (0, c) (take 16 inp) = (x, 0, c1)" using byte_run_block [of "take 16 inp" body refill c] True x(2) by simp
    then have "byte_run (mode_step body refill) (0, c) (take 16 inp @ pre) = (out, 0, c')" unfolding byte_run_append using p(2) l(2) by simp
    moreover have "inp = (take 16 inp @ pre) @ rest" using p(1) by (metis append.assoc append_take_drop_id)
    ultimately show ?thesis using less.prems(1) p(3) by blast
  next
    case False
    then show ?thesis using less.prems(1) [of "[]"] less.prems(2) by (subst (asm) block_loop.simps) simp
  qed
qed

section \<open>Stream modes as machines over bytes\<close>

lemma byte_run_ok:
  assumes "\<And>s b. ok s \<Longrightarrow> ok (snd (step s b))" and "ok s"
  shows "ok (snd (byte_run step s xs))"
  using assms(2)
proof (induction xs arbitrary: s)
  case (Cons b xs)
  obtain x s1 where "step s b = (x, s1)" by fastforce
  then show ?case using Cons.IH [of s1] assms(1) [OF Cons.prems, of b] by (simp add: Let_def split_beta)
qed simp

lemma stream_mode_run:
  assumes agrees: "block_agrees body refill whole ok" and refill: "\<And>c. ok c \<Longrightarrow> ok (refill c)"
    and body: "\<And>n b c. n < 16 \<Longrightarrow> ok c \<Longrightarrow> ok (snd (body n b c))" and st: "fst st < 16" "ok (snd st)"
  shows "stream_mode body refill whole st inp = byte_run (mode_step body refill) st inp"
proof -
  let ?R = "byte_run (mode_step body refill)"
  have step: "fst (snd (mode_step body refill s b)) < 16 \<and> ok (snd (snd (mode_step body refill s b)))" if "fst s < 16 \<and> ok (snd s)" for s b
    using that refill body [of "fst s" _ b] by (auto simp: mode_step_def Let_def split: prod.splits) (metis snd_conv)+
  obtain o1 rest n c where h: "head_loop body (fst st) inp (snd st) = (o1, rest, n, c)" by (metis prod_cases4)
  obtain pre where p: "inp = pre @ rest" "?R (fst st, snd st) pre = (o1, n, c)" "rest = [] \<or> n = 0" by (rule head_loop_run [OF h])
  have c: "ok c" using byte_run_ok [of "\<lambda>s. fst s < 16 \<and> ok (snd s)" "mode_step body refill" st pre] step st p(2) by auto
  obtain o2 rest2 c2 where b: "block_loop whole rest c = (o2, rest2, c2)" by (metis prod_cases3)
  show ?thesis
  proof (cases "rest = []")
    case True
    then have "stream_mode body refill whole st inp = (o1, n, c)" using h by (simp add: stream_mode_def block_loop.simps)
    then show ?thesis using p True by simp
  next
    case False
    then have n: "n = 0" using p(3) by blast
    obtain mid where m: "rest = mid @ rest2" "?R (0, c) mid = (o2, 0, c2)" "length rest2 < 16" by (rule block_loop_run [OF agrees b c])
    have e: "?R st inp = (let (o3, s) = ?R (0, c2) rest2 in (o1 @ o2 @ o3, s))"
      using p(2) m(2) n by (simp add: p(1) m(1) byte_run_append split: prod.splits)
    show ?thesis
    proof (cases "rest2 = []")
      case True
      then show ?thesis using e h b n by (simp add: stream_mode_def)
    next
      case False
      then show ?thesis using e h b n tail_loop_fresh [OF False m(3), of body refill c2] by (simp add: stream_mode_def split: prod.splits)
    qed
  qed
qed

text \<open>What a caller of a stream mode relies on: bytes go through one at a time, however the input is cut.\<close>

locale byte_stream =
  fixes step :: "'s \<Rightarrow> u8 \<Rightarrow> u8 \<times> 's" and enc :: "'s \<Rightarrow> bytes \<Rightarrow> bytes \<times> 's" and ok :: "'s \<Rightarrow> bool"
  assumes enc_run: "ok s \<Longrightarrow> enc s xs = byte_run step s xs"
    and step_ok: "ok s \<Longrightarrow> ok (snd (step s b))"
begin

lemma enc_ok: "ok s \<Longrightarrow> ok (snd (enc s xs))"
  using byte_run_ok [of ok step] step_ok by (simp add: enc_run)

lemma enc_length: "ok s \<Longrightarrow> length (fst (enc s xs)) = length xs"
  by (simp add: enc_run byte_run_length)

lemma enc_append: "ok s \<Longrightarrow> enc s (xs @ ys) = (fst (enc s xs) @ fst (enc (snd (enc s xs)) ys), snd (enc (snd (enc s xs)) ys))"
  using enc_ok [of s xs] by (simp add: enc_run byte_run_append split_beta)

end

locale stream_cipher = e: byte_stream estep enc ok + d: byte_stream dstep dec ok
  for estep :: "'s \<Rightarrow> u8 \<Rightarrow> u8 \<times> 's" and enc and ok and dstep and dec +
  assumes inverse: "ok s \<Longrightarrow> dstep s (fst (estep s b)) = (b, snd (estep s b))"
begin

lemma dec_enc: "ok s \<Longrightarrow> dec s (fst (enc s xs)) = (xs, snd (enc s xs))"
proof -
  have "byte_run dstep s (fst (byte_run estep s xs)) = (xs, snd (byte_run estep s xs))" if "ok s"
    using that
  proof (induction xs arbitrary: s)
    case (Cons b xs)
    obtain x s1 where x: "estep s b = (x, s1)" by fastforce
    then show ?case using Cons.IH [of s1] e.step_ok [OF Cons.prems, of b] inverse [OF Cons.prems, of b] by (simp add: Let_def split_beta)
  qed simp
  then show "ok s \<Longrightarrow> dec s (fst (enc s xs)) = (xs, snd (enc s xs))" by (simp add: e.enc_run d.enc_run)
qed

lemma dec_cut: "ok s \<Longrightarrow> dec s (fst (enc s xs) @ fst (enc (snd (enc s xs)) ys)) = (xs @ ys, snd (enc (snd (enc s xs)) ys))"
  using dec_enc [of s "xs @ ys"] e.enc_append [of s xs ys] by simp

end

section \<open>Counter mode\<close>

type_synonym block128_f = "bytes \<Rightarrow> bytes"

text \<open>The loop of \<^verbatim>\<open>ctr128_inc\<close> and \<^verbatim>\<open>ctr96_inc\<close>.\<close>

primrec inc_loop :: "nat \<Rightarrow> u32 \<Rightarrow> bytes \<Rightarrow> bytes" where
  "inc_loop 0 c counter = counter"
| "inc_loop (Suc n) c counter = (let c = c + ucast (counter ! n) in inc_loop n (drop_bit 8 c) (counter[n := ucast c]))"

definition ctr128_inc :: "bytes \<Rightarrow> bytes" where
  "ctr128_inc counter = inc_loop 16 1 counter"

definition ctr96_inc :: "bytes \<Rightarrow> bytes" where
  "ctr96_inc counter = inc_loop 12 1 counter"

definition ctr_body :: "nat \<Rightarrow> u8 \<Rightarrow> bytes \<times> bytes \<Rightarrow> u8 \<times> bytes \<times> bytes" where
  "ctr_body n b c = (case c of (ivec, ecount_buf) \<Rightarrow> (b XOR ecount_buf ! n, ivec, ecount_buf))"

definition ctr_refill :: "block128_f \<Rightarrow> bytes \<times> bytes \<Rightarrow> bytes \<times> bytes" where
  "ctr_refill block c = (case c of (ivec, ecount_buf) \<Rightarrow> (ctr128_inc ivec, block ivec))"

definition ctr_whole :: "block128_f \<Rightarrow> bytes \<Rightarrow> bytes \<times> bytes \<Rightarrow> bytes \<times> bytes \<times> bytes" where
  "ctr_whole block inp c =
     (case c of (ivec, ecount_buf) \<Rightarrow>
        let ecount_buf = block ivec; ivec = ctr128_inc ivec
        in (xor_words inp ecount_buf, ivec, ecount_buf))"

text \<open>The state is \<^verbatim>\<open>*num\<close>, \<^verbatim>\<open>ivec\<close> and \<^verbatim>\<open>ecount_buf\<close>.\<close>

definition CRYPTO_ctr128_encrypt :: "block128_f \<Rightarrow> nat \<times> bytes \<times> bytes \<Rightarrow> bytes \<Rightarrow> bytes \<times> nat \<times> bytes \<times> bytes" where
  "CRYPTO_ctr128_encrypt block = stream_mode ctr_body (ctr_refill block) (ctr_whole block)"

definition block_ok :: "block128_f \<Rightarrow> bool" where
  "block_ok block \<longleftrightarrow> (\<forall>b. length b = 16 \<longrightarrow> length (block b) = 16)"

lemma length_inc_loop [simp]: "length (inc_loop n c counter) = length counter"
  by (induction n arbitrary: c counter) (simp_all add: Let_def)

lemma length_ctr128_inc [simp]: "length (ctr128_inc counter) = length counter"
  by (simp add: ctr128_inc_def)

definition ctr_ok :: "block128_f \<Rightarrow> bytes \<times> bytes \<Rightarrow> bool" where
  "ctr_ok block c \<longleftrightarrow> block_ok block \<and> length (fst c) = 16 \<and> length (snd c) = 16"

lemma tail_loop_xor:
  assumes "\<And>n b c. body n b c = (b XOR ks c ! n, c)" and "length (ks c) = n + length xs"
  shows "tail_loop body n xs c = (xor_bytes xs (drop n (ks c)), n + length xs, c)"
  using assms(2)
proof (induction xs arbitrary: n)
  case (Cons b xs)
  then have "drop n (ks c) = ks c ! n # drop (Suc n) (ks c)" by (simp add: Cons_nth_drop_Suc)
  then show ?case using Cons by (simp add: assms(1) Let_def)
qed simp

lemma ctr_agrees: "block_agrees ctr_body (ctr_refill block) (ctr_whole block) (ctr_ok block)"
proof -
  have "\<exists>x c'. ctr_whole block inp c = (x, c') \<and> tail_loop ctr_body 0 (take 16 inp) (ctr_refill block c) = (x, 16, c') \<and> ctr_ok block c'"
    if a: "16 \<le> length inp" "ctr_ok block c" for inp c
  proof -
    obtain iv ec where c: "c = (iv, ec)" by fastforce
    have l: "length (block iv) = 16" "length iv = 16" using a(2) by (auto simp: c ctr_ok_def block_ok_def)
    have "tail_loop ctr_body 0 (take 16 inp) (ctr128_inc iv, block iv) = (xor_bytes (take 16 inp) (drop 0 (snd (ctr128_inc iv, block iv))), 0 + length (take 16 inp), ctr128_inc iv, block iv)"
      by (rule tail_loop_xor) (use a(1) l in \<open>auto simp: ctr_body_def\<close>)
    then show ?thesis using a l by (simp add: c ctr_whole_def ctr_refill_def ctr_ok_def xor_words_bytes Let_def)
  qed
  then show ?thesis unfolding block_agrees_def by blast
qed

lemma xor_self: "(b XOR k) XOR k = (b :: u8)"
  by (simp add: xor.assoc)

interpretation ctr: stream_cipher "mode_step ctr_body (ctr_refill block)" "CRYPTO_ctr128_encrypt block" "\<lambda>s. fst s < 16 \<and> ctr_ok block (snd s)"
    "mode_step ctr_body (ctr_refill block)" "CRYPTO_ctr128_encrypt block" for block
proof unfold_locales
  fix s :: "nat \<times> bytes \<times> bytes" and b :: u8 and xs :: bytes
  assume s: "fst s < 16 \<and> ctr_ok block (snd s)"
  have refill: "ctr_ok block c \<Longrightarrow> ctr_ok block (ctr_refill block c)" for c by (cases c) (simp add: ctr_ok_def ctr_refill_def block_ok_def)
  show "CRYPTO_ctr128_encrypt block s xs = byte_run (mode_step ctr_body (ctr_refill block)) s xs"
    unfolding CRYPTO_ctr128_encrypt_def by (rule stream_mode_run [OF ctr_agrees refill]) (use s in \<open>auto simp: ctr_body_def\<close>)
  show "fst (snd (mode_step ctr_body (ctr_refill block) s b)) < 16 \<and> ctr_ok block (snd (snd (mode_step ctr_body (ctr_refill block) s b)))"
    using s refill [of "snd s"] by (auto simp: mode_step_def ctr_body_def Let_def split: prod.splits)
  show "mode_step ctr_body (ctr_refill block) s (fst (mode_step ctr_body (ctr_refill block) s b)) = (b, snd (mode_step ctr_body (ctr_refill block) s b))"
    by (simp add: mode_step_def ctr_body_def xor_self Let_def split_beta)
qed

section \<open>Output feedback\<close>

definition ofb_body :: "nat \<Rightarrow> u8 \<Rightarrow> bytes \<Rightarrow> u8 \<times> bytes" where
  "ofb_body n b ivec = (b XOR ivec ! n, ivec)"

definition ofb_whole :: "block128_f \<Rightarrow> bytes \<Rightarrow> bytes \<Rightarrow> bytes \<times> bytes" where
  "ofb_whole block inp ivec = (let ivec = block ivec in (xor_words inp ivec, ivec))"

definition CRYPTO_ofb128_encrypt :: "block128_f \<Rightarrow> nat \<times> bytes \<Rightarrow> bytes \<Rightarrow> bytes \<times> nat \<times> bytes" where
  "CRYPTO_ofb128_encrypt block = stream_mode ofb_body block (ofb_whole block)"

definition iv_ok :: "block128_f \<Rightarrow> bytes \<Rightarrow> bool" where
  "iv_ok block ivec \<longleftrightarrow> block_ok block \<and> length ivec = 16"

lemma iv_ok_block: "iv_ok block c \<Longrightarrow> iv_ok block (block c)"
  by (simp add: iv_ok_def block_ok_def)

lemma ofb_agrees: "block_agrees ofb_body block (ofb_whole block) (iv_ok block)"
proof -
  have "\<exists>x c'. ofb_whole block inp c = (x, c') \<and> tail_loop ofb_body 0 (take 16 inp) (block c) = (x, 16, c') \<and> iv_ok block c'"
    if a: "16 \<le> length inp" "iv_ok block c" for inp c
  proof -
    note ok = iv_ok_block [OF a(2)]
    have "tail_loop ofb_body 0 (take 16 inp) (block c) = (xor_bytes (take 16 inp) (drop 0 (block c)), 0 + length (take 16 inp), block c)"
      by (rule tail_loop_xor) (use a(1) ok in \<open>auto simp: ofb_body_def iv_ok_def\<close>)
    then show ?thesis using a(1) ok by (simp add: ofb_whole_def iv_ok_def xor_words_bytes Let_def)
  qed
  then show ?thesis unfolding block_agrees_def by blast
qed

interpretation ofb: stream_cipher "mode_step ofb_body block" "CRYPTO_ofb128_encrypt block" "\<lambda>s. fst s < 16 \<and> iv_ok block (snd s)"
    "mode_step ofb_body block" "CRYPTO_ofb128_encrypt block" for block
proof unfold_locales
  fix s :: "nat \<times> bytes" and b :: u8 and xs :: bytes
  assume s: "fst s < 16 \<and> iv_ok block (snd s)"
  show "CRYPTO_ofb128_encrypt block s xs = byte_run (mode_step ofb_body block) s xs"
    unfolding CRYPTO_ofb128_encrypt_def by (rule stream_mode_run [OF ofb_agrees iv_ok_block]) (use s in \<open>auto simp: ofb_body_def\<close>)
  show "fst (snd (mode_step ofb_body block s b)) < 16 \<and> iv_ok block (snd (snd (mode_step ofb_body block s b)))"
    using s iv_ok_block [of block "snd s"] by (auto simp: mode_step_def ofb_body_def Let_def)
  show "mode_step ofb_body block s (fst (mode_step ofb_body block s b)) = (b, snd (mode_step ofb_body block s b))"
    by (simp add: mode_step_def ofb_body_def xor_self Let_def)
qed

section \<open>Cipher feedback\<close>

text \<open>The words stored are those loaded.\<close>

definition copy_words :: "bytes \<Rightarrow> bytes" where
  "copy_words a = concat (map (\<lambda>n. CRYPTO_store_word_le (CRYPTO_load_word_le (drop n a))) [0, 8])"

definition cfb_enc_body :: "nat \<Rightarrow> u8 \<Rightarrow> bytes \<Rightarrow> u8 \<times> bytes" where
  "cfb_enc_body n b ivec = (let x = ivec ! n XOR b in (x, ivec[n := x]))"

definition cfb_enc_whole :: "block128_f \<Rightarrow> bytes \<Rightarrow> bytes \<Rightarrow> bytes \<times> bytes" where
  "cfb_enc_whole block inp ivec = (let ivec = block ivec; tmp = xor_words ivec inp in (tmp, tmp))"

definition cfb_dec_body :: "nat \<Rightarrow> u8 \<Rightarrow> bytes \<Rightarrow> u8 \<times> bytes" where
  "cfb_dec_body n c ivec = (ivec ! n XOR c, ivec[n := c])"

definition cfb_dec_whole :: "block128_f \<Rightarrow> bytes \<Rightarrow> bytes \<Rightarrow> bytes \<times> bytes" where
  "cfb_dec_whole block inp ivec = (let ivec = block ivec in (xor_words ivec inp, copy_words inp))"

definition CRYPTO_cfb128_encrypt :: "block128_f \<Rightarrow> bool \<Rightarrow> nat \<times> bytes \<Rightarrow> bytes \<Rightarrow> bytes \<times> nat \<times> bytes" where
  "CRYPTO_cfb128_encrypt block enc =
     (if enc then stream_mode cfb_enc_body block (cfb_enc_whole block) else stream_mode cfb_dec_body block (cfb_dec_whole block))"

lemma store_load: "8 \<le> length a \<Longrightarrow> CRYPTO_store_word_le (CRYPTO_load_word_le a) = take 8 a"
proof -
  assume a: "8 \<le> length a"
  have z: "CRYPTO_load_word_le (replicate 8 0) = 0" by (simp add: CRYPTO_load_word_le_def numeral_eq_Suc)
  have "CRYPTO_store_word_le (CRYPTO_load_word_le a) = xor_bytes (take 8 a) (take 8 (replicate 8 0))" using store_load_xor [of a "replicate 8 0"] a z by simp
  also have "\<dots> = take 8 a" using a by (intro nth_equalityI) simp_all
  finally show ?thesis .
qed

lemma copy_words_take: "16 \<le> length a \<Longrightarrow> copy_words a = take 16 a"
  using take_add [of 8 8 a] by (simp add: copy_words_def store_load)

lemma tail_loop_feed:
  assumes "\<And>n b c. body n b c = (c ! n XOR b, c[n := feed (c ! n XOR b) b])" and "n + length xs = length c"
  shows "tail_loop body n xs c = (xor_bytes (drop n c) xs, n + length xs, take n c @ map2 feed (xor_bytes (drop n c) xs) xs)"
  using assms(2)
proof (induction xs arbitrary: n c)
  case (Cons b xs)
  let ?x = "c ! n XOR b"
  have n: "n < length c" using Cons.prems by simp
  have d: "drop n c = c ! n # drop (Suc n) c" using n by (simp add: Cons_nth_drop_Suc)
  have t: "take (Suc n) (c[n := feed ?x b]) = take n c @ [feed ?x b]" using n by (simp add: take_Suc_conv_app_nth)
  show ?case using Cons.IH [of "n + 1" "c[n := feed ?x b]"] Cons.prems t by (simp add: assms(1) d Let_def)
qed simp

lemma xor_bytes_length [simp]: "length (xor_bytes a b) = min (length a) (length b)"
  by simp

lemma map2_fst_snd: "length a = length b \<Longrightarrow> map2 (\<lambda>x y. x) a b = a" "length a = length b \<Longrightarrow> map2 (\<lambda>x y. y) a b = b"
  by (induction a b rule: list_induct2) simp_all

lemma cfb_enc_agrees: "block_agrees cfb_enc_body block (cfb_enc_whole block) (iv_ok block)"
proof -
  have "\<exists>x c'. cfb_enc_whole block inp c = (x, c') \<and> tail_loop cfb_enc_body 0 (take 16 inp) (block c) = (x, 16, c') \<and> iv_ok block c'"
    if a: "16 \<le> length inp" "iv_ok block c" for inp c
  proof -
    note ok = iv_ok_block [OF a(2)]
    have l: "length (block c) = 16" using ok by (simp add: iv_ok_def)
    have "tail_loop cfb_enc_body 0 (take 16 inp) (block c) = (xor_bytes (drop 0 (block c)) (take 16 inp), 0 + length (take 16 inp),
        take 0 (block c) @ map2 (\<lambda>x y. x) (xor_bytes (drop 0 (block c)) (take 16 inp)) (take 16 inp))"
      by (rule tail_loop_feed) (use a(1) l in \<open>auto simp: cfb_enc_body_def Let_def\<close>)
    then show ?thesis using a(1) ok l by (simp add: cfb_enc_whole_def iv_ok_def xor_words_bytes Let_def map2_fst_snd)
  qed
  then show ?thesis unfolding block_agrees_def by blast
qed

lemma cfb_dec_agrees: "block_agrees cfb_dec_body block (cfb_dec_whole block) (iv_ok block)"
proof -
  have "\<exists>x c'. cfb_dec_whole block inp c = (x, c') \<and> tail_loop cfb_dec_body 0 (take 16 inp) (block c) = (x, 16, c') \<and> iv_ok block c'"
    if a: "16 \<le> length inp" "iv_ok block c" for inp c
  proof -
    note ok = iv_ok_block [OF a(2)]
    have l: "length (block c) = 16" using ok by (simp add: iv_ok_def)
    have "tail_loop cfb_dec_body 0 (take 16 inp) (block c) = (xor_bytes (drop 0 (block c)) (take 16 inp), 0 + length (take 16 inp),
        take 0 (block c) @ map2 (\<lambda>x y. y) (xor_bytes (drop 0 (block c)) (take 16 inp)) (take 16 inp))"
      by (rule tail_loop_feed) (use a(1) l in \<open>auto simp: cfb_dec_body_def\<close>)
    then show ?thesis using a(1) ok l by (simp add: cfb_dec_whole_def iv_ok_def xor_words_bytes copy_words_take Let_def map2_fst_snd)
  qed
  then show ?thesis unfolding block_agrees_def by blast
qed

lemma xor_self_left: "k XOR (k XOR b) = (b :: u8)"
  by (simp flip: xor.assoc)

interpretation cfb: stream_cipher "mode_step cfb_enc_body block" "CRYPTO_cfb128_encrypt block True" "\<lambda>s. fst s < 16 \<and> iv_ok block (snd s)"
    "mode_step cfb_dec_body block" "CRYPTO_cfb128_encrypt block False" for block
proof unfold_locales
  fix s :: "nat \<times> bytes" and b :: u8 and xs :: bytes
  assume s: "fst s < 16 \<and> iv_ok block (snd s)"
  show "CRYPTO_cfb128_encrypt block True s xs = byte_run (mode_step cfb_enc_body block) s xs"
    unfolding CRYPTO_cfb128_encrypt_def if_True by (rule stream_mode_run [OF cfb_enc_agrees iv_ok_block]) (use s in \<open>auto simp: cfb_enc_body_def iv_ok_def Let_def\<close>)
  show "CRYPTO_cfb128_encrypt block False s xs = byte_run (mode_step cfb_dec_body block) s xs"
    unfolding CRYPTO_cfb128_encrypt_def if_False by (rule stream_mode_run [OF cfb_dec_agrees iv_ok_block]) (use s in \<open>auto simp: cfb_dec_body_def iv_ok_def\<close>)
  show "fst (snd (mode_step cfb_enc_body block s b)) < 16 \<and> iv_ok block (snd (snd (mode_step cfb_enc_body block s b)))"
    using s by (auto simp: mode_step_def cfb_enc_body_def iv_ok_def block_ok_def Let_def)
  show "fst (snd (mode_step cfb_dec_body block s b)) < 16 \<and> iv_ok block (snd (snd (mode_step cfb_dec_body block s b)))"
    using s by (auto simp: mode_step_def cfb_dec_body_def iv_ok_def block_ok_def Let_def)
  show "mode_step cfb_dec_body block s (fst (mode_step cfb_enc_body block s b)) = (b, snd (mode_step cfb_enc_body block s b))"
    by (simp add: mode_step_def cfb_enc_body_def cfb_dec_body_def xor_self_left Let_def)
qed

section \<open>Cipher feedback by the byte\<close>

definition cfbr_encrypt_block :: "block128_f \<Rightarrow> bool \<Rightarrow> nat \<Rightarrow> bytes \<Rightarrow> bytes \<Rightarrow> (bytes \<times> bytes) option" where
  "cfbr_encrypt_block block enc nbits inp ivec =
     (if nbits = 0 \<or> nbits > 128 then None
      else
        let nv = block ivec;
            num = (nbits + 7) div 8;
            out = map (\<lambda>n. inp ! n XOR nv ! n) [0..<num];
            ovec = ivec @ (if enc then out else take num inp);
            rem = nbits mod 8;
            num = nbits div 8
        in Some (out,
             if rem = 0 then take 16 (drop num ovec)
             else map (\<lambda>n. push_bit rem (ovec ! (n + num)) OR drop_bit (8 - rem) (ovec ! (n + num + 1))) [0..<16]))"

fun CRYPTO_cfb128_8_encrypt :: "block128_f \<Rightarrow> bool \<Rightarrow> bytes \<Rightarrow> bytes \<Rightarrow> bytes \<times> bytes" where
  "CRYPTO_cfb128_8_encrypt block enc ivec [] = ([], ivec)"
| "CRYPTO_cfb128_8_encrypt block enc ivec (b # inp) =
     (case cfbr_encrypt_block block enc 8 [b] ivec of
        None \<Rightarrow> ([], ivec)
      | Some (x, ivec) \<Rightarrow> (let (out, ivec) = CRYPTO_cfb128_8_encrypt block enc ivec inp in (x @ out, ivec)))"

definition cfb8_step :: "block128_f \<Rightarrow> bool \<Rightarrow> bytes \<Rightarrow> u8 \<Rightarrow> u8 \<times> bytes" where
  "cfb8_step block enc ivec b = (let x = b XOR block ivec ! 0 in (x, tl ivec @ [if enc then x else b]))"

lemma cfbr_8: "length ivec = 16 \<Longrightarrow> cfbr_encrypt_block block enc 8 [b] ivec = (let (x, iv) = cfb8_step block enc ivec b in Some ([x], iv))"
  by (cases ivec) (simp_all add: cfbr_encrypt_block_def cfb8_step_def Let_def)

lemma cfb8_run: "length ivec = 16 \<Longrightarrow> CRYPTO_cfb128_8_encrypt block enc ivec xs = byte_run (cfb8_step block enc) ivec xs"
proof (induction xs arbitrary: ivec)
  case (Cons b xs)
  have "length (snd (cfb8_step block enc ivec b)) = 16" using Cons.prems by (simp add: cfb8_step_def Let_def)
  then show ?case using Cons by (simp add: cfbr_8 split_beta)
qed simp

interpretation cfb8: stream_cipher "cfb8_step block True" "CRYPTO_cfb128_8_encrypt block True" "\<lambda>s. length s = 16"
    "cfb8_step block False" "CRYPTO_cfb128_8_encrypt block False" for block
  by unfold_locales (simp_all add: cfb8_run, simp_all add: cfb8_step_def xor_self Let_def)

text \<open>Cipher feedback by the bit: \<open>n\<close> is the index of the bit, most significant first.\<close>

definition bit_at :: "bytes \<Rightarrow> nat \<Rightarrow> bool" where
  "bit_at s n \<longleftrightarrow> bit (s ! (n div 8)) (7 - n mod 8)"

definition cfb1_bit :: "block128_f \<Rightarrow> bool \<Rightarrow> bytes \<Rightarrow> nat \<Rightarrow> bytes \<times> bytes \<Rightarrow> bytes \<times> bytes" where
  "cfb1_bit block enc inp n s =
     (case s of (out, ivec) \<Rightarrow>
        let c = (if inp ! (n div 8) AND push_bit (7 - n mod 8) 1 \<noteq> 0 then 0x80 else 0)
        in case cfbr_encrypt_block block enc 1 [c] ivec of
             None \<Rightarrow> s
           | Some (d, ivec) \<Rightarrow>
               (out[n div 8 := (out ! (n div 8) AND NOT (push_bit (7 - n mod 8) 1)) OR drop_bit (n mod 8) (hd d AND 0x80)], ivec))"

definition CRYPTO_cfb128_1_encrypt :: "block128_f \<Rightarrow> bool \<Rightarrow> bytes \<Rightarrow> bytes \<Rightarrow> nat \<Rightarrow> bytes \<Rightarrow> bytes \<times> bytes" where
  "CRYPTO_cfb128_1_encrypt block enc ivec inp bits out = fold (cfb1_bit block enc inp) [0..<bits] (out, ivec)"

lemma and_bit_test: "inp AND push_bit k 1 \<noteq> 0 \<longleftrightarrow> bit inp k" if "k < 8" for inp :: u8
  using that by (simp add: and_exp_eq_0_iff_not_bit push_bit_eq_mult)

lemma bit_128: "bit (0x80 :: u8) k \<longleftrightarrow> k = 7"
proof -
  have e: "(0x80 :: u8) = push_bit 7 1" by (simp add: push_bit_eq_mult)
  show ?thesis unfolding e bit_push_bit_iff by auto
qed

definition iv_shift :: "bytes \<Rightarrow> bool \<Rightarrow> bytes" where
  "iv_shift ivec t = map (\<lambda>n. push_bit 1 (ivec ! n) OR (if n = 15 then of_bool t else drop_bit 7 (ivec ! (n + 1)))) [0..<16]"

lemma drop_bit_7: "drop_bit 7 b = of_bool (bit b 7)" for b :: u8
  by (auto simp: u8_eq_bits all_less_unfold bit_simps)

lemma cfb1_feed:
  assumes "length ivec = 16"
  shows "cfbr_encrypt_block block enc 1 [c] ivec = Some ([c XOR block ivec ! 0], iv_shift ivec (bit (if enc then c XOR block ivec ! 0 else c) 7))"
  using assms by (auto simp: cfbr_encrypt_block_def Let_def iv_shift_def nth_append drop_bit_7)

lemma length_iv_shift [simp]: "length (iv_shift ivec t) = 16"
  by (simp add: iv_shift_def)

lemma cfb1_bit_step:
  assumes "length ivec = 16" and "n div 8 < length out" and "cfb1_bit block enc inp n (out, ivec) = (out', ivec')"
  defines "x \<equiv> bit_at inp n \<noteq> bit (block ivec ! 0) 7"
  shows "ivec' = iv_shift ivec (if enc then x else bit_at inp n)" and "length out' = length out" and "bit_at out' i \<longleftrightarrow> (if i = n then x else bit_at out i)"
proof -
  define c :: u8 where "c = (if bit_at inp n then 0x80 else 0)"
  have c: "bit c 7 \<longleftrightarrow> bit_at inp n" by (simp add: c_def bit_128)
  have "(if inp ! (n div 8) AND push_bit (7 - n mod 8) 1 \<noteq> 0 then 0x80 else 0) = c"
    using and_bit_test [of "7 - n mod 8" "inp ! (n div 8)"] by (simp add: c_def bit_at_def)
  note c128 = this
  have e: "out' = out[n div 8 := (out ! (n div 8) AND NOT (push_bit (7 - n mod 8) 1)) OR drop_bit (n mod 8) ((c XOR block ivec ! 0) AND 0x80)]"
    "ivec' = iv_shift ivec (bit (if enc then c XOR block ivec ! 0 else c) 7)"
    using assms(3) unfolding cfb1_bit_def Let_def prod.case c128 cfb1_feed [OF assms(1)] option.case list.sel prod.inject by blast+
  have x: "bit (c XOR block ivec ! 0) 7 \<longleftrightarrow> x" by (simp add: bit_simps c x_def)
  show "ivec' = iv_shift ivec (if enc then x else bit_at inp n)" using e(2) x c by simp
  show "length out' = length out" by (simp add: e(1))
  show "bit_at out' i \<longleftrightarrow> (if i = n then x else bit_at out i)"
  proof (cases "i div 8 = n div 8")
    case True
    have m: "n mod 8 < 8" "i mod 8 < 8" by simp_all
    have eq: "i = n \<longleftrightarrow> i mod 8 = n mod 8" using True by (metis div_mult_mod_eq)
    have b: "bit_at out' i \<longleftrightarrow> bit ((out ! (n div 8) AND NOT (push_bit (7 - n mod 8) 1)) OR drop_bit (n mod 8) ((c XOR block ivec ! 0) AND 0x80)) (7 - i mod 8)"
      unfolding bit_at_def e(1) True nth_list_update_eq [OF assms(2)] ..
    have k: "bit (NOT (push_bit j 1) :: u8) k \<longleftrightarrow> k \<noteq> j" if "k < 8" for j k :: nat
      using that by (simp add: bit_not_iff bit_exp_iff)
    have "bit_at out' i \<longleftrightarrow> (bit (out ! (n div 8)) (7 - i mod 8) \<and> 7 - i mod 8 \<noteq> 7 - n mod 8) \<or> (n mod 8 + (7 - i mod 8) = 7 \<and> x)"
      unfolding b bit_or_iff bit_and_iff bit_drop_bit_eq comp_def bit_128 by (subst k, simp) (metis x)
    also have "7 - i mod 8 \<noteq> 7 - n mod 8 \<longleftrightarrow> i \<noteq> n" using m eq by linarith
    also have "n mod 8 + (7 - i mod 8) = 7 \<longleftrightarrow> i = n" using m eq by linarith
    finally show ?thesis using True by (auto simp: bit_at_def)
  next
    case False
    then show ?thesis by (auto simp: bit_at_def e(1))
  qed
qed

text \<open>After \<open>k\<close> bits, decryption of the final output is where encryption was.\<close>

lemma cfb1_length:
  assumes "length ivec = 16" and "bits \<le> 8 * length out" and "k \<le> bits" and "CRYPTO_cfb128_1_encrypt block enc ivec inp k out = (out', ivec')"
  shows "length ivec' = 16 \<and> length out' = length out"
  using assms(3,4)
proof (induction k arbitrary: out' ivec')
  case 0
  then show ?case using assms(1) by (simp add: CRYPTO_cfb128_1_encrypt_def)
next
  case (Suc k)
  obtain o1 v1 where k: "CRYPTO_cfb128_1_encrypt block enc ivec inp k out = (o1, v1)" by fastforce
  have s: "cfb1_bit block enc inp k (o1, v1) = (out', ivec')" using Suc.prems(2) k by (simp add: CRYPTO_cfb128_1_encrypt_def)
  have l: "length v1 = 16" "length o1 = length out" using Suc.IH [OF _ k] Suc.prems(1) by simp_all
  have n: "k div 8 < length o1" using Suc.prems(1) assms(2) l(2) by (simp add: div_less_iff_less_mult)
  show ?case using cfb1_bit_step(1,2) [OF l(1) n s] l(2) by simp
qed

lemma cfb1_stable:
  assumes "length ivec = 16" and "bits \<le> 8 * length out" and "k \<le> j" and "j \<le> bits" and "i < k"
  shows "bit_at (fst (CRYPTO_cfb128_1_encrypt block enc ivec inp j out)) i = bit_at (fst (CRYPTO_cfb128_1_encrypt block enc ivec inp k out)) i"
  using assms(3,4)
proof (induction j rule: dec_induct)
  case (step j)
  obtain o1 v1 where k: "CRYPTO_cfb128_1_encrypt block enc ivec inp j out = (o1, v1)" by fastforce
  obtain o2 v2 where s: "cfb1_bit block enc inp j (o1, v1) = (o2, v2)" by fastforce
  have l: "length v1 = 16" "length o1 = length out" using cfb1_length [OF assms(1,2) _ k] step.prems by simp_all
  have n: "j div 8 < length o1" using step.prems assms(2) l(2) by (simp add: div_less_iff_less_mult)
  have "CRYPTO_cfb128_1_encrypt block enc ivec inp (Suc j) out = (o2, v2)" using k s by (simp add: CRYPTO_cfb128_1_encrypt_def)
  then show ?case using cfb1_bit_step(3) [OF l(1) n s, of i] step k assms(5) by simp
qed simp

lemma cfb1_roundtrip:
  assumes iv: "length ivec = 16" and len: "bits \<le> 8 * length out" "bits \<le> 8 * length dst" and "k \<le> bits"
    and e: "CRYPTO_cfb128_1_encrypt block True ivec inp bits out = (cip, ivec1)"
  shows "snd (CRYPTO_cfb128_1_encrypt block False ivec cip k dst) = snd (CRYPTO_cfb128_1_encrypt block True ivec inp k out) \<and>
    (\<forall>i < k. bit_at (fst (CRYPTO_cfb128_1_encrypt block False ivec cip k dst)) i = bit_at inp i)"
  using assms(4)
proof (induction k)
  case 0
  then show ?case by (simp add: CRYPTO_cfb128_1_encrypt_def)
next
  case (Suc k)
  obtain oe v where oe: "CRYPTO_cfb128_1_encrypt block True ivec inp k out = (oe, v)" by fastforce
  obtain od v' where od: "CRYPTO_cfb128_1_encrypt block False ivec cip k dst = (od, v')" by fastforce
  have v': "v' = v" and bits: "\<forall>i < k. bit_at od i = bit_at inp i" using Suc oe od by simp_all
  obtain oe1 w where se: "cfb1_bit block True inp k (oe, v) = (oe1, w)" by fastforce
  obtain od1 w' where sd: "cfb1_bit block False cip k (od, v) = (od1, w')" by fastforce
  have l: "length v = 16" "length oe = length out" "length od = length dst"
    using cfb1_length [OF iv len(1) _ oe] cfb1_length [OF iv len(2) _ od] Suc.prems by simp_all
  have n: "k div 8 < length oe" "k div 8 < length od" using Suc.prems len l by (simp_all add: div_less_iff_less_mult)
  have e1: "CRYPTO_cfb128_1_encrypt block True ivec inp (Suc k) out = (oe1, w)" using oe se by (simp add: CRYPTO_cfb128_1_encrypt_def)
  have d1: "CRYPTO_cfb128_1_encrypt block False ivec cip (Suc k) dst = (od1, w')" using od sd v' by (simp add: CRYPTO_cfb128_1_encrypt_def)
  note E = cfb1_bit_step [OF l(1) n(1) se] and D = cfb1_bit_step [OF l(1) n(2) sd]
  have c: "bit_at cip k \<longleftrightarrow> bit_at inp k \<noteq> bit (block v ! 0) 7"
    using cfb1_stable [OF iv len(1) Suc.prems order_refl, of k block True inp] e e1 E(3) [of k] by simp
  have "w' = w" using E(1) D(1) c by simp
  moreover have "bit_at od1 i = bit_at inp i" if "i < Suc k" for i using that D(3) [of i] c bits by (cases "i = k") auto
  ultimately show ?case using e1 d1 by simp
qed

section \<open>Counter mode with a 32-bit counter\<close>

type_synonym ctr128_f = "bytes \<Rightarrow> nat \<Rightarrow> bytes \<Rightarrow> bytes"

definition load_u32 :: "bytes \<Rightarrow> u32" where
  "load_u32 p = (ucast (p ! 0)) OR push_bit 8 (ucast (p ! 1)) OR push_bit 16 (ucast (p ! 2)) OR push_bit 24 (ucast (p ! 3))"

definition CRYPTO_load_u32_be :: "bytes \<Rightarrow> u32" where
  "CRYPTO_load_u32_be p = CRYPTO_bswap4 (load_u32 p)"

definition CRYPTO_store_u32_be :: "u32 \<Rightarrow> bytes" where
  "CRYPTO_store_u32_be v = (let v = CRYPTO_bswap4 v in [ucast v, ucast (drop_bit 8 v), ucast (drop_bit 16 v), ucast (drop_bit 24 v)])"

text \<open>The number of blocks of one call of \<^verbatim>\<open>func\<close>, and the counter after it.\<close>

definition ctr32_chunk :: "u32 \<Rightarrow> nat \<Rightarrow> nat \<times> u32" where
  "ctr32_chunk ctr32 len =
     (let blocks = len div 16;
          blocks = (if blocks > 2 ^ 28 then 2 ^ 28 else blocks);
          ctr32 = ctr32 + of_nat blocks
      in if unat ctr32 < blocks then (blocks - unat ctr32, 0) else (blocks, ctr32))"

definition ctr32_store :: "bytes \<Rightarrow> u32 \<Rightarrow> bytes" where
  "ctr32_store ivec ctr32 =
     (let ivec = take 12 ivec @ CRYPTO_store_u32_be ctr32 in if ctr32 = 0 then ctr96_inc ivec else ivec)"

lemma ctr32_chunk_bounds:
  assumes "16 \<le> len" and "ctr32_chunk ctr len = (blocks, ctr')"
  shows "0 < blocks" and "16 * blocks \<le> len" and "unat ctr + blocks \<le> 2 ^ 32" and "unat ctr' = (unat ctr + blocks) mod 2 ^ 32"
proof -
  define m where "m = (if len div 16 > 2 ^ 28 then 2 ^ 28 else len div 16)"
  have m: "0 < m" "16 * m \<le> len" "m \<le> 2 ^ 28" using assms(1) by (auto simp: m_def)
  have u: "unat (ctr + of_nat m) = (unat ctr + m) mod 2 ^ 32" using m(3) by (simp add: unat_word_ariths unat_of_nat)
  have c: "unat ctr < 2 ^ 32" using unsigned_less [of ctr] by simp
  have r: "(blocks, ctr') = (if unat (ctr + of_nat m) < m then (m - unat (ctr + of_nat m), 0) else (m, ctr + of_nat m))"
    using assms(2) unfolding ctr32_chunk_def m_def [symmetric] Let_def by simp
  show "0 < blocks" using r m by (auto split: if_splits)
  show "16 * blocks \<le> len" using r m by (auto split: if_splits)
  have "unat ctr + blocks \<le> 2 ^ 32 \<and> unat ctr' = (unat ctr + blocks) mod 2 ^ 32"
  proof (cases "unat ctr + m < 2 ^ 32")
    case True
    then have "blocks = m" "ctr' = ctr + of_nat m" using r u by auto
    then show ?thesis using True u by auto
  next
    case False
    then have "unat (ctr + of_nat m) = unat ctr + m - 2 ^ 32" using u m(3) c by (simp add: mod_if)
    then have "unat (ctr + of_nat m) < m" "blocks = m - (unat ctr + m - 2 ^ 32)" "ctr' = 0" using r c m by (auto split: if_splits)
    then have "unat ctr + blocks = 2 ^ 32" "ctr' = 0" using c False by auto
    then show ?thesis by auto
  qed
  then show "unat ctr + blocks \<le> 2 ^ 32" "unat ctr' = (unat ctr + blocks) mod 2 ^ 32" by blast+
qed

function ctr32_blocks :: "ctr128_f \<Rightarrow> bytes \<Rightarrow> u32 \<Rightarrow> bytes \<Rightarrow> bytes \<times> bytes \<times> u32 \<times> bytes" where
  "ctr32_blocks func inp ctr32 ivec =
     (if length inp \<ge> 16 then
        let (blocks, ctr32) = ctr32_chunk ctr32 (length inp);
            x = func (take (16 * blocks) inp) blocks ivec;
            ivec = ctr32_store ivec ctr32;
            (out, rest, ctr32, ivec) = ctr32_blocks func (drop (16 * blocks) inp) ctr32 ivec
        in (x @ out, rest, ctr32, ivec)
      else ([], inp, ctr32, ivec))"
  by pat_completeness auto
termination
proof (relation "measure (\<lambda>(func, inp, _). length inp)")
  fix func :: ctr128_f and inp ctr32 and ivec :: bytes and x blocks ctr' y z
  assume "16 \<le> length (inp :: bytes)" "x = ctr32_chunk ctr32 (length inp)" "(blocks, ctr') = x"
  then show "((func, drop (16 * blocks) inp, ctr', z), func, inp, ctr32, ivec) \<in> measure (\<lambda>(func, inp, _). length inp)"
    using ctr32_chunk_bounds(1) [of "length inp" ctr32 blocks ctr'] by simp
qed simp

declare ctr32_blocks.simps [simp del]

definition CRYPTO_ctr128_encrypt_ctr32 :: "ctr128_f \<Rightarrow> nat \<times> bytes \<times> bytes \<Rightarrow> bytes \<Rightarrow> bytes \<times> nat \<times> bytes \<times> bytes" where
  "CRYPTO_ctr128_encrypt_ctr32 func st inp =
     (let (o1, inp, n, ivec, ecount_buf) = head_loop ctr_body (fst st) inp (snd st);
          ctr32 = CRYPTO_load_u32_be (drop 12 ivec);
          (o2, inp, ctr32, ivec) = ctr32_blocks func inp ctr32 ivec
      in if inp \<noteq> [] then
           let ecount_buf = func (replicate 16 0) 1 ivec;
               ctr32 = ctr32 + 1;
               ivec = ctr32_store ivec ctr32;
               (o3, n, c) = tail_loop ctr_body n inp (ivec, ecount_buf)
           in (o1 @ o2 @ o3, n, c)
         else (o1 @ o2, n, ivec, ecount_buf))"

section \<open>Counters as numbers\<close>

lemma inc_loop_value:
  assumes "n \<le> length counter" and "unat c \<le> 1"
  shows "inc_loop n c counter = be_bytes n (be_nat (take n counter) + unat c) @ drop n counter"
  using assms
proof (induction n arbitrary: c counter)
  case (Suc n)
  let ?c = "c + ucast (counter ! n) :: u32"
  have n: "n < length counter" using Suc.prems(1) by simp
  have b: "unat (counter ! n) < 256" using unat_u8_lt [of "counter ! n"] by linarith
  have uu: "unat (ucast (counter ! n) :: u32) = unat (counter ! n)" by (rule unat_ucast_up) simp
  have "unat c + unat (counter ! n) < 4294967296" using b Suc.prems(2) by linarith
  then have u: "unat ?c = unat c + unat (counter ! n)" using uu by (simp add: unat_word_ariths)
  have d: "unat (drop_bit 8 ?c) = unat ?c div 256" by (simp add: drop_bit_eq_div unat_div)
  have "unat ?c < 2 * 256" using u b Suc.prems(2) by linarith
  then have d1: "unat (drop_bit 8 ?c) \<le> 1" using d less_mult_imp_div_less [of "unat ?c" 2 256] by linarith
  have t: "take (Suc n) counter = take n counter @ [counter ! n]" using n by (simp add: take_Suc_conv_app_nth)
  have v: "be_nat (take (Suc n) counter) + unat c = be_nat (take n counter) * 256 + unat ?c" using t u by (simp add: be_nat_append)
  have "inc_loop (Suc n) c counter = be_bytes n (be_nat (take n counter) + unat ?c div 256) @ drop n (counter[n := ucast ?c])"
    using Suc.IH [of "counter[n := ucast ?c]" "drop_bit 8 ?c"] Suc.prems(1) d d1 by (simp add: Let_def)
  also have "drop n (counter[n := ucast ?c]) = ucast ?c # drop (Suc n) counter" using n by (simp add: Cons_nth_drop_Suc [symmetric])
  also have "(be_nat (take (Suc n) counter) + unat c) div 256 = be_nat (take n counter) + unat ?c div 256" unfolding v by simp
  moreover have "(of_nat (be_nat (take (Suc n) counter) + unat c) :: u8) = ucast ?c"
    unfolding v by (rule word_unat_eq_iff [THEN iffD2]) (simp add: unat_of_nat_u8 unsigned_ucast_eq take_bit_eq_mod del: of_nat_add of_nat_mult)
  ultimately show ?case by simp
qed simp

lemma ctr128_inc_value: "length iv = 16 \<Longrightarrow> ctr128_inc iv = be_bytes 16 (be_nat iv + 1)"
  using inc_loop_value [of 16 iv 1] by (simp add: ctr128_inc_def)

lemma ctr96_inc_value: "length iv = 16 \<Longrightarrow> ctr96_inc iv = be_bytes 12 (be_nat (take 12 iv) + 1) @ drop 12 iv"
  using inc_loop_value [of 12 iv 1] by (simp add: ctr96_inc_def)

lemma store_u32_be_value: "CRYPTO_store_u32_be v = be_bytes 4 (unat v)"
proof -
  have "CRYPTO_store_u32_be v = rev (be_bytes 4 (unat (CRYPTO_bswap4 v)))"
    unfolding be_bytes_word4 CRYPTO_store_u32_be_def Let_def by simp
  then show ?thesis by (simp add: bswap4_bytes)
qed

lemma load_u32_be_value: "length p = 4 \<Longrightarrow> unat (CRYPTO_load_u32_be p) = be_nat p"
proof -
  assume l: "length p = 4"
  then obtain a b c d where p: "p = [a, b, c, d]" by (auto simp: length_Suc_conv numeral_eq_Suc)
  have "be_bytes 4 (unat (load_u32 p)) = rev p"
    unfolding be_bytes_word4 load_u32_def p by (simp add: u8_eq_bits all_less_unfold bit_simps)
  then have "be_bytes 4 (unat (CRYPTO_load_u32_be p)) = p" by (simp add: CRYPTO_load_u32_be_def bswap4_bytes)
  then have "be_nat p = unat (CRYPTO_load_u32_be p) mod 256 ^ 4" by (metis be_nat_be_bytes)
  then show ?thesis using unsigned_less [of "CRYPTO_load_u32_be p", where 'a = nat] by simp
qed

lemma be_bytes_split: "be_bytes (m + n) v = be_bytes m (v div 256 ^ n) @ be_bytes n v"
  by (induction n arbitrary: v) (simp_all add: div_mult2_eq)

lemma be_bytes_mod: "be_bytes n (v mod 256 ^ n) = be_bytes n v"
  by (metis be_bytes_be_nat be_nat_be_bytes length_be_bytes)

text \<open>Storing the low word and propagating the carry adds to the whole counter.\<close>

lemma ctr32_store_value:
  assumes "length iv = 16" and "unat ctr = be_nat (drop 12 iv)" and "unat ctr + k \<le> 2 ^ 32" and "0 < k" and "unat ctr' = (unat ctr + k) mod 2 ^ 32"
  shows "ctr32_store iv ctr' = be_bytes 16 (be_nat iv + k)"
proof -
  have iv: "be_nat iv = be_nat (take 12 iv) * 2 ^ 32 + unat ctr"
    using be_nat_append [of "take 12 iv" "drop 12 iv"] assms(1,2) by simp
  have split: "be_bytes 16 (be_nat iv + k) = be_bytes 12 ((be_nat iv + k) div 2 ^ 32) @ be_bytes 4 (be_nat iv + k)"
    using be_bytes_split [of 12 4] by simp
  have low: "be_bytes 4 (be_nat iv + k) = be_bytes 4 (unat ctr')"
  proof -
    have "(be_nat iv + k) mod 256 ^ 4 = unat ctr' mod 256 ^ 4" unfolding iv assms(5) by (simp add: mod_simps add.assoc)
    then show ?thesis by (metis be_bytes_mod)
  qed
  have take12: "be_bytes 12 (be_nat (take 12 iv)) = take 12 iv" using be_bytes_be_nat [of "take 12 iv"] assms(1) by simp
  show ?thesis
  proof (cases "unat ctr + k = 2 ^ 32")
    case True
    then have z: "ctr' = 0" using assms(5) by (simp add: unat_eq_0)
    have "(be_nat iv + k) div 2 ^ 32 = be_nat (take 12 iv) + 1" using True unfolding iv by (simp add: add.assoc)
    then show ?thesis using split low z assms(1) ctr96_inc_value [of "take 12 iv @ be_bytes 4 0"] by (simp add: ctr32_store_def store_u32_be_value)
  next
    case False
    then have "unat ctr' = unat ctr + k" using assms(3,5) by simp
    then have z: "ctr' \<noteq> 0" using assms(4) by auto
    have "(be_nat iv + k) div 2 ^ 32 = be_nat (take 12 iv)" using False assms(3) unfolding iv by (simp add: add.assoc)
    then show ?thesis using split low z take12 by (simp add: ctr32_store_def store_u32_be_value)
  qed
qed

text \<open>What \<^verbatim>\<open>internal.h\<close> says of a \<^verbatim>\<open>ctr128_f\<close>: counter mode that only deals with the lower 32 bits of the counter.\<close>

definition ctr32_func :: "block128_f \<Rightarrow> ctr128_f \<Rightarrow> bool" where
  "ctr32_func block func \<longleftrightarrow>
     (\<forall>inp n iv. length inp = 16 * n \<and> length iv = 16 \<and> be_nat (drop 12 iv) + n \<le> 2 ^ 32 \<longrightarrow>
        func inp n iv = xor_bytes inp (concat (map (\<lambda>i. block (take 12 iv @ be_bytes 4 (be_nat (drop 12 iv) + i))) [0..<n])))"

definition key_stream :: "block128_f \<Rightarrow> bytes \<Rightarrow> nat \<Rightarrow> bytes" where
  "key_stream block iv k = concat (map (\<lambda>i. block (be_bytes 16 (be_nat iv + i))) [0..<k])"

lemma counter_split:
  assumes "length iv = 16" and "be_nat (drop 12 iv) + i < 2 ^ 32"
  shows "take 12 iv @ be_bytes 4 (be_nat (drop 12 iv) + i) = be_bytes 16 (be_nat iv + i)"
proof -
  have iv: "be_nat iv = be_nat (take 12 iv) * 2 ^ 32 + be_nat (drop 12 iv)" using be_nat_append [of "take 12 iv" "drop 12 iv"] assms(1) by simp
  have "(be_nat iv + i) div 2 ^ 32 = be_nat (take 12 iv)" using assms(2) unfolding iv by (simp add: add.assoc)
  moreover have "be_bytes 4 (be_nat iv + i) = be_bytes 4 (be_nat (drop 12 iv) + i)"
  proof -
    have "(be_nat iv + i) mod 256 ^ 4 = (be_nat (drop 12 iv) + i) mod 256 ^ 4" unfolding iv by (simp add: add.assoc)
    then show ?thesis by (metis be_bytes_mod)
  qed
  moreover have "be_bytes 12 (be_nat (take 12 iv)) = take 12 iv" using be_bytes_be_nat [of "take 12 iv"] assms(1) by simp
  ultimately show ?thesis using be_bytes_split [of 12 4 "be_nat iv + i"] by simp
qed

lemma ctr32_func_stream:
  assumes "ctr32_func block func" and "length inp = 16 * n" and "length iv = 16" and "be_nat (drop 12 iv) + n \<le> 2 ^ 32"
  shows "func inp n iv = xor_bytes inp (key_stream block iv n)"
proof -
  have "map (\<lambda>i. block (take 12 iv @ be_bytes 4 (be_nat (drop 12 iv) + i))) [0..<n] = map (\<lambda>i. block (be_bytes 16 (be_nat iv + i))) [0..<n]"
    using assms(4) counter_split [OF assms(3)] by simp
  then show ?thesis using assms unfolding ctr32_func_def key_stream_def by metis
qed

lemma key_stream_Suc: "length iv = 16 \<Longrightarrow> key_stream block iv (Suc k) = block iv @ key_stream block (ctr128_inc iv) k"
proof -
  assume l: "length iv = 16"
  have "be_bytes 16 (be_nat (ctr128_inc iv) + i) = be_bytes 16 (be_nat iv + Suc i)" for i
  proof -
    have "(be_nat (ctr128_inc iv) + i) mod 256 ^ 16 = (be_nat iv + Suc i) mod 256 ^ 16" unfolding ctr128_inc_value [OF l] be_nat_be_bytes by (simp add: mod_simps)
    then show ?thesis by (metis be_bytes_mod)
  qed
  moreover have "[0..<Suc k] = 0 # map Suc [0..<k]" by (simp add: upt_conv_Cons map_Suc_upt del: upt_Suc)
  moreover have "be_bytes 16 (be_nat iv) = iv" using be_bytes_be_nat [of iv] l by simp
  ultimately show ?thesis by (simp add: key_stream_def comp_def del: upt_Suc)
qed

lemma iterate_inc: "length iv = 16 \<Longrightarrow> (ctr128_inc ^^ k) iv = be_bytes 16 (be_nat iv + k)"
proof (induction k)
  case 0
  then show ?case using be_bytes_be_nat [of iv] by simp
next
  case (Suc k)
  have "(be_nat (be_bytes 16 (be_nat iv + k)) + 1) mod 256 ^ 16 = (be_nat iv + Suc k) mod 256 ^ 16" unfolding be_nat_be_bytes by (simp add: mod_simps)
  then show ?case using Suc by (metis be_bytes_mod ctr128_inc_value funpow.simps(2) length_be_bytes comp_apply)
qed

lemma block_loop_chunk:
  assumes "16 * k \<le> length inp" and "ctr_ok block (iv, ec)"
  shows "\<exists>ec'. length ec' = 16 \<and> block_loop (ctr_whole block) inp (iv, ec) =
    (let (out, rest, c) = block_loop (ctr_whole block) (drop (16 * k) inp) ((ctr128_inc ^^ k) iv, ec') in (xor_bytes (take (16 * k) inp) (key_stream block iv k) @ out, rest, c))"
  using assms
proof (induction k arbitrary: inp iv ec)
  case 0
  then show ?case by (intro exI [of _ ec]) (simp add: key_stream_def ctr_ok_def)
next
  case (Suc k)
  have l: "length (block iv) = 16" "length iv = 16" "ctr_ok block (ctr128_inc iv, block iv)" using Suc.prems(2) by (auto simp: ctr_ok_def block_ok_def)
  have "16 * k \<le> length (drop 16 inp)" using Suc.prems(1) by simp
  from Suc.IH [OF this l(3)] obtain ec' where ec': "length ec' = 16" "block_loop (ctr_whole block) (drop 16 inp) (ctr128_inc iv, block iv) =
    (let (out, rest, c) = block_loop (ctr_whole block) (drop (16 * k) (drop 16 inp)) ((ctr128_inc ^^ k) (ctr128_inc iv), ec')
     in (xor_bytes (take (16 * k) (drop 16 inp)) (key_stream block (ctr128_inc iv) k) @ out, rest, c))" by blast
  have n: "16 \<le> length inp" using Suc.prems(1) by simp
  have t: "xor_bytes (take (16 * Suc k) inp) (key_stream block iv (Suc k)) = xor_bytes (take 16 inp) (block iv) @ xor_bytes (take (16 * k) (drop 16 inp)) (key_stream block (ctr128_inc iv) k)"
    using take_add [of 16 "16 * k" inp] n l(1) by (simp add: key_stream_Suc [OF l(2)] zip_append)
  have "block_loop (ctr_whole block) inp (iv, ec) =
    (let (out, rest, c) = block_loop (ctr_whole block) (drop 16 inp) (ctr128_inc iv, block iv) in (xor_bytes (take 16 inp) (block iv) @ out, rest, c))"
    using n l(1) by (subst block_loop.simps) (simp add: ctr_whole_def Let_def xor_words_bytes)
  then show ?case using ec' t by (intro exI [of _ ec']) (simp add: funpow_swap1 add.commute split: prod.splits)
qed

lemma ctr32_blocks_agree:
  assumes f: "ctr32_func block func" and "ctr32_blocks func inp ctr iv = (out, rest, ctr', iv')" and "unat ctr = be_nat (drop 12 iv)" and "ctr_ok block (iv, ec)"
  shows "\<exists>ec'. block_loop (ctr_whole block) inp (iv, ec) = (out, rest, iv', ec') \<and> unat ctr' = be_nat (drop 12 iv') \<and> ctr_ok block (iv', ec') \<and> (length inp < 16 \<longrightarrow> ec' = ec)"
  using assms(2-4)
proof (induction "length inp" arbitrary: inp ctr iv ec out rule: less_induct)
  case less
  show ?case
  proof (cases "16 \<le> length inp")
    case False
    then have "block_loop (ctr_whole block) inp (iv, ec) = ([], inp, iv, ec)" "ctr32_blocks func inp ctr iv = ([], inp, ctr, iv)"
      by (subst block_loop.simps ctr32_blocks.simps, simp)+
    then show ?thesis using less.prems by simp
  next
    case True
    obtain k ctr1 where k: "ctr32_chunk ctr (length inp) = (k, ctr1)" by fastforce
    note b = ctr32_chunk_bounds [OF True k]
    have iv: "length iv = 16" using less.prems(3) by (simp add: ctr_ok_def)
    define iv1 where "iv1 = ctr32_store iv ctr1"
    have iv1: "iv1 = (ctr128_inc ^^ k) iv" unfolding iv1_def iterate_inc [OF iv] by (rule ctr32_store_value [OF iv less.prems(2) b(3,1,4)])
    obtain out1 where r: "ctr32_blocks func (drop (16 * k) inp) ctr1 iv1 = (out1, rest, ctr', iv')" "out = func (take (16 * k) inp) k iv @ out1"
      using less.prems(1) True k by (subst (asm) ctr32_blocks.simps) (auto simp: iv1_def Let_def split: prod.splits)
    have x: "func (take (16 * k) inp) k iv = xor_bytes (take (16 * k) inp) (key_stream block iv k)"
      using b(2,3) less.prems(2) by (intro ctr32_func_stream [OF f _ iv]) simp_all
    obtain ec1 where ec1: "length ec1 = 16" "block_loop (ctr_whole block) inp (iv, ec) =
      (let (out, rest, c) = block_loop (ctr_whole block) (drop (16 * k) inp) (iv1, ec1) in (xor_bytes (take (16 * k) inp) (key_stream block iv k) @ out, rest, c))"
      using block_loop_chunk [OF b(2) less.prems(3)] iv1 by metis
    have "be_nat (drop 12 iv1) = unat ctr1"
    proof -
      have "drop 12 iv1 = be_bytes 4 (be_nat iv + k)" unfolding iv1 iterate_inc [OF iv] using be_bytes_split [of 12 4 "be_nat iv + k"] by simp
      moreover have "be_nat iv = be_nat (take 12 iv) * 2 ^ 32 + unat ctr" using be_nat_append [of "take 12 iv" "drop 12 iv"] iv less.prems(2) by simp
      ultimately show ?thesis by (simp add: be_nat_be_bytes b(4) add.assoc)
    qed
    moreover have "ctr_ok block (iv1, ec1)" using less.prems(3) ec1(1) iv unfolding iv1 iterate_inc [OF iv] ctr_ok_def by simp
    moreover have "length (drop (16 * k) inp) < length inp" using b(1) True by simp
    ultimately obtain ec' where "block_loop (ctr_whole block) (drop (16 * k) inp) (iv1, ec1) = (out1, rest, iv', ec')" "unat ctr' = be_nat (drop 12 iv')" "ctr_ok block (iv', ec')"
      using less.hyps [OF _ r(1), of ec1] by auto
    then show ?thesis using ec1(2) r(2) x True by auto
  qed
qed

theorem ctr32_agrees:
  assumes f: "ctr32_func block func" and st: "n < 16" "ctr_ok block (iv, ec)"
    and a: "CRYPTO_ctr128_encrypt_ctr32 func (n, iv, ec) inp = (out, n', iv', ec')" and b: "CRYPTO_ctr128_encrypt block (n, iv, ec) inp = (out2, n2, iv2, ec2)"
  shows "out = out2 \<and> n' = n2 \<and> iv' = iv2 \<and> (n' \<noteq> 0 \<longrightarrow> ec' = ec2)"
proof -
  obtain o1 rest m iv1 ec1 where h: "head_loop ctr_body n inp (iv, ec) = (o1, rest, m, iv1, ec1)" by (metis prod_cases5)
  have c1: "iv1 = iv \<and> ec1 = ec" using h by (induction ctr_body n inp "(iv, ec)" arbitrary: o1 rule: head_loop.induct) (auto simp: ctr_body_def Let_def split: if_splits prod.splits)
  have z: "rest = [] \<or> m = 0" using head_loop_run [OF h, of "ctr_refill block" thesis] by (metis (no_types) head_loop_run [OF h])
  obtain o2 rest2 ctr' iv3 where bl: "ctr32_blocks func rest (CRYPTO_load_u32_be (drop 12 iv)) iv = (o2, rest2, ctr', iv3)" by (metis prod_cases4)
  have l: "length iv = 16" using st(2) by (simp add: ctr_ok_def)
  from ctr32_blocks_agree [OF f bl _ st(2)] obtain ec3 where e: "block_loop (ctr_whole block) rest (iv, ec) = (o2, rest2, iv3, ec3)"
      "unat ctr' = be_nat (drop 12 iv3)" "ctr_ok block (iv3, ec3)" "length rest < 16 \<longrightarrow> ec3 = ec"
    using load_u32_be_value [of "drop 12 iv"] l by auto
  have l3: "length iv3 = 16" using e(3) by (simp add: ctr_ok_def)
  have u: "unat ctr' < 2 ^ 32" using unsigned_less [of ctr', where 'a = nat] by simp
  have s: "ctr32_store iv3 (ctr' + 1) = ctr128_inc iv3"
    unfolding ctr128_inc_value [OF l3] by (rule ctr32_store_value [OF l3 e(2)]) (use u in \<open>auto simp: unat_word_ariths\<close>)
  have "func (replicate 16 0) 1 iv3 = xor_bytes (replicate 16 0) (key_stream block iv3 1)"
    by (rule ctr32_func_stream [OF f]) (use l3 e(2) u in auto)
  moreover have "key_stream block iv3 1 = block iv3" using be_bytes_be_nat [of iv3] l3 by (simp add: key_stream_def)
  moreover have "length (block iv3) = 16" using e(3) by (auto simp: ctr_ok_def block_ok_def)
  ultimately have k: "func (replicate 16 0) 1 iv3 = block iv3" by (intro nth_equalityI) simp_all
  show ?thesis
  proof (cases "rest2 = []")
    case True
    then have "out = out2 \<and> n' = n2 \<and> iv' = iv2 \<and> n' = m \<and> ec' = ec \<and> ec2 = ec3"
      using a b h bl e(1) c1 by (auto simp: CRYPTO_ctr128_encrypt_ctr32_def CRYPTO_ctr128_encrypt_def stream_mode_def)
    then show ?thesis using z e(4) by auto
  next
    case False
    then show ?thesis using a b h bl e(1) c1 s k
      by (auto simp: CRYPTO_ctr128_encrypt_ctr32_def CRYPTO_ctr128_encrypt_def stream_mode_def ctr_refill_def Let_def split: prod.splits)
  qed
qed

end
