(* ===== verification/ModesCBC.thy ===== *)
theory ModesCBC
  imports Modes
begin

unbundle bit_operations_syntax

text \<open>
  Cipher block chaining (\<^verbatim>\<open>cbc.c\<close>), over a memory in which input and output may overlap: the code keeps a pointer
  \<^verbatim>\<open>iv\<close> into the input or the output and chooses between two loops by the distance of the buffers. The lemmas show that
  both compute chaining on lists (\<open>cbc_enc\<close>, \<open>cbc_dec\<close>), zero padding included, when the input is ahead of the
  output or apart from it, as the code asserts.
\<close>

section \<open>Cipher block chaining in memory\<close>

text \<open>Memory, with the input and the output at addresses that may overlap; \<^verbatim>\<open>ivec\<close> is an array of its own.\<close>

type_synonym memory = "nat \<Rightarrow> u8"

definition mread :: "memory \<Rightarrow> nat \<Rightarrow> nat \<Rightarrow> bytes" where
  "mread m a n = map m [a..<a + n]"

definition mwrite :: "memory \<Rightarrow> nat \<Rightarrow> bytes \<Rightarrow> memory" where
  "mwrite m a bs = (\<lambda>x. if a \<le> x \<and> x < a + length bs then bs ! (x - a) else m x)"

text \<open>The pointer \<^verbatim>\<open>iv\<close>: to \<^verbatim>\<open>ivec\<close>, or to a block of the input or output.\<close>

datatype iv_ptr = Ivec | At nat

definition iv_read :: "memory \<Rightarrow> bytes \<Rightarrow> iv_ptr \<Rightarrow> nat \<Rightarrow> nat \<Rightarrow> bytes" where
  "iv_read m ivec iv k n = (case iv of Ivec \<Rightarrow> take n (drop k ivec) | At a \<Rightarrow> mread m (a + k) n)"

text \<open>One word of the loop \<^verbatim>\<open>out[n] = a[n] ^ iv[n]\<close>.\<close>

definition xor_word_at :: "nat \<Rightarrow> nat \<Rightarrow> iv_ptr \<Rightarrow> bytes \<Rightarrow> nat \<Rightarrow> memory \<Rightarrow> memory" where
  "xor_word_at out a iv ivec n m =
     mwrite m (out + n) (CRYPTO_store_word_le (CRYPTO_load_word_le (mread m (a + n) 8) XOR CRYPTO_load_word_le (iv_read m ivec iv n 8)))"

definition xor_block_at :: "nat \<Rightarrow> nat \<Rightarrow> iv_ptr \<Rightarrow> bytes \<Rightarrow> memory \<Rightarrow> memory" where
  "xor_block_at out a iv ivec m = xor_word_at out a iv ivec 8 (xor_word_at out a iv ivec 0 m)"

definition block_at :: "block128_f \<Rightarrow> nat \<Rightarrow> nat \<Rightarrow> memory \<Rightarrow> memory" where
  "block_at block a out m = mwrite m out (block (mread m a 16))"

fun cbc_enc_blocks :: "block128_f \<Rightarrow> bytes \<Rightarrow> nat \<Rightarrow> nat \<Rightarrow> nat \<Rightarrow> iv_ptr \<Rightarrow> memory \<Rightarrow> memory \<times> nat \<times> nat \<times> nat \<times> iv_ptr" where
  "cbc_enc_blocks block ivec inp out len iv m =
     (if len \<ge> 16 then
        let m = block_at block out out (xor_block_at out inp iv ivec m)
        in cbc_enc_blocks block ivec (inp + 16) (out + 16) (len - 16) (At out) m
      else (m, inp, out, len, iv))"

declare cbc_enc_blocks.simps [simp del]

text \<open>The bytes of an unfinished block: \<^verbatim>\<open>out[n] = in[n] ^ iv[n]\<close> while \<^verbatim>\<open>n < len\<close>, then \<^verbatim>\<open>out[n] = iv[n]\<close>.\<close>

primrec pad_block :: "nat \<Rightarrow> nat \<Rightarrow> nat \<Rightarrow> nat \<Rightarrow> iv_ptr \<Rightarrow> bytes \<Rightarrow> memory \<Rightarrow> memory" where
  "pad_block 0 out inp len iv ivec m = m"
| "pad_block (Suc n) out inp len iv ivec m =
     (let m = pad_block n out inp len iv ivec m
      in mwrite m (out + n) [if n < len then m (inp + n) XOR hd (iv_read m ivec iv n 1) else hd (iv_read m ivec iv n 1)])"

fun cbc_enc_tail :: "block128_f \<Rightarrow> bytes \<Rightarrow> nat \<Rightarrow> nat \<Rightarrow> nat \<Rightarrow> iv_ptr \<Rightarrow> memory \<Rightarrow> memory \<times> iv_ptr" where
  "cbc_enc_tail block ivec inp out len iv m =
     (if len = 0 then (m, iv)
      else
        let m = block_at block out out (pad_block 16 out inp len iv ivec m)
        in if len \<le> 16 then (m, At out) else cbc_enc_tail block ivec (inp + 16) (out + 16) (len - 16) (At out) m)"

declare cbc_enc_tail.simps [simp del]

definition CRYPTO_cbc128_encrypt :: "block128_f \<Rightarrow> nat \<Rightarrow> nat \<Rightarrow> nat \<Rightarrow> bytes \<Rightarrow> memory \<Rightarrow> memory \<times> bytes" where
  "CRYPTO_cbc128_encrypt block inp out len ivec m =
     (if len = 0 then (m, ivec)
      else
        let (m, inp, out, len, iv) = cbc_enc_blocks block ivec inp out len Ivec m;
            (m, iv) = cbc_enc_tail block ivec inp out len iv m
        in (m, iv_read m ivec iv 0 16))"

text \<open>Decryption where the output is two blocks behind the input or apart from it: \<^verbatim>\<open>iv\<close> points to the block before.\<close>

fun cbc_dec_apart :: "block128_f \<Rightarrow> bytes \<Rightarrow> nat \<Rightarrow> nat \<Rightarrow> nat \<Rightarrow> iv_ptr \<Rightarrow> memory \<Rightarrow> memory \<times> nat \<times> nat \<times> nat \<times> iv_ptr" where
  "cbc_dec_apart block ivec inp out len iv m =
     (if len \<ge> 16 then
        let m = xor_block_at out out iv ivec (block_at block inp out m)
        in cbc_dec_apart block ivec (inp + 16) (out + 16) (len - 16) (At inp) m
      else (m, inp, out, len, iv))"

declare cbc_dec_apart.simps [simp del]

text \<open>The other case, with the block decrypted to \<^verbatim>\<open>tmp\<close>: one word of its loop.\<close>

definition swap_word :: "bytes \<Rightarrow> nat \<Rightarrow> nat \<Rightarrow> nat \<Rightarrow> memory \<times> bytes \<Rightarrow> memory \<times> bytes" where
  "swap_word tmp inp out n s =
     (case s of (m, ivec) \<Rightarrow>
        let c = CRYPTO_load_word_le (mread m (inp + n) 8);
            m = mwrite m (out + n) (CRYPTO_store_word_le (CRYPTO_load_word_le (drop n tmp) XOR CRYPTO_load_word_le (drop n ivec)))
        in (m, take n ivec @ CRYPTO_store_word_le c @ drop (n + 8) ivec))"

fun cbc_dec_tmp :: "block128_f \<Rightarrow> nat \<Rightarrow> nat \<Rightarrow> nat \<Rightarrow> bytes \<Rightarrow> memory \<Rightarrow> memory \<times> nat \<times> nat \<times> nat \<times> bytes" where
  "cbc_dec_tmp block inp out len ivec m =
     (if len \<ge> 16 then
        let tmp = block (mread m inp 16);
            (m, ivec) = swap_word tmp inp out 8 (swap_word tmp inp out 0 (m, ivec))
        in cbc_dec_tmp block (inp + 16) (out + 16) (len - 16) ivec m
      else (m, inp, out, len, ivec))"

declare cbc_dec_tmp.simps [simp del]

text \<open>The bytes of an unfinished block, up to \<open>k\<close>.\<close>

primrec dec_bytes :: "nat \<Rightarrow> bytes \<Rightarrow> nat \<Rightarrow> nat \<Rightarrow> memory \<times> bytes \<Rightarrow> memory \<times> bytes" where
  "dec_bytes 0 tmp inp out s = s"
| "dec_bytes (Suc n) tmp inp out s =
     (case dec_bytes n tmp inp out s of (m, ivec) \<Rightarrow>
        let c = m (inp + n) in (mwrite m (out + n) [tmp ! n XOR ivec ! n], ivec[n := c]))"

fun cbc_dec_tail :: "block128_f \<Rightarrow> nat \<Rightarrow> nat \<Rightarrow> nat \<Rightarrow> memory \<times> bytes \<Rightarrow> memory \<times> bytes" where
  "cbc_dec_tail block inp out len s =
     (if len = 0 then s
      else
        let tmp = block (mread (fst s) inp 16);
            (m, ivec) = dec_bytes (min 16 len) tmp inp out s
        in if len \<le> 16 then (m, take len ivec @ mread m (inp + len) (16 - len))
           else cbc_dec_tail block (inp + 16) (out + 16) (len - 16) (m, ivec))"

declare cbc_dec_tail.simps [simp del]

definition CRYPTO_cbc128_decrypt :: "block128_f \<Rightarrow> nat \<Rightarrow> nat \<Rightarrow> nat \<Rightarrow> bytes \<Rightarrow> memory \<Rightarrow> memory \<times> bytes" where
  "CRYPTO_cbc128_decrypt block inp out len ivec m =
     (if len = 0 then (m, ivec)
      else
        let (m, inp, out, len, ivec) =
          (if (inp \<ge> 32 \<and> out \<le> inp - 32) \<or> inp < out then
             (let (m, inp, out, len, iv) = cbc_dec_apart block ivec inp out len Ivec m in (m, inp, out, len, iv_read m ivec iv 0 16))
           else cbc_dec_tmp block inp out len ivec m)
        in cbc_dec_tail block inp out len (m, ivec))"

section \<open>Chaining on lists\<close>

function cbc_enc :: "block128_f \<Rightarrow> bytes \<Rightarrow> bytes \<Rightarrow> bytes" where
  "cbc_enc block iv s = (if length s \<ge> 16 then (let c = block (xor_bytes (take 16 s) iv) in c @ cbc_enc block c (drop 16 s)) else [])"
  by pat_completeness auto
termination
  by (relation "measure (\<lambda>(block, iv, s). length s)") auto

function cbc_dec :: "block128_f \<Rightarrow> bytes \<Rightarrow> bytes \<Rightarrow> bytes" where
  "cbc_dec block iv s = (if length s \<ge> 16 then xor_bytes (block (take 16 s)) iv @ cbc_dec block (take 16 s) (drop 16 s) else [])"
  by pat_completeness auto
termination
  by (relation "measure (\<lambda>(block, iv, s). length s)") auto

declare cbc_enc.simps [simp del] cbc_dec.simps [simp del]

definition last_block :: "bytes \<Rightarrow> bytes \<Rightarrow> bytes" where
  "last_block iv s = (if length s < 16 then iv else drop (length s - 16) s)"

lemma mread_length [simp]: "length (mread m a n) = n"
  by (simp add: mread_def)

lemma mread_nth: "i < n \<Longrightarrow> mread m a n ! i = m (a + i)"
  by (simp add: mread_def)

lemma mread_split: "mread m a (k + n) = mread m a k @ mread m (a + k) n"
  unfolding mread_def by (metis add.assoc le_add1 map_append upt_add_eq_append)

lemma mread_mwrite_apart: "a + n \<le> b \<or> b + length bs \<le> a \<Longrightarrow> mread (mwrite m b bs) a n = mread m a n"
  by (auto simp: mread_def mwrite_def)

lemma mread_mwrite_same: "mread (mwrite m a bs) a (length bs) = bs"
  by (rule nth_equalityI) (simp_all add: mread_nth mwrite_def)

lemma mwrite_mwrite_same: "length bs = length cs \<Longrightarrow> mwrite (mwrite m a bs) a cs = mwrite m a cs"
  by (auto simp: mwrite_def fun_eq_iff)

lemma mwrite_Nil [simp]: "mwrite m a [] = m"
  by (auto simp: mwrite_def fun_eq_iff)

lemma mwrite_append: "mwrite (mwrite m a bs) (a + length bs) cs = mwrite m a (bs @ cs)"
  by (auto simp: mwrite_def fun_eq_iff nth_append)

text \<open>The input, of which \<open>n\<close> bytes are still to be read, is not overwritten by the output; the block \<^verbatim>\<open>iv\<close> points to is apart from it.\<close>

definition ahead :: "nat \<Rightarrow> nat \<Rightarrow> nat \<Rightarrow> bool" where
  "ahead inp out n \<longleftrightarrow> out \<le> inp \<or> inp + n \<le> out"

definition iv_apart :: "iv_ptr \<Rightarrow> nat \<Rightarrow> bool" where
  "iv_apart iv out \<longleftrightarrow> (case iv of Ivec \<Rightarrow> True | At b \<Rightarrow> b + 16 \<le> out \<or> out + 16 \<le> b)"

lemma iv_read_length: "length ivec = 16 \<Longrightarrow> k + n \<le> 16 \<Longrightarrow> length (iv_read m ivec iv k n) = n"
  by (cases iv) (simp_all add: iv_read_def)

lemma iv_read_split: "iv_read m ivec iv 0 16 = iv_read m ivec iv 0 8 @ iv_read m ivec iv 8 8"
  using mread_split [of m _ 8 8] take_add [of 8 8 ivec] by (cases iv) (simp_all add: iv_read_def)

lemma iv_read_apart: "iv_apart iv out \<Longrightarrow> k + n \<le> 16 \<Longrightarrow> length bs \<le> 16 \<Longrightarrow> iv_read (mwrite m out bs) ivec iv k n = iv_read m ivec iv k n"
  by (cases iv) (auto simp: iv_read_def iv_apart_def intro: mread_mwrite_apart)

lemma xor_word_at_value:
  assumes "length ivec = 16" and "n + 8 \<le> 16"
  shows "xor_word_at out a iv ivec n m = mwrite m (out + n) (xor_bytes (mread m (a + n) 8) (iv_read m ivec iv n 8))"
  using store_load_xor [of "mread m (a + n) 8" "iv_read m ivec iv n 8"] iv_read_length [OF assms(1), of n 8 m iv] assms(2) by (simp add: xor_word_at_def)

lemma xor_block_at_value:
  assumes "length ivec = 16" and "iv_apart iv out" and "ahead a out 16"
  shows "xor_block_at out a iv ivec m = mwrite m out (xor_bytes (mread m a 16) (iv_read m ivec iv 0 16))"
proof -
  let ?x = "xor_bytes (mread m a 8) (iv_read m ivec iv 0 8)"
  have l: "length ?x = 8" using iv_read_length [OF assms(1), of 0 8 m iv] by simp
  have "mread (mwrite m out ?x) (a + 8) 8 = mread m (a + 8) 8" using assms(3) l by (intro mread_mwrite_apart) (auto simp: ahead_def)
  moreover have "iv_read (mwrite m out ?x) ivec iv 8 8 = iv_read m ivec iv 8 8" using assms(2) l by (intro iv_read_apart) auto
  ultimately have "xor_block_at out a iv ivec m = mwrite (mwrite m out ?x) (out + length ?x) (xor_bytes (mread m (a + 8) 8) (iv_read m ivec iv 8 8))"
    using xor_word_at_value [OF assms(1), of 0 out a iv m] xor_word_at_value [OF assms(1), of 8 out a iv] l by (simp add: xor_block_at_def)
  also have "\<dots> = mwrite m out (?x @ xor_bytes (mread m (a + 8) 8) (iv_read m ivec iv 8 8))" by (rule mwrite_append)
  also have "?x @ xor_bytes (mread m (a + 8) 8) (iv_read m ivec iv 8 8) = xor_bytes (mread m a 16) (iv_read m ivec iv 0 16)"
    using mread_split [of m a 8 8] iv_read_length [OF assms(1), of 0 8 m iv] by (simp add: iv_read_split [of m ivec iv] zip_append)
  finally show ?thesis .
qed

lemma block_at_same: "length x = 16 \<Longrightarrow> length (block x) = 16 \<Longrightarrow> block_at block out out (mwrite m out x) = mwrite m out (block x)"
  using mread_mwrite_same [of m out x] by (simp add: block_at_def mwrite_mwrite_same)

lemma cbc_enc_length: "block_ok block \<Longrightarrow> length iv = 16 \<Longrightarrow> length (cbc_enc block iv s) = 16 * (length s div 16)"
proof (induction block iv s rule: cbc_enc.induct)
  case (1 block iv s)
  show ?case
  proof (cases "16 \<le> length s")
    case True
    have l: "length (block (xor_bytes (take 16 s) iv)) = 16" using "1.prems" True by (simp add: block_ok_def)
    have "length (cbc_enc block iv s) = 16 + 16 * (length (drop 16 s) div 16)" using "1.IH" [OF True refl "1.prems"(1) l] l True by (subst cbc_enc.simps) (simp add: Let_def)
    then show ?thesis using True by (simp add: le_div_geq)
  next
    case False
    then show ?thesis by (subst cbc_enc.simps) simp
  qed
qed

text \<open>Whole blocks, encrypted.\<close>

lemma cbc_enc_blocks_value:
  assumes "block_ok block" and "length ivec = 16" and "iv_apart iv out" and "ahead inp out len" and "q = 16 * (len div 16)"
  shows "cbc_enc_blocks block ivec inp out len iv m =
    (mwrite m out (cbc_enc block (iv_read m ivec iv 0 16) (mread m inp q)), inp + q, out + q, len - q, if q = 0 then iv else At (out + q - 16))"
  using assms(3-5)
proof (induction len arbitrary: inp out iv m q rule: less_induct)
  case (less len)
  let ?iv = "iv_read m ivec iv 0 16"
  show ?case
  proof (cases "16 \<le> len")
    case True
    define r where "r = 16 * ((len - 16) div 16)"
    have q: "q = 16 + r" using True less.prems(3) by (simp add: r_def le_div_geq)
    have liv: "length ?iv = 16" using iv_read_length [OF assms(2)] by simp
    let ?x = "xor_bytes (mread m inp 16) ?iv"
    have lx: "length ?x = 16" "length (block ?x) = 16" using liv assms(1) by (auto simp: block_ok_def)
    let ?m = "mwrite m out (block ?x)"
    have "ahead inp out 16" using less.prems(2) True by (auto simp: ahead_def)
    then have m: "block_at block out out (xor_block_at out inp iv ivec m) = ?m"
      using xor_block_at_value [OF assms(2) less.prems(1), of inp m] block_at_same [of ?x block out m] lx by simp
    have iv: "iv_read ?m ivec (At out) 0 16 = block ?x" using mread_mwrite_same [of m out "block ?x"] lx(2) by (simp add: iv_read_def)
    have rest: "mread ?m (inp + 16) r = mread m (inp + 16) r"
      using less.prems(2) lx(2) True by (intro mread_mwrite_apart) (auto simp: ahead_def r_def)
    have ih: "cbc_enc_blocks block ivec (inp + 16) (out + 16) (len - 16) (At out) ?m =
      (mwrite ?m (out + 16) (cbc_enc block (block ?x) (mread m (inp + 16) r)), inp + 16 + r, out + 16 + r, len - 16 - r, if r = 0 then At out else At (out + 16 + r - 16))"
      using less.IH [of "len - 16" "At out" "out + 16" "inp + 16" r ?m] less.prems(2) True unfolding iv rest by (auto simp: ahead_def iv_apart_def r_def)
    have "mwrite ?m (out + 16) (cbc_enc block (block ?x) (mread m (inp + 16) r)) = mwrite m out (block ?x @ cbc_enc block (block ?x) (mread m (inp + 16) r))"
      using mwrite_append [of m out "block ?x"] lx(2) by simp
    moreover have "cbc_enc block ?iv (mread m inp q) = block ?x @ cbc_enc block (block ?x) (mread m (inp + 16) r)"
      unfolding q mread_split by (subst cbc_enc.simps) (simp add: Let_def)
    ultimately show ?thesis using True m ih q by (subst cbc_enc_blocks.simps) (auto simp: Let_def)
  next
    case False
    then have "q = 0" using less.prems(3) by simp
    then show ?thesis using False by (subst cbc_enc_blocks.simps, subst cbc_enc.simps) simp
  qed
qed

lemma iv_read_nth:
  assumes "length ivec = 16" and "n < 16"
  shows "hd (iv_read m ivec iv n 1) = iv_read m ivec iv 0 16 ! n"
  using assms by (cases iv) (simp_all add: iv_read_def mread_def hd_drop_conv_nth take_Suc hd_conv_nth)

lemma pad_block_value:
  assumes "length ivec = 16" and "iv_apart iv out" and "ahead inp out len" and "k \<le> 16"
  shows "pad_block k out inp len iv ivec m =
    mwrite m out (map (\<lambda>n. if n < len then m (inp + n) XOR iv_read m ivec iv 0 16 ! n else iv_read m ivec iv 0 16 ! n) [0..<k])"
  using assms(4)
proof (induction k)
  case 0
  show ?case by simp
next
  case (Suc k)
  let ?f = "\<lambda>n. if n < len then m (inp + n) XOR iv_read m ivec iv 0 16 ! n else iv_read m ivec iv 0 16 ! n"
  let ?m = "mwrite m out (map ?f [0..<k])"
  have "hd (iv_read ?m ivec iv k 1) = iv_read m ivec iv 0 16 ! k"
    using iv_read_nth [OF assms(1), of k ?m iv] iv_read_apart [OF assms(2), of 0 16 "map ?f [0..<k]" m ivec] Suc.prems by simp
  moreover have "k < len \<Longrightarrow> ?m (inp + k) = m (inp + k)" using assms(3) by (auto simp: mwrite_def ahead_def)
  ultimately have "pad_block (Suc k) out inp len iv ivec m = mwrite ?m (out + length (map ?f [0..<k])) [?f k]" using Suc by (simp add: Let_def)
  then show ?case unfolding mwrite_append by simp
qed

lemma cbc_enc_tail_value:
  assumes "block_ok block" and "length ivec = 16" and "iv_apart iv out" and "ahead inp out r" and "0 < r" and "r < 16"
  shows "cbc_enc_tail block ivec inp out r iv m =
    (mwrite m out (block (xor_bytes (mread m inp r @ replicate (16 - r) 0) (iv_read m ivec iv 0 16))), At out)"
proof -
  let ?iv = "iv_read m ivec iv 0 16"
  let ?p = "xor_bytes (mread m inp r @ replicate (16 - r) 0) ?iv"
  have liv: "length ?iv = 16" using iv_read_length [OF assms(2)] by simp
  then have lp: "length ?p = 16" "length (block ?p) = 16" using assms(1,6) by (auto simp: block_ok_def)
  have "pad_block 16 out inp r iv ivec m = mwrite m out (map (\<lambda>n. if n < r then m (inp + n) XOR ?iv ! n else ?iv ! n) [0..<16])"
    by (rule pad_block_value [OF assms(2-4)]) simp
  also have "map (\<lambda>n. if n < r then m (inp + n) XOR ?iv ! n else ?iv ! n) [0..<16] = ?p"
    using lp(1) liv assms(6) by (intro nth_equalityI) (auto simp: nth_append mread_nth)
  finally have "block_at block out out (pad_block 16 out inp r iv ivec m) = mwrite m out (block ?p)"
    using block_at_same [of ?p block out m] lp by simp
  then show ?thesis using assms(5,6) by (subst cbc_enc_tail.simps) (simp add: Let_def)
qed

definition zero_pad :: "bytes \<Rightarrow> bytes" where
  "zero_pad s = s @ replicate ((16 - length s mod 16) mod 16) 0"

lemma cbc_enc_append:
  "block_ok block \<Longrightarrow> length iv = 16 \<Longrightarrow> 16 dvd length s \<Longrightarrow> cbc_enc block iv (s @ t) = cbc_enc block iv s @ cbc_enc block (last_block iv (cbc_enc block iv s)) t"
proof (induction block iv s rule: cbc_enc.induct)
  case (1 block iv s)
  show ?case
  proof (cases "16 \<le> length s")
    case True
    let ?c = "block (xor_bytes (take 16 s) iv)"
    have l: "length ?c = 16" using "1.prems" True by (simp add: block_ok_def)
    have d: "16 dvd length (drop 16 s)" using "1.prems"(3) True by (auto simp: dvd_diff_nat)
    have e: "cbc_enc block iv s = ?c @ cbc_enc block ?c (drop 16 s)" using True by (subst cbc_enc.simps) (simp add: Let_def)
    have "cbc_enc block iv (s @ t) = ?c @ cbc_enc block ?c (drop 16 s @ t)" using True by (subst cbc_enc.simps) (simp add: Let_def)
    moreover have "last_block iv (cbc_enc block iv s) = last_block ?c (cbc_enc block ?c (drop 16 s))"
      unfolding e last_block_def using l cbc_enc_length [OF "1.prems"(1) l, of "drop 16 s"] by (cases "length (drop 16 s) < 16") auto
    ultimately show ?thesis using "1.IH" [OF True refl "1.prems"(1) l d] e by simp
  next
    case False
    then have "s = []" using "1.prems"(3) by (metis dvd_imp_le length_0_conv not_gr_zero)
    then show ?thesis using cbc_enc.simps [of block iv "[]"] by (simp add: last_block_def)
  qed
qed

theorem cbc_encrypt_value:
  assumes b: "block_ok block" "length ivec = 16" and a: "ahead inp out len"
  shows "CRYPTO_cbc128_encrypt block inp out len ivec m =
    (let c = cbc_enc block ivec (zero_pad (mread m inp len)) in (mwrite m out c, last_block ivec c))"
proof (cases "len = 0")
  case True
  then show ?thesis by (simp add: CRYPTO_cbc128_encrypt_def zero_pad_def mread_def last_block_def cbc_enc.simps [of block ivec "[]"])
next
  case False
  define q where "q = 16 * (len div 16)"
  define r where "r = len - q"
  have qr: "len = q + r" "r < 16" "16 dvd q" "r = len mod 16" by (simp_all add: q_def r_def minus_mult_div_eq_mod)
  define c where "c = cbc_enc block ivec (mread m inp q)"
  have lc: "length c = q" unfolding c_def using cbc_enc_length [OF b] by (simp add: q_def)
  define iv where "iv = (if q = 0 then Ivec else At (out + q - 16))"
  have blocks: "cbc_enc_blocks block ivec inp out len Ivec m = (mwrite m out c, inp + q, out + q, r, iv)"
    using cbc_enc_blocks_value [OF b _ a q_def, of Ivec m] b(2) by (simp add: iv_apart_def iv_read_def c_def r_def iv_def)
  let ?m = "mwrite m out c"
  have ivv: "iv_read ?m ivec iv 0 16 = last_block ivec c"
  proof (cases "q = 0")
    case True
    then show ?thesis using b(2) lc by (simp add: iv_def iv_read_def last_block_def)
  next
    case False
    then have "16 \<le> q" using qr(3) by (auto dest: dvd_imp_le)
    then have "mread ?m (out + (q - 16)) 16 = drop (q - 16) (mread ?m out q)" using mread_split [of ?m out "q - 16" 16] by simp
    then show ?thesis using mread_mwrite_same [of m out c] lc \<open>16 \<le> q\<close> False by (simp add: iv_def iv_read_def last_block_def)
  qed
  show ?thesis
  proof (cases "r = 0")
    case True
    have "len = q" using True qr(1) by linarith
    moreover have "len mod 16 = 0" using True qr(4) by linarith
    ultimately have "zero_pad (mread m inp len) = mread m inp q" by (simp add: zero_pad_def)
    moreover have "cbc_enc_tail block ivec (inp + q) (out + q) 0 iv ?m = (?m, iv)" by (subst cbc_enc_tail.simps) simp
    ultimately show ?thesis using False blocks True ivv unfolding CRYPTO_cbc128_encrypt_def Let_def by (simp add: c_def)
  next
    case rpos: False
    let ?t = "mread m (inp + q) r" and ?iv = "last_block ivec c"
    have liv: "length ?iv = 16" using iv_read_length [OF b(2), of 0 16 ?m iv] ivv by simp
    have z: "zero_pad (mread m inp len) = mread m inp q @ ?t @ replicate (16 - r) 0"
    proof -
      have "(16 - len mod 16) mod 16 = 16 - r" using rpos qr(2,4) by simp
      then show ?thesis using mread_split [of m inp q r] by (simp add: zero_pad_def flip: qr(1))
    qed
    let ?p = "xor_bytes (?t @ replicate (16 - r) 0) ?iv"
    have lp: "length ?p = 16" "length (block ?p) = 16" using liv qr(2) b(1) by (auto simp: block_ok_def)
    have q16: "q = 0 \<or> 16 \<le> q" using qr(3) by (auto dest: dvd_imp_le)
    have "mread ?m (inp + q) r = ?t" using a lc qr(1) by (intro mread_mwrite_apart) (auto simp: ahead_def)
    moreover have "ahead (inp + q) (out + q) r" using a qr(1) by (auto simp: ahead_def)
    moreover have "iv_apart iv (out + q)" using q16 by (auto simp: iv_def iv_apart_def)
    ultimately have "cbc_enc_tail block ivec (inp + q) (out + q) r iv ?m = (mwrite m out (c @ block ?p), At (out + q))"
      using cbc_enc_tail_value [OF b, of iv "out + q" "inp + q" r ?m] rpos qr(2) ivv mwrite_append [of m out c "block ?p"] lc by simp
    moreover have "cbc_enc block ivec (zero_pad (mread m inp len)) = c @ block ?p"
    proof -
      have "cbc_enc block ?iv (?t @ replicate (16 - r) 0) = block ?p" using qr(2) by (subst cbc_enc.simps, simp add: Let_def) (simp add: cbc_enc.simps [of _ _ "[]"])
      then show ?thesis unfolding z c_def using cbc_enc_append [OF b, of "mread m inp q"] qr(3) by (simp add: c_def)
    qed
    moreover have "iv_read (mwrite m out (c @ block ?p)) ivec (At (out + q)) 0 16 = last_block ivec (c @ block ?p)"
    proof -
      have "mread (mwrite m out (c @ block ?p)) (out + q) 16 = drop q (c @ block ?p)"
        using mread_mwrite_same [of m out "c @ block ?p"] mread_split [of "mwrite m out (c @ block ?p)" out q 16] lc lp(2) by simp
      then show ?thesis using lc lp(2) by (simp add: iv_read_def last_block_def)
    qed
    ultimately show ?thesis using False blocks by (simp add: CRYPTO_cbc128_encrypt_def Let_def)
  qed
qed

section \<open>Decryption\<close>

lemma cbc_dec_unfold: "length s = n \<Longrightarrow> cbc_dec block iv (mread m a 16 @ s) = xor_bytes (block (mread m a 16)) iv @ cbc_dec block (mread m a 16) s"
  by (subst cbc_dec.simps) simp

lemma last_block_step: "length x = 16 \<Longrightarrow> 16 dvd length s \<Longrightarrow> last_block iv (x @ s) = last_block x s"
  by (cases "s = []") (auto simp: last_block_def dest: dvd_imp_le)

text \<open>Two blocks between output and input are enough for the pointer to the block before.\<close>

lemma cbc_dec_apart_value:
  assumes "block_ok block" and "length ivec = 16" and "16 dvd len" and "out + 32 \<le> inp \<or> inp + len \<le> out"
    and "iv = Ivec \<or> (\<exists>b. iv = At b \<and> b + 16 = inp \<and> (out + 16 \<le> b \<or> inp \<le> out))"
  shows "\<exists>iv'. cbc_dec_apart block ivec inp out len iv m = (mwrite m out (cbc_dec block (iv_read m ivec iv 0 16) (mread m inp len)), inp + len, out + len, 0, iv') \<and>
    iv_read (mwrite m out (cbc_dec block (iv_read m ivec iv 0 16) (mread m inp len))) ivec iv' 0 16 = last_block (iv_read m ivec iv 0 16) (mread m inp len)"
  using assms(3-5)
proof (induction len arbitrary: inp out iv m rule: less_induct)
  case (less len)
  let ?iv = "iv_read m ivec iv 0 16"
  show ?case
  proof (cases "16 \<le> len")
    case True
    define r where "r = len - 16"
    have r: "len = 16 + r" "16 dvd r" using True less.prems(1) by (auto simp: r_def dvd_diff_nat)
    let ?c = "mread m inp 16"
    have lb: "length (block ?c) = 16" using assms(1) by (simp add: block_ok_def)
    have liv: "length ?iv = 16" using iv_read_length [OF assms(2)] by simp
    let ?x = "xor_bytes (block ?c) ?iv"
    have lx: "length ?x = 16" using lb liv by simp
    have ap: "iv_apart iv out" using less.prems(3) by (auto simp: iv_apart_def)
    let ?m1 = "mwrite m out (block ?c)" and ?m = "mwrite m out ?x"
    have "xor_block_at out out iv ivec ?m1 = mwrite ?m1 out (xor_bytes (mread ?m1 out 16) (iv_read ?m1 ivec iv 0 16))"
      by (rule xor_block_at_value [OF assms(2) ap]) (simp add: ahead_def)
    also have "\<dots> = ?m" using mread_mwrite_same [of m out "block ?c"] iv_read_apart [OF ap, of 0 16 "block ?c" m ivec] lb lx by (simp add: mwrite_mwrite_same)
    finally have m: "xor_block_at out out iv ivec (block_at block inp out m) = ?m" by (simp add: block_at_def)
    have c: "iv_read ?m ivec (At inp) 0 16 = ?c" using less.prems(2) lx r(1) by (simp add: iv_read_def) (rule mread_mwrite_apart, auto)
    have rest: "mread ?m (inp + 16) r = mread m (inp + 16) r" using less.prems(2) lx r(1) by (intro mread_mwrite_apart) auto
    have p1: "out + 16 + 32 \<le> inp + 16 \<or> inp + 16 + r \<le> out + 16" using less.prems(2) r(1) by auto
    have p2: "At inp = Ivec \<or> (\<exists>b. At inp = At b \<and> b + 16 = inp + 16 \<and> (out + 16 + 16 \<le> b \<or> inp + 16 \<le> out + 16))" using less.prems(2) r(1) by auto
    obtain iv' where ih: "cbc_dec_apart block ivec (inp + 16) (out + 16) r (At inp) ?m =
        (mwrite ?m (out + 16) (cbc_dec block ?c (mread m (inp + 16) r)), inp + 16 + r, out + 16 + r, 0, iv')"
      "iv_read (mwrite ?m (out + 16) (cbc_dec block ?c (mread m (inp + 16) r))) ivec iv' 0 16 = last_block ?c (mread m (inp + 16) r)"
      using less.IH [OF _ r(2) p1 p2, of ?m] r(1) unfolding c rest by auto
    have w: "mwrite ?m (out + 16) (cbc_dec block ?c (mread m (inp + 16) r)) = mwrite m out (cbc_dec block ?iv (mread m inp len))"
      using mwrite_append [of m out ?x] lx by (simp add: r(1) mread_split cbc_dec_unfold)
    have "last_block ?iv (mread m inp len) = last_block ?c (mread m (inp + 16) r)" using last_block_step [of ?c "mread m (inp + 16) r"] r by (simp add: mread_split)
    moreover have "cbc_dec_apart block ivec inp out len iv m = cbc_dec_apart block ivec (inp + 16) (out + 16) r (At inp) ?m"
      using True m by (subst cbc_dec_apart.simps) (simp add: r_def Let_def)
    ultimately show ?thesis using ih w r(1) by (intro exI [of _ iv']) (simp add: add.assoc)
  next
    case False
    then have "len = 0" using less.prems(1) by (auto dest: dvd_imp_le)
    then show ?thesis by (intro exI [of _ iv], subst cbc_dec_apart.simps) (simp add: mread_def last_block_def cbc_dec.simps [of _ _ "[]"])
  qed
qed

text \<open>With the block in \<^verbatim>\<open>tmp\<close> the output may follow the input more closely.\<close>

lemma swap_words_value:
  assumes "length tmp = 16" and "length ivec = 16" and "out \<le> inp"
  shows "swap_word tmp inp out 8 (swap_word tmp inp out 0 (m, ivec)) = (mwrite m out (xor_bytes tmp ivec), mread m inp 16)"
proof -
  let ?x = "xor_bytes (take 8 tmp) (take 8 ivec)" and ?y = "xor_bytes (drop 8 tmp) (drop 8 ivec)"
  have l: "length ?x = 8" "length ?y = 8" using assms by simp_all
  have x: "CRYPTO_store_word_le (CRYPTO_load_word_le tmp XOR CRYPTO_load_word_le ivec) = ?x" using store_load_xor assms by simp
  have s0: "swap_word tmp inp out 0 (m, ivec) = (mwrite m out ?x, mread m inp 8 @ drop 8 ivec)"
    by (simp add: swap_word_def Let_def x store_load)
  have y: "CRYPTO_store_word_le (CRYPTO_load_word_le (drop 8 tmp) XOR CRYPTO_load_word_le (drop 8 ivec)) = ?y"
    using store_load_xor [of "drop 8 tmp" "drop 8 ivec"] assms by simp
  have rd: "mread (mwrite m out ?x) (inp + 8) 8 = mread m (inp + 8) 8" using assms(3) l by (intro mread_mwrite_apart) auto
  have "swap_word tmp inp out 8 (mwrite m out ?x, mread m inp 8 @ drop 8 ivec) = (mwrite (mwrite m out ?x) (out + 8) ?y, mread m inp 8 @ mread m (inp + 8) 8)"
    using y assms by (simp add: swap_word_def Let_def rd store_load)
  moreover have "mwrite (mwrite m out ?x) (out + 8) ?y = mwrite m out (xor_bytes tmp ivec)"
  proof -
    have "?x @ ?y = xor_bytes (take 8 tmp @ drop 8 tmp) (take 8 ivec @ drop 8 ivec)" using assms by (simp only: zip_append length_take map_append)
    then show ?thesis using mwrite_append [of m out ?x ?y] l by simp
  qed
  ultimately show ?thesis using s0 mread_split [of m inp 8 8] by simp
qed

lemma cbc_dec_tmp_value:
  assumes "block_ok block" and "16 dvd len" and "length ivec = 16" and "out \<le> inp"
  shows "cbc_dec_tmp block inp out len ivec m = (mwrite m out (cbc_dec block ivec (mread m inp len)), inp + len, out + len, 0, last_block ivec (mread m inp len))"
  using assms(2-4)
proof (induction len arbitrary: inp out ivec m rule: less_induct)
  case (less len)
  show ?case
  proof (cases "16 \<le> len")
    case True
    define r where "r = len - 16"
    have r: "len = 16 + r" "16 dvd r" using True less.prems(1) by (auto simp: r_def dvd_diff_nat)
    let ?c = "mread m inp 16"
    have lb: "length (block ?c) = 16" using assms(1) by (simp add: block_ok_def)
    let ?x = "xor_bytes (block ?c) ivec"
    have lx: "length ?x = 16" using lb less.prems(2) by simp
    let ?m = "mwrite m out ?x"
    have rest: "mread ?m (inp + 16) r = mread m (inp + 16) r" using less.prems(3) lx by (intro mread_mwrite_apart) auto
    have ih: "cbc_dec_tmp block (inp + 16) (out + 16) r ?c ?m =
        (mwrite ?m (out + 16) (cbc_dec block ?c (mread m (inp + 16) r)), inp + 16 + r, out + 16 + r, 0, last_block ?c (mread m (inp + 16) r))"
      using less.IH [of r ?c "out + 16" "inp + 16" ?m] r less.prems(3) unfolding rest by simp
    have w: "mwrite ?m (out + 16) (cbc_dec block ?c (mread m (inp + 16) r)) = mwrite m out (cbc_dec block ivec (mread m inp len))"
      using mwrite_append [of m out ?x] lx by (simp add: r(1) mread_split cbc_dec_unfold)
    have "last_block ivec (mread m inp len) = last_block ?c (mread m (inp + 16) r)" using last_block_step [of ?c "mread m (inp + 16) r"] r by (simp add: mread_split)
    moreover have "cbc_dec_tmp block inp out len ivec m = cbc_dec_tmp block (inp + 16) (out + 16) r ?c ?m"
      using True swap_words_value [OF lb less.prems(2,3), of m] by (subst cbc_dec_tmp.simps) (simp add: r_def Let_def)
    ultimately show ?thesis using ih w r(1) by (simp add: add.assoc)
  next
    case False
    then have "len = 0" using less.prems(1) by (auto dest: dvd_imp_le)
    then show ?thesis by (subst cbc_dec_tmp.simps) (simp add: mread_def last_block_def cbc_dec.simps [of _ _ "[]"])
  qed
qed

theorem cbc_decrypt_value:
  assumes b: "block_ok block" "length ivec = 16" and a: "ahead inp out len" and d: "16 dvd len"
  shows "CRYPTO_cbc128_decrypt block inp out len ivec m =
    (mwrite m out (cbc_dec block ivec (mread m inp len)), last_block ivec (mread m inp len))"
proof (cases "len = 0")
  case True
  then show ?thesis by (simp add: CRYPTO_cbc128_decrypt_def mread_def last_block_def cbc_dec.simps [of _ _ "[]"])
next
  case False
  have tail: "cbc_dec_tail block i p 0 s = s" for i p s by (subst cbc_dec_tail.simps) simp
  have iv0: "iv_read m ivec Ivec 0 16 = ivec" using b(2) by (simp add: iv_read_def)
  show ?thesis
  proof (cases "(inp \<ge> 32 \<and> out \<le> inp - 32) \<or> inp < out")
    case True
    then have "out + 32 \<le> inp \<or> inp + len \<le> out" using a by (auto simp: ahead_def)
    from cbc_dec_apart_value [OF b d this, of Ivec m] iv0 obtain iv' where
      "cbc_dec_apart block ivec inp out len Ivec m = (mwrite m out (cbc_dec block ivec (mread m inp len)), inp + len, out + len, 0, iv')"
      "iv_read (mwrite m out (cbc_dec block ivec (mread m inp len))) ivec iv' 0 16 = last_block ivec (mread m inp len)" by auto
    then show ?thesis using False True tail by (simp add: CRYPTO_cbc128_decrypt_def)
  next
    case tmp: False
    then show ?thesis using False cbc_dec_tmp_value [OF b(1) d b(2), of out inp m] tail by (auto simp: CRYPTO_cbc128_decrypt_def)
  qed
qed

lemma cbc_dec_enc:
  assumes "block_ok block" and "\<And>x. length x = 16 \<Longrightarrow> inv_block (block x) = x"
  shows "length iv = 16 \<Longrightarrow> 16 dvd length s \<Longrightarrow> cbc_dec inv_block iv (cbc_enc block iv s) = s"
proof (induction "length s" arbitrary: s iv rule: less_induct)
  case less
  show ?case
  proof (cases "16 \<le> length s")
    case True
    let ?x = "xor_bytes (take 16 s) iv" let ?c = "block ?x"
    have l: "length ?x = 16" "length ?c = 16" using less.prems True assms(1) by (auto simp: block_ok_def)
    have e: "cbc_enc block iv s = ?c @ cbc_enc block ?c (drop 16 s)" using True by (subst cbc_enc.simps) (simp add: Let_def)
    have "cbc_dec inv_block iv (?c @ cbc_enc block ?c (drop 16 s)) = xor_bytes (inv_block ?c) iv @ cbc_dec inv_block ?c (cbc_enc block ?c (drop 16 s))"
      using l by (subst cbc_dec.simps) simp
    also have "xor_bytes (inv_block ?c) iv = take 16 s" using less.prems(1) True assms(2) [OF l(1)] by (intro nth_equalityI) (simp_all add: xor_self)
    also have "cbc_dec inv_block ?c (cbc_enc block ?c (drop 16 s)) = drop 16 s" using less.hyps [of "drop 16 s" "?c"] True less.prems(2) l(2) by (simp add: dvd_diff_nat)
    finally show ?thesis using e by simp
  next
    case False
    then have "s = []" using less.prems(2) by (metis dvd_imp_le length_0_conv not_gr_zero)
    then show ?thesis by (simp add: cbc_enc.simps [of _ _ "[]"] cbc_dec.simps [of _ _ "[]"])
  qed
qed

theorem cbc_memory_roundtrip:
  assumes b: "block_ok block" "block_ok inv_block" "\<And>x. length x = 16 \<Longrightarrow> inv_block (block x) = x" "length ivec = 16"
    and e: "ahead inp out len" "CRYPTO_cbc128_encrypt block inp out len ivec m = (m1, iv1)"
    and d: "ahead out dst len" "CRYPTO_cbc128_decrypt inv_block out dst len ivec m1 = (m2, iv2)" and "16 dvd len"
  shows "mread m2 dst len = mread m inp len \<and> iv2 = iv1"
proof -
  let ?s = "mread m inp len" let ?c = "cbc_enc block ivec ?s"
  have lc: "length ?c = len" using cbc_enc_length [OF b(1,4), of ?s] assms(9) by simp
  have "zero_pad ?s = ?s" using assms(9) by (simp add: zero_pad_def)
  then have m1: "m1 = mwrite m out ?c" "iv1 = last_block ivec ?c" using e(2) cbc_encrypt_value [OF b(1,4) e(1), of m] by (simp_all add: Let_def)
  have rd: "mread m1 out len = ?c" using mread_mwrite_same [of m out ?c] lc m1(1) by simp
  have "m2 = mwrite m1 dst ?s" "iv2 = last_block ivec ?c"
    using d(2) cbc_decrypt_value [OF b(2,4) d(1) assms(9), of m1] cbc_dec_enc [OF b(1,3,4), of ?s] assms(9) rd by simp_all
  then show ?thesis using mread_mwrite_same [of m1 dst ?s] m1(2) by simp
qed

end
