(* ===== verification/Spec2Isabelle.thy ===== *)
theory Spec2Isabelle
  imports CBB_Calls Unicode BER Base64 LHash Buf Nanopb_Codec UVReach UVInet6 X509Chain ModesCBC
begin

text \<open>
  \<^bold>\<open>Scope.\<close>  The repository is an iOS application (Swift, under \<^verbatim>\<open>src/AggroAppV3/AggroAppV3\<close>) together
  with the C, C++ and Objective-C libraries it vendors as Pods.  The application itself has no C
  code; its core logic in C is in the libraries that parse and build what it sends and receives.
  This development models parts of three of them from their sources:

  \<^item> \<^verbatim>\<open>Pods/BoringSSL-GRPC/src/crypto\<close>: the byte-string parser and builder (\<^verbatim>\<open>bytestring/\<close>), memory and
    string helpers (\<^verbatim>\<open>mem.c\<close>), the constant-time helpers of \<^verbatim>\<open>internal.h\<close>, base64 (\<^verbatim>\<open>base64/\<close>), the
    pointer stack (\<^verbatim>\<open>stack/\<close>), the hash table (\<^verbatim>\<open>lhash/\<close>) and the growable buffer (\<^verbatim>\<open>buf/\<close>).
    The TLS, X.509 and ASN.1 code of the library is written on top of these.  Of that code, the names in
    certificates: ASN.1 strings (\<^verbatim>\<open>asn1/a_mbstr.c\<close>), the comparison of names with the host a caller asks
    for (\<^verbatim>\<open>x509v3/v3_utl.c\<close>), name constraints (\<^verbatim>\<open>x509v3/v3_ncons.c\<close>) and the checks of a chain that use
    them (\<^verbatim>\<open>x509/x509_vfy.c\<close>).  Of the cryptography, the modes that turn a block cipher into a cipher
    of messages (\<^verbatim>\<open>fipsmodule/modes\<close>: CBC, CFB, CTR, OFB).
  \<^item> \<^verbatim>\<open>Pods/nanopb\<close>: the wire format of protocol buffers, which Firebase uses to store documents and
    to talk to its back end.
  \<^item> \<^verbatim>\<open>Pods/Libuv-gRPC/src\<close>: the event loop under gRPC: its queues (\<^verbatim>\<open>queue.h\<close>), its heap (\<^verbatim>\<open>heap-inl.h\<close>),
    handles and their flags (\<^verbatim>\<open>uv-common.h\<close>), timers (\<^verbatim>\<open>timer.c\<close>), watchers (\<^verbatim>\<open>unix/loop-watcher.c\<close>),
    the closing of handles (\<^verbatim>\<open>unix/core.c\<close>) and the text of network addresses (\<^verbatim>\<open>inet.c\<close>, \<^verbatim>\<open>strscpy.c\<close>).

  \<^bold>\<open>Parts and theories.\<close>  One theory per component, each with its operations in the order of the
  source and its invariants and lemmas after them.

  \<^item> \<open>Prelude\<close>: word types, \<^verbatim>\<open>size_t\<close> arithmetic with its wrap-around (\<open>size_add\<close>, \<open>size_mul\<close>), the
    result type of the readers and its bind, big-endian numbers, word lemmas.
  \<^item> \<open>Mem\<close> (\<^verbatim>\<open>mem.c\<close>): allocation with the size prefix, against an environment \<open>alloc_env\<close> that says
    which requests the C library's allocator meets and what fresh memory holds; constant-time
    comparison; bounded C strings.
  \<^item> \<open>CBS\<close>, \<open>DER\<close> (\<^verbatim>\<open>cbs.c\<close>): the cursor over a byte string.  A reader is a function from the remaining
    bytes to an optional value and the bytes left.  \<open>DER\<close> gives the encodings (\<open>der_tag\<close>, \<open>der_len\<close>,
    \<open>der_element\<close>, \<open>b128\<close>, \<open>uint_content\<close>, \<open>int_content\<close>) and shows that each reader accepts exactly
    their image.
  \<^item> \<open>CBB\<close>, \<open>CBB_Writers\<close>, \<open>CBB_ASN1\<close>, \<open>CBB_Calls\<close> (\<^verbatim>\<open>cbb.c\<close>): the builder.  The tree of a root \<^verbatim>\<open>CBB\<close> and its open
    children is a shared buffer and the chain of pending length prefixes; an operation acts at a
    depth of the chain.  The locales \<open>cbb_leaf_writer\<close> and \<open>cbb_writer\<close> are the contract of an
    operation that appends bytes: it appends them after flushing the children, or sets the error
    flag, and cannot fail when the buffer has room.  Contracts compose (\<open>writer_andalso\<close>,
    \<open>child_writer\<close>), and every operation of the file has one.  When no allocation fails the buffer grows as it has to
    (\<open>grows\<close>).  \<open>CBB_Calls\<close> runs any sequence of calls, on any depth, and shows what no failure can break.
  \<^item> \<open>OID\<close>, \<open>Sorting\<close>, \<open>SetOf\<close>, \<open>Unicode\<close>, \<open>BER\<close> (\<^verbatim>\<open>cbb.c\<close>, \<^verbatim>\<open>cbs.c\<close>, \<^verbatim>\<open>asn1_compat.c\<close>, \<^verbatim>\<open>unicode.c\<close>,
    \<^verbatim>\<open>ber.c\<close>): object identifiers as text, the order of SET OF (with \<^verbatim>\<open>qsort\<close> under the locale
    \<open>comparator\<close>), character encodings, conversion of BER to DER and implicit strings.
  \<^item> \<open>ASN1Str\<close> (\<^verbatim>\<open>a_mbstr.c\<close>, \<^verbatim>\<open>a_strex.c\<close>, \<^verbatim>\<open>asn1_lib.c\<close>): ASN.1 strings and the choice of a type for a text, on
    the readers and writers of \<open>Unicode\<close>.
  \<^item> \<open>X509Host\<close>, \<open>X509Cons\<close>, \<open>X509Chain\<close> (\<^verbatim>\<open>v3_utl.c\<close>, \<^verbatim>\<open>v3_ncons.c\<close>, \<^verbatim>\<open>x509_vfy.c\<close>): names in certificates, name constraints
    and both along a chain.  The locale \<open>dns_matcher\<close> is what the constraints need of a comparison of names: that it
    respects subtrees; it is interpreted on the comparison \<^verbatim>\<open>X509_check_host\<close> uses, wildcards included.
    A certificate has the alternative names that verification cached (\<open>altname\<close>) and those that \<^verbatim>\<open>do_x509_check\<close> gets when it
    decodes the extension again (\<open>san_ext\<close>), which may fail.
  \<^item> \<open>Modes\<close>, \<open>ModesCBC\<close> (\<^verbatim>\<open>ctr.c\<close>, \<^verbatim>\<open>ofb.c\<close>, \<^verbatim>\<open>cfb.c\<close>, \<^verbatim>\<open>cbc.c\<close>): the stream modes as loops over lists of bytes, and cipher block
    chaining over a memory where input and output may overlap.  The locales \<open>byte_stream\<close> and \<open>stream_cipher\<close> are
    what callers rely on: calls can be cut anywhere, and decryption inverts encryption.
  \<^item> \<open>ConstTime\<close>, \<open>Base64\<close> (\<^verbatim>\<open>internal.h\<close>, \<^verbatim>\<open>base64.c\<close>): branch-free comparisons and the block and
    streaming base64 codecs.
  \<^item> \<open>Stack\<close>, \<open>LHash\<close>, \<open>Buf\<close> (\<^verbatim>\<open>stack.c\<close>, \<^verbatim>\<open>lhash.c\<close>, \<^verbatim>\<open>buf.c\<close>): the containers.  The locales
    \<open>list_container\<close> and \<open>keyed_table\<close> are their contracts, over the list of elements and the set
    of elements up to an equivalence of keys.
  \<^item> \<open>Nanopb\<close>, \<open>Nanopb_Codec\<close> (\<^verbatim>\<open>pb_encode.c\<close>, \<^verbatim>\<open>pb_decode.c\<close>): streams over buffers, varints,
    fixed-width numbers, tags, substreams and the codecs of single fields.  The locale \<open>pb_codec\<close>
    pairs an encoder with a decoder through the bytes of a value.
  \<^item> \<open>UVHeap\<close>, \<open>UVHeap_Order\<close> (\<^verbatim>\<open>heap-inl.h\<close>): the intrusive heap, with the pointers of its nodes in an explicit
    store, related to the list of nodes in level order; the locale \<open>heap_order\<close> is what it asks of a
    comparison, interpreted on \<open>timer_less_than\<close>.
  \<^item> \<open>UVQueue\<close> (\<^verbatim>\<open>queue.h\<close>): the circular linked lists as updates of a pointer store, related to lists.
  \<^item> \<open>UVLoop\<close>, \<open>UVTimer\<close>, \<open>UVWatcher\<close>, \<open>UVReach\<close> (\<^verbatim>\<open>uv-common.h\<close>, \<^verbatim>\<open>uv-common.c\<close>, \<^verbatim>\<open>timer.c\<close>, \<^verbatim>\<open>loop-watcher.c\<close>,
    \<^verbatim>\<open>core.c\<close>, \<^verbatim>\<open>loop.c\<close>): the loop and its handles as a record of stores, the operations on them, and the
    states reachable by these operations.
  \<^item> \<open>UVInet\<close>, \<open>UVInet6\<close> (\<^verbatim>\<open>inet.c\<close>, \<^verbatim>\<open>strscpy.c\<close>): IPv4 and IPv6 addresses as text.

  \<^bold>\<open>What is shown.\<close>  Parsers accept exactly the canonical encodings (C1, C28,
  C31, C27); what is written is read back (C14, C15,
  C25, C26, C32,
  C37); a host is accepted only for a name of the certificate and only within the constraints
  of the chain (C2, C3, C6), and is accepted when it should be
  (C4); constraints on DNS names are decided exactly and with bounded work (C5,
  C7); texts get the first type that can hold them (C8); operations keep the invariants of their state, also when they
  fail (C16, C19, C36); failures are
  sticky or change nothing (C17, C33); decryption inverts encryption in every mode, in place and however the
  calls are cut (C9, C12, C13), and the loops over
  pointers and runs of blocks compute the plain definitions (C10, C11); the containers implement their abstract counterparts
  (C18, C33, C20, C35);
  recursion ends (C29); the event loop serves every due timer, watcher and closing handle
  (C21, C22, C23) and does not sleep past a timer
  (C24).  Five theorems prove that the code does not do what it means to or what its comments say
  (C30, C34, C38, C39, C40).

  \<^bold>\<open>Bounds and fuel.\<close>  \<^verbatim>\<open>size_t\<close> has 64 bits.  The only fuelled definition is the mutual recursion of
  \<^verbatim>\<open>cbs_convert_ber\<close>; each round consumes input, so one unit more than the input's length suffices
  (C29).  The loops of libuv that follow pointers or call back are partial functions whose
  value \<open>None\<close> stands for a loop that does not end; each is shown to return.  All other loops are total
  functions with termination proofs.

  \<^bold>\<open>Parameters.\<close>  The allocator (\<open>alloc_env\<close>), the callbacks of the containers (comparison, hash,
  copy), the function a table's iteration calls, the system clock and the callbacks of timers, watchers and
  closed handles, the encoder of directory names (\<^verbatim>\<open>i2d_X509_NAME\<close>, made by the ASN.1 templates) and the
  verification callback are arguments; so are the block cipher of the modes and the function that encrypts runs of
  blocks in counter mode (\<open>ctr32_func\<close> is what \<^verbatim>\<open>ctr.c\<close> says of it: it counts in the low 32 bits only and does not
  change the counter block).  What the code relies on of the
  callbacks is stated where it is used: \<open>comparator\<close> for comparison functions, \<open>key_ok\<close> for hash
  and comparison together.

  \<^bold>\<open>Not modelled.\<close>  Releasing memory and the contents of freed blocks; error queues; locks and
  reference counts; nanopb streams with user callbacks and its walk over message descriptors
  (\<^verbatim>\<open>pb_encode\<close>, \<^verbatim>\<open>pb_decode\<close>, \<^verbatim>\<open>pb_release\<close>, \<^verbatim>\<open>pb_common.c\<close>); a callback that changes the table it
  iterates over; libuv's polling, sockets, processes, signals, files, threads and the other handle types,
  with the two internal handles that \<^verbatim>\<open>uv_loop_init\<close> creates after its first part (a loop here starts with an empty handle queue),
  and callbacks that act on the loop while it runs its timers or watchers; the rest of BoringSSL (block ciphers, GCM, digests,
  bignums, curves, the ASN.1 templates, the rest of X.509, TLS), gRPC, abseil, leveldb, upb and Firebase; the Swift application.
\<close>

section \<open>Concrete states for the witnesses\<close>

text \<open>An allocator that always succeeds and returns zeroed memory, and a fresh builder of a given capacity.\<close>

definition env0 :: alloc_env where
  "env0 = \<lparr>can_alloc = (\<lambda>_. True), junk = (\<lambda>_. 0)\<rparr>"

definition fresh_cbb :: "nat \<Rightarrow> cbb_st" where
  "fresh_cbb n = \<lparr>base = Some \<lparr>buf = replicate n 0, blen = 0, cap = n, can_resize = True, berror = False\<rparr>, chain = []\<rparr>"

abbreviation cbb16 :: cbb_st where "cbb16 \<equiv> fresh_cbb 16"
abbreviation cbb32 :: cbb_st where "cbb32 \<equiv> fresh_cbb 32"

lemma init_fresh: "0 < n \<Longrightarrow> n < 1000 \<Longrightarrow> CBB_init env0 n = (True, fresh_cbb n)"
  by (simp add: CBB_init_def cbb_init_def CBB_zero_def OPENSSL_malloc_def env0_def fresh_cbb_def size_add_def
      OPENSSL_MALLOC_PREFIX_def sizeof_cbb_buffer_st_def map_replicate_const)

lemmas init_cbb16 = init_fresh [of 16, simplified]
lemmas init_cbb32 = init_fresh [of 32, simplified]


text \<open>A builder that has failed, and one that holds a NULL and a BOOLEAN.\<close>

definition cbb_failed :: cbb_st where
  "cbb_failed = \<lparr>base = Some \<lparr>buf = replicate 4 0, blen = 0, cap = 4, can_resize = False, berror = True\<rparr>, chain = []\<rparr>"

lemma cbb_failed_ok: "cbb_inv cbb_failed" "cbb_error cbb_failed" "chain cbb_failed = []"
  by (simp_all add: cbb_failed_def cbb_inv_def cbb_error_def buf_ok_def)

definition cbb_two :: cbb_st where
  "cbb_two = \<lparr>base = Some \<lparr>buf = [0x05, 0x00, 0x01, 0x01, 0xff, 0, 0, 0], blen = 5, cap = 8, can_resize = True,
     berror = False\<rparr>, chain = []\<rparr>"

text \<open>The tag of a SEQUENCE (\<^verbatim>\<open>openssl/bytestring.h\<close>).\<close>

definition CBS_ASN1_SEQUENCE :: u32 where
  "CBS_ASN1_SEQUENCE = 0x20000010"

text \<open>A constructed implicit string of two one-byte chunks.\<close>

definition implicit_demo :: bytes where
  "implicit_demo = [0xa0, 0x06, 0x04, 0x01, 0x01, 0x04, 0x01, 0x02]"

lemma implicit_demo_der:
  "implicit_demo = der_element (0x80000000 OR CBS_ASN1_CONSTRUCTED) (der_element CBS_ASN1_OCTETSTRING [1] @ der_element CBS_ASN1_OCTETSTRING [2])"
  "length (der_element CBS_ASN1_OCTETSTRING [1] @ der_element CBS_ASN1_OCTETSTRING [2]) = 6"
  by (simp_all add: implicit_demo_def der_element_def der_tag_def der_len_def CBS_ASN1_OCTETSTRING_def CBS_ASN1_CONSTRUCTED_def)

lemma implicit_demo_length: "length implicit_demo = 8"
  by (simp add: implicit_demo_def)

lemma implicit_demo_tag: "\<not> CBS_peek_asn1_tag implicit_demo 0x80000000"
  by (simp add: implicit_demo_def CBS_peek_asn1_tag_iff der_tag_def)

lemma cbb_two_ok: "cbb_inv cbb_two" "chain cbb_two = []" "cbb_start 0 cbb_two = 0" "flushed 0 cbb_two = [0x05, 0x00, 0x01, 0x01, 0xff]"
  by (simp_all add: cbb_two_def cbb_inv_def buf_ok_def flushed_leaf cdata_def bdata_def cbb_start_def)

lemma two_elements: "get_elements [0x05, 0x00, 0x01, 0x01, 0xff] = Some [[0x05, 0x00], [0x01, 0x01, 0xff]]"
proof -
  have d: "der_element 5 [] = [0x05, 0x00]" "der_element 1 [0xff] = [0x01, 0x01, 0xff]"
    by (simp_all add: der_element_def der_tag_def der_len_def)
  show ?thesis
    using element_der [of "[]" 5 "der_element 1 [0xff]"] element_der [of "[0xff]" 1 "[]"]
      get_elements.simps [of "[0x05, 0x00, 0x01, 0x01, 0xff]"] get_elements.simps [of "[0x01, 0x01, 0xff]"] get_elements.simps [of "[]"]
    by (simp add: d der_parsed_def)
qed

lemma cbb_two_flushes: "\<exists>st'. CBB_flush_asn1_set_of env0 0 cbb_two = (True, st')"
  by (simp add: CBB_flush_asn1_set_of_def cbb_two_def CBB_flush_def Let_def CBB_len_def CBB_data_def andalso_def two_elements
    OPENSSL_memdup_def OPENSSL_malloc_def env0_def OPENSSL_MALLOC_PREFIX_def sizeof_CBS_def size_add_def on_base_def qsort_def compare_set_of_element_def
    cbb_start_def CBB_add_bytes_def CBB_add_space_def cbb_buffer_add_def cbb_buffer_reserve_def)

lemma find_ber_demo: "cbs_find_ber [0x24, 0x00] (Suc 0) = Some True"
  using find_ber_string [of "[]" "0x20000004" "Suc 0" "[]"]
  by (simp add: der_element_def der_tag_def der_len_def CBS_ASN1_CONSTRUCTED_def CBS_ASN1_OCTETSTRING_def is_string_type_def kMaxDepth_def)

text \<open>An object identifier whose text is longer than the first buffer.\<close>

definition oid_long :: "nat list" where
  "oid_long = [1, 2, 10, 10, 10, 10, 10, 10, 10, 10, 10, 10, 10]"

lemma oid_long_valid: "oid_valid oid_long"
  by (simp add: oid_valid_def oid_long_def)

lemma oid_long_length: "length (oid_text oid_long) = 36" "length (oid_der oid_long) \<le> 32"
  by code_simp+

text \<open>A stack of three pointers, sorted by their addresses, and the table of a fresh hash.\<close>

definition stack3 :: stack_st where
  "stack3 = \<lparr>num = 3, sdata = [2, 4, 6, 0], sorted_flag = True, num_alloc = 4, comp = 1\<rparr>"

lemma stack3_ok: "sk_inv stack3" "elems stack3 = [2, 4, 6]" "sk_sorted_ok demo_cmp stack3" "sorted_flag stack3" "comp stack3 = 1"
  by (simp_all add: stack3_def sk_inv_def elems_def sk_sorted_ok_def sizeof_ptr_def demo_cmp_def)

lemma stack0_ok: "sk_inv (stack3\<lparr>num := 0\<rparr>)" "elems (stack3\<lparr>num := 0\<rparr>) = []" "num_alloc (stack3\<lparr>num := 0\<rparr>) = num_alloc stack3"
  by (simp_all add: stack3_def sk_inv_def elems_def sizeof_ptr_def)

definition demo_hash :: "nat \<Rightarrow> ptr \<Rightarrow> u32" where
  "demo_hash f p = of_nat p"

definition lh0 :: lhash_st where
  "lh0 = \<lparr>num_items = 0, buckets = replicate 16 [], num_buckets = 16, callback_depth = 0, lcomp = 1, lhash = 1\<rparr>"

lemma lh0_ok: "lh_inv demo_hash demo_cmp lh0"
  by (auto simp: lh_inv_def key_ok_def lh0_def demo_hash_def demo_cmp_def kMinNumBuckets_def placed_def all_items_def)

lemma lh0_insert: "\<exists>lh. OPENSSL_lh_insert env0 demo_hash demo_cmp lh0 5 = (True, NULL, lh)"
  by (simp add: OPENSSL_lh_insert_def get_next_ptr_and_hash_def Let_def deref_def lh0_def demo_hash_def OPENSSL_malloc_def env0_def
      OPENSSL_MALLOC_PREFIX_def size_add_def sizeof_LHASH_ITEM_def)

text \<open>Timers for the witnesses: a heap of two nodes, and a loop with one timer.\<close>

definition blank_handle :: uv_handle_t where
  "blank_handle = \<lparr>htype = UV_TIMER, flags = 0, close_cb = NULL, next_closing = NULL, cb = NULL, timeout = 0, trepeat = 0, start_id = 0\<rparr>"

definition by_address :: "ptr \<Rightarrow> uv_handle_t" where
  "by_address p = blank_handle\<lparr>timeout := of_nat p\<rparr>"

definition heap2 :: uv_heap where
  "heap2 = \<lparr>hmin = 3, nelts = 2, node = (\<lambda>_. \<lparr>hleft = NULL, hright = NULL, hparent = NULL\<rparr>)
     (3 := \<lparr>hleft = 5, hright = NULL, hparent = NULL\<rparr>, 5 := \<lparr>hleft = NULL, hright = NULL, hparent = 3\<rparr>)\<rparr>"

lemma heap2_ok: "hrep [3, 5] heap2" "heap_ordered (timer_less_than by_address) [3, 5]"
proof -
  have two: "i < Suc (Suc 0) \<longleftrightarrow> i = 0 \<or> i = 1" for i by auto
  show "hrep [3, 5] heap2" by (auto simp: hrep_def tree_def node_of_def at_def heap2_def two)
  show "heap_ordered (timer_less_than by_address) [3, 5]"
    by (auto simp: heap_ordered_def two timer_less_than_def by_address_def)
qed

definition loop0 :: uv_loop_t where
  "loop0 = \<lparr>time = 0, timer_counter = 0, timer_heap = heap2, active_handles = 0, active_reqs = 0, stop_flag = 0, closing_handles = NULL,
     handle_queue = 1, pending_queue = 2,
     watcher_handles = (\<lambda>t. case t of UV_TIMER \<Rightarrow> NULL | UV_PREPARE \<Rightarrow> 3 | UV_CHECK \<Rightarrow> 4 | UV_IDLE \<Rightarrow> 5),
     handles = (\<lambda>_. blank_handle), handle_links = (\<lambda>_. (NULL, NULL)), watcher_links = (\<lambda>_. (NULL, NULL))\<rparr>"

definition loop1 :: uv_loop_t where
  "loop1 = snd (uv_timer_init 9 (uv_loop_init 5000000 loop0))"

lemma loop0_heads: "heads_ok loop0 {}" "t \<noteq> UV_TIMER \<Longrightarrow> watcher_handles loop0 t \<noteq> pending_queue loop0"
  by (auto simp: heads_ok_def loop0_def split: uv_handle_type.splits) 

lemma loop0_init: "reachable (uv_loop_init hrtime loop0)" "handle_list (uv_loop_init hrtime loop0) = []"
proof -
  have f: "flags (handles loop0 p) = 0" for p by (simp add: loop0_def blank_handle_def)
  show "reachable (uv_loop_init hrtime loop0)" using f loop0_heads by (intro reachable.loop_init) auto
  show "handle_list (uv_loop_init hrtime loop0) = []" using wf_loop_init [OF f loop0_heads] by (rule handle_list_wf)
qed

lemma loop1_sel:
  "handles loop1 = (\<lambda>_. blank_handle)(9 := blank_handle\<lparr>flags := UV_HANDLE_REF\<rparr>)" "time loop1 = 5" "timer_counter loop1 = 0"
  by (simp_all add: loop1_def uv_timer_init_def uv__handle_init_def uv_loop_init_def uv__update_time_def loop0_def blank_handle_def Let_def)

lemma loop1_ok: "reachable loop1" "handle_list loop1 = [9]"
proof -
  let ?l = "uv_loop_init 5000000 loop0"
  have f: "fresh ?l 9"
    unfolding fresh_def loop0_init(2) by (simp add: uv_loop_init_def uv__update_time_def loop0_def Let_def split: uv_handle_type.splits)
  then show "reachable loop1" unfolding loop1_def by (intro reachable.timer_init loop0_init)
  have "wf_with [] ?l" using reachable_wf [OF loop0_init(1)] by (simp add: loop0_init(2))
  from wf_timer_init [OF this, of 9] f show "handle_list loop1 = [9]" unfolding fresh_def loop0_init(2) loop1_def
    by (intro handle_list_wf) simp
qed

text \<open>The timer of \<open>loop1\<close> started with an expired timeout.\<close>

lemma loop1_start:
  "\<exists>l. uv_timer_start 9 7 0 0 loop1 = Some (0, l) \<and> reachable l \<and> handle_list l = [9] \<and> time l = 5 \<and>
     armed l = {9} \<and> due l = {9} \<and> live l = {9} \<and> cb (handles l 9) = 7 \<and> closing_handles l = closing_handles loop1"
proof -
  have w: "wf_with [9] loop1" using reachable_wf [OF loop1_ok(1)] by (simp add: loop1_ok(2))
  have a: "armed loop1 = {}" by (auto simp: armed_def is_active_def loop1_sel blank_handle_def)
  have t: "is_timer loop1 9" "room loop1 9" using a by (simp_all add: is_timer_def loop1_ok(2) loop1_sel blank_handle_def room_def)
  from w have i: "loop_inv loop1" by (simp add: wf_with_def)
  from start_ok [OF i _ _ _ _ t(2) [unfolded room_def], of 7 0 0] obtain l where
    l: "uv_timer_start 9 7 0 0 loop1 = Some (0, l)" "frame loop1 l"
      "handles l = (handles loop1)(9 := (keyed 7 0 0 loop1 (handles loop1 9))\<lparr>flags := flags (handles loop1 9) OR UV_HANDLE_ACTIVE\<rparr>)"
    by (auto simp: loop1_sel is_closing_def blank_handle_def)
  have "wf_with [9] l" using wf_timer_start [OF w _ _ l(1) t(2) [unfolded room_def]] by (simp add: loop1_sel blank_handle_def)
  then have "handle_list l = [9]" by (rule handle_list_wf)
  moreover have tm: "time l = 5" using l(2) loop1_sel(2) by (simp add: frame_def)
  moreover have ar: "armed l = {9}" by (auto simp: armed_def is_active_def l(3) loop1_sel blank_handle_def keyed_def split: if_splits)
  moreover have "timeout (handles l 9) = 5" "cb (handles l 9) = 7" by (simp_all add: l(3) keyed_def clamped_def loop1_sel)
  moreover from this have "due l = {9}" by (auto simp: due_def ar tm)
  moreover have "live l = {9}" by (auto simp: live_iff l(3) loop1_sel blank_handle_def keyed_def split: if_splits)
  moreover have "reachable l" by (rule reachable.timer_start [OF loop1_ok(1) t l(1)])
  moreover have "closing_handles l = closing_handles loop1" using l(2) by (simp add: frame_def)
  ultimately show ?thesis using l(1) by blast
qed

text \<open>
  A certificate for the wildcard \<^verbatim>\<open>*.a.b\<close>, one with the common name \<^verbatim>\<open>a.b\<close>, and an issuer that permits only
  names below \<^verbatim>\<open>a.b\<close>; the host \<^verbatim>\<open>w.a.b\<close>.
\<close>

definition ia5 :: "bytes \<Rightarrow> asn1_string" where
  "ia5 s = \<lparr>slen = length s, stype = V_ASN1_IA5STRING, sdata = Some s, sflags = 0\<rparr>"

definition no_name :: x509_name where "no_name = \<lparr>entries = [], modified = False, canon_enc = []\<rparr>"

definition star_ab :: bytes where "star_ab = [0x2a, 0x2e, 0x61, 0x2e, 0x62]"

definition host_ab :: bytes where "host_ab = [0x77, 0x2e, 0x61, 0x2e, 0x62]"

definition leaf_ab :: x509 where
  "leaf_ab = \<lparr>altname = Some [GEN_DNS (ia5 star_ab)], san_ext = Some [GEN_DNS (ia5 star_ab)], subject_name = no_name, ex_flags = 0, nc = None\<rparr>"

definition nc_ab :: name_constraints where
  "nc_ab = \<lparr>permittedSubtrees = [\<lparr>sub_base = GEN_DNS (ia5 [0x61, 0x2e, 0x62]), sub_minimum = None, sub_maximum = None\<rparr>], excludedSubtrees = []\<rparr>"

definition ca_ab :: x509 where
  "ca_ab = \<lparr>altname = None, san_ext = None, subject_name = no_name, ex_flags = 0, nc = Some nc_ab\<rparr>"

definition utf8_string :: "bytes \<Rightarrow> asn1_string" where
  "utf8_string s = \<lparr>slen = length s, stype = V_ASN1_UTF8STRING, sdata = Some s, sflags = 0\<rparr>"

definition cn_name :: "bytes \<Rightarrow> x509_name" where
  "cn_name s = \<lparr>entries = [(NID_commonName, utf8_string s)], modified = False, canon_enc = []\<rparr>"

definition leaf_cn :: x509 where
  "leaf_cn = \<lparr>altname = None, san_ext = None, subject_name = cn_name [0x61, 0x2e, 0x62], ex_flags = 0, nc = None\<rparr>"

text \<open>A certificate for the wildcard with the common name \<^verbatim>\<open>c.d\<close>, whose alternative names cannot be decoded a second time.\<close>

definition host_cd :: bytes where "host_cd = [0x63, 0x2e, 0x64]"

definition leaf_lost :: x509 where
  "leaf_lost = \<lparr>altname = Some [GEN_DNS (ia5 star_ab)], san_ext = None, subject_name = cn_name host_cd, ex_flags = 0, nc = None\<rparr>"

definition ctx0 :: store_ctx where "ctx0 = \<lparr>ctx_error = 0, ctx_error_depth = 0, ctx_current_cert = None\<rparr>"

definition vpm0 :: verify_param where
  "vpm0 = \<lparr>poison = False, vpm_hosts = Some [host_ab], hostflags = 0, vpm_peername = None, vpm_email = None, vpm_ip = None\<rparr>"

lemma names_ab: "check_name_constraints env0 (\<lambda>c. (False, c)) (\<lambda>n. (0, n)) [leaf_ab, ca_ab] ctx0 = Some (True, ctx0)"
  by code_simp

lemma host_ab_accepted: "\<exists>peer. X509_check_host env0 leaf_ab (Some host_ab) 0 p = Some (1, peer)"
proof -
  have s: "string_bytes (ia5 star_ab) = ch_star # dotted [[0x61], [0x62]]" "host_ab = [0x77] @ dotted [[0x61], [0x62]]" by code_simp+
  have g: "\<forall>l \<in> set [[0x61], [0x62]]. good_label l" "list_all label_char [0x77]" by code_simp+
  have z: "same_nocase (dotted [[0x61], [0x62]]) (dotted [[0x61], [0x62]])" by code_simp
  show ?thesis unfolding s(2)
    by (rule wildcard_host [where gens = "[GEN_DNS (ia5 star_ab)]", OF _ _ _ s(1) g(1) _ g(2) _ z]) (simp_all add: leaf_ab_def ia5_name_def, simp_all add: ia5_def star_ab_def)
qed

lemma id_ab: "\<exists>v. check_id env0 (\<lambda>c. (False, c)) leaf_ab vpm0 ctx0 = Some (True, ctx0, v)"
  using host_ab_accepted [of True] by (auto simp: check_id_def id_step_def vpm0_def check_hosts_def Let_def)

lemma cn_utf8:
  assumes "s \<in> {[0x61, 0x2e, 0x62], host_cd}"
  shows "\<exists>d. ASN1_STRING_to_UTF8 env0 (utf8_string s) = Some (int (length s), Some d) \<and> take (length s) d = s"
proof -
  have l: "length s = 3" using assms by (auto simp: host_cd_def)
  have "mb_scan MBSTRING_UTF8 [0x61, 0x2e, 0x62] B_ASN1_UTF8STRING 0 0 = Some (B_ASN1_UTF8STRING, 3, 3)"
    "mb_scan MBSTRING_UTF8 host_cd B_ASN1_UTF8STRING 0 0 = Some (B_ASN1_UTF8STRING, 3, 3)" by code_simp+
  then have "mb_scan MBSTRING_UTF8 s B_ASN1_UTF8STRING 0 0 = Some (B_ASN1_UTF8STRING, 3, 3)" using assms by auto
  moreover have "mb_choose B_ASN1_UTF8STRING 3 3 = Some (V_ASN1_UTF8STRING, MBSTRING_UTF8, 3)" by code_simp
  moreover have "B_ASN1_UTF8STRING \<noteq> 0" "tag2nbyte ! 12 = 0" by code_simp+
  ultimately show ?thesis using l
    by (simp add: ASN1_STRING_to_UTF8_def ASN1_mbstring_copy_def ASN1_mbstring_ncopy_def V_ASN1_UTF8STRING_def c_len_def mbstring_of_def MBSTRING_FLAG_def utf8_string_def
        mb_store_def mb_dest_def ASN1_STRING_set_def INT_MAX_asn1_def OPENSSL_realloc_def OPENSSL_malloc_def OPENSSL_MALLOC_PREFIX_def size_add_def env0_def Let_def)
qed

lemma leaf_cn_rejected: "reject_dns_name_in_common_name env0 leaf_cn = Some X509_V_ERR_NAME_CONSTRAINTS_WITHOUT_SANS"
proof -
  obtain d where d: "ASN1_STRING_to_UTF8 env0 (utf8_string [0x61, 0x2e, 0x62]) = Some (3, Some d)" "take 3 d = [0x61, 0x2e, 0x62]"
    using cn_utf8 [of "[0x61, 0x2e, 0x62]"] by (auto simp: eval_nat_numeral)
  have l: "x509v3_looks_like_dns_name [0x61, 0x2e, 0x62]" by code_simp
  have "X509_NAME_get_index_by_NID (cn_name [0x61, 0x2e, 0x62]) NID_commonName (- 1) = 0" by code_simp
  then show ?thesis unfolding reject_dns_name_in_common_name_def
    by (subst reject_dns_from.simps) (simp add: leaf_cn_def d l Let_def, simp add: cn_name_def d l)
qed

lemma ab_bases: "dns_bases (permittedSubtrees nc_ab) = {[0x61, 0x2e, 0x62]}"
  by (auto simp: dns_bases_def nc_ab_def ia5_def string_bytes_def)

lemma host_cd_outside: "\<not> dns_within [0x61, 0x2e, 0x62] host_cd"
  by (auto simp: host_cd_def dns_within_def same_letters_def Cons_eq_append_conv ch_dot_def to_lower_def)

definition demo_block :: block128_f where "demo_block b = rev (map (\<lambda>x. xor x 0x5a) b)"

definition demo_ctr32 :: ctr128_f where
  "demo_ctr32 inp n iv = xor_bytes inp (concat (map (\<lambda>i. demo_block (take 12 iv @ be_bytes 4 (be_nat (drop 12 iv) + i))) [0..<n]))"

lemma demo_block_ok: "block_ok demo_block"
  by (simp add: block_ok_def demo_block_def)

lemma demo_block_inv: "length x = 16 \<Longrightarrow> demo_block (demo_block x) = x"
  by (simp add: demo_block_def rev_map) (simp add: o_def xor_self)

lemma demo_ctr32_ok: "ctr32_func demo_block demo_ctr32"
  by (simp add: ctr32_func_def demo_ctr32_def)

section \<open>Properties\<close>

lemma asn1_element_eq_iff:
  "el = der_parsed tag c \<longleftrightarrow> el_out el = der_element tag c \<and> el_tag el = tag \<and>
     el_header_len el = length (der_tag tag) + length (der_len (length c)) \<and> \<not> el_ber_found el"
  by (cases el) (auto simp: der_parsed_def)

text \<open>
  C1.  The strict ASN.1 reader accepts exactly the DER encodings: it returns an element and a rest if
  and only if the input is the canonical encoding of some tag and contents shorter than 2^32
  bytes, followed by that rest; and what it returns is the whole element, its tag and its
  header length.
\<close>

theorem der_parser_exact:
  "CBS_get_any_asn1_element s = (Some el, t) \<longleftrightarrow>
     (\<exists>tag c. length c < 2 ^ 32 \<and> s = der_element tag c @ t \<and>
        el_out el = der_element tag c \<and> el_tag el = tag \<and>
        el_header_len el = length (der_tag tag) + length (der_len (length c)) \<and> \<not> el_ber_found el)"
  unfolding CBS_get_any_asn1_element_iff asn1_element_eq_iff by simp

text \<open>
  C2.  Verification of the names of a chain is sound: when check_name_constraints passes the chain and
  check_id passes its leaf, with a callback that overrides no error, one of the hosts the caller
  asked for lies in a permitted DNS subtree of every certificate above the leaf that has such
  subtrees.  No wildcard of the leaf leads out of the subtrees, and no common name gets round them.
  This is for hosts that do not start with a dot (such a host asks for any name below it), for
  subtrees whose bases contain no star, and when do_x509_check decodes from the leaf the alternative
  names that the chain verification had cached.
\<close>

theorem accepted_host_is_permitted:
  assumes "check_name_constraints E vcb i2d certs ctx = Some (True, ctx1)" and "check_id E vcb (certs ! 0) vpm ctx1 = Some (True, ctx2, vpm')"
    and "refuses vcb" and "vpm_hosts vpm = Some hosts" and "hosts \<noteq> []" and "\<forall>h \<in> set hosts. plain_host h"
    and "san_ext (certs ! 0) = altname (certs ! 0)"
    and "0 < j" and "j < length certs" and "nc (certs ! j) = Some con"
    and "dns_bases (permittedSubtrees con) \<noteq> {}" and "\<forall>d \<in> dns_bases (permittedSubtrees con). ch_star \<notin> set d"
  shows "\<exists>h \<in> set hosts. \<exists>d \<in> dns_bases (permittedSubtrees con). dns_within d h"
proof -
  obtain h rv p where h: "h \<in> set hosts" "X509_check_host E (certs ! 0) (Some h) (hostflags vpm) True = Some (rv, p)" "0 < rv"
    using check_id_sound(2) [OF assms(2,3,4,5)] by blast
  then show ?thesis using chain_host_within [OF assms(1,3) h(2,3) _ assms(7-12)] assms(6) by blast
qed

theorem accepted_host_is_permitted_witness:
  "\<exists>h \<in> set [host_ab]. \<exists>d \<in> dns_bases (permittedSubtrees nc_ab). dns_within d h"
proof -
  obtain v where v: "check_id env0 (\<lambda>c. (False, c)) ([leaf_ab, ca_ab] ! 0) vpm0 ctx0 = Some (True, ctx0, v)" using id_ab by auto
  show ?thesis
    by (rule accepted_host_is_permitted [OF names_ab v, where j = 1])
      (simp_all add: refuses_def vpm0_def plain_host_def host_ab_def ch_dot_def leaf_ab_def ca_ab_def ab_bases ch_star_def)
qed

text \<open>
  C3.  A host name is accepted only for a name in the certificate: when X509_check_host returns a
  positive value, the name asked for has no null byte, and it matches a dNSName of type IA5String
  among the alternative names decoded from the certificate, or, only when none were decoded and the caller
  allows it, a common name that looks like a host name.  To match is one of three things: to be equal without case;
  to be what a star in the first label stands for, one label unless a flag says otherwise, with at least
  two labels after it that agree without case; or, when the name asked for starts with a dot and is longer than that,
  to be the end, without case, of the certificate's name after a part without null bytes, and without dots
  when the flag for single-label sub-domains is set.
\<close>

theorem host_check_goes_back:
  assumes "X509_check_host E x chk opts peername = Some (rv, peer)" and "0 < rv"
  shows "\<exists>b. chk = Some b \<and> 0 \<notin> set b \<and>
    (case san_ext x of
       Some gens \<Rightarrow> \<exists>a. GEN_DNS a \<in> set gens \<and> stype a = V_ASN1_IA5STRING \<and> host_match opts (string_bytes a) b
     | None \<Rightarrow>
         opts AND X509_CHECK_FLAG_NEVER_CHECK_SUBJECT = 0 \<and>
         (\<exists>a n d. (NID_commonName, a) \<in> set (seen_entries (subject_name x)) \<and> ASN1_STRING_to_UTF8 E a = Some (n, d) \<and> 0 \<le> n \<and>
            (let s = take (nat n) (case d of None \<Rightarrow> [] | Some d \<Rightarrow> d) in x509v3_looks_like_dns_name s \<and> host_match opts s b)))"
  by (rule check_host_matched [OF assms])

theorem host_check_goes_back_witness:
  "host_match 0 star_ab host_ab"
proof -
  obtain peer where "X509_check_host env0 leaf_ab (Some host_ab) 0 True = Some (1, peer)" using host_ab_accepted by blast
  from host_check_goes_back [OF this] show ?thesis by (simp add: leaf_ab_def ia5_def string_bytes_def)
qed

text \<open>
  C4.  The usual wildcard works: for a certificate with an alternative name of a star followed by at
  least two well-formed labels, X509_check_host accepts every host that puts one label of letters,
  digits and hyphens in place of the star, whatever the case of the rest, unless the caller turns wildcards off with
  X509_CHECK_FLAG_NO_WILDCARDS.
\<close>

theorem wildcard_host_accepted:
  assumes "san_ext x = Some gens" and "GEN_DNS a \<in> set gens" and "ia5_name a" and "string_bytes a = ch_star # dotted ls"
    and "\<forall>l \<in> set ls. good_label l" and "2 \<le> length ls" and "list_all label_char w" and "w \<noteq> []" and "same_nocase (dotted ls) d"
    and "opts AND X509_CHECK_FLAG_NO_WILDCARDS = 0"
  shows "\<exists>peer. X509_check_host E x (Some (w @ d)) opts peername = Some (1, peer)"
  by (rule wildcard_host [OF assms])

theorem wildcard_host_accepted_witness:
  "\<exists>peer. X509_check_host env0 leaf_ab (Some ([0x77, 0x2d] @ dotted [[0x41], [0x62]])) 0 True = Some (1, peer)"
proof -
  have s: "string_bytes (ia5 star_ab) = ch_star # dotted [[0x61], [0x62]]" by code_simp
  have g: "\<forall>l \<in> set [[0x61], [0x62]]. good_label l" "list_all label_char [0x77, 0x2d]" by code_simp+
  have z: "same_nocase (dotted [[0x61], [0x62]]) (dotted [[0x41], [0x62]])" by code_simp
  show ?thesis
    by (rule wildcard_host_accepted [where gens = "[GEN_DNS (ia5 star_ab)]", OF _ _ _ s g(1) _ g(2) _ z])
      (simp_all add: leaf_ab_def ia5_name_def, simp_all add: ia5_def star_ab_def)
qed

text \<open>
  C5.  nc_match decides constraints on DNS names exactly: it passes a dNSName if and only if no DNS subtree
  has a minimum or maximum, the name lies in one of the permitted DNS subtrees if there are any, and
  it lies in none of the excluded ones.  A name lies in a subtree when it equals its base without case or
  ends in it at the start of a label.
\<close>

theorem dns_constraint_exact:
  "nc_match i2d (GEN_DNS a) c = X509_V_OK \<longleftrightarrow>
     dns_minmax_free (permittedSubtrees c) \<and> dns_minmax_free (excludedSubtrees c) \<and>
     (dns_bases (permittedSubtrees c) = {} \<or> (\<exists>b \<in> dns_bases (permittedSubtrees c). dns_within b (string_bytes a))) \<and>
     (\<forall>b \<in> dns_bases (excludedSubtrees c). \<not> dns_within b (string_bytes a))"
  by (rule nc_match_dns_iff)

theorem dns_constraint_exact_witness:
  "nc_match (\<lambda>n. (0, n)) (GEN_DNS (ia5 star_ab)) nc_ab = X509_V_OK \<and> dns_within [0x61, 0x2e, 0x62] star_ab"
proof -
  have e: "nc_match (\<lambda>n. (0, n)) (GEN_DNS (ia5 star_ab)) nc_ab = X509_V_OK" by code_simp
  moreover have "string_bytes (ia5 star_ab) = star_ab" by (simp add: ia5_def string_bytes_def)
  ultimately show ?thesis using iffD1 [OF dns_constraint_exact e] ab_bases by auto
qed

text \<open>
  C6.  A chain that check_name_constraints passes, with a callback that overrides no error, obeys the
  constraints of every certificate in it: each alternative name of a certificate below it,
  self-issued ones above the leaf excepted, is in a permitted subtree of its type if there are
  any and in no excluded one, and the same holds for the subject name, when it has entries, and for its
  e-mail addresses, all of which are IA5Strings (among the entries that the int the code counts them with covers: all of them,
  below 2^31).
\<close>

theorem chain_obeys_constraints:
  assumes "check_name_constraints E vcb i2d certs ctx = Some (True, ctx')" and "refuses vcb" and "i < j" and "j < length certs"
    and "i = 0 \<or> ex_flags (certs ! i) AND EXFLAG_SI = 0" and "nc (certs ! j) = Some con"
  shows "(\<forall>gen \<in> set (altnames (certs ! i)). obeys i2d gen con) \<and>
    (0 < X509_NAME_entry_count (subject_name (certs ! i)) \<longrightarrow> obeys i2d (GEN_DIRNAME (subject_name (certs ! i))) con \<and>
      (\<forall>a. (NID_pkcs9_emailAddress, a) \<in> set (seen_entries (subject_name (certs ! i))) \<longrightarrow> stype a = V_ASN1_IA5STRING \<and> obeys i2d (GEN_EMAIL a) con))"
proof -
  have "NAME_CONSTRAINTS_check i2d (certs ! i) con = X509_V_OK" using chain_names_sound(1) [OF assms(1,2)] assms(3-6) by blast
  from nc_check_sound [OF this] show ?thesis using nc_match_sound by blast
qed

theorem chain_obeys_constraints_witness:
  "obeys (\<lambda>n. (0, n)) (GEN_DNS (ia5 star_ab)) nc_ab"
proof -
  have r: "refuses (\<lambda>c. (False, c))" by (simp add: refuses_def)
  have "\<forall>gen \<in> set (altnames ([leaf_ab, ca_ab] ! 0)). obeys (\<lambda>n. (0, n)) gen nc_ab"
    using chain_obeys_constraints [OF names_ab r, of 0 1 nc_ab] by (simp add: ca_ab_def)
  then show ?thesis by (simp add: leaf_ab_def altnames_def)
qed

text \<open>
  C7.  The guard of NAME_CONSTRAINTS_check bounds its work: unless it refuses the certificate with
  X509_V_ERR_UNSPECIFIED, the number of constraints times the number of names is at most 2^20, as
  numbers and not only modulo 2^64, for stacks of sizes that memory can hold.
\<close>

theorem constraint_work_bounded:
  assumes "NAME_CONSTRAINTS_check i2d x c \<noteq> X509_V_ERR_UNSPECIFIED" and "size_bounded x c"
  shows "(length (permittedSubtrees c) + length (excludedSubtrees c)) * (length (entries (subject_name x)) + length (altnames x)) \<le> 2 ^ 20"
  by (rule nc_check_bounded [OF assms])

theorem constraint_work_bounded_witness:
  "(length (permittedSubtrees nc_ab) + length (excludedSubtrees nc_ab)) * (length (entries (subject_name leaf_ab)) + length (altnames leaf_ab)) \<le> 2 ^ 20"
proof (rule constraint_work_bounded)
  show "NAME_CONSTRAINTS_check (\<lambda>n. (0, n)) leaf_ab nc_ab \<noteq> X509_V_ERR_UNSPECIFIED" by code_simp
  show "size_bounded leaf_ab nc_ab" by (simp add: size_bounded_def leaf_ab_def nc_ab_def no_name_def altnames_def)
qed

text \<open>
  C8.  ASN1_mbstring_ncopy chooses the first type it may: given memory, and for an input of n bytes with 4 n below INT_MAX, it succeeds with a type if and
  only if the input decodes to characters within the size limits, without a byte-order mark, and
  that type is the first of the mask, in the order Printable, IA5, T61, BMP, Universal, UTF8, that can
  represent all of them; and the string it makes holds those characters in the encoding of the type.
\<close>

theorem mbstring_first_type:
  assumes "\<forall>k. can_alloc E k" and "4 * int n < INT_MAX_asn1" and "n \<le> length blk"
  shows "((\<exists>out'. ASN1_mbstring_ncopy E (Some dst) (Some blk) (int n) inform msk minsize maxsize = Some (ty, out')) \<and> 0 \<le> ty
      \<longleftrightarrow> (\<exists>form cs outform. accepts_text inform msk minsize maxsize (take n blk) form cs ty outform)) \<and>
    (\<forall>out'. ASN1_mbstring_ncopy E (Some dst) (Some blk) (int n) inform msk minsize maxsize = Some (ty, out') \<and> 0 \<le> ty \<longrightarrow>
      (\<exists>form cs outform str. accepts_text inform msk minsize maxsize (take n blk) form cs ty outform \<and>
         out' = Some (Some str) \<and> stype str = ty \<and> string_holds str (mb_text outform cs)))"
proof -
  have "\<exists>form cs outform str. accepts_text inform msk minsize maxsize (take n blk) form cs ty outform \<and>
      out' = Some (Some str) \<and> stype str = ty \<and> string_holds str (mb_text outform cs)"
    if r: "ASN1_mbstring_ncopy E (Some dst) (Some blk) (int n) inform msk minsize maxsize = Some (ty, out')" "0 \<le> ty" for out'
    by (rule mbstring_sound [OF r assms(2,3)]) blast
  moreover have "0 \<le> ty" if "accepts_text inform msk minsize maxsize (take n blk) form cs ty outform" for form cs outform
    using that first_type_valid(2) unfolding accepts_text_def by blast
  ultimately show ?thesis using mbstring_complete [OF _ assms] by blast
qed

theorem mbstring_first_type_witness:
  "\<exists>out'. ASN1_mbstring_ncopy env0 (Some None) (Some [0x61, 0x40]) (int 2) MBSTRING_FLAG 0x2012 0 0 = Some (V_ASN1_IA5STRING, out')"
proof -
  have "\<forall>c \<in> set [0x61, 0x40]. mb_valid MBSTRING_UTF8 c" by (simp add: is_valid_code_point_def)
  moreover have "mb_text MBSTRING_UTF8 [0x61, 0x40] = [0x61, 0x40]"
    "first_type (eff_mask 0x2012) [0x61, 0x40] = Some (V_ASN1_IA5STRING, MBSTRING_ASC)" by code_simp+
  ultimately have "accepts_text MBSTRING_FLAG 0x2012 0 0 (take 2 [0x61, 0x40]) MBSTRING_UTF8 [0x61, 0x40] V_ASN1_IA5STRING MBSTRING_ASC"
    by (simp add: accepts_text_def mbstring_of_def MBSTRING_FLAG_def has_bom_def size_ok_def)
  then show ?thesis using mbstring_first_type [of env0 2 "[0x61, 0x40]" None MBSTRING_FLAG "0x2012" 0 0 V_ASN1_IA5STRING]
    by (auto simp: env0_def INT_MAX_asn1_def)
qed

text \<open>
  C9.  What CRYPTO_cbc128_encrypt writes, CRYPTO_cbc128_decrypt turns back into the input, and both leave the
  same chaining value, for whole blocks and buffers that may overlap as the code asserts (the input
  ahead of the output or apart from it): in place, one block or many blocks behind, or disjoint, so
  through either loop of the decryption.
\<close>

theorem cbc_roundtrip_in_memory:
  assumes "block_ok block" and "block_ok inv_block" and "\<And>x. length x = 16 \<Longrightarrow> inv_block (block x) = x"
    and "length ivec = 16" and "16 dvd len" and "ahead inp out len" and "ahead out dst len"
  shows "let (m1, iv1) = CRYPTO_cbc128_encrypt block inp out len ivec m;
             (m2, iv2) = CRYPTO_cbc128_decrypt inv_block out dst len ivec m1
         in mread m2 dst len = mread m inp len \<and> iv2 = iv1"
  using cbc_memory_roundtrip [OF assms(1-4,6) _ assms(7) _ assms(5)] by (fastforce simp: Let_def split: prod.splits)

theorem cbc_roundtrip_in_memory_witness:
  "mread (fst (CRYPTO_cbc128_decrypt demo_block 40 24 32 (replicate 16 1)
     (fst (CRYPTO_cbc128_encrypt demo_block 40 40 32 (replicate 16 1) of_nat)))) 24 32 = mread of_nat 40 32"
  using cbc_roundtrip_in_memory [OF demo_block_ok demo_block_ok demo_block_inv, of "replicate 16 1" 32 40 40 24 of_nat]
  by (simp add: ahead_def split_beta Let_def)

text \<open>
  C10.  CRYPTO_cbc128_encrypt, with its pointer to the last block it wrote and its two loops over memory,
  computes cipher block chaining of the input padded with zeros to whole blocks: it writes exactly
  these blocks, changes no other byte, and leaves the last of them as the chaining value.
\<close>

theorem cbc_encrypts_padded_chain:
  assumes "block_ok block" and "length ivec = 16" and "ahead inp out len"
  shows "CRYPTO_cbc128_encrypt block inp out len ivec m =
    (let c = cbc_enc block ivec (zero_pad (mread m inp len)) in (mwrite m out c, last_block ivec c))"
  by (rule cbc_encrypt_value [OF assms])

theorem cbc_encrypts_padded_chain_witness:
  "fst (CRYPTO_cbc128_encrypt demo_block 40 40 3 (replicate 16 1) of_nat) 56 = 56"
proof -
  have "length (cbc_enc demo_block (replicate 16 1) (zero_pad (mread of_nat 40 3))) = 16"
    using cbc_enc_length [OF demo_block_ok, of "replicate 16 1"] by (simp add: zero_pad_def)
  then show ?thesis
    using cbc_encrypts_padded_chain [OF demo_block_ok, of "replicate 16 1" 40 40 3 of_nat] by (simp add: ahead_def Let_def mwrite_def)
qed

text \<open>
  C11.  CRYPTO_ctr128_encrypt_ctr32, which leaves whole runs of blocks to a function that counts in the low
  32 bits only, gives the output, position and counter of CRYPTO_ctr128_encrypt: it cuts each run
  where the low word overflows and carries into the upper 96 bits. The buffers of key stream
  agree wherever they will be used.
\<close>

theorem ctr32_equals_ctr128:
  assumes "ctr32_func block func" and "block_ok block" and "n < 16" and "length iv = 16" and "length ec = 16"
  shows "let (out, n', iv', ec') = CRYPTO_ctr128_encrypt_ctr32 func (n, iv, ec) inp;
             (out2, n2, iv2, ec2) = CRYPTO_ctr128_encrypt block (n, iv, ec) inp
         in out = out2 \<and> n' = n2 \<and> iv' = iv2 \<and> (n' \<noteq> 0 \<longrightarrow> ec' = ec2)"
proof -
  obtain a b c d where x: "CRYPTO_ctr128_encrypt_ctr32 func (n, iv, ec) inp = (a, b, c, d)" by (metis prod_cases4)
  obtain a' b' c' d' where y: "CRYPTO_ctr128_encrypt block (n, iv, ec) inp = (a', b', c', d')" by (metis prod_cases4)
  have "ctr_ok block (iv, ec)" using assms by (simp add: ctr_ok_def)
  from ctr32_agrees [OF assms(1,3) this x y] show ?thesis by (simp add: x y)
qed

theorem ctr32_equals_ctr128_witness:
  "fst (CRYPTO_ctr128_encrypt_ctr32 demo_ctr32 (0, replicate 12 0 @ replicate 4 0xff, replicate 16 0) (replicate 40 7)) =
   fst (CRYPTO_ctr128_encrypt demo_block (0, replicate 12 0 @ replicate 4 0xff, replicate 16 0) (replicate 40 7))"
  using ctr32_equals_ctr128 [OF demo_ctr32_ok demo_block_ok, of 0 "replicate 12 0 @ replicate 4 0xff" "replicate 16 0" "replicate 40 7"]
  by (simp add: split_beta Let_def)

text \<open>
  C12.  In counter, output feedback and cipher feedback mode, what was encrypted in two calls, cut
  anywhere, is decrypted by one call to the whole text, with any position inside a block at the
  start and the state at the end that the encryption reached.
\<close>

theorem stream_modes_cut_roundtrip:
  assumes "block_ok block" and "n < 16" and "length iv = 16" and "length ec = 16"
  shows "(let (x, s) = CRYPTO_ctr128_encrypt block (n, iv, ec) xs; (y, t) = CRYPTO_ctr128_encrypt block s ys
          in CRYPTO_ctr128_encrypt block (n, iv, ec) (x @ y) = (xs @ ys, t))
    \<and> (let (x, s) = CRYPTO_ofb128_encrypt block (n, iv) xs; (y, t) = CRYPTO_ofb128_encrypt block s ys
        in CRYPTO_ofb128_encrypt block (n, iv) (x @ y) = (xs @ ys, t))
    \<and> (let (x, s) = CRYPTO_cfb128_encrypt block True (n, iv) xs; (y, t) = CRYPTO_cfb128_encrypt block True s ys
        in CRYPTO_cfb128_encrypt block False (n, iv) (x @ y) = (xs @ ys, t))"
  using ctr.dec_cut [of "(n, iv, ec)" block xs ys] ofb.dec_cut [of "(n, iv)" block xs ys] cfb.dec_cut [of "(n, iv)" block xs ys] assms
  by (simp add: ctr_ok_def iv_ok_def split_beta Let_def)

theorem stream_modes_cut_roundtrip_witness:
  "CRYPTO_ctr128_encrypt demo_block (3, replicate 16 0, replicate 16 9)
     (fst (CRYPTO_ctr128_encrypt demo_block (3, replicate 16 0, replicate 16 9) (replicate 20 7))) =
   (replicate 20 7, snd (CRYPTO_ctr128_encrypt demo_block (3, replicate 16 0, replicate 16 9) (replicate 20 7)))"
proof -
  have "CRYPTO_ctr128_encrypt demo_block s [] = ([], s)" for s by (simp add: CRYPTO_ctr128_encrypt_def stream_mode_def block_loop.simps)
  then show ?thesis
    using stream_modes_cut_roundtrip [OF demo_block_ok, of 3 "replicate 16 0" "replicate 16 9" "replicate 20 7" "[]"] by (simp add: split_beta Let_def)
qed

text \<open>
  C13.  Cipher feedback by the byte decrypts what it encrypted, and by the bit gives back every one of the
  bits asked for, whatever the destination held before, although the block it shifts in is
  corrupted beyond these bits; both end with the register of the encryption.
\<close>

theorem cfb_bits_and_bytes_roundtrip:
  assumes "length ivec = 16" and "bits \<le> 8 * length out" and "bits \<le> 8 * length dst"
  shows "(let (c, v) = CRYPTO_cfb128_8_encrypt block True ivec xs in CRYPTO_cfb128_8_encrypt block False ivec c = (xs, v))
    \<and> (let (c, v) = CRYPTO_cfb128_1_encrypt block True ivec inp bits out; (d, w) = CRYPTO_cfb128_1_encrypt block False ivec c bits dst
        in w = v \<and> (\<forall>i < bits. bit_at d i = bit_at inp i))"
  using cfb8.dec_enc [of ivec block xs] cfb1_roundtrip [OF assms order_refl prod.collapse [symmetric], of block inp] assms(1) by (simp add: split_beta Let_def)

theorem cfb_bits_and_bytes_roundtrip_witness:
  "bit_at (fst (CRYPTO_cfb128_1_encrypt demo_block False (replicate 16 1)
     (fst (CRYPTO_cfb128_1_encrypt demo_block True (replicate 16 1) [0xa5, 0] 11 [0, 0])) 11 [0xff, 0xff])) 2"
proof -
  have "bit_at [0xa5, 0] 2" by (simp add: bit_at_def)
  then show ?thesis
    using cfb_bits_and_bytes_roundtrip [of "replicate 16 1" 11 "[0, 0]" "[0xff, 0xff]" demo_block "[]" "[0xa5, 0]"] by (simp add: split_beta Let_def)
qed

text \<open>
  C14.  Writing an unsigned integer with CBB_add_asn1_uint64 into a fresh buffer of at least 11 bytes
  always succeeds, and CBS_get_asn1_uint64 reads the same value back from the finished buffer and
  consumes it entirely.
\<close>

theorem asn1_uint64_roundtrip:
  assumes "CBB_init E n = (True, st)" and "11 \<le> n" and "n < 2 ^ 64"
  shows "\<exists>st1 bf len st2. CBB_add_asn1_uint64 E 0 v st = (True, st1)
    \<and> CBB_finish E 0 True True st1 = (Some (bf, len), st2) \<and> CBS_get_asn1_uint64 (take len bf) = (Some v, [])"
proof -
  have "length (der_element CBS_ASN1_INTEGER (uint_content v)) \<le> n" using length_der_uint [of v] assms(2) by simp
  from session [OF asn1_uint64_writer assms(1) this assms(3)] show ?thesis
    using der_uint64.dec_enc [of v "[]"] by fastforce
qed

theorem asn1_uint64_roundtrip_witness:
  "\<exists>st1 bf len st2. CBB_add_asn1_uint64 env0 0 300 cbb16 = (True, st1)
    \<and> CBB_finish env0 0 True True st1 = (Some (bf, len), st2) \<and> CBS_get_asn1_uint64 (take len bf) = (Some 300, [])"
  by (rule asn1_uint64_roundtrip [OF init_cbb16]) simp_all

text \<open>
  C15.  A SEQUENCE of an INTEGER and a BOOLEAN, written through a child builder that CBB_flush closes,
  succeeds in a fresh buffer of at least 24 bytes and is read back, field by field, by
  CBS_get_asn1, CBS_get_asn1_int64 and CBS_get_asn1_bool, with nothing left over.
\<close>

theorem asn1_sequence_roundtrip:
  assumes "CBB_init E n = (True, st)" and "24 \<le> n" and "n < 2 ^ 64"
  shows "\<exists>st1 bf len st2. andalso (CBB_add_asn1 E 0 CBS_ASN1_SEQUENCE)
        (andalso (andalso (CBB_add_asn1_int64 E 1 v) (CBB_add_asn1_bool E 1 b)) (CBB_flush E 0)) st = (True, st1)
    \<and> CBB_finish E 0 True True st1 = (Some (bf, len), st2)
    \<and> (\<exists>c c'. CBS_get_asn1 CBS_ASN1_SEQUENCE (take len bf) = (Some c, []) \<and> CBS_get_asn1_int64 c = (Some v, c')
         \<and> CBS_get_asn1_bool c' = (Some b, []))"
proof -
  define i where "i = der_element CBS_ASN1_INTEGER (int_content v)"
  define t where "t = der_element CBS_ASN1_BOOLEAN [if b then 0xff else 0]"
  have len: "length i \<le> 11" "length t = 3"
    using length_der_int [of v] by (simp add: i_def) (simp add: t_def der_element_def der_tag_def der_len_def CBS_ASN1_BOOLEAN_def)
  have "cbb_leaf_writer (\<lambda>d. andalso (CBB_add_asn1_int64 E d v) (CBB_add_asn1_bool E d b)) (i @ t)"
    unfolding i_def t_def by (rule leaf_andalso [OF writer_leaf [OF asn1_int64_writer] writer_leaf [OF asn1_bool_writer]])
  from asn1_writer [OF this, of E CBS_ASN1_SEQUENCE] len
  have w: "cbb_writer (\<lambda>d. andalso (CBB_add_asn1 E d CBS_ASN1_SEQUENCE)
      (andalso (andalso (CBB_add_asn1_int64 E (d + 1) v) (CBB_add_asn1_bool E (d + 1) b)) (CBB_flush E d)))
      (der_element CBS_ASN1_SEQUENCE (i @ t))" by simp
  have "length (der_element CBS_ASN1_SEQUENCE (i @ t)) \<le> n"
    using len assms(2) by (simp add: der_element_def der_tag_def der_len_def CBS_ASN1_SEQUENCE_def CBS_ASN1_CONSTRUCTED_def)
  from session [OF w assms(1) this assms(3)] obtain st1 bf st2 where
    s: "andalso (CBB_add_asn1 E 0 CBS_ASN1_SEQUENCE)
        (andalso (andalso (CBB_add_asn1_int64 E 1 v) (CBB_add_asn1_bool E 1 b)) (CBB_flush E 0)) st = (True, st1)"
    "CBB_finish E 0 True True st1 = (Some (bf, length (der_element CBS_ASN1_SEQUENCE (i @ t))), st2)"
    "take (length (der_element CBS_ASN1_SEQUENCE (i @ t))) bf = der_element CBS_ASN1_SEQUENCE (i @ t)" by auto
  have "CBS_get_asn1 CBS_ASN1_SEQUENCE (der_element CBS_ASN1_SEQUENCE (i @ t)) = (Some (i @ t), [])"
    using len by (simp add: CBS_get_asn1_iff)
  moreover have "CBS_get_asn1_int64 (i @ t) = (Some v, t)" "CBS_get_asn1_bool t = (Some b, [])"
    by (simp_all add: CBS_get_asn1_int64_iff CBS_get_asn1_bool_iff i_def t_def)
  ultimately show ?thesis using s by metis
qed

theorem asn1_sequence_roundtrip_witness:
  "\<exists>st1 bf len st2. andalso (CBB_add_asn1 env0 0 CBS_ASN1_SEQUENCE)
        (andalso (andalso (CBB_add_asn1_int64 env0 1 (- 200)) (CBB_add_asn1_bool env0 1 True)) (CBB_flush env0 0)) cbb32 = (True, st1)
    \<and> CBB_finish env0 0 True True st1 = (Some (bf, len), st2)
    \<and> (\<exists>c c'. CBS_get_asn1 CBS_ASN1_SEQUENCE (take len bf) = (Some c, []) \<and> CBS_get_asn1_int64 c = (Some (- 200), c')
         \<and> CBS_get_asn1_bool c' = (Some True, []))"
  by (rule asn1_sequence_roundtrip [OF init_cbb32]) simp_all



text \<open>
  C17.  After a failure the builder stays failed.  Once the error flag is set, every call on any CBB of the tree
  returns failure, except CBB_did_write, which does not look at the flag and may report success, and
  CBB_discard_child, which has no result; whatever calls follow, these two included, the flag stays set and CBB_finish
  fails, so that nothing written is ever handed out.
\<close>

theorem cbb_error_is_sticky:
  assumes "cbb_error st"
  shows "(flushes c \<longrightarrow> \<not> fst (cbb_exec E c st)) \<and> cbb_error (cbb_run E cs st)
    \<and> fst (CBB_finish E d has_data has_len (cbb_run E cs st)) = None"
  using cbb_call_fails [of c E] assms cbb_run_error [OF assms, of E cs] finish_error by (auto simp: fails_def)

theorem cbb_error_is_sticky_witness:
  "\<not> fst (CBB_add_asn1 env0 0 CBS_ASN1_SEQUENCE cbb_failed) \<and> fst (CBB_did_write 0 2 cbb_failed)
   \<and> fst (CBB_finish env0 0 True True (cbb_run env0 [Did_write 0 2] cbb_failed)) = None"
proof -
  have "fst (CBB_did_write 0 2 cbb_failed)" by (simp add: CBB_did_write_def cbb_failed_def size_add_def Let_def)
  then show ?thesis using cbb_error_is_sticky [OF cbb_failed_ok(2), of "Add_asn1 0 CBS_ASN1_SEQUENCE" env0 "[Did_write 0 2]" 0 True True] by simp
qed

text \<open>
  C18.  A successful CBB_flush_asn1_set_of replaces the DER elements written so far at its level by the
  same elements, as a multiset, in ascending lexicographic order of their encodings; what precedes
  the level is untouched.
\<close>

theorem set_of_sorted:
  assumes "cbb_inv st" and "d \<le> length (chain st)" and "CBB_flush_asn1_set_of E d st = (True, st')"
  shows "\<exists>es es'. drop (cbb_start d st) (flushed d st) = concat es \<and> (\<forall>e \<in> set es. is_der e) \<and> mset es' = mset es
    \<and> sorted_wrt lexordp_eq es' \<and> cdata st' = take (cbb_start d st) (flushed d st) @ concat es' \<and> cbb_inv st'"
proof -
  obtain es where es: "drop (cbb_start d st) (flushed d st) = concat es" "\<forall>e \<in> set es. is_der e" "cbb_inv st'"
    "cdata st' = take (cbb_start d st) (flushed d st) @ concat (qsort compare_set_of_element es)"
    using CBB_flush_asn1_set_of_True [OF assms] by blast
  moreover have "sorted_wrt lexordp_eq (qsort compare_set_of_element es)"
    using set_of_order.sorted_qsort [of es] by (simp add: compare_le_iff)
  ultimately show ?thesis by (metis mset_qsort)
qed

theorem set_of_sorted_witness:
  "\<exists>st' es es'. CBB_flush_asn1_set_of env0 0 cbb_two = (True, st') \<and> mset es' = mset es \<and> sorted_wrt lexordp_eq es'
    \<and> cdata st' = concat es' \<and> concat es = [0x05, 0x00, 0x01, 0x01, 0xff]"
proof -
  obtain st' where "CBB_flush_asn1_set_of env0 0 cbb_two = (True, st')" using cbb_two_flushes by blast
  with set_of_sorted [OF cbb_two_ok(1) _ this] cbb_two_ok(2-) show ?thesis by fastforce
qed



text \<open>
  C20.  The pointer-linked heap of the event loop is a priority queue: on a complete tree of linked nodes in
  timer order, inserting a new node and removing any node return, leave such a tree again and add or
  remove exactly that node, and the minimum is a node that no other precedes.
\<close>

theorem timer_heap_is_priority_queue:
  assumes "hrep xs h" and "heap_ordered (timer_less_than H) xs"
  shows "(y \<notin> set xs \<and> y \<noteq> NULL \<and> length xs + 1 < 2 ^ 32 \<longrightarrow>
      (\<exists>h' ys. heap_insert h y (timer_less_than H) = Some h' \<and> hrep ys h' \<and> heap_ordered (timer_less_than H) ys \<and> mset ys = add_mset y (mset xs)))
    \<and> (y \<in> set xs \<longrightarrow>
      (\<exists>h' ys. heap_remove h y (timer_less_than H) = Some h' \<and> hrep ys h' \<and> heap_ordered (timer_less_than H) ys \<and> mset ys = mset xs - {#y#}))
    \<and> (xs = [] \<longrightarrow> heap_min h = NULL)
    \<and> (xs \<noteq> [] \<longrightarrow> heap_min h \<in> set xs \<and> (\<forall>x \<in> set xs. \<not> timer_less_than H x (heap_min h)))"
  using timers.heap_insert_spec [OF assms] timers.heap_remove_spec [OF assms] timers.heap_min_spec [OF assms]
  by (auto split: if_splits)

theorem timer_heap_is_priority_queue_witness:
  "(\<exists>h' ys. heap_insert heap2 4 (timer_less_than by_address) = Some h' \<and> hrep ys h' \<and> mset ys = {#4, 3, 5#})
    \<and> (\<exists>h' ys. heap_remove heap2 3 (timer_less_than by_address) = Some h' \<and> hrep ys h' \<and> mset ys = {#5#}) \<and> heap_min heap2 \<in> {3, 5}"
proof -
  note t = timer_heap_is_priority_queue [OF heap2_ok]
  have "mset [3, 5] - {#3#} = {#5 :: nat#}" "add_mset 4 (mset [3, 5]) = {#4, 3, 5 :: nat#}" by simp_all
  moreover have "\<exists>h' ys. heap_insert heap2 4 (timer_less_than by_address) = Some h' \<and> hrep ys h' \<and> mset ys = add_mset 4 (mset [3, 5])"
    using t [of 4, THEN conjunct1] by (simp del: mset.simps) blast
  moreover have "\<exists>h' ys. heap_remove heap2 3 (timer_less_than by_address) = Some h' \<and> hrep ys h' \<and> mset ys = mset [3, 5] - {#3#}"
    using t [of 3, THEN conjunct2, THEN conjunct1] by (simp del: mset.simps) blast
  moreover have "heap_min heap2 \<in> {3, 5}" using t [of 3, THEN conjunct2, THEN conjunct2, THEN conjunct2] by simp
  ultimately show ?thesis by simp
qed

lemma distinct_singleton_list: "distinct ps \<Longrightarrow> set ps = {x} \<Longrightarrow> ps = [x]"
  by (cases ps; cases "tl ps") auto

text \<open>
  C21.  uv__run_timers on a reachable loop returns, provided the callbacks leave the loop alone and the clock
  is not at its very last value: it calls every due timer exactly once, in the order of timeouts and,
  for equal ones, of their starts; afterwards no timer is due, the one-shot timers that ran are
  stopped, the repeating ones run on, and all other handles are as they were.
\<close>

theorem run_timers_fires_due:
  assumes "reachable l" and "time l < - 1" and "\<And>c p l u. call c p (l, u) = Some (l, f c p u)"
  shows "\<exists>l' ps. uv__run_timers call (l, u) = Some (l', fold (\<lambda>p. f (cb (handles l p)) p) ps u)
    \<and> distinct ps \<and> set ps = due l \<and> sorted_wrt (\<lambda>a b. \<not> timer_less_than (handles l) b a) ps \<and> due l' = {}
    \<and> (\<forall>x. x \<notin> due l \<longrightarrow> handles l' x = handles l x) \<and> (\<forall>x \<in> due l. is_active l' x \<longleftrightarrow> trepeat (handles l x) \<noteq> 0)"
proof -
  have "loop_inv l" using reachable_wf [OF assms(1)] by (simp add: wf_with_def)
  from run_timers_spec [OF this assms(2), of call f u] assms(3) show ?thesis by blast
qed

theorem run_timers_fires_due_witness:
  "\<exists>l l' ps. uv_timer_start 9 7 0 0 loop1 = Some (0, l) \<and> uv__run_timers (\<lambda>c p (l, u). Some (l, u @ [(c, p)])) (l, []) = Some (l', [(7, 9)]) \<and> due l' = {}"
proof -
  obtain l where l: "uv_timer_start 9 7 0 0 loop1 = Some (0, l)" "reachable l" "time l = 5" "due l = {9}" "cb (handles l 9) = 7" using loop1_start by blast
  have t: "time l < - 1" unfolding l(3) by simp
  obtain l' ps where r: "uv__run_timers (\<lambda>c p (l, u). Some (l, u @ [(c, p)])) (l, []) = Some (l', fold (\<lambda>p u. u @ [(cb (handles l p), p)]) ps [])"
    "distinct ps" "set ps = {9}" "due l' = {}"
    using run_timers_fires_due [OF l(2) t, where call = "\<lambda>c p (l, u). Some (l, u @ [(c, p)])" and f = "\<lambda>c p u. u @ [(c, p)]" and u = "[]"] l(4) by auto
  have "ps = [9]" using r(2,3) by (metis distinct_singleton_list)
  then show ?thesis using l(1,5) r(1,4) by auto
qed

text \<open>
  C22.  A round of prepare, check or idle watchers on a reachable loop returns, provided the callbacks leave the
  loop alone: it calls every active watcher of the type exactly once, and the queue holds them in the
  same order afterwards.
\<close>

theorem run_watchers_calls_each_once:
  assumes "reachable l" and "t \<noteq> UV_TIMER" and "sq \<notin> set (watcher_handles l t # handle_list l)"
    and "\<And>c p l u. call c p (l, u) = Some (l, f c p u)"
  shows "\<exists>ws l'. uv__run_watchers t sq call (l, u) = Some (l', fold (\<lambda>p. f (cb (handles l p)) p) ws u)
    \<and> distinct ws \<and> set ws = {p. is_active l p \<and> htype (handles l p) = t}
    \<and> QUEUE_FOREACH (watcher_links l) (watcher_handles l t) = Some ws \<and> QUEUE_FOREACH (watcher_links l') (watcher_handles l t) = Some ws"
proof -
  have w: "wf_with (handle_list l) l" using reachable_wf [OF assms(1)] .
  then obtain ws where ws: "qrep (watcher_handles l t) ws (watcher_links l)" "set ws = watching l t"
    using assms(2) by (auto simp: wf_with_def queues_ok_def)
  have "sq \<notin> set (watcher_handles l t # ws)" using assms(3) ws(2) w by (auto simp: watching_def wf_with_def)
  from run_watchers_spec [OF ws(1) this, of call f u] assms(4) obtain Q where
    "uv__run_watchers t sq call (l, u) = Some (l\<lparr>watcher_links := Q\<rparr>, fold (\<lambda>p. f (cb (handles l p)) p) ws u)" "qrep (watcher_handles l t) ws Q"
    by blast
  moreover have "distinct ws" using ws(1) by (simp add: qrep_def)
  ultimately show ?thesis using ws foreach_rep by (intro exI [of _ ws] exI [of _ "l\<lparr>watcher_links := Q\<rparr>"]) (auto simp: watching_def)
qed

theorem run_watchers_calls_each_once_witness:
  "\<exists>ws l'. uv__run_watchers UV_IDLE 20 (\<lambda>c p (l, u). Some (l, u @ [p])) (loop1, []) = Some (l', ws) \<and> set ws = {}"
proof -
  have "watcher_handles loop1 UV_IDLE = 5"
    by (simp add: loop1_def uv_timer_init_def uv__handle_init_def uv_loop_init_def uv__update_time_def loop0_def Let_def)
  then have s: "20 \<notin> set (watcher_handles loop1 UV_IDLE # handle_list loop1)" by (simp add: loop1_ok(2))
  have "{p. is_active loop1 p \<and> htype (handles loop1 p) = UV_IDLE} = {}" by (auto simp: is_active_def loop1_sel blank_handle_def)
  with run_watchers_calls_each_once [OF loop1_ok(1) _ s, where call = "\<lambda>c p (l, u). Some (l, u @ [p])" and f = "\<lambda>c p u. u @ [p]" and u = "[]"]
  show ?thesis by auto
qed

text \<open>
  C23.  uv__run_closing_handles on a reachable loop returns, provided the close callbacks leave the loop alone:
  exactly the handles whose closing was pending get the closed flag, their close callbacks are called,
  they leave the handle queue in which the others keep their order, and the closing list is empty.
\<close>

theorem closing_handles_are_finished:
  assumes "reachable l" and "\<And>c p l u. call c p (l, u) = Some (l, f c p u)"
  shows "\<exists>l' cs. uv__run_closing_handles call (l, u) =
      Some (l', fold (\<lambda>c u. if close_cb (handles l c) \<noteq> NULL then f (close_cb (handles l c)) c u else u) cs u)
    \<and> distinct cs \<and> set cs = {p \<in> set (handle_list l). is_closing l p} \<and> (\<forall>p \<in> set cs. bit (flags (handles l' p)) 1)
    \<and> QUEUE_FOREACH (handle_links l') (handle_queue l') = Some (filter (\<lambda>p. \<not> is_closing l p) (handle_list l))
    \<and> closing_handles l' = NULL \<and> (\<forall>p. p \<notin> set cs \<longrightarrow> handles l' p = handles l p)"
proof -
  from run_closing_spec [OF reachable_wf [OF assms(1)], of call f u] assms(2) obtain l' cs where
    l': "uv__run_closing_handles call (l, u) =
      Some (l', fold (\<lambda>c u. if close_cb (handles l c) \<noteq> NULL then f (close_cb (handles l c)) c u else u) cs u)"
    "distinct cs" "set cs = {p \<in> set (handle_list l). is_closing l p}" "wf_with (filter (\<lambda>p. \<not> is_closing l p) (handle_list l)) l'"
    "\<forall>x. x \<notin> set cs \<longrightarrow> handles l' x = handles l x" "\<forall>x \<in> set cs. bit (flags (handles l' x)) 1" by blast
  obtain ds where ds: "closing_chain (handles l') (closing_handles l') ds"
    "set ds = {p \<in> set (filter (\<lambda>p. \<not> is_closing l p) (handle_list l)). bit (flags (handles l' p)) 0}"
    using l'(4) by (auto simp: wf_with_def closing_ok_def)
  have "ds = []"
  proof (rule ccontr)
    assume "ds \<noteq> []"
    then obtain d where "d \<in> set ds" by (cases ds) auto
    then show False using ds(2) l'(3,5) by (auto simp: is_closing_def)
  qed
  then have "closing_handles l' = NULL" using ds(1) by simp
  moreover have "QUEUE_FOREACH (handle_links l') (handle_queue l') = Some (filter (\<lambda>p. \<not> is_closing l p) (handle_list l))"
    using l'(4) foreach_rep by (simp add: wf_with_def)
  ultimately show ?thesis using l' by blast
qed

theorem closing_handles_are_finished_witness:
  "\<exists>l l' cs. uv_close 9 7 loop1 = Some l \<and> reachable l \<and> uv__run_closing_handles (\<lambda>c p (l, u). Some (l, u @ [p])) (l, []) = Some (l', cs)
    \<and> closing_handles l' = NULL"
proof -
  have w: "wf_with [9] loop1" using reachable_wf [OF loop1_ok(1)] by (simp add: loop1_ok(2))
  have "\<not> is_closing loop1 9" by (simp add: is_closing_def loop1_sel)
  with wf_close [OF w, of 9 7] obtain l where l: "uv_close 9 7 loop1 = Some l" by auto
  have r: "reachable l" using reachable.close [OF loop1_ok(1) _ l] by (simp add: loop1_ok(2))
  from closing_handles_are_finished [OF r, where call = "\<lambda>c p (l, u). Some (l, u @ [p])" and f = "\<lambda>c p u. u @ [p]" and u = "[]"] l r
  show ?thesis by auto
qed

text \<open>
  C24.  The poll timeout of a reachable loop is -1 exactly for want of an active timer, 0 when a timer is
  due, and otherwise positive, at most INT_MAX, and never past the timeout of any active timer; below
  INT_MAX it is the exact time to the earliest one.
\<close>

theorem next_timeout_never_late:
  assumes "reachable l"
  shows "(armed l = {} \<longrightarrow> uv__next_timeout l = - 1) \<and> (due l \<noteq> {} \<longrightarrow> uv__next_timeout l = 0)
    \<and> (armed l \<noteq> {} \<and> due l = {} \<longrightarrow> 0 < uv__next_timeout l \<and> uv__next_timeout l \<le> 2147483647
      \<and> (\<forall>p \<in> armed l. uint (time l) + uv__next_timeout l \<le> uint (timeout (handles l p)))
      \<and> (uv__next_timeout l < 2147483647 \<longrightarrow> (\<exists>p \<in> armed l. uint (timeout (handles l p)) = uint (time l) + uv__next_timeout l)))"
proof -
  have "timer_inv l" using reachable_wf [OF assms] by (simp add: wf_with_def loop_inv_def)
  then show ?thesis using next_timeout_spec by blast
qed

theorem next_timeout_never_late_witness:
  "reachable loop1 \<and> uv__next_timeout loop1 = - 1 \<and> (\<exists>l. uv_timer_start 9 7 0 0 loop1 = Some (0, l) \<and> uv__next_timeout l = 0)"
proof -
  have "armed loop1 = {}" by (auto simp: armed_def is_active_def loop1_sel blank_handle_def)
  moreover obtain l where "uv_timer_start 9 7 0 0 loop1 = Some (0, l)" "reachable l" "due l = {9}" using loop1_start by blast
  ultimately show ?thesis using next_timeout_never_late [OF loop1_ok(1)] next_timeout_never_late [of l] loop1_ok(1) by auto
qed

text \<open>
  C25.  An object identifier survives the trip from dotted decimals to DER and back: for components the
  format allows, CBB_add_asn1_oid_from_text of the text, into a builder with room for the DER contents, writes them, and
  CBS_asn1_oid_to_text of those contents gives the text again, however often its buffer of 32 bytes has to
  grow; no allocation fails, and the text is shorter than 2^61 characters.
\<close>

theorem oid_text_roundtrip:
  assumes "oid_valid cs" and "no_failures E" and "length (oid_text cs) < 2 ^ 61"
    and "CBB_init E n = (True, st)" and "length (oid_der cs) \<le> n" and "n < 2 ^ 64"
  shows "\<exists>st1 bf len st2 u. CBB_add_asn1_oid_from_text E 0 (oid_text cs) st = (True, st1)
    \<and> CBB_finish E 0 True True st1 = (Some (bf, len), st2)
    \<and> CBS_asn1_oid_to_text E (take len bf) = Some u \<and> c_str u = oid_text cs"
proof -
  obtain st1 bf st2 where w: "CBB_add_asn1_oid_from_text E 0 (oid_text cs) st = (True, st1)"
    "CBB_finish E 0 True True st1 = (Some (bf, length (oid_der cs)), st2)" "take (length (oid_der cs)) bf = oid_der cs"
    using session [OF oid_from_text_writer [OF assms(1)] assms(4-6)] by blast
  obtain u where t: "CBS_asn1_oid_to_text E (oid_der cs) = Some u"
    using oid_to_text_grows [OF assms(2,1,3)] by blast
  have "c_str u = oid_text cs" using oid_to_text_Some [OF t] oid_der_inj [OF assms(1)] by metis
  with w t show ?thesis by metis
qed

theorem oid_text_roundtrip_witness:
  "32 < length (oid_text oid_long) \<and> (\<exists>st1 bf len st2 u. CBB_add_asn1_oid_from_text env0 0 (oid_text oid_long) cbb32 = (True, st1)
    \<and> CBB_finish env0 0 True True st1 = (Some (bf, len), st2)
    \<and> CBS_asn1_oid_to_text env0 (take len bf) = Some u \<and> c_str u = oid_text oid_long)"
  using oid_text_roundtrip [OF oid_long_valid _ _ init_cbb32] oid_long_length by (simp add: no_failures_def env0_def)

text \<open>
  C26.  Every IPv4 and IPv6 address survives printing and reading: with a destination of 46 bytes or more,
  uv_inet_ntop succeeds and leaves a terminated string that uv_inet_pton reads back as the same
  bytes, whichever run of zero words the printer leaves out and whether or not it ends the text
  in a dotted quad.
\<close>

theorem inet_text_roundtrip:
  assumes "af \<noteq> AF_OTHER" and "length src = address_size af" and "UV__INET6_ADDRSTRLEN \<le> sz" and "sz \<le> length dst"
  shows "\<exists>out. uv_inet_ntop af src dst sz = (0, out) \<and> length out = length dst \<and> 0 \<in> set out
    \<and> uv_inet_pton af (Some (takeWhile (\<lambda>c. c \<noteq> 0) out)) True = Inr src"
  by (rule inet_pton_ntop [OF assms])

theorem inet_text_roundtrip_witness:
  "\<exists>out. uv_inet_ntop AF_INET6 (replicate 15 0 @ [1]) (replicate 46 0) 46 = (0, out)
    \<and> uv_inet_pton AF_INET6 (Some (takeWhile (\<lambda>c. c \<noteq> 0) out)) True = Inr (replicate 15 0 @ [1])"
  using inet_text_roundtrip [of AF_INET6 "replicate 15 0 @ [1]" 46 "replicate 46 0"]
  by (auto simp: address_size_def UV__INET6_ADDRSTRLEN_def)

text \<open>
  C27.  The reader of IPv4 addresses accepts exactly what the printer prints: four decimal numbers below
  256 without leading zeros, separated by single dots, and nothing else.
\<close>

theorem ipv4_text_strict:
  "uv_inet_pton AF_INET (Some s) True = Inr bs \<longleftrightarrow> length bs = 4 \<and> s = quad_text bs"
  by (simp add: uv_inet_pton_def pton4_iff)

text \<open>
  C28.  The UTF-8 reader accepts exactly the shortest encodings of the Unicode scalar values (up to U+10FFFF, without the
  surrogates U+D800 to U+DFFF) that are not noncharacters (U+FDD0 to U+FDEF and the last two of each plane):
  overlong forms, surrogates, noncharacters and values beyond U+10FFFF are refused.
\<close>

theorem utf8_reader_exact:
  "cbs_get_utf8 s = (Some w, t) \<longleftrightarrow>
     scalar_value (unat w) \<and> \<not> noncharacter (unat w) \<and> s = utf8 (unat w) @ t"
  unfolding cbs_get_utf8_iff is_valid_code_point_iff text_char_def by simp

text \<open>
  C29.  The recursion of cbs_convert_ber ends: with one unit of fuel more than the input has bytes the
  bounded loop always yields a result, and it is the one the model of the function returns.
\<close>

theorem ber_conversion_terminates:
  "cbs_convert_loop (length inp + 1) E string_tag eoc depth d inp st = Some (cbs_convert_ber E string_tag eoc depth d inp st)"
  by (rule cbs_convert_ber_total)

text \<open>
  C30.  cbs_find_ber forgets that it found BER: for an input of exactly two DER elements, a constructed one
  whose tag is not a string type and whose contents need conversion, and a primitive one after it, the function
  reports that no conversion is needed, because the flag of the nested call is overwritten by that of the next
  element.
\<close>

theorem ber_found_lost:
  assumes "length c < 2 ^ 32" and "length p < 2 ^ 32" and "tag AND CBS_ASN1_CONSTRUCTED \<noteq> 0" and "\<not> is_string_type tag"
    and "ptag AND CBS_ASN1_CONSTRUCTED = 0" and "cbs_find_ber c (depth + 1) = Some True"
  shows "cbs_find_ber (der_element tag c @ der_element ptag p) depth = Some False"
  by (rule find_ber_sibling [OF assms])

theorem ber_found_lost_witness:
  "cbs_find_ber (der_element CBS_ASN1_SEQUENCE [0x24, 0x00] @ der_element CBS_ASN1_INTEGER [1]) 0 = Some False"
  by (rule ber_found_lost) (simp_all add: find_ber_demo CBS_ASN1_SEQUENCE_def CBS_ASN1_INTEGER_def CBS_ASN1_CONSTRUCTED_def
      CBS_ASN1_OCTETSTRING_def is_string_type_def)

text \<open>
  C31.  CBS_get_asn1_implicit_string on an element that does not have the primitive tag succeeds exactly
  on the constructed form: an element with the constructed tag whose contents are primitive
  chunks, and the result is the concatenation of the chunks.
\<close>

theorem implicit_string_exact:
  assumes "CBB_init E (length s) = (True, st)" and "length s < 2 ^ 64" and "\<not> CBS_peek_asn1_tag s ot"
  shows "CBS_get_asn1_implicit_string E ot it s = (Some (out, conv), t) \<longleftrightarrow>
    conv \<and> (\<exists>cs. length (concat (map (der_element it) cs)) < 2 ^ 32
      \<and> s = der_element (ot OR CBS_ASN1_CONSTRUCTED) (concat (map (der_element it) cs)) @ t \<and> out = concat cs
      \<and> (\<forall>c\<in>set cs. length c < 2 ^ 32))"
  by (rule implicit_constructed [OF assms])

theorem implicit_string_exact_witness:
  "\<exists>conv. CBS_get_asn1_implicit_string env0 0x80000000 CBS_ASN1_OCTETSTRING implicit_demo = (Some ([1, 2], conv), [])"
proof -
  have i: "CBB_init env0 (length implicit_demo) = (True, fresh_cbb 8)"
    using init_fresh [of 8] by (simp only: implicit_demo_length)
  have "(\<exists>cs. length (concat (map (der_element CBS_ASN1_OCTETSTRING) cs)) < 2 ^ 32
      \<and> implicit_demo = der_element (0x80000000 OR CBS_ASN1_CONSTRUCTED) (concat (map (der_element CBS_ASN1_OCTETSTRING) cs)) @ []
      \<and> [1, 2] = concat cs \<and> (\<forall>c\<in>set cs. length c < 2 ^ 32))"
    by (rule exI [of _ "[[1], [2]]"]) (use implicit_demo_der in simp)
  with implicit_string_exact [OF i _ implicit_demo_tag, of CBS_ASN1_OCTETSTRING "[1, 2]" True "[]"]
  show ?thesis by (auto simp: implicit_demo_length)
qed

text \<open>
  C32.  The streaming encoder does not depend on how its input is cut: whatever chunks (each of at most
  0x50000000 bytes, and 0x7fffffff bytes in all) EVP_EncodeUpdate is given, its output followed by that of EVP_EncodeFinal is
  one text that depends on the concatenated input only, and the streaming decoder, given that
  text in one call, turns it back into the input and ends without error.
\<close>

theorem base64_stream_roundtrip:
  assumes "\<And>c. c \<in> set cs \<Longrightarrow> length c \<le> 0x50000000" and "length (concat cs) \<le> 0x7fffffff"
    and "encode_chunks EVP_EncodeInit cs = (ctx, out)" and "EVP_EncodeFinal ctx = (ctx', out', n)"
  shows "out @ out' = b64_stream (concat cs) \<and> n = length out'
    \<and> (\<exists>dctx r. EVP_DecodeUpdate EVP_DecodeInit (out @ out') = (dctx, concat cs, length (concat cs), r)
         \<and> 0 \<le> r \<and> EVP_DecodeFinal dctx = 1)"
proof -
  have e: "enc_ctx_ok ctx (concat cs)" "b64_lines (concat cs) = out"
    using encode_chunks_ok [OF encode_init_ok assms(1) assms(3)] b64_lines.simps [of "[]"] by simp_all
  have o: "out @ out' = b64_stream (concat cs)" "n = length out'"
    using encode_final_eq [OF e(1) assms(4)] e(2) by (simp_all add: b64_stream_def)
  have "dec_ctx_ok EVP_DecodeInit" by (simp add: dec_ctx_ok_def EVP_DecodeInit_def)
  from decode_stream [OF this, of "concat cs"] obtain d where
    d: "data_used d = 0" "\<not> error_encountered d"
       "decode_update_loop EVP_DecodeInit [] (b64_stream (concat cs)) = (d, concat cs, True)" by blast
  have "EVP_DecodeUpdate EVP_DecodeInit (out @ out')
      = (d, concat cs, length (concat cs), if eof_seen d then 0 else 1)"
    using d(3) assms(2) by (simp only: o EVP_DecodeUpdate_def) (simp add: EVP_DecodeInit_def)
  moreover have "EVP_DecodeFinal d = 1" using d(1,2) by (simp add: EVP_DecodeFinal_def)
  ultimately show ?thesis using o by auto
qed

theorem base64_stream_roundtrip_witness:
  "\<exists>ctx out ctx' out' n. encode_chunks EVP_EncodeInit [[1, 2], [3, 4]] = (ctx, out) \<and> EVP_EncodeFinal ctx = (ctx', out', n)
    \<and> out @ out' = b64_stream [1, 2, 3, 4]"
proof -
  obtain ctx out where e: "encode_chunks EVP_EncodeInit [[1, 2], [3, 4]] = (ctx, out)" by fastforce
  obtain ctx' out' n where f: "EVP_EncodeFinal ctx = (ctx', out', n)" by (metis prod_cases3)
  have "out @ out' = b64_stream (concat [[1, 2], [3, 4]])"
    using base64_stream_roundtrip [OF _ _ e f] by force
  then show ?thesis using e f by auto
qed

text \<open>
  C33.  The pointer stack implements a list, an empty one included: on a well-formed stack sk_insert either fails, returning
  zero and leaving the stack unchanged, or inserts at the position (at the end when the position
  is past it) and returns the new size; it fails only when an allocation fails or the array has
  2^59 slots; sk_delete removes and returns the element at every valid
  position and does nothing at any other; both keep the stack well formed, through every reallocation.
\<close>

theorem stack_refines_list:
  assumes "sk_inv s" and "sk_insert E (Some s) p pos = (n, s')"
  shows "((n = 0 \<and> s' = Some s \<and> \<not> (no_failures E \<and> num_alloc s < 2 ^ 59)) \<or>
      (\<exists>t. s' = Some t \<and> sk_inv t \<and> n = length (elems t) \<and> elems t = take pos (elems s) @ p # drop pos (elems s)))
    \<and> (\<forall>k < length (elems s). \<exists>t. sk_delete (Some s) k = (elems s ! k, Some t) \<and> sk_inv t
         \<and> elems t = take k (elems s) @ drop (Suc k) (elems s))
    \<and> (\<forall>k \<ge> length (elems s). sk_delete (Some s) k = (NULL, Some s))"
proof -
  have l: "length (elems s) = num s" using assms(1) by (rule length_elems)
  have "n \<noteq> 0" if "no_failures E \<and> num_alloc s < 2 ^ 59" using sk_insert_works [of E s p pos] that assms(2) by simp
  moreover have "\<exists>t. sk_delete (Some s) k = (elems s ! k, Some t) \<and> sk_inv t \<and> elems t = take k (elems s) @ drop (Suc k) (elems s)"
    if "k < length (elems s)" for k using sk_delete_spec [OF assms(1), of k] that l by auto
  moreover have "sk_delete (Some s) k = (NULL, Some s)" if "k \<ge> length (elems s)" for k using that l by (simp add: sk_delete_def)
  ultimately show ?thesis using sk_insert_spec [OF assms] l by fastforce
qed

theorem stack_refines_list_witness:
  "(\<exists>t. sk_insert env0 (Some stack3) 9 1 = (4, Some t) \<and> elems t = [2, 9, 4, 6]) \<and>
   (\<exists>t. sk_insert env0 (Some (stack3\<lparr>num := 0\<rparr>)) 9 1 = (1, Some t) \<and> elems t = [9]) \<and>
   (\<exists>t. sk_delete (Some stack3) 0 = (2, Some t) \<and> elems t = [4, 6])"
proof -
  have e: "no_failures env0" by (simp add: no_failures_def env0_def)
  obtain n s' where 1: "sk_insert env0 (Some stack3) 9 1 = (n, s')" by fastforce
  obtain m r' where 2: "sk_insert env0 (Some (stack3\<lparr>num := 0\<rparr>)) 9 1 = (m, r')" by fastforce
  have a: "num_alloc stack3 < 2 ^ 59" by (simp add: stack3_def)
  show ?thesis
    using stack_refines_list [OF stack3_ok(1) 1] stack_refines_list [OF stack0_ok(1) 2] 1 2 e a stack3_ok(2) stack0_ok(2) by auto
qed

text \<open>
  C34.  sk_set replaces an element and leaves the sorted flag as it was, although the element may no
  longer be in order: whenever an element in the first half of a stack marked as sorted (before the middle that the search
  looks at first) is set to one that the comparison puts above all elements behind it, sk_find does not find the
  new element, which is there.
\<close>

theorem stack_set_breaks_sorted:
  assumes "sk_inv s" and "sorted_flag s" and "comp s \<noteq> NULL" and "i < (num s - 1) div 2" and "x \<noteq> NULL"
    and "\<forall>y \<in> set (drop (Suc i) (elems s)). 0 < cmp (comp s) x y"
  shows "\<exists>t. sk_set (Some s) i x = (x, Some t) \<and> elems t = (elems s)[i := x] \<and> x \<in> set (elems t) \<and> sorted_flag t \<and>
    sk_find cmp (Some t) x = None"
proof -
  obtain t where t: "sk_set (Some s) i x = (x, Some t)" "elems t = (elems s)[i := x]" "sorted_flag t" "sk_find cmp (Some t) x = None"
    using sk_set_loses [OF assms(1-5), of cmp] assms(6) by blast
  have "i < length (elems s)" using assms(1,4) by simp
  then have "x \<in> set (elems t)" unfolding t(2) by (rule set_update_memI)
  with t show ?thesis by blast
qed

theorem stack_set_breaks_sorted_witness:
  "\<exists>t. sk_set (Some stack3) 0 9 = (9, Some t) \<and> elems t = [9, 4, 6] \<and> sk_find demo_cmp (Some t) 9 = None"
  using stack_set_breaks_sorted [of stack3 0 9 demo_cmp] stack3_ok by (auto simp: demo_cmp_def stack3_def)

text \<open>
  C35.  After an insertion into the hash table that succeeds, a lookup gives the inserted element for
  every key equal to it and what it gave before for every other key; the element replaced is
  returned.  The table's resizing does not show.
\<close>

theorem hash_retrieve_after_insert:
  assumes "lh_inv H C lh" and "OPENSSL_lh_insert E H C lh d = (True, old, lh')"
  shows "lh_inv H C lh' \<and> old = OPENSSL_lh_retrieve H C lh d
    \<and> (\<forall>e. OPENSSL_lh_retrieve H C lh' e = (if C (lcomp lh) d e = 0 then d else OPENSSL_lh_retrieve H C lh e))"
proof -
  have "lh_ins E H C lh d = Some lh'" using assms(2) by (simp add: lh_ins_def)
  then show ?thesis using lh.get_ins [OF assms(1)] lh_insert_spec [OF assms] by auto
qed

theorem hash_retrieve_after_insert_witness:
  "\<exists>lh. OPENSSL_lh_insert env0 demo_hash demo_cmp lh0 5 = (True, NULL, lh) \<and> OPENSSL_lh_retrieve demo_hash demo_cmp lh 5 = 5"
proof -
  obtain lh where "OPENSSL_lh_insert env0 demo_hash demo_cmp lh0 5 = (True, NULL, lh)" using lh0_insert by blast
  with hash_retrieve_after_insert [OF lh0_ok this] show ?thesis by (auto simp: demo_cmp_def)
qed

text \<open>
  C36.  lh_maybe_resize, whether it grows, shrinks, leaves the table or fails to allocate, keeps the
  items and the count, puts every item into the bucket of its hash, and never goes below the
  minimum number of buckets.
\<close>

theorem hash_resize_keeps_contents:
  assumes "placed (num_buckets lh) (buckets lh)" and "kMinNumBuckets \<le> num_buckets lh"
  shows "mset (concat (buckets (lh_maybe_resize E lh))) = mset (concat (buckets lh))
    \<and> num_items (lh_maybe_resize E lh) = num_items lh
    \<and> placed (num_buckets (lh_maybe_resize E lh)) (buckets (lh_maybe_resize E lh))
    \<and> kMinNumBuckets \<le> num_buckets (lh_maybe_resize E lh)"
  using lh_maybe_resize_ok [OF assms, of E] by (simp add: same_contents_def all_items_def)

theorem hash_resize_keeps_contents_witness:
  "num_items (lh_maybe_resize env0 lh0) = 0 \<and> kMinNumBuckets \<le> num_buckets (lh_maybe_resize env0 lh0)"
  using hash_resize_keeps_contents [of lh0 env0] lh0_ok by (simp add: lh_inv_def) (simp add: lh0_def)

text \<open>
  C37.  An integer field of one, two, four or eight bytes, the sizes nanopb supports, is decoded to the bytes it was encoded
  from: pb_enc_varint into a buffer of at least ten bytes succeeds and takes at most ten of them, and pb_dec_varint on the bytes that were
  written stores the field's bytes again, without reporting an overflow, and leaves nothing unread, also for
  negative values of narrow fields.  The same holds for unsigned fields and for signed fields in zigzag form.
\<close>

theorem integer_fields_roundtrip:
  assumes "data_size f \<in> {1, 2, 4, 8}" and "length src = data_size f" and "10 \<le> n" and "n \<le> length bf" and "n < 2 ^ 64"
  shows "(\<exists>t u. pb_enc_varint f src (pb_ostream_from_buffer bf n) = (True, t) \<and> bytes_written t \<le> 10
      \<and> pb_dec_varint (pb_istream_from_buffer (obuf t) (bytes_written t)) f dest = (True, src @ drop (data_size f) dest, u) \<and> bytes_left u = 0)
    \<and> (\<exists>t u. pb_enc_uvarint f src (pb_ostream_from_buffer bf n) = (True, t) \<and> bytes_written t \<le> 10
      \<and> pb_dec_uvarint (pb_istream_from_buffer (obuf t) (bytes_written t)) f dest = (True, src @ drop (data_size f) dest, u) \<and> bytes_left u = 0)
    \<and> (\<exists>t u. pb_enc_svarint f src (pb_ostream_from_buffer bf n) = (True, t) \<and> bytes_written t \<le> 10
      \<and> pb_dec_svarint (pb_istream_from_buffer (obuf t) (bytes_written t)) f dest = (True, src @ drop (data_size f) dest, u) \<and> bytes_left u = 0)"
  by (intro conjI field_roundtrip [OF assms]) simp_all

theorem integer_fields_roundtrip_witness:
  "\<exists>t u. pb_enc_varint \<lparr>ftag = 1, ftype = 1, data_size = 2\<rparr> [0xfe, 0xff] (pb_ostream_from_buffer (replicate 12 0) 12) = (True, t)
    \<and> pb_dec_varint (pb_istream_from_buffer (obuf t) (bytes_written t)) \<lparr>ftag = 1, ftype = 1, data_size = 2\<rparr> [7, 7, 7] = (True, [0xfe, 0xff, 7], u)"
  using integer_fields_roundtrip [of "\<lparr>ftag = 1, ftype = 1, data_size = 2\<rparr>" "[0xfe, 0xff]" 12 "replicate 12 0" "[7, 7, 7]"] by auto

text \<open>
  C38.  The eight-bit bit position of pb_decode_varint32_eof wraps around (uint_fast8_t has eight bits): after any five bytes
  with the continuation bit, 32 bytes of padding 0x80 and a final byte b, the decoder does not refuse the varint of 38
  bytes but takes b for bits 3 to 9, and returns the number of the first five bytes with these bits added.
  pb_decode_varint refuses the same input.
\<close>

theorem varint32_position_wraps:
  assumes "istate s = cs @ replicate 32 0x80 @ b # rest" and "38 \<le> bytes_left s"
    and "length cs = 5" and "list_all continues cs" and "\<not> continues b"
  shows "pb_decode_varint32 s = (Some (groups cs OR push_bit 3 (ucast b)), consume 38 s) \<and> fst (pb_decode_varint s) = None"
proof -
  have "istate s = (cs @ replicate 5 0x80) @ replicate 27 0x80 @ b # rest" using assms(1) by (simp add: replicate_add [symmetric])
  moreover have "list_all continues (cs @ replicate 5 0x80)" using assms(4) by (simp add: continues_def list_all_iff)
  ultimately have "fst (pb_decode_varint s) = None" using assms(2,3) by (intro varint64_refuses [of s "cs @ replicate 5 0x80"]) auto
  then show ?thesis using varint32_wraps [OF assms] by simp
qed

theorem varint32_position_wraps_witness:
  "fst (pb_decode_varint32 (pb_istream_from_buffer (replicate 37 0x80 @ [1]) 38)) = Some 8
   \<and> fst (pb_decode_varint (pb_istream_from_buffer (replicate 37 0x80 @ [1]) 38)) = None"
proof -
  have s: "istate (pb_istream_from_buffer (replicate 37 0x80 @ [1]) 38) = replicate 5 0x80 @ replicate 32 0x80 @ 1 # []"
    "38 \<le> bytes_left (pb_istream_from_buffer (replicate 37 0x80 @ [1]) 38)" by code_simp+
  have c: "length (replicate 5 (0x80 :: u8)) = 5" "list_all continues (replicate 5 0x80)" "\<not> continues 1" by code_simp+
  have "groups (replicate 5 0x80) OR push_bit 3 (ucast (1 :: u8)) = 8" by code_simp
  with varint32_position_wraps [OF s c] show ?thesis by simp
qed

text \<open>
  C39.  do_x509_check takes alternative names that cannot be decoded for absent ones.  When the leaf's names are in the cache, the
  chain verification constrains them and never looks at the common name; but when the second decoding, in
  do_x509_check, gives nothing (X509_get_ext_d2i returns NULL for lack of memory, too), X509_check_host compares the common
  name, which no DNS constraint was checked against.  So for a leaf with a single common name that is a host name (without a
  leading dot, a star or a null byte), the chain passes and that host is accepted, unless the caller forbids subjects.
\<close>

theorem failed_decode_checks_common_name:
  assumes "nc_chain vcb i2d (leaf # issuers) (int (length issuers)) False ctx = Inr (i, has, ctx1)"
    and "altname leaf \<noteq> None" and "san_ext leaf = None"
    and "entries (subject_name leaf) = [(NID_commonName, a)]" and "sdata a \<noteq> None" and "slen a \<noteq> 0"
    and "ASN1_STRING_to_UTF8 E a = Some (int (length h), Some d)" and "take (length h) d = h" and "x509v3_looks_like_dns_name h"
    and "0 \<notin> set h" and "plain_host h" and "ch_star \<notin> set h" and "opts AND X509_CHECK_FLAG_NEVER_CHECK_SUBJECT = 0"
  shows "check_name_constraints E vcb i2d (leaf # issuers) ctx = Some (True, ctx1)
    \<and> (\<exists>peer. X509_check_host E leaf (Some h) opts peername = Some (1, peer))"
  using cached_names_skip_common_name [of "leaf # issuers" E vcb i2d ctx] failed_decode_host [OF assms(3-13)] assms(1,2) by simp

theorem failed_decode_checks_common_name_witness:
  "check_name_constraints env0 (\<lambda>c. (False, c)) (\<lambda>n. (0, n)) [leaf_lost, ca_ab] ctx0 = Some (True, ctx0)
   \<and> (\<exists>peer. X509_check_host env0 leaf_lost (Some host_cd) 0 True = Some (1, peer))
   \<and> dns_bases (permittedSubtrees nc_ab) = {[0x61, 0x2e, 0x62]} \<and> \<not> dns_within [0x61, 0x2e, 0x62] host_cd"
proof -
  obtain d where d: "ASN1_STRING_to_UTF8 env0 (utf8_string host_cd) = Some (int (length host_cd), Some d)" "take (length host_cd) d = host_cd"
    using cn_utf8 [of host_cd] by auto
  have n: "nc_chain (\<lambda>c. (False, c)) (\<lambda>n. (0, n)) [leaf_lost, ca_ab] (int (length [ca_ab])) False ctx0 = Inr (- 1, True, ctx0)" by code_simp
  have h: "x509v3_looks_like_dns_name host_cd" "0 \<notin> set host_cd" "plain_host host_cd" "ch_star \<notin> set host_cd"
    "\<not> dns_within [0x61, 0x2e, 0x62] host_cd" by (code_simp, code_simp, code_simp, code_simp, rule host_cd_outside)
  show ?thesis using failed_decode_checks_common_name [OF n _ _ _ _ _ d h(1-4), of 0 True] h(5)
    by (simp add: ab_bases leaf_lost_def cn_name_def utf8_string_def) (simp add: host_cd_def)
qed

text \<open>
  C40.  When check_name_constraints refuses a chain because the leaf, without alternative names, has a host
  name as its common name, it names the leaf to the callback, whatever the callback then decides, as the certificate in
  error but reports the depth -1, the value the loop variable is left with, instead of the leaf's depth 0.
\<close>

theorem common_name_depth_lost:
  assumes "nc_chain vcb i2d certs (int (length certs) - 1) False ctx = Inr (i, True, ctx1)" and "altname (certs ! 0) = None"
    and "reject_dns_name_in_common_name E (certs ! 0) = Some X509_V_ERR_NAME_CONSTRAINTS_WITHOUT_SANS"
  shows "check_name_constraints E vcb i2d certs ctx =
    Some (vcb (ctx1\<lparr>ctx_error := X509_V_ERR_NAME_CONSTRAINTS_WITHOUT_SANS, ctx_error_depth := - 1, ctx_current_cert := Some (certs ! 0)\<rparr>))"
  by (rule common_name_depth [OF assms])

theorem common_name_depth_lost_witness:
  "check_name_constraints env0 (\<lambda>c. (True, c)) (\<lambda>n. (0, n)) [leaf_cn, ca_ab] ctx0 =
     Some (True, ctx0\<lparr>ctx_error := X509_V_ERR_NAME_CONSTRAINTS_WITHOUT_SANS, ctx_error_depth := - 1, ctx_current_cert := Some leaf_cn\<rparr>)"
proof -
  have n: "nc_chain (\<lambda>c. (True, c)) (\<lambda>n. (0, n)) [leaf_cn, ca_ab] (int (length [leaf_cn, ca_ab]) - 1) False ctx0 = Inr (- 1, True, ctx0)" by code_simp
  show ?thesis using common_name_depth_lost [OF n] leaf_cn_rejected by (simp add: leaf_cn_def)
qed

end
